(* ===== verification/Rust_Prelude.thy ===== *)
theory Rust_Prelude
  imports Main "HOL-Library.Word" "HOL-Library.Monad_Syntax"
begin

text \<open>
  Shared ground of the development: how Rust values and effects are represented, and the generic
  facts the component theories use.

  \<^item> A Rust function that can panic returns an \<open>option\<close>: \<open>None\<close> is the panic (a failed \<open>assert!\<close>, an
    index out of bounds, an arithmetic underflow, \<open>unwrap\<close> of \<open>None\<close>, \<open>unimplemented!\<close>), \<open>Some v\<close> the
    returned value. Sequencing is \<open>Option.bind\<close>, written in \<open>do\<close> blocks. A Rust \<open>Option<T>\<close> result of
    a function that can panic is therefore an \<open>'a option option\<close>.
  \<^item> A method taking \<open>&mut self\<close> returns the new value of \<open>self\<close>, paired with its result.
  \<^item> \<open>usize\<close> indices and lengths are \<open>nat\<close>, with every subtraction checked; machine integers whose
    width matters are \<open>'a word\<close>.
\<close>

unbundle bit_operations_syntax

named_theorems rust_simps "unfolding of panics, checked indexing and loops"
named_theorems abs_simps "what an operation does to the abstraction of its state"
named_theorems inv_intros "operations that keep a representation invariant"

type_synonym u8 = "8 word"
type_synonym u16 = "16 word"
type_synonym u32 = "32 word"
type_synonym u64 = "64 word"
type_synonym u128 = "128 word"


section \<open>Panics, indexing and slices\<close>

definition assert_that :: "bool \<Rightarrow> unit option" where
  "assert_that b = (if b then Some () else None)"

definition index_at :: "'a list \<Rightarrow> nat \<Rightarrow> 'a option" where
  "index_at xs i = (if i < length xs then Some (xs ! i) else None)"

definition store_at :: "'a list \<Rightarrow> nat \<Rightarrow> 'a \<Rightarrow> 'a list option" where
  "store_at xs i v = (if i < length xs then Some (xs[i := v]) else None)"

definition slice :: "'a list \<Rightarrow> nat \<Rightarrow> nat \<Rightarrow> 'a list option" where
  "slice xs a b = (if a \<le> b \<and> b \<le> length xs then Some (take (b - a) (drop a xs)) else None)"

definition checked_sub :: "nat \<Rightarrow> nat \<Rightarrow> nat option" where
  "checked_sub a b = (if b \<le> a then Some (a - b) else None)"

definition insert_at :: "nat \<Rightarrow> 'a \<Rightarrow> 'a list \<Rightarrow> 'a list option" where
  "insert_at i v xs = (if i \<le> length xs then Some (take i xs @ v # drop i xs) else None)"

definition remove_at :: "nat \<Rightarrow> 'a list \<Rightarrow> ('a \<times> 'a list) option" where
  "remove_at i xs = (if i < length xs then Some (xs ! i, take i xs @ drop (Suc i) xs) else None)"

fun position :: "('a \<Rightarrow> bool) \<Rightarrow> 'a list \<Rightarrow> nat option" where
  "position P [] = None"
| "position P (x # xs) = (if P x then Some 0 else map_option Suc (position P xs))"

definition rposition :: "('a \<Rightarrow> bool) \<Rightarrow> 'a list \<Rightarrow> nat option" where
  "rposition P xs = map_option (\<lambda>n. length xs - 1 - n) (position P (rev xs))"

lemma assert_that_True [simp]: "assert_that True = Some ()"
  and assert_that_False [simp]: "assert_that False = None"
  by (simp_all add: assert_that_def)

lemma bind_assert_that [simp]:
  "(assert_that b \<bind> f) = (if b then f () else None)"
  by (simp add: assert_that_def)

lemma assert_that_eq_Some [simp]: "assert_that b = Some u \<longleftrightarrow> b"
  by (simp add: assert_that_def)

lemma index_at_Some [simp]: "i < length xs \<Longrightarrow> index_at xs i = Some (xs ! i)"
  by (simp add: index_at_def)

lemma index_at_None [simp]: "length xs \<le> i \<Longrightarrow> index_at xs i = None"
  by (simp add: index_at_def)

lemma index_at_eq_Some: "index_at xs i = Some v \<longleftrightarrow> i < length xs \<and> xs ! i = v"
  by (simp add: index_at_def)

lemma store_at_Some [simp]: "i < length xs \<Longrightarrow> store_at xs i v = Some (xs[i := v])"
  by (simp add: store_at_def)

lemma store_at_None [simp]: "length xs \<le> i \<Longrightarrow> store_at xs i v = None"
  by (simp add: store_at_def)

lemma slice_Some [simp]:
  "a \<le> b \<Longrightarrow> b \<le> length xs \<Longrightarrow> slice xs a b = Some (take (b - a) (drop a xs))"
  by (simp add: slice_def)

lemma slice_eq_Some:
  "slice xs a b = Some ys \<longleftrightarrow> a \<le> b \<and> b \<le> length xs \<and> ys = take (b - a) (drop a xs)"
  by (auto simp: slice_def)

lemma checked_sub_Some [simp]: "b \<le> a \<Longrightarrow> checked_sub a b = Some (a - b)"
  by (simp add: checked_sub_def)

lemma checked_sub_None [simp]: "a < b \<Longrightarrow> checked_sub a b = None"
  by (simp add: checked_sub_def)

lemma checked_sub_eq_None [simp]: "checked_sub a b = None \<longleftrightarrow> a < b"
  by (auto simp: checked_sub_def)

lemma insert_at_Some [simp]:
  "i \<le> length xs \<Longrightarrow> insert_at i v xs = Some (take i xs @ v # drop i xs)"
  by (simp add: insert_at_def)

lemma remove_at_Some [simp]:
  "i < length xs \<Longrightarrow> remove_at i xs = Some (xs ! i, take i xs @ drop (Suc i) xs)"
  by (simp add: remove_at_def)

lemma position_Some_iff:
  "position P xs = Some i \<longleftrightarrow> i < length xs \<and> P (xs ! i) \<and> (\<forall>j<i. \<not> P (xs ! j))"
proof (induction xs arbitrary: i)
  case (Cons x xs)
  then show ?case by (cases i) (auto simp: less_Suc_eq_0_disj)
qed simp

lemma position_None_iff: "position P xs = None \<longleftrightarrow> (\<forall>x \<in> set xs. \<not> P x)"
  by (induction xs) auto

lemma rposition_Some_iff:
  "rposition P xs = Some i \<longleftrightarrow>
     i < length xs \<and> P (xs ! i) \<and> (\<forall>j. i < j \<and> j < length xs \<longrightarrow> \<not> P (xs ! j))"
proof -
  let ?n = "length xs"
  have "rposition P xs = Some i \<longleftrightarrow> i < ?n \<and> position P (rev xs) = Some (?n - 1 - i)"
    unfolding rposition_def
    by (auto simp: position_Some_iff)
  also have "\<dots> \<longleftrightarrow>
     i < ?n \<and> P (xs ! i) \<and> (\<forall>j. i < j \<and> j < ?n \<longrightarrow> \<not> P (xs ! j))"
  proof (cases "i < ?n")
    case True
    have "(\<forall>k < ?n - 1 - i. \<not> P (rev xs ! k)) \<longleftrightarrow> (\<forall>j. i < j \<and> j < ?n \<longrightarrow> \<not> P (xs ! j))"
    proof (intro iffI allI impI)
      fix j assume k: "\<forall>k < ?n - 1 - i. \<not> P (rev xs ! k)" and j: "i < j \<and> j < ?n"
      from j have "?n - 1 - j < ?n - 1 - i" by arith
      with k have "\<not> P (rev xs ! (?n - 1 - j))" by blast
      with j show "\<not> P (xs ! j)" by (auto simp: rev_nth)
    next
      fix k assume "\<forall>j. i < j \<and> j < ?n \<longrightarrow> \<not> P (xs ! j)" and "k < ?n - 1 - i"
      moreover from this have "i < ?n - Suc k" by arith
      ultimately show "\<not> P (rev xs ! k)" by (simp add: rev_nth)
    qed
    with True show ?thesis by (auto simp: position_Some_iff rev_nth)
  qed simp
  finally show ?thesis .
qed

lemma rposition_None_iff: "rposition P xs = None \<longleftrightarrow> (\<forall>x \<in> set xs. \<not> P x)"
  by (simp add: rposition_def position_None_iff)

lemma those_map_Some: "(\<And>x. x \<in> set xs \<Longrightarrow> f x = Some (g x)) \<Longrightarrow> those (map f xs) = Some (map g xs)"
  by (induction xs) auto


section \<open>Loops\<close>

text \<open>\<open>for x in xs\<close> over a state, stopping at the first panic.\<close>

fun for_each :: "('a \<Rightarrow> 's \<Rightarrow> 's option) \<Rightarrow> 'a list \<Rightarrow> 's \<Rightarrow> 's option" where
  "for_each f [] s = Some s"
| "for_each f (x # xs) s = f x s \<bind> for_each f xs"

abbreviation for_range :: "nat \<Rightarrow> nat \<Rightarrow> (nat \<Rightarrow> 's \<Rightarrow> 's option) \<Rightarrow> 's \<Rightarrow> 's option" where
  "for_range lo hi f \<equiv> for_each f [lo..<hi]"

lemma for_each_append: "for_each f (xs @ ys) s = for_each f xs s \<bind> for_each f ys"
  by (induction xs arbitrary: s) (auto split: bind_splits)

text \<open>Total correctness of a loop: an invariant over the elements already visited.\<close>

lemma for_each_rule:
  assumes "I [] s"
    and "\<And>ys y zs t. xs = ys @ y # zs \<Longrightarrow> I ys t \<Longrightarrow> \<exists>t'. f y t = Some t' \<and> I (ys @ [y]) t'"
  shows "\<exists>t. for_each f xs s = Some t \<and> I xs t"
proof -
  have "I ys t \<Longrightarrow> xs = ys @ zs \<Longrightarrow> \<exists>t'. for_each f zs t = Some t' \<and> I xs t'" for ys zs t
  proof (induction zs arbitrary: ys t)
    case (Cons z zs)
    then obtain t' where "f z t = Some t'" "I (ys @ [z]) t'" using assms(2) by blast
    with Cons.IH [of "ys @ [z]" t'] Cons.prems show ?case by simp
  qed simp
  from this [of "[]" s xs] assms(1) show ?thesis by simp
qed

lemma for_range_rule:
  assumes "lo \<le> hi" and "I lo s"
    and "\<And>i t. lo \<le> i \<Longrightarrow> i < hi \<Longrightarrow> I i t \<Longrightarrow> \<exists>t'. f i t = Some t' \<and> I (Suc i) t'"
  shows "\<exists>t. for_range lo hi f s = Some t \<and> I hi t"
proof -
  have "I i t \<Longrightarrow> lo \<le> i \<Longrightarrow> i \<le> hi \<Longrightarrow> \<exists>t'. for_range i hi f t = Some t' \<and> I hi t'" for i t
  proof (induction "hi - i" arbitrary: i t)
    case (Suc n)
    then have i: "i < hi" by simp
    with Suc.prems assms(3) obtain t' where "f i t = Some t'" "I (Suc i) t'" by blast
    with Suc.hyps(1) [of "Suc i" t'] Suc.hyps(2) Suc.prems i show ?case
      by (simp add: upt_conv_Cons)
  qed simp
  with assms(1,2) show ?thesis by blast
qed


section \<open>Ranges\<close>

text \<open>\<open>std::ops::Bound\<close> and the pair of bounds behind \<open>RangeBounds\<close>.\<close>

datatype 'a bound = Included 'a | Excluded 'a | Unbounded

type_synonym 'a range_bounds = "'a bound \<times> 'a bound"

fun above_start :: "'a::linorder bound \<Rightarrow> 'a \<Rightarrow> bool" where
  "above_start (Included a) x \<longleftrightarrow> a \<le> x"
| "above_start (Excluded a) x \<longleftrightarrow> a < x"
| "above_start Unbounded x \<longleftrightarrow> True"

fun below_end :: "'a::linorder bound \<Rightarrow> 'a \<Rightarrow> bool" where
  "below_end (Included b) x \<longleftrightarrow> x \<le> b"
| "below_end (Excluded b) x \<longleftrightarrow> x < b"
| "below_end Unbounded x \<longleftrightarrow> True"

text \<open>\<open>RangeBounds::contains\<close>.\<close>

definition range_contains :: "'a::linorder range_bounds \<Rightarrow> 'a \<Rightarrow> bool" where
  "range_contains r x \<longleftrightarrow> above_start (fst r) x \<and> below_end (snd r) x"


section \<open>Bit counting\<close>

definition count_ones :: "'a::len word \<Rightarrow> nat" where
  "count_ones w = length (filter (bit w) [0..<LENGTH('a)])"

definition trailing_zeros :: "'a::len word \<Rightarrow> nat" where
  "trailing_zeros w = length (takeWhile (\<lambda>i. \<not> bit w i) [0..<LENGTH('a)])"

definition leading_zeros :: "'a::len word \<Rightarrow> nat" where
  "leading_zeros w = length (takeWhile (\<lambda>i. \<not> bit w i) (rev [0..<LENGTH('a)]))"

lemma bit_less_length: "bit w i \<Longrightarrow> i < LENGTH('a)" for w :: "'a::len word"
  by (rule bit_imp_le_length)

lemma finite_bits [simp]: "finite {i. bit w i}" for w :: "'a::len word"
  by (rule finite_subset [of _ "{..<LENGTH('a)}"]) (auto dest: bit_less_length)

lemma count_ones_card: "count_ones w = card {i. bit w i}" for w :: "'a::len word"
proof -
  have "count_ones w = card (set (filter (bit w) [0..<LENGTH('a)]))"
    by (simp add: count_ones_def distinct_card del: set_filter)
  also have "set (filter (bit w) [0..<LENGTH('a)]) = {i. bit w i}"
    by (auto dest: bit_less_length)
  finally show ?thesis .
qed

lemma count_ones_le: "count_ones w \<le> LENGTH('a)" for w :: "'a::len word"
  unfolding count_ones_def by (metis length_filter_le length_upt minus_nat.diff_0)

lemma word_eq_iff_bits: "v = w \<longleftrightarrow> (\<forall>i. bit v i \<longleftrightarrow> bit w i)" for v w :: "'a::len word"
  by (rule bit_eq_iff [THEN trans]) (use bit_less_length [of v] bit_less_length [of w] in auto)

lemma word_nonzero_bit: "w \<noteq> 0 \<longleftrightarrow> (\<exists>i. bit w i)" for w :: "'a::len word"
  by (simp add: word_eq_iff_bits)

lemma count_ones_0_iff [simp]: "count_ones w = 0 \<longleftrightarrow> w = 0" for w :: "'a::len word"
  using word_nonzero_bit [of w] by (auto simp: count_ones_card)

lemma trailing_zeros_bit:
  fixes w :: "'a::len word"
  assumes "w \<noteq> 0"
  shows "bit w (trailing_zeros w)" and "trailing_zeros w < LENGTH('a)"
    and "\<And>j. bit w j \<Longrightarrow> trailing_zeros w \<le> j"
proof -
  let ?P = "\<lambda>i. \<not> bit w i" and ?xs = "[0..<LENGTH('a)]"
  obtain i where i: "bit w i" using assms by (auto simp: word_nonzero_bit)
  then have "i < LENGTH('a)" by (rule bit_less_length)
  with i have "takeWhile ?P ?xs \<noteq> ?xs"
    by (auto simp: takeWhile_eq_all_conv)
  then have lt: "length (takeWhile ?P ?xs) < length ?xs"
    by (metis length_takeWhile_le nat_less_le takeWhile_eq_take take_all)
  from nth_length_takeWhile [OF lt] lt show bit: "bit w (trailing_zeros w)"
    by (simp add: trailing_zeros_def)
  from lt show "trailing_zeros w < LENGTH('a)" by (simp add: trailing_zeros_def)
  show "trailing_zeros w \<le> j" if "bit w j" for j
  proof (rule ccontr)
    assume "\<not> trailing_zeros w \<le> j"
    then have j: "j < length (takeWhile ?P ?xs)" by (simp add: trailing_zeros_def)
    then have "takeWhile ?P ?xs ! j = j" using lt by (simp add: takeWhile_nth)
    with j have "\<not> bit w j" by (metis nth_mem set_takeWhileD)
    with that show False by simp
  qed
qed

lemma leading_zeros_bit:
  fixes w :: "'a::len word"
  assumes "w \<noteq> 0"
  shows "leading_zeros w < LENGTH('a)" and "bit w (LENGTH('a) - 1 - leading_zeros w)"
    and "\<And>j. bit w j \<Longrightarrow> j \<le> LENGTH('a) - 1 - leading_zeros w"
proof -
  let ?P = "\<lambda>i. \<not> bit w i" and ?xs = "rev [0..<LENGTH('a)]"
  obtain i where i: "bit w i" using assms by (auto simp: word_nonzero_bit)
  then have "i < LENGTH('a)" by (rule bit_less_length)
  with i have "takeWhile ?P ?xs \<noteq> ?xs"
    by (auto simp: takeWhile_eq_all_conv)
  then have lt: "length (takeWhile ?P ?xs) < length ?xs"
    by (metis length_takeWhile_le nat_less_le takeWhile_eq_take take_all)
  then show lz: "leading_zeros w < LENGTH('a)" by (simp add: leading_zeros_def)
  from nth_length_takeWhile [OF lt] lt show bit: "bit w (LENGTH('a) - 1 - leading_zeros w)"
    by (simp add: leading_zeros_def rev_nth)
  show "j \<le> LENGTH('a) - 1 - leading_zeros w" if b: "bit w j" for j
  proof (rule ccontr)
    assume n: "\<not> j \<le> LENGTH('a) - 1 - leading_zeros w"
    have jl: "j < LENGTH('a)" using b by (rule bit_less_length)
    define k where "k = LENGTH('a) - 1 - j"
    have k: "k < length (takeWhile ?P ?xs)"
      using n jl lz unfolding k_def leading_zeros_def by arith
    then have "takeWhile ?P ?xs ! k = j"
      using lt jl by (simp add: takeWhile_nth rev_nth k_def)
    with k have "\<not> bit w j" by (metis nth_mem set_takeWhileD)
    with b show False by simp
  qed
qed


section \<open>Bytes of integers\<close>

definition to_le_bytes :: "'a::len word \<Rightarrow> u8 list" where
  "to_le_bytes v = map (\<lambda>i. ucast (drop_bit (8 * i) v)) [0..<LENGTH('a) div 8]"

fun from_le_bytes :: "u8 list \<Rightarrow> 'a::len word" where
  "from_le_bytes [] = 0"
| "from_le_bytes (b # bs) = ucast b OR push_bit 8 (from_le_bytes bs)"

end
