(* ===== verification/Bit_Words.thy ===== *)
theory Bit_Words
  imports Rust_Prelude
begin

text \<open>
  The word layer of \<open>compiler/rustc_index/src/bit_set.rs\<close>: a set of indices stored as a vector of
  64-bit words. The helper functions at the end of the file (\<open>num_words\<close>, \<open>word_index_and_mask\<close>,
  \<open>clear_excess_bits_in_final_word\<close>, \<open>max_bit\<close>, \<open>bitwise\<close>, \<open>bitwise_changes\<close>), the iterator
  \<open>BitIter\<close>, and the abstraction \<open>bits\<close> of a word vector to the set of indices it stores.
\<close>

section \<open>Constants and index arithmetic\<close>

definition WORD_BITS :: nat where
  "WORD_BITS = 64"

definition num_words :: "nat \<Rightarrow> nat" where
  "num_words domain_size = (domain_size + WORD_BITS - 1) div WORD_BITS"

definition word_index_and_mask :: "nat \<Rightarrow> nat \<times> u64" where
  "word_index_and_mask elem =
     (let word_index = elem div WORD_BITS;
          mask = push_bit (elem mod WORD_BITS) 1
      in (word_index, mask))"

definition clear_excess_bits_in_final_word :: "nat \<Rightarrow> u64 list \<Rightarrow> u64 list option" where
  "clear_excess_bits_in_final_word domain_size ws =
     (let num_bits_in_final_word = domain_size mod WORD_BITS in
      if num_bits_in_final_word > 0 then do {
        let mask = push_bit num_bits_in_final_word 1 - 1;
        last_index \<leftarrow> checked_sub (length ws) 1;
        w \<leftarrow> index_at ws last_index;
        store_at ws last_index (w AND mask)
      } else Some ws)"

definition max_bit :: "u64 \<Rightarrow> nat option" where
  "max_bit word = checked_sub (WORD_BITS - 1) (leading_zeros word)"


section \<open>Bitwise combination of two vectors\<close>

text \<open>The loop of \<open>bitwise\<close>: \<open>changed\<close> accumulates the exclusive or of old and new words.\<close>

fun bitwise_loop :: "(u64 \<Rightarrow> u64 \<Rightarrow> u64) \<Rightarrow> u64 \<Rightarrow> u64 list \<Rightarrow> u64 list \<Rightarrow> u64 \<times> u64 list" where
  "bitwise_loop op_fn changed (out_elem # out_vec) (in_elem # in_vec) =
     (let old_val = out_elem;
          new_val = op_fn old_val in_elem;
          (changed', rest) = bitwise_loop op_fn (changed OR (old_val XOR new_val)) out_vec in_vec
      in (changed', new_val # rest))"
| "bitwise_loop op_fn changed out_vec in_vec = (changed, out_vec)"

definition bitwise :: "(u64 \<Rightarrow> u64 \<Rightarrow> u64) \<Rightarrow> u64 list \<Rightarrow> u64 list \<Rightarrow> (bool \<times> u64 list) option" where
  "bitwise op_fn out_vec in_vec = do {
     assert_that (length out_vec = length in_vec);
     let (changed, out_vec') = bitwise_loop op_fn 0 out_vec in_vec;
     Some (changed \<noteq> 0, out_vec')
   }"

fun bitwise_changes_loop :: "(u64 \<Rightarrow> u64 \<Rightarrow> u64) \<Rightarrow> u64 list \<Rightarrow> u64 list \<Rightarrow> bool" where
  "bitwise_changes_loop op_fn (out_elem # out_vec) (in_elem # in_vec) =
     (let old_val = out_elem;
          new_val = op_fn old_val in_elem
      in if old_val \<noteq> new_val then True else bitwise_changes_loop op_fn out_vec in_vec)"
| "bitwise_changes_loop op_fn out_vec in_vec = False"

definition bitwise_changes :: "(u64 \<Rightarrow> u64 \<Rightarrow> u64) \<Rightarrow> u64 list \<Rightarrow> u64 list \<Rightarrow> bool option" where
  "bitwise_changes op_fn out_vec in_vec = do {
     assert_that (length out_vec = length in_vec);
     Some (bitwise_changes_loop op_fn out_vec in_vec)
   }"


section \<open>The iterator over set bits\<close>

text \<open>
  \<open>BitIter\<close> keeps the current word with the visited bits cleared, its bit offset, and the words not
  yet visited. The offset is a 64-bit \<open>usize\<close>: \<open>new\<close> gives it the degenerate value
  \<open>usize::MAX - (WORD_BITS - 1)\<close>, which the first \<open>wrapping_add\<close> turns into 0.
\<close>

record bit_iter =
  bi_word :: u64
  bi_offset :: u64
  bi_iter :: "u64 list"

definition bit_iter_new :: "u64 list \<Rightarrow> bit_iter" where
  "bit_iter_new ws = \<lparr>bi_word = 0, bi_offset = (- 1) - (64 - 1), bi_iter = ws\<rparr>"

function bit_iter_next :: "bit_iter \<Rightarrow> nat option \<times> bit_iter" where
  "bit_iter_next it =
     (if bi_word it \<noteq> 0 then
        (let bit_pos = trailing_zeros (bi_word it);
             bit = push_bit bit_pos 1
         in (Some (unat (of_nat bit_pos + bi_offset it)), it\<lparr>bi_word := bi_word it XOR bit\<rparr>))
      else case bi_iter it of
        [] \<Rightarrow> (None, it)
      | word # rest \<Rightarrow>
          bit_iter_next \<lparr>bi_word = word, bi_offset = bi_offset it + 64, bi_iter = rest\<rparr>)"
  by pat_completeness auto
termination
  by (relation "measure (\<lambda>it. length (bi_iter it))") auto

declare bit_iter_next.simps [simp del]

text \<open>All elements an iterator yields, in order: \<open>collect\<close>.\<close>

definition bit_iter_size :: "bit_iter \<Rightarrow> nat" where
  "bit_iter_size it = count_ones (bi_word it) + sum_list (map count_ones (bi_iter it))"

lemma card_remove_bit:
  fixes w :: "'a::len word"
  assumes "bit w k"
  shows "bit (w XOR push_bit k 1) i \<longleftrightarrow> bit w i \<and> i \<noteq> k"
    and "count_ones w = Suc (count_ones (w XOR push_bit k 1))"
proof -
  have k: "k < LENGTH('a)" using assms by (rule bit_less_length)
  show b: "bit (w XOR push_bit k 1) i \<longleftrightarrow> bit w i \<and> i \<noteq> k" for i
    using assms k by (auto simp: bit_simps dest: bit_less_length)
  have "{i. bit w i} = insert k {i. bit (w XOR push_bit k 1) i}"
    using assms b by blast
  then show "count_ones w = Suc (count_ones (w XOR push_bit k 1))"
    using b [of k] by (simp add: count_ones_card del: push_bit_of_1)
qed

lemma bit_iter_next_size:
  "bit_iter_next it = (Some x, it') \<Longrightarrow> bit_iter_size it' < bit_iter_size it"
proof (induction it arbitrary: x it' rule: bit_iter_next.induct)
  case (1 it)
  show ?case
  proof (cases "bi_word it = 0")
    case False
    with "1.prems" have "it' = it\<lparr>bi_word := bi_word it XOR push_bit (trailing_zeros (bi_word it)) 1\<rparr>"
      by (simp add: bit_iter_next.simps [of it] Let_def)
    with False card_remove_bit(2) [OF trailing_zeros_bit(1) [OF False]] show ?thesis
      by (simp add: bit_iter_size_def)
  next
    case True
    with "1.prems" obtain w ws where ws: "bi_iter it = w # ws"
      by (cases "bi_iter it") (auto simp: bit_iter_next.simps [of it])
    with 1 True show ?thesis
      by (fastforce simp: bit_iter_next.simps [of it] bit_iter_size_def)
  qed
qed

function bit_iter_collect :: "bit_iter \<Rightarrow> nat list" where
  "bit_iter_collect it =
     (case bit_iter_next it of
        (None, _) \<Rightarrow> []
      | (Some x, it') \<Rightarrow> x # bit_iter_collect it')"
  by pat_completeness auto
termination
  by (relation "measure bit_iter_size") (auto dest: bit_iter_next_size [OF sym])

declare bit_iter_collect.simps [simp del]


section \<open>The set a word vector stores\<close>

lemma WORD_BITS_pos [simp]: "0 < WORD_BITS" "WORD_BITS \<noteq> 0"
  by (simp_all add: WORD_BITS_def)

lemma bit_less_WORD_BITS: "bit w n \<Longrightarrow> n < WORD_BITS" for w :: u64
  using bit_less_length [of w n] by (simp add: WORD_BITS_def)

lemma mod_WORD_BITS_less [simp]: "n mod WORD_BITS < WORD_BITS" "n mod WORD_BITS < 64"
  by (simp_all add: WORD_BITS_def)

definition bits :: "u64 list \<Rightarrow> nat set" where
  "bits ws = {i. i div WORD_BITS < length ws \<and> bit (ws ! (i div WORD_BITS)) (i mod WORD_BITS)}"

lemma mem_bits_iff:
  "i \<in> bits ws \<longleftrightarrow> i div WORD_BITS < length ws \<and> bit (ws ! (i div WORD_BITS)) (i mod WORD_BITS)"
  by (simp add: bits_def)

lemma bits_bound: "i \<in> bits ws \<Longrightarrow> i < WORD_BITS * length ws"
  by (auto simp: mem_bits_iff div_less_iff_less_mult mult.commute)

lemma finite_bits_list [simp]: "finite (bits ws)"
  by (rule finite_subset [of _ "{..<WORD_BITS * length ws}"]) (auto dest: bits_bound)

lemma bits_Nil [simp]: "bits [] = {}"
  by (simp add: bits_def)

lemma bits_word_member:
  "k < length ws \<Longrightarrow> bit (ws ! k) n \<longleftrightarrow> n < WORD_BITS \<and> k * WORD_BITS + n \<in> bits ws"
  using bit_less_WORD_BITS [of "ws ! k" n] by (auto simp: mem_bits_iff)

lemma bits_eq_iff: "length ws = length vs \<Longrightarrow> bits ws = bits vs \<longleftrightarrow> ws = vs"
proof
  assume len: "length ws = length vs" and eq: "bits ws = bits vs"
  show "ws = vs"
  proof (rule nth_equalityI [OF len])
    fix k assume k: "k < length ws"
    show "ws ! k = vs ! k"
      by (rule bit_eqI) (use k len eq in \<open>simp add: bits_word_member\<close>)
  qed
qed simp

lemma bits_replicate_0 [simp]: "bits (replicate n 0) = {}"
  by (auto simp: mem_bits_iff)

lemma bits_append_zeros: "bits (ws @ replicate n 0) = bits ws"
  by (auto simp: mem_bits_iff nth_append split: if_splits)

lemma bits_replicate_all [simp]: "bits (replicate n (- 1)) = {..<WORD_BITS * n}"
  by (auto simp: mem_bits_iff div_less_iff_less_mult mult.commute)

lemma bits_empty_iff: "bits ws = {} \<longleftrightarrow> (\<forall>w \<in> set ws. w = 0)"
proof
  assume "bits ws = {}"
  then have "ws = replicate (length ws) 0"
    by (subst bits_eq_iff [symmetric]) simp_all
  then show "\<forall>w \<in> set ws. w = 0" by (metis in_set_replicate)
next
  assume "\<forall>w \<in> set ws. w = 0"
  then have "ws = replicate (length ws) 0" by (metis replicate_eqI)
  then show "bits ws = {}" by (metis bits_replicate_0)
qed

lemma bits_update:
  "k < length ws \<Longrightarrow>
   bits (ws[k := w]) = {i \<in> bits ws. i div WORD_BITS \<noteq> k} \<union>
                       {i. i div WORD_BITS = k \<and> bit w (i mod WORD_BITS)}"
  by (auto simp: mem_bits_iff nth_list_update split: if_splits)

lemma bits_Cons: "bits (w # ws) = {i. bit w i} \<union> (+) WORD_BITS ` bits ws"
proof (rule set_eqI)
  fix i
  show "i \<in> bits (w # ws) \<longleftrightarrow> i \<in> {i. bit w i} \<union> (+) WORD_BITS ` bits ws"
  proof (cases "i < WORD_BITS")
    case True
    then show ?thesis by (auto simp: mem_bits_iff)
  next
    case False
    then obtain j where j: "i = WORD_BITS + j" using le_iff_add [of WORD_BITS i] by auto
    have "\<not> bit w i" using False bit_less_WORD_BITS [of w i] by auto
    moreover have "i div WORD_BITS = Suc (j div WORD_BITS)" and "i mod WORD_BITS = j mod WORD_BITS"
      using j div_add_self1 [of WORD_BITS j] by simp_all
    moreover have "i \<in> (+) WORD_BITS ` bits ws \<longleftrightarrow> j \<in> bits ws" using j by auto
    ultimately show ?thesis by (simp add: mem_bits_iff)
  qed
qed

lemma card_bits: "card (bits ws) = sum_list (map count_ones ws)"
proof (induction ws)
  case (Cons w ws)
  have "{i. bit w i} \<inter> (+) WORD_BITS ` bits ws = {}"
    by (auto dest: bit_less_WORD_BITS)
  then show ?case
    by (simp add: bits_Cons card_Un_disjoint Cons count_ones_card card_image)
qed simp

lemma bits_map2:
  assumes "length ws = length vs"
    and "\<And>a b n. n < WORD_BITS \<Longrightarrow> bit (f a b) n \<longleftrightarrow> P (bit a n) (bit b n)"
  shows "bits (map2 f ws vs) = {i. i div WORD_BITS < length ws \<and> P (i \<in> bits ws) (i \<in> bits vs)}"
  using assms by (auto simp: mem_bits_iff)


section \<open>Word arithmetic of the helpers\<close>

lemma num_words_bounds:
  "d \<le> WORD_BITS * num_words d" "WORD_BITS * num_words d < d + WORD_BITS"
  by (auto simp: num_words_def WORD_BITS_def)

lemma num_words_eq:
  "num_words d = d div WORD_BITS + (if d mod WORD_BITS = 0 then 0 else 1)"
proof -
  have "num_words d = (d mod WORD_BITS + 63 + d div WORD_BITS * WORD_BITS) div WORD_BITS"
    using div_mult_mod_eq [of d WORD_BITS] by (simp add: num_words_def WORD_BITS_def)
  also have "\<dots> = d div WORD_BITS + (d mod WORD_BITS + 63) div WORD_BITS"
    by (rule div_mult_self1) simp
  also have "(d mod WORD_BITS + 63) div WORD_BITS = (if d mod WORD_BITS = 0 then 0 else 1)"
    using mod_less_divisor [of WORD_BITS d] by (auto intro!: div_nat_eqI simp: WORD_BITS_def)
  finally show ?thesis .
qed

lemma num_words_0_iff [simp]: "num_words d = 0 \<longleftrightarrow> d = 0"
  by (auto simp: num_words_def WORD_BITS_def)

lemma word_index_less: "i < d \<Longrightarrow> i div WORD_BITS < num_words d"
  by (auto simp: num_words_def WORD_BITS_def)

definition elem_mask :: "nat \<Rightarrow> u64" where
  "elem_mask e = push_bit (e mod WORD_BITS) 1"

lemma word_index_and_mask_eq [simp]: "word_index_and_mask e = (e div WORD_BITS, elem_mask e)"
  by (simp add: word_index_and_mask_def elem_mask_def)

lemma bit_word_mask: "bit (elem_mask e) n \<longleftrightarrow> n = e mod WORD_BITS"
  by (auto simp: elem_mask_def bit_simps)

lemma and_mask_nonzero:
  "w AND elem_mask e \<noteq> 0 \<longleftrightarrow> bit w (e mod WORD_BITS)"
  by (auto simp: word_nonzero_bit bit_and_iff bit_word_mask)

lemma or_mask_eq: "w OR elem_mask e = w \<longleftrightarrow> bit w (e mod WORD_BITS)"
  by (auto simp: word_eq_iff_bits bit_or_iff bit_word_mask)

lemma and_not_mask_eq: "w AND NOT (elem_mask e) = w \<longleftrightarrow> \<not> bit w (e mod WORD_BITS)"
proof -
  have "bit (w AND NOT (elem_mask e)) n \<longleftrightarrow> bit w n \<and> n \<noteq> e mod WORD_BITS" for n
    using bit_less_length [of w n] by (auto simp: bit_simps bit_word_mask)
  then show ?thesis by (auto simp: word_eq_iff_bits)
qed

lemma bits_set_bit:
  "e div WORD_BITS < length ws \<Longrightarrow>
   bits (ws[e div WORD_BITS := ws ! (e div WORD_BITS) OR elem_mask e]) =
   insert e (bits ws)"
  by (auto simp: bits_update bit_or_iff bit_word_mask mem_bits_iff)
     (metis div_mod_decomp)

lemma bits_clear_bit:
  "e div WORD_BITS < length ws \<Longrightarrow>
   bits (ws[e div WORD_BITS := ws ! (e div WORD_BITS) AND NOT (elem_mask e)]) =
   bits ws - {e}"
  by (auto simp: bits_update bit_simps bit_word_mask mem_bits_iff)
     (metis div_mod_decomp)

lemma bit_low_mask: "n < WORD_BITS \<Longrightarrow> bit (2 ^ n - 1 :: u64) i \<longleftrightarrow> i < n"
  by (auto simp: bit_mask_iff WORD_BITS_def simp flip: mask_eq_exp_minus_1)

lemma le_iff_div_mod:
  fixes a b n :: nat
  assumes "0 < n"
  shows "a \<le> b \<longleftrightarrow> a div n < b div n \<or> a div n = b div n \<and> a mod n \<le> b mod n"
proof -
  have "a div n < b div n" if "a \<le> b" "a div n \<noteq> b div n"
    using that div_le_mono [of a b n] by simp
  moreover have "a \<le> b" if "a div n < b div n"
    using that by (metis div_le_mono linorder_not_le nat_le_linear)
  moreover have "a \<le> b \<longleftrightarrow> a mod n \<le> b mod n" if "a div n = b div n"
    using that div_mult_mod_eq [of a n] div_mult_mod_eq [of b n] by (metis nat_add_left_cancel_le)
  ultimately show ?thesis by blast
qed

lemmas word_le_iff = le_iff_div_mod [of WORD_BITS, simplified]

lemma clear_excess_bits:
  assumes len: "length ws = num_words d"
  shows "\<exists>vs. clear_excess_bits_in_final_word d ws = Some vs \<and> length vs = length ws \<and>
              bits vs = bits ws \<inter> {..<d}"
proof (cases "d mod WORD_BITS = 0")
  case True
  then have "WORD_BITS * num_words d = d" by (auto simp: num_words_eq)
  then have "bits ws \<subseteq> {..<d}" using len by (auto dest: bits_bound)
  then show ?thesis using True by (auto simp: clear_excess_bits_in_final_word_def)
next
  case False
  let ?l = "length ws - 1" and ?m = "d mod WORD_BITS"
  have l: "?l = d div WORD_BITS" "length ws = Suc ?l"
    using False by (simp_all add: len num_words_eq)
  let ?vs = "ws[?l := ws ! ?l AND (push_bit ?m 1 - 1)]"
  have "clear_excess_bits_in_final_word d ws = Some ?vs"
    using False l by (simp add: clear_excess_bits_in_final_word_def Let_def)
  moreover have "bits ?vs = bits ws \<inter> {..<d}"
  proof (rule set_eqI)
    fix i
    have "i div WORD_BITS < ?l \<Longrightarrow> i < d"
      using word_le_iff [of d i] unfolding l(1) by simp
    moreover have "i div WORD_BITS = ?l \<Longrightarrow> i < d \<longleftrightarrow> i mod WORD_BITS < ?m"
      using word_le_iff [of d i] unfolding l(1) by (auto simp: linorder_not_le [symmetric])
    ultimately show "i \<in> bits ?vs \<longleftrightarrow> i \<in> bits ws \<inter> {..<d}"
      using l(2) False
      by (cases "i div WORD_BITS = ?l") (auto simp: mem_bits_iff bit_and_iff bit_low_mask)
  qed
  ultimately show ?thesis by simp
qed

lemma max_bit_spec:
  assumes "w \<noteq> 0"
  shows "\<exists>m. max_bit w = Some m \<and> bit w m \<and> (\<forall>j. bit w j \<longrightarrow> j \<le> m)"
  using leading_zeros_bit [OF assms] by (simp add: max_bit_def WORD_BITS_def)

lemma bitwise_loop_eq:
  "length out = length inp \<Longrightarrow>
   bitwise_loop f c out inp = (let new = map2 f out inp in (foldl (OR) c (map2 (XOR) out new), new))"
  by (induction out inp arbitrary: c rule: list_induct2) (simp_all add: Let_def)

lemma foldl_or_eq_0: "foldl (OR) (c :: u64) xs = 0 \<longleftrightarrow> c = 0 \<and> (\<forall>x \<in> set xs. x = 0)"
proof (induction xs arbitrary: c)
  case (Cons x xs)
  have "c OR x = 0 \<longleftrightarrow> c = 0 \<and> x = 0" by (metis or_eq_0_iff)
  with Cons show ?case by simp
qed simp

lemma xor_eq_0: "a XOR b = 0 \<longleftrightarrow> a = b" for a b :: u64
  by (metis xor.right_neutral xor_self_eq bit.xor_left_self)

lemma map2_xor_0: "length xs = length ys \<Longrightarrow> (\<forall>x \<in> set (map2 (XOR) xs ys). x = 0) \<longleftrightarrow> xs = ys"
  for xs ys :: "u64 list"
  by (induction xs ys rule: list_induct2) (auto simp: xor_eq_0)

text \<open>\<open>bitwise\<close> computes the pointwise operation and reports whether anything changed.\<close>

lemma bitwise_Some:
  "length out = length inp \<Longrightarrow>
   bitwise f out inp = Some (map2 f out inp \<noteq> out, map2 f out inp)"
  using map2_xor_0 [of out "map2 f out inp"]
  by (auto simp: bitwise_def bitwise_loop_eq Let_def foldl_or_eq_0 simp del: set_map)

lemma bitwise_None: "length out \<noteq> length inp \<Longrightarrow> bitwise f out inp = None"
  by (simp add: bitwise_def)

lemma bitwise_changes_Some:
  "length out = length inp \<Longrightarrow> bitwise_changes f out inp = Some (map2 f out inp \<noteq> out)"
proof -
  assume len: "length out = length inp"
  then have "bitwise_changes_loop f out inp \<longleftrightarrow> map2 f out inp \<noteq> out"
    by (induction out inp rule: list_induct2) auto
  with len show ?thesis by (simp add: bitwise_changes_def)
qed


section \<open>What the iterator yields\<close>

lemma sorted_map_plus: "sorted xs \<Longrightarrow> sorted (map ((+) (c::nat)) xs)"
  by (induction xs) auto

lemma sorted_bits_Cons:
  "sorted_list_of_set (bits (w # ws)) =
   sorted_list_of_set {i. bit w i} @ map ((+) WORD_BITS) (sorted_list_of_set (bits ws))"
  (is "_ = ?xs @ ?ys")
proof -
  have set: "set (?xs @ ?ys) = bits (w # ws)" by (auto simp: bits_Cons)
  have "sorted (?xs @ ?ys)"
    by (auto simp: sorted_append sorted_map_plus dest!: bit_less_WORD_BITS)
  moreover have "distinct (?xs @ ?ys)"
    by (auto simp: distinct_map dest: bit_less_WORD_BITS)
  ultimately show ?thesis
    using sorted_list_of_set.idem_if_sorted_distinct [of "?xs @ ?ys"] set by simp
qed

lemma sorted_bits_step:
  fixes w :: "'a::len word"
  assumes "w \<noteq> 0"
  shows "sorted_list_of_set {i. bit w i} =
         trailing_zeros w # sorted_list_of_set {i. bit (w XOR push_bit (trailing_zeros w) 1) i}"
proof -
  note tz = trailing_zeros_bit [OF assms]
  have "Min {i. bit w i} = trailing_zeros w"
    by (rule Min_eqI) (auto simp: tz)
  moreover have "{i. bit w i} - {trailing_zeros w} =
      {i. bit (w XOR push_bit (trailing_zeros w) 1) i}"
    using card_remove_bit(1) [OF tz(1)] by auto
  ultimately show ?thesis
    using sorted_list_of_set_nonempty [of "{i. bit w i}"] tz(1) by auto
qed

lemma bit_iter_collect_word:
  "bit_iter_collect \<lparr>bi_word = w, bi_offset = off, bi_iter = ws\<rparr> =
   map (\<lambda>i. unat (of_nat i + off)) (sorted_list_of_set {i. bit w i}) @
   bit_iter_collect \<lparr>bi_word = 0, bi_offset = off, bi_iter = ws\<rparr>"
proof (induction "count_ones w" arbitrary: w rule: less_induct)
  case less
  show ?case
  proof (cases "w = 0")
    case False
    let ?w = "w XOR push_bit (trailing_zeros w) 1"
    have "count_ones ?w < count_ones w"
      using card_remove_bit(2) [OF trailing_zeros_bit(1) [OF False]] by simp
    note IH = less [OF this]
    have "bit_iter_next \<lparr>bi_word = w, bi_offset = off, bi_iter = ws\<rparr> =
        (Some (unat (of_nat (trailing_zeros w) + off)),
         \<lparr>bi_word = ?w, bi_offset = off, bi_iter = ws\<rparr>)"
      using False by (subst bit_iter_next.simps) (simp add: Let_def)
    then show ?thesis
      using IH by (subst bit_iter_collect.simps) (simp add: sorted_bits_step [OF False])
  next
    case True
    then have "{i. bit w i} = {}" by simp
    then show ?thesis using True by (simp only: sorted_list_of_set_empty) simp
  qed
qed

lemma bit_iter_collect_Nil:
  "bit_iter_collect \<lparr>bi_word = 0, bi_offset = off, bi_iter = []\<rparr> = []"
  by (subst bit_iter_collect.simps, subst bit_iter_next.simps) simp

lemma bit_iter_collect_Cons:
  "bit_iter_collect \<lparr>bi_word = 0, bi_offset = off, bi_iter = w # ws\<rparr> =
   bit_iter_collect \<lparr>bi_word = w, bi_offset = off + 64, bi_iter = ws\<rparr>"
proof -
  have "bit_iter_next \<lparr>bi_word = 0, bi_offset = off, bi_iter = w # ws\<rparr> =
        bit_iter_next \<lparr>bi_word = w, bi_offset = off + 64, bi_iter = ws\<rparr>"
    by (subst bit_iter_next.simps) simp
  then show ?thesis by (subst (1 2) bit_iter_collect.simps) simp
qed

lemma bit_iter_collect_offset:
  "WORD_BITS * (k + length ws) \<le> 2 ^ 64 \<Longrightarrow>
   bit_iter_collect \<lparr>bi_word = 0, bi_offset = of_nat (WORD_BITS * k) - 64, bi_iter = ws\<rparr> =
   map ((+) (WORD_BITS * k)) (sorted_list_of_set (bits ws))"
proof (induction ws arbitrary: k)
  case (Cons w ws)
  have unat: "unat (of_nat i + of_nat (WORD_BITS * k) :: u64) = WORD_BITS * k + i"
    if "i < WORD_BITS" for i
  proof -
    have "WORD_BITS * k + i < 2 ^ 64"
      using that Cons.prems by (simp add: WORD_BITS_def)
    moreover have "of_nat i + of_nat (WORD_BITS * k) = (of_nat (WORD_BITS * k + i) :: u64)"
      by (simp only: of_nat_add add.commute)
    ultimately show ?thesis by (simp only: unat_of_nat) simp
  qed
  have word: "map (\<lambda>i. unat (of_nat i + of_nat (WORD_BITS * k) :: u64)) (sorted_list_of_set {i. bit w i}) =
      map ((+) (WORD_BITS * k)) (sorted_list_of_set {i. bit w i})"
    using unat by (intro map_cong) (auto dest: bit_less_WORD_BITS)
  have off: "of_nat (WORD_BITS * k) - 64 + 64 = (of_nat (WORD_BITS * k) :: u64)"
    and off': "(of_nat (WORD_BITS * k) :: u64) = of_nat (WORD_BITS * Suc k) - 64"
    by (simp_all add: WORD_BITS_def)
  have IH: "bit_iter_collect \<lparr>bi_word = 0, bi_offset = of_nat (WORD_BITS * k), bi_iter = ws\<rparr> =
      map ((+) (WORD_BITS * Suc k)) (sorted_list_of_set (bits ws))"
    using Cons.IH [of "Suc k"] Cons.prems unfolding off' by simp
  show ?case
    unfolding bit_iter_collect_Cons off bit_iter_collect_word [of w] word IH sorted_bits_Cons
    by (simp add: algebra_simps)
qed (simp add: bit_iter_collect_Nil)

text \<open>
  The iterator of a vector yields its set bits in increasing order; the wrap-around of the first
  offset is harmless as long as the vector's bits are addressable by a \<open>usize\<close>.
\<close>

lemma bit_iter_new_collect:
  assumes "WORD_BITS * length ws \<le> 2 ^ 64"
  shows "bit_iter_collect (bit_iter_new ws) = sorted_list_of_set (bits ws)"
  using bit_iter_collect_offset [of 0 ws] assms by (simp add: bit_iter_new_def map_idI)


section \<open>Runs of bits\<close>

lemma bits_or_word:
  "k < length ws \<Longrightarrow>
   bits (ws[k := ws ! k OR m]) = bits ws \<union> {i. i div WORD_BITS = k \<and> bit m (i mod WORD_BITS)}"
  by (auto simp: bits_update bit_or_iff mem_bits_iff)

lemma bit_elem_mask_sub_1: "bit (elem_mask e - 1) n \<longleftrightarrow> n < e mod WORD_BITS"
  using bit_low_mask [of "e mod WORD_BITS" n] by (simp add: elem_mask_def)

lemma bit_from_mask: "bit (NOT (elem_mask e - 1)) n \<longleftrightarrow> n < WORD_BITS \<and> e mod WORD_BITS \<le> n"
  by (auto simp: bit_not_iff bit_elem_mask_sub_1 WORD_BITS_def)

lemma bit_upto_mask: "bit (elem_mask e OR (elem_mask e - 1)) n \<longleftrightarrow> n \<le> e mod WORD_BITS"
  by (auto simp: bit_or_iff bit_word_mask bit_elem_mask_sub_1)

lemma bit_push_mask: "x \<le> y \<Longrightarrow> y < 64 \<Longrightarrow> bit (push_bit x (mask (y - x)) :: u64) n \<longleftrightarrow> x \<le> n \<and> n < y"
  by (auto simp: bit_push_bit_iff bit_mask_iff)

lemma bit_between_mask:
  assumes "a mod WORD_BITS \<le> b mod WORD_BITS"
  shows "bit (elem_mask b OR (elem_mask b - elem_mask a)) n \<longleftrightarrow>
         a mod WORD_BITS \<le> n \<and> n \<le> b mod WORD_BITS"
proof -
  let ?a = "a mod WORD_BITS" and ?b = "b mod WORD_BITS"
  have "elem_mask b = (2 :: u64) ^ (?b - ?a) * 2 ^ ?a"
    using assms by (simp add: elem_mask_def push_bit_of_1 flip: power_add)
  then have "elem_mask b - elem_mask a = push_bit ?a (mask (?b - ?a))"
    by (simp add: elem_mask_def push_bit_eq_mult mask_eq_exp_minus_1 algebra_simps)
  moreover have "bit (push_bit ?a (mask (?b - ?a)) :: u64) n \<longleftrightarrow> ?a \<le> n \<and> n < ?b"
    using assms mod_WORD_BITS_less(2) by (rule bit_push_mask)
  ultimately show ?thesis
    using assms by (auto simp: bit_or_iff bit_word_mask)
qed

lemma fill_words:
  assumes "hi \<le> length ws"
  shows "\<exists>vs. for_range lo hi (\<lambda>i ws. store_at ws i (NOT 0)) ws = Some vs \<and>
     length vs = length ws \<and> bits vs = bits ws \<union> {i. lo \<le> i div WORD_BITS \<and> i div WORD_BITS < hi}"
proof (cases "lo \<le> hi")
  case True
  show ?thesis
  proof (rule for_range_rule [OF True, where I = "\<lambda>k vs. length vs = length ws \<and>
        bits vs = bits ws \<union> {i. lo \<le> i div WORD_BITS \<and> i div WORD_BITS < k}"])
    fix k vs
    assume k: "lo \<le> k" "k < hi"
      and I: "length vs = length ws \<and>
        bits vs = bits ws \<union> {i. lo \<le> i div WORD_BITS \<and> i div WORD_BITS < k}"
    from k I assms have len: "k < length vs" by simp
    have "i \<in> bits (vs[k := - 1]) \<longleftrightarrow> i \<in> bits vs \<or> i div WORD_BITS = k" for i
      using len by (cases "i div WORD_BITS = k") (simp_all add: mem_bits_iff)
    then have "i \<in> bits (vs[k := - 1]) \<longleftrightarrow>
        i \<in> bits ws \<or> lo \<le> i div WORD_BITS \<and> i div WORD_BITS < Suc k" for i
      using I k(1) by (simp add: less_Suc_eq) blast
    then have "bits (vs[k := - 1]) =
        bits ws \<union> {i. lo \<le> i div WORD_BITS \<and> i div WORD_BITS < Suc k}" by blast
    then show "\<exists>t'. store_at vs k (NOT 0) = Some t' \<and> length t' = length ws \<and>
        bits t' = bits ws \<union> {i. lo \<le> i div WORD_BITS \<and> i div WORD_BITS < Suc k}"
      using len I by simp
  qed auto
next
  case False
  then show ?thesis by auto
qed

end
