(* ===== verification/Index_Set.thy ===== *)
theory Index_Set
  imports Rust_Prelude
begin

text \<open>
  The contract the index sets of \<open>rustc_index\<close> share, as locales: what \<open>contains\<close>, \<open>insert\<close> and
  \<open>remove\<close> promise about the set of indices a representation stores. \<open>sequential_update\<close>, the helper
  with which \<open>bit_set.rs\<close> combines two sets of different representations, is defined here and proved
  once against the contract; the theories of the representations interpret the locales.
\<close>

text \<open>\<open>sequential_update\<close>: apply an update for every element, and report whether any changed the set.\<close>

fun sequential_update ::
    "('s \<Rightarrow> nat \<Rightarrow> (bool \<times> 's) option) \<Rightarrow> 's \<Rightarrow> nat list \<Rightarrow> bool \<Rightarrow> (bool \<times> 's) option" where
  "sequential_update self_update s [] changed = Some (changed, s)"
| "sequential_update self_update s (elem # it) changed = do {
     (c, s') \<leftarrow> self_update s elem;
     sequential_update self_update s' it (c \<or> changed)
   }"

text \<open>
  A client: a sequence of operations, run on a set and on the mathematical set it stands for, with the
  answers they return in order.
\<close>

datatype set_op = Insert nat | Remove nat | Contains nat

fun op_index :: "set_op \<Rightarrow> nat" where
  "op_index (Insert e) = e"
| "op_index (Remove e) = e"
| "op_index (Contains e) = e"

fun run_op ::
    "('s \<Rightarrow> nat \<Rightarrow> bool option) \<Rightarrow> ('s \<Rightarrow> nat \<Rightarrow> (bool \<times> 's) option) \<Rightarrow>
     ('s \<Rightarrow> nat \<Rightarrow> (bool \<times> 's) option) \<Rightarrow> set_op \<Rightarrow> 's \<Rightarrow> (bool \<times> 's) option" where
  "run_op contains ins rem (Insert e) s = ins s e"
| "run_op contains ins rem (Remove e) s = rem s e"
| "run_op contains ins rem (Contains e) s = do { b \<leftarrow> contains s e; Some (b, s) }"

fun run_ops ::
    "(set_op \<Rightarrow> 's \<Rightarrow> (bool \<times> 's) option) \<Rightarrow> set_op list \<Rightarrow> 's \<Rightarrow> (bool list \<times> 's) option" where
  "run_ops step [] s = Some ([], s)"
| "run_ops step (p # ps) s = do {
     (b, s') \<leftarrow> step p s;
     (bs, t) \<leftarrow> run_ops step ps s';
     Some (b # bs, t)
   }"

fun set_step :: "nat \<Rightarrow> set_op \<Rightarrow> nat set \<Rightarrow> (bool \<times> nat set) option" where
  "set_step d (Insert e) X = (if e < d then Some (e \<notin> X, insert e X) else None)"
| "set_step d (Remove e) X = (if e < d then Some (e \<in> X, X - {e}) else None)"
| "set_step d (Contains e) X = (if e < d then Some (e \<in> X, X) else None)"

locale index_set =
  fixes dom_size :: "'s \<Rightarrow> nat"
    and elems :: "'s \<Rightarrow> nat set"
    and invar :: "'s \<Rightarrow> bool"
    and contains :: "'s \<Rightarrow> nat \<Rightarrow> bool option"
  assumes elems_dom: "invar s \<Longrightarrow> elems s \<subseteq> {..<dom_size s}"
    and contains_spec: "invar s \<Longrightarrow> contains s e = (if e < dom_size s then Some (e \<in> elems s) else None)"

locale insertable_index_set = index_set +
  fixes ins :: "'s \<Rightarrow> nat \<Rightarrow> (bool \<times> 's) option"
  assumes insert_ok: "invar s \<Longrightarrow> e < dom_size s \<Longrightarrow>
      \<exists>s'. ins s e = Some (e \<notin> elems s, s') \<and> invar s' \<and> dom_size s' = dom_size s \<and>
           elems s' = insert e (elems s)"
    and insert_panics: "invar s \<Longrightarrow> dom_size s \<le> e \<Longrightarrow> ins s e = None"
begin

lemma contains_after_insert:
  assumes "invar s" "e < dom_size s" "d < dom_size s" "ins s e = Some (c, s')"
  shows "contains s' d = Some (d = e \<or> d \<in> elems s)"
  using insert_ok [OF assms(1,2)] assms by (auto simp: contains_spec)

lemma insert_unchanged_iff:
  assumes "invar s" "ins s e = Some (c, s')"
  shows "c \<longleftrightarrow> elems s' \<noteq> elems s"
proof -
  have "e < dom_size s" using assms insert_panics [of s e] by (cases "e < dom_size s") auto
  with insert_ok [OF assms(1), of e] assms(2) show ?thesis by auto
qed

text \<open>Inserting every element of a list computes the union and whether it grew.\<close>

lemma sequential_insert:
  assumes "invar s" "set xs \<subseteq> {..<dom_size s}"
  shows "\<exists>s'. sequential_update ins s xs c = Some (c \<or> \<not> set xs \<subseteq> elems s, s') \<and> invar s' \<and>
              dom_size s' = dom_size s \<and> elems s' = elems s \<union> set xs"
  using assms
proof (induction xs arbitrary: s c)
  case (Cons x xs)
  then obtain s1 where s1: "ins s x = Some (x \<notin> elems s, s1)" "invar s1" "dom_size s1 = dom_size s"
      "elems s1 = insert x (elems s)"
    using insert_ok [of s x] by auto
  from Cons.IH [of s1 "x \<notin> elems s \<or> c"] Cons.prems s1(2,3) obtain s' where
    "sequential_update ins s1 xs (x \<notin> elems s \<or> c) =
       Some ((x \<notin> elems s \<or> c) \<or> \<not> set xs \<subseteq> elems s1, s')" "invar s'" "dom_size s' = dom_size s1"
    "elems s' = elems s1 \<union> set xs" by auto
  with s1 show ?case by auto
qed simp

lemma sequential_insert_panics:
  assumes "invar s" "\<not> set xs \<subseteq> {..<dom_size s}"
  shows "sequential_update ins s xs c = None"
  using assms
proof (induction xs arbitrary: s c)
  case (Cons x xs)
  show ?case
  proof (cases "x < dom_size s")
    case True
    with Cons.prems obtain s1 where s1: "ins s x = Some (x \<notin> elems s, s1)" "invar s1"
        "dom_size s1 = dom_size s"
      using insert_ok [of s x] by auto
    with Cons True show ?thesis by simp
  qed (use Cons.prems insert_panics in simp)
qed simp

end

locale shrinkable_index_set = index_set +
  fixes rem :: "'s \<Rightarrow> nat \<Rightarrow> (bool \<times> 's) option"
  assumes remove_ok: "invar s \<Longrightarrow> e < dom_size s \<Longrightarrow>
      \<exists>s'. rem s e = Some (e \<in> elems s, s') \<and> invar s' \<and> dom_size s' = dom_size s \<and>
           elems s' = elems s - {e}"
    and remove_panics: "invar s \<Longrightarrow> dom_size s \<le> e \<Longrightarrow> rem s e = None"
begin

lemma contains_after_remove:
  assumes "invar s" "e < dom_size s" "d < dom_size s" "rem s e = Some (c, s')"
  shows "contains s' d = Some (d \<noteq> e \<and> d \<in> elems s)"
  using remove_ok [OF assms(1,2)] assms by (auto simp: contains_spec)

text \<open>Removing every element of a list computes the difference and whether it shrank.\<close>

lemma sequential_remove:
  assumes "invar s" "set xs \<subseteq> {..<dom_size s}"
  shows "\<exists>s'. sequential_update rem s xs c = Some (c \<or> set xs \<inter> elems s \<noteq> {}, s') \<and> invar s' \<and>
              dom_size s' = dom_size s \<and> elems s' = elems s - set xs"
  using assms
proof (induction xs arbitrary: s c)
  case (Cons x xs)
  then obtain s1 where s1: "rem s x = Some (x \<in> elems s, s1)" "invar s1" "dom_size s1 = dom_size s"
      "elems s1 = elems s - {x}"
    using remove_ok [of s x] by auto
  from Cons.IH [of s1 "x \<in> elems s \<or> c"] Cons.prems s1(2,3) obtain s' where
    "sequential_update rem s1 xs (x \<in> elems s \<or> c) =
       Some ((x \<in> elems s \<or> c) \<or> set xs \<inter> elems s1 \<noteq> {}, s')" "invar s'" "dom_size s' = dom_size s1"
    "elems s' = elems s1 - set xs" by auto
  with s1 show ?case by auto
qed simp

end

locale mutable_index_set = insertable_index_set + shrinkable_index_set
begin

lemma insert_remove_roundtrip:
  assumes "invar s" "e < dom_size s" "e \<notin> elems s" "ins s e = Some (c, s1)" "rem s1 e = Some (c', s2)"
  shows "c \<and> c' \<and> elems s2 = elems s"
proof -
  from insert_ok [OF assms(1,2)] assms(3,4)
  have "c" "invar s1" "dom_size s1 = dom_size s" "elems s1 = insert e (elems s)" by auto
  with remove_ok [of s1 e] assms show ?thesis by auto
qed

text \<open>Every operation refines its set operation, so every sequence of operations does.\<close>

lemma run_op_refines:
  assumes "invar s"
  shows "case set_step (dom_size s) p (elems s) of
           None \<Rightarrow> run_op contains ins rem p s = None
         | Some (b, X) \<Rightarrow> \<exists>s'. run_op contains ins rem p s = Some (b, s') \<and> invar s' \<and>
             dom_size s' = dom_size s \<and> elems s' = X"
proof (cases p)
  case (Insert e)
  then show ?thesis using insert_ok [OF assms, of e] insert_panics [OF assms, of e] by auto
next
  case (Remove e)
  then show ?thesis using remove_ok [OF assms, of e] remove_panics [OF assms, of e] by auto
next
  case (Contains e)
  then show ?thesis using contains_spec [OF assms, of e] assms by auto
qed

lemma run_ops_refines:
  assumes "invar s"
  shows "case run_ops (set_step (dom_size s)) ps (elems s) of
           None \<Rightarrow> run_ops (run_op contains ins rem) ps s = None
         | Some (bs, X) \<Rightarrow> \<exists>s'. run_ops (run_op contains ins rem) ps s = Some (bs, s') \<and> invar s' \<and>
             dom_size s' = dom_size s \<and> elems s' = X"
  using assms
proof (induction ps arbitrary: s)
  case (Cons p ps)
  show ?case
  proof (cases "set_step (dom_size s) p (elems s)")
    case None
    then show ?thesis using run_op_refines [OF Cons.prems, of p] by simp
  next
    case (Some r)
    then obtain s1 where s1: "run_op contains ins rem p s = Some (fst r, s1)" "invar s1"
        "dom_size s1 = dom_size s" "elems s1 = snd r"
      using run_op_refines [OF Cons.prems, of p] by (auto split: prod.splits)
    from Cons.IH [OF s1(2)] Some s1 show ?thesis
      by (cases r) (auto split: option.splits prod.splits)
  qed
qed simp

text \<open>The answers alone: they are those of the mathematical set, and the run panics when that is undefined.\<close>

lemma run_ops_answers:
  assumes "invar s"
  shows "map_option fst (run_ops (run_op contains ins rem) ps s) =
    map_option fst (run_ops (set_step (dom_size s)) ps (elems s))"
  using run_ops_refines [OF assms, of ps] by (auto split: option.splits prod.splits)

end

text \<open>
  Two sets of possibly different representations under \<open>BitRelations\<close>: what \<open>union\<close>, \<open>subtract\<close> and
  \<open>intersect\<close> compute, and that the boolean they return says whether the set changed.
\<close>

definition relation_spec ::
    "('s \<Rightarrow> nat) \<Rightarrow> ('s \<Rightarrow> nat set) \<Rightarrow> ('s \<Rightarrow> bool) \<Rightarrow>
     (nat set \<Rightarrow> nat set \<Rightarrow> nat set) \<Rightarrow> nat set \<Rightarrow> 's \<Rightarrow> (bool \<times> 's) option \<Rightarrow> bool" where
  "relation_spec dom_size elems invar op_fn other s r \<longleftrightarrow>
     (\<exists>s'. r = Some (elems s' \<noteq> elems s, s') \<and> invar s' \<and> dom_size s' = dom_size s \<and>
           elems s' = op_fn (elems s) other)"

lemma relation_specI:
  "r = Some (c, s') \<Longrightarrow> invar s' \<Longrightarrow> dom_size s' = dom_size s \<Longrightarrow> elems s' = op_fn (elems s) other \<Longrightarrow>
   c = (op_fn (elems s) other \<noteq> elems s) \<Longrightarrow> relation_spec dom_size elems invar op_fn other s r"
  by (auto simp: relation_spec_def)

end
