(* ===== verification/Bit_Set.thy ===== *)
theory Bit_Set
  imports Bit_Words Index_Set
begin

text \<open>
  \<open>BitSet\<close> of \<open>compiler/rustc_index/src/bit_set.rs\<close>: the dense, fixed-size bit set, its operations,
  the \<open>dense REL dense\<close> relations, and \<open>GrowableBitSet\<close>. The representation invariant says that the
  word vector has exactly the length the domain needs and that no excess bit is set; the abstraction
  is the set of indices. Indices of the generic type \<open>T: Idx\<close> are their \<open>usize\<close> value.
\<close>

section \<open>State and operations\<close>

record bit_set =
  domain_size :: nat
  words :: "u64 list"

definition inclusive_start_end :: "nat range_bounds \<Rightarrow> nat \<Rightarrow> (nat \<times> nat) option option" where
  "inclusive_start_end rng domain = do {
     let start = (case fst rng of
         Included start \<Rightarrow> start
       | Excluded start \<Rightarrow> start + 1
       | Unbounded \<Rightarrow> 0);
     end \<leftarrow> (case snd rng of
         Included end \<Rightarrow> Some (Some end)
       | Excluded end \<Rightarrow> Some (checked_sub end 1)
       | Unbounded \<Rightarrow> map_option Some (checked_sub domain 1));
     case end of
       None \<Rightarrow> Some None
     | Some end \<Rightarrow> do {
         assert_that (end < domain);
         if start > end then Some None else Some (Some (start, end))
       }
   }"

definition bitset_new_empty :: "nat \<Rightarrow> bit_set" where
  "bitset_new_empty d = \<lparr>domain_size = d, words = replicate (num_words d) 0\<rparr>"

definition bitset_clear_excess_bits :: "bit_set \<Rightarrow> bit_set option" where
  "bitset_clear_excess_bits s = do {
     ws \<leftarrow> clear_excess_bits_in_final_word (domain_size s) (words s);
     Some (s\<lparr>words := ws\<rparr>)
   }"

definition bitset_new_filled :: "nat \<Rightarrow> bit_set option" where
  "bitset_new_filled d =
     bitset_clear_excess_bits \<lparr>domain_size = d, words = replicate (num_words d) (NOT 0)\<rparr>"

definition bitset_clear :: "bit_set \<Rightarrow> bit_set" where
  "bitset_clear s = s\<lparr>words := map (\<lambda>_. 0) (words s)\<rparr>"

definition bitset_count :: "bit_set \<Rightarrow> nat" where
  "bitset_count s = sum_list (map count_ones (words s))"

definition bitset_contains :: "bit_set \<Rightarrow> nat \<Rightarrow> bool option" where
  "bitset_contains s elem = do {
     assert_that (elem < domain_size s);
     let (word_index, mask) = word_index_and_mask elem;
     w \<leftarrow> index_at (words s) word_index;
     Some (w AND mask \<noteq> 0)
   }"

definition bitset_superset :: "bit_set \<Rightarrow> bit_set \<Rightarrow> bool option" where
  "bitset_superset s other = do {
     assert_that (domain_size s = domain_size other);
     Some (list_all (\<lambda>(a, b). a AND b = b) (zip (words s) (words other)))
   }"

definition bitset_is_empty :: "bit_set \<Rightarrow> bool" where
  "bitset_is_empty s \<longleftrightarrow> list_all (\<lambda>a. a = 0) (words s)"

definition bitset_insert :: "bit_set \<Rightarrow> nat \<Rightarrow> (bool \<times> bit_set) option" where
  "bitset_insert s elem = do {
     assert_that (elem < domain_size s);
     let (word_index, mask) = word_index_and_mask elem;
     word \<leftarrow> index_at (words s) word_index;
     let new_word = word OR mask;
     ws \<leftarrow> store_at (words s) word_index new_word;
     Some (new_word \<noteq> word, s\<lparr>words := ws\<rparr>)
   }"

definition bitset_insert_range :: "bit_set \<Rightarrow> nat range_bounds \<Rightarrow> bit_set option" where
  "bitset_insert_range s elems = do {
     se \<leftarrow> inclusive_start_end elems (domain_size s);
     case se of
       None \<Rightarrow> Some s
     | Some (start, end) \<Rightarrow> do {
         let (start_word_index, start_mask) = word_index_and_mask start;
         let (end_word_index, end_mask) = word_index_and_mask end;
         ws \<leftarrow> for_range (start_word_index + 1) end_word_index
                 (\<lambda>word_index ws. store_at ws word_index (NOT 0)) (words s);
         if start_word_index \<noteq> end_word_index then do {
           w \<leftarrow> index_at ws start_word_index;
           ws \<leftarrow> store_at ws start_word_index (w OR NOT (start_mask - 1));
           w \<leftarrow> index_at ws end_word_index;
           ws \<leftarrow> store_at ws end_word_index (w OR (end_mask OR (end_mask - 1)));
           Some (s\<lparr>words := ws\<rparr>)
         } else do {
           w \<leftarrow> index_at ws start_word_index;
           ws \<leftarrow> store_at ws start_word_index (w OR (end_mask OR (end_mask - start_mask)));
           Some (s\<lparr>words := ws\<rparr>)
         }
       }
   }"

definition bitset_insert_all :: "bit_set \<Rightarrow> bit_set option" where
  "bitset_insert_all s = bitset_clear_excess_bits (s\<lparr>words := map (\<lambda>_. NOT 0) (words s)\<rparr>)"

definition bitset_remove :: "bit_set \<Rightarrow> nat \<Rightarrow> (bool \<times> bit_set) option" where
  "bitset_remove s elem = do {
     assert_that (elem < domain_size s);
     let (word_index, mask) = word_index_and_mask elem;
     word \<leftarrow> index_at (words s) word_index;
     let new_word = word AND NOT mask;
     ws \<leftarrow> store_at (words s) word_index new_word;
     Some (new_word \<noteq> word, s\<lparr>words := ws\<rparr>)
   }"

definition bitset_iter :: "bit_set \<Rightarrow> bit_iter" where
  "bitset_iter s = bit_iter_new (words s)"

definition bitset_last_set_in :: "bit_set \<Rightarrow> nat range_bounds \<Rightarrow> nat option option" where
  "bitset_last_set_in s rng = do {
     se \<leftarrow> inclusive_start_end rng (domain_size s);
     case se of
       None \<Rightarrow> Some None
     | Some (start, end) \<Rightarrow> do {
         let (start_word_index, _) = word_index_and_mask start;
         let (end_word_index, end_mask) = word_index_and_mask end;
         w \<leftarrow> index_at (words s) end_word_index;
         let end_word = w AND (end_mask OR (end_mask - 1));
         in_end \<leftarrow> (if end_word \<noteq> 0 then do {
                        m \<leftarrow> max_bit end_word;
                        let pos = m + WORD_BITS * end_word_index;
                        if start \<le> pos then Some (Some pos) else Some None
                      } else Some None);
         case in_end of
           Some pos \<Rightarrow> Some (Some pos)
         | None \<Rightarrow> do {
             before \<leftarrow> slice (words s) start_word_index end_word_index;
             case rposition (\<lambda>w. w \<noteq> 0) before of
               None \<Rightarrow> Some None
             | Some offset \<Rightarrow> do {
                 let word_idx = start_word_index + offset;
                 start_word \<leftarrow> index_at (words s) word_idx;
                 m \<leftarrow> max_bit start_word;
                 let pos = m + WORD_BITS * word_idx;
                 if start \<le> pos then Some (Some pos) else Some None
               }
           }
       }
   }"

text \<open>\<open>dense REL dense\<close>.\<close>

definition bitset_relation ::
    "(u64 \<Rightarrow> u64 \<Rightarrow> u64) \<Rightarrow> bit_set \<Rightarrow> bit_set \<Rightarrow> (bool \<times> bit_set) option" where
  "bitset_relation op_fn s other = do {
     assert_that (domain_size s = domain_size other);
     (changed, ws) \<leftarrow> bitwise op_fn (words s) (words other);
     Some (changed, s\<lparr>words := ws\<rparr>)
   }"

definition bitset_union :: "bit_set \<Rightarrow> bit_set \<Rightarrow> (bool \<times> bit_set) option" where
  "bitset_union = bitset_relation (\<lambda>a b. a OR b)"

definition bitset_subtract :: "bit_set \<Rightarrow> bit_set \<Rightarrow> (bool \<times> bit_set) option" where
  "bitset_subtract = bitset_relation (\<lambda>a b. a AND NOT b)"

definition bitset_intersect :: "bit_set \<Rightarrow> bit_set \<Rightarrow> (bool \<times> bit_set) option" where
  "bitset_intersect = bitset_relation (\<lambda>a b. a AND b)"

text \<open>\<open>Vec::resize\<close> and \<open>slice::copy_from_slice\<close>, as \<open>clone_from\<close> uses them.\<close>

definition vec_resize :: "'a list \<Rightarrow> nat \<Rightarrow> 'a \<Rightarrow> 'a list" where
  "vec_resize xs n v = take n xs @ replicate (n - length xs) v"

definition copy_from_slice :: "'a list \<Rightarrow> 'a list \<Rightarrow> 'a list option" where
  "copy_from_slice dst src = (if length dst = length src then Some src else None)"

definition bitset_clone_from :: "bit_set \<Rightarrow> bit_set \<Rightarrow> bit_set option" where
  "bitset_clone_from s from = do {
     let s = (if domain_size s \<noteq> domain_size from
              then s\<lparr>words := vec_resize (words s) (domain_size from) 0,
                     domain_size := domain_size from\<rparr>
              else s);
     ws \<leftarrow> copy_from_slice (words s) (words from);
     Some (s\<lparr>words := ws\<rparr>)
   }"

text \<open>\<open>GrowableBitSet\<close> wraps a \<open>BitSet\<close>.\<close>

type_synonym growable_bit_set = bit_set

definition growable_ensure :: "growable_bit_set \<Rightarrow> nat \<Rightarrow> growable_bit_set" where
  "growable_ensure s min_domain_size =
     (let s = (if domain_size s < min_domain_size then s\<lparr>domain_size := min_domain_size\<rparr> else s);
          min_num_words = num_words min_domain_size
      in if length (words s) < min_num_words
         then s\<lparr>words := vec_resize (words s) min_num_words 0\<rparr>
         else s)"

definition growable_new_empty :: growable_bit_set where
  "growable_new_empty = bitset_new_empty 0"

definition growable_with_capacity :: "nat \<Rightarrow> growable_bit_set" where
  "growable_with_capacity capacity = bitset_new_empty capacity"

definition growable_insert :: "growable_bit_set \<Rightarrow> nat \<Rightarrow> (bool \<times> growable_bit_set) option" where
  "growable_insert s elem = bitset_insert (growable_ensure s (elem + 1)) elem"

definition growable_remove :: "growable_bit_set \<Rightarrow> nat \<Rightarrow> (bool \<times> growable_bit_set) option" where
  "growable_remove s elem = bitset_remove (growable_ensure s (elem + 1)) elem"

definition growable_is_empty :: "growable_bit_set \<Rightarrow> bool" where
  "growable_is_empty s = bitset_is_empty s"

definition growable_contains :: "growable_bit_set \<Rightarrow> nat \<Rightarrow> bool" where
  "growable_contains s elem =
     (let (word_index, mask) = word_index_and_mask elem in
      case (if word_index < length (words s) then Some (words s ! word_index) else None) of
        None \<Rightarrow> False
      | Some word \<Rightarrow> word AND mask \<noteq> 0)"


section \<open>Invariant and abstraction\<close>

text \<open>
  Beyond this size of a domain the rounding up in \<open>num_words\<close> and \<open>num_chunks\<close>, to words and to chunks of 2048 bits, may
  overflow.
\<close>

abbreviation MAX_DOMAIN :: nat where "MAX_DOMAIN \<equiv> 2 ^ 64 - 2049"

abbreviation bitset_elems :: "bit_set \<Rightarrow> nat set" where
  "bitset_elems s \<equiv> bits (words s)"

definition bitset_inv :: "bit_set \<Rightarrow> bool" where
  "bitset_inv s \<longleftrightarrow> domain_size s \<le> MAX_DOMAIN \<and> length (words s) = num_words (domain_size s) \<and>
     bitset_elems s \<subseteq> {..<domain_size s}"

lemma bitset_invD:
  assumes "bitset_inv s"
  shows "length (words s) = num_words (domain_size s)" and "bitset_elems s \<subseteq> {..<domain_size s}"
    and "domain_size s \<le> MAX_DOMAIN"
  using assms by (auto simp: bitset_inv_def)

lemma bitset_inv_words:
  "bitset_inv s \<Longrightarrow> length ws = length (words s) \<Longrightarrow> bits ws \<subseteq> {..<domain_size s} \<Longrightarrow>
   bitset_inv (s\<lparr>words := ws\<rparr>)"
  by (simp add: bitset_inv_def)

lemma bitset_eqI:
  assumes "bitset_inv s" "bitset_inv t" "domain_size s = domain_size t"
    and "bitset_elems s = bitset_elems t"
  shows "s = t"
proof -
  have "words s = words t"
    using assms bitset_invD(1) [OF assms(1)] bitset_invD(1) [OF assms(2)] by (simp add: bits_eq_iff)
  with assms(3) show ?thesis by simp
qed

lemma bitset_new_empty_spec [simp]:
  "domain_size (bitset_new_empty d) = d" "bitset_elems (bitset_new_empty d) = {}"
  "d \<le> MAX_DOMAIN \<Longrightarrow> bitset_inv (bitset_new_empty d)"
  by (auto simp: bitset_new_empty_def bitset_inv_def)

lemma bitset_clear_excess_bits_spec:
  assumes "length (words s) = num_words (domain_size s)" "domain_size s \<le> MAX_DOMAIN"
  shows "\<exists>t. bitset_clear_excess_bits s = Some t \<and> bitset_inv t \<and> domain_size t = domain_size s \<and>
             bitset_elems t = bitset_elems s \<inter> {..<domain_size s}"
  using clear_excess_bits [OF assms(1)] assms
  by (auto simp: bitset_clear_excess_bits_def bitset_inv_def)

lemma bitset_clear_excess_bits_id:
  assumes "bitset_inv s" shows "bitset_clear_excess_bits s = Some s"
proof -
  obtain t where "bitset_clear_excess_bits s = Some t" "bitset_inv t" "domain_size t = domain_size s"
      "bitset_elems t = bitset_elems s \<inter> {..<domain_size s}"
    using bitset_clear_excess_bits_spec [of s] bitset_invD [OF assms] by auto
  moreover from this have "t = s"
    using bitset_invD(2) [OF assms] by (intro bitset_eqI) (auto simp: assms)
  ultimately show ?thesis by simp
qed

lemma bits_map_const_0 [simp]: "bits (map (\<lambda>_. 0) ws) = {}"
  by (simp add: map_replicate_const)

lemma bits_map_const_all [simp]: "bits (map (\<lambda>_. - 1) ws) = {..<WORD_BITS * length ws}"
  by (simp add: map_replicate_const)

lemma bitset_new_filled_spec:
  assumes "d \<le> MAX_DOMAIN"
  shows "\<exists>s. bitset_new_filled d = Some s \<and> bitset_inv s \<and> domain_size s = d \<and>
             bitset_elems s = {..<d}"
  using bitset_clear_excess_bits_spec
      [of "\<lparr>domain_size = d, words = replicate (num_words d) (- 1)\<rparr>"] assms num_words_bounds(1) [of d]
  by (auto simp: bitset_new_filled_def)

lemma bitset_insert_all_spec:
  assumes "bitset_inv s"
  shows "\<exists>t. bitset_insert_all s = Some t \<and> bitset_inv t \<and> domain_size t = domain_size s \<and>
             bitset_elems t = {..<domain_size s}"
  using bitset_clear_excess_bits_spec [of "s\<lparr>words := map (\<lambda>_. - 1) (words s)\<rparr>"]
    bitset_invD [OF assms] num_words_bounds(1) [of "domain_size s"]
  by (auto simp: bitset_insert_all_def)

lemma bitset_clear_spec [simp]:
  "domain_size (bitset_clear s) = domain_size s" "bitset_elems (bitset_clear s) = {}"
  "bitset_inv s \<Longrightarrow> bitset_inv (bitset_clear s)"
  by (auto simp: bitset_clear_def bitset_inv_def)

lemma bitset_count_card: "bitset_count s = card (bitset_elems s)"
  by (simp add: bitset_count_def card_bits)

lemma bitset_is_empty_iff: "bitset_is_empty s \<longleftrightarrow> bitset_elems s = {}"
  by (simp add: bitset_is_empty_def bits_empty_iff list_all_iff)

lemma bitset_contains_eq:
  assumes "bitset_inv s"
  shows "bitset_contains s e = (if e < domain_size s then Some (e \<in> bitset_elems s) else None)"
  using word_index_less [of e "domain_size s"] bitset_invD(1) [OF assms]
  by (auto simp: bitset_contains_def and_mask_nonzero mem_bits_iff)

lemma bitset_insert_ok:
  assumes "bitset_inv s" "e < domain_size s"
  shows "\<exists>s'. bitset_insert s e = Some (e \<notin> bitset_elems s, s') \<and> bitset_inv s' \<and>
              domain_size s' = domain_size s \<and> bitset_elems s' = insert e (bitset_elems s)"
proof -
  let ?k = "e div WORD_BITS" and ?m = "elem_mask e"
  let ?ws = "(words s)[?k := words s ! ?k OR ?m]"
  have k: "?k < length (words s)"
    using word_index_less [OF assms(2)] bitset_invD(1) [OF assms(1)] by simp
  have bits: "bits ?ws = insert e (bitset_elems s)" using k by (rule bits_set_bit)
  have "bitset_insert s e = Some (e \<notin> bitset_elems s, s\<lparr>words := ?ws\<rparr>)"
    using assms(2) k or_mask_eq [of "words s ! ?k" e]
    by (auto simp: bitset_insert_def Let_def mem_bits_iff)
  moreover have "bitset_inv (s\<lparr>words := ?ws\<rparr>)"
    using assms bitset_invD(2) [OF assms(1)] bits by (intro bitset_inv_words) auto
  ultimately show ?thesis using bits by auto
qed

lemma bitset_remove_ok:
  assumes "bitset_inv s" "e < domain_size s"
  shows "\<exists>s'. bitset_remove s e = Some (e \<in> bitset_elems s, s') \<and> bitset_inv s' \<and>
              domain_size s' = domain_size s \<and> bitset_elems s' = bitset_elems s - {e}"
proof -
  let ?k = "e div WORD_BITS" and ?m = "elem_mask e"
  let ?ws = "(words s)[?k := words s ! ?k AND NOT ?m]"
  have k: "?k < length (words s)"
    using word_index_less [OF assms(2)] bitset_invD(1) [OF assms(1)] by simp
  have bits: "bits ?ws = bitset_elems s - {e}" using k by (rule bits_clear_bit)
  have "bitset_remove s e = Some (e \<in> bitset_elems s, s\<lparr>words := ?ws\<rparr>)"
    using assms(2) k and_not_mask_eq [of "words s ! ?k" e]
    by (auto simp: bitset_remove_def Let_def mem_bits_iff)
  moreover have "bitset_inv (s\<lparr>words := ?ws\<rparr>)"
    using assms bitset_invD(2) [OF assms(1)] bits by (intro bitset_inv_words) auto
  ultimately show ?thesis using bits by auto
qed

interpretation dense: mutable_index_set domain_size bitset_elems bitset_inv
  bitset_contains bitset_insert bitset_remove
proof unfold_locales
  fix s e
  assume "bitset_inv s"
  then show "bitset_elems s \<subseteq> {..<domain_size s}" by (rule bitset_invD)
next
  fix s e
  assume "bitset_inv s" "domain_size s \<le> e"
  then show "bitset_insert s e = None" "bitset_remove s e = None"
    by (simp_all add: bitset_insert_def bitset_remove_def)
next
  fix s e
  show "bitset_inv s \<Longrightarrow> bitset_contains s e =
    (if e < domain_size s then Some (e \<in> bitset_elems s) else None)"
    by (rule bitset_contains_eq)
qed (rule bitset_insert_ok bitset_remove_ok; assumption)+


section \<open>Comparisons and relations\<close>

lemma bitset_superset_eq:
  assumes "bitset_inv s" "bitset_inv t"
  shows "bitset_superset s t =
    (if domain_size s = domain_size t then Some (bitset_elems t \<subseteq> bitset_elems s) else None)"
proof (cases "domain_size s = domain_size t")
  case True
  then have len: "length (words s) = length (words t)"
    using bitset_invD(1) [OF assms(1)] bitset_invD(1) [OF assms(2)] by simp
  have "list_all (\<lambda>(a, b). a AND b = b) (zip (words s) (words t)) \<longleftrightarrow>
      map2 (AND) (words s) (words t) = words t"
    using len by (induction rule: list_induct2) auto
  also have "\<dots> \<longleftrightarrow> bits (map2 (AND) (words s) (words t)) = bitset_elems t"
    using len by (simp add: bits_eq_iff)
  also have "bits (map2 (AND) (words s) (words t)) = bitset_elems s \<inter> bitset_elems t"
    by (rule set_eqI) (auto simp: mem_bits_iff bit_and_iff len)
  finally show ?thesis using True by (simp add: bitset_superset_def) blast
qed (simp add: bitset_superset_def)

lemma bitset_relation_spec:
  assumes "bitset_inv s" "bitset_inv t" "domain_size s = domain_size t"
    and P: "\<And>a b n. n < WORD_BITS \<Longrightarrow> bit (f a b) n \<longleftrightarrow> P (bit a n) (bit b n)"
    and op: "\<And>i. i div WORD_BITS < length (words s) \<Longrightarrow>
      i \<in> g (bitset_elems s) (bitset_elems t) \<longleftrightarrow> P (i \<in> bitset_elems s) (i \<in> bitset_elems t)"
    and sub: "g (bitset_elems s) (bitset_elems t) \<subseteq> {..<domain_size s}"
  shows "relation_spec domain_size bitset_elems bitset_inv g (bitset_elems t) s (bitset_relation f s t)"
proof -
  let ?ws = "map2 f (words s) (words t)"
  have len: "length (words s) = length (words t)"
    using assms(3) bitset_invD(1) [OF assms(1)] bitset_invD(1) [OF assms(2)] by simp
  have dom: "i < domain_size s \<Longrightarrow> i div WORD_BITS < length (words s)" for i
    using word_index_less bitset_invD(1) [OF assms(1)] by simp
  have bits: "bits ?ws = g (bitset_elems s) (bitset_elems t)"
    using bits_map2 [where f = f and P = P, OF len P] op sub dom by (auto simp: subset_iff)
  have "bitset_relation f s t = Some (?ws \<noteq> words s, s\<lparr>words := ?ws\<rparr>)"
    using assms(3) len by (simp add: bitset_relation_def bitwise_Some)
  moreover have "?ws \<noteq> words s \<longleftrightarrow> bits ?ws \<noteq> bitset_elems s"
    using len by (simp add: bits_eq_iff)
  moreover have "bitset_inv (s\<lparr>words := ?ws\<rparr>)"
    using assms(1) len sub bits by (intro bitset_inv_words) simp_all
  ultimately show ?thesis using bits by (intro relation_specI [of _ _ "s\<lparr>words := ?ws\<rparr>"]) simp_all
qed

lemma bitset_union_spec:
  assumes "bitset_inv s" "bitset_inv t" "domain_size s = domain_size t"
  shows "relation_spec domain_size bitset_elems bitset_inv (\<union>) (bitset_elems t) s (bitset_union s t)"
  unfolding bitset_union_def
  by (rule bitset_relation_spec [OF assms, where P = "(\<or>)"])
     (use assms bitset_invD(2) [OF assms(1)] bitset_invD(2) [OF assms(2)] in \<open>auto simp: bit_or_iff\<close>)

lemma bitset_subtract_spec:
  assumes "bitset_inv s" "bitset_inv t" "domain_size s = domain_size t"
  shows "relation_spec domain_size bitset_elems bitset_inv (-) (bitset_elems t) s (bitset_subtract s t)"
  unfolding bitset_subtract_def
  by (rule bitset_relation_spec [OF assms, where P = "\<lambda>a b. a \<and> \<not> b"])
     (use bitset_invD(2) [OF assms(1)] in \<open>auto simp: bit_and_iff bit_not_iff WORD_BITS_def\<close>)

lemma bitset_intersect_spec:
  assumes "bitset_inv s" "bitset_inv t" "domain_size s = domain_size t"
  shows "relation_spec domain_size bitset_elems bitset_inv (\<inter>) (bitset_elems t) s (bitset_intersect s t)"
  unfolding bitset_intersect_def
  by (rule bitset_relation_spec [OF assms, where P = "(\<and>)"])
     (use bitset_invD(2) [OF assms(1)] in \<open>auto simp: bit_and_iff\<close>)

lemma bitset_iter_collect:
  assumes "bitset_inv s"
  shows "bit_iter_collect (bitset_iter s) = sorted_list_of_set (bitset_elems s)"
proof -
  have "WORD_BITS * length (words s) \<le> 2 ^ 64"
    using num_words_bounds(2) [of "domain_size s"] bitset_invD [OF assms] by (simp add: WORD_BITS_def)
  then show ?thesis unfolding bitset_iter_def by (rule bit_iter_new_collect)
qed


section \<open>Ranges\<close>

definition range_fits :: "nat range_bounds \<Rightarrow> nat \<Rightarrow> bool" where
  "range_fits r d = (case snd r of Included e \<Rightarrow> e < d | Excluded e \<Rightarrow> e \<le> d | Unbounded \<Rightarrow> 0 < d)"

definition range_elems :: "nat range_bounds \<Rightarrow> nat \<Rightarrow> nat set" where
  "range_elems r d = {i. i < d \<and> range_contains r i}"

lemma inclusive_start_end_panics: "\<not> range_fits r d \<Longrightarrow> inclusive_start_end r d = None"
  by (auto simp: inclusive_start_end_def range_fits_def split: bound.splits)

lemma inclusive_start_end_cases:
  assumes "range_fits r d"
  obtains (empty) "inclusive_start_end r d = Some None" "range_elems r d = {}"
  | (elems) a b where "inclusive_start_end r d = Some (Some (a, b))" "a \<le> b" "b < d"
      "range_elems r d = {a..b}"
proof -
  define a where "a = (case fst r of Included a \<Rightarrow> a | Excluded a \<Rightarrow> a + 1 | Unbounded \<Rightarrow> 0)"
  have a: "above_start (fst r) i \<longleftrightarrow> a \<le> i" for i
    by (auto simp: a_def split: bound.splits)
  have eq: "inclusive_start_end r d = (case snd r of
      Included b \<Rightarrow> if a \<le> b then Some (Some (a, b)) else Some None
    | Excluded b \<Rightarrow> if a < b then Some (Some (a, b - 1)) else Some None
    | Unbounded \<Rightarrow> if a < d then Some (Some (a, d - 1)) else Some None)"
    using assms
    by (auto simp: inclusive_start_end_def range_fits_def checked_sub_def a_def split: bound.splits)
  have range: "range_elems r d = {i. i < d \<and> a \<le> i \<and> below_end (snd r) i}"
    by (simp add: range_elems_def range_contains_def a)
  show thesis
  proof (cases "snd r")
    case (Included b)
    have "range_elems r d = {a..b}" using Included assms by (auto simp: range range_fits_def)
    with Included assms show ?thesis
      by (cases "a \<le> b") (auto simp: eq range_fits_def intro: elems empty)
  next
    case (Excluded b)
    have "range_elems r d = {a..<b}" using Excluded assms by (auto simp: range range_fits_def)
    moreover have "a < b \<Longrightarrow> {a..<b} = {a..b - 1}" by auto
    ultimately show ?thesis using Excluded assms
      by (cases "a < b") (auto simp: eq range_fits_def intro: elems empty)
  next
    case Unbounded
    have "range_elems r d = {a..<d}" using Unbounded by (auto simp: range)
    moreover have "a < d \<Longrightarrow> {a..<d} = {a..d - 1}" by auto
    ultimately show ?thesis using Unbounded assms
      by (cases "a < d") (auto simp: eq range_fits_def intro: elems empty)
  qed
qed

lemma bitset_insert_range_spec:
  assumes inv: "bitset_inv s" and fits: "range_fits r (domain_size s)"
  shows "\<exists>t. bitset_insert_range s r = Some t \<and> bitset_inv t \<and> domain_size t = domain_size s \<and>
             bitset_elems t = bitset_elems s \<union> range_elems r (domain_size s)"
  using fits
proof (cases rule: inclusive_start_end_cases)
  case empty
  with inv show ?thesis by (simp add: bitset_insert_range_def)
next
  case (elems a b)
  let ?a = "a div WORD_BITS" and ?b = "b div WORD_BITS"
  have ab: "?a \<le> ?b" "?b < length (words s)"
    using elems div_le_mono word_index_less bitset_invD(1) [OF inv] by auto
  obtain vs where vs: "for_range (?a + 1) ?b (\<lambda>i ws. store_at ws i (NOT 0)) (words s) = Some vs"
      "length vs = length (words s)"
      "bits vs = bitset_elems s \<union> {i. ?a + 1 \<le> i div WORD_BITS \<and> i div WORD_BITS < ?b}"
    using fill_words [of ?b "words s" "?a + 1"] ab by auto
  have "\<exists>ws. bitset_insert_range s r = Some (s\<lparr>words := ws\<rparr>) \<and> length ws = length (words s) \<and>
      bits ws = bitset_elems s \<union> {a..b}"
  proof (cases "?a = ?b")
    case True
    let ?ws = "vs[?b := vs ! ?b OR (elem_mask b OR (elem_mask b - elem_mask a))]"
    have le: "a mod WORD_BITS \<le> b mod WORD_BITS" using True \<open>a \<le> b\<close> word_le_iff [of a b] by simp
    have "bits ?ws = bits vs \<union> {a..b}"
      using ab vs(2) True by (auto simp: bits_or_word bit_between_mask [OF le] word_le_iff [of a]
          word_le_iff [of _ b])
    moreover have "bits vs = bitset_elems s" using vs(3) True by auto
    moreover have "bitset_insert_range s r = Some (s\<lparr>words := ?ws\<rparr>)"
      using elems ab vs(1,2) True by (simp add: bitset_insert_range_def)
    ultimately show ?thesis using vs(2) by (intro exI [of _ ?ws]) simp
  next
    case False
    with ab have lt: "?a < ?b" by simp
    let ?vs = "vs[?a := vs ! ?a OR NOT (elem_mask a - 1)]"
    let ?ws = "?vs[?b := ?vs ! ?b OR (elem_mask b OR (elem_mask b - 1))]"
    have "bits ?ws = bits vs \<union> {i. i div WORD_BITS = ?a \<and> a mod WORD_BITS \<le> i mod WORD_BITS} \<union>
        {i. i div WORD_BITS = ?b \<and> i mod WORD_BITS \<le> b mod WORD_BITS}"
      using ab vs(2) by (subst bits_or_word, simp, subst bits_or_word) (simp_all add: bit_from_mask bit_upto_mask)
    also have "\<dots> = bitset_elems s \<union> {a..b}"
      unfolding vs(3) using lt by (auto simp: word_le_iff [of a] word_le_iff [of _ b])
    finally have "bits ?ws = bitset_elems s \<union> {a..b}" .
    moreover have "bitset_insert_range s r = Some (s\<lparr>words := ?ws\<rparr>)"
      using elems ab vs(1,2) lt by (simp add: bitset_insert_range_def)
    ultimately show ?thesis using vs(2) by (intro exI [of _ ?ws]) simp
  qed
  moreover have "bitset_elems s \<union> {a..b} \<subseteq> {..<domain_size s}"
    using bitset_invD(2) [OF inv] \<open>b < domain_size s\<close> by auto
  ultimately obtain ws where "bitset_insert_range s r = Some (s\<lparr>words := ws\<rparr>)"
      "bits ws = bitset_elems s \<union> {a..b}" "bitset_inv (s\<lparr>words := ws\<rparr>)"
    using bitset_inv_words [OF inv] by metis
  then show ?thesis using elems by simp
qed


lemma bits_of_zero_words:
  assumes "\<And>j. a \<le> j \<Longrightarrow> j < b \<Longrightarrow> ws ! j = 0" "i \<in> bits ws" "a \<le> i div WORD_BITS"
  shows "b \<le> i div WORD_BITS"
proof (rule ccontr)
  assume "\<not> b \<le> i div WORD_BITS"
  then have "ws ! (i div WORD_BITS) = 0" using assms by simp
  with assms(2) show False by (simp add: mem_bits_iff)
qed

lemma last_nonzero_word:
  assumes "a \<le> b" "b \<le> length ws"
  obtains (none) "rposition (\<lambda>w. w \<noteq> 0) (take (b - a) (drop a ws)) = None"
      "\<And>i. i \<in> bits ws \<Longrightarrow> a \<le> i div WORD_BITS \<Longrightarrow> b \<le> i div WORD_BITS"
  | (some) k where "rposition (\<lambda>w. w \<noteq> 0) (take (b - a) (drop a ws)) = Some (k - a)"
      "a \<le> k" "k < b" "ws ! k \<noteq> 0"
      "\<And>i. i \<in> bits ws \<Longrightarrow> Suc k \<le> i div WORD_BITS \<Longrightarrow> b \<le> i div WORD_BITS"
proof (cases "rposition (\<lambda>w. w \<noteq> 0) (take (b - a) (drop a ws))")
  case None
  then have z: "x = 0" if "x \<in> set (take (b - a) (drop a ws))" for x
    using that by (simp add: rposition_None_iff)
  have "ws ! j = 0" if "a \<le> j" "j < b" for j
  proof (rule z)
    have "take (b - a) (drop a ws) ! (j - a) = ws ! j" using that assms by simp
    moreover have "j - a < length (take (b - a) (drop a ws))" using that assms by simp
    ultimately show "ws ! j \<in> set (take (b - a) (drop a ws))" by (metis nth_mem)
  qed
  then show thesis using none [OF None] bits_of_zero_words [of a b ws] by blast
next
  case (Some o')
  then have o': "o' < b - a" "ws ! (a + o') \<noteq> 0"
    and z: "\<And>j. o' < j \<Longrightarrow> j < b - a \<Longrightarrow> ws ! (a + j) = 0"
    using assms by (auto simp: rposition_Some_iff)
  have "ws ! j = 0" if "Suc (a + o') \<le> j" "j < b" for j
    using z [of "j - a"] that by simp
  then show thesis
    using some [of "a + o'"] Some o' bits_of_zero_words [of "Suc (a + o')" b ws] by simp
qed

lemma Max_eqI_nat:
  assumes "finite A" "x \<in> A" "\<And>y. y \<in> A \<Longrightarrow> y \<le> (x::nat)"
  shows "Max A = x" and "A \<noteq> {}"
  using assms by (auto intro: Max_eqI)

definition greatest :: "nat set \<Rightarrow> nat option" where
  "greatest A = (if A = {} then None else Some (Max A))"

lemma greatestI: "finite A \<Longrightarrow> x \<in> A \<Longrightarrow> (\<And>y. y \<in> A \<Longrightarrow> y \<le> x) \<Longrightarrow> greatest A = Some x"
  using Max_eqI_nat [of A x] by (auto simp: greatest_def)

lemma greatest_empty [simp]: "greatest {} = None"
  by (simp add: greatest_def)

lemma greatest_eq_Some: "finite A \<Longrightarrow> greatest A = Some x \<longleftrightarrow> x \<in> A \<and> (\<forall>y \<in> A. y \<le> x)"
  by (auto simp: greatest_def Max_eq_iff)

lemma greatest_top_word:
  assumes "finite B" "\<And>i. i \<in> B \<Longrightarrow> i div WORD_BITS \<le> k" "\<exists>i \<in> B. i div WORD_BITS = k"
  shows "greatest B = greatest (B \<inter> {i. i div WORD_BITS = k})"
proof -
  let ?C = "B \<inter> {i. i div WORD_BITS = k}"
  have m: "Max ?C \<in> ?C" using assms by (intro Max_in) auto
  have "i \<le> Max ?C" if "i \<in> B" for i
  proof (cases "i div WORD_BITS = k")
    case True
    then show ?thesis using that assms(1) by (intro Max_ge) auto
  next
    case False
    then show ?thesis using assms(2) [OF that] m word_le_iff [of i "Max ?C"] by simp
  qed
  with m assms have "greatest B = Some (Max ?C)" by (intro greatestI) auto
  with m show ?thesis by (auto simp: greatest_def)
qed

text \<open>
  The two searches of \<open>last_set_in\<close>, in one word: the greatest set bit of the word within the range.
\<close>

lemma greatest_in_word:
  assumes k: "k < length ws"
    and m: "\<And>n. n < WORD_BITS \<Longrightarrow> bit m n \<longleftrightarrow> n + WORD_BITS * k \<le> b"
  shows "(if ws ! k AND m \<noteq> 0 then do {
            p \<leftarrow> max_bit (ws ! k AND m);
            if a \<le> p + WORD_BITS * k then Some (Some (p + WORD_BITS * k)) else Some None
          } else Some None) =
         Some (greatest (bits ws \<inter> {a..b} \<inter> {i. i div WORD_BITS = k}))"
    (is "_ = Some (greatest ?B)")
proof -
  have mem: "i \<in> bits ws \<and> i \<le> b \<and> i div WORD_BITS = k \<longleftrightarrow>
      bit (ws ! k AND m) (i mod WORD_BITS) \<and> i div WORD_BITS = k" for i
    using k m [of "i mod WORD_BITS"] div_mult_mod_eq [of i WORD_BITS]
    by (auto simp: mem_bits_iff bit_and_iff mult.commute)
  show ?thesis
  proof (cases "ws ! k AND m = 0")
    case True
    have "\<not> (i \<in> bits ws \<and> i \<le> b \<and> i div WORD_BITS = k)" for i
      unfolding mem using True by simp
    then have "\<forall>i. i \<notin> ?B" by simp
    then have "?B = {}" by blast
    with True show ?thesis by simp
  next
    case False
    then obtain p where p: "max_bit (ws ! k AND m) = Some p" "bit (ws ! k AND m) p"
        "\<forall>j. bit (ws ! k AND m) j \<longrightarrow> j \<le> p"
      using max_bit_spec by blast
    let ?i = "p + WORD_BITS * k"
    have i: "?i div WORD_BITS = k" "?i mod WORD_BITS = p"
      using bit_less_WORD_BITS [OF p(2)] by simp_all
    have top: "j \<le> ?i" if "j \<in> ?B" for j
      using that mem [of j] p(3) word_le_iff [of j ?i] i by auto
    have mem_i: "?i \<in> bits ws" "?i \<le> b" using mem [of ?i] i p(2) by auto
    have "greatest ?B = (if a \<le> ?i then Some ?i else None)"
    proof (cases "a \<le> ?i")
      case True
      then have "greatest ?B = Some ?i" using mem_i i top by (intro greatestI) simp_all
      with True show ?thesis by simp
    next
      case False
      then have "?B = {}" using top by fastforce
      with False show ?thesis by simp
    qed
    with False p(1) show ?thesis by simp
  qed
qed

text \<open>\<open>last_set_in\<close> returns the greatest element of the set in the range, if there is one.\<close>

lemma bitset_last_set_in_spec:
  assumes inv: "bitset_inv s" and fits: "range_fits r (domain_size s)"
  shows "bitset_last_set_in s r =
    Some (greatest (bitset_elems s \<inter> range_elems r (domain_size s)))"
  using fits
proof (cases rule: inclusive_start_end_cases)
  case empty
  then show ?thesis by (simp add: bitset_last_set_in_def)
next
  case (elems a b)
  let ?ws = "words s" and ?a = "a div WORD_BITS" and ?b = "b div WORD_BITS"
  let ?B = "bits ?ws \<inter> {a..b}"
  have ab: "?a \<le> ?b" "?b < length ?ws"
    using elems div_le_mono word_index_less bitset_invD(1) [OF inv] by auto
  have top: "i div WORD_BITS \<le> ?b" "?a \<le> i div WORD_BITS" if "i \<in> ?B" for i
    using that by (auto intro: div_le_mono)
  define rest where "rest = (case rposition (\<lambda>w. w \<noteq> 0) (take (?b - ?a) (drop ?a ?ws)) of
      None \<Rightarrow> Some None
    | Some off \<Rightarrow> do {
        w \<leftarrow> index_at ?ws (?a + off);
        m \<leftarrow> max_bit w;
        if a \<le> m + WORD_BITS * (?a + off) then Some (Some (m + WORD_BITS * (?a + off))) else Some None })"
  have m: "bit (elem_mask b OR (elem_mask b - 1)) n \<longleftrightarrow> n + WORD_BITS * ?b \<le> b" if "n < WORD_BITS" for n
    using that word_le_iff [of "n + WORD_BITS * ?b" b] by (simp add: bit_upto_mask)
  have eq: "bitset_last_set_in s r =
      (case greatest (?B \<inter> {i. i div WORD_BITS = ?b}) of Some pos \<Rightarrow> Some (Some pos) | None \<Rightarrow> rest)"
    unfolding bitset_last_set_in_def rest_def Let_def
    using elems(1) ab greatest_in_word [OF ab(2) m, where a = a] by simp
  have rest: "rest = Some (greatest ?B)" if none: "?B \<inter> {i. i div WORD_BITS = ?b} = {}"
    using ab(1) less_imp_le [OF ab(2)]
  proof (cases rule: last_nonzero_word)
    case empty: none
    have "?B = {}" using empty(2) none top by fastforce
    then show ?thesis using empty(1) by (simp add: rest_def)
  next
    case (some k)
    have k: "k < length ?ws" using some ab by simp
    obtain off where off: "k = ?a + off" using some(2) le_Suc_ex by blast
    have all: "bit (- 1 :: u64) n \<longleftrightarrow> n + WORD_BITS * k \<le> b" if "n < WORD_BITS" for n
      using that some(3) word_le_iff [of "n + WORD_BITS * k" b] by (simp add: WORD_BITS_def)
    have "rest = Some (greatest (?B \<inter> {i. i div WORD_BITS = k}))"
      using greatest_in_word [OF k all, where a = a] some(1,4) k unfolding off rest_def by simp
    moreover have "greatest ?B = greatest (?B \<inter> {i. i div WORD_BITS = k})"
    proof (cases "?B = {}")
      case False
      have le: "i div WORD_BITS \<le> k" if "i \<in> ?B" for i
        using some(5) [of i] none top(1) [OF that] that by (cases "Suc k \<le> i div WORD_BITS") fastforce+
      obtain n where n: "bit (?ws ! k) n" using some(4) by (auto simp: word_nonzero_bit)
      let ?i = "n + WORD_BITS * k"
      have i: "?i div WORD_BITS = k" "?i mod WORD_BITS = n" "?i \<in> bits ?ws" "?i \<le> b"
        using bit_less_WORD_BITS [OF n] n k some(3) word_le_iff [of ?i b] by (simp_all add: mem_bits_iff)
      obtain j where j: "j \<in> ?B" using False by blast
      have "\<exists>i \<in> ?B. i div WORD_BITS = k"
      proof (cases "j div WORD_BITS = k")
        case False
        with le [OF j] have "j \<le> ?i" using i(1) word_le_iff [of j ?i] by simp
        with i j show ?thesis by (intro bexI [of _ ?i]) auto
      qed (use j in blast)
      with le show ?thesis by (intro greatest_top_word) auto
    qed simp
    ultimately show ?thesis by simp
  qed
  have "bitset_last_set_in s r = Some (greatest ?B)"
  proof (cases "?B \<inter> {i. i div WORD_BITS = ?b} = {}")
    case False
    then have "greatest ?B = greatest (?B \<inter> {i. i div WORD_BITS = ?b})"
      using top by (intro greatest_top_word) auto
    with False show ?thesis by (simp add: eq greatest_def)
  qed (simp add: eq rest)
  then show ?thesis using elems by simp
qed


section \<open>Cloning and growing\<close>

lemma length_vec_resize [simp]: "length (vec_resize xs n v) = n"
  by (simp add: vec_resize_def)

lemma num_words_fixpoint: "num_words d = d \<longleftrightarrow> d \<le> 1"
proof
  assume "num_words d = d"
  then have "64 * d < d + 64" using num_words_bounds(2) [of d] by (simp add: WORD_BITS_def)
  then show "d \<le> 1" by simp
qed (auto simp: num_words_def WORD_BITS_def le_Suc_eq)

lemma bitset_clone_from_same:
  "bitset_inv s \<Longrightarrow> bitset_inv t \<Longrightarrow> domain_size s = domain_size t \<Longrightarrow> bitset_clone_from s t = Some t"
  by (simp add: bitset_clone_from_def copy_from_slice_def bitset_invD)

lemma bitset_clone_from_different:
  assumes "bitset_inv t" "domain_size s \<noteq> domain_size t" "1 < domain_size t"
  shows "bitset_clone_from s t = None"
  using assms num_words_fixpoint [of "domain_size t"] bitset_invD(1) [OF assms(1)]
  by (simp add: bitset_clone_from_def copy_from_slice_def)

lemma bits_vec_resize:
  assumes "length ws \<le> n" shows "bits (vec_resize ws n 0) = bits ws"
proof (rule set_eqI)
  fix i
  show "i \<in> bits (vec_resize ws n 0) \<longleftrightarrow> i \<in> bits ws"
    using assms by (cases "i div WORD_BITS < length ws") (simp_all add: mem_bits_iff vec_resize_def nth_append)
qed

lemma num_words_mono: "d \<le> e \<Longrightarrow> num_words d \<le> num_words e"
  by (simp add: num_words_def div_le_mono)

lemma growable_ensure_spec:
  assumes "bitset_inv s" "d \<le> MAX_DOMAIN"
  shows "bitset_inv (growable_ensure s d)" "bitset_elems (growable_ensure s d) = bitset_elems s"
    "domain_size (growable_ensure s d) = max (domain_size s) d"
proof -
  note inv = bitset_invD [OF assms(1)]
  have "length (words (growable_ensure s d)) = num_words (max (domain_size s) d)"
    using inv(1) num_words_mono [of "domain_size s" d] num_words_mono [of d "domain_size s"]
    by (cases "domain_size s < d") (auto simp: growable_ensure_def Let_def max_def)
  moreover show "bitset_elems (growable_ensure s d) = bitset_elems s"
    by (simp add: growable_ensure_def Let_def bits_vec_resize)
  moreover show "domain_size (growable_ensure s d) = max (domain_size s) d"
    by (simp add: growable_ensure_def Let_def max_def)
  ultimately show "bitset_inv (growable_ensure s d)"
    using inv assms by (auto simp: bitset_inv_def)
qed

lemma growable_insert_spec:
  assumes "bitset_inv s" "e < MAX_DOMAIN"
  shows "\<exists>s'. growable_insert s e = Some (e \<notin> bitset_elems s, s') \<and> bitset_inv s' \<and>
     domain_size s' = max (domain_size s) (e + 1) \<and> bitset_elems s' = insert e (bitset_elems s)"
  using bitset_insert_ok [of "growable_ensure s (e + 1)" e] growable_ensure_spec [of s "e + 1"] assms
  by (simp add: growable_insert_def)

lemma growable_remove_spec:
  assumes "bitset_inv s" "e < MAX_DOMAIN"
  shows "\<exists>s'. growable_remove s e = Some (e \<in> bitset_elems s, s') \<and> bitset_inv s' \<and>
     domain_size s' = max (domain_size s) (e + 1) \<and> bitset_elems s' = bitset_elems s - {e}"
  using bitset_remove_ok [of "growable_ensure s (e + 1)" e] growable_ensure_spec [of s "e + 1"] assms
  by (simp add: growable_remove_def)

lemma growable_contains_iff: "growable_contains s e \<longleftrightarrow> e \<in> bitset_elems s"
  by (simp add: growable_contains_def mem_bits_iff and_mask_nonzero)


section \<open>Properties\<close>

text \<open>\<open>BitRelations<BitSet>\<close> for \<open>BitSet\<close>: on two well-formed sets over the same domain, \<open>union\<close>,
  \<open>subtract\<close> and \<open>intersect\<close> return without panic, compute the union, the difference and the intersection
  of the sets of indices, keep the domain and the invariant (no bit beyond the domain), and the boolean they
  return says exactly whether the receiver changed.\<close>

theorem bitset_relations:
  assumes "bitset_inv s" "bitset_inv t" "domain_size s = domain_size t"
  shows "relation_spec domain_size bitset_elems bitset_inv (\<union>) (bitset_elems t) s (bitset_union s t) \<and>
    relation_spec domain_size bitset_elems bitset_inv (-) (bitset_elems t) s (bitset_subtract s t) \<and>
    relation_spec domain_size bitset_elems bitset_inv (\<inter>) (bitset_elems t) s (bitset_intersect s t)"
  using bitset_union_spec [OF assms] bitset_subtract_spec [OF assms] bitset_intersect_spec [OF assms] by simp

theorem bitset_relations_witness:
  "\<exists>f s. bitset_new_filled 70 = Some f \<and> bitset_union (bitset_new_empty 70) f = Some (True, s) \<and>
     bitset_elems s = {..<70}"
proof -
  obtain f where "bitset_new_filled 70 = Some f" "bitset_inv f" "domain_size f = 70" "bitset_elems f = {..<70}"
    using bitset_new_filled_spec [of 70] by auto
  then show ?thesis using bitset_relations [of "bitset_new_empty 70" f]
    by (auto simp: relation_spec_def lessThan_empty_iff)
qed

text \<open>Ranges of a \<open>BitSet\<close>: for a range that ends inside the domain, \<open>insert_range\<close> adds exactly the
  indices of the range and \<open>last_set_in\<close> returns the greatest element of the set in the range, if there is
  one; for every other range both panic in the assertion on the end of the range.\<close>

theorem bitset_ranges:
  assumes "bitset_inv s"
  shows "if range_fits r (domain_size s)
    then (\<exists>t. bitset_insert_range s r = Some t \<and> bitset_inv t \<and> domain_size t = domain_size s \<and>
            bitset_elems t = bitset_elems s \<union> range_elems r (domain_size s)) \<and>
         bitset_last_set_in s r = Some (greatest (bitset_elems s \<inter> range_elems r (domain_size s)))
    else bitset_insert_range s r = None \<and> bitset_last_set_in s r = None"
  using bitset_insert_range_spec [OF assms] bitset_last_set_in_spec [OF assms]
  by (simp add: bitset_insert_range_def bitset_last_set_in_def inclusive_start_end_panics)

theorem bitset_ranges_witness:
  "(\<exists>t. bitset_insert_range (bitset_new_empty 200) (Included 60, Excluded 130) = Some t \<and>
      bitset_elems t = {60..<130}) \<and>
   bitset_insert_range (bitset_new_empty 200) (Included 60, Included 200) = None"
proof -
  have "range_elems (Included 60, Excluded 130) 200 = {60..<130}"
    by (auto simp: range_elems_def range_contains_def)
  then show ?thesis
    using bitset_ranges [of "bitset_new_empty 200" "(Included 60, Excluded 130)"]
      bitset_ranges [of "bitset_new_empty 200" "(Included 60, Included 200)"]
    by (auto simp: range_fits_def)
qed

text \<open>Observers of a \<open>BitSet\<close>: \<open>count\<close> is the number of elements, \<open>is_empty\<close> and \<open>superset\<close> decide
  emptiness and inclusion, and the iterator terminates and yields every element once, in increasing order.\<close>

theorem bitset_observers:
  assumes "bitset_inv s" "bitset_inv t" "domain_size s = domain_size t"
  shows "bitset_count s = card (bitset_elems s) \<and>
    (bitset_is_empty s \<longleftrightarrow> bitset_elems s = {}) \<and>
    bitset_superset s t = Some (bitset_elems t \<subseteq> bitset_elems s) \<and>
    bit_iter_collect (bitset_iter s) = sorted_list_of_set (bitset_elems s)"
  using bitset_count_card bitset_is_empty_iff bitset_superset_eq [OF assms(1,2)] assms(3)
    bitset_iter_collect [OF assms(1)] by simp

theorem bitset_observers_witness:
  "\<exists>f. bitset_new_filled 70 = Some f \<and> bit_iter_collect (bitset_iter f) = sorted_list_of_set {..<70} \<and>
     bitset_superset f (bitset_new_empty 70) = Some True \<and> bitset_count f = 70"
proof -
  obtain f where "bitset_new_filled 70 = Some f" "bitset_inv f" "domain_size f = 70" "bitset_elems f = {..<70}"
    using bitset_new_filled_spec [of 70] by auto
  then show ?thesis using bitset_observers [of f "bitset_new_empty 70"] by simp
qed

text \<open>C35: \<open>Clone::clone_from\<close> of \<open>BitSet\<close> copies the source when the domains agree, and panics whenever
  they differ and the source's domain has more than one index: the word vector is resized to the number of
  indices of the domain instead of its number of words, so the slices copied have different lengths.\<close>

theorem bitset_clone_from_behaviour:
  assumes "bitset_inv s" "bitset_inv t"
  shows "(domain_size s = domain_size t \<longrightarrow> bitset_clone_from s t = Some t) \<and>
    (domain_size s \<noteq> domain_size t \<and> 1 < domain_size t \<longrightarrow> bitset_clone_from s t = None)"
  using bitset_clone_from_same [OF assms] bitset_clone_from_different [OF assms(2)] by blast

theorem bitset_clone_from_behaviour_witness:
  "bitset_clone_from (bitset_new_empty 3) (bitset_new_empty 3) = Some (bitset_new_empty 3) \<and>
   bitset_clone_from (bitset_new_empty 3) (bitset_new_empty 64) = None"
  using bitset_clone_from_behaviour [of "bitset_new_empty 3" "bitset_new_empty 3"]
    bitset_clone_from_behaviour [of "bitset_new_empty 3" "bitset_new_empty 64"] by simp

text \<open>\<open>GrowableBitSet\<close>: \<open>insert\<close> and \<open>remove\<close> of any index grow the domain just enough to hold it, keep
  every other element, report whether the set changed, and \<open>contains\<close>, which never panics, answers for every
  index, also beyond the domain.\<close>

theorem growable_operations:
  assumes "bitset_inv s" "e < MAX_DOMAIN"
  shows "(\<exists>t. growable_insert s e = Some (e \<notin> bitset_elems s, t) \<and> bitset_inv t \<and>
            domain_size t = max (domain_size s) (e + 1) \<and>
            (\<forall>x. growable_contains t x \<longleftrightarrow> x = e \<or> growable_contains s x)) \<and>
    (\<exists>t. growable_remove s e = Some (e \<in> bitset_elems s, t) \<and> bitset_inv t \<and>
            domain_size t = max (domain_size s) (e + 1) \<and>
            (\<forall>x. growable_contains t x \<longleftrightarrow> x \<noteq> e \<and> growable_contains s x))"
  using growable_insert_spec [OF assms] growable_remove_spec [OF assms] by (auto simp: growable_contains_iff)

theorem growable_operations_witness:
  "\<exists>t. growable_insert growable_new_empty 100 = Some (True, t) \<and> domain_size t = 101 \<and>
       growable_contains t 100 \<and> \<not> growable_contains t 5000"
proof -
  have "bitset_inv growable_new_empty" "bitset_elems growable_new_empty = {}" "domain_size growable_new_empty = 0"
    by (simp_all add: growable_new_empty_def)
  then show ?thesis using growable_operations [of growable_new_empty 100] by (auto simp: growable_contains_iff)
qed

end
