(* ===== verification/Sparse_Bit_Set.thy ===== *)
theory Sparse_Bit_Set
  imports Bit_Set
begin

text \<open>
  \<open>SparseBitSet\<close> of \<open>compiler/rustc_index/src/bit_set.rs\<close>: at most eight elements in a sorted vector.

  The vector is an \<open>ArrayVec\<close> of the third-party crate \<open>arrayvec\<close>. Its mutating operations are a
  parameter of the model, the record \<open>arrayvec\<close>; its contents are a list. What its documentation
  promises (\<open>push\<close> and \<open>insert\<close> panic on a full vector, \<open>remove\<close> and \<open>insert\<close> shift the tail,
  \<open>retain\<close> keeps the elements the closure accepts, in order) are the assumptions of the locale
  \<open>arrayvec_laws\<close>. Reading (\<open>len\<close>, \<open>iter\<close>, \<open>contains\<close>, indexing) goes through the slice.
\<close>

section \<open>The vector\<close>

abbreviation SPARSE_MAX :: nat where "SPARSE_MAX \<equiv> 8"

record arrayvec =
  av_push :: "nat list \<Rightarrow> nat \<Rightarrow> nat list option"
  av_insert :: "nat list \<Rightarrow> nat \<Rightarrow> nat \<Rightarrow> nat list option"
  av_remove :: "nat list \<Rightarrow> nat \<Rightarrow> (nat \<times> nat list) option"
  av_retain :: "nat list \<Rightarrow> (nat \<Rightarrow> bool option) \<Rightarrow> nat list option"

locale arrayvec_laws =
  fixes A :: arrayvec
  assumes push_ok: "length xs < SPARSE_MAX \<Longrightarrow> av_push A xs v = Some (xs @ [v])"
    and push_full: "SPARSE_MAX \<le> length xs \<Longrightarrow> av_push A xs v = None"
    and insert_ok: "length xs < SPARSE_MAX \<Longrightarrow> i \<le> length xs \<Longrightarrow>
      av_insert A xs i v = Some (take i xs @ v # drop i xs)"
    and insert_full: "SPARSE_MAX \<le> length xs \<Longrightarrow> av_insert A xs i v = None"
    and remove_ok: "i < length xs \<Longrightarrow>
      av_remove A xs i = Some (xs ! i, take i xs @ drop (Suc i) xs)"
    and retain_ok: "(\<And>x. x \<in> set xs \<Longrightarrow> f x = Some (P x)) \<Longrightarrow> av_retain A xs f = Some (filter P xs)"


section \<open>State and operations\<close>

record sparse_bit_set =
  sp_domain_size :: nat
  sp_elems :: "nat list"

definition sparse_new_empty :: "nat \<Rightarrow> sparse_bit_set" where
  "sparse_new_empty d = \<lparr>sp_domain_size = d, sp_elems = []\<rparr>"

definition sparse_len :: "sparse_bit_set \<Rightarrow> nat" where
  "sparse_len s = length (sp_elems s)"

definition sparse_is_empty :: "sparse_bit_set \<Rightarrow> bool" where
  "sparse_is_empty s \<longleftrightarrow> length (sp_elems s) = 0"

definition sparse_contains :: "sparse_bit_set \<Rightarrow> nat \<Rightarrow> bool option" where
  "sparse_contains s elem = do {
     assert_that (elem < sp_domain_size s);
     Some (List.member (sp_elems s) elem)
   }"

definition sparse_insert :: "arrayvec \<Rightarrow> sparse_bit_set \<Rightarrow> nat \<Rightarrow> (bool \<times> sparse_bit_set) option" where
  "sparse_insert A s elem = do {
     assert_that (elem < sp_domain_size s);
     (changed, elems) \<leftarrow> (case position (\<lambda>e. e \<ge> elem) (sp_elems s) of
         Some i \<Rightarrow> do {
           e \<leftarrow> index_at (sp_elems s) i;
           if e = elem then Some (False, sp_elems s)
           else do {
             elems \<leftarrow> av_insert A (sp_elems s) i elem;
             Some (True, elems)
           }
         }
       | None \<Rightarrow> do {
           elems \<leftarrow> av_push A (sp_elems s) elem;
           Some (True, elems)
         });
     let s = s\<lparr>sp_elems := elems\<rparr>;
     assert_that (sparse_len s \<le> SPARSE_MAX);
     Some (changed, s)
   }"

definition sparse_remove :: "arrayvec \<Rightarrow> sparse_bit_set \<Rightarrow> nat \<Rightarrow> (bool \<times> sparse_bit_set) option" where
  "sparse_remove A s elem = do {
     assert_that (elem < sp_domain_size s);
     case position (\<lambda>e. e = elem) (sp_elems s) of
       Some i \<Rightarrow> do {
         (_, elems) \<leftarrow> av_remove A (sp_elems s) i;
         Some (True, s\<lparr>sp_elems := elems\<rparr>)
       }
     | None \<Rightarrow> Some (False, s)
   }"

definition sparse_to_dense :: "sparse_bit_set \<Rightarrow> bit_set option" where
  "sparse_to_dense s =
     for_each (\<lambda>elem dense. do { (_, dense) \<leftarrow> bitset_insert dense elem; Some dense })
       (sp_elems s) (bitset_new_empty (sp_domain_size s))"

definition sparse_iter :: "sparse_bit_set \<Rightarrow> nat list" where
  "sparse_iter s = sp_elems s"

definition sparse_last_set_in :: "sparse_bit_set \<Rightarrow> nat range_bounds \<Rightarrow> nat option" where
  "sparse_last_set_in s rng =
     fold (\<lambda>e last_leq. if range_contains rng e then Some e else last_leq) (sparse_iter s) None"

text \<open>\<open>sparse_intersect\<close>: the closure may panic, so it is an \<open>option\<close>-valued predicate.\<close>

definition sparse_intersect ::
    "arrayvec \<Rightarrow> sparse_bit_set \<Rightarrow> (nat \<Rightarrow> bool option) \<Rightarrow> (bool \<times> sparse_bit_set) option" where
  "sparse_intersect A set_arg other_contains = do {
     let size_before = length (sp_elems set_arg);
     elems \<leftarrow> av_retain A (sp_elems set_arg) other_contains;
     Some (length elems \<noteq> size_before, set_arg\<lparr>sp_elems := elems\<rparr>)
   }"

definition dense_sparse_intersect ::
    "arrayvec \<Rightarrow> bit_set \<Rightarrow> sparse_bit_set \<Rightarrow> (sparse_bit_set \<times> bool) option" where
  "dense_sparse_intersect A dense sparse = do {
     (_, sparse_copy) \<leftarrow> sparse_intersect A sparse (\<lambda>el. bitset_contains dense el);
     let n = sparse_len sparse_copy;
     Some (sparse_copy, n \<noteq> bitset_count dense)
   }"


section \<open>Invariant and correctness\<close>

definition sparse_inv :: "sparse_bit_set \<Rightarrow> bool" where
  "sparse_inv s \<longleftrightarrow> sp_domain_size s \<le> MAX_DOMAIN \<and> sorted_wrt (<) (sp_elems s) \<and>
     set (sp_elems s) \<subseteq> {..<sp_domain_size s} \<and> length (sp_elems s) \<le> SPARSE_MAX"

abbreviation sparse_elems :: "sparse_bit_set \<Rightarrow> nat set" where
  "sparse_elems s \<equiv> set (sp_elems s)"

lemma sparse_new_empty_spec [simp]:
  "sp_domain_size (sparse_new_empty d) = d" "sparse_elems (sparse_new_empty d) = {}"
  "d \<le> MAX_DOMAIN \<Longrightarrow> sparse_inv (sparse_new_empty d)"
  by (simp_all add: sparse_new_empty_def sparse_inv_def)

lemma sparse_contains_eq:
  "sparse_contains s e = (if e < sp_domain_size s then Some (e \<in> sparse_elems s) else None)"
  by (simp add: sparse_contains_def)

lemma sorted_wrt_less_distinct: "sorted_wrt (<) xs \<Longrightarrow> distinct xs" for xs :: "nat list"
  by (simp add: strict_sorted_iff)

lemma sorted_wrt_insert_at:
  fixes xs :: "nat list"
  assumes "sorted_wrt (<) xs" "i \<le> length xs"
    and "\<And>j. j < i \<Longrightarrow> xs ! j < e" "\<And>j. i \<le> j \<Longrightarrow> j < length xs \<Longrightarrow> e < xs ! j"
  shows "sorted_wrt (<) (take i xs @ e # drop i xs)"
proof -
  have "x < e" if "x \<in> set (take i xs)" for x
    using that assms(2,3) by (auto simp: in_set_conv_nth)
  moreover have "e < y" if "y \<in> set (drop i xs)" for y
    using that assms(4) by (auto simp: in_set_conv_nth)
  moreover have "sorted_wrt (<) (take i xs @ drop i xs)" using assms(1) by simp
  ultimately show ?thesis by (auto simp: sorted_wrt_append simp del: append_take_drop_id)
qed

lemma set_insert_at: "set (take i xs @ e # drop i xs) = insert e (set xs)"
  by (metis Un_insert_right append_take_drop_id list.simps(15) set_append)

lemma sorted_remove_at:
  assumes "sorted_wrt (<) xs" "i < length xs"
  shows "sorted_wrt (<) (take i xs @ drop (Suc i) xs)"
    and "set (take i xs @ drop (Suc i) xs) = set xs - {xs ! i :: nat}"
proof -
  have split: "take i xs @ xs ! i # drop (Suc i) xs = xs" using assms(2) by (metis id_take_nth_drop)
  with assms(1) have s: "sorted_wrt (<) (take i xs @ xs ! i # drop (Suc i) xs)" by simp
  then show "sorted_wrt (<) (take i xs @ drop (Suc i) xs)" by (auto simp: sorted_wrt_append)
  have "set xs = insert (xs ! i) (set (take i xs @ drop (Suc i) xs))"
    by (subst split [symmetric]) simp
  moreover have "xs ! i \<notin> set (take i xs @ drop (Suc i) xs)"
    using s by (auto simp: sorted_wrt_append)
  ultimately show "set (take i xs @ drop (Suc i) xs) = set xs - {xs ! i}" by blast
qed

context arrayvec_laws
begin

lemma sparse_insert_spec:
  assumes "sparse_inv s" "e < sp_domain_size s" "length (sp_elems s) < SPARSE_MAX"
  shows "\<exists>s'. sparse_insert A s e = Some (e \<notin> sparse_elems s, s') \<and> sparse_inv s' \<and>
              sp_domain_size s' = sp_domain_size s \<and> sparse_elems s' = insert e (sparse_elems s)"
proof (cases "position (\<lambda>x. x \<ge> e) (sp_elems s)")
  case None
  then have lt: "\<forall>x \<in> sparse_elems s. x < e" by (auto simp: position_None_iff not_le)
  moreover from this have "e \<notin> sparse_elems s" by auto
  ultimately show ?thesis
    using None assms by (auto simp: sparse_insert_def push_ok sparse_len_def sparse_inv_def sorted_wrt_append)
next
  case (Some i)
  let ?xs = "sp_elems s"
  from Some have i: "i < length ?xs" "e \<le> ?xs ! i" "\<And>j. j < i \<Longrightarrow> ?xs ! j < e"
    by (auto simp: position_Some_iff not_le)
  have sorted: "sorted_wrt (<) ?xs" using assms(1) by (simp add: sparse_inv_def)
  show ?thesis
  proof (cases "?xs ! i = e")
    case True
    then have "e \<in> sparse_elems s" using i(1) by (metis nth_mem)
    then have "insert e (sparse_elems s) = sparse_elems s" by blast
    then show ?thesis using Some True i(1) assms \<open>e \<in> sparse_elems s\<close>
      by (simp add: sparse_insert_def sparse_len_def)
  next
    case False
    have gt: "e < ?xs ! j" if "i \<le> j" "j < length ?xs" for j
      using False i(2) sorted that by (cases "i = j") (auto simp: sorted_wrt_iff_nth_less intro: le_less_trans)
    have "e \<notin> sparse_elems s"
      using gt i(3) by (auto simp: in_set_conv_nth) (metis leI less_irrefl)
    moreover have "sorted_wrt (<) (take i ?xs @ e # drop i ?xs)"
      using sorted less_imp_le [OF i(1)] i(3) gt by (rule sorted_wrt_insert_at)
    ultimately show ?thesis
      using Some False i(1) assms
      by (auto simp: sparse_insert_def insert_ok sparse_len_def sparse_inv_def set_insert_at
          simp del: set_append)
  qed
qed

lemma sparse_remove_spec:
  assumes "sparse_inv s" "e < sp_domain_size s"
  shows "\<exists>s'. sparse_remove A s e = Some (e \<in> sparse_elems s, s') \<and> sparse_inv s' \<and>
              sp_domain_size s' = sp_domain_size s \<and> sparse_elems s' = sparse_elems s - {e}"
proof (cases "position (\<lambda>x. x = e) (sp_elems s)")
  case None
  then have "e \<notin> sparse_elems s" by (auto simp: position_None_iff)
  then show ?thesis using None assms by (simp add: sparse_remove_def)
next
  case (Some i)
  then have i: "i < length (sp_elems s)" "sp_elems s ! i = e" by (simp_all add: position_Some_iff)
  have s: "sorted_wrt (<) (sp_elems s)" using assms(1) by (simp add: sparse_inv_def)
  note rem = sorted_remove_at [OF s i(1)]
  have "e \<in> sparse_elems s" using i by (metis nth_mem)
  moreover have "length (take i (sp_elems s) @ drop (Suc i) (sp_elems s)) \<le> SPARSE_MAX"
    using assms(1) i(1) by (auto simp: sparse_inv_def)
  ultimately show ?thesis
    using Some i assms rem
    by (auto simp: sparse_remove_def remove_ok sparse_inv_def simp del: set_append length_append)
qed

lemma sparse_intersect_spec:
  assumes "sparse_inv s" "\<And>x. x \<in> sparse_elems s \<Longrightarrow> f x = Some (P x)"
  shows "\<exists>s'. sparse_intersect A s f = Some (sparse_elems s' \<noteq> sparse_elems s, s') \<and> sparse_inv s' \<and>
              sp_domain_size s' = sp_domain_size s \<and> sparse_elems s' = {x \<in> sparse_elems s. P x} \<and>
              length (sp_elems s') = card {x \<in> sparse_elems s. P x}"
proof -
  let ?xs = "sp_elems s"
  have sorted: "sorted_wrt (<) ?xs" and len: "length ?xs \<le> SPARSE_MAX"
    using assms(1) by (simp_all add: sparse_inv_def)
  have d: "distinct ?xs" using sorted by (rule sorted_wrt_less_distinct)
  have "length (filter P ?xs) = card {x \<in> sparse_elems s. P x}"
    using d distinct_card [of "filter P ?xs"] by simp
  moreover have "length (filter P ?xs) \<noteq> length ?xs \<longleftrightarrow> set (filter P ?xs) \<noteq> set ?xs"
  proof (cases "\<forall>x \<in> set ?xs. P x")
    case False
    then obtain x where x: "x \<in> set ?xs" "\<not> P x" by blast
    from length_filter_less [where P = P, OF this] x show ?thesis by auto
  qed simp
  moreover have "sorted_wrt (<) (filter P ?xs)" using sorted by (simp add: sorted_wrt_filter)
  moreover have "length (filter P ?xs) \<le> SPARSE_MAX"
    using len length_filter_le [of P ?xs] by linarith
  ultimately show ?thesis
    using assms(1) retain_ok [of ?xs f P, OF assms(2)]
    by (auto simp: sparse_intersect_def sparse_inv_def)
qed

end

lemma sparse_to_dense_spec:
  assumes "sparse_inv s"
  shows "\<exists>d. sparse_to_dense s = Some d \<and> bitset_inv d \<and> domain_size d = sp_domain_size s \<and>
             bitset_elems d = sparse_elems s"
proof -
  have "\<exists>d. sparse_to_dense s = Some d \<and>
      (bitset_inv d \<and> domain_size d = sp_domain_size s \<and> bitset_elems d = set (sp_elems s))"
    unfolding sparse_to_dense_def
  proof (rule for_each_rule [where I = "\<lambda>ys d. bitset_inv d \<and> domain_size d = sp_domain_size s \<and>
        bitset_elems d = set ys"])
    fix ys y zs d
    assume split: "sp_elems s = ys @ y # zs"
      and I: "bitset_inv d \<and> domain_size d = sp_domain_size s \<and> bitset_elems d = set ys"
    have "y < domain_size d" using assms I split by (auto simp: sparse_inv_def)
    with I bitset_insert_ok [of d y] show "\<exists>d'. (do { (_, dense) \<leftarrow> bitset_insert d y; Some dense }) = Some d' \<and>
        bitset_inv d' \<and> domain_size d' = sp_domain_size s \<and> bitset_elems d' = set (ys @ [y])"
      by auto
  qed (use assms in \<open>simp add: sparse_inv_def\<close>)
  then show ?thesis by blast
qed

lemma fold_last_sorted:
  fixes xs :: "nat list"
  assumes "sorted_wrt (<) xs"
  shows "fold (\<lambda>e l. if P e then Some e else l) xs None = greatest {x \<in> set xs. P x}"
  using assms
proof (induction xs rule: rev_induct)
  case (snoc x xs)
  then have lt: "\<And>y. y \<in> set xs \<Longrightarrow> y < x" by (auto simp: sorted_wrt_append)
  show ?case
  proof (cases "P x")
    case True
    have "greatest {y \<in> set (xs @ [x]). P y} = Some x"
      using True lt by (intro greatestI) (auto intro: less_imp_le)
    with True show ?thesis by simp
  next
    case False
    then have "{y \<in> set (xs @ [x]). P y} = {y \<in> set xs. P y}" by auto
    with False snoc show ?thesis by (simp add: sorted_wrt_append)
  qed
qed simp

lemma sparse_last_set_in_spec:
  assumes "sparse_inv s"
  shows "sparse_last_set_in s r = greatest (sparse_elems s \<inter> range_elems r (sp_domain_size s))"
proof -
  have "{x \<in> sparse_elems s. range_contains r x} = sparse_elems s \<inter> range_elems r (sp_domain_size s)"
    using assms by (auto simp: sparse_inv_def range_elems_def)
  then show ?thesis
    using fold_last_sorted [of "sp_elems s" "range_contains r"] assms
    by (simp add: sparse_last_set_in_def sparse_iter_def sparse_inv_def)
qed

text \<open>
  The sparse set shrinks like any index set. It is insertable only below its capacity, which is what
  the hybrid set checks before it inserts.
\<close>

lemma sparse_elems_dom: "sparse_inv s \<Longrightarrow> sparse_elems s \<subseteq> {..<sp_domain_size s}"
  by (simp add: sparse_inv_def)

lemma sparse_remove_panics: "sp_domain_size s \<le> e \<Longrightarrow> sparse_remove A s e = None"
  by (simp add: sparse_remove_def)

sublocale arrayvec_laws \<subseteq> sparse: shrinkable_index_set sp_domain_size sparse_elems sparse_inv
  sparse_contains "sparse_remove A"
  by unfold_locales
     (simp_all add: sparse_elems_dom sparse_contains_eq sparse_remove_spec sparse_remove_panics)

text \<open>The documented laws can hold: an \<open>ArrayVec\<close> of capacity eight over plain lists.\<close>

definition list_arrayvec :: arrayvec where
  "list_arrayvec = \<lparr>
     av_push = (\<lambda>xs v. if length xs < SPARSE_MAX then Some (xs @ [v]) else None),
     av_insert = (\<lambda>xs i v. if length xs < SPARSE_MAX then insert_at i v xs else None),
     av_remove = (\<lambda>xs i. remove_at i xs),
     av_retain = (\<lambda>xs f. those (map f xs) \<bind>
       (\<lambda>bs. Some (map fst (filter snd (zip xs bs)))))\<rparr>"

interpretation list_av: arrayvec_laws list_arrayvec
proof
  fix xs :: "nat list" and f P
  assume "\<And>x. x \<in> set xs \<Longrightarrow> f x = Some (P x :: bool)"
  then have "those (map f xs) = Some (map P xs)" by (rule those_map_Some)
  moreover have "map fst (filter snd (zip xs (map P xs))) = filter P xs" by (induction xs) auto
  ultimately show "av_retain list_arrayvec xs f = Some (filter P xs)"
    by (simp add: list_arrayvec_def)
qed (simp_all add: list_arrayvec_def)

end
