(* ===== verification/Hybrid_Bit_Set.thy ===== *)
theory Hybrid_Bit_Set
  imports Sparse_Bit_Set
begin

text \<open>
  \<open>HybridBitSet\<close> of \<open>compiler/rustc_index/src/bit_set.rs\<close>: sparse up to eight elements, dense
  beyond; \<open>BitSet::reverse_union_sparse\<close>; and the relations \<open>hybrid REL dense\<close>,
  \<open>dense REL hybrid\<close> and \<open>hybrid REL hybrid\<close>. Every operation is shown to compute the operation on
  sets of indices, whatever the representations are.
\<close>

section \<open>State and operations\<close>

datatype hybrid_bit_set = Sparse sparse_bit_set | Dense bit_set

definition bitset_to_hybrid :: "bit_set \<Rightarrow> hybrid_bit_set" where
  "bitset_to_hybrid s = Dense s"

definition hybrid_new_empty :: "nat \<Rightarrow> hybrid_bit_set" where
  "hybrid_new_empty d = Sparse (sparse_new_empty d)"

fun hybrid_domain_size :: "hybrid_bit_set \<Rightarrow> nat" where
  "hybrid_domain_size (Sparse sparse) = sp_domain_size sparse"
| "hybrid_domain_size (Dense dense) = domain_size dense"

definition hybrid_clear :: "hybrid_bit_set \<Rightarrow> hybrid_bit_set" where
  "hybrid_clear h = (let d = hybrid_domain_size h in hybrid_new_empty d)"

fun hybrid_contains :: "hybrid_bit_set \<Rightarrow> nat \<Rightarrow> bool option" where
  "hybrid_contains (Sparse sparse) elem = sparse_contains sparse elem"
| "hybrid_contains (Dense dense) elem = bitset_contains dense elem"

text \<open>\<open>HybridIter\<close>: the elements in the order the iterator yields them.\<close>

fun hybrid_iter :: "hybrid_bit_set \<Rightarrow> nat list" where
  "hybrid_iter (Sparse sparse) = sparse_iter sparse"
| "hybrid_iter (Dense dense) = bit_iter_collect (bitset_iter dense)"

text \<open>\<open>Iterator::all\<close> with a closure that may panic.\<close>

fun all_of :: "('a \<Rightarrow> bool option) \<Rightarrow> 'a list \<Rightarrow> bool option" where
  "all_of f [] = Some True"
| "all_of f (x # xs) = do { b \<leftarrow> f x; if b then all_of f xs else Some False }"

fun hybrid_superset :: "hybrid_bit_set \<Rightarrow> hybrid_bit_set \<Rightarrow> bool option" where
  "hybrid_superset (Dense self_dense) (Dense other_dense) = bitset_superset self_dense other_dense"
| "hybrid_superset h other = do {
     assert_that (hybrid_domain_size h = hybrid_domain_size other);
     all_of (\<lambda>elem. hybrid_contains h elem) (hybrid_iter other)
   }"

fun hybrid_is_empty :: "hybrid_bit_set \<Rightarrow> bool" where
  "hybrid_is_empty (Sparse sparse) = sparse_is_empty sparse"
| "hybrid_is_empty (Dense dense) = bitset_is_empty dense"

fun hybrid_last_set_in :: "hybrid_bit_set \<Rightarrow> nat range_bounds \<Rightarrow> nat option option" where
  "hybrid_last_set_in (Sparse sparse) rng = Some (sparse_last_set_in sparse rng)"
| "hybrid_last_set_in (Dense dense) rng = bitset_last_set_in dense rng"

fun hybrid_insert :: "arrayvec \<Rightarrow> hybrid_bit_set \<Rightarrow> nat \<Rightarrow> (bool \<times> hybrid_bit_set) option" where
  "hybrid_insert A (Sparse sparse) elem =
     (if sparse_len sparse < SPARSE_MAX then do {
        (changed, sparse) \<leftarrow> sparse_insert A sparse elem;
        Some (changed, Sparse sparse)
      } else do {
        present \<leftarrow> sparse_contains sparse elem;
        if present then Some (False, Sparse sparse)
        else do {
          dense \<leftarrow> sparse_to_dense sparse;
          (changed, dense) \<leftarrow> bitset_insert dense elem;
          assert_that changed;
          Some (changed, Dense dense)
        }
      })"
| "hybrid_insert A (Dense dense) elem = do {
     (changed, dense) \<leftarrow> bitset_insert dense elem;
     Some (changed, Dense dense)
   }"

definition hybrid_insert_range ::
    "arrayvec \<Rightarrow> hybrid_bit_set \<Rightarrow> nat range_bounds \<Rightarrow> hybrid_bit_set option" where
  "hybrid_insert_range A h elems = do {
     let start = (case fst elems of
         Included start \<Rightarrow> start
       | Excluded start \<Rightarrow> start + 1
       | Unbounded \<Rightarrow> 0);
     end \<leftarrow> (case snd elems of
         Included end \<Rightarrow> Some (end + 1)
       | Excluded end \<Rightarrow> Some end
       | Unbounded \<Rightarrow> checked_sub (hybrid_domain_size h) 1);
     case checked_sub end start of
       None \<Rightarrow> Some h
     | Some len \<Rightarrow>
         (case h of
            Sparse sparse \<Rightarrow>
              if sparse_len sparse + len < SPARSE_MAX then do {
                sparse \<leftarrow> for_range start end
                  (\<lambda>elem sparse. do { (_, sparse) \<leftarrow> sparse_insert A sparse elem; Some sparse }) sparse;
                Some (Sparse sparse)
              } else do {
                dense \<leftarrow> sparse_to_dense sparse;
                dense \<leftarrow> bitset_insert_range dense elems;
                Some (Dense dense)
              }
          | Dense dense \<Rightarrow> map_option Dense (bitset_insert_range dense elems))
   }"

fun hybrid_insert_all :: "hybrid_bit_set \<Rightarrow> hybrid_bit_set option" where
  "hybrid_insert_all (Sparse sparse) = map_option Dense (bitset_new_filled (sp_domain_size sparse))"
| "hybrid_insert_all (Dense dense) = map_option Dense (bitset_insert_all dense)"

fun hybrid_remove :: "arrayvec \<Rightarrow> hybrid_bit_set \<Rightarrow> nat \<Rightarrow> (bool \<times> hybrid_bit_set) option" where
  "hybrid_remove A (Sparse sparse) elem = do {
     (changed, sparse) \<leftarrow> sparse_remove A sparse elem;
     Some (changed, Sparse sparse)
   }"
| "hybrid_remove A (Dense dense) elem = do {
     (changed, dense) \<leftarrow> bitset_remove dense elem;
     Some (changed, Dense dense)
   }"

fun hybrid_to_dense :: "hybrid_bit_set \<Rightarrow> bit_set option" where
  "hybrid_to_dense (Sparse sparse) = sparse_to_dense sparse"
| "hybrid_to_dense (Dense dense) = Some dense"

text \<open>
  The loop of \<open>reverse_union_sparse\<close> carries the words, whether a bit outside the sparse set was
  seen, the index of the current word, and the bits of the sparse set in it.
\<close>

definition merge_current ::
    "u64 list \<times> bool \<times> nat \<times> u64 \<Rightarrow> (u64 list \<times> bool) option" where
  "merge_current st = (case st of (ws, not_already, current_index, new_bit_mask) \<Rightarrow> do {
     w \<leftarrow> index_at ws current_index;
     ws \<leftarrow> store_at ws current_index (w OR new_bit_mask);
     w \<leftarrow> index_at ws current_index;
     Some (ws, not_already \<or> w XOR new_bit_mask \<noteq> 0)
   })"

definition reverse_union_step ::
    "nat \<Rightarrow> u64 list \<times> bool \<times> nat \<times> u64 \<Rightarrow> (u64 list \<times> bool \<times> nat \<times> u64) option" where
  "reverse_union_step x st = (case st of (ws, not_already, current_index, new_bit_mask) \<Rightarrow> do {
     let (word_index, mask) = word_index_and_mask x;
     (ws, not_already, current_index, new_bit_mask) \<leftarrow>
       (if word_index > current_index then do {
          (ws, not_already) \<leftarrow> merge_current (ws, not_already, current_index, new_bit_mask);
          skipped \<leftarrow> slice ws (current_index + 1) word_index;
          Some (ws, not_already \<or> list_ex (\<lambda>x. x \<noteq> 0) skipped, word_index, 0)
        } else Some (ws, not_already, current_index, new_bit_mask));
     Some (ws, not_already, current_index, new_bit_mask OR mask)
   })"

definition bitset_reverse_union_sparse :: "bit_set \<Rightarrow> sparse_bit_set \<Rightarrow> (bool \<times> bit_set) option" where
  "bitset_reverse_union_sparse s sparse = do {
     assert_that (sp_domain_size sparse = domain_size s);
     s \<leftarrow> bitset_clear_excess_bits s;
     st \<leftarrow> for_each reverse_union_step (sparse_iter sparse) (words s, False, 0, 0);
     (ws, not_already) \<leftarrow> merge_current st;
     rest \<leftarrow> slice ws (fst (snd (snd st)) + 1) (length ws);
     Some (not_already \<or> list_ex (\<lambda>x. x \<noteq> 0) rest, s\<lparr>words := ws\<rparr>)
   }"

text \<open>\<open>hybrid REL dense\<close>.\<close>

fun hybrid_union_dense :: "hybrid_bit_set \<Rightarrow> bit_set \<Rightarrow> (bool \<times> hybrid_bit_set) option" where
  "hybrid_union_dense h other = do {
     assert_that (hybrid_domain_size h = domain_size other);
     case h of
       Sparse sparse \<Rightarrow> do {
         (changed, new_dense) \<leftarrow> bitset_reverse_union_sparse other sparse;
         Some (changed, Dense new_dense)
       }
     | Dense dense \<Rightarrow> do {
         (changed, dense) \<leftarrow> bitset_union dense other;
         Some (changed, Dense dense)
       }
   }"

definition hybrid_subtract_dense ::
    "arrayvec \<Rightarrow> hybrid_bit_set \<Rightarrow> bit_set \<Rightarrow> (bool \<times> hybrid_bit_set) option" where
  "hybrid_subtract_dense A h other = do {
     assert_that (hybrid_domain_size h = domain_size other);
     case h of
       Sparse sparse \<Rightarrow> do {
         (changed, sparse) \<leftarrow> sequential_update (sparse_remove A) sparse
                                (bit_iter_collect (bitset_iter other)) False;
         Some (changed, Sparse sparse)
       }
     | Dense dense \<Rightarrow> do {
         (changed, dense) \<leftarrow> bitset_subtract dense other;
         Some (changed, Dense dense)
       }
   }"

definition hybrid_intersect_dense ::
    "arrayvec \<Rightarrow> hybrid_bit_set \<Rightarrow> bit_set \<Rightarrow> (bool \<times> hybrid_bit_set) option" where
  "hybrid_intersect_dense A h other = do {
     assert_that (hybrid_domain_size h = domain_size other);
     case h of
       Sparse sparse \<Rightarrow> do {
         (changed, sparse) \<leftarrow> sparse_intersect A sparse (\<lambda>elem. bitset_contains other elem);
         Some (changed, Sparse sparse)
       }
     | Dense dense \<Rightarrow> do {
         (changed, dense) \<leftarrow> bitset_intersect dense other;
         Some (changed, Dense dense)
       }
   }"

text \<open>\<open>dense REL hybrid\<close>.\<close>

definition bitset_union_hybrid :: "bit_set \<Rightarrow> hybrid_bit_set \<Rightarrow> (bool \<times> bit_set) option" where
  "bitset_union_hybrid s other = do {
     assert_that (domain_size s = hybrid_domain_size other);
     case other of
       Sparse sparse \<Rightarrow> sequential_update bitset_insert s (sparse_iter sparse) False
     | Dense dense \<Rightarrow> bitset_union s dense
   }"

definition bitset_subtract_hybrid :: "bit_set \<Rightarrow> hybrid_bit_set \<Rightarrow> (bool \<times> bit_set) option" where
  "bitset_subtract_hybrid s other = do {
     assert_that (domain_size s = hybrid_domain_size other);
     case other of
       Sparse sparse \<Rightarrow> sequential_update bitset_remove s (sparse_iter sparse) False
     | Dense dense \<Rightarrow> bitset_subtract s dense
   }"

definition bitset_intersect_hybrid ::
    "arrayvec \<Rightarrow> bit_set \<Rightarrow> hybrid_bit_set \<Rightarrow> (bool \<times> bit_set) option" where
  "bitset_intersect_hybrid A s other = do {
     assert_that (domain_size s = hybrid_domain_size other);
     case other of
       Sparse sparse \<Rightarrow> do {
         (updated, changed) \<leftarrow> dense_sparse_intersect A s sparse;
         s \<leftarrow> for_each (\<lambda>elem s. do { (_, s) \<leftarrow> bitset_insert s elem; Some s })
                (sparse_iter updated) (bitset_clear s);
         Some (changed, s)
       }
     | Dense dense \<Rightarrow> bitset_intersect s dense
   }"

text \<open>\<open>hybrid REL hybrid\<close>.\<close>

definition hybrid_union ::
    "arrayvec \<Rightarrow> hybrid_bit_set \<Rightarrow> hybrid_bit_set \<Rightarrow> (bool \<times> hybrid_bit_set) option" where
  "hybrid_union A h other = do {
     assert_that (hybrid_domain_size h = hybrid_domain_size other);
     case h of
       Sparse _ \<Rightarrow>
         (case other of
            Sparse other_sparse \<Rightarrow>
              for_each (\<lambda>elem (changed, h). do {
                  (c, h) \<leftarrow> hybrid_insert A h elem;
                  Some (changed \<or> c, h)
                }) (sparse_iter other_sparse) (False, h)
          | Dense other_dense \<Rightarrow> hybrid_union_dense h other_dense)
     | Dense self_dense \<Rightarrow> do {
         (changed, self_dense) \<leftarrow> bitset_union_hybrid self_dense other;
         Some (changed, Dense self_dense)
       }
   }"

definition hybrid_subtract ::
    "arrayvec \<Rightarrow> hybrid_bit_set \<Rightarrow> hybrid_bit_set \<Rightarrow> (bool \<times> hybrid_bit_set) option" where
  "hybrid_subtract A h other = do {
     assert_that (hybrid_domain_size h = hybrid_domain_size other);
     case h of
       Sparse self_sparse \<Rightarrow> do {
         (changed, self_sparse) \<leftarrow> sequential_update (sparse_remove A) self_sparse
                                     (hybrid_iter other) False;
         Some (changed, Sparse self_sparse)
       }
     | Dense self_dense \<Rightarrow> do {
         (changed, self_dense) \<leftarrow> bitset_subtract_hybrid self_dense other;
         Some (changed, Dense self_dense)
       }
   }"

definition hybrid_intersect ::
    "arrayvec \<Rightarrow> hybrid_bit_set \<Rightarrow> hybrid_bit_set \<Rightarrow> (bool \<times> hybrid_bit_set) option" where
  "hybrid_intersect A h other = do {
     assert_that (hybrid_domain_size h = hybrid_domain_size other);
     case h of
       Sparse self_sparse \<Rightarrow> do {
         (changed, self_sparse) \<leftarrow> sparse_intersect A self_sparse (\<lambda>elem. hybrid_contains other elem);
         Some (changed, Sparse self_sparse)
       }
     | Dense self_dense \<Rightarrow>
         (case other of
            Sparse other_sparse \<Rightarrow> do {
              (updated, changed) \<leftarrow> dense_sparse_intersect A self_dense other_sparse;
              Some (changed, Sparse updated)
            }
          | Dense other_dense \<Rightarrow> do {
              (changed, self_dense) \<leftarrow> bitset_intersect self_dense other_dense;
              Some (changed, Dense self_dense)
            })
   }"


section \<open>Merging a sparse set into a dense one\<close>

lemma sub_mask_iff: "(w OR m) XOR m \<noteq> 0 \<longleftrightarrow> (\<exists>n. bit w n \<and> \<not> bit m n)" for w m :: u64
  by (auto simp: word_nonzero_bit bit_xor_iff bit_or_iff)

lemma word_position_eq: "n + WORD_BITS * (x div WORD_BITS) = x \<longleftrightarrow> n = x mod WORD_BITS"
  using mod_mult_div_eq [of x WORD_BITS] by linarith

text \<open>
  The invariant of the loop, for the elements \<open>ys\<close> already seen and the original words \<open>ws\<close>: words
  before the current one are merged, \<open>not_already\<close> reports the bits of those words outside \<open>ys\<close>, and
  the mask holds the elements of \<open>ys\<close> in the current word.
\<close>

definition reverse_union_inv ::
    "u64 list \<Rightarrow> nat list \<Rightarrow> u64 list \<times> bool \<times> nat \<times> u64 \<Rightarrow> bool" where
  "reverse_union_inv ws ys st = (case st of (vs, not_already, cur, msk) \<Rightarrow>
     length vs = length ws \<and> cur < length ws \<and>
     bits vs = bits ws \<union> {y \<in> set ys. y div WORD_BITS < cur} \<and>
     (not_already \<longleftrightarrow> (\<exists>i \<in> bits ws. i div WORD_BITS < cur \<and> i \<notin> set ys)) \<and>
     (\<forall>n. bit msk n \<longleftrightarrow> n < WORD_BITS \<and> n + WORD_BITS * cur \<in> set ys) \<and>
     (\<forall>y \<in> set ys. y div WORD_BITS \<le> cur) \<and>
     (cur = 0 \<or> (\<exists>y \<in> set ys. y div WORD_BITS = cur)))"

lemma merge_current_spec:
  assumes "reverse_union_inv ws ys (vs, na, cur, msk)"
  shows "\<exists>vs'. merge_current (vs, na, cur, msk) =
      Some (vs', \<exists>i \<in> bits ws. i div WORD_BITS \<le> cur \<and> i \<notin> set ys) \<and>
    length vs' = length ws \<and> bits vs' = bits ws \<union> set ys \<and>
    (\<forall>j. cur < j \<longrightarrow> j < length ws \<longrightarrow> vs' ! j = ws ! j)"
proof -
  from assms have I: "length vs = length ws" "cur < length ws"
      "bits vs = bits ws \<union> {y \<in> set ys. y div WORD_BITS < cur}"
      "na \<longleftrightarrow> (\<exists>i \<in> bits ws. i div WORD_BITS < cur \<and> i \<notin> set ys)"
      "\<And>n. bit msk n \<longleftrightarrow> n < WORD_BITS \<and> n + WORD_BITS * cur \<in> set ys"
      "\<And>y. y \<in> set ys \<Longrightarrow> y div WORD_BITS \<le> cur"
    by (auto simp: reverse_union_inv_def)
  let ?vs = "vs[cur := vs ! cur OR msk]"
  have msk: "bit msk (i mod WORD_BITS) \<longleftrightarrow> i \<in> set ys" if "i div WORD_BITS = cur" for i
    using that div_mult_mod_eq [of i WORD_BITS] by (simp add: I(5) mult.commute add.commute)
  have same: "bit (vs ! j) n \<longleftrightarrow> bit (ws ! j) n" if "cur \<le> j" "j < length ws" for j n
    using bits_word_member [of j vs n] bits_word_member [of j ws n] that I(1,3)
    by (auto dest: bit_less_WORD_BITS)
  have "bits ?vs = bits vs \<union> {y \<in> set ys. y div WORD_BITS = cur}"
    using I(1,2) msk by (auto simp: bits_or_word)
  then have bits: "bits ?vs = bits ws \<union> set ys"
    using I(3,6) by (auto simp: order_le_less)
  have "(vs ! cur OR msk) XOR msk \<noteq> 0 \<longleftrightarrow> (\<exists>i \<in> bits ws. i div WORD_BITS = cur \<and> i \<notin> set ys)"
  proof
    assume "(vs ! cur OR msk) XOR msk \<noteq> 0"
    then obtain n where n: "bit (ws ! cur) n" "\<not> bit msk n"
      using same [of cur] I(2) by (auto simp: sub_mask_iff)
    then have "n < WORD_BITS" by (auto dest: bit_less_WORD_BITS)
    with n I(2) msk [of "n + WORD_BITS * cur"]
    show "\<exists>i \<in> bits ws. i div WORD_BITS = cur \<and> i \<notin> set ys"
      by (intro bexI [of _ "n + WORD_BITS * cur"]) (simp_all add: mem_bits_iff)
  next
    assume "\<exists>i \<in> bits ws. i div WORD_BITS = cur \<and> i \<notin> set ys"
    then show "(vs ! cur OR msk) XOR msk \<noteq> 0"
      using same [of cur] I(2) msk unfolding sub_mask_iff by (auto simp: mem_bits_iff)
  qed
  then have "merge_current (vs, na, cur, msk) =
      Some (?vs, \<exists>i \<in> bits ws. i div WORD_BITS \<le> cur \<and> i \<notin> set ys)"
    using I(1,2,4) by (auto simp: merge_current_def order_le_less)
  moreover have "?vs ! j = ws ! j" if "cur < j" "j < length ws" for j
    using that same [of j] by (simp add: word_eq_iff_bits)
  ultimately show ?thesis using bits I(1) by auto
qed

lemma nonzero_words_iff:
  assumes "a \<le> b" "b \<le> length ws"
  shows "list_ex (\<lambda>x. x \<noteq> 0) (take (b - a) (drop a ws)) \<longleftrightarrow>
         (\<exists>i \<in> bits ws. a \<le> i div WORD_BITS \<and> i div WORD_BITS < b)"
proof
  assume "list_ex (\<lambda>x. x \<noteq> 0) (take (b - a) (drop a ws))"
  then obtain j where j: "j < b - a" "ws ! (a + j) \<noteq> 0"
    using assms by (auto simp: list_ex_iff in_set_conv_nth)
  then obtain n where "bit (ws ! (a + j)) n" by (auto simp: word_nonzero_bit)
  with j assms bit_less_WORD_BITS [of "ws ! (a + j)" n]
  show "\<exists>i \<in> bits ws. a \<le> i div WORD_BITS \<and> i div WORD_BITS < b"
    by (intro bexI [of _ "n + WORD_BITS * (a + j)"]) (simp_all add: mem_bits_iff)
next
  assume "\<exists>i \<in> bits ws. a \<le> i div WORD_BITS \<and> i div WORD_BITS < b"
  then obtain i where i: "i \<in> bits ws" "a \<le> i div WORD_BITS" "i div WORD_BITS < b" by blast
  then have "ws ! (i div WORD_BITS) \<noteq> 0" by (auto simp: mem_bits_iff)
  moreover have "take (b - a) (drop a ws) ! (i div WORD_BITS - a) = ws ! (i div WORD_BITS)"
    and "i div WORD_BITS - a < length (take (b - a) (drop a ws))" using i assms by simp_all
  ultimately show "list_ex (\<lambda>x. x \<noteq> 0) (take (b - a) (drop a ws))"
    unfolding list_ex_iff by (metis nth_mem)
qed

lemma reverse_union_step_spec:
  assumes I: "reverse_union_inv ws ys (vs, na, cur, msk)"
    and x: "\<And>y. y \<in> set ys \<Longrightarrow> y < x" "x div WORD_BITS < length ws"
  shows "\<exists>st'. reverse_union_step x (vs, na, cur, msk) = Some st' \<and> reverse_union_inv ws (ys @ [x]) st'"
proof (cases "cur < x div WORD_BITS")
  case True
  obtain vs' where m: "merge_current (vs, na, cur, msk) =
        Some (vs', \<exists>i \<in> bits ws. i div WORD_BITS \<le> cur \<and> i \<notin> set ys)"
      "length vs' = length ws" "bits vs' = bits ws \<union> set ys"
      "\<forall>j. cur < j \<longrightarrow> j < length ws \<longrightarrow> vs' ! j = ws ! j"
    using merge_current_spec [OF I] by blast
  have ys: "y div WORD_BITS \<le> cur" if "y \<in> set ys" for y
    using I that by (auto simp: reverse_union_inv_def)
  have "take (x div WORD_BITS - (cur + 1)) (drop (cur + 1) vs') =
      take (x div WORD_BITS - (cur + 1)) (drop (cur + 1) ws)"
    using m(2,4) x(2) by (intro nth_equalityI) auto
  then have skipped: "list_ex (\<lambda>x. x \<noteq> 0) (take (x div WORD_BITS - (cur + 1)) (drop (cur + 1) vs')) \<longleftrightarrow>
      (\<exists>i \<in> bits ws. cur + 1 \<le> i div WORD_BITS \<and> i div WORD_BITS < x div WORD_BITS)"
    using nonzero_words_iff [of "cur + 1" "x div WORD_BITS" ws] True x(2) by simp
  define na' where "na' \<longleftrightarrow> (\<exists>i \<in> bits ws. i div WORD_BITS < x div WORD_BITS \<and> i \<notin> set (ys @ [x]))"
  have "na' \<longleftrightarrow> (\<exists>i \<in> bits ws. i div WORD_BITS \<le> cur \<and> i \<notin> set ys) \<or>
      (\<exists>i \<in> bits ws. cur + 1 \<le> i div WORD_BITS \<and> i div WORD_BITS < x div WORD_BITS)"
    using True ys unfolding na'_def by (force simp: not_le)
  then have "reverse_union_step x (vs, na, cur, msk) = Some (vs', na', x div WORD_BITS, elem_mask x)"
    using True m(1,2) x(2) skipped by (simp add: reverse_union_step_def)
  moreover have "reverse_union_inv ws (ys @ [x]) (vs', na', x div WORD_BITS, elem_mask x)"
  proof -
    have lt: "y div WORD_BITS < x div WORD_BITS" if "y \<in> set ys" for y
      using ys [OF that] True by simp
    then have bits: "{y \<in> set (ys @ [x]). y div WORD_BITS < x div WORD_BITS} = set ys" by auto
    have "bit (elem_mask x) n \<longleftrightarrow>
        n < WORD_BITS \<and> n + WORD_BITS * (x div WORD_BITS) \<in> set (ys @ [x])" for n
    proof -
      have "n + WORD_BITS * (x div WORD_BITS) \<notin> set ys" if "n < WORD_BITS"
        using lt [of "n + WORD_BITS * (x div WORD_BITS)"] that by auto
      then show ?thesis by (auto simp: bit_word_mask word_position_eq)
    qed
    moreover have "\<forall>y \<in> set (ys @ [x]). y div WORD_BITS \<le> x div WORD_BITS"
      using lt by (auto intro: less_imp_le)
    ultimately show ?thesis
      using m(2,3) x(2) na'_def unfolding reverse_union_inv_def prod.case bits by auto
  qed
  ultimately show ?thesis by blast
next
  case False
  have cur: "x div WORD_BITS = cur"
  proof (rule antisym)
    have "cur = 0 \<or> (\<exists>y \<in> set ys. y div WORD_BITS = cur)" using I by (simp add: reverse_union_inv_def)
    then show "cur \<le> x div WORD_BITS"
      using x(1) div_le_mono [OF less_imp_le] by fastforce
  qed (use False in simp)
  have "reverse_union_step x (vs, na, cur, msk) = Some (vs, na, cur, msk OR elem_mask x)"
    using False by (simp add: reverse_union_step_def)
  moreover have "reverse_union_inv ws (ys @ [x]) (vs, na, cur, msk OR elem_mask x)"
  proof -
    have "bit (msk OR elem_mask x) n \<longleftrightarrow> n < WORD_BITS \<and> n + WORD_BITS * cur \<in> set (ys @ [x])" for n
      using I cur word_position_eq [of n x]
      by (auto simp: reverse_union_inv_def bit_or_iff bit_word_mask div_eq_0_iff)
    moreover have "{y \<in> set (ys @ [x]). y div WORD_BITS < cur} = {y \<in> set ys. y div WORD_BITS < cur}"
      using cur by auto
    moreover have "(\<exists>i \<in> bits ws. i div WORD_BITS < cur \<and> i \<notin> set (ys @ [x])) \<longleftrightarrow>
        (\<exists>i \<in> bits ws. i div WORD_BITS < cur \<and> i \<notin> set ys)"
      using cur by auto
    ultimately show ?thesis
      using I cur unfolding reverse_union_inv_def by simp
  qed
  ultimately show ?thesis by blast
qed

text \<open>
  \<open>reverse_union_sparse\<close> adds the sparse set and reports whether the dense set had an element the
  sparse set has not, as its documentation says.
\<close>

lemma bitset_reverse_union_sparse_spec:
  assumes "bitset_inv s" "sparse_inv sp" "domain_size s = sp_domain_size sp" "0 < domain_size s"
  shows "\<exists>s'. bitset_reverse_union_sparse s sp = Some (\<not> bitset_elems s \<subseteq> sparse_elems sp, s') \<and>
     bitset_inv s' \<and> domain_size s' = domain_size s \<and>
     bitset_elems s' = bitset_elems s \<union> sparse_elems sp"
proof -
  let ?ws = "words s" and ?xs = "sp_elems sp"
  have len: "0 < length ?ws"
    using bitset_invD(1) [OF assms(1)] assms(4) num_words_0_iff [of "domain_size s"] by linarith
  have "\<exists>st. for_each reverse_union_step ?xs (?ws, False, 0, 0) = Some st \<and> reverse_union_inv ?ws ?xs st"
  proof (rule for_each_rule)
    show "reverse_union_inv ?ws [] (?ws, False, 0, 0)" using len by (simp add: reverse_union_inv_def)
  next
    fix ys y zs and st :: "u64 list \<times> bool \<times> nat \<times> u64"
    assume split: "?xs = ys @ y # zs" and I: "reverse_union_inv ?ws ys st"
    have "\<And>x. x \<in> set ys \<Longrightarrow> x < y" and "y < domain_size s"
      using assms(2,3) split by (auto simp: sparse_inv_def sorted_wrt_append)
    moreover from this have "y div WORD_BITS < length ?ws"
      using word_index_less bitset_invD(1) [OF assms(1)] by simp
    ultimately show "\<exists>st'. reverse_union_step y st = Some st' \<and> reverse_union_inv ?ws (ys @ [y]) st'"
      using reverse_union_step_spec [of ?ws ys "fst st" "fst (snd st)" "fst (snd (snd st))"
          "snd (snd (snd st))" y] I by simp
  qed
  then obtain vs na cur msk where st: "for_each reverse_union_step ?xs (?ws, False, 0, 0) = Some (vs, na, cur, msk)"
      "reverse_union_inv ?ws ?xs (vs, na, cur, msk)" by (metis prod_cases4)
  obtain vs' where m: "merge_current (vs, na, cur, msk) =
        Some (vs', \<exists>i \<in> bits ?ws. i div WORD_BITS \<le> cur \<and> i \<notin> set ?xs)"
      "length vs' = length ?ws" "bits vs' = bits ?ws \<union> set ?xs"
      "\<forall>j. cur < j \<longrightarrow> j < length ?ws \<longrightarrow> vs' ! j = ?ws ! j"
    using merge_current_spec [OF st(2)] by blast
  from st(2) have cur: "cur < length ?ws" "\<And>y. y \<in> set ?xs \<Longrightarrow> y div WORD_BITS \<le> cur"
    by (auto simp: reverse_union_inv_def)
  have "take (length ?ws - (cur + 1)) (drop (cur + 1) vs') = take (length ?ws - (cur + 1)) (drop (cur + 1) ?ws)"
    using m(2,4) by (intro nth_equalityI) auto
  then have "list_ex (\<lambda>x. x \<noteq> 0) (take (length ?ws - (cur + 1)) (drop (cur + 1) vs')) \<longleftrightarrow>
      (\<exists>i \<in> bits ?ws. cur + 1 \<le> i div WORD_BITS \<and> i div WORD_BITS < length ?ws)"
    using nonzero_words_iff [of "cur + 1" "length ?ws" ?ws] cur(1) by simp
  also have "\<dots> \<longleftrightarrow> (\<exists>i \<in> bits ?ws. cur < i div WORD_BITS \<and> i \<notin> set ?xs)"
    using cur(2) by (force simp: mem_bits_iff)
  finally have "(\<exists>i \<in> bits ?ws. i div WORD_BITS \<le> cur \<and> i \<notin> set ?xs) \<or>
      list_ex (\<lambda>x. x \<noteq> 0) (take (length ?ws - (cur + 1)) (drop (cur + 1) vs')) \<longleftrightarrow> \<not> bits ?ws \<subseteq> set ?xs"
    by (auto simp: not_le) (meson not_le)
  then have "bitset_reverse_union_sparse s sp = Some (\<not> bits ?ws \<subseteq> set ?xs, s\<lparr>words := vs'\<rparr>)"
    using st(1) m(1,2) cur(1) assms(1,3)
    by (simp add: bitset_reverse_union_sparse_def bitset_clear_excess_bits_id sparse_iter_def)
  moreover have "bitset_inv (s\<lparr>words := vs'\<rparr>)"
    using assms m(2,3) bitset_invD(2) [OF assms(1)] by (intro bitset_inv_words) (auto simp: sparse_inv_def)
  ultimately show ?thesis using m(3) by auto
qed

text \<open>On an empty domain there is no current word, and the final merge indexes out of bounds.\<close>

lemma bitset_reverse_union_sparse_empty_domain:
  assumes "bitset_inv s" "sparse_inv sp" "domain_size s = 0"
  shows "bitset_reverse_union_sparse s sp = None"
proof (cases "sp_domain_size sp = 0")
  case True
  then have "sp_elems sp = []" using assms(2) by (auto simp: sparse_inv_def)
  then show ?thesis using assms bitset_invD(1) [OF assms(1)]
    by (simp add: bitset_reverse_union_sparse_def bitset_clear_excess_bits_id sparse_iter_def
        merge_current_def)
qed (use assms in \<open>simp add: bitset_reverse_union_sparse_def\<close>)


section \<open>Invariant, abstraction and contract\<close>

fun hybrid_elems :: "hybrid_bit_set \<Rightarrow> nat set" where
  "hybrid_elems (Sparse sparse) = sparse_elems sparse"
| "hybrid_elems (Dense dense) = bitset_elems dense"

fun hybrid_inv :: "hybrid_bit_set \<Rightarrow> bool" where
  "hybrid_inv (Sparse sparse) = sparse_inv sparse"
| "hybrid_inv (Dense dense) = bitset_inv dense"

abbreviation hybrid_rel ::
    "(nat set \<Rightarrow> nat set \<Rightarrow> nat set) \<Rightarrow> nat set \<Rightarrow> hybrid_bit_set \<Rightarrow> (bool \<times> hybrid_bit_set) option \<Rightarrow> bool" where
  "hybrid_rel \<equiv> relation_spec hybrid_domain_size hybrid_elems hybrid_inv"

abbreviation bitset_rel ::
    "(nat set \<Rightarrow> nat set \<Rightarrow> nat set) \<Rightarrow> nat set \<Rightarrow> bit_set \<Rightarrow> (bool \<times> bit_set) option \<Rightarrow> bool" where
  "bitset_rel \<equiv> relation_spec domain_size bitset_elems bitset_inv"

lemma hybrid_new_empty_spec [simp]:
  "hybrid_domain_size (hybrid_new_empty d) = d" "hybrid_elems (hybrid_new_empty d) = {}"
  "d \<le> MAX_DOMAIN \<Longrightarrow> hybrid_inv (hybrid_new_empty d)"
  by (simp_all add: hybrid_new_empty_def)

lemma hybrid_inv_domain: "hybrid_inv h \<Longrightarrow> hybrid_domain_size h \<le> MAX_DOMAIN"
  by (cases h) (simp_all add: sparse_inv_def bitset_inv_def)

lemma hybrid_clear_spec:
  "hybrid_inv h \<Longrightarrow> hybrid_inv (hybrid_clear h) \<and> hybrid_elems (hybrid_clear h) = {} \<and>
     hybrid_domain_size (hybrid_clear h) = hybrid_domain_size h"
  using hybrid_inv_domain [of h] by (simp add: hybrid_clear_def)

lemma hybrid_elems_dom: "hybrid_inv h \<Longrightarrow> hybrid_elems h \<subseteq> {..<hybrid_domain_size h}"
  using bitset_invD(2) by (cases h) (auto simp: sparse_inv_def)

lemma hybrid_contains_eq:
  "hybrid_inv h \<Longrightarrow> hybrid_contains h e = (if e < hybrid_domain_size h then Some (e \<in> hybrid_elems h) else None)"
  by (cases h) (simp_all add: sparse_contains_eq bitset_contains_eq)

lemma hybrid_iter_eq: "hybrid_inv h \<Longrightarrow> hybrid_iter h = sorted_list_of_set (hybrid_elems h)"
  by (cases h)
     (simp_all add: sparse_iter_def bitset_iter_collect sparse_inv_def sorted_list_of_set.idem_if_sorted_distinct
        strict_sorted_iff)

lemma finite_hybrid_elems [simp]: "finite (hybrid_elems h)"
  by (cases h) simp_all

lemma set_hybrid_iter [simp]: "hybrid_inv h \<Longrightarrow> set (hybrid_iter h) = hybrid_elems h"
  by (simp add: hybrid_iter_eq)

lemma hybrid_is_empty_iff: "hybrid_is_empty h \<longleftrightarrow> hybrid_elems h = {}"
  by (cases h) (simp_all add: sparse_is_empty_def bitset_is_empty_iff)

lemma hybrid_to_dense_spec:
  assumes "hybrid_inv h"
  shows "\<exists>d. hybrid_to_dense h = Some d \<and> bitset_inv d \<and> domain_size d = hybrid_domain_size h \<and>
             bitset_elems d = hybrid_elems h"
  using assms sparse_to_dense_spec by (cases h) simp_all

lemma hybrid_insert_all_spec:
  assumes "hybrid_inv h"
  shows "\<exists>h'. hybrid_insert_all h = Some h' \<and> hybrid_inv h' \<and> hybrid_domain_size h' = hybrid_domain_size h \<and>
              hybrid_elems h' = {..<hybrid_domain_size h}"
  using assms bitset_new_filled_spec [of "hybrid_domain_size h"] hybrid_inv_domain [of h]
    bitset_insert_all_spec
  by (cases h) fastforce+

lemma all_of_Some: "(\<And>x. x \<in> set xs \<Longrightarrow> f x = Some (P x)) \<Longrightarrow> all_of f xs = Some (\<forall>x \<in> set xs. P x)"
  by (induction xs) auto

lemma hybrid_superset_eq:
  assumes "hybrid_inv h" "hybrid_inv g" "hybrid_domain_size h = hybrid_domain_size g"
  shows "hybrid_superset h g = Some (hybrid_elems g \<subseteq> hybrid_elems h)"
proof -
  have "all_of (hybrid_contains h) (hybrid_iter g) = Some (\<forall>x \<in> set (hybrid_iter g). x \<in> hybrid_elems h)"
    using assms hybrid_elems_dom [OF assms(2)]
    by (intro all_of_Some) (auto simp: hybrid_contains_eq simp del: hybrid_domain_size.simps hybrid_elems.simps)
  then show ?thesis
    using assms by (cases h; cases g) (auto simp: bitset_superset_eq sparse_iter_def bitset_iter_collect)
qed

lemma hybrid_last_set_in_spec:
  assumes "hybrid_inv h" "range_fits r (hybrid_domain_size h)"
  shows "hybrid_last_set_in h r = Some (greatest (hybrid_elems h \<inter> range_elems r (hybrid_domain_size h)))"
  using assms by (cases h) (simp_all add: sparse_last_set_in_spec bitset_last_set_in_spec)


text \<open>
  The sparse set shrinks like any index set; it is insertable only below its capacity, which is what
  the hybrid set checks before it inserts.
\<close>

context arrayvec_laws
begin

lemma hybrid_insert_ok:
  assumes "hybrid_inv h" "e < hybrid_domain_size h"
  shows "\<exists>h'. hybrid_insert A h e = Some (e \<notin> hybrid_elems h, h') \<and> hybrid_inv h' \<and>
              hybrid_domain_size h' = hybrid_domain_size h \<and> hybrid_elems h' = insert e (hybrid_elems h)"
proof (cases h)
  case (Dense d)
  with assms bitset_insert_ok [of d e] show ?thesis by fastforce
next
  case (Sparse s)
  show ?thesis
  proof (cases "sparse_len s < SPARSE_MAX")
    case True
    then obtain s' where "sparse_insert A s e = Some (e \<notin> sparse_elems s, s')" "sparse_inv s'"
        "sp_domain_size s' = sp_domain_size s" "sparse_elems s' = insert e (sparse_elems s)"
      using sparse_insert_spec [of s e] assms Sparse by (auto simp: sparse_len_def)
    with True Sparse show ?thesis by simp
  next
    case False
    obtain d where d: "sparse_to_dense s = Some d" "bitset_inv d" "domain_size d = sp_domain_size s"
        "bitset_elems d = sparse_elems s"
      using sparse_to_dense_spec [of s] assms Sparse by auto
    then obtain d' where "bitset_insert d e = Some (e \<notin> sparse_elems s, d')" "bitset_inv d'"
        "domain_size d' = sp_domain_size s" "bitset_elems d' = insert e (sparse_elems s)"
      using bitset_insert_ok [of d e] assms Sparse by auto
    with False d Sparse assms show ?thesis
      by (cases "e \<in> sparse_elems s") (simp_all add: sparse_contains_eq insert_absorb)
  qed
qed

lemma hybrid_insert_panics: "hybrid_inv h \<Longrightarrow> hybrid_domain_size h \<le> e \<Longrightarrow> hybrid_insert A h e = None"
  by (cases h) (simp_all add: sparse_insert_def sparse_contains_def bitset_insert_def)

lemma hybrid_remove_ok:
  assumes "hybrid_inv h" "e < hybrid_domain_size h"
  shows "\<exists>h'. hybrid_remove A h e = Some (e \<in> hybrid_elems h, h') \<and> hybrid_inv h' \<and>
              hybrid_domain_size h' = hybrid_domain_size h \<and> hybrid_elems h' = hybrid_elems h - {e}"
proof (cases h)
  case (Dense d)
  with assms bitset_remove_ok [of d e] show ?thesis by fastforce
next
  case (Sparse s)
  with assms sparse_remove_spec [of s e] show ?thesis by fastforce
qed

lemma hybrid_remove_panics: "hybrid_inv h \<Longrightarrow> hybrid_domain_size h \<le> e \<Longrightarrow> hybrid_remove A h e = None"
  by (cases h) (simp_all add: sparse_remove_def bitset_remove_def)

end

sublocale arrayvec_laws \<subseteq> hybrid: mutable_index_set hybrid_domain_size hybrid_elems hybrid_inv
  hybrid_contains "hybrid_insert A" "hybrid_remove A"
  by unfold_locales
     (rule hybrid_elems_dom hybrid_contains_eq hybrid_insert_ok hybrid_insert_panics hybrid_remove_ok
        hybrid_remove_panics; assumption)+

text \<open>\<open>hybrid REL dense\<close>, \<open>dense REL hybrid\<close> and \<open>hybrid REL hybrid\<close> compute the set operation.\<close>

lemma hybrid_rel_Dense:
  "bitset_rel op_fn B d r \<Longrightarrow> hybrid_rel op_fn B (Dense d) (do { (changed, dense) \<leftarrow> r; Some (changed, Dense dense) })"
  by (auto simp: relation_spec_def)

lemma hybrid_union_dense_spec:
  assumes "hybrid_inv h" "bitset_inv t" "hybrid_domain_size h = domain_size t" "0 < domain_size t"
  shows "hybrid_rel (\<union>) (bitset_elems t) h (hybrid_union_dense h t)"
proof (cases h)
  case (Sparse sp)
  with assms obtain d where "bitset_reverse_union_sparse t sp = Some (\<not> bitset_elems t \<subseteq> sparse_elems sp, d)"
      "bitset_inv d" "domain_size d = domain_size t" "bitset_elems d = bitset_elems t \<union> sparse_elems sp"
    using bitset_reverse_union_sparse_spec [of t sp] by auto
  with Sparse assms(3) show ?thesis by (intro relation_specI [of _ _ "Dense d"]) auto
next
  case (Dense d)
  then show ?thesis
    using assms hybrid_rel_Dense [OF bitset_union_spec [of d t]] by simp
qed

lemma bitset_union_hybrid_spec:
  assumes "bitset_inv s" "hybrid_inv h" "domain_size s = hybrid_domain_size h"
  shows "bitset_rel (\<union>) (hybrid_elems h) s (bitset_union_hybrid s h)"
proof (cases h)
  case (Sparse sp)
  with assms have "set (sp_elems sp) \<subseteq> {..<domain_size s}" by (simp add: sparse_inv_def)
  with dense.sequential_insert [OF assms(1), of "sp_elems sp" False] obtain s' where
    "sequential_update bitset_insert s (sp_elems sp) False = Some (\<not> sparse_elems sp \<subseteq> bitset_elems s, s')"
    "bitset_inv s'" "domain_size s' = domain_size s" "bitset_elems s' = bitset_elems s \<union> sparse_elems sp" by auto
  with Sparse assms(3) show ?thesis
    by (intro relation_specI [of _ _ s']) (auto simp: bitset_union_hybrid_def sparse_iter_def)
qed (use assms bitset_union_spec in \<open>simp add: bitset_union_hybrid_def\<close>)

lemma bitset_subtract_hybrid_spec:
  assumes "bitset_inv s" "hybrid_inv h" "domain_size s = hybrid_domain_size h"
  shows "bitset_rel (-) (hybrid_elems h) s (bitset_subtract_hybrid s h)"
proof (cases h)
  case (Sparse sp)
  with assms have "set (sp_elems sp) \<subseteq> {..<domain_size s}" by (simp add: sparse_inv_def)
  with dense.sequential_remove [OF assms(1), of "sp_elems sp" False] obtain s' where
    "sequential_update bitset_remove s (sp_elems sp) False = Some (sparse_elems sp \<inter> bitset_elems s \<noteq> {}, s')"
    "bitset_inv s'" "domain_size s' = domain_size s" "bitset_elems s' = bitset_elems s - sparse_elems sp" by auto
  with Sparse assms(3) show ?thesis
    by (intro relation_specI [of _ _ s']) (auto simp: bitset_subtract_hybrid_def sparse_iter_def)
qed (use assms bitset_subtract_spec in \<open>simp add: bitset_subtract_hybrid_def\<close>)

lemma inter_card_changed:
  assumes "finite A" shows "card (B \<inter> A) \<noteq> card A \<longleftrightarrow> A \<inter> B \<noteq> A"
  using card_subset_eq [OF assms, of "A \<inter> B"] by (auto simp: Int_commute)

context arrayvec_laws
begin

lemmas hybrid_run_ops_answers = hybrid.run_ops_answers

lemma hybrid_subtract_dense_spec:
  assumes "hybrid_inv h" "bitset_inv t" "hybrid_domain_size h = domain_size t"
  shows "hybrid_rel (-) (bitset_elems t) h (hybrid_subtract_dense A h t)"
proof (cases h)
  case (Sparse sp)
  have "set (bit_iter_collect (bitset_iter t)) = bitset_elems t"
    using assms(2) by (simp add: bitset_iter_collect)
  with Sparse assms sparse.sequential_remove [of sp "bit_iter_collect (bitset_iter t)" False]
    bitset_invD(2) [OF assms(2)] obtain s' where
    "sequential_update (sparse_remove A) sp (bit_iter_collect (bitset_iter t)) False =
       Some (bitset_elems t \<inter> sparse_elems sp \<noteq> {}, s')"
    "sparse_inv s'" "sp_domain_size s' = sp_domain_size sp" "sparse_elems s' = sparse_elems sp - bitset_elems t"
    by auto
  with Sparse assms(3) show ?thesis
    by (intro relation_specI [of _ _ "Sparse s'"]) (auto simp: hybrid_subtract_dense_def)
next
  case (Dense d)
  then show ?thesis
    using assms hybrid_rel_Dense [OF bitset_subtract_spec [of d t]] by (simp add: hybrid_subtract_dense_def)
qed

lemma sparse_intersect_contains:
  assumes "sparse_inv sp" "hybrid_inv h" "sp_domain_size sp = hybrid_domain_size h"
  shows "hybrid_rel (\<inter>) (hybrid_elems h) (Sparse sp)
    (do { (changed, sparse) \<leftarrow> sparse_intersect A sp (\<lambda>elem. hybrid_contains h elem); Some (changed, Sparse sparse) })"
proof -
  have "hybrid_contains h x = Some (x \<in> hybrid_elems h)" if "x \<in> sparse_elems sp" for x
    using assms that by (auto simp: hybrid_contains_eq sparse_inv_def)
  with sparse_intersect_spec [OF assms(1), of "hybrid_contains h" "\<lambda>x. x \<in> hybrid_elems h"] obtain s' where
    "sparse_intersect A sp (hybrid_contains h) = Some (sparse_elems s' \<noteq> sparse_elems sp, s')" "sparse_inv s'"
    "sp_domain_size s' = sp_domain_size sp" "sparse_elems s' = {x \<in> sparse_elems sp. x \<in> hybrid_elems h}"
    by blast
  then show ?thesis by (intro relation_specI [of _ _ "Sparse s'"]) auto
qed

lemma hybrid_intersect_dense_spec:
  assumes "hybrid_inv h" "bitset_inv t" "hybrid_domain_size h = domain_size t"
  shows "hybrid_rel (\<inter>) (bitset_elems t) h (hybrid_intersect_dense A h t)"
proof (cases h)
  case (Sparse sp)
  then show ?thesis using sparse_intersect_contains [of sp "Dense t"] assms
    by (simp add: hybrid_intersect_dense_def)
next
  case (Dense d)
  then show ?thesis
    using assms hybrid_rel_Dense [OF bitset_intersect_spec [of d t]] by (simp add: hybrid_intersect_dense_def)
qed

lemma dense_sparse_intersect_spec:
  assumes "bitset_inv d" "sparse_inv sp" "domain_size d = sp_domain_size sp"
  shows "\<exists>s'. dense_sparse_intersect A d sp =
      Some (s', bitset_elems d \<inter> sparse_elems sp \<noteq> bitset_elems d) \<and> sparse_inv s' \<and>
      sp_domain_size s' = sp_domain_size sp \<and> sparse_elems s' = bitset_elems d \<inter> sparse_elems sp"
proof -
  have "bitset_contains d x = Some (x \<in> bitset_elems d)" if "x \<in> sparse_elems sp" for x
    using assms that by (auto simp: bitset_contains_eq sparse_inv_def)
  with sparse_intersect_spec [OF assms(2), of "bitset_contains d" "\<lambda>x. x \<in> bitset_elems d"] obtain s' where
    s': "sparse_intersect A sp (bitset_contains d) = Some (sparse_elems s' \<noteq> sparse_elems sp, s')" "sparse_inv s'"
    "sp_domain_size s' = sp_domain_size sp" "sparse_elems s' = {x \<in> sparse_elems sp. x \<in> bitset_elems d}"
    "length (sp_elems s') = card {x \<in> sparse_elems sp. x \<in> bitset_elems d}"
    by blast
  moreover have "{x \<in> sparse_elems sp. x \<in> bitset_elems d} = sparse_elems sp \<inter> bitset_elems d" by auto
  ultimately show ?thesis
    using inter_card_changed [of "bitset_elems d" "sparse_elems sp"]
    by (auto simp: dense_sparse_intersect_def sparse_len_def bitset_count_card)
qed

lemma bitset_intersect_hybrid_spec:
  assumes "bitset_inv s" "hybrid_inv h" "domain_size s = hybrid_domain_size h"
  shows "bitset_rel (\<inter>) (hybrid_elems h) s (bitset_intersect_hybrid A s h)"
proof (cases h)
  case (Dense d)
  with assms bitset_intersect_spec show ?thesis by (simp add: bitset_intersect_hybrid_def)
next
  case (Sparse sp)
  with assms obtain u where u: "dense_sparse_intersect A s sp =
        Some (u, bitset_elems s \<inter> sparse_elems sp \<noteq> bitset_elems s)" "sparse_inv u"
      "sp_domain_size u = sp_domain_size sp" "sparse_elems u = bitset_elems s \<inter> sparse_elems sp"
    using dense_sparse_intersect_spec [of s sp] by auto
  let ?ins = "\<lambda>elem s. do { (_, s) \<leftarrow> bitset_insert s elem; Some s }"
  have "\<exists>t. for_each ?ins (sp_elems u) (bitset_clear s) = Some t \<and>
      (bitset_inv t \<and> domain_size t = domain_size s \<and> bitset_elems t = set (sp_elems u))"
  proof (rule for_each_rule [where I = "\<lambda>ys t. bitset_inv t \<and> domain_size t = domain_size s \<and>
        bitset_elems t = set ys"])
    fix ys y zs t
    assume "sp_elems u = ys @ y # zs"
      and I: "bitset_inv t \<and> domain_size t = domain_size s \<and> bitset_elems t = set ys"
    then have "y < domain_size t" using Sparse assms(3) u(2,3) by (auto simp: sparse_inv_def)
    with I bitset_insert_ok [of t y] show "\<exists>t'. ?ins y t = Some t' \<and> bitset_inv t' \<and>
        domain_size t' = domain_size s \<and> bitset_elems t' = set (ys @ [y])" by auto
  qed (use assms(1) in simp)
  then obtain t where "for_each ?ins (sp_elems u) (bitset_clear s) = Some t" "bitset_inv t"
      "domain_size t = domain_size s" "bitset_elems t = sparse_elems u" by blast
  with u Sparse assms show ?thesis
    by (intro relation_specI [of _ _ t]) (simp_all add: bitset_intersect_hybrid_def sparse_iter_def)
qed

lemma for_each_hybrid_insert:
  assumes "hybrid_inv h" "set xs \<subseteq> {..<hybrid_domain_size h}"
  shows "\<exists>h'. for_each (\<lambda>elem (changed, h). do { (c, h) \<leftarrow> hybrid_insert A h elem; Some (changed \<or> c, h) })
      xs (False, h) = Some (\<not> set xs \<subseteq> hybrid_elems h, h') \<and> hybrid_inv h' \<and>
      hybrid_domain_size h' = hybrid_domain_size h \<and> hybrid_elems h' = hybrid_elems h \<union> set xs"
proof -
  let ?step = "\<lambda>elem (changed, h). do { (c, h) \<leftarrow> hybrid_insert A h elem; Some (changed \<or> c, h) }"
  have "for_each ?step xs (c, g) = sequential_update (hybrid_insert A) g xs c" for c g
    by (induction xs arbitrary: c g) (auto simp: disj_commute split: bind_splits)
  with hybrid.sequential_insert [OF assms, of False] show ?thesis by simp
qed

lemma hybrid_union_spec:
  assumes "hybrid_inv h" "hybrid_inv g" "hybrid_domain_size h = hybrid_domain_size g"
    and "0 < hybrid_domain_size h"
  shows "hybrid_rel (\<union>) (hybrid_elems g) h (hybrid_union A h g)"
proof (cases h)
  case (Dense d)
  with assms hybrid_rel_Dense [OF bitset_union_hybrid_spec [of d g]] show ?thesis
    by (simp add: hybrid_union_def)
next
  case h: (Sparse sp)
  show ?thesis
  proof (cases g)
    case (Dense t)
    with h assms hybrid_union_dense_spec [of h t] show ?thesis by (simp add: hybrid_union_def)
  next
    case (Sparse sq)
    with assms(2,3) have "set (sp_elems sq) \<subseteq> {..<hybrid_domain_size h}" by (simp add: sparse_inv_def)
    from for_each_hybrid_insert [OF assms(1) this] h Sparse assms(3) show ?thesis
      by (auto simp: relation_spec_def hybrid_union_def sparse_iter_def)
  qed
qed

lemma hybrid_subtract_spec:
  assumes "hybrid_inv h" "hybrid_inv g" "hybrid_domain_size h = hybrid_domain_size g"
  shows "hybrid_rel (-) (hybrid_elems g) h (hybrid_subtract A h g)"
proof (cases h)
  case (Dense d)
  with assms hybrid_rel_Dense [OF bitset_subtract_hybrid_spec [of d g]] show ?thesis
    by (simp add: hybrid_subtract_def)
next
  case (Sparse sp)
  have "set (hybrid_iter g) \<subseteq> {..<sp_domain_size sp}"
    using Sparse assms hybrid_elems_dom [of g] by simp
  with Sparse assms sparse.sequential_remove [of sp "hybrid_iter g" False] obtain s' where
    "sequential_update (sparse_remove A) sp (hybrid_iter g) False =
       Some (hybrid_elems g \<inter> sparse_elems sp \<noteq> {}, s')" "sparse_inv s'"
    "sp_domain_size s' = sp_domain_size sp" "sparse_elems s' = sparse_elems sp - hybrid_elems g" by auto
  with Sparse assms(3) show ?thesis
    by (intro relation_specI [of _ _ "Sparse s'"]) (auto simp: hybrid_subtract_def)
qed

lemma hybrid_intersect_spec:
  assumes "hybrid_inv h" "hybrid_inv g" "hybrid_domain_size h = hybrid_domain_size g"
  shows "hybrid_rel (\<inter>) (hybrid_elems g) h (hybrid_intersect A h g)"
proof (cases h)
  case (Sparse sp)
  with assms sparse_intersect_contains [of sp g] show ?thesis by (simp add: hybrid_intersect_def)
next
  case h: (Dense d)
  show ?thesis
  proof (cases g)
    case (Dense t)
    with h assms hybrid_rel_Dense [OF bitset_intersect_spec [of d t]] show ?thesis
      by (simp add: hybrid_intersect_def)
  next
    case (Sparse sq)
    with h assms dense_sparse_intersect_spec [of d sq] show ?thesis
      by (auto simp: relation_spec_def hybrid_intersect_def)
  qed
qed

text \<open>Inserting a range below the capacity of the sparse representation.\<close>

lemma for_range_sparse_insert:
  assumes "sparse_inv s" "a \<le> b" "b \<le> sp_domain_size s" "length (sp_elems s) + (b - a) \<le> SPARSE_MAX"
  shows "\<exists>s'. for_range a b (\<lambda>elem s. do { (_, s) \<leftarrow> sparse_insert A s elem; Some s }) s = Some s' \<and>
      sparse_inv s' \<and> sp_domain_size s' = sp_domain_size s \<and> sparse_elems s' = sparse_elems s \<union> {a..<b}"
proof -
  let ?f = "\<lambda>elem s. do { (_, s) \<leftarrow> sparse_insert A s elem; Some s }"
  let ?I = "\<lambda>i t. sparse_inv t \<and> sp_domain_size t = sp_domain_size s \<and>
      sparse_elems t = sparse_elems s \<union> {a..<i}"
  have "\<exists>t. for_range a b ?f s = Some t \<and> ?I b t"
  proof (rule for_range_rule [where I = ?I])
    fix i t assume i: "a \<le> i" "i < b" and t: "?I i t"
    have card: "length (sp_elems u) = card (sparse_elems u)" if "sparse_inv u" for u
      using that distinct_card [OF sorted_wrt_less_distinct, of "sp_elems u"] by (simp add: sparse_inv_def)
    have "card (sparse_elems s \<union> {a..<i}) \<le> card (sparse_elems s) + (i - a)"
      using card_Un_le [of "sparse_elems s" "{a..<i}"] by simp
    then have "length (sp_elems t) < SPARSE_MAX"
      using card [OF assms(1)] card [of t, OF conjunct1 [OF t]] t i assms(4) by simp
    then obtain t' where "sparse_insert A t i = Some (i \<notin> sparse_elems t, t')" "sparse_inv t'"
        "sp_domain_size t' = sp_domain_size t" "sparse_elems t' = insert i (sparse_elems t)"
      using sparse_insert_spec [of t i] t i assms(3) by auto
    then show "\<exists>t'. ?f i t = Some t' \<and> ?I (Suc i) t'" using t i by (auto simp: atLeastLessThanSuc)
  qed (use assms in simp_all)
  then show ?thesis by blast
qed

lemma hybrid_insert_range_spec:
  assumes "hybrid_inv h" "range_fits r (hybrid_domain_size h)" "snd r \<noteq> Unbounded"
  shows "\<exists>h'. hybrid_insert_range A h r = Some h' \<and> hybrid_inv h' \<and>
      hybrid_domain_size h' = hybrid_domain_size h \<and>
      hybrid_elems h' = hybrid_elems h \<union> range_elems r (hybrid_domain_size h)"
proof -
  define a where "a = (case fst r of Included a \<Rightarrow> a | Excluded a \<Rightarrow> a + 1 | Unbounded \<Rightarrow> 0)"
  define b where "b = (case snd r of Included b \<Rightarrow> b + 1 | Excluded b \<Rightarrow> b | Unbounded \<Rightarrow> 0)"
  have b: "b \<le> hybrid_domain_size h" and end_eq: "(case snd r of Included end \<Rightarrow> Some (end + 1)
      | Excluded end \<Rightarrow> Some end | Unbounded \<Rightarrow> checked_sub (hybrid_domain_size h) 1) = Some b"
    using assms(2,3) by (auto simp: b_def range_fits_def split: bound.splits)
  have elems: "range_elems r (hybrid_domain_size h) = {a..<b}"
    using assms(2,3) b
    by (cases r; cases "fst r"; cases "snd r")
       (auto simp: range_elems_def range_contains_def range_fits_def a_def b_def)
  show ?thesis
  proof (cases "a \<le> b")
    case False
    then show ?thesis
      using assms(1) elems end_eq by (simp add: hybrid_insert_range_def flip: a_def)
  next
    case ab: True
    show ?thesis
    proof (cases h)
      case (Dense d)
      then show ?thesis using ab assms bitset_insert_range_spec [of d r] end_eq
        by (auto simp: hybrid_insert_range_def simp flip: a_def)
    next
      case (Sparse s)
      show ?thesis
      proof (cases "sparse_len s + (b - a) < SPARSE_MAX")
        case True
        with for_range_sparse_insert [of s a b] Sparse assms(1) b ab obtain s' where
          "for_range a b (\<lambda>elem s. do { (_, s) \<leftarrow> sparse_insert A s elem; Some s }) s = Some s'"
          "sparse_inv s'" "sp_domain_size s' = sp_domain_size s" "sparse_elems s' = sparse_elems s \<union> {a..<b}"
          by (auto simp: sparse_len_def)
        with True Sparse ab elems end_eq [unfolded Sparse] show ?thesis
          by (simp add: hybrid_insert_range_def flip: a_def)
      next
        case False
        obtain d where d: "sparse_to_dense s = Some d" "bitset_inv d" "domain_size d = sp_domain_size s"
            "bitset_elems d = sparse_elems s"
          using sparse_to_dense_spec [of s] assms(1) Sparse by auto
        with bitset_insert_range_spec [of d r] assms(2) Sparse obtain t where
          "bitset_insert_range d r = Some t" "bitset_inv t" "domain_size t = domain_size d"
          "bitset_elems t = bitset_elems d \<union> range_elems r (domain_size d)" by auto
        with False Sparse ab d end_eq [unfolded Sparse] show ?thesis
          by (simp add: hybrid_insert_range_def flip: a_def)
      qed
    qed
  qed
qed

text \<open>
  With no end bound the exclusive end is \<open>domain_size - 1\<close>, so the sparse representation leaves out the
  last index of the domain.
\<close>

lemma hybrid_insert_range_unbounded_sparse:
  assumes "sparse_inv s" "a < sp_domain_size s"
    and "length (sp_elems s) + (sp_domain_size s - 1 - a) < SPARSE_MAX"
  shows "\<exists>h'. hybrid_insert_range A (Sparse s) (Included a, Unbounded) = Some h' \<and>
      hybrid_elems h' = sparse_elems s \<union> {a..<sp_domain_size s - 1}"
proof -
  have "a \<le> sp_domain_size s - 1" using assms(2) by simp
  with for_range_sparse_insert [of s a "sp_domain_size s - 1"] assms obtain s' where
    "for_range a (sp_domain_size s - 1) (\<lambda>elem s. do { (_, s) \<leftarrow> sparse_insert A s elem; Some s }) s = Some s'"
    "sparse_elems s' = sparse_elems s \<union> {a..<sp_domain_size s - 1}" by auto
  with assms show ?thesis by (simp add: hybrid_insert_range_def sparse_len_def)
qed

end


text \<open>A hybrid set with more than eight elements is dense.\<close>

lemma hybrid_sparse_card:
  assumes "hybrid_inv h" "SPARSE_MAX < card (hybrid_elems h)"
  shows "\<exists>d. h = Dense d"
proof (cases h)
  case (Sparse s)
  then have "card (set (sp_elems s)) \<le> SPARSE_MAX"
    using assms(1) card_length [of "sp_elems s"] by (simp add: sparse_inv_def)
  with Sparse assms(2) show ?thesis by simp
qed simp


section \<open>Properties\<close>

text \<open>C23: \<open>BitRelations\<close> between hybrid sets, in all four combinations of sparse and dense operands: over a
  domain with at least one index, \<open>union\<close>, \<open>subtract\<close> and \<open>intersect\<close> return without panic and compute the
  set operation; the representation may switch between sparse and dense, the invariant (at most eight sorted
  elements when sparse) holds again, and the result says whether the receiver changed.\<close>

theorem hybrid_relations:
  assumes "arrayvec_laws A" "hybrid_inv h" "hybrid_inv g" "hybrid_domain_size h = hybrid_domain_size g"
    and "0 < hybrid_domain_size h"
  shows "relation_spec hybrid_domain_size hybrid_elems hybrid_inv (\<union>) (hybrid_elems g) h (hybrid_union A h g) \<and>
    relation_spec hybrid_domain_size hybrid_elems hybrid_inv (-) (hybrid_elems g) h (hybrid_subtract A h g) \<and>
    relation_spec hybrid_domain_size hybrid_elems hybrid_inv (\<inter>) (hybrid_elems g) h (hybrid_intersect A h g)"
  using arrayvec_laws.hybrid_union_spec [OF assms(1-4) assms(5)]
    arrayvec_laws.hybrid_subtract_spec [OF assms(1-4)] arrayvec_laws.hybrid_intersect_spec [OF assms(1-4)] by simp

theorem hybrid_relations_witness:
  "\<exists>f h. hybrid_insert_all (hybrid_new_empty 100) = Some f \<and>
     hybrid_union list_arrayvec (hybrid_new_empty 100) f = Some (True, h) \<and> hybrid_elems h = {..<100}"
proof -
  obtain f where "hybrid_insert_all (hybrid_new_empty 100) = Some f" "hybrid_inv f" "hybrid_domain_size f = 100"
      "hybrid_elems f = {..<100}"
    using hybrid_insert_all_spec [of "hybrid_new_empty 100"] by auto
  then show ?thesis
    using hybrid_relations [OF list_av.arrayvec_laws_axioms, of "hybrid_new_empty 100" f]
    by (auto simp: relation_spec_def lessThan_empty_iff)
qed

text \<open>\<open>BitRelations<HybridBitSet>\<close> for \<open>BitSet\<close>: combining a dense set with a hybrid one, sparse or
  dense, computes the set operation on the dense receiver and reports whether it changed.\<close>

theorem bitset_hybrid_relations:
  assumes "arrayvec_laws A" "bitset_inv s" "hybrid_inv h" "domain_size s = hybrid_domain_size h"
  shows "relation_spec domain_size bitset_elems bitset_inv (\<union>) (hybrid_elems h) s (bitset_union_hybrid s h) \<and>
    relation_spec domain_size bitset_elems bitset_inv (-) (hybrid_elems h) s (bitset_subtract_hybrid s h) \<and>
    relation_spec domain_size bitset_elems bitset_inv (\<inter>) (hybrid_elems h) s (bitset_intersect_hybrid A s h)"
  using bitset_union_hybrid_spec [OF assms(2-4)] bitset_subtract_hybrid_spec [OF assms(2-4)]
    arrayvec_laws.bitset_intersect_hybrid_spec [OF assms] by simp

theorem bitset_hybrid_relations_witness:
  "\<exists>s. bitset_intersect_hybrid list_arrayvec (bitset_new_empty 9) (hybrid_new_empty 9) = Some (False, s) \<and>
       bitset_elems s = {}"
  using bitset_hybrid_relations [OF list_av.arrayvec_laws_axioms, of "bitset_new_empty 9" "hybrid_new_empty 9"]
  by (auto simp: relation_spec_def)

text \<open>A hybrid set under \<open>insert\<close>: the set of indices grows by the index, the answer says whether it was
  new, and a sparse set with eight elements that does not hold the index becomes dense.\<close>

theorem hybrid_insert_behaviour:
  assumes "arrayvec_laws A" "hybrid_inv h" "e < hybrid_domain_size h"
  shows "\<exists>h'. hybrid_insert A h e = Some (e \<notin> hybrid_elems h, h') \<and> hybrid_inv h' \<and>
     hybrid_domain_size h' = hybrid_domain_size h \<and> hybrid_elems h' = insert e (hybrid_elems h) \<and>
     (SPARSE_MAX < card (hybrid_elems h') \<longrightarrow> (\<exists>d. h' = Dense d))"
  using arrayvec_laws.hybrid_insert_ok [OF assms] hybrid_sparse_card by blast

theorem hybrid_insert_behaviour_witness:
  "\<exists>h. hybrid_insert list_arrayvec (hybrid_new_empty 20) 7 = Some (True, h) \<and> hybrid_elems h = {7}"
  using hybrid_insert_behaviour [OF list_av.arrayvec_laws_axioms, of "hybrid_new_empty 20" 7] by auto

text \<open>C31: \<open>HybridBitSet::insert_range\<close> of a sparse set with an unbounded end, in the sparse path, adds exactly the
  indices from the start up to but without the last index of the domain, since \<open>domain_size() - 1\<close> is used as an
  exclusive end: the set holds the last index afterwards only if it held it before.\<close>

theorem hybrid_insert_range_misses_last:
  assumes "arrayvec_laws A" "sparse_inv s" "a < sp_domain_size s"
    and "length (sp_elems s) + (sp_domain_size s - 1 - a) < SPARSE_MAX"
  shows "\<exists>h. hybrid_insert_range A (Sparse s) (Included a, Unbounded) = Some h \<and>
     hybrid_elems h = sparse_elems s \<union> {a..<sp_domain_size s - 1} \<and>
     (sp_domain_size s - 1 \<in> hybrid_elems h \<longleftrightarrow> sp_domain_size s - 1 \<in> sparse_elems s)"
  using arrayvec_laws.hybrid_insert_range_unbounded_sparse [OF assms] by auto

theorem hybrid_insert_range_misses_last_witness:
  "\<exists>h. hybrid_insert_range list_arrayvec (hybrid_new_empty 5) (Included 2, Unbounded) = Some h \<and>
     hybrid_elems h = {2, 3}"
proof -
  have "{2..<4} = {2, 3 :: nat}" by auto
  then show ?thesis using hybrid_insert_range_misses_last [OF list_av.arrayvec_laws_axioms, of "sparse_new_empty 5" 2]
    by (auto simp add: hybrid_new_empty_def sparse_new_empty_def sparse_inv_def)
qed

text \<open>C36: Over an empty domain the union of a sparse hybrid set with a dense set panics: the reverse union
  indexes word 0 of a word vector that has no words.\<close>

theorem hybrid_union_empty_domain_panics:
  assumes "sparse_inv s" "bitset_inv d" "sp_domain_size s = 0" "domain_size d = 0"
  shows "hybrid_union A (Sparse s) (Dense d) = None"
  using bitset_reverse_union_sparse_empty_domain [OF assms(2,1,4)] assms(3,4)
  by (simp add: hybrid_union_def)

theorem hybrid_union_empty_domain_panics_witness:
  "hybrid_union list_arrayvec (Sparse (sparse_new_empty 0)) (Dense (bitset_new_empty 0)) = None"
  by (rule hybrid_union_empty_domain_panics) simp_all

text \<open>\<open>HybridBitSet::superset\<close>, \<open>last_set_in\<close>, \<open>to_dense\<close> and \<open>iter\<close> agree with the set of indices for
  either representation.\<close>

theorem hybrid_observers:
  assumes "hybrid_inv h" "hybrid_inv g" "hybrid_domain_size h = hybrid_domain_size g"
    and "range_fits r (hybrid_domain_size h)"
  shows "hybrid_superset h g = Some (hybrid_elems g \<subseteq> hybrid_elems h) \<and>
    hybrid_last_set_in h r = Some (greatest (hybrid_elems h \<inter> range_elems r (hybrid_domain_size h))) \<and>
    hybrid_iter h = sorted_list_of_set (hybrid_elems h) \<and>
    (\<exists>d. hybrid_to_dense h = Some d \<and> bitset_inv d \<and> bitset_elems d = hybrid_elems h)"
  using hybrid_superset_eq [OF assms(1-3)] hybrid_last_set_in_spec [OF assms(1,4)] hybrid_iter_eq [OF assms(1)]
    hybrid_to_dense_spec [OF assms(1)] by blast

theorem hybrid_observers_witness:
  "hybrid_superset (hybrid_new_empty 5) (hybrid_new_empty 5) = Some True \<and> hybrid_iter (hybrid_new_empty 5) = []"
  using hybrid_observers [of "hybrid_new_empty 5" "hybrid_new_empty 5" "(Unbounded, Unbounded)"]
  by (simp add: range_fits_def)

end
