(* ===== verification/Chunked_Bit_Set.thy ===== *)
theory Chunked_Bit_Set
  imports Hybrid_Bit_Set
begin

text \<open>
  \<open>ChunkedBitSet\<close> of \<open>compiler/rustc_index/src/bit_set.rs\<close>: the domain is cut into chunks of 2048
  indices; a chunk that is all zeros or all ones has no words, a mixed chunk carries its words and the
  number of its ones. Sizes and counts are \<open>u16\<close>. The \<open>Rc\<close> around the words of a mixed chunk is
  copy-on-write (\<open>Rc::make_mut\<close>), so a chunk is a plain value here.
\<close>

section \<open>State and operations\<close>

definition CHUNK_WORDS :: nat where "CHUNK_WORDS = 32"

definition CHUNK_BITS :: nat where "CHUNK_BITS = CHUNK_WORDS * WORD_BITS"

datatype chunk = Zeros u16 | Ones u16 | Mixed u16 u16 "u64 list"

record chunked_bit_set =
  ch_domain_size :: nat
  chunks :: "chunk list"

definition num_chunks :: "nat \<Rightarrow> nat option" where
  "num_chunks d = do {
     assert_that (d > 0);
     assert_that (d + CHUNK_BITS < 2 ^ 64);
     Some ((d + CHUNK_BITS - 1) div CHUNK_BITS)
   }"

definition chunk_index :: "nat \<Rightarrow> nat" where
  "chunk_index elem = elem div CHUNK_BITS"

definition chunk_word_index_and_mask :: "nat \<Rightarrow> nat \<times> u64" where
  "chunk_word_index_and_mask elem =
     (let chunk_elem = elem mod CHUNK_BITS in word_index_and_mask chunk_elem)"

definition chunk_new :: "nat \<Rightarrow> bool \<Rightarrow> chunk option" where
  "chunk_new chunk_domain_size is_empty = do {
     assert_that (chunk_domain_size \<le> CHUNK_BITS);
     let chunk_domain_size = of_nat chunk_domain_size;
     Some (if is_empty then Zeros chunk_domain_size else Ones chunk_domain_size)
   }"

fun chunk_count :: "chunk \<Rightarrow> nat" where
  "chunk_count (Zeros _) = 0"
| "chunk_count (Ones chunk_domain_size) = unat chunk_domain_size"
| "chunk_count (Mixed _ count _) = unat count"

text \<open>\<open>assert_valid\<close>, the checks of the representation the tests run after every operation.\<close>

definition sum_u16 :: "nat list \<Rightarrow> u16 option" where
  "sum_u16 ns = do { assert_that (sum_list ns < 2 ^ 16); Some (of_nat (sum_list ns)) }"

fun chunk_assert_valid :: "chunk \<Rightarrow> unit option" where
  "chunk_assert_valid (Zeros chunk_domain_size) = assert_that (unat chunk_domain_size \<le> CHUNK_BITS)"
| "chunk_assert_valid (Ones chunk_domain_size) = assert_that (unat chunk_domain_size \<le> CHUNK_BITS)"
| "chunk_assert_valid (Mixed chunk_domain_size count ws) = do {
     assert_that (unat chunk_domain_size \<le> CHUNK_BITS);
     assert_that (0 < count \<and> count < chunk_domain_size);
     n \<leftarrow> sum_u16 (map count_ones ws);
     assert_that (n = count);
     let used = num_words (unat chunk_domain_size);
     if used < CHUNK_WORDS then do {
       unused \<leftarrow> slice ws used (length ws);
       n \<leftarrow> sum_u16 (map count_ones unused);
       assert_that (n = 0)
     } else Some ()
   }"

definition chunked_assert_valid :: "chunked_bit_set \<Rightarrow> unit option" where
  "chunked_assert_valid s =
     (if ch_domain_size s = 0 then assert_that (chunks s = [])
      else do {
        n \<leftarrow> checked_sub (length (chunks s)) 1;
        assert_that (n * CHUNK_BITS \<le> ch_domain_size s);
        assert_that (ch_domain_size s \<le> length (chunks s) * CHUNK_BITS);
        for_each (\<lambda>chunk _. chunk_assert_valid chunk) (chunks s) ()
      })"

definition chunked_new :: "nat \<Rightarrow> bool \<Rightarrow> chunked_bit_set option" where
  "chunked_new d is_empty = do {
     cs \<leftarrow> (if d = 0 then Some []
            else do {
              let final_chunk_domain_size =
                (let n = d mod CHUNK_BITS in if n = 0 then CHUNK_BITS else n);
              chunk \<leftarrow> chunk_new CHUNK_BITS is_empty;
              n \<leftarrow> num_chunks d;
              let cs = replicate n chunk;
              chunk \<leftarrow> chunk_new final_chunk_domain_size is_empty;
              store_at cs (length cs - 1) chunk
            });
     Some \<lparr>ch_domain_size = d, chunks = cs\<rparr>
   }"

definition chunked_new_empty :: "nat \<Rightarrow> chunked_bit_set option" where
  "chunked_new_empty d = chunked_new d True"

definition chunked_new_filled :: "nat \<Rightarrow> chunked_bit_set option" where
  "chunked_new_filled d = chunked_new d False"

definition chunked_count :: "chunked_bit_set \<Rightarrow> nat" where
  "chunked_count s = sum_list (map chunk_count (chunks s))"

definition chunked_contains :: "chunked_bit_set \<Rightarrow> nat \<Rightarrow> bool option" where
  "chunked_contains s elem = do {
     assert_that (elem < ch_domain_size s);
     chunk \<leftarrow> index_at (chunks s) (chunk_index elem);
     case chunk of
       Zeros _ \<Rightarrow> Some False
     | Ones _ \<Rightarrow> Some True
     | Mixed _ _ ws \<Rightarrow> do {
         let (word_index, mask) = chunk_word_index_and_mask elem;
         w \<leftarrow> index_at ws word_index;
         Some (w AND mask \<noteq> 0)
       }
   }"

text \<open>The match on the chunk in \<open>insert\<close> and in \<open>remove\<close>: the result and the new chunk.\<close>

fun chunk_insert :: "chunk \<Rightarrow> nat \<Rightarrow> (bool \<times> chunk) option" where
  "chunk_insert (Zeros chunk_domain_size) elem =
     (if chunk_domain_size > 1 then do {
        let ws = replicate CHUNK_WORDS 0;
        let (word_index, mask) = chunk_word_index_and_mask elem;
        w \<leftarrow> index_at ws word_index;
        ws \<leftarrow> store_at ws word_index (w OR mask);
        Some (True, Mixed chunk_domain_size 1 ws)
      } else Some (True, Ones chunk_domain_size))"
| "chunk_insert (Ones chunk_domain_size) elem = Some (False, Ones chunk_domain_size)"
| "chunk_insert (Mixed chunk_domain_size count ws) elem = do {
     let (word_index, mask) = chunk_word_index_and_mask elem;
     w \<leftarrow> index_at ws word_index;
     if w AND mask = 0 then do {
       let count = count + 1;
       if count < chunk_domain_size then do {
         ws \<leftarrow> store_at ws word_index (w OR mask);
         Some (True, Mixed chunk_domain_size count ws)
       } else Some (True, Ones chunk_domain_size)
     } else Some (False, Mixed chunk_domain_size count ws)
   }"

fun chunk_remove :: "chunk \<Rightarrow> nat \<Rightarrow> (bool \<times> chunk) option" where
  "chunk_remove (Zeros chunk_domain_size) elem = Some (False, Zeros chunk_domain_size)"
| "chunk_remove (Ones chunk_domain_size) elem =
     (if chunk_domain_size > 1 then do {
        let ws = replicate CHUNK_WORDS 0;
        let n_words = num_words (unat chunk_domain_size);
        used \<leftarrow> slice ws 0 n_words;
        used \<leftarrow> clear_excess_bits_in_final_word (unat chunk_domain_size) (map (\<lambda>_. NOT 0) used);
        let ws = used @ drop n_words ws;
        let (word_index, mask) = chunk_word_index_and_mask elem;
        w \<leftarrow> index_at ws word_index;
        ws \<leftarrow> store_at ws word_index (w AND NOT mask);
        Some (True, Mixed chunk_domain_size (chunk_domain_size - 1) ws)
      } else Some (True, Zeros chunk_domain_size))"
| "chunk_remove (Mixed chunk_domain_size count ws) elem = do {
     let (word_index, mask) = chunk_word_index_and_mask elem;
     w \<leftarrow> index_at ws word_index;
     if w AND mask \<noteq> 0 then do {
       let count = count - 1;
       if count > 0 then do {
         ws \<leftarrow> store_at ws word_index (w AND NOT mask);
         Some (True, Mixed chunk_domain_size count ws)
       } else Some (True, Zeros chunk_domain_size)
     } else Some (False, Mixed chunk_domain_size count ws)
   }"

definition chunked_insert :: "chunked_bit_set \<Rightarrow> nat \<Rightarrow> (bool \<times> chunked_bit_set) option" where
  "chunked_insert s elem = do {
     assert_that (elem < ch_domain_size s);
     let i = chunk_index elem;
     chunk \<leftarrow> index_at (chunks s) i;
     (changed, chunk) \<leftarrow> chunk_insert chunk elem;
     cs \<leftarrow> store_at (chunks s) i chunk;
     Some (changed, s\<lparr>chunks := cs\<rparr>)
   }"

definition chunked_remove :: "chunked_bit_set \<Rightarrow> nat \<Rightarrow> (bool \<times> chunked_bit_set) option" where
  "chunked_remove s elem = do {
     assert_that (elem < ch_domain_size s);
     let i = chunk_index elem;
     chunk \<leftarrow> index_at (chunks s) i;
     (changed, chunk) \<leftarrow> chunk_remove chunk elem;
     cs \<leftarrow> store_at (chunks s) i chunk;
     Some (changed, s\<lparr>chunks := cs\<rparr>)
   }"

fun chunk_fill :: "chunk \<Rightarrow> chunk" where
  "chunk_fill (Zeros chunk_domain_size) = Ones chunk_domain_size"
| "chunk_fill (Ones chunk_domain_size) = Ones chunk_domain_size"
| "chunk_fill (Mixed chunk_domain_size _ _) = Ones chunk_domain_size"

definition chunked_insert_all :: "chunked_bit_set \<Rightarrow> chunked_bit_set" where
  "chunked_insert_all s = s\<lparr>chunks := map chunk_fill (chunks s)\<rparr>"

text \<open>
  One step of \<open>union\<close>: whether the chunk changed, and the new chunk.
\<close>

fun chunk_union :: "chunk \<Rightarrow> chunk \<Rightarrow> (bool \<times> chunk) option" where
  "chunk_union c (Zeros _) = Some (False, c)"
| "chunk_union (Ones n) _ = Some (False, Ones n)"
| "chunk_union (Zeros n) (Ones m) = do { assert_that (n = m); Some (True, Ones m) }"
| "chunk_union (Mixed n _ _) (Ones m) = do { assert_that (n = m); Some (True, Ones m) }"
| "chunk_union (Zeros n) (Mixed m count ws) = do { assert_that (n = m); Some (True, Mixed m count ws) }"
| "chunk_union (Mixed n count ws) (Mixed _ _ other_ws) = do {
     let num = num_words (unat n);
     self_used \<leftarrow> slice ws 0 num;
     other_used \<leftarrow> slice other_ws 0 num;
     c \<leftarrow> bitwise_changes (\<lambda>a b. a OR b) self_used other_used;
     if c then do {
       (has_changed, self_used) \<leftarrow> bitwise (\<lambda>a b. a OR b) self_used other_used;
       assert_that has_changed;
       count \<leftarrow> sum_u16 (map count_ones self_used);
       if count = n then Some (True, Ones n)
       else Some (True, Mixed n count (self_used @ drop num ws))
     } else Some (False, Mixed n count ws)
   }"

fun chunks_union :: "chunk list \<Rightarrow> chunk list \<Rightarrow> bool \<Rightarrow> (bool \<times> chunk list) option" where
  "chunks_union (c # cs) (d # ds) changed = do {
     (b, c) \<leftarrow> chunk_union c d;
     (changed, cs) \<leftarrow> chunks_union cs ds (changed \<or> b);
     Some (changed, c # cs)
   }"
| "chunks_union cs ds changed = Some (changed, cs)"

definition chunked_union :: "chunked_bit_set \<Rightarrow> chunked_bit_set \<Rightarrow> (bool \<times> chunked_bit_set) option" where
  "chunked_union s other = do {
     assert_that (ch_domain_size s = ch_domain_size other);
     assert_that (length (chunks s) = length (chunks other));
     (changed, cs) \<leftarrow> chunks_union (chunks s) (chunks other) False;
     Some (changed, s\<lparr>chunks := cs\<rparr>)
   }"

definition chunked_clone_from :: "chunked_bit_set \<Rightarrow> chunked_bit_set \<Rightarrow> chunked_bit_set option" where
  "chunked_clone_from s from = do {
     assert_that (ch_domain_size s = ch_domain_size from);
     Some (s\<lparr>chunks := chunks from\<rparr>)
   }"

text \<open>
  \<open>ChunkedBitIter::next\<close>. The iterator is the index it stands at. The outer loop has fuel, since a
  chunk of domain size zero would keep it where it is; \<open>domain_size + 1\<close> rounds are enough for a
  well-formed set.
\<close>

function scan_mixed :: "u64 list \<Rightarrow> nat \<Rightarrow> (nat option \<times> nat) option" where
  "scan_mixed ws index = do {
     let elem = index;
     let index = index + 1;
     let (word_index, mask) = chunk_word_index_and_mask elem;
     w \<leftarrow> index_at ws word_index;
     if w AND mask \<noteq> 0 then Some (Some elem, index)
     else if index mod CHUNK_BITS = 0 then Some (None, index)
     else scan_mixed ws index
   }"
  by auto
termination
  by (relation "measure (\<lambda>(ws, index). CHUNK_BITS - index mod CHUNK_BITS)")
     (auto simp: mod_Suc CHUNK_BITS_def CHUNK_WORDS_def WORD_BITS_def split: if_splits)

declare scan_mixed.simps [simp del]

fun chunked_next_loop :: "nat \<Rightarrow> chunked_bit_set \<Rightarrow> nat \<Rightarrow> (nat option \<times> nat) option" where
  "chunked_next_loop 0 s index = None"
| "chunked_next_loop (Suc fuel) s index =
     (if index < ch_domain_size s then do {
        let elem = index;
        chunk \<leftarrow> index_at (chunks s) (chunk_index elem);
        case chunk of
          Zeros chunk_domain_size \<Rightarrow> chunked_next_loop fuel s (index + unat chunk_domain_size)
        | Ones _ \<Rightarrow> Some (Some elem, index + 1)
        | Mixed _ _ ws \<Rightarrow> do {
            (r, index) \<leftarrow> scan_mixed ws index;
            case r of
              Some elem \<Rightarrow> Some (Some elem, index)
            | None \<Rightarrow> chunked_next_loop fuel s index
          }
      } else Some (None, index))"

definition chunked_next :: "chunked_bit_set \<Rightarrow> nat \<Rightarrow> (nat option \<times> nat) option" where
  "chunked_next s index = chunked_next_loop (ch_domain_size s + 1) s index"

text \<open>The elements \<open>next\<close> yields, in order.\<close>

fun chunked_drain :: "nat \<Rightarrow> chunked_bit_set \<Rightarrow> nat \<Rightarrow> nat list option" where
  "chunked_drain 0 s index = None"
| "chunked_drain (Suc fuel) s index = do {
     (r, index) \<leftarrow> chunked_next s index;
     case r of
       None \<Rightarrow> Some []
     | Some elem \<Rightarrow> map_option (\<lambda>xs. elem # xs) (chunked_drain fuel s index)
   }"

text \<open>
  \<open>ChunkedBitIter::fold\<close>, which \<open>sequential_update\<close> uses: the elements it passes to the closure, in
  order. It first advances to a chunk boundary with \<open>next\<close>, then goes chunk by chunk.
\<close>

fun chunk_items :: "nat \<Rightarrow> chunk \<Rightarrow> nat list" where
  "chunk_items base (Zeros _) = []"
| "chunk_items base (Ones limit) = map (\<lambda>j. base + j) [0..<unat limit]"
| "chunk_items base (Mixed _ _ ws) = map (\<lambda>item. item + base) (bit_iter_collect (bit_iter_new ws))"

fun chunked_align :: "nat \<Rightarrow> chunked_bit_set \<Rightarrow> nat \<Rightarrow> (nat list \<times> nat option) option" where
  "chunked_align 0 s index = None"
| "chunked_align (Suc fuel) s index =
     (if index mod CHUNK_BITS \<noteq> 0 then do {
        (r, index) \<leftarrow> chunked_next s index;
        case r of
          None \<Rightarrow> Some ([], None)
        | Some item \<Rightarrow> map_option (\<lambda>(xs, i). (item # xs, i)) (chunked_align fuel s index)
      } else Some ([], Some index))"

fun chunks_items :: "nat \<Rightarrow> chunk list \<Rightarrow> nat list" where
  "chunks_items k [] = []"
| "chunks_items k (chunk # cs) = (let base = k * CHUNK_BITS in chunk_items base chunk) @ chunks_items (k + 1) cs"

definition chunked_fold_items :: "chunked_bit_set \<Rightarrow> nat \<Rightarrow> nat list option" where
  "chunked_fold_items s index = do {
     (first, stop) \<leftarrow> chunked_align (CHUNK_BITS + 1) s index;
     case stop of
       None \<Rightarrow> Some first
     | Some index \<Rightarrow> do {
         let start_chunk = index div CHUNK_BITS;
         cs \<leftarrow> slice (chunks s) start_chunk (length (chunks s));
         Some (first @ chunks_items start_chunk cs)
       }
   }"

text \<open>\<open>chunked REL hybrid\<close> and \<open>dense REL chunked\<close>.\<close>

definition chunked_union_hybrid ::
    "chunked_bit_set \<Rightarrow> hybrid_bit_set \<Rightarrow> (bool \<times> chunked_bit_set) option" where
  "chunked_union_hybrid s other = do {
     assert_that (ch_domain_size s = hybrid_domain_size other);
     sequential_update chunked_insert s (hybrid_iter other) False
   }"

definition chunked_subtract_hybrid ::
    "chunked_bit_set \<Rightarrow> hybrid_bit_set \<Rightarrow> (bool \<times> chunked_bit_set) option" where
  "chunked_subtract_hybrid s other = do {
     assert_that (ch_domain_size s = hybrid_domain_size other);
     sequential_update chunked_remove s (hybrid_iter other) False
   }"

definition bitset_union_chunked :: "bit_set \<Rightarrow> chunked_bit_set \<Rightarrow> (bool \<times> bit_set) option" where
  "bitset_union_chunked s other = do {
     xs \<leftarrow> chunked_fold_items other 0;
     sequential_update bitset_insert s xs False
   }"

fun and_words :: "u64 list \<Rightarrow> u64 list \<Rightarrow> nat \<Rightarrow> (bool \<times> u64 list) option" where
  "and_words [] data i = Some (False, [])"
| "and_words (word # ws) data i = do {
     d \<leftarrow> index_at data i;
     let new_val = word AND d;
     (changed, ws) \<leftarrow> and_words ws data (i + 1);
     Some (new_val \<noteq> word \<or> changed, new_val # ws)
   }"

fun words_intersect_chunk :: "chunk \<Rightarrow> u64 list \<Rightarrow> (bool \<times> u64 list) option" where
  "words_intersect_chunk (Zeros _) ws =
     Some (list_ex (\<lambda>word. word \<noteq> 0) ws, map (\<lambda>word. if word \<noteq> 0 then 0 else word) ws)"
| "words_intersect_chunk (Ones _) ws = Some (False, ws)"
| "words_intersect_chunk (Mixed _ _ data) ws = and_words ws data 0"

definition bitset_intersect_chunked :: "bit_set \<Rightarrow> chunked_bit_set \<Rightarrow> (bool \<times> bit_set) option" where
  "bitset_intersect_chunked s other = do {
     assert_that (domain_size s = ch_domain_size other);
     (changed, ws) \<leftarrow> for_each (\<lambda>(i, chunk) (changed, ws). do {
         part \<leftarrow> slice ws (i * CHUNK_WORDS) (length ws);
         let part = (if length part > CHUNK_WORDS then take CHUNK_WORDS part else part);
         (c, new_part) \<leftarrow> words_intersect_chunk chunk part;
         Some (changed \<or> c,
               take (i * CHUNK_WORDS) ws @ new_part @ drop (i * CHUNK_WORDS + length part) ws)
       }) (enumerate 0 (chunks other)) (False, words s);
     Some (changed, s\<lparr>words := ws\<rparr>)
   }"


section \<open>Invariant and abstraction\<close>

lemma chunk_word_index_and_mask_eq [simp]:
  "chunk_word_index_and_mask e = (e mod CHUNK_BITS div WORD_BITS, elem_mask (e mod CHUNK_BITS))"
  by (simp add: chunk_word_index_and_mask_def Let_def)

lemma CHUNK_BITS_pos [simp]: "0 < CHUNK_BITS" "CHUNK_BITS \<noteq> 0"
  by (simp_all add: CHUNK_BITS_def CHUNK_WORDS_def)

lemma CHUNK_BITS_le: "CHUNK_BITS \<le> 2048"
  by (simp add: CHUNK_BITS_def CHUNK_WORDS_def WORD_BITS_def)

fun chunk_elems :: "chunk \<Rightarrow> nat set" where
  "chunk_elems (Zeros _) = {}"
| "chunk_elems (Ones n) = {..<unat n}"
| "chunk_elems (Mixed _ _ ws) = bits ws"

fun chunk_inv :: "nat \<Rightarrow> chunk \<Rightarrow> bool" where
  "chunk_inv d (Zeros n) \<longleftrightarrow> unat n = d"
| "chunk_inv d (Ones n) \<longleftrightarrow> unat n = d"
| "chunk_inv d (Mixed n count ws) \<longleftrightarrow> unat n = d \<and> length ws = CHUNK_WORDS \<and> bits ws \<subseteq> {..<d} \<and>
     unat count = card (bits ws) \<and> 0 < count \<and> count < n"

fun chunk_size :: "chunk \<Rightarrow> nat" where
  "chunk_size (Zeros n) = unat n"
| "chunk_size (Ones n) = unat n"
| "chunk_size (Mixed n _ _) = unat n"

lemma chunk_size_eq: "chunk_inv d c \<Longrightarrow> chunk_size c = d"
  by (cases c) simp_all

text \<open>The number of indices in chunk \<open>i\<close> of a domain.\<close>

definition chunk_dom :: "nat \<Rightarrow> nat \<Rightarrow> nat" where
  "chunk_dom d i = min CHUNK_BITS (d - i * CHUNK_BITS)"

definition chunked_elems :: "chunked_bit_set \<Rightarrow> nat set" where
  "chunked_elems s = {i. i div CHUNK_BITS < length (chunks s) \<and>
     i mod CHUNK_BITS \<in> chunk_elems (chunks s ! (i div CHUNK_BITS))}"

definition chunked_inv :: "chunked_bit_set \<Rightarrow> bool" where
  "chunked_inv s \<longleftrightarrow> ch_domain_size s \<le> MAX_DOMAIN \<and>
     length (chunks s) = (ch_domain_size s + CHUNK_BITS - 1) div CHUNK_BITS \<and>
     (\<forall>i < length (chunks s). chunk_inv (chunk_dom (ch_domain_size s) i) (chunks s ! i))"

lemma mem_chunked_elems:
  "i \<in> chunked_elems s \<longleftrightarrow> i div CHUNK_BITS < length (chunks s) \<and>
     i mod CHUNK_BITS \<in> chunk_elems (chunks s ! (i div CHUNK_BITS))"
  by (simp add: chunked_elems_def)

lemma chunked_invD:
  assumes "chunked_inv s"
  shows "length (chunks s) = (ch_domain_size s + CHUNK_BITS - 1) div CHUNK_BITS"
    and "\<And>i. i < length (chunks s) \<Longrightarrow> chunk_inv (chunk_dom (ch_domain_size s) i) (chunks s ! i)"
  using assms by (auto simp: chunked_inv_def)

lemma less_div_iff: "k < (d + CHUNK_BITS - 1) div CHUNK_BITS \<longleftrightarrow> k * CHUNK_BITS < d"
proof -
  have "k < (d + CHUNK_BITS - 1) div CHUNK_BITS \<longleftrightarrow> (k + 1) * CHUNK_BITS \<le> d + CHUNK_BITS - 1"
    using less_eq_div_iff_mult_less_eq [of CHUNK_BITS "k + 1" "d + CHUNK_BITS - 1"] by (simp add: Suc_le_eq)
  also have "\<dots> \<longleftrightarrow> k * CHUNK_BITS < d" using CHUNK_BITS_pos(1) by (simp del: CHUNK_BITS_pos) arith
  finally show ?thesis .
qed

lemma chunk_index_less: "e < d \<Longrightarrow> e div CHUNK_BITS < (d + CHUNK_BITS - 1) div CHUNK_BITS"
  unfolding less_div_iff by (rule le_less_trans [OF div_times_less_eq_dividend])

lemma mod_chunk_dom_iff: "e < d \<longleftrightarrow> e mod CHUNK_BITS < chunk_dom d (e div CHUNK_BITS)"
proof -
  have "e div CHUNK_BITS * CHUNK_BITS + e mod CHUNK_BITS = e" by simp
  then have "e < d \<longleftrightarrow> e mod CHUNK_BITS < d - e div CHUNK_BITS * CHUNK_BITS" by linarith
  then show ?thesis by (simp add: chunk_dom_def)
qed

lemma chunk_elems_dom: "chunk_inv d c \<Longrightarrow> chunk_elems c \<subseteq> {..<d}"
  by (cases c) auto

lemma chunked_elems_dom: "chunked_inv s \<Longrightarrow> chunked_elems s \<subseteq> {..<ch_domain_size s}"
  using chunked_invD(2) [of s] chunk_elems_dom mod_chunk_dom_iff by (fastforce simp: mem_chunked_elems)

lemma chunked_update:
  assumes "chunked_inv s" "k < length (chunks s)" "chunk_inv (chunk_dom (ch_domain_size s) k) c"
  shows "chunked_inv (s\<lparr>chunks := (chunks s)[k := c]\<rparr>)"
    and "i \<in> chunked_elems (s\<lparr>chunks := (chunks s)[k := c]\<rparr>) \<longleftrightarrow>
      (if i div CHUNK_BITS = k then i mod CHUNK_BITS \<in> chunk_elems c else i \<in> chunked_elems s)"
  using assms by (auto simp: chunked_inv_def mem_chunked_elems nth_list_update)

lemma unat_u16_Suc: "unat c < unat n \<Longrightarrow> unat (c + 1) = unat c + 1" for c n :: u16
proof -
  assume "unat c < unat n"
  moreover have "unat n < 2 ^ LENGTH(16)" by (rule unsigned_less)
  ultimately show ?thesis by (simp add: unat_word_ariths)
qed

lemma unat_u16_pred: "0 < unat c \<Longrightarrow> unat (c - 1) = unat c - 1" for c :: u16
  by (metis One_nat_def Suc_leI unat_1 unat_sub word_le_nat_alt)

lemma chunk_word_index_less [simp]: "e mod CHUNK_BITS div WORD_BITS < CHUNK_WORDS"
  using mod_less_divisor [of CHUNK_BITS e] unfolding CHUNK_BITS_def
  by (simp add: div_less_iff_less_mult CHUNK_WORDS_def)

lemma chunk_word:
  assumes "length ws = CHUNK_WORDS"
  shows "e mod CHUNK_BITS div WORD_BITS < length ws"
    and "ws ! (e mod CHUNK_BITS div WORD_BITS) AND elem_mask (e mod CHUNK_BITS) \<noteq> 0 \<longleftrightarrow>
      e mod CHUNK_BITS \<in> bits ws"
  using assms by (simp_all add: mem_bits_iff and_mask_nonzero)

lemma full_of_card: "A \<subseteq> {..<d} \<Longrightarrow> d \<le> card A \<Longrightarrow> A = {..<d}"
  by (metis card_lessThan card_seteq finite_lessThan)

lemma chunk_insert_ok:
  assumes inv: "chunk_inv d c" and d: "e mod CHUNK_BITS < d"
  shows "\<exists>c'. chunk_insert c e = Some (e mod CHUNK_BITS \<notin> chunk_elems c, c') \<and> chunk_inv d c' \<and>
              chunk_elems c' = insert (e mod CHUNK_BITS) (chunk_elems c)"
proof (cases c)
  case (Ones n)
  with assms show ?thesis by (auto simp: insert_absorb)
next
  case (Zeros n)
  let ?ws = "replicate CHUNK_WORDS 0 :: u64 list"
  let ?k = "e mod CHUNK_BITS div WORD_BITS"
  have k: "?k < length ?ws" by (rule chunk_word) simp
  have bits: "bits (?ws[?k := ?ws ! ?k OR elem_mask (e mod CHUNK_BITS)]) = {e mod CHUNK_BITS}"
    using bits_set_bit [OF k] by simp
  show ?thesis
  proof (cases "n > 1")
    case True
    with Zeros assms k bits show ?thesis
      by (auto simp: Let_def word_less_nat_alt)
  next
    case False
    with Zeros assms have "d = 1" "e mod CHUNK_BITS = 0" by (auto simp: word_less_nat_alt)
    with False Zeros assms show ?thesis by auto
  qed
next
  case (Mixed n count ws)
  let ?k = "e mod CHUNK_BITS div WORD_BITS"
  from Mixed inv have I: "unat n = d" "length ws = CHUNK_WORDS" "bits ws \<subseteq> {..<d}"
      "unat count = card (bits ws)" "unat count < unat n"
    by (auto simp: word_less_nat_alt)
  note w = chunk_word [OF I(2), of e]
  show ?thesis
  proof (cases "e mod CHUNK_BITS \<in> bits ws")
    case True
    with Mixed inv w show ?thesis by (auto simp: insert_absorb)
  next
    case False
    let ?ws = "ws[?k := ws ! ?k OR elem_mask (e mod CHUNK_BITS)]"
    have bits: "bits ?ws = insert (e mod CHUNK_BITS) (bits ws)" using w(1) by (rule bits_set_bit)
    have cnt: "unat (count + 1) = card (insert (e mod CHUNK_BITS) (bits ws))"
      using False I unat_u16_Suc [OF I(5)] by simp
    show ?thesis
    proof (cases "count + 1 < n")
      case True
      have "0 < count + 1" using unat_u16_Suc [OF I(5)] by (simp add: word_less_nat_alt)
      with True False Mixed I w d bits cnt show ?thesis
        by simp
    next
      case full: False
      then have "insert (e mod CHUNK_BITS) (bits ws) = {..<d}"
        using I(1,3) d cnt by (intro full_of_card) (auto simp: word_less_nat_alt)
      with full False Mixed I w show ?thesis by simp
    qed
  qed
qed

lemma num_words_le_chunk: "d \<le> CHUNK_BITS \<Longrightarrow> num_words d \<le> CHUNK_WORDS"
  using num_words_mono [of d CHUNK_BITS] num_words_bounds [of CHUNK_BITS]
  by (simp add: CHUNK_BITS_def CHUNK_WORDS_def num_words_def WORD_BITS_def)

lemma chunk_remove_ok:
  assumes inv: "chunk_inv d c" and d: "e mod CHUNK_BITS < d" "d \<le> CHUNK_BITS"
  shows "\<exists>c'. chunk_remove c e = Some (e mod CHUNK_BITS \<in> chunk_elems c, c') \<and> chunk_inv d c' \<and>
              chunk_elems c' = chunk_elems c - {e mod CHUNK_BITS}"
proof (cases c)
  case (Zeros n)
  with assms show ?thesis by simp
next
  case (Ones n)
  then have n: "unat n = d" using inv by simp
  show ?thesis
  proof (cases "n > 1")
    case True
    let ?m = "num_words d" and ?k = "e mod CHUNK_BITS div WORD_BITS"
    have m: "?m \<le> CHUNK_WORDS" using d(2) by (rule num_words_le_chunk)
    have "{..<WORD_BITS * ?m} \<inter> {..<d} = {..<d}" using num_words_bounds(1) [of d] by auto
    then obtain us where us: "clear_excess_bits_in_final_word d (replicate ?m (- 1)) = Some us"
        "length us = ?m" "bits us = {..<d}"
      using clear_excess_bits [of "replicate ?m (- 1)" d] by auto
    let ?ws = "us @ replicate (CHUNK_WORDS - ?m) 0"
    have len: "length ?ws = CHUNK_WORDS" using us(2) m by simp
    note w = chunk_word [OF len, of e]
    let ?ws' = "?ws[?k := ?ws ! ?k AND NOT (elem_mask (e mod CHUNK_BITS))]"
    have bits: "bits ?ws' = {..<d} - {e mod CHUNK_BITS}"
      using bits_clear_bit [OF w(1)] us(3) by (simp add: bits_append_zeros)
    have cnt: "unat (n - 1) = d - 1" using n d(1) unat_u16_pred [of n] by simp
    have "chunk_remove c e = Some (True, Mixed n (n - 1) ?ws')"
      using True Ones n m us w(1) len by (simp add: Let_def map_replicate_const)
    moreover have "chunk_inv d (Mixed n (n - 1) ?ws')"
      using True n cnt bits d(1) len by (auto simp: word_less_nat_alt)
    ultimately show ?thesis using Ones n d(1) bits by simp
  next
    case False
    with n d(1) have "d = 1" "e mod CHUNK_BITS = 0" by (auto simp: word_less_nat_alt)
    with False Ones n show ?thesis by auto
  qed
next
  case (Mixed n count ws)
  let ?k = "e mod CHUNK_BITS div WORD_BITS"
  from Mixed inv have I: "unat n = d" "length ws = CHUNK_WORDS" "bits ws \<subseteq> {..<d}"
      "unat count = card (bits ws)" "0 < unat count" "unat count < unat n"
    by (auto simp: word_less_nat_alt)
  note w = chunk_word [OF I(2), of e]
  show ?thesis
  proof (cases "e mod CHUNK_BITS \<in> bits ws")
    case False
    with Mixed inv w show ?thesis by auto
  next
    case True
    let ?ws = "ws[?k := ws ! ?k AND NOT (elem_mask (e mod CHUNK_BITS))]"
    have bits: "bits ?ws = bits ws - {e mod CHUNK_BITS}" using w(1) by (rule bits_clear_bit)
    have cnt: "unat (count - 1) = card (bits ws - {e mod CHUNK_BITS})"
      using True I unat_u16_pred [OF I(5)] by simp
    show ?thesis
    proof (cases "count - 1 > 0")
      case pos: True
      have "unat (count - 1) < unat n" using unat_u16_pred [OF I(5)] I(6) by linarith
      with pos True Mixed I w bits cnt show ?thesis by (auto simp: word_less_nat_alt)
    next
      case False
      then have "bits ws - {e mod CHUNK_BITS} = {}"
        using cnt by (auto simp: word_less_nat_alt)
      with False True Mixed I w show ?thesis by simp
    qed
  qed
qed

interpretation chunked: mutable_index_set ch_domain_size chunked_elems chunked_inv
  chunked_contains chunked_insert chunked_remove
proof unfold_locales
  fix s e
  assume inv: "chunked_inv s"
  show "chunked_elems s \<subseteq> {..<ch_domain_size s}" using inv by (rule chunked_elems_dom)
  show "chunked_insert s e = None" "chunked_remove s e = None" if "ch_domain_size s \<le> e"
    using that by (simp_all add: chunked_insert_def chunked_remove_def)
  let ?k = "e div CHUNK_BITS"
  show "chunked_contains s e = (if e < ch_domain_size s then Some (e \<in> chunked_elems s) else None)"
  proof (cases "e < ch_domain_size s")
    case True
    then have k: "?k < length (chunks s)" and m: "e mod CHUNK_BITS < chunk_dom (ch_domain_size s) ?k"
      using chunk_index_less chunked_invD(1) [OF inv] by (simp_all flip: mod_chunk_dom_iff)
    with chunked_invD(2) [OF inv k] True show ?thesis
      by (cases "chunks s ! ?k")
         (auto simp: chunked_contains_def chunk_index_def mem_chunked_elems chunk_word)
  qed (simp add: chunked_contains_def)
  assume e: "e < ch_domain_size s"
  then have k: "?k < length (chunks s)" and m: "e mod CHUNK_BITS < chunk_dom (ch_domain_size s) ?k"
    using chunk_index_less chunked_invD(1) [OF inv] by (simp_all flip: mod_chunk_dom_iff)
  have eq: "i = e \<longleftrightarrow> i div CHUNK_BITS = ?k \<and> i mod CHUNK_BITS = e mod CHUNK_BITS" for i
    by (metis div_mult_mod_eq)
  have mem: "e mod CHUNK_BITS \<in> chunk_elems (chunks s ! ?k) \<longleftrightarrow> e \<in> chunked_elems s"
    using k by (simp add: mem_chunked_elems)
  obtain c where c: "chunk_insert (chunks s ! ?k) e = Some (e \<notin> chunked_elems s, c)"
      "chunk_inv (chunk_dom (ch_domain_size s) ?k) c"
      "chunk_elems c = insert (e mod CHUNK_BITS) (chunk_elems (chunks s ! ?k))"
    using chunk_insert_ok [OF chunked_invD(2) [OF inv k] m] mem by auto
  have "chunked_elems (s\<lparr>chunks := (chunks s)[?k := c]\<rparr>) = insert e (chunked_elems s)"
  proof (rule set_eqI)
    fix i
    show "(i \<in> chunked_elems (s\<lparr>chunks := (chunks s)[?k := c]\<rparr>)) = (i \<in> insert e (chunked_elems s))"
      using chunked_update(2) [OF inv k c(2), of i] c(3) eq [of i] k by (auto simp: mem_chunked_elems [of i s])
  qed
  with c chunked_update(1) [OF inv k c(2)] e k
  show "\<exists>s'. chunked_insert s e = Some (e \<notin> chunked_elems s, s') \<and> chunked_inv s' \<and>
      ch_domain_size s' = ch_domain_size s \<and> chunked_elems s' = insert e (chunked_elems s)"
    by (simp add: chunked_insert_def chunk_index_def)
  obtain c where c: "chunk_remove (chunks s ! ?k) e = Some (e \<in> chunked_elems s, c)"
      "chunk_inv (chunk_dom (ch_domain_size s) ?k) c"
      "chunk_elems c = chunk_elems (chunks s ! ?k) - {e mod CHUNK_BITS}"
    using chunk_remove_ok [OF chunked_invD(2) [OF inv k] m] mem by (auto simp: chunk_dom_def)
  have "chunked_elems (s\<lparr>chunks := (chunks s)[?k := c]\<rparr>) = chunked_elems s - {e}"
  proof (rule set_eqI)
    fix i
    show "(i \<in> chunked_elems (s\<lparr>chunks := (chunks s)[?k := c]\<rparr>)) = (i \<in> chunked_elems s - {e})"
      using chunked_update(2) [OF inv k c(2), of i] c(3) eq [of i] k by (auto simp: mem_chunked_elems [of i s])
  qed
  with c chunked_update(1) [OF inv k c(2)] e k
  show "\<exists>s'. chunked_remove s e = Some (e \<in> chunked_elems s, s') \<and> chunked_inv s' \<and>
      ch_domain_size s' = ch_domain_size s \<and> chunked_elems s' = chunked_elems s - {e}"
    by (simp add: chunked_remove_def chunk_index_def)
qed


section \<open>Construction, filling and union\<close>

lemma unat_of_nat_u16: "n \<le> CHUNK_BITS \<Longrightarrow> unat (of_nat n :: u16) = n"
  using CHUNK_BITS_le by (simp add: unat_of_nat take_bit_nat_eq_self)

lemma chunk_new_spec:
  "d \<le> CHUNK_BITS \<Longrightarrow> \<exists>c. chunk_new d is_empty = Some c \<and> chunk_inv d c \<and> chunk_elems c = (if is_empty then {} else {..<d})"
  by (simp add: chunk_new_def unat_of_nat_u16)

lemma CHUNK_BITS_max: "d \<le> MAX_DOMAIN \<Longrightarrow> d + CHUNK_BITS < 2 ^ 64"
  by (simp add: CHUNK_BITS_def CHUNK_WORDS_def WORD_BITS_def)

lemma chunk_dom_cases:
  assumes "k < (d + CHUNK_BITS - 1) div CHUNK_BITS"
  shows "chunk_dom d k = (if k = (d + CHUNK_BITS - 1) div CHUNK_BITS - 1
    then (if d mod CHUNK_BITS = 0 then CHUNK_BITS else d mod CHUNK_BITS) else CHUNK_BITS)"
proof -
  have k: "k * CHUNK_BITS < d" using assms by (simp only: less_div_iff)
  have next_chunk: "k \<noteq> (d + CHUNK_BITS - 1) div CHUNK_BITS - 1 \<longleftrightarrow> (k + 1) * CHUNK_BITS < d"
    using assms less_div_iff [of "k + 1" d] by linarith
  show ?thesis
  proof (cases "(k + 1) * CHUNK_BITS < d")
    case True
    then show ?thesis using next_chunk by (auto simp: chunk_dom_def min_def)
  next
    case False
    define r where "r = d - k * CHUNK_BITS"
    have r: "d = r + k * CHUNK_BITS" "0 < r" "r \<le> CHUNK_BITS" using k False by (auto simp: r_def)
    then have "d mod CHUNK_BITS = (if r = CHUNK_BITS then 0 else r)" by auto
    then show ?thesis using next_chunk False r by (auto simp: chunk_dom_def)
  qed
qed

lemma chunked_new_spec:
  assumes "d \<le> MAX_DOMAIN"
  shows "\<exists>s. chunked_new d is_empty = Some s \<and> chunked_inv s \<and> ch_domain_size s = d \<and>
             chunked_elems s = (if is_empty then {} else {..<d})"
proof (cases "d = 0")
  case True
  then show ?thesis by (auto simp: chunked_new_def chunked_inv_def chunked_elems_def)
next
  case False
  let ?n = "(d + CHUNK_BITS - 1) div CHUNK_BITS"
  let ?last = "if d mod CHUNK_BITS = 0 then CHUNK_BITS else d mod CHUNK_BITS"
  have n: "0 < ?n" using False by (subst less_div_iff) simp
  have last: "?last \<le> CHUNK_BITS" by (simp add: less_imp_le)
  obtain c where c: "chunk_new CHUNK_BITS is_empty = Some c" "chunk_inv CHUNK_BITS c"
    "chunk_elems c = (if is_empty then {} else {..<CHUNK_BITS})" using chunk_new_spec [of CHUNK_BITS is_empty] by blast
  obtain c' where c': "chunk_new ?last is_empty = Some c'" "chunk_inv ?last c'" "chunk_elems c' = (if is_empty then {} else {..<?last})"
    using chunk_new_spec [OF last, of is_empty] by blast
  let ?cs = "(replicate ?n c)[?n - 1 := c']"
  let ?s = "\<lparr>ch_domain_size = d, chunks = ?cs\<rparr>"
  have cs: "chunk_inv (chunk_dom d i) (?cs ! i) \<and>
      chunk_elems (?cs ! i) = (if is_empty then {} else {..<chunk_dom d i})" if "i < ?n" for i
    using c(2,3) c'(2,3) that chunk_dom_cases [OF that] by (auto simp: nth_list_update)
  have "chunked_new d is_empty = Some ?s"
    using False n c(1) c'(1) assms CHUNK_BITS_max by (simp add: chunked_new_def num_chunks_def Let_def)
  moreover have "chunked_inv ?s" using assms cs by (simp add: chunked_inv_def)
  moreover have "chunked_elems ?s = (if is_empty then {} else {..<d})"
    using cs chunk_index_less [of _ d] by (auto simp: mem_chunked_elems simp flip: mod_chunk_dom_iff)
  ultimately show ?thesis by auto
qed

lemma chunk_fill_spec: "chunk_inv d c \<Longrightarrow> chunk_inv d (chunk_fill c) \<and> chunk_elems (chunk_fill c) = {..<d}"
  by (cases c) simp_all

text \<open>A set given by its chunks: what each chunk holds determines the set.\<close>

lemma chunked_elems_by_chunks:
  assumes "length cs = (d + CHUNK_BITS - 1) div CHUNK_BITS"
    and "\<And>i. i < length cs \<Longrightarrow> chunk_elems (cs ! i) = {r. r < chunk_dom d i \<and> P (i * CHUNK_BITS + r)}"
  shows "chunked_elems \<lparr>ch_domain_size = d, chunks = cs\<rparr> = {x. x < d \<and> P x}"
proof (rule set_eqI)
  fix x
  have "x \<in> chunked_elems \<lparr>ch_domain_size = d, chunks = cs\<rparr> \<longleftrightarrow>
      x div CHUNK_BITS < length cs \<and> x mod CHUNK_BITS < chunk_dom d (x div CHUNK_BITS) \<and> P x"
    using assms(2) [of "x div CHUNK_BITS"] by (cases "x div CHUNK_BITS < length cs") (simp_all add: mem_chunked_elems)
  also have "\<dots> \<longleftrightarrow> x < d \<and> P x"
    using chunk_index_less [of x d] mod_chunk_dom_iff [of x d] unfolding assms(1) by blast
  finally show "x \<in> chunked_elems \<lparr>ch_domain_size = d, chunks = cs\<rparr> \<longleftrightarrow> x \<in> {x. x < d \<and> P x}" by simp
qed

lemma chunked_insert_all_spec:
  assumes "chunked_inv s"
  shows "chunked_inv (chunked_insert_all s) \<and> ch_domain_size (chunked_insert_all s) = ch_domain_size s \<and>
         chunked_elems (chunked_insert_all s) = {..<ch_domain_size s}"
proof -
  let ?d = "ch_domain_size s"
  have fill: "chunk_inv (chunk_dom ?d i) (chunk_fill (chunks s ! i)) \<and>
      chunk_elems (chunk_fill (chunks s ! i)) = {..<chunk_dom ?d i}" if "i < length (chunks s)" for i
    using chunk_fill_spec [OF chunked_invD(2) [OF assms that]] .
  have "chunked_insert_all s = \<lparr>ch_domain_size = ?d, chunks = map chunk_fill (chunks s)\<rparr>"
    by (simp add: chunked_insert_all_def)
  moreover have "chunked_elems \<lparr>ch_domain_size = ?d, chunks = map chunk_fill (chunks s)\<rparr> = {x. x < ?d \<and> True}"
    by (rule chunked_elems_by_chunks) (use fill chunked_invD(1) [OF assms] in auto)
  ultimately show ?thesis using assms fill by (auto simp: chunked_inv_def)
qed

lemma words_beyond_zero:
  assumes "length ws = CHUNK_WORDS" "bits ws \<subseteq> {..<d}" "d \<le> CHUNK_BITS"
  shows "drop (num_words d) ws = replicate (CHUNK_WORDS - num_words d) 0"
    and "bits (take (num_words d) ws) = bits ws"
proof -
  have "ws ! j = 0" if j: "num_words d \<le> j" "j < length ws" for j
  proof (rule bit_word_eqI)
    fix n assume "n < LENGTH(64)"
    have "d \<le> WORD_BITS * j" by (rule le_trans [OF num_words_bounds(1) mult_le_mono2 [OF j(1)]])
    then have "d \<le> j * WORD_BITS" by (simp add: mult.commute)
    then have "j * WORD_BITS + n \<notin> bits ws" using assms(2) by auto
    then show "bit (ws ! j) n \<longleftrightarrow> bit 0 n" using j(2) by (simp add: bits_word_member)
  qed
  then show zeros: "drop (num_words d) ws = replicate (CHUNK_WORDS - num_words d) 0"
    using assms(1) by (auto intro!: nth_equalityI)
  have "bits ws = bits (take (num_words d) ws @ drop (num_words d) ws)" by simp
  also have "\<dots> = bits (take (num_words d) ws)" unfolding zeros by (rule bits_append_zeros)
  finally show "bits (take (num_words d) ws) = bits ws" by simp
qed

lemma chunk_union_mixed:
  assumes c: "chunk_inv d (Mixed n k ws)" "chunk_inv d (Mixed n' k' vs)" and d: "d \<le> CHUNK_BITS"
  shows "\<exists>c'. chunk_union (Mixed n k ws) (Mixed n' k' vs) = Some (bits ws \<union> bits vs \<noteq> bits ws, c') \<and>
      chunk_inv d c' \<and> chunk_elems c' = bits ws \<union> bits vs"
proof -
  let ?m = "num_words d"
  let ?us = "map2 (OR) (take ?m ws) (take ?m vs)"
  from c have I: "unat n = d" "length ws = CHUNK_WORDS" "bits ws \<subseteq> {..<d}" "length vs = CHUNK_WORDS"
      "bits vs \<subseteq> {..<d}" "0 < card (bits ws)"
    by (auto simp: word_less_nat_alt simp flip: card_gt_0_iff)
  have m: "?m \<le> CHUNK_WORDS" using d by (rule num_words_le_chunk)
  note beyond = words_beyond_zero [OF I(2,3) d] words_beyond_zero [OF I(4,5) d]
  have "bits ?us = {i. i div WORD_BITS < ?m \<and> (i \<in> bits ws \<or> i \<in> bits vs)}"
    using bits_map2 [where f = "(OR)" and P = "(\<or>)", of "take ?m ws" "take ?m vs"] I m beyond
    by (simp add: bit_or_iff)
  then have us: "bits ?us = bits ws \<union> bits vs"
    using I(3,5) word_index_less [of _ d] by auto
  have card: "card (bits ws \<union> bits vs) \<le> d"
    using I(3,5) card_mono [of "{..<d}" "bits ws \<union> bits vs"] by simp
  define cnt :: u16 where "cnt = of_nat (sum_list (map count_ones ?us))"
  have total: "sum_list (map count_ones ?us) = card (bits ws \<union> bits vs)" unfolding card_bits [symmetric] us ..
  have cnt: "unat cnt = card (bits ws \<union> bits vs)" using card d unfolding cnt_def total by (simp add: unat_of_nat_u16)
  have sum: "sum_u16 (map count_ones ?us) = Some cnt" using total card d CHUNK_BITS_le unfolding sum_u16_def cnt_def by simp
  have changed: "?us \<noteq> take ?m ws \<longleftrightarrow> bits ws \<union> bits vs \<noteq> bits ws"
    using bits_eq_iff [of ?us "take ?m ws"] I m beyond us by simp
  show ?thesis
  proof (cases "bits ws \<union> bits vs = bits ws")
    case True
    with changed I m c show ?thesis by (simp add: bitwise_changes_Some)
  next
    case False
    have step: "chunk_union (Mixed n k ws) (Mixed n' k' vs) = (if cnt = n then Some (True, Ones n)
        else Some (True, Mixed n cnt (?us @ drop ?m ws)))"
      using False changed I m sum by (simp add: bitwise_changes_Some bitwise_Some Let_def)
    show ?thesis
    proof (cases "cnt = n")
      case True
      then have "bits ws \<union> bits vs = {..<d}" using I cnt by (intro full_of_card) auto
      with True False step I show ?thesis by auto
    next
      case neq: False
      then have "unat cnt < unat n" using I(1) cnt card by (simp add: word_unat_eq_iff)
      moreover have "0 < unat cnt" using cnt I(6) card_mono [of "bits ws \<union> bits vs" "bits ws"] by simp
      moreover have "bits (?us @ drop ?m ws) = bits ws \<union> bits vs"
        unfolding beyond(1) bits_append_zeros us ..
      ultimately have "chunk_inv d (Mixed n cnt (?us @ drop ?m ws))"
        using I m cnt by (simp add: word_less_nat_alt)
      with neq False step \<open>bits (?us @ drop ?m ws) = bits ws \<union> bits vs\<close> show ?thesis by simp
    qed
  qed
qed

lemma chunk_union_ok:
  assumes "chunk_inv d a" "chunk_inv d b" "d \<le> CHUNK_BITS" "0 < d"
  shows "\<exists>c. chunk_union a b = Some (chunk_elems a \<union> chunk_elems b \<noteq> chunk_elems a, c) \<and>
      chunk_inv d c \<and> chunk_elems c = chunk_elems a \<union> chunk_elems b"
proof -
  have mixed: "bits ws \<noteq> {} \<and> bits ws \<subseteq> {..<d} \<and> bits ws \<noteq> {..<d} \<and> unat n = d"
    if "chunk_inv d (Mixed n k ws)" for n k ws
    using that by (auto simp: word_less_nat_alt)
  show ?thesis
  proof (cases b)
    case (Zeros n)
    with assms show ?thesis by (cases a) simp_all
  next
    case (Ones n)
    then have n: "unat n = d" using assms(2) by simp
    show ?thesis
    proof (cases a)
      case (Mixed n' k' vs)
      then have "n' = n" using assms(1) n by (simp add: word_unat_eq_iff)
      with Mixed mixed [of n' k' vs] assms(1) Ones n show ?thesis by (auto simp: Un_absorb1)
    next
      case (Zeros n')
      then have "n' = n" using assms(1) n by (simp add: word_unat_eq_iff)
      with Zeros Ones n assms show ?thesis by auto
    qed (use Ones n assms in auto)
  next
    case b: (Mixed n k ws)
    note m = mixed [OF assms(2) [unfolded b]]
    show ?thesis
    proof (cases a)
      case (Mixed n' k' vs)
      with b assms chunk_union_mixed [of d n' k' vs n k ws] show ?thesis by simp
    next
      case (Zeros n')
      have "n' = n" using Zeros b assms(1,2) by (simp add: word_unat_eq_iff)
      then have "chunk_union a b = Some (True, b)" using Zeros b by simp
      moreover have "bits ws \<noteq> {}" using m by blast
      ultimately show ?thesis using Zeros b assms(2) by (intro exI [of _ b]) (simp del: chunk_inv.simps)
    next
      case (Ones n')
      have "chunk_union a b = Some (False, a)" using Ones b by simp
      moreover have "chunk_elems a \<union> chunk_elems b = chunk_elems a" using Ones b m assms(1) by auto
      ultimately show ?thesis using assms(1) by (intro exI [of _ a]) simp
    qed
  qed
qed

lemma chunks_union_ok:
  assumes "list_all2 R as bs"
    and "\<And>a b. R a b \<Longrightarrow> \<exists>c. chunk_union a b = Some (chunk_elems a \<union> chunk_elems b \<noteq> chunk_elems a, c) \<and> Q a b c"
  shows "\<exists>cs. chunks_union as bs ch =
      Some (ch \<or> (\<exists>i < length as. chunk_elems (as ! i) \<union> chunk_elems (bs ! i) \<noteq> chunk_elems (as ! i)), cs) \<and>
      length cs = length as \<and> (\<forall>i < length as. Q (as ! i) (bs ! i) (cs ! i))"
  using assms(1)
proof (induction arbitrary: ch rule: list_all2_induct)
  case (Cons a as b bs)
  obtain c where c: "chunk_union a b = Some (chunk_elems a \<union> chunk_elems b \<noteq> chunk_elems a, c)" "Q a b c"
    using assms(2) [OF Cons(1)] by blast
  let ?ch = "ch \<or> chunk_elems a \<union> chunk_elems b \<noteq> chunk_elems a"
  obtain cs where "chunks_union as bs ?ch = Some (?ch \<or>
      (\<exists>i < length as. chunk_elems (as ! i) \<union> chunk_elems (bs ! i) \<noteq> chunk_elems (as ! i)), cs)"
    "length cs = length as" "\<forall>i < length as. Q (as ! i) (bs ! i) (cs ! i)"
    using Cons.IH [of ?ch] by auto
  with c show ?case by (auto simp: All_less_Suc2 Ex_less_Suc2)
qed simp

abbreviation chunked_rel ::
    "(nat set \<Rightarrow> nat set \<Rightarrow> nat set) \<Rightarrow> nat set \<Rightarrow> chunked_bit_set \<Rightarrow> (bool \<times> chunked_bit_set) option \<Rightarrow> bool" where
  "chunked_rel \<equiv> relation_spec ch_domain_size chunked_elems chunked_inv"

lemma chunk_dom_bounds:
  assumes "chunked_inv s" "i < length (chunks s)"
  shows "chunk_dom (ch_domain_size s) i \<le> CHUNK_BITS" "0 < chunk_dom (ch_domain_size s) i"
  using assms(2) less_div_iff [of i "ch_domain_size s"] unfolding chunked_invD(1) [OF assms(1)]
  by (simp_all add: chunk_dom_def)

lemma chunk_elems_iff:
  assumes "chunked_inv s" "i < length (chunks s)"
  shows "chunk_elems (chunks s ! i) =
    {r. r < chunk_dom (ch_domain_size s) i \<and> i * CHUNK_BITS + r \<in> chunked_elems s}"
proof (rule set_eqI)
  fix r
  have "(i * CHUNK_BITS + r) div CHUNK_BITS = i \<and> (i * CHUNK_BITS + r) mod CHUNK_BITS = r"
    if "r < chunk_dom (ch_domain_size s) i"
    using that chunk_dom_bounds(1) [OF assms] by simp
  with chunk_elems_dom [OF chunked_invD(2) [OF assms]] assms(2)
  show "r \<in> chunk_elems (chunks s ! i) \<longleftrightarrow>
      r \<in> {r. r < chunk_dom (ch_domain_size s) i \<and> i * CHUNK_BITS + r \<in> chunked_elems s}"
    by (auto simp: mem_chunked_elems)
qed

lemma chunked_union_spec:
  assumes "chunked_inv s" "chunked_inv t" "ch_domain_size s = ch_domain_size t"
  shows "chunked_rel (\<union>) (chunked_elems t) s (chunked_union s t)"
proof -
  let ?d = "ch_domain_size s" and ?as = "chunks s" and ?bs = "chunks t"
  have len: "length ?as = length ?bs" "length ?as = (?d + CHUNK_BITS - 1) div CHUNK_BITS"
    using chunked_invD(1) [OF assms(1)] chunked_invD(1) [OF assms(2)] assms(3) by simp_all
  let ?R = "\<lambda>a b. chunk_size a \<le> CHUNK_BITS \<and> 0 < chunk_size a \<and> chunk_inv (chunk_size a) a \<and>
      chunk_inv (chunk_size a) b"
  let ?Q = "\<lambda>a b c. chunk_inv (chunk_size a) c \<and> chunk_elems c = chunk_elems a \<union> chunk_elems b"
  have size: "chunk_size (?as ! i) = chunk_dom ?d i" if "i < length ?as" for i
    using chunk_size_eq [OF chunked_invD(2) [OF assms(1) that]] .
  have "list_all2 ?R ?as ?bs"
    using len(1) chunk_dom_bounds [OF assms(1)] chunked_invD(2) [OF assms(1)] chunked_invD(2) [OF assms(2)]
      assms(3) size by (simp add: list_all2_conv_all_nth)
  from chunks_union_ok [where Q = ?Q and ch = False, OF this] chunk_union_ok
  obtain cs where cs: "chunks_union ?as ?bs False = Some
        (\<exists>i < length ?as. chunk_elems (?as ! i) \<union> chunk_elems (?bs ! i) \<noteq> chunk_elems (?as ! i), cs)"
      "length cs = length ?as" "\<forall>i < length ?as. ?Q (?as ! i) (?bs ! i) (cs ! i)" by auto
  let ?u = "\<lparr>ch_domain_size = ?d, chunks = cs\<rparr>"
  have inv: "chunked_inv ?u"
    using assms cs(2,3) len size by (simp add: chunked_inv_def)
  have "chunked_elems ?u = {x. x < ?d \<and> (x \<in> chunked_elems s \<or> x \<in> chunked_elems t)}"
  proof (rule chunked_elems_by_chunks)
    show "length cs = (?d + CHUNK_BITS - 1) div CHUNK_BITS" using cs(2) len(2) by simp
    show "chunk_elems (cs ! i) = {r. r < chunk_dom ?d i \<and>
        (i * CHUNK_BITS + r \<in> chunked_elems s \<or> i * CHUNK_BITS + r \<in> chunked_elems t)}" if "i < length cs" for i
      using cs(2,3) that len(1) assms(3) chunk_elems_iff [OF assms(1), of i] chunk_elems_iff [OF assms(2), of i] by auto
  qed
  then have elems: "chunked_elems ?u = chunked_elems s \<union> chunked_elems t"
    using chunked_elems_dom [OF assms(1)] chunked_elems_dom [OF assms(2)] assms(3) by auto
  have "(\<exists>i < length ?as. chunk_elems (?as ! i) \<union> chunk_elems (?bs ! i) \<noteq> chunk_elems (?as ! i)) \<longleftrightarrow>
      \<not> chunked_elems t \<subseteq> chunked_elems s" (is "?ex \<longleftrightarrow> _")
  proof
    show "?ex \<Longrightarrow> \<not> chunked_elems t \<subseteq> chunked_elems s"
      using chunk_elems_iff [OF assms(1)] chunk_elems_iff [OF assms(2)] len(1) assms(3) by auto
    assume "\<not> chunked_elems t \<subseteq> chunked_elems s"
    then obtain x where "x \<in> chunked_elems t" "x \<notin> chunked_elems s" by blast
    then show ?ex using len(1) by (intro exI [of _ "x div CHUNK_BITS"]) (auto simp: mem_chunked_elems)
  qed
  with cs(1) assms(3) len(1) have "chunked_union s t = Some (\<not> chunked_elems t \<subseteq> chunked_elems s, ?u)"
    by (simp add: chunked_union_def)
  then show ?thesis using inv elems by (intro relation_specI [of _ _ ?u]) auto
qed

lemma chunked_union_hybrid_spec:
  assumes "chunked_inv s" "hybrid_inv h" "ch_domain_size s = hybrid_domain_size h"
  shows "chunked_rel (\<union>) (hybrid_elems h) s (chunked_union_hybrid s h)"
proof -
  have "set (hybrid_iter h) \<subseteq> {..<ch_domain_size s}" using assms hybrid_elems_dom [of h] by simp
  from chunked.sequential_insert [OF assms(1) this, of False] assms show ?thesis
    by (auto simp: relation_spec_def chunked_union_hybrid_def)
qed

lemma chunked_subtract_hybrid_spec:
  assumes "chunked_inv s" "hybrid_inv h" "ch_domain_size s = hybrid_domain_size h"
  shows "chunked_rel (-) (hybrid_elems h) s (chunked_subtract_hybrid s h)"
proof -
  have "set (hybrid_iter h) \<subseteq> {..<ch_domain_size s}" using assms hybrid_elems_dom [of h] by simp
  from chunked.sequential_remove [OF assms(1) this, of False] assms show ?thesis
    by (auto simp: relation_spec_def chunked_subtract_hybrid_def)
qed


section \<open>Counting and iteration\<close>

lemma chunk_items_eq:
  assumes "chunk_inv d c" "d \<le> CHUNK_BITS"
  shows "chunk_items base c = map ((+) base) (sorted_list_of_set (chunk_elems c))"
proof (cases c)
  case (Mixed n k ws)
  then have "WORD_BITS * length ws \<le> 2 ^ 64" using assms(1) by (simp add: CHUNK_WORDS_def WORD_BITS_def)
  with Mixed show ?thesis by (simp add: bit_iter_new_collect add.commute)
qed (simp_all add: lessThan_atLeast0)

lemma chunk_count_card: "chunk_inv d c \<Longrightarrow> chunk_count c = card (chunk_elems c)"
  by (cases c) simp_all

lemma finite_chunk_elems [simp]: "finite (chunk_elems c)"
  by (cases c) simp_all

lemma chunks_items_spec:
  assumes "\<forall>c \<in> set cs. \<exists>d \<le> CHUNK_BITS. chunk_inv d c"
  shows "sorted_wrt (<) (chunks_items k cs)"
    and "set (chunks_items k cs) = {x. k \<le> x div CHUNK_BITS \<and> x div CHUNK_BITS < k + length cs \<and>
      x mod CHUNK_BITS \<in> chunk_elems (cs ! (x div CHUNK_BITS - k))}"
    and "length (chunks_items k cs) = sum_list (map chunk_count cs)"
proof -
  have "sorted_wrt (<) (chunks_items k cs) \<and>
      set (chunks_items k cs) = {x. k \<le> x div CHUNK_BITS \<and> x div CHUNK_BITS < k + length cs \<and>
        x mod CHUNK_BITS \<in> chunk_elems (cs ! (x div CHUNK_BITS - k))} \<and>
      length (chunks_items k cs) = sum_list (map chunk_count cs)"
    using assms
  proof (induction cs arbitrary: k)
    case (Cons c cs)
    let ?b = "k * CHUNK_BITS"
    obtain d where d: "d \<le> CHUNK_BITS" "chunk_inv d c" using Cons.prems by auto
    have c: "chunk_items ?b c = map ((+) ?b) (sorted_list_of_set (chunk_elems c))"
      using chunk_items_eq [OF d(2,1)] .
    have lt: "r < CHUNK_BITS" if "r \<in> chunk_elems c" for r using chunk_elems_dom [OF d(2)] d(1) that by auto
    have IH: "sorted_wrt (<) (chunks_items (k + 1) cs)"
      "set (chunks_items (k + 1) cs) = {x. k + 1 \<le> x div CHUNK_BITS \<and> x div CHUNK_BITS < k + 1 + length cs \<and>
         x mod CHUNK_BITS \<in> chunk_elems (cs ! (x div CHUNK_BITS - (k + 1)))}"
      "length (chunks_items (k + 1) cs) = sum_list (map chunk_count cs)"
      using Cons.IH [of "k + 1"] Cons.prems by auto
    have set_c: "set (chunk_items ?b c) = {x. x div CHUNK_BITS = k \<and> x mod CHUNK_BITS \<in> chunk_elems c}"
    proof (rule set_eqI)
      fix x
      show "x \<in> set (chunk_items ?b c) \<longleftrightarrow> x \<in> {x. x div CHUNK_BITS = k \<and> x mod CHUNK_BITS \<in> chunk_elems c}"
        using lt div_mult_mod_eq [of x CHUNK_BITS] unfolding c
        by (auto simp: image_iff intro!: bexI [of _ "x mod CHUNK_BITS"])
    qed
    have "x < y" if "x \<in> set (chunk_items ?b c)" "y \<in> set (chunks_items (k + 1) cs)" for x y
    proof (rule ccontr)
      assume "\<not> x < y"
      then have "y div CHUNK_BITS \<le> x div CHUNK_BITS" by (simp add: div_le_mono)
      with that set_c IH(2) show False by auto
    qed
    moreover have "sorted_wrt (<) (chunk_items ?b c)"
      unfolding c by (simp add: sorted_wrt_map)
    ultimately have "sorted_wrt (<) (chunks_items k (c # cs))"
      using IH(1) by (simp add: sorted_wrt_append)
    moreover have "set (chunks_items k (c # cs)) = {x. k \<le> x div CHUNK_BITS \<and>
        x div CHUNK_BITS < k + length (c # cs) \<and> x mod CHUNK_BITS \<in> chunk_elems ((c # cs) ! (x div CHUNK_BITS - k))}"
      using set_c IH(2) by (auto simp: nth_Cons' le_Suc_eq)
    moreover have "length (chunk_items ?b c) = chunk_count c"
      unfolding c chunk_count_card [OF d(2)] by simp
    ultimately show ?case using IH(3) by simp
  qed simp
  then show "sorted_wrt (<) (chunks_items k cs)"
    and "set (chunks_items k cs) = {x. k \<le> x div CHUNK_BITS \<and> x div CHUNK_BITS < k + length cs \<and>
      x mod CHUNK_BITS \<in> chunk_elems (cs ! (x div CHUNK_BITS - k))}"
    and "length (chunks_items k cs) = sum_list (map chunk_count cs)" by simp_all
qed

lemma finite_chunked_elems [simp]: "chunked_inv s \<Longrightarrow> finite (chunked_elems s)"
  using chunked_elems_dom finite_subset by blast

lemma chunks_have_inv:
  "chunked_inv s \<Longrightarrow> \<forall>c \<in> set (chunks s). \<exists>d \<le> CHUNK_BITS. chunk_inv d c"
  using chunk_dom_bounds(1) chunked_invD(2) by (metis in_set_conv_nth)

lemma sorted_list_unique: "sorted_wrt (<) xs \<Longrightarrow> set xs = A \<Longrightarrow> xs = sorted_list_of_set A" for xs :: "nat list"
  by (metis sorted_list_of_set.idem_if_sorted_distinct strict_sorted_iff)

lemma chunks_items_all:
  assumes "chunked_inv s"
  shows "chunks_items 0 (chunks s) = sorted_list_of_set (chunked_elems s)"
proof -
  note items = chunks_items_spec [of "chunks s" 0, OF chunks_have_inv [OF assms]]
  show ?thesis using items(1) by (rule sorted_list_unique) (unfold items(2) chunked_elems_def, simp)
qed

lemma chunked_count_card:
  assumes "chunked_inv s"
  shows "chunked_count s = card (chunked_elems s)"
proof -
  have "chunked_count s = length (chunks_items 0 (chunks s))"
    using chunks_items_spec(3) [OF chunks_have_inv [OF assms]] by (simp add: chunked_count_def)
  with assms show ?thesis by (simp add: chunks_items_all)
qed

text \<open>\<open>fold\<close> on a fresh iterator passes every element once, in increasing order.\<close>

lemma chunked_fold_items_fresh:
  "chunked_inv s \<Longrightarrow> chunked_fold_items s 0 = Some (sorted_list_of_set (chunked_elems s))"
  by (simp add: chunked_fold_items_def chunks_items_all)

lemma bitset_union_chunked_spec:
  assumes "bitset_inv s" "chunked_inv t" "domain_size s = ch_domain_size t"
  shows "bitset_rel (\<union>) (chunked_elems t) s (bitset_union_chunked s t)"
proof -
  let ?xs = "sorted_list_of_set (chunked_elems t)"
  have "set ?xs = chunked_elems t" "set ?xs \<subseteq> {..<domain_size s}"
    using assms chunked_elems_dom [of t] by simp_all
  with dense.sequential_insert [OF assms(1), of ?xs False] assms show ?thesis
    by (auto simp: relation_spec_def bitset_union_chunked_def chunked_fold_items_fresh)
qed

text \<open>
  \<open>next\<close>: an iterator never stands inside a chunk of zeros, and from such a position \<open>next\<close> finds the
  smallest element at or after it.
\<close>

definition chunked_iter_ok :: "chunked_bit_set \<Rightarrow> nat \<Rightarrow> bool" where
  "chunked_iter_ok s index \<longleftrightarrow> index mod CHUNK_BITS = 0 \<or> ch_domain_size s \<le> index \<or>
     (\<forall>n. chunks s ! (index div CHUNK_BITS) \<noteq> Zeros n)"

lemma same_chunk_Suc:
  "Suc i mod CHUNK_BITS \<noteq> 0 \<Longrightarrow> Suc i div CHUNK_BITS = i div CHUNK_BITS"
  "Suc i mod CHUNK_BITS = 0 \<Longrightarrow> Suc i = (i div CHUNK_BITS + 1) * CHUNK_BITS"
proof -
  show "Suc i mod CHUNK_BITS \<noteq> 0 \<Longrightarrow> Suc i div CHUNK_BITS = i div CHUNK_BITS"
    by (simp add: div_Suc)
  assume z: "Suc i mod CHUNK_BITS = 0"
  then have "Suc i div CHUNK_BITS = i div CHUNK_BITS + 1" by (simp add: div_Suc)
  with z show "Suc i = (i div CHUNK_BITS + 1) * CHUNK_BITS"
    using div_mult_mod_eq [of "Suc i" CHUNK_BITS] by (metis add.right_neutral)
qed

lemma scan_mixed_spec:
  assumes "length ws = CHUNK_WORDS"
  shows "(\<exists>x. scan_mixed ws i = Some (Some x, x + 1) \<and> i \<le> x \<and> x div CHUNK_BITS = i div CHUNK_BITS \<and>
            x mod CHUNK_BITS \<in> bits ws \<and> (\<forall>y. i \<le> y \<longrightarrow> y < x \<longrightarrow> y mod CHUNK_BITS \<notin> bits ws)) \<or>
         (\<exists>j. scan_mixed ws i = Some (None, j) \<and> i < j \<and> j = (i div CHUNK_BITS + 1) * CHUNK_BITS \<and>
            (\<forall>y. i \<le> y \<longrightarrow> y < j \<longrightarrow> y mod CHUNK_BITS \<notin> bits ws))"
proof (induction "CHUNK_BITS - i mod CHUNK_BITS" arbitrary: i rule: less_induct)
  case (less i)
  have step: "scan_mixed ws i = (if i mod CHUNK_BITS \<in> bits ws then Some (Some i, i + 1)
      else if Suc i mod CHUNK_BITS = 0 then Some (None, i + 1) else scan_mixed ws (i + 1))"
    using chunk_word [OF assms, of i] by (subst scan_mixed.simps) (simp add: Let_def)
  show ?case
  proof (cases "i mod CHUNK_BITS \<in> bits ws")
    case True
    with step show ?thesis by simp
  next
    case here: False
    show ?thesis
    proof (cases "Suc i mod CHUNK_BITS = 0")
      case True
      have "\<forall>y. i \<le> y \<longrightarrow> y < i + 1 \<longrightarrow> y mod CHUNK_BITS \<notin> bits ws"
        using here by (metis Suc_eq_plus1 le_antisym less_Suc_eq_le)
      with True here step same_chunk_Suc(2) [OF True] show ?thesis by (metis Suc_eq_plus1 lessI)
    next
      case False
      have next_spec: "scan_mixed ws i = scan_mixed ws (i + 1)" using step here False by simp
      have IH: "(\<exists>x. scan_mixed ws (i + 1) = Some (Some x, x + 1) \<and> i + 1 \<le> x \<and>
            x div CHUNK_BITS = (i + 1) div CHUNK_BITS \<and> x mod CHUNK_BITS \<in> bits ws \<and>
            (\<forall>y. i + 1 \<le> y \<longrightarrow> y < x \<longrightarrow> y mod CHUNK_BITS \<notin> bits ws)) \<or>
         (\<exists>j. scan_mixed ws (i + 1) = Some (None, j) \<and> i + 1 < j \<and> j = ((i + 1) div CHUNK_BITS + 1) * CHUNK_BITS \<and>
            (\<forall>y. i + 1 \<le> y \<longrightarrow> y < j \<longrightarrow> y mod CHUNK_BITS \<notin> bits ws))"
        by (rule less.hyps) (use False in \<open>auto simp: mod_Suc intro!: diff_less_mono2 split: if_splits\<close>)
      have shift: "(\<forall>y. i + 1 \<le> y \<longrightarrow> y < b \<longrightarrow> y mod CHUNK_BITS \<notin> bits ws) \<Longrightarrow>
          (\<forall>y. i \<le> y \<longrightarrow> y < b \<longrightarrow> y mod CHUNK_BITS \<notin> bits ws)" for b
        using here by (metis Suc_eq_plus1 le_less Suc_leI)
      have div: "(i + 1) div CHUNK_BITS = i div CHUNK_BITS" using same_chunk_Suc(1) [OF False] by simp
      from IH [unfolded div] show ?thesis
      proof (elim disjE exE conjE)
        fix x
        assume "scan_mixed ws (i + 1) = Some (Some x, x + 1)" "i + 1 \<le> x" "x div CHUNK_BITS = i div CHUNK_BITS"
          "x mod CHUNK_BITS \<in> bits ws" "\<forall>y. i + 1 \<le> y \<longrightarrow> y < x \<longrightarrow> y mod CHUNK_BITS \<notin> bits ws"
        with shift [of x] show ?thesis unfolding next_spec by (intro disjI1 exI [of _ x]) simp
      next
        fix j
        assume "scan_mixed ws (i + 1) = Some (None, j)" "i + 1 < j" "j = (i div CHUNK_BITS + 1) * CHUNK_BITS"
          "\<forall>y. i + 1 \<le> y \<longrightarrow> y < j \<longrightarrow> y mod CHUNK_BITS \<notin> bits ws"
        with shift [of j] show ?thesis unfolding next_spec by (intro disjI2 exI [of _ j]) simp
      qed
    qed
  qed
qed

definition next_elem :: "nat set \<Rightarrow> nat \<Rightarrow> nat \<Rightarrow> bool" where
  "next_elem A i x \<longleftrightarrow> x \<in> A \<and> i \<le> x \<and> (\<forall>y \<in> A. i \<le> y \<longrightarrow> x \<le> y)"

lemma next_elem_skip: "next_elem A j x \<Longrightarrow> i \<le> j \<Longrightarrow> \<forall>y \<in> A. i \<le> y \<longrightarrow> j \<le> y \<Longrightarrow> next_elem A i x"
  by (auto simp: next_elem_def)

lemma next_result_skip:
  assumes "(\<exists>x. r = Some (Some x, x + 1) \<and> next_elem A j x \<and> ok (x + 1)) \<or> (\<exists>l. r = Some (None, l) \<and> (\<forall>y \<in> A. y < j))"
    and "i \<le> j" "\<forall>y \<in> A. i \<le> y \<longrightarrow> j \<le> y"
  shows "(\<exists>x. r = Some (Some x, x + 1) \<and> next_elem A i x \<and> ok (x + 1)) \<or> (\<exists>l. r = Some (None, l) \<and> (\<forall>y \<in> A. y < i))"
  using assms(1)
proof (elim disjE exE conjE)
  fix x assume "r = Some (Some x, x + 1)" "next_elem A j x" "ok (x + 1)"
  with next_elem_skip [OF _ assms(2,3)] show ?thesis by blast
next
  fix l assume "r = Some (None, l)" "\<forall>y \<in> A. y < j"
  moreover from this assms(3) have "\<forall>y \<in> A. y < i" by (meson leD leI)
  ultimately show ?thesis by blast
qed

lemma same_chunk: "i \<le> y \<Longrightarrow> y < (i div CHUNK_BITS + 1) * CHUNK_BITS \<Longrightarrow> y div CHUNK_BITS = i div CHUNK_BITS"
  using div_le_mono [of i y CHUNK_BITS] less_mult_imp_div_less [of y "i div CHUNK_BITS + 1" CHUNK_BITS] by linarith

lemma zeros_skip:
  assumes inv: "chunked_inv s" and i: "i < ch_domain_size s" "chunked_iter_ok s i" and Zeros: "chunks s ! (i div CHUNK_BITS) = Zeros n"
  shows "0 < unat n" "chunked_iter_ok s (i + unat n)" "\<forall>y \<in> chunked_elems s. i \<le> y \<longrightarrow> i + unat n \<le> y"
proof -
  let ?k = "i div CHUNK_BITS" and ?next = "(i div CHUNK_BITS + 1) * CHUNK_BITS"
  have k: "?k < length (chunks s)" using i(1) chunk_index_less chunked_invD(1) [OF inv] by simp
  have start: "i = ?k * CHUNK_BITS"
    using i Zeros div_mult_mod_eq [of i CHUNK_BITS] by (simp add: chunked_iter_ok_def)
  have n: "unat n = chunk_dom (ch_domain_size s) ?k" using chunked_invD(2) [OF inv k] Zeros by simp
  show "0 < unat n" using chunk_dom_bounds(2) [OF inv k] n by simp
  show "chunked_iter_ok s (i + unat n)"
  proof (cases "ch_domain_size s \<le> i + unat n")
    case False
    then have "i + unat n = ?next" using n start by (simp add: chunk_dom_def min_def split: if_splits)
    then show ?thesis by (simp add: chunked_iter_ok_def)
  qed (simp add: chunked_iter_ok_def)
  show "\<forall>y \<in> chunked_elems s. i \<le> y \<longrightarrow> i + unat n \<le> y"
  proof (intro ballI impI, rule ccontr)
    fix y assume y: "y \<in> chunked_elems s" "i \<le> y" "\<not> i + unat n \<le> y"
    then have "y < ?next" using n start chunk_dom_bounds(1) [OF inv k] by simp
    with same_chunk [OF y(2)] have "y div CHUNK_BITS = ?k" by blast
    with y(1) Zeros show False by (simp add: mem_chunked_elems)
  qed
qed

lemma chunked_next_loop_spec:
  assumes inv: "chunked_inv s" and "chunked_iter_ok s i" "ch_domain_size s - i < fuel"
  shows "(\<exists>x. chunked_next_loop fuel s i = Some (Some x, x + 1) \<and> next_elem (chunked_elems s) i x \<and>
              chunked_iter_ok s (x + 1)) \<or>
         (\<exists>j. chunked_next_loop fuel s i = Some (None, j) \<and> (\<forall>y \<in> chunked_elems s. y < i))"
  using assms(2,3)
proof (induction fuel arbitrary: i)
  case (Suc fuel)
  let ?k = "i div CHUNK_BITS" and ?next = "(i div CHUNK_BITS + 1) * CHUNK_BITS"
  have in_next: "i < ?next" using dividend_less_div_times [of CHUNK_BITS i] by (simp add: add.commute)
  have aligned: "chunked_iter_ok s ?next" by (simp add: chunked_iter_ok_def)
  show ?case
  proof (cases "i < ch_domain_size s")
    case False
    with chunked_elems_dom [OF inv] show ?thesis by fastforce
  next
    case True
    then have k: "?k < length (chunks s)" using chunk_index_less chunked_invD(1) [OF inv] by simp
    note kinv = chunked_invD(2) [OF inv k]
    have skip: ?thesis if "chunked_next_loop (Suc fuel) s i = chunked_next_loop fuel s j" "i < j" "chunked_iter_ok s j"
      "\<forall>y \<in> chunked_elems s. i \<le> y \<longrightarrow> j \<le> y" for j
    proof -
      have "ch_domain_size s - j < fuel" using Suc.prems(2) True that(2) by linarith
      from next_result_skip [OF Suc.IH [OF that(3) this] less_imp_le [OF that(2)] that(4)] show ?thesis unfolding that(1) .
    qed
    show ?thesis
    proof (cases "chunks s ! ?k")
      case (Ones n)
      then have "i \<in> chunked_elems s" using kinv True k mod_chunk_dom_iff [of i "ch_domain_size s"] by (simp add: mem_chunked_elems)
      moreover have "chunked_iter_ok s (i + 1)"
        using Ones same_chunk_Suc(1) [of i] by (auto simp: chunked_iter_ok_def)
      ultimately show ?thesis using True k Ones by (simp add: chunk_index_def next_elem_def)
    next
      case (Zeros n)
      then have "chunked_next_loop (Suc fuel) s i = chunked_next_loop fuel s (i + unat n)"
        using True k by (simp add: chunk_index_def)
      then show ?thesis using zeros_skip [OF inv True Suc.prems(1) Zeros] by (intro skip) simp_all
    next
      case (Mixed n c ws)
      then have len: "length ws = CHUNK_WORDS" using kinv by simp
      have mem: "y \<in> chunked_elems s \<longleftrightarrow> y mod CHUNK_BITS \<in> bits ws" if "i \<le> y" "y < ?next" for y
        using same_chunk [OF that] k Mixed by (simp add: mem_chunked_elems)
      from scan_mixed_spec [OF len, of i] show ?thesis
      proof (elim disjE exE conjE)
        fix x
        assume x: "scan_mixed ws i = Some (Some x, x + 1)" "i \<le> x" "x div CHUNK_BITS = ?k"
          "x mod CHUNK_BITS \<in> bits ws" "\<forall>y. i \<le> y \<longrightarrow> y < x \<longrightarrow> y mod CHUNK_BITS \<notin> bits ws"
        have "x < ?next" using x(3) dividend_less_div_times [of CHUNK_BITS x] by (simp add: add.commute)
        then have "next_elem (chunked_elems s) i x"
          using x mem by (auto simp: next_elem_def) (meson leI less_trans)
        moreover have "chunked_iter_ok s (x + 1)"
          using Mixed x(3) same_chunk_Suc(1) [of x] by (auto simp: chunked_iter_ok_def)
        ultimately show ?thesis using True k Mixed x(1) by (simp add: chunk_index_def)
      next
        fix j
        assume j: "scan_mixed ws i = Some (None, j)" "j = ?next"
          "\<forall>y. i \<le> y \<longrightarrow> y < j \<longrightarrow> y mod CHUNK_BITS \<notin> bits ws"
        have "\<forall>y \<in> chunked_elems s. i \<le> y \<longrightarrow> j \<le> y" using j mem by (meson leI)
        then show ?thesis using True k Mixed j in_next aligned
          by (intro skip [of j]) (simp_all add: chunk_index_def)
      qed
    qed
  qed
qed simp

lemma sorted_list_next:
  assumes "finite A" "next_elem A i x"
  shows "sorted_list_of_set {y \<in> A. i \<le> y} = x # sorted_list_of_set {y \<in> A. x + 1 \<le> y}"
proof -
  have "{y \<in> A. i \<le> y} = insert x {y \<in> A. x + 1 \<le> y}"
    using assms(2) by (auto simp: next_elem_def)
  moreover have "x # sorted_list_of_set {y \<in> A. x + 1 \<le> y} = sorted_list_of_set (insert x {y \<in> A. x + 1 \<le> y})"
    using assms(1) by (intro sorted_list_unique) auto
  ultimately show ?thesis by simp
qed

text \<open>Repeated \<open>next\<close> yields every element from the start position on, in order, and then \<open>None\<close>.\<close>

lemma chunked_drain_spec:
  assumes "chunked_inv s" "chunked_iter_ok s i" "ch_domain_size s - i < fuel"
  shows "chunked_drain fuel s i = Some (sorted_list_of_set {x \<in> chunked_elems s. i \<le> x})"
  using assms(2,3)
proof (induction fuel arbitrary: i)
  case (Suc fuel)
  have "ch_domain_size s - i < ch_domain_size s + 1" by simp
  from chunked_next_loop_spec [OF assms(1) Suc.prems(1) this] show ?case
  proof (elim disjE exE conjE)
    fix x
    assume x: "chunked_next_loop (ch_domain_size s + 1) s i = Some (Some x, x + 1)"
      "next_elem (chunked_elems s) i x" "chunked_iter_ok s (x + 1)"
    have "x < ch_domain_size s" "i \<le> x" using x(2) chunked_elems_dom [OF assms(1)] by (auto simp: next_elem_def)
    with Suc.IH [OF x(3)] Suc.prems(2) sorted_list_next [OF _ x(2)] x(1) assms(1) show ?thesis
      by (simp add: chunked_next_def)
  next
    fix j
    assume "chunked_next_loop (ch_domain_size s + 1) s i = Some (None, j)" "\<forall>y \<in> chunked_elems s. y < i"
    moreover from this(2) have "{x \<in> chunked_elems s. i \<le> x} = {}" by auto
    ultimately show ?thesis by (simp add: chunked_next_def del: Collect_empty_eq)
  qed
qed simp

text \<open>Intersecting a dense set with a chunked one, chunk by chunk on the words.\<close>

lemma and_words_eq:
  assumes "i + length ws \<le> length ds"
  shows "and_words ws ds i = Some (map2 (AND) ws (drop i ds) \<noteq> ws, map2 (AND) ws (drop i ds))"
  using assms
proof (induction ws arbitrary: i)
  case (Cons w ws)
  then have "drop i ds = ds ! i # drop (i + 1) ds" by (simp add: Cons_nth_drop_Suc)
  with Cons show ?case by (simp add: Let_def)
qed simp

lemma words_intersect_chunk_spec:
  assumes "chunk_inv d c" "length ws \<le> CHUNK_WORDS" "bits ws \<subseteq> {..<d}"
  shows "\<exists>vs. words_intersect_chunk c ws = Some (vs \<noteq> ws, vs) \<and> length vs = length ws \<and>
      bits vs = bits ws \<inter> chunk_elems c"
proof (cases c)
  case (Zeros n)
  have "(\<lambda>w :: u64. if w \<noteq> 0 then 0 else w) = (\<lambda>_. 0)" by auto
  moreover have "list_ex (\<lambda>w. w \<noteq> 0) ws \<longleftrightarrow> map (\<lambda>_. 0) ws \<noteq> ws" by (induction ws) auto
  ultimately show ?thesis using Zeros by simp
next
  case (Ones n)
  with assms show ?thesis by auto
next
  case (Mixed n k ds)
  then have len: "length ds = CHUNK_WORDS" using assms(1) by simp
  have "bits (map2 (AND) ws ds) = bits ws \<inter> bits ds"
    using assms(2) len by (auto simp: mem_bits_iff bit_and_iff)
  with Mixed and_words_eq [of 0 ws ds] len assms(2) show ?thesis by simp
qed

lemma chunk_word_split:
  "x div CHUNK_BITS = x div WORD_BITS div CHUNK_WORDS"
  "x mod CHUNK_BITS div WORD_BITS = x div WORD_BITS mod CHUNK_WORDS"
  "x mod CHUNK_BITS mod WORD_BITS = x mod WORD_BITS"
  by (simp_all add: CHUNK_BITS_def mult.commute [of CHUNK_WORDS] div_mult2_eq mod_mult2_eq)

lemma mem_bits_chunk:
  "x \<in> bits ws \<longleftrightarrow> x mod CHUNK_BITS \<in> bits (take CHUNK_WORDS (drop (x div CHUNK_BITS * CHUNK_WORDS) ws))"
proof -
  let ?j = "x div WORD_BITS"
  have j: "?j = ?j div CHUNK_WORDS * CHUNK_WORDS + ?j mod CHUNK_WORDS" by simp
  have m: "?j mod CHUNK_WORDS < CHUNK_WORDS" by (simp add: CHUNK_WORDS_def)
  have len: "?j mod CHUNK_WORDS < length (take CHUNK_WORDS (drop (?j div CHUNK_WORDS * CHUNK_WORDS) ws)) \<longleftrightarrow>
      ?j < length ws" using j m by (simp add: less_diff_conv add.commute)
  moreover have "take CHUNK_WORDS (drop (?j div CHUNK_WORDS * CHUNK_WORDS) ws) ! (?j mod CHUNK_WORDS) = ws ! ?j"
    if "?j < length ws"
  proof -
    have "?j div CHUNK_WORDS * CHUNK_WORDS \<le> length ws"
      using that div_times_less_eq_dividend [of ?j CHUNK_WORDS] by linarith
    then show ?thesis using m by simp
  qed
  ultimately show ?thesis unfolding mem_bits_iff chunk_word_split by auto
qed

lemma take_drop_splice:
  assumes "k * CHUNK_WORDS \<le> length ws" "length vs = length (take CHUNK_WORDS (drop (k * CHUNK_WORDS) ws))"
  defines "ws' \<equiv> take (k * CHUNK_WORDS) ws @ vs @ drop (k * CHUNK_WORDS + length vs) ws"
  shows "length ws' = length ws"
    and "take CHUNK_WORDS (drop (i * CHUNK_WORDS) ws') =
      (if i = k then vs else take CHUNK_WORDS (drop (i * CHUNK_WORDS) ws))"
proof -
  let ?a = "k * CHUNK_WORDS"
  show len: "length ws' = length ws" using assms(1,2) by (simp add: ws'_def)
  have nth: "ws' ! j = (if j div CHUNK_WORDS = k then vs ! (j - ?a) else ws ! j)" if "j < length ws" for j
  proof -
    have "j div CHUNK_WORDS = k \<longleftrightarrow> ?a \<le> j \<and> j < ?a + CHUNK_WORDS"
      by (auto simp: CHUNK_WORDS_def)
    then show ?thesis using assms(1,2) that by (auto simp: ws'_def nth_append)
  qed
  show "take CHUNK_WORDS (drop (i * CHUNK_WORDS) ws') =
      (if i = k then vs else take CHUNK_WORDS (drop (i * CHUNK_WORDS) ws))"
  proof (rule nth_equalityI)
    show "length (take CHUNK_WORDS (drop (i * CHUNK_WORDS) ws')) =
        length (if i = k then vs else take CHUNK_WORDS (drop (i * CHUNK_WORDS) ws))"
      using len assms(2) by simp
    fix j assume "j < length (take CHUNK_WORDS (drop (i * CHUNK_WORDS) ws'))"
    then have j: "j < CHUNK_WORDS" "i * CHUNK_WORDS + j < length ws" using len by auto
    then have "(i * CHUNK_WORDS + j) div CHUNK_WORDS = i" by simp
    with nth [OF j(2)] j len show "take CHUNK_WORDS (drop (i * CHUNK_WORDS) ws') ! j =
        (if i = k then vs else take CHUNK_WORDS (drop (i * CHUNK_WORDS) ws)) ! j" by simp
  qed
qed

lemma if_take: "(if n < length p then take n p else p) = take n p"
  by simp

lemma splice_id:
  "n \<le> length ws \<Longrightarrow> take n ws @ take m (drop n ws) @ drop (n + length (take m (drop n ws))) ws = ws"
  by (metis append_take_drop_id drop_drop add.commute length_take min_def drop_all nat_le_linear)

lemma bitset_intersect_chunked_spec:
  assumes s: "bitset_inv s" and t: "chunked_inv t" and d: "domain_size s = ch_domain_size t"
  shows "bitset_rel (\<inter>) (chunked_elems t) s (bitset_intersect_chunked s t)"
proof -
  let ?C = "chunked_elems t" and ?d = "ch_domain_size t"
  let ?step = "\<lambda>(i, chunk) (changed, ws). do {
         part \<leftarrow> slice ws (i * CHUNK_WORDS) (length ws);
         let part = (if length part > CHUNK_WORDS then take CHUNK_WORDS part else part);
         (c, new_part) \<leftarrow> words_intersect_chunk chunk part;
         Some (changed \<or> c,
               take (i * CHUNK_WORDS) ws @ new_part @ drop (i * CHUNK_WORDS + length part) ws)
       }"
  let ?I = "\<lambda>k (ch, ws). length ws = length (words s) \<and>
      bits ws = {x \<in> bitset_elems s. x div CHUNK_BITS < k \<longrightarrow> x \<in> ?C} \<and> ch = (bits ws \<noteq> bitset_elems s)"
  have "\<exists>r. for_each ?step (enumerate 0 (chunks t)) (False, words s) = Some r \<and>
      ?I (length (enumerate 0 (chunks t))) r"
  proof (rule for_each_rule [where I = "\<lambda>ys. ?I (length ys)"])
    fix ys y zs r
    assume split: "enumerate 0 (chunks t) = ys @ y # zs" and I: "?I (length ys) r"
    define k where "k = length ys"
    obtain ch ws where r: "r = (ch, ws)" by fastforce
    have k: "k < length (chunks t)" using arg_cong [OF split, of length] by (simp add: k_def)
    have y: "y = (k, chunks t ! k)"
      using arg_cong [OF split, of "\<lambda>l. l ! k"] k by (simp add: k_def nth_enumerate_eq)
    let ?part = "take CHUNK_WORDS (drop (k * CHUNK_WORDS) ws)"
    have len: "length ws = num_words ?d" using I r bitset_invD(1) [OF s] d by simp
    have "k * CHUNK_BITS < ?d" using k less_div_iff [of k ?d] chunked_invD(1) [OF t] by simp
    then have "k * CHUNK_WORDS < num_words ?d"
      using word_index_less [of "k * CHUNK_BITS" ?d] by (simp add: CHUNK_BITS_def mult.assoc [symmetric])
    then have kw: "k * CHUNK_WORDS \<le> length ws" using len by simp
    have ws_dom: "bits ws \<subseteq> {..<?d}" using I r bitset_invD(2) [OF s] d by auto
    have part_mem: "x mod CHUNK_BITS \<in> bits ?part \<longleftrightarrow> x \<in> bits ws" if "x div CHUNK_BITS = k" for x
      using mem_bits_chunk [of x ws] that by simp
    have "bits ?part \<subseteq> {..<chunk_dom ?d k}"
    proof
      fix q assume q: "q \<in> bits ?part"
      have "q < CHUNK_BITS" using bits_bound [OF q]
        by (rule less_le_trans) (simp add: CHUNK_BITS_def mult.commute)
      then have "(k * CHUNK_BITS + q) div CHUNK_BITS = k" "(k * CHUNK_BITS + q) mod CHUNK_BITS = q" by simp_all
      with part_mem [of "k * CHUNK_BITS + q"] q ws_dom mod_chunk_dom_iff [of "k * CHUNK_BITS + q" ?d]
      show "q \<in> {..<chunk_dom ?d k}" by auto
    qed
    then obtain vs where vs: "words_intersect_chunk (chunks t ! k) ?part = Some (vs \<noteq> ?part, vs)"
        "length vs = length ?part" "bits vs = bits ?part \<inter> chunk_elems (chunks t ! k)"
      using words_intersect_chunk_spec [OF chunked_invD(2) [OF t k], of ?part] by auto
    let ?ws = "take (k * CHUNK_WORDS) ws @ vs @ drop (k * CHUNK_WORDS + length ?part) ws"
    note splice = take_drop_splice [OF kw vs(2), unfolded vs(2)]
    have mem: "x \<in> bits ?ws \<longleftrightarrow> x \<in> bits ws \<and> (x div CHUNK_BITS = k \<longrightarrow> x \<in> ?C)" for x
      using mem_bits_chunk [of x ?ws] mem_bits_chunk [of x ws] splice(2) [of "x div CHUNK_BITS"] vs(3) k
      by (auto simp: mem_chunked_elems)
    have "?ws = ws \<longleftrightarrow> vs = ?part"
      using splice_id [OF kw] splice(2) [of k] by metis
    then have "vs \<noteq> ?part \<longleftrightarrow> bits ?ws \<noteq> bits ws" using bits_eq_iff [of ?ws ws] splice(1) by simp
    moreover have "slice ws (k * CHUNK_WORDS) (length ws) = Some (drop (k * CHUNK_WORDS) ws)" using kw by simp
    ultimately have step: "?step y r = Some (ch \<or> bits ?ws \<noteq> bits ws, ?ws)"
      using vs(1) by (simp only: r y prod.case Option.bind.simps Let_def if_take)
    have bits: "bits ?ws = {x \<in> bitset_elems s. x div CHUNK_BITS < Suc k \<longrightarrow> x \<in> ?C}"
      using mem I r by (auto simp: k_def less_Suc_eq)
    moreover have "bits ?ws \<subseteq> bits ws" using mem by blast
    moreover have "bits ws \<subseteq> bitset_elems s" "ch = (bits ws \<noteq> bitset_elems s)" using I r by auto
    ultimately have "(ch \<or> bits ?ws \<noteq> bits ws) = (bits ?ws \<noteq> bitset_elems s)" by blast
    with bits show "\<exists>r'. ?step y r = Some r' \<and> ?I (length (ys @ [y])) r'"
      using step splice(1) I r by (intro exI [of _ "(ch \<or> bits ?ws \<noteq> bits ws, ?ws)"]) (simp add: k_def)
  qed simp
  then obtain ch ws where r: "for_each ?step (enumerate 0 (chunks t)) (False, words s) = Some (ch, ws)"
      "?I (length (chunks t)) (ch, ws)" by auto
  have "bits ws = bitset_elems s \<inter> ?C"
    using r(2) bitset_invD(2) [OF s] chunk_index_less [of _ ?d] chunked_invD(1) [OF t] d by auto
  moreover have "bitset_inv (s\<lparr>words := ws\<rparr>)"
    using s r(2) bitset_invD(2) [OF s] by (intro bitset_inv_words) auto
  moreover have "bitset_intersect_chunked s t = Some (ch, s\<lparr>words := ws\<rparr>)"
    using r(1) d by (simp add: bitset_intersect_chunked_def)
  ultimately show ?thesis using r(2) by (intro relation_specI [of _ _ "s\<lparr>words := ws\<rparr>"]) auto
qed


text \<open>The run-time checks of the representation accept every well-formed set.\<close>

lemma chunk_assert_valid_ok:
  assumes "chunk_inv d c" "d \<le> CHUNK_BITS"
  shows "chunk_assert_valid c = Some ()"
proof (cases c)
  case (Mixed n count ws)
  have c: "unat n = d" "length ws = CHUNK_WORDS" "bits ws \<subseteq> {..<d}" "unat count = card (bits ws)"
      "0 < count" "count < n"
    using assms(1) Mixed by simp_all
  have sum: "sum_list (map count_ones ws) = unat count" using c(4) by (simp add: card_bits)
  then have sum16: "sum_u16 (map count_ones ws) = Some count"
    using unsigned_less [of count] by (simp add: sum_u16_def)
  have "bits (drop (num_words d) ws) = {}"
  proof (rule ccontr)
    assume "bits (drop (num_words d) ws) \<noteq> {}"
    then obtain i where i: "i \<in> bits (drop (num_words d) ws)" by blast
    then have "i + WORD_BITS * num_words d \<in> bits ws" by (auto simp: mem_bits_iff add.commute)
    with c(3) num_words_bounds(1) [of d] show False by auto
  qed
  then have "map count_ones (drop (num_words d) ws) = replicate (length ws - num_words d) 0"
    by (intro replicate_eqI) (auto simp: bits_empty_iff)
  then have "sum_u16 (map count_ones (drop (num_words d) ws)) = Some 0"
    by (simp add: sum_u16_def sum_list_replicate)
  moreover have "num_words d < CHUNK_WORDS \<Longrightarrow>
      slice ws (num_words d) (length ws) = Some (drop (num_words d) ws)"
    using c(2) by (simp add: slice_def)
  ultimately show ?thesis using Mixed c sum16 assms(2) by (simp add: Let_def)
qed (use assms in simp_all)

lemma chunked_assert_valid_ok:
  assumes "chunked_inv s"
  shows "chunked_assert_valid s = Some ()"
proof (cases "ch_domain_size s = 0")
  case True
  with chunked_invD(1) [OF assms] show ?thesis
    by (simp add: chunked_assert_valid_def CHUNK_BITS_def CHUNK_WORDS_def WORD_BITS_def)
next
  case False
  let ?d = "ch_domain_size s" and ?n = "length (chunks s)"
  have pos: "0 < CHUNK_BITS" by (simp add: CHUNK_BITS_def CHUNK_WORDS_def WORD_BITS_def)
  have n: "?n = (?d + CHUNK_BITS - 1) div CHUNK_BITS" by (rule chunked_invD(1) [OF assms])
  have n1: "0 < ?n" unfolding n using False pos by (simp add: div_greater_zero_iff)
  have "?n * CHUNK_BITS \<le> ?d + CHUNK_BITS - 1" "?d + CHUNK_BITS - 1 < CHUNK_BITS + ?n * CHUNK_BITS"
    unfolding n using dividend_less_div_times [OF pos, of "?d + CHUNK_BITS - 1"] by simp_all
  then have ub: "?d \<le> ?n * CHUNK_BITS" "(?n - 1) * CHUNK_BITS \<le> ?d"
    using pos False by (simp_all add: diff_mult_distrib)
  have "\<forall>c \<in> set (chunks s). chunk_assert_valid c = Some ()"
    using chunk_assert_valid_ok [OF chunked_invD(2) [OF assms]] by (auto simp: in_set_conv_nth chunk_dom_def)
  then have "\<exists>u. for_each (\<lambda>chunk _. chunk_assert_valid chunk) (chunks s) () = Some u \<and> True"
    by (intro for_each_rule [where I = "\<lambda>_ _. True"]) auto
  moreover have "checked_sub ?n 1 = Some (?n - 1)" using n1 unfolding checked_sub_def by (cases ?n) simp_all
  ultimately show ?thesis using False ub by (simp add: chunked_assert_valid_def)
qed


section \<open>Properties\<close>

text \<open>C22: A \<open>ChunkedBitSet\<close> under \<open>insert\<close> and \<open>remove\<close>: for an index of the domain both return, change
  exactly that index, report whether they did, and leave every chunk in its canonical form (all zeros, all
  ones, or mixed with the exact count and no bit beyond the chunk's domain), so that \<open>assert_valid\<close> accepts
  the result; for an index outside the domain both panic.\<close>

theorem chunked_updates:
  assumes "chunked_inv s"
  shows "if e < ch_domain_size s
    then (\<exists>t. chunked_insert s e = Some (e \<notin> chunked_elems s, t) \<and> chunked_inv t \<and>
            chunked_assert_valid t = Some () \<and> chunked_elems t = insert e (chunked_elems s)) \<and>
         (\<exists>t. chunked_remove s e = Some (e \<in> chunked_elems s, t) \<and> chunked_inv t \<and>
            chunked_assert_valid t = Some () \<and> chunked_elems t = chunked_elems s - {e})
    else chunked_insert s e = None \<and> chunked_remove s e = None"
  using chunked.insert_ok [OF assms, of e] chunked.remove_ok [OF assms, of e]
    chunked.insert_panics [OF assms, of e] chunked.remove_panics [OF assms, of e] chunked_assert_valid_ok
  by auto

theorem chunked_updates_witness:
  "\<exists>s t. chunked_new 5000 True = Some s \<and> chunked_insert s 4100 = Some (True, t) \<and> chunked_elems t = {4100}"
proof -
  obtain s where "chunked_new 5000 True = Some s" "chunked_inv s" "ch_domain_size s = 5000" "chunked_elems s = {}"
    using chunked_new_spec [of 5000 True] by auto
  then show ?thesis using chunked_updates [of s 4100] by auto
qed

text \<open>\<open>BitRelations\<close> that involve a \<open>ChunkedBitSet\<close>: the union with a chunked or hybrid set, the
  difference with a hybrid set, and the union and intersection of a dense set with a chunked one compute the
  set operation and report whether the receiver changed.\<close>

theorem chunked_relations:
  assumes "chunked_inv s" "chunked_inv t" "hybrid_inv h" "bitset_inv b"
    and "ch_domain_size t = ch_domain_size s" "hybrid_domain_size h = ch_domain_size s"
    and "domain_size b = ch_domain_size s"
  shows "relation_spec ch_domain_size chunked_elems chunked_inv (\<union>) (chunked_elems t) s (chunked_union s t) \<and>
    relation_spec ch_domain_size chunked_elems chunked_inv (\<union>) (hybrid_elems h) s (chunked_union_hybrid s h) \<and>
    relation_spec ch_domain_size chunked_elems chunked_inv (-) (hybrid_elems h) s (chunked_subtract_hybrid s h) \<and>
    relation_spec domain_size bitset_elems bitset_inv (\<union>) (chunked_elems s) b (bitset_union_chunked b s) \<and>
    relation_spec domain_size bitset_elems bitset_inv (\<inter>) (chunked_elems s) b (bitset_intersect_chunked b s)"
  using chunked_union_spec [of s t] chunked_union_hybrid_spec [of s h] chunked_subtract_hybrid_spec [of s h]
    bitset_union_chunked_spec [of b s] bitset_intersect_chunked_spec [of b s] assms by simp

theorem chunked_relations_witness:
  "\<exists>s b. chunked_new 3000 False = Some s \<and> bitset_union_chunked (bitset_new_empty 3000) s = Some (True, b) \<and>
     bitset_elems b = {..<3000}"
proof -
  obtain s where "chunked_new 3000 False = Some s" "chunked_inv s" "ch_domain_size s = 3000"
      "chunked_elems s = {..<3000}"
    using chunked_new_spec [of 3000 False] by auto
  then show ?thesis using chunked_relations [of s s "hybrid_new_empty 3000" "bitset_new_empty 3000"]
    by (auto simp: relation_spec_def lessThan_empty_iff)
qed

text \<open>Iterating a \<open>ChunkedBitSet\<close>: calling \<open>next\<close> until it returns \<open>None\<close> terminates and yields the
  elements in increasing order, \<open>fold\<close>, which goes chunk by chunk, passes the same elements in the same order
  to its closure, and \<open>count\<close> is their number.\<close>

theorem chunked_iteration:
  assumes "chunked_inv s"
  shows "chunked_drain (ch_domain_size s + 1) s 0 = Some (sorted_list_of_set (chunked_elems s)) \<and>
    chunked_fold_items s 0 = Some (sorted_list_of_set (chunked_elems s)) \<and>
    chunked_count s = card (chunked_elems s)"
  using chunked_drain_spec [OF assms, of 0 "ch_domain_size s + 1"] chunked_fold_items_fresh [OF assms]
    chunked_count_card [OF assms]
  by (simp add: chunked_iter_ok_def)

theorem chunked_iteration_witness:
  "\<exists>s. chunked_new 3000 False = Some s \<and> chunked_fold_items s 0 = Some (sorted_list_of_set {..<3000}) \<and>
     chunked_count s = 3000"
proof -
  obtain s where "chunked_new 3000 False = Some s" "chunked_inv s" "chunked_elems s = {..<3000}"
    using chunked_new_spec [of 3000 False] by auto
  then show ?thesis using chunked_iteration [of s] by simp
qed

end
