(* ===== verification/Slice_Search.thy ===== *)
theory Slice_Search
  imports Rust_Prelude
begin

text \<open>
  \<open>binary_search_by\<close>, \<open>binary_search\<close>, \<open>binary_search_by_key\<close> and \<open>partition_point\<close> of
  \<open>library/core/src/slice/mod.rs\<close>. The comparator is a closure that may panic. The unchecked read of
  the source is a checked one here, so that a theorem that the search returns also says that the read
  stays in bounds.
\<close>

datatype ordering = Less | Equal | Greater

datatype ('a, 'e) result = Ok 'a | Err 'e

definition cmp :: "'a::linorder \<Rightarrow> 'a \<Rightarrow> ordering" where
  "cmp a b = (if a < b then Less else if a = b then Equal else Greater)"

text \<open>The loop: \<open>size\<close> is \<open>right - left\<close> at its head.\<close>

function binary_search_loop ::
    "('a \<Rightarrow> ordering option) \<Rightarrow> 'a list \<Rightarrow> nat \<Rightarrow> nat \<Rightarrow> (nat, nat) result option" where
  "binary_search_loop f xs left right =
     (if left < right then do {
        let size = right - left;
        let mid = left + size div 2;
        x \<leftarrow> index_at xs mid;
        c \<leftarrow> f x;
        if c = Less then binary_search_loop f xs (mid + 1) right
        else if c = Greater then binary_search_loop f xs left mid
        else Some (Ok mid)
      } else Some (Err left))"
  by auto
termination by (relation "measure (\<lambda>(f, xs, left, right). right - left)") auto

declare binary_search_loop.simps [simp del]

definition binary_search_by :: "'a list \<Rightarrow> ('a \<Rightarrow> ordering option) \<Rightarrow> (nat, nat) result option" where
  "binary_search_by xs f = binary_search_loop f xs 0 (length xs)"

definition binary_search :: "'a::linorder list \<Rightarrow> 'a \<Rightarrow> (nat, nat) result option" where
  "binary_search xs x = binary_search_by xs (\<lambda>p. Some (cmp p x))"

definition binary_search_by_key :: "'a list \<Rightarrow> 'b::linorder \<Rightarrow> ('a \<Rightarrow> 'b option) \<Rightarrow> (nat, nat) result option" where
  "binary_search_by_key xs b f = binary_search_by xs (\<lambda>k. do { fk \<leftarrow> f k; Some (cmp fk b) })"

definition partition_point :: "'a list \<Rightarrow> ('a \<Rightarrow> bool option) \<Rightarrow> nat option" where
  "partition_point xs pred = do {
     r \<leftarrow> binary_search_by xs (\<lambda>x. do { b \<leftarrow> pred x; Some (if b then Less else Greater) });
     Some (case r of Ok i \<Rightarrow> i | Err i \<Rightarrow> i)
   }"


section \<open>Correctness\<close>

lemma cmp_iff [simp]:
  "cmp a b = Less \<longleftrightarrow> a < b" "cmp a b = Equal \<longleftrightarrow> a = b" "cmp a b = Greater \<longleftrightarrow> b < a"
  by (auto simp: cmp_def)

lemma binary_search_loop_step:
  assumes "left < right" "right \<le> length xs" "f (xs ! (left + (right - left) div 2)) = Some c"
  shows "binary_search_loop f xs left right =
    (case c of
       Less \<Rightarrow> binary_search_loop f xs (left + (right - left) div 2 + 1) right
     | Greater \<Rightarrow> binary_search_loop f xs left (left + (right - left) div 2)
     | Equal \<Rightarrow> Some (Ok (left + (right - left) div 2)))"
proof -
  have "left + (right - left) div 2 < length xs" using assms(1,2) by linarith
  with assms show ?thesis
    by (subst binary_search_loop.simps) (simp add: Let_def split: ordering.split)
qed

lemma binary_search_loop_done: "right \<le> left \<Longrightarrow> binary_search_loop f xs left right = Some (Err left)"
  by (subst binary_search_loop.simps) simp

text \<open>The search returns, whatever the order of the slice; \<open>Ok\<close> is always a match.\<close>

lemma binary_search_loop_returns:
  assumes "\<And>x. x \<in> set xs \<Longrightarrow> f x = Some (g x)" "right \<le> length xs"
  shows "\<exists>r. binary_search_loop f xs left right = Some r \<and>
    (case r of Ok i \<Rightarrow> left \<le> i \<and> i < right \<and> g (xs ! i) = Equal | Err i \<Rightarrow> left \<le> i \<and> (left \<le> right \<longrightarrow> i \<le> right))"
  using assms(2)
proof (induction "right - left" arbitrary: left right rule: less_induct)
  case less
  show ?case
  proof (cases "left < right")
    case False
    then show ?thesis by (simp add: binary_search_loop_done)
  next
    case True
    let ?mid = "left + (right - left) div 2"
    have mid: "left \<le> ?mid" "?mid < right" "?mid < length xs" using True less.prems by auto
    then have f: "f (xs ! ?mid) = Some (g (xs ! ?mid))" using assms(1) by simp
    note step = binary_search_loop_step [of left right xs f, OF True less.prems f]
    show ?thesis
    proof (cases "g (xs ! ?mid)")
      case Less
      have "right - (?mid + 1) < right - left" using mid by linarith
      from less.hyps [OF this less.prems] mid Less step show ?thesis
        by (fastforce split: result.splits)
    next
      case Greater
      have "?mid - left < right - left" "?mid \<le> length xs" using mid by linarith+
      from less.hyps [OF this] mid Greater step show ?thesis
        by (fastforce split: result.splits)
    next
      case Equal
      with mid step show ?thesis by auto
    qed
  qed
qed

text \<open>
  When the elements compared \<open>Less\<close> come first and those compared \<open>Greater\<close> last, \<open>Err i\<close> separates
  them.
\<close>

definition ordered_by :: "('a \<Rightarrow> ordering) \<Rightarrow> 'a list \<Rightarrow> bool" where
  "ordered_by g xs \<longleftrightarrow> (\<forall>i j. i \<le> j \<longrightarrow> j < length xs \<longrightarrow>
     (g (xs ! j) = Less \<longrightarrow> g (xs ! i) = Less) \<and> (g (xs ! i) = Greater \<longrightarrow> g (xs ! j) = Greater))"

lemma ordered_byD:
  assumes "ordered_by g xs" "i \<le> j" "j < length xs"
  shows "g (xs ! j) = Less \<Longrightarrow> g (xs ! i) = Less" "g (xs ! i) = Greater \<Longrightarrow> g (xs ! j) = Greater"
  using assms by (auto simp: ordered_by_def)

lemma binary_search_loop_Err:
  assumes "\<And>x. x \<in> set xs \<Longrightarrow> f x = Some (g x)" "ordered_by g xs" "left \<le> right" "right \<le> length xs"
    and "\<forall>j < left. g (xs ! j) = Less" "\<forall>j. right \<le> j \<longrightarrow> j < length xs \<longrightarrow> g (xs ! j) = Greater"
    and "binary_search_loop f xs left right = Some (Err i)"
  shows "i \<le> length xs \<and> (\<forall>j < i. g (xs ! j) = Less) \<and> (\<forall>j. i \<le> j \<longrightarrow> j < length xs \<longrightarrow> g (xs ! j) = Greater)"
  using assms(3-)
proof (induction "right - left" arbitrary: left right rule: less_induct)
  case less
  show ?case
  proof (cases "left < right")
    case False
    with less.prems(5) have "i = left" by (simp add: binary_search_loop_done)
    with False less.prems show ?thesis by auto
  next
    case True
    let ?mid = "left + (right - left) div 2"
    have mid: "left \<le> ?mid" "?mid < right" "?mid < length xs" using True less.prems(2) by auto
    then have f: "f (xs ! ?mid) = Some (g (xs ! ?mid))" using assms(1) by simp
    note step = binary_search_loop_step [of left right xs f, OF True less.prems(2) f]
    show ?thesis
    proof (cases "g (xs ! ?mid)")
      case Less
      then have "\<forall>j < ?mid + 1. g (xs ! j) = Less"
        using ordered_byD(1) [OF assms(2) _ mid(3)] by simp
      then show ?thesis
        by (intro less.hyps [of right "?mid + 1"]) (use Less mid step less.prems in simp_all)
    next
      case Greater
      then have "\<forall>j. ?mid \<le> j \<longrightarrow> j < length xs \<longrightarrow> g (xs ! j) = Greater"
        using ordered_byD(2) [OF assms(2)] by blast
      then show ?thesis
        by (intro less.hyps [of ?mid left]) (use Greater mid step less.prems in simp_all)
    next
      case Equal
      with step less.prems(5) show ?thesis by simp
    qed
  qed
qed

lemma binary_search_by_spec:
  assumes f: "\<And>x. x \<in> set xs \<Longrightarrow> f x = Some (g x)" and ord: "ordered_by g xs"
  shows "\<exists>r. binary_search_by xs f = Some r \<and>
    (case r of
       Ok i \<Rightarrow> i < length xs \<and> g (xs ! i) = Equal
     | Err i \<Rightarrow> i \<le> length xs \<and> (\<forall>j < i. g (xs ! j) = Less) \<and>
               (\<forall>j. i \<le> j \<longrightarrow> j < length xs \<longrightarrow> g (xs ! j) = Greater))"
proof -
  obtain r where r: "binary_search_loop f xs 0 (length xs) = Some r"
    "case r of Ok i \<Rightarrow> 0 \<le> i \<and> i < length xs \<and> g (xs ! i) = Equal
     | Err i \<Rightarrow> 0 \<le> i \<and> (0 \<le> length xs \<longrightarrow> i \<le> length xs)"
    using binary_search_loop_returns [of xs f g "length xs" 0] f by auto
  show ?thesis
  proof (cases r)
    case (Ok i)
    with r show ?thesis by (simp add: binary_search_by_def)
  next
    case (Err i)
    have "i \<le> length xs \<and> (\<forall>j < i. g (xs ! j) = Less) \<and> (\<forall>j. i \<le> j \<longrightarrow> j < length xs \<longrightarrow> g (xs ! j) = Greater)"
      using f ord by (rule binary_search_loop_Err [where left = 0 and right = "length xs"]) (use r Err in simp_all)
    with r Err show ?thesis by (simp add: binary_search_by_def)
  qed
qed

lemma partition_point_spec:
  assumes f: "\<And>x. x \<in> set xs \<Longrightarrow> pred x = Some (P x)"
    and part: "\<And>i j. i \<le> j \<Longrightarrow> j < length xs \<Longrightarrow> P (xs ! j) \<Longrightarrow> P (xs ! i)"
  shows "partition_point xs pred = Some (length (takeWhile P xs))"
proof -
  let ?g = "\<lambda>x. if P x then Less else Greater"
  let ?f = "\<lambda>x. do { b \<leftarrow> pred x; Some (if b then Less else Greater) }"
  have "ordered_by ?g xs" using part by (auto simp: ordered_by_def)
  with binary_search_by_spec [of xs ?f ?g] f obtain r where r: "binary_search_by xs ?f = Some r"
      "case r of Ok i \<Rightarrow> i < length xs \<and> ?g (xs ! i) = Equal
       | Err i \<Rightarrow> i \<le> length xs \<and> (\<forall>j < i. ?g (xs ! j) = Less) \<and>
                 (\<forall>j. i \<le> j \<longrightarrow> j < length xs \<longrightarrow> ?g (xs ! j) = Greater)"
    by auto
  then obtain i where i: "r = Err i" "i \<le> length xs" "\<forall>j < i. P (xs ! j)"
      "\<forall>j. i \<le> j \<longrightarrow> j < length xs \<longrightarrow> \<not> P (xs ! j)"
    by (cases r) (auto split: if_splits)
  have "takeWhile P xs = take i xs"
  proof (rule takeWhile_eq_take_P_nth)
    show "\<And>n. n < i \<Longrightarrow> n < length xs \<Longrightarrow> P (xs ! n)" using i(3) by blast
    show "i < length xs \<Longrightarrow> \<not> P (xs ! i)" using i(4) by blast
  qed
  with r(1) i show ?thesis by (simp add: partition_point_def)
qed

text \<open>On a sorted slice \<open>binary_search\<close> finds an element that is there, or where to insert it.\<close>

lemma ordered_by_cmp: "sorted xs \<Longrightarrow> ordered_by (\<lambda>p. cmp p x) xs"
  unfolding ordered_by_def cmp_iff sorted_iff_nth_mono by (meson le_less_trans less_le_trans)

lemma binary_search_spec:
  assumes "sorted xs"
  shows "\<exists>r. binary_search xs x = Some r \<and>
    (case r of
       Ok i \<Rightarrow> i < length xs \<and> xs ! i = x
     | Err i \<Rightarrow> x \<notin> set xs \<and> i \<le> length xs \<and> sorted (take i xs @ x # drop i xs))"
proof -
  obtain r where r: "binary_search xs x = Some r"
    "case r of Ok i \<Rightarrow> i < length xs \<and> cmp (xs ! i) x = Equal
     | Err i \<Rightarrow> i \<le> length xs \<and> (\<forall>j < i. cmp (xs ! j) x = Less) \<and>
               (\<forall>j. i \<le> j \<longrightarrow> j < length xs \<longrightarrow> cmp (xs ! j) x = Greater)"
    using binary_search_by_spec [of xs "\<lambda>p. Some (cmp p x)" "\<lambda>p. cmp p x"] ordered_by_cmp [OF assms]
    unfolding binary_search_def by blast
  show ?thesis
  proof (cases r)
    case (Ok i)
    with r show ?thesis by simp
  next
    case (Err i)
    then have i: "i \<le> length xs" "\<forall>j < i. xs ! j < x" "\<forall>j. i \<le> j \<longrightarrow> j < length xs \<longrightarrow> x < xs ! j"
      using r(2) by simp_all
    have "x \<notin> set xs"
    proof
      assume "x \<in> set xs"
      then obtain j where "j < length xs" "xs ! j = x" by (auto simp: in_set_conv_nth)
      with i show False by (metis less_irrefl not_less)
    qed
    moreover have "\<forall>a \<in> set (take i xs). a < x" using i(1,2) by (auto simp: in_set_conv_nth)
    moreover have "\<forall>b \<in> set (drop i xs). x < b" using i(1,3) by (auto simp: in_set_conv_nth)
    moreover from calculation have "\<forall>a \<in> set (take i xs). \<forall>b \<in> set (drop i xs). a \<le> b"
      by (meson less_imp_le less_trans)
    moreover have "sorted (take i xs)" "sorted (drop i xs)" using assms by (simp_all add: sorted_wrt_take sorted_wrt_drop)
    ultimately show ?thesis using Err r(1) i(1) by (auto simp: sorted_append intro: less_imp_le)
  qed
qed


section \<open>Properties\<close>

text \<open>\<open>binary_search_by\<close> on a slice the comparator orders (all \<open>Less\<close> before all \<open>Equal\<close> before all
  \<open>Greater\<close>) terminates without an out-of-bounds access; \<open>Ok(i)\<close> is the index of an equal element, and
  \<open>Err(i)\<close> means there is none and \<open>i\<close> separates the smaller elements from the greater ones.\<close>

theorem binary_search_by_correct:
  assumes "ordered_by g xs"
  shows "\<exists>r. binary_search_by xs (\<lambda>x. Some (g x)) = Some r \<and>
    (case r of
       Ok i \<Rightarrow> i < length xs \<and> g (xs ! i) = Equal
     | Err i \<Rightarrow> i \<le> length xs \<and> (\<forall>j < i. g (xs ! j) = Less) \<and>
               (\<forall>j. i \<le> j \<longrightarrow> j < length xs \<longrightarrow> g (xs ! j) = Greater))"
  by (rule binary_search_by_spec [OF _ assms]) simp

theorem binary_search_by_correct_witness:
  "\<exists>r. binary_search_by [1, 3, 5 :: nat] (\<lambda>x. Some (cmp x 3)) = Some r \<and>
     (case r of Ok i \<Rightarrow> i < 3 \<and> cmp ([1, 3, 5 :: nat] ! i) 3 = Equal | Err i \<Rightarrow> i \<le> 3)"
proof -
  have "ordered_by (\<lambda>x. cmp x (3 :: nat)) [1, 3, 5]"
    by (auto simp: ordered_by_def cmp_def less_Suc_eq numeral_3_eq_3 nth_Cons')
  from binary_search_by_correct [OF this] obtain r where
    r: "binary_search_by [1, 3, 5 :: nat] (\<lambda>x. Some (cmp x 3)) = Some r"
    "case r of Ok i \<Rightarrow> i < length [1, 3, 5 :: nat] \<and> cmp ([1, 3, 5 :: nat] ! i) 3 = Equal
       | Err i \<Rightarrow> i \<le> length [1, 3, 5 :: nat] \<and> (\<forall>j < i. cmp ([1, 3, 5 :: nat] ! j) 3 = Less) \<and>
          (\<forall>j. i \<le> j \<longrightarrow> j < length [1, 3, 5 :: nat] \<longrightarrow> cmp ([1, 3, 5 :: nat] ! j) 3 = Greater)"
    by blast
  then show ?thesis by (intro exI [of _ r]) (cases r; simp)
qed

text \<open>\<open>partition_point\<close> on a slice partitioned by the predicate returns the length of the part where it
  holds.\<close>

theorem partition_point_correct:
  assumes "\<And>i j. i \<le> j \<Longrightarrow> j < length xs \<Longrightarrow> P (xs ! j) \<Longrightarrow> P (xs ! i)"
  shows "partition_point xs (\<lambda>x. Some (P x)) = Some (length (takeWhile P xs))"
  by (rule partition_point_spec) (use assms in auto)

theorem partition_point_correct_witness:
  "partition_point [1, 2, 8, 9 :: nat] (\<lambda>x. Some (x < 5)) = Some 2"
proof -
  have "partition_point [1, 2, 8, 9 :: nat] (\<lambda>x. Some (x < 5)) = Some (length (takeWhile (\<lambda>x. x < 5) [1, 2, 8, 9 :: nat]))"
    by (rule partition_point_correct) (auto simp: nth_Cons' numeral_eq_Suc less_Suc_eq split: if_splits)
  then show ?thesis by simp
qed

end
