(* ===== verification/Bit_Matrix.thy ===== *)
theory Bit_Matrix
  imports Hybrid_Bit_Set
begin

text \<open>
  \<open>BitMatrix\<close> and \<open>SparseBitMatrix\<close> of \<open>compiler/rustc_index/src/bit_set.rs\<close>, with the operations of
  \<open>IndexVec\<close> (\<open>compiler/rustc_index/src/vec.rs\<close>) the sparse matrix is built on. A dense matrix is one
  vector of words, row after row; a sparse one is an \<open>IndexVec\<close> of optional hybrid sets. Both are shown
  to be relations between rows and columns.
\<close>

section \<open>Index vectors\<close>

type_synonym 'a index_vec = "'a list"

text \<open>\<open>Vec::resize_with\<close> with a closure that returns the same value each time.\<close>

definition resize_with :: "'a list \<Rightarrow> nat \<Rightarrow> 'a \<Rightarrow> 'a list" where
  "resize_with xs n v = (if n \<le> length xs then take n xs else xs @ replicate (n - length xs) v)"

definition index_vec_push :: "'a index_vec \<Rightarrow> 'a \<Rightarrow> nat \<times> 'a index_vec" where
  "index_vec_push v d = (let idx = length v in (idx, v @ [d]))"

definition index_vec_next_index :: "'a index_vec \<Rightarrow> nat" where
  "index_vec_next_index v = length v"

definition index_vec_indices :: "'a index_vec \<Rightarrow> nat list" where
  "index_vec_indices v = [0..<length v]"

definition index_vec_last :: "'a index_vec \<Rightarrow> nat option" where
  "index_vec_last v = checked_sub (length v) 1"

definition index_vec_get :: "'a index_vec \<Rightarrow> nat \<Rightarrow> 'a option" where
  "index_vec_get v i = (if i < length v then Some (v ! i) else None)"

text \<open>The two elements \<open>pick2_mut\<close> gives references to.\<close>

function index_vec_pick2 :: "'a index_vec \<Rightarrow> nat \<Rightarrow> nat \<Rightarrow> ('a \<times> 'a) option" where
  "index_vec_pick2 v ai bi = do {
     assert_that (ai \<noteq> bi);
     if ai < bi then do {
       c1 \<leftarrow> slice v 0 bi;
       c2 \<leftarrow> slice v bi (length v);
       x \<leftarrow> index_at c1 ai;
       y \<leftarrow> index_at c2 0;
       Some (x, y)
     } else do {
       (c2, c1) \<leftarrow> index_vec_pick2 v bi ai;
       Some (c1, c2)
     }
   }"
  by auto
termination by (relation "measure (\<lambda>(v, ai, bi). if ai < bi then 0 else 1)") (auto simp: assert_that_def split: if_splits)

declare index_vec_pick2.simps [simp del]

definition ensure_contains_elem :: "'a index_vec \<Rightarrow> nat \<Rightarrow> 'a \<Rightarrow> 'a index_vec" where
  "ensure_contains_elem v elem fill_value =
     (let min_new_len = elem + 1
      in if length v < min_new_len then resize_with v min_new_len fill_value else v)"

definition resize_to_elem :: "'a index_vec \<Rightarrow> nat \<Rightarrow> 'a \<Rightarrow> 'a index_vec" where
  "resize_to_elem v elem fill_value = (let min_new_len = elem + 1 in resize_with v min_new_len fill_value)"

definition index_vec_insert ::
    "'a option index_vec \<Rightarrow> nat \<Rightarrow> 'a \<Rightarrow> ('a option \<times> 'a option index_vec) option" where
  "index_vec_insert v index value = do {
     let v = ensure_contains_elem v index None;
     old \<leftarrow> index_at v index;
     v \<leftarrow> store_at v index (Some value);
     Some (old, v)
   }"

text \<open>\<open>get_or_insert_with\<close> returns a reference; here, the value it refers to and the vector.\<close>

definition index_vec_get_or_insert_with ::
    "'a option index_vec \<Rightarrow> nat \<Rightarrow> 'a \<Rightarrow> ('a \<times> 'a option index_vec) option" where
  "index_vec_get_or_insert_with v index value = do {
     let v = ensure_contains_elem v index None;
     slot \<leftarrow> index_at v index;
     case slot of
       Some x \<Rightarrow> Some (x, v)
     | None \<Rightarrow> do {
         v \<leftarrow> store_at v index (Some value);
         Some (value, v)
       }
   }"

definition index_vec_remove ::
    "'a option index_vec \<Rightarrow> nat \<Rightarrow> ('a option \<times> 'a option index_vec) option" where
  "index_vec_remove v index = do {
     let v = ensure_contains_elem v index None;
     old \<leftarrow> index_at v index;
     v \<leftarrow> store_at v index None;
     Some (old, v)
   }"


section \<open>The dense matrix\<close>

record bit_matrix =
  num_rows :: nat
  num_columns :: nat
  bm_words :: "u64 list"

definition bitmatrix_new :: "nat \<Rightarrow> nat \<Rightarrow> bit_matrix" where
  "bitmatrix_new rows columns =
     (let words_per_row = num_words columns
      in \<lparr>num_rows = rows, num_columns = columns, bm_words = replicate (rows * words_per_row) 0\<rparr>)"

definition bitmatrix_from_row_n :: "bit_set \<Rightarrow> nat \<Rightarrow> bit_matrix option" where
  "bitmatrix_from_row_n row rows = do {
     let columns = domain_size row;
     let words_per_row = num_words columns;
     assert_that (words_per_row = length (words row));
     Some \<lparr>num_rows = rows, num_columns = columns, bm_words = concat (replicate rows (words row))\<rparr>
   }"

definition bitmatrix_rows :: "bit_matrix \<Rightarrow> nat list" where
  "bitmatrix_rows m = [0..<num_rows m]"

definition bitmatrix_range :: "bit_matrix \<Rightarrow> nat \<Rightarrow> nat \<times> nat" where
  "bitmatrix_range m row =
     (let words_per_row = num_words (num_columns m); start = row * words_per_row
      in (start, start + words_per_row))"

definition bitmatrix_insert :: "bit_matrix \<Rightarrow> nat \<Rightarrow> nat \<Rightarrow> (bool \<times> bit_matrix) option" where
  "bitmatrix_insert m row column = do {
     assert_that (row < num_rows m \<and> column < num_columns m);
     let (start, _) = bitmatrix_range m row;
     let (word_index, mask) = word_index_and_mask column;
     word \<leftarrow> index_at (bm_words m) (start + word_index);
     let new_word = word OR mask;
     ws \<leftarrow> store_at (bm_words m) (start + word_index) new_word;
     Some (word \<noteq> new_word, m\<lparr>bm_words := ws\<rparr>)
   }"

definition bitmatrix_contains :: "bit_matrix \<Rightarrow> nat \<Rightarrow> nat \<Rightarrow> bool option" where
  "bitmatrix_contains m row column = do {
     assert_that (row < num_rows m \<and> column < num_columns m);
     let (start, _) = bitmatrix_range m row;
     let (word_index, mask) = word_index_and_mask column;
     w \<leftarrow> index_at (bm_words m) (start + word_index);
     Some (w AND mask \<noteq> 0)
   }"

text \<open>The inner loop of \<open>intersect_rows\<close>, over the bits of one word, with its early exit.\<close>

fun scan_word :: "nat \<Rightarrow> u64 \<Rightarrow> nat list \<Rightarrow> nat list" where
  "scan_word base v [] = []"
| "scan_word base v (b # bs) =
     (if v = 0 then []
      else (if v AND 1 \<noteq> 0 then [base * WORD_BITS + b] else []) @ scan_word base (drop_bit 1 v) bs)"

fun intersect_words :: "u64 list \<Rightarrow> nat \<Rightarrow> (nat \<times> nat) list \<Rightarrow> nat list option" where
  "intersect_words ws base [] = Some []"
| "intersect_words ws base ((i, j) # ijs) = do {
     a \<leftarrow> index_at ws i;
     b \<leftarrow> index_at ws j;
     rest \<leftarrow> intersect_words ws (base + 1) ijs;
     Some (scan_word base (a AND b) [0..<WORD_BITS] @ rest)
   }"

definition bitmatrix_intersect_rows :: "bit_matrix \<Rightarrow> nat \<Rightarrow> nat \<Rightarrow> nat list option" where
  "bitmatrix_intersect_rows m row1 row2 = do {
     assert_that (row1 < num_rows m \<and> row2 < num_rows m);
     let (row1_start, row1_end) = bitmatrix_range m row1;
     let (row2_start, row2_end) = bitmatrix_range m row2;
     intersect_words (bm_words m) 0 (zip [row1_start..<row1_end] [row2_start..<row2_end])
   }"

definition bitmatrix_union_rows :: "bit_matrix \<Rightarrow> nat \<Rightarrow> nat \<Rightarrow> (bool \<times> bit_matrix) option" where
  "bitmatrix_union_rows m read write = do {
     assert_that (read < num_rows m \<and> write < num_rows m);
     let (read_start, read_end) = bitmatrix_range m read;
     let (write_start, write_end) = bitmatrix_range m write;
     (changed, ws) \<leftarrow> for_each (\<lambda>(read_index, write_index) (changed, ws). do {
         word \<leftarrow> index_at ws write_index;
         r \<leftarrow> index_at ws read_index;
         let new_word = word OR r;
         ws \<leftarrow> store_at ws write_index new_word;
         Some (changed \<or> word \<noteq> new_word, ws)
       }) (zip [read_start..<read_end] [write_start..<write_end]) (False, bm_words m);
     Some (changed, m\<lparr>bm_words := ws\<rparr>)
   }"

definition bitmatrix_union_row_with :: "bit_matrix \<Rightarrow> bit_set \<Rightarrow> nat \<Rightarrow> (bool \<times> bit_matrix) option" where
  "bitmatrix_union_row_with m with_set write = do {
     assert_that (write < num_rows m);
     assert_that (domain_size with_set = num_columns m);
     let (write_start, write_end) = bitmatrix_range m write;
     (changed, ws) \<leftarrow> for_each (\<lambda>(read_index, write_index) (changed, ws). do {
         word \<leftarrow> index_at ws write_index;
         r \<leftarrow> index_at (words with_set) read_index;
         let new_word = word OR r;
         ws \<leftarrow> store_at ws write_index new_word;
         Some (changed \<or> word \<noteq> new_word, ws)
       }) (zip [0..<length (words with_set)] [write_start..<write_end]) (False, bm_words m);
     Some (changed, m\<lparr>bm_words := ws\<rparr>)
   }"

definition bitmatrix_insert_all_into_row :: "bit_matrix \<Rightarrow> nat \<Rightarrow> bit_matrix option" where
  "bitmatrix_insert_all_into_row m row = do {
     assert_that (row < num_rows m);
     let (start, end) = bitmatrix_range m row;
     ws \<leftarrow> for_range start end (\<lambda>index ws. store_at ws index (NOT 0)) (bm_words m);
     upto_end \<leftarrow> slice ws 0 end;
     cleared \<leftarrow> clear_excess_bits_in_final_word (num_columns m) upto_end;
     Some (m\<lparr>bm_words := cleared @ drop end ws\<rparr>)
   }"

definition bitmatrix_iter :: "bit_matrix \<Rightarrow> nat \<Rightarrow> bit_iter option" where
  "bitmatrix_iter m row = do {
     assert_that (row < num_rows m);
     let (start, end) = bitmatrix_range m row;
     ws \<leftarrow> slice (bm_words m) start end;
     Some (bit_iter_new ws)
   }"

definition bitmatrix_count :: "bit_matrix \<Rightarrow> nat \<Rightarrow> nat option" where
  "bitmatrix_count m row = do {
     let (start, end) = bitmatrix_range m row;
     ws \<leftarrow> slice (bm_words m) start end;
     Some (sum_list (map count_ones ws))
   }"


section \<open>The sparse matrix\<close>

record sparse_bit_matrix =
  sm_num_columns :: nat
  sm_rows :: "hybrid_bit_set option index_vec"

definition spmatrix_new :: "nat \<Rightarrow> sparse_bit_matrix" where
  "spmatrix_new columns = \<lparr>sm_num_columns = columns, sm_rows = []\<rparr>"

text \<open>\<open>ensure_row\<close>: the row, and the matrix in which it exists.\<close>

definition spmatrix_ensure_row ::
    "sparse_bit_matrix \<Rightarrow> nat \<Rightarrow> (hybrid_bit_set \<times> sparse_bit_matrix) option" where
  "spmatrix_ensure_row m row = do {
     (r, rows) \<leftarrow> index_vec_get_or_insert_with (sm_rows m) row (hybrid_new_empty (sm_num_columns m));
     Some (r, m\<lparr>sm_rows := rows\<rparr>)
   }"

definition spmatrix_set_row :: "sparse_bit_matrix \<Rightarrow> nat \<Rightarrow> hybrid_bit_set \<Rightarrow> sparse_bit_matrix option" where
  "spmatrix_set_row m row r = do {
     rows \<leftarrow> store_at (sm_rows m) row (Some r);
     Some (m\<lparr>sm_rows := rows\<rparr>)
   }"

definition spmatrix_row :: "sparse_bit_matrix \<Rightarrow> nat \<Rightarrow> hybrid_bit_set option" where
  "spmatrix_row m row = (case index_vec_get (sm_rows m) row of None \<Rightarrow> None | Some r \<Rightarrow> r)"

text \<open>
  The operations that update a row in place. An update takes the row to its result and its new value;
  \<open>spmatrix_update_existing\<close> leaves a row that does not exist alone, \<open>spmatrix_update_row\<close> creates it.
\<close>

definition spmatrix_update_existing ::
    "sparse_bit_matrix \<Rightarrow> nat \<Rightarrow> (hybrid_bit_set \<Rightarrow> (bool \<times> hybrid_bit_set) option) \<Rightarrow>
     (bool \<times> sparse_bit_matrix) option" where
  "spmatrix_update_existing m row upd = (case index_vec_get (sm_rows m) row of
       Some (Some r) \<Rightarrow> do {
         (changed, r) \<leftarrow> upd r;
         m \<leftarrow> spmatrix_set_row m row r;
         Some (changed, m)
       }
     | _ \<Rightarrow> Some (False, m))"

definition spmatrix_update_row ::
    "sparse_bit_matrix \<Rightarrow> nat \<Rightarrow> (hybrid_bit_set \<Rightarrow> (bool \<times> hybrid_bit_set) option) \<Rightarrow>
     (bool \<times> sparse_bit_matrix) option" where
  "spmatrix_update_row m row upd = do {
     (r, m) \<leftarrow> spmatrix_ensure_row m row;
     (changed, r) \<leftarrow> upd r;
     m \<leftarrow> spmatrix_set_row m row r;
     Some (changed, m)
   }"

definition spmatrix_insert :: "arrayvec \<Rightarrow> sparse_bit_matrix \<Rightarrow> nat \<Rightarrow> nat \<Rightarrow> (bool \<times> sparse_bit_matrix) option" where
  "spmatrix_insert A m row column = spmatrix_update_row m row (\<lambda>r. hybrid_insert A r column)"

definition spmatrix_remove :: "arrayvec \<Rightarrow> sparse_bit_matrix \<Rightarrow> nat \<Rightarrow> nat \<Rightarrow> (bool \<times> sparse_bit_matrix) option" where
  "spmatrix_remove A m row column = spmatrix_update_existing m row (\<lambda>r. hybrid_remove A r column)"

definition spmatrix_clear :: "sparse_bit_matrix \<Rightarrow> nat \<Rightarrow> sparse_bit_matrix option" where
  "spmatrix_clear m row =
     map_option snd (spmatrix_update_existing m row (\<lambda>r. Some (False, hybrid_clear r)))"

definition spmatrix_contains :: "sparse_bit_matrix \<Rightarrow> nat \<Rightarrow> nat \<Rightarrow> bool option" where
  "spmatrix_contains m row column =
     (case spmatrix_row m row of None \<Rightarrow> Some False | Some r \<Rightarrow> hybrid_contains r column)"

definition spmatrix_union_rows ::
    "arrayvec \<Rightarrow> sparse_bit_matrix \<Rightarrow> nat \<Rightarrow> nat \<Rightarrow> (bool \<times> sparse_bit_matrix) option" where
  "spmatrix_union_rows A m read write =
     (if read = write \<or> spmatrix_row m read = None then Some (False, m)
      else do {
        (_, m) \<leftarrow> spmatrix_ensure_row m write;
        slots \<leftarrow> index_vec_pick2 (sm_rows m) read write;
        case slots of
          (Some read_row, Some write_row) \<Rightarrow> do {
            (changed, write_row) \<leftarrow> hybrid_union A write_row read_row;
            m \<leftarrow> spmatrix_set_row m write write_row;
            Some (changed, m)
          }
        | _ \<Rightarrow> None
      })"

definition spmatrix_insert_all_into_row :: "sparse_bit_matrix \<Rightarrow> nat \<Rightarrow> sparse_bit_matrix option" where
  "spmatrix_insert_all_into_row m row =
     map_option snd (spmatrix_update_row m row (\<lambda>r. map_option (Pair False) (hybrid_insert_all r)))"

definition spmatrix_rows :: "sparse_bit_matrix \<Rightarrow> nat list" where
  "spmatrix_rows m = index_vec_indices (sm_rows m)"

definition spmatrix_iter :: "sparse_bit_matrix \<Rightarrow> nat \<Rightarrow> nat list" where
  "spmatrix_iter m row = (case spmatrix_row m row of None \<Rightarrow> [] | Some r \<Rightarrow> hybrid_iter r)"

text \<open>
  \<open>intersect_row\<close>, \<open>subtract_row\<close> and \<open>union_row\<close> take any set \<open>Set\<close> with
  \<open>HybridBitSet: BitRelations<Set>\<close>; the relation with the set is their argument.
\<close>

definition spmatrix_intersect_row ::
    "sparse_bit_matrix \<Rightarrow> nat \<Rightarrow> (hybrid_bit_set \<Rightarrow> (bool \<times> hybrid_bit_set) option) \<Rightarrow>
     (bool \<times> sparse_bit_matrix) option" where
  "spmatrix_intersect_row m row intersect_set = spmatrix_update_existing m row intersect_set"

definition spmatrix_subtract_row ::
    "sparse_bit_matrix \<Rightarrow> nat \<Rightarrow> (hybrid_bit_set \<Rightarrow> (bool \<times> hybrid_bit_set) option) \<Rightarrow>
     (bool \<times> sparse_bit_matrix) option" where
  "spmatrix_subtract_row m row subtract_set = spmatrix_update_existing m row subtract_set"

definition spmatrix_union_row ::
    "sparse_bit_matrix \<Rightarrow> nat \<Rightarrow> (hybrid_bit_set \<Rightarrow> (bool \<times> hybrid_bit_set) option) \<Rightarrow>
     (bool \<times> sparse_bit_matrix) option" where
  "spmatrix_union_row m row union_set = spmatrix_update_row m row union_set"


section \<open>The contract of a bit matrix\<close>

text \<open>
  Both matrices are relations between rows and columns: \<open>insert\<close> adds a pair, \<open>union_rows\<close> adds the
  columns of one row to another, and both report whether the relation grew.
\<close>

lemma union_rows_trancl:
  assumes "(w, r) \<in> R"
  shows "(R \<union> {w} \<times> (R `` {r}))\<^sup>+ = R\<^sup>+"
proof
  have "R \<union> {w} \<times> (R `` {r}) \<subseteq> R\<^sup>+" using assms by (auto intro: trancl_into_trancl)
  then show "(R \<union> {w} \<times> (R `` {r}))\<^sup>+ \<subseteq> R\<^sup>+" by (metis trancl_mono_subset trancl_id trans_trancl)
qed (simp add: trancl_mono_subset)

locale bit_relation =
  fixes rel :: "'m \<Rightarrow> (nat \<times> nat) set"
    and invar :: "'m \<Rightarrow> bool"
    and row_ok :: "'m \<Rightarrow> nat \<Rightarrow> bool"
    and col_ok :: "'m \<Rightarrow> nat \<Rightarrow> bool"
    and contains :: "'m \<Rightarrow> nat \<Rightarrow> nat \<Rightarrow> bool option"
    and ins :: "'m \<Rightarrow> nat \<Rightarrow> nat \<Rightarrow> (bool \<times> 'm) option"
    and union_rows :: "'m \<Rightarrow> nat \<Rightarrow> nat \<Rightarrow> (bool \<times> 'm) option"
  assumes contains_spec: "invar m \<Longrightarrow> row_ok m r \<Longrightarrow> col_ok m c \<Longrightarrow> contains m r c = Some ((r, c) \<in> rel m)"
    and insert_ok: "invar m \<Longrightarrow> row_ok m r \<Longrightarrow> col_ok m c \<Longrightarrow>
      \<exists>m'. ins m r c = Some ((r, c) \<notin> rel m, m') \<and> invar m' \<and> row_ok m' = row_ok m \<and> col_ok m' = col_ok m \<and>
           rel m' = insert (r, c) (rel m)"
    and union_rows_ok: "invar m \<Longrightarrow> row_ok m read \<Longrightarrow> row_ok m write \<Longrightarrow>
      \<exists>m'. union_rows m read write = Some (rel m' \<noteq> rel m, m') \<and> invar m' \<and> row_ok m' = row_ok m \<and>
           col_ok m' = col_ok m \<and> rel m' = rel m \<union> {write} \<times> (rel m `` {read})"
begin

text \<open>
  The use the documentation gives: propagating along an edge \<open>write \<rightarrow> read\<close> that the matrix already
  holds does not change what is reachable.
\<close>

lemma union_rows_reachability:
  assumes "invar m" "row_ok m read" "row_ok m write" "(write, read) \<in> rel m"
    and "union_rows m read write = Some (c, m')"
  shows "(rel m')\<^sup>+ = (rel m)\<^sup>+"
  using union_rows_ok [OF assms(1-3)] assms(5) union_rows_trancl [OF assms(4)] by auto

end


section \<open>Rows of the dense matrix\<close>

definition row_words :: "nat \<Rightarrow> 'a list \<Rightarrow> nat \<Rightarrow> 'a list" where
  "row_words n ws r = take n (drop (r * n) ws)"

lemma length_row_words [simp]:
  "r < k \<Longrightarrow> length ws = k * n \<Longrightarrow> length (row_words n ws r) = n" for r k n :: nat
  using mult_le_mono1 [of "Suc r" k n] by (simp add: row_words_def)

lemma row_index_less: "r < k \<Longrightarrow> j < n \<Longrightarrow> r * n + j < k * n" for r k n :: nat
  using mult_le_mono1 [of "Suc r" k n] by simp

lemma row_words_nth:
  "r < k \<Longrightarrow> length ws = k * n \<Longrightarrow> j < n \<Longrightarrow> row_words n ws r ! j = ws ! (r * n + j)"
  using row_index_less [of r k j n] by (simp add: row_words_def)

lemma row_words_update:
  assumes "j < n"
  shows "row_words n (ws[r * n + j := w]) q = (if q = r then (row_words n ws r)[j := w] else row_words n ws q)"
proof -
  consider "q = r" | "r < q" | "q < r" by linarith
  then show ?thesis
  proof cases
    case 2
    then have "r * n + j < q * n" using assms by (rule row_index_less)
    with 2 show ?thesis by (simp add: row_words_def)
  next
    case 3
    then have "q * n + n \<le> r * n" using mult_le_mono1 [of "Suc q" r n] by simp
    then have "q * n \<le> r * n + j" "n \<le> r * n + j - q * n" by linarith+
    with 3 show ?thesis by (simp add: row_words_def drop_update_swap take_update_cancel)
  qed (use assms in \<open>simp add: row_words_def drop_update_swap take_update_swap\<close>)
qed

definition bitmatrix_row :: "bit_matrix \<Rightarrow> nat \<Rightarrow> nat set" where
  "bitmatrix_row m r = bits (row_words (num_words (num_columns m)) (bm_words m) r)"

definition bitmatrix_inv :: "bit_matrix \<Rightarrow> bool" where
  "bitmatrix_inv m \<longleftrightarrow> num_columns m \<le> MAX_DOMAIN \<and>
     length (bm_words m) = num_rows m * num_words (num_columns m) \<and>
     (\<forall>r < num_rows m. bitmatrix_row m r \<subseteq> {..<num_columns m})"

definition bitmatrix_rel :: "bit_matrix \<Rightarrow> (nat \<times> nat) set" where
  "bitmatrix_rel m = {(r, c). r < num_rows m \<and> c \<in> bitmatrix_row m r}"

lemma bitmatrix_invD:
  assumes "bitmatrix_inv m"
  shows "length (bm_words m) = num_rows m * num_words (num_columns m)"
    and "\<And>r. r < num_rows m \<Longrightarrow> bitmatrix_row m r \<subseteq> {..<num_columns m}"
    and "num_columns m \<le> MAX_DOMAIN"
  using assms by (auto simp: bitmatrix_inv_def)

lemma bitmatrix_range_eq [simp]:
  "bitmatrix_range m r = (r * num_words (num_columns m), r * num_words (num_columns m) + num_words (num_columns m))"
  by (simp add: bitmatrix_range_def Let_def)

lemma bitmatrix_new_spec:
  assumes "c \<le> MAX_DOMAIN"
  shows "bitmatrix_inv (bitmatrix_new r c) \<and> bitmatrix_rel (bitmatrix_new r c) = {}"
  using assms by (auto simp: bitmatrix_new_def Let_def bitmatrix_inv_def bitmatrix_rel_def bitmatrix_row_def
      row_words_def)

text \<open>Writing one word changes one row; the rest of the matrix is as before.\<close>

lemma bitmatrix_row_store:
  assumes "bitmatrix_inv m" "r < num_rows m" "c < num_columns m"
    and "bm_words m' = (bm_words m)[r * num_words (num_columns m) + c div WORD_BITS := w]"
    and "num_columns m' = num_columns m" "num_rows m' = num_rows m"
  shows "bitmatrix_row m' q = (if q = r then
      bits ((row_words (num_words (num_columns m)) (bm_words m) r)[c div WORD_BITS := w]) else bitmatrix_row m q)"
  using assms word_index_less [OF assms(3)] by (simp add: bitmatrix_row_def row_words_update)

lemma bitmatrix_insert_ok:
  assumes "bitmatrix_inv m" "r < num_rows m" "c < num_columns m"
  shows "\<exists>m'. bitmatrix_insert m r c = Some ((r, c) \<notin> bitmatrix_rel m, m') \<and> bitmatrix_inv m' \<and>
      num_rows m' = num_rows m \<and> num_columns m' = num_columns m \<and>
      bitmatrix_rel m' = insert (r, c) (bitmatrix_rel m)"
proof -
  let ?n = "num_words (num_columns m)" and ?k = "c div WORD_BITS"
  let ?row = "row_words ?n (bm_words m) r" and ?w = "bm_words m ! (r * ?n + ?k)"
  let ?m = "m\<lparr>bm_words := (bm_words m)[r * ?n + ?k := ?w OR elem_mask c]\<rparr>"
  have k: "?k < ?n" using assms(3) by (rule word_index_less)
  have idx: "r * ?n + ?k < length (bm_words m)"
    using row_index_less [OF assms(2) k] bitmatrix_invD(1) [OF assms(1)] by simp
  have row: "?row ! ?k = ?w" "?k < length ?row"
    using row_words_nth [OF assms(2) bitmatrix_invD(1) [OF assms(1)] k] assms(2) bitmatrix_invD(1) [OF assms(1)] k
    by simp_all
  have bits: "bitmatrix_row ?m q = (if q = r then insert c (bitmatrix_row m r) else bitmatrix_row m q)" for q
    using bitmatrix_row_store [OF assms, of ?m "?w OR elem_mask c" q] bits_set_bit [OF row(2)] row(1)
    by (simp add: bitmatrix_row_def)
  have "c \<in> bitmatrix_row m r \<longleftrightarrow> bit ?w (c mod WORD_BITS)"
    using row by (simp add: bitmatrix_row_def mem_bits_iff)
  then have "bitmatrix_insert m r c = Some ((r, c) \<notin> bitmatrix_rel m, ?m)"
    using assms(2,3) idx or_mask_eq [of ?w c]
    by (auto simp: bitmatrix_insert_def Let_def bitmatrix_rel_def)
  moreover have "bitmatrix_inv ?m"
    using assms bits bitmatrix_invD [OF assms(1)] by (auto simp: bitmatrix_inv_def)
  moreover have "bitmatrix_rel ?m = insert (r, c) (bitmatrix_rel m)"
    using assms(2) by (auto simp: bitmatrix_rel_def bits split: if_splits)
  ultimately show ?thesis by auto
qed

lemma bitmatrix_contains_eq:
  assumes "bitmatrix_inv m" "r < num_rows m" "c < num_columns m"
  shows "bitmatrix_contains m r c = Some ((r, c) \<in> bitmatrix_rel m)"
proof -
  let ?n = "num_words (num_columns m)" and ?k = "c div WORD_BITS"
  have k: "?k < ?n" using assms(3) by (rule word_index_less)
  have idx: "r * ?n + ?k < length (bm_words m)"
    using row_index_less [OF assms(2) k] bitmatrix_invD(1) [OF assms(1)] by simp
  have "c \<in> bitmatrix_row m r \<longleftrightarrow> bit (bm_words m ! (r * ?n + ?k)) (c mod WORD_BITS)"
    using row_words_nth [OF assms(2) bitmatrix_invD(1) [OF assms(1)] k] assms(2) bitmatrix_invD(1) [OF assms(1)] k
    by (simp add: bitmatrix_row_def mem_bits_iff)
  with assms(2,3) idx show ?thesis
    by (simp add: bitmatrix_contains_def bitmatrix_rel_def and_mask_nonzero)
qed


section \<open>Or-ing words into a row\<close>

text \<open>The words after \<open>k\<close> rounds of a loop that ors the words \<open>D\<close> into the words from \<open>s\<close> on.\<close>

definition or_prefix :: "nat \<Rightarrow> u64 list \<Rightarrow> u64 list \<Rightarrow> nat \<Rightarrow> u64 list" where
  "or_prefix s D ws k = map (\<lambda>j. if s \<le> j \<and> j < s + k then ws ! j OR D ! (j - s) else ws ! j) [0..<length ws]"

lemma or_prefix_length [simp]: "length (or_prefix s D ws k) = length ws"
  by (simp add: or_prefix_def)

lemma or_prefix_nth: "j < length ws \<Longrightarrow>
    or_prefix s D ws k ! j = (if s \<le> j \<and> j < s + k then ws ! j OR D ! (j - s) else ws ! j)"
  by (simp add: or_prefix_def)

lemma or_prefix_0 [simp]: "or_prefix s D ws 0 = ws"
  by (rule nth_equalityI) (auto simp: or_prefix_nth)

lemma or_prefix_Suc:
  "s + k < length ws \<Longrightarrow> or_prefix s D ws (Suc k) = (or_prefix s D ws k)[s + k := ws ! (s + k) OR D ! k]"
  by (rule nth_equalityI) (auto simp: or_prefix_nth nth_list_update less_Suc_eq)

lemma or_prefix_Suc_eq:
  assumes "s + k < length ws"
  shows "or_prefix s D ws (Suc k) = ws \<longleftrightarrow> or_prefix s D ws k = ws \<and> ws ! (s + k) OR D ! k = ws ! (s + k)"
proof
  assume eq: "or_prefix s D ws (Suc k) = ws"
  have "or_prefix s D ws k ! j = ws ! j" if "j < length ws" for j
    using arg_cong [OF eq, of "\<lambda>l. l ! j"] that by (auto simp: or_prefix_nth)
  then have "or_prefix s D ws k = ws" by (intro nth_equalityI) simp_all
  moreover have "ws ! (s + k) OR D ! k = ws ! (s + k)"
    using arg_cong [OF eq, of "\<lambda>l. l ! (s + k)"] assms by (simp add: or_prefix_nth)
  ultimately show "or_prefix s D ws k = ws \<and> ws ! (s + k) OR D ! k = ws ! (s + k)" by blast
qed (use assms in \<open>simp add: or_prefix_Suc\<close>)

lemma or_loop:
  assumes "s + n \<le> length ws"
    and step: "\<And>k ch. k < n \<Longrightarrow> f (a + k, s + k) (ch, or_prefix s D ws k) =
      Some (ch \<or> ws ! (s + k) \<noteq> ws ! (s + k) OR D ! k, or_prefix s D ws (Suc k))"
  shows "for_each f (zip [a..<a + n] [s..<s + n]) (False, ws) = Some (or_prefix s D ws n \<noteq> ws, or_prefix s D ws n)"
proof -
  let ?I = "\<lambda>k (ch, vs). vs = or_prefix s D ws k \<and> ch = (vs \<noteq> ws)"
  have "\<exists>r. for_each f (zip [a..<a + n] [s..<s + n]) (False, ws) = Some r \<and>
      ?I (length (zip [a..<a + n] [s..<s + n])) r"
  proof (rule for_each_rule [where I = "\<lambda>ys. ?I (length ys)"])
    fix ys y zs r
    assume split: "zip [a..<a + n] [s..<s + n] = ys @ y # zs" and I: "?I (length ys) r"
    define k where "k = length ys"
    have k: "k < n" using arg_cong [OF split, of length] by (simp add: k_def)
    have y: "y = (a + k, s + k)" using arg_cong [OF split, of "\<lambda>l. l ! k"] k by (simp add: k_def)
    have "s + k < length ws" using assms(1) k by linarith
    from or_prefix_Suc_eq [OF this, of D] step [OF k] I
    show "\<exists>r'. f y r = Some r' \<and> ?I (length (ys @ [y])) r'"
      by (cases r) (auto simp: y k_def [symmetric])
  qed simp
  then show ?thesis by auto
qed

lemma or_prefix_row:
  assumes "w < rows" "length ws = rows * n" "q < rows" "length D = n"
  shows "row_words n (or_prefix (w * n) D ws n) q = (if q = w then map2 (OR) (row_words n ws w) D else row_words n ws q)"
proof (rule nth_equalityI)
  show "length (row_words n (or_prefix (w * n) D ws n) q) =
      length (if q = w then map2 (OR) (row_words n ws w) D else row_words n ws q)"
    using assms by simp
  fix j assume "j < length (row_words n (or_prefix (w * n) D ws n) q)"
  then have j: "j < n" using assms by simp
  have less: "q * n + j < length ws" using row_index_less [OF assms(3) j] assms(2) by simp
  have "w * n \<le> q * n + j \<and> q * n + j < w * n + n \<longleftrightarrow> q = w"
  proof -
    have "q < w \<Longrightarrow> q * n + j < w * n" using row_index_less [of q w, OF _ j] .
    moreover have "w < q \<Longrightarrow> w * n + n \<le> q * n" using mult_le_mono1 [of "Suc w" q n] by simp
    ultimately show ?thesis using j by (cases q w rule: linorder_cases) auto
  qed
  with less assms j show "row_words n (or_prefix (w * n) D ws n) q ! j =
      (if q = w then map2 (OR) (row_words n ws w) D else row_words n ws q) ! j"
    by (simp add: row_words_nth or_prefix_nth)
qed

text \<open>What it means for the matrix: row \<open>w\<close> gains the elements of \<open>D\<close>, and the matrix changes iff it does.\<close>

lemma bitmatrix_or_row:
  assumes m: "bitmatrix_inv m" and w: "w < num_rows m" and D: "length D = num_words (num_columns m)"
    "bits D \<subseteq> {..<num_columns m}"
  defines "m' \<equiv> m\<lparr>bm_words := or_prefix (w * num_words (num_columns m)) D (bm_words m) (num_words (num_columns m))\<rparr>"
  shows "bitmatrix_inv m'" and "bitmatrix_rel m' = bitmatrix_rel m \<union> {w} \<times> bits D"
    and "bm_words m' = bm_words m \<longleftrightarrow> bitmatrix_rel m' = bitmatrix_rel m"
proof -
  let ?n = "num_words (num_columns m)"
  note len = bitmatrix_invD(1) [OF m]
  have rows: "row_words ?n (bm_words m') q =
      (if q = w then map2 (OR) (row_words ?n (bm_words m) w) D else row_words ?n (bm_words m) q)"
    if "q < num_rows m" for q
    using or_prefix_row [OF w len that D(1)] by (simp add: m'_def)
  have lens: "length (row_words ?n (bm_words m) w) = length D" using len w D(1) by simp
  have "bits (map2 (OR) (row_words ?n (bm_words m) w) D) = bits (row_words ?n (bm_words m) w) \<union> bits D"
    using bits_map2 [where f = "(OR)" and P = "(\<or>)", OF lens]
    by (auto simp: bit_or_iff lens dest: mem_bits_iff [THEN iffD1])
  then have row: "bitmatrix_row m' q = (if q = w then bitmatrix_row m w \<union> bits D else bitmatrix_row m q)"
    if "q < num_rows m" for q
    using rows [OF that] by (simp add: bitmatrix_row_def m'_def)
  show "bitmatrix_inv m'"
    using m row D(2) bitmatrix_invD(2) [OF m] w by (auto simp: bitmatrix_inv_def m'_def split: if_splits)
  have rows_eq: "num_rows m' = num_rows m" by (simp add: m'_def)
  show rel: "bitmatrix_rel m' = bitmatrix_rel m \<union> {w} \<times> bits D"
    using row w by (auto simp: bitmatrix_rel_def rows_eq split: if_splits)
  have "bm_words m' = bm_words m \<longleftrightarrow> bits D \<subseteq> bitmatrix_row m w"
  proof
    assume "bm_words m' = bm_words m"
    with row [OF w] show "bits D \<subseteq> bitmatrix_row m w" by (auto simp: bitmatrix_row_def m'_def)
  next
    assume sub: "bits D \<subseteq> bitmatrix_row m w"
    have same: "row_words ?n (bm_words m') q = row_words ?n (bm_words m) q" if "q < num_rows m" for q
    proof -
      have "bits (row_words ?n (bm_words m') q) = bits (row_words ?n (bm_words m) q)"
        using row [OF that] sub by (auto simp: bitmatrix_row_def m'_def split: if_splits)
      then show ?thesis using that len by (subst (asm) bits_eq_iff) (simp_all add: m'_def)
    qed
    show "bm_words m' = bm_words m"
    proof (rule nth_equalityI)
      fix i assume "i < length (bm_words m')"
      then have i: "i < num_rows m * ?n" using len by (simp add: m'_def)
      then have "i div ?n < num_rows m" "i mod ?n < ?n"
        by (simp_all add: less_mult_imp_div_less) (metis gr_zeroI less_nat_zero_code mod_less_divisor mult_0_right)
      with same [of "i div ?n"] row_words_nth [of "i div ?n" "num_rows m" "bm_words m" ?n "i mod ?n"]
        row_words_nth [of "i div ?n" "num_rows m" "bm_words m'" ?n "i mod ?n"] len
      show "bm_words m' ! i = bm_words m ! i" by (simp add: m'_def)
    qed (simp add: m'_def)
  qed
  then show "bm_words m' = bm_words m \<longleftrightarrow> bitmatrix_rel m' = bitmatrix_rel m"
    unfolding rel using w by (auto simp: bitmatrix_rel_def)
qed

lemma bitmatrix_row_words:
  assumes "bitmatrix_inv m" "r < num_rows m"
  shows "length (row_words (num_words (num_columns m)) (bm_words m) r) = num_words (num_columns m)"
    and "bits (row_words (num_words (num_columns m)) (bm_words m) r) \<subseteq> {..<num_columns m}"
  using assms bitmatrix_invD [OF assms(1)] by (auto simp: bitmatrix_row_def)

lemma row_end_le: "r < k \<Longrightarrow> r * n + n \<le> k * n" for r k n :: nat
  using mult_le_mono1 [of "Suc r" k n] by simp

lemma bitmatrix_union_rows_ok:
  assumes m: "bitmatrix_inv m" and r: "r < num_rows m" and w: "w < num_rows m"
  shows "\<exists>m'. bitmatrix_union_rows m r w = Some (bitmatrix_rel m' \<noteq> bitmatrix_rel m, m') \<and> bitmatrix_inv m' \<and>
      num_rows m' = num_rows m \<and> num_columns m' = num_columns m \<and>
      bitmatrix_rel m' = bitmatrix_rel m \<union> {w} \<times> (bitmatrix_rel m `` {r})"
proof -
  let ?n = "num_words (num_columns m)" and ?ws = "bm_words m"
  let ?D = "row_words ?n ?ws r"
  let ?vs = "or_prefix (w * ?n) ?D ?ws ?n"
  let ?f = "\<lambda>(read_index, write_index) (changed, ws). do {
         word \<leftarrow> index_at ws write_index;
         r \<leftarrow> index_at ws read_index;
         let new_word = word OR r;
         ws \<leftarrow> store_at ws write_index new_word;
         Some (changed \<or> word \<noteq> new_word, ws)
       }"
  note len = bitmatrix_invD(1) [OF m]
  have loop: "for_each ?f (zip [r * ?n..<r * ?n + ?n] [w * ?n..<w * ?n + ?n]) (False, ?ws) = Some (?vs \<noteq> ?ws, ?vs)"
  proof (rule or_loop)
    show "w * ?n + ?n \<le> length ?ws" using row_end_le [OF w] len by simp
    fix k ch assume k: "k < ?n"
    have less: "w * ?n + k < length ?ws" "r * ?n + k < length ?ws"
      using row_index_less [OF w k] row_index_less [OF r k] len by simp_all
    have "\<not> (w * ?n \<le> r * ?n + k \<and> r * ?n + k < w * ?n + k)"
    proof -
      have "r < w \<Longrightarrow> r * ?n + k < w * ?n" using row_index_less [of r w, OF _ k] .
      then show ?thesis using mult_le_mono1 [of w r ?n] by (cases "r < w") auto
    qed
    then have "or_prefix (w * ?n) ?D ?ws k ! (r * ?n + k) = ?D ! k"
      unfolding or_prefix_nth [OF less(2)] row_words_nth [OF r len k] by (rule if_not_P)
    moreover have "or_prefix (w * ?n) ?D ?ws k ! (w * ?n + k) = ?ws ! (w * ?n + k)"
      using less by (simp add: or_prefix_nth)
    ultimately show "?f (r * ?n + k, w * ?n + k) (ch, or_prefix (w * ?n) ?D ?ws k) =
        Some (ch \<or> ?ws ! (w * ?n + k) \<noteq> ?ws ! (w * ?n + k) OR ?D ! k, or_prefix (w * ?n) ?D ?ws (Suc k))"
      using less by (simp add: or_prefix_Suc Let_def)
  qed
  note or_row = bitmatrix_or_row [OF m w bitmatrix_row_words [OF m r]]
  have "bits ?D = bitmatrix_rel m `` {r}" using r by (auto simp: bitmatrix_rel_def bitmatrix_row_def)
  moreover have "bitmatrix_union_rows m r w = Some (?vs \<noteq> ?ws, m\<lparr>bm_words := ?vs\<rparr>)"
    using r w loop by (simp add: bitmatrix_union_rows_def)
  ultimately show ?thesis using or_row by auto
qed

lemma bitmatrix_union_row_with_ok:
  assumes m: "bitmatrix_inv m" and w: "w < num_rows m" and s: "bitset_inv s" "domain_size s = num_columns m"
  shows "\<exists>m'. bitmatrix_union_row_with m s w = Some (bitmatrix_rel m' \<noteq> bitmatrix_rel m, m') \<and> bitmatrix_inv m' \<and>
      num_rows m' = num_rows m \<and> num_columns m' = num_columns m \<and>
      bitmatrix_rel m' = bitmatrix_rel m \<union> {w} \<times> bitset_elems s"
proof -
  let ?n = "num_words (num_columns m)" and ?ws = "bm_words m" and ?D = "words s"
  let ?vs = "or_prefix (w * ?n) ?D ?ws ?n"
  let ?f = "\<lambda>(read_index, write_index) (changed, ws). do {
         word \<leftarrow> index_at ws write_index;
         r \<leftarrow> index_at (words s) read_index;
         let new_word = word OR r;
         ws \<leftarrow> store_at ws write_index new_word;
         Some (changed \<or> word \<noteq> new_word, ws)
       }"
  note len = bitmatrix_invD(1) [OF m]
  have lenD: "length ?D = ?n" and D: "bits ?D \<subseteq> {..<num_columns m}"
    using bitset_invD(1,2) [OF s(1)] s(2) by simp_all
  have loop: "for_each ?f (zip [0..<0 + ?n] [w * ?n..<w * ?n + ?n]) (False, ?ws) = Some (?vs \<noteq> ?ws, ?vs)"
  proof (rule or_loop)
    show "w * ?n + ?n \<le> length ?ws" using row_end_le [OF w] len by simp
    fix k ch assume k: "k < ?n"
    have less: "w * ?n + k < length ?ws" using row_index_less [OF w k] len by simp
    then show "?f (0 + k, w * ?n + k) (ch, or_prefix (w * ?n) ?D ?ws k) =
        Some (ch \<or> ?ws ! (w * ?n + k) \<noteq> ?ws ! (w * ?n + k) OR ?D ! k, or_prefix (w * ?n) ?D ?ws (Suc k))"
      using k lenD by (simp add: or_prefix_nth or_prefix_Suc Let_def)
  qed
  then have "bitmatrix_union_row_with m s w = Some (?vs \<noteq> ?ws, m\<lparr>bm_words := ?vs\<rparr>)"
    using w s(2) lenD by (simp add: bitmatrix_union_row_with_def)
  with bitmatrix_or_row [OF m w lenD D] show ?thesis by auto
qed

interpretation dense_matrix: bit_relation bitmatrix_rel bitmatrix_inv
  "\<lambda>m r. r < num_rows m" "\<lambda>m c. c < num_columns m" bitmatrix_contains bitmatrix_insert bitmatrix_union_rows
proof unfold_locales
  fix m r c
  assume m: "bitmatrix_inv m" and r: "r < num_rows m"
  show "c < num_columns m \<Longrightarrow> bitmatrix_contains m r c = Some ((r, c) \<in> bitmatrix_rel m)"
    using bitmatrix_contains_eq [OF m r] .
  show "\<exists>m'. bitmatrix_insert m r c = Some ((r, c) \<notin> bitmatrix_rel m, m') \<and> bitmatrix_inv m' \<and>
      (\<lambda>r. r < num_rows m') = (\<lambda>r. r < num_rows m) \<and> (\<lambda>c. c < num_columns m') = (\<lambda>c. c < num_columns m) \<and>
      bitmatrix_rel m' = insert (r, c) (bitmatrix_rel m)" if "c < num_columns m"
    using bitmatrix_insert_ok [OF m r that] by auto
  show "\<exists>m'. bitmatrix_union_rows m r w = Some (bitmatrix_rel m' \<noteq> bitmatrix_rel m, m') \<and> bitmatrix_inv m' \<and>
      (\<lambda>r. r < num_rows m') = (\<lambda>r. r < num_rows m) \<and> (\<lambda>c. c < num_columns m') = (\<lambda>c. c < num_columns m) \<and>
      bitmatrix_rel m' = bitmatrix_rel m \<union> {w} \<times> (bitmatrix_rel m `` {r})" if "w < num_rows m" for w
    using bitmatrix_union_rows_ok [OF m r that] by auto
qed


section \<open>Whole rows\<close>

lemma bitmatrix_iter_spec:
  assumes "bitmatrix_inv m" "r < num_rows m"
  shows "map_option bit_iter_collect (bitmatrix_iter m r) = Some (sorted_list_of_set (bitmatrix_rel m `` {r}))"
proof -
  let ?n = "num_words (num_columns m)"
  have "r * ?n + ?n \<le> length (bm_words m)" using row_end_le [OF assms(2)] bitmatrix_invD(1) [OF assms(1)] by simp
  then have "bitmatrix_iter m r = Some (bit_iter_new (row_words ?n (bm_words m) r))"
    using assms(2) by (simp add: bitmatrix_iter_def row_words_def)
  moreover have "WORD_BITS * length (row_words ?n (bm_words m) r) \<le> 2 ^ 64"
    using bitmatrix_row_words(1) [OF assms] num_words_bounds(2) [of "num_columns m"] bitmatrix_invD(3) [OF assms(1)]
    by (simp add: WORD_BITS_def)
  moreover have "bits (row_words ?n (bm_words m) r) = bitmatrix_rel m `` {r}"
    using assms(2) by (auto simp: bitmatrix_rel_def bitmatrix_row_def)
  ultimately show ?thesis by (simp add: bit_iter_new_collect)
qed

lemma bitmatrix_count_spec:
  assumes "bitmatrix_inv m" "r < num_rows m"
  shows "bitmatrix_count m r = Some (card (bitmatrix_rel m `` {r}))"
proof -
  let ?n = "num_words (num_columns m)"
  have "r * ?n + ?n \<le> length (bm_words m)" using row_end_le [OF assms(2)] bitmatrix_invD(1) [OF assms(1)] by simp
  then have "bitmatrix_count m r = Some (card (bits (row_words ?n (bm_words m) r)))"
    by (simp add: bitmatrix_count_def row_words_def card_bits)
  moreover have "bits (row_words ?n (bm_words m) r) = bitmatrix_rel m `` {r}"
    using assms(2) by (auto simp: bitmatrix_rel_def bitmatrix_row_def)
  ultimately show ?thesis by simp
qed

lemma scan_word_eq:
  "(\<And>i. bit v i \<Longrightarrow> i < n) \<Longrightarrow>
   scan_word base v [b..<b + n] = map (\<lambda>i. base * WORD_BITS + b + i) (filter (bit v) [0..<n])"
proof (induction n arbitrary: v b)
  case (Suc n)
  have split: "[0..<Suc n] = 0 # map Suc [0..<n]" by (simp add: upt_conv_Cons map_Suc_upt del: upt_Suc)
  have shift: "filter (bit v) (map Suc [0..<n]) = map Suc (filter (bit (drop_bit 1 v)) [0..<n])"
    by (simp add: filter_map comp_def bit_drop_bit_eq)
  have "v AND 1 \<noteq> 0 \<longleftrightarrow> bit v 0" by (auto simp: word_nonzero_bit bit_and_iff bit_1_iff)
  moreover have "scan_word base (drop_bit 1 v) [Suc b..<Suc b + n] =
      map (\<lambda>i. base * WORD_BITS + Suc b + i) (filter (bit (drop_bit 1 v)) [0..<n])"
    by (rule Suc.IH) (use Suc.prems in \<open>auto simp: bit_drop_bit_eq\<close>)
  moreover have "[b..<b + Suc n] = b # [Suc b..<Suc b + n]" by (simp add: upt_conv_Cons del: upt_Suc)
  ultimately show ?case
    by (cases "v = 0") (simp_all add: split shift comp_def del: upt_Suc)
qed simp

lemma scan_word_all: "scan_word base v [0..<WORD_BITS] = map ((+) (base * WORD_BITS)) (filter (bit v) [0..<WORD_BITS])"
  using scan_word_eq [of v WORD_BITS base 0] bit_less_WORD_BITS by simp

lemma filter_bit_sorted: "filter (bit v) [0..<WORD_BITS] = sorted_list_of_set {i. bit v i}" for v :: u64
proof -
  have "set (filter (bit v) [0..<WORD_BITS]) = {i. bit v i}" by (auto dest: bit_less_WORD_BITS)
  then show ?thesis
    by (metis sorted_list_of_set.idem_if_sorted_distinct sorted_wrt_filter distinct_filter distinct_upt sorted_upt)
qed

lemma intersect_words_eq:
  assumes "a + n \<le> length ws" "b + n \<le> length ws"
  shows "intersect_words ws base (zip [a..<a + n] [b..<b + n]) =
    Some (map ((+) (base * WORD_BITS))
      (sorted_list_of_set (bits (map (\<lambda>k. ws ! (a + k) AND ws ! (b + k)) [0..<n]))))"
  using assms
proof (induction n arbitrary: a b base)
  case (Suc n)
  have split: "[0..<Suc n] = 0 # map Suc [0..<n]" by (simp add: upt_conv_Cons map_Suc_upt del: upt_Suc)
  have "[a..<a + Suc n] = a # [Suc a..<Suc a + n]" "[b..<b + Suc n] = b # [Suc b..<Suc b + n]"
    by (simp_all add: upt_conv_Cons del: upt_Suc)
  with Suc.IH [of "Suc a" "Suc b" "base + 1"] Suc.prems show ?case
    by (simp add: split scan_word_all filter_bit_sorted sorted_bits_Cons comp_def del: upt_Suc)
qed simp

lemma bitmatrix_intersect_rows_spec:
  assumes m: "bitmatrix_inv m" and r: "r < num_rows m" and q: "q < num_rows m"
  shows "bitmatrix_intersect_rows m r q =
    Some (sorted_list_of_set (bitmatrix_rel m `` {r} \<inter> bitmatrix_rel m `` {q}))"
proof -
  let ?n = "num_words (num_columns m)" and ?ws = "bm_words m"
  let ?vs = "map (\<lambda>k. ?ws ! (r * ?n + k) AND ?ws ! (q * ?n + k)) [0..<?n]"
  note len = bitmatrix_invD(1) [OF m]
  have vs: "?vs = map2 (AND) (row_words ?n ?ws r) (row_words ?n ?ws q)"
    using len r q row_words_nth [OF r len] row_words_nth [OF q len] by (intro nth_equalityI) simp_all
  have "bitmatrix_intersect_rows m r q = Some (map ((+) (0 * WORD_BITS)) (sorted_list_of_set (bits ?vs)))"
    using intersect_words_eq [of "r * ?n" ?n ?ws "q * ?n" 0] row_end_le [OF r, of ?n] row_end_le [OF q, of ?n] len r q
    by (simp add: bitmatrix_intersect_rows_def)
  then have "bitmatrix_intersect_rows m r q = Some (sorted_list_of_set (bits ?vs))"
    by (simp add: map_idI)
  also have "bits ?vs = bitmatrix_rel m `` {r} \<inter> bitmatrix_rel m `` {q}"
    unfolding vs using r q len by (auto simp: bitmatrix_rel_def bitmatrix_row_def mem_bits_iff bit_and_iff)
  finally show ?thesis .
qed

lemma bitmatrix_from_row_n_spec:
  assumes "bitset_inv s"
  shows "\<exists>m. bitmatrix_from_row_n s rows = Some m \<and> bitmatrix_inv m \<and> num_rows m = rows \<and>
      num_columns m = domain_size s \<and> bitmatrix_rel m = {..<rows} \<times> bitset_elems s"
proof -
  let ?n = "num_words (domain_size s)"
  have len: "length (words s) = ?n" using bitset_invD(1) [OF assms] .
  have "row_words ?n (concat (replicate k (words s))) r = words s" if "r < k" for r k
    using that
  proof (induction k arbitrary: r)
    case (Suc k)
    then show ?case using len by (cases r) (simp_all add: row_words_def)
  qed simp
  moreover have "length (concat (replicate rows (words s))) = rows * ?n"
    using len by (simp add: length_concat sum_list_replicate)
  ultimately show ?thesis
    using bitset_invD(2,3) [OF assms] len
    by (auto simp: bitmatrix_from_row_n_def bitmatrix_inv_def bitmatrix_rel_def bitmatrix_row_def)
qed

lemma clear_excess_append:
  "row \<noteq> [] \<or> d mod WORD_BITS = 0 \<Longrightarrow>
   clear_excess_bits_in_final_word d (p @ row) = map_option ((@) p) (clear_excess_bits_in_final_word d row)"
  by (cases row rule: rev_cases)
     (auto simp: clear_excess_bits_in_final_word_def nth_append list_update_append Let_def checked_sub_def)

lemma fill_row:
  assumes "a + n \<le> length ws"
  shows "for_range a (a + n) (\<lambda>i ws. store_at ws i v) ws = Some (take a ws @ replicate n v @ drop (a + n) ws)"
  using assms
proof (induction n)
  case (Suc n)
  let ?vs = "take a ws @ replicate n v @ drop (a + n) ws"
  have tail: "drop (a + n) ws = ws ! (a + n) # drop (a + Suc n) ws" using Suc.prems by (simp add: Cons_nth_drop_Suc)
  have "?vs[a + n := v] = take a ws @ replicate n v @ v # drop (a + Suc n) ws"
    using Suc.prems by (simp add: list_update_append tail)
  also have "\<dots> = take a ws @ replicate (Suc n) v @ drop (a + Suc n) ws" by (simp add: replicate_app_Cons_same)
  finally show ?case using Suc by (simp add: for_each_append)
qed simp

lemma take_drop_prefix:
  assumes "a + n \<le> b" "b \<le> length ws"
  shows "take n (drop a (take b ws @ us)) = take n (drop a ws)"
  using assms by (intro nth_equalityI) (auto simp: nth_append)

lemma bitmatrix_insert_all_spec:
  assumes m: "bitmatrix_inv m" and r: "r < num_rows m"
  shows "\<exists>m'. bitmatrix_insert_all_into_row m r = Some m' \<and> bitmatrix_inv m' \<and>
      num_rows m' = num_rows m \<and> num_columns m' = num_columns m \<and>
      bitmatrix_rel m' = bitmatrix_rel m \<union> {r} \<times> {..<num_columns m}"
proof -
  let ?d = "num_columns m" and ?ws = "bm_words m"
  let ?n = "num_words ?d"
  let ?row = "replicate ?n (- 1) :: u64 list"
  note len = bitmatrix_invD(1) [OF m]
  have le: "r * ?n + ?n \<le> length ?ws" using row_end_le [OF r] len by simp
  have "{..<WORD_BITS * ?n} \<inter> {..<?d} = {..<?d}" using num_words_bounds(1) [of ?d] by auto
  then obtain us where us: "clear_excess_bits_in_final_word ?d ?row = Some us" "length us = ?n" "bits us = {..<?d}"
    using clear_excess_bits [of ?row ?d] by auto
  let ?vs = "take (r * ?n) ?ws @ us @ drop (r * ?n + ?n) ?ws"
  have "?row \<noteq> [] \<or> ?d mod WORD_BITS = 0" by (cases "?d = 0") simp_all
  then have "bitmatrix_insert_all_into_row m r = Some (m\<lparr>bm_words := ?vs\<rparr>)"
    using r le us(1) fill_row [OF le, of "- 1"] clear_excess_append [of ?row ?d "take (r * ?n) ?ws"]
    by (simp add: bitmatrix_insert_all_into_row_def)
  moreover have "row_words ?n ?vs q = (if q = r then us else row_words ?n ?ws q)" if "q < num_rows m" for q
  proof -
    consider "q = r" | "r < q" | "q < r" by linarith
    then show ?thesis
    proof cases
      case 1
      then show ?thesis using le us(2) by (simp add: row_words_def)
    next
      case 2
      then have "r * ?n + ?n \<le> q * ?n" using row_end_le by blast
      then show ?thesis using 2 le us(2) by (simp add: row_words_def)
    next
      case 3
      then have "q * ?n + ?n \<le> r * ?n" using row_end_le by blast
      then show ?thesis using 3 take_drop_prefix [of "q * ?n" ?n "r * ?n" ?ws] le by (simp add: row_words_def)
    qed
  qed
  then have row: "bitmatrix_row (m\<lparr>bm_words := ?vs\<rparr>) q = (if q = r then {..<?d} else bitmatrix_row m q)"
    if "q < num_rows m" for q
    using that us(3) by (simp add: bitmatrix_row_def)
  have "bitmatrix_inv (m\<lparr>bm_words := ?vs\<rparr>)"
    using m row bitmatrix_invD(2) [OF m] len le us(2) by (simp add: bitmatrix_inv_def)
  moreover have "bitmatrix_rel (m\<lparr>bm_words := ?vs\<rparr>) = bitmatrix_rel m \<union> {r} \<times> {..<?d}"
    using row r bitmatrix_invD(2) [OF m r] by (auto simp: bitmatrix_rel_def split: if_splits)
  ultimately show ?thesis by auto
qed


section \<open>The sparse matrix is a relation\<close>

lemma index_vec_pick2_eq:
  "a \<noteq> b \<Longrightarrow> a < length v \<Longrightarrow> b < length v \<Longrightarrow> index_vec_pick2 v a b = Some (v ! a, v ! b)"
  by (subst index_vec_pick2.simps, subst index_vec_pick2.simps)
     (auto simp: not_less_iff_gr_or_eq hd_drop_conv_nth)

lemma index_vec_pick2_same: "index_vec_pick2 v a a = None"
  by (subst index_vec_pick2.simps) simp

lemma ensure_contains_elem_spec:
  "length (ensure_contains_elem v i x) = max (length v) (i + 1)"
  "j < length v \<Longrightarrow> ensure_contains_elem v i x ! j = v ! j"
  "length v \<le> j \<Longrightarrow> j \<le> i \<Longrightarrow> ensure_contains_elem v i x ! j = x"
  by (auto simp: ensure_contains_elem_def resize_with_def Let_def nth_append max_def)

text \<open>An index vector of optional values is a map: what the slots hold, \<open>None\<close> past the end.\<close>

definition index_vec_map :: "'a option index_vec \<Rightarrow> nat \<Rightarrow> 'a option" where
  "index_vec_map v i = (if i < length v then v ! i else None)"

lemma index_vec_map_ensure [simp]: "index_vec_map (ensure_contains_elem v i None) = index_vec_map v"
  by (rule ext) (auto simp: index_vec_map_def ensure_contains_elem_spec max_def not_less)

lemma index_vec_map_store [simp]: "i < length v \<Longrightarrow> index_vec_map (v[i := x]) = (index_vec_map v)(i := x)"
  by (rule ext) (auto simp: index_vec_map_def nth_list_update)

lemma ensure_contains_elem_slot [simp]:
  "i < length (ensure_contains_elem v i None)" "ensure_contains_elem v i None ! i = index_vec_map v i"
  by (cases "i < length v") (auto simp: ensure_contains_elem_spec index_vec_map_def)

lemma index_vec_insert_spec:
  "\<exists>v'. index_vec_insert v i x = Some (index_vec_map v i, v') \<and> index_vec_map v' = (index_vec_map v)(i \<mapsto> x)"
  by (simp add: index_vec_insert_def Let_def)

lemma index_vec_remove_spec:
  "\<exists>v'. index_vec_remove v i = Some (index_vec_map v i, v') \<and> index_vec_map v' = (index_vec_map v)(i := None)"
  by (simp add: index_vec_remove_def Let_def)

lemma index_vec_get_or_insert_with_spec:
  "\<exists>v'. index_vec_get_or_insert_with v i x =
      Some (case index_vec_map v i of Some y \<Rightarrow> y | None \<Rightarrow> x, v') \<and> i < length v' \<and>
      index_vec_map v' = (case index_vec_map v i of Some _ \<Rightarrow> index_vec_map v | None \<Rightarrow> (index_vec_map v)(i \<mapsto> x))"
  by (cases "index_vec_map v i") (simp_all add: index_vec_get_or_insert_with_def Let_def)

lemma spmatrix_row_map: "spmatrix_row m = index_vec_map (sm_rows m)"
  by (rule ext) (simp add: spmatrix_row_def index_vec_get_def index_vec_map_def)

definition spmatrix_inv :: "sparse_bit_matrix \<Rightarrow> bool" where
  "spmatrix_inv m \<longleftrightarrow> sm_num_columns m \<le> MAX_DOMAIN \<and>
     (\<forall>r h. spmatrix_row m r = Some h \<longrightarrow> hybrid_inv h \<and> hybrid_domain_size h = sm_num_columns m)"

definition spmatrix_rel :: "sparse_bit_matrix \<Rightarrow> (nat \<times> nat) set" where
  "spmatrix_rel m = {(r, c). \<exists>h. spmatrix_row m r = Some h \<and> c \<in> hybrid_elems h}"

lemma spmatrix_new_spec: "c \<le> MAX_DOMAIN \<Longrightarrow> spmatrix_inv (spmatrix_new c) \<and> spmatrix_rel (spmatrix_new c) = {}"
  by (simp add: spmatrix_new_def spmatrix_inv_def spmatrix_rel_def spmatrix_row_map index_vec_map_def)

lemma spmatrix_ensure_row_spec:
  assumes "spmatrix_inv m"
  shows "\<exists>h m'. spmatrix_ensure_row m r = Some (h, m') \<and> spmatrix_inv m' \<and> spmatrix_rel m' = spmatrix_rel m \<and>
      sm_num_columns m' = sm_num_columns m \<and> r < length (sm_rows m') \<and> spmatrix_row m' r = Some h \<and>
      (\<forall>q. q \<noteq> r \<longrightarrow> spmatrix_row m' q = spmatrix_row m q)"
proof -
  let ?e = "hybrid_new_empty (sm_num_columns m)"
  obtain v where v: "index_vec_get_or_insert_with (sm_rows m) r ?e =
        Some (case spmatrix_row m r of Some y \<Rightarrow> y | None \<Rightarrow> ?e, v)" "r < length v"
      "index_vec_map v = (case spmatrix_row m r of Some _ \<Rightarrow> spmatrix_row m | None \<Rightarrow> (spmatrix_row m)(r \<mapsto> ?e))"
    using index_vec_get_or_insert_with_spec [of "sm_rows m" r ?e] unfolding spmatrix_row_map by blast
  let ?m = "m\<lparr>sm_rows := v\<rparr>"
  have row: "spmatrix_row ?m = (case spmatrix_row m r of Some _ \<Rightarrow> spmatrix_row m | None \<Rightarrow> (spmatrix_row m)(r \<mapsto> ?e))"
    using v(3) by (simp add: spmatrix_row_map)
  have "spmatrix_inv ?m \<and> spmatrix_rel ?m = spmatrix_rel m"
  proof (cases "spmatrix_row m r")
    case None
    with assms row show ?thesis
      by (auto simp: spmatrix_inv_def spmatrix_rel_def split: if_splits)
  qed (use assms row in \<open>simp add: spmatrix_inv_def spmatrix_rel_def\<close>)
  then show ?thesis using v(1,2) row by (cases "spmatrix_row m r") (auto simp: spmatrix_ensure_row_def)
qed

text \<open>The relation with row \<open>r\<close> replaced by the set \<open>C\<close>.\<close>

definition with_row :: "(nat \<times> nat) set \<Rightarrow> nat \<Rightarrow> nat set \<Rightarrow> (nat \<times> nat) set" where
  "with_row R r C = {(q, c). if q = r then c \<in> C else (q, c) \<in> R}"

lemma with_row_eq: "with_row R r C = R \<longleftrightarrow> R `` {r} = C"
  by (auto simp: with_row_def split: if_splits)

lemma spmatrix_rel_row: "spmatrix_row m r = Some h \<Longrightarrow> spmatrix_rel m `` {r} = hybrid_elems h"
  by (auto simp: spmatrix_rel_def)

lemma spmatrix_set_row_spec:
  assumes "spmatrix_inv m" "r < length (sm_rows m)" "hybrid_inv h" "hybrid_domain_size h = sm_num_columns m"
  shows "\<exists>m'. spmatrix_set_row m r h = Some m' \<and> spmatrix_inv m' \<and> sm_num_columns m' = sm_num_columns m \<and>
      spmatrix_rel m' = with_row (spmatrix_rel m) r (hybrid_elems h)"
proof -
  let ?m = "m\<lparr>sm_rows := (sm_rows m)[r := Some h]\<rparr>"
  have "spmatrix_row ?m = (spmatrix_row m)(r \<mapsto> h)" using assms(2) by (simp add: spmatrix_row_map)
  with assms show ?thesis
    by (auto simp: spmatrix_set_row_def spmatrix_inv_def spmatrix_rel_def with_row_def split: if_splits)
qed

lemma spmatrix_update_row_spec:
  assumes m: "spmatrix_inv m"
    and upd: "\<And>h. hybrid_inv h \<Longrightarrow> hybrid_domain_size h = sm_num_columns m \<Longrightarrow> hybrid_rel f B h (upd h)"
  shows "\<exists>m'. spmatrix_update_row m r upd = Some (spmatrix_rel m' \<noteq> spmatrix_rel m, m') \<and> spmatrix_inv m' \<and>
      sm_num_columns m' = sm_num_columns m \<and>
      spmatrix_rel m' = with_row (spmatrix_rel m) r (f (spmatrix_rel m `` {r}) B)"
proof -
  obtain h m1 where m1: "spmatrix_ensure_row m r = Some (h, m1)" "spmatrix_inv m1" "spmatrix_rel m1 = spmatrix_rel m"
      "sm_num_columns m1 = sm_num_columns m" "r < length (sm_rows m1)" "spmatrix_row m1 r = Some h"
    using spmatrix_ensure_row_spec [OF m, of r] by blast
  then have h: "hybrid_inv h" "hybrid_domain_size h = sm_num_columns m" "spmatrix_rel m `` {r} = hybrid_elems h"
    using spmatrix_rel_row [OF m1(6)] by (auto simp: spmatrix_inv_def)
  obtain h' where h': "upd h = Some (hybrid_elems h' \<noteq> hybrid_elems h, h')" "hybrid_inv h'"
      "hybrid_domain_size h' = hybrid_domain_size h" "hybrid_elems h' = f (hybrid_elems h) B"
    using upd [OF h(1,2)] by (auto simp: relation_spec_def)
  obtain m' where m': "spmatrix_set_row m1 r h' = Some m'" "spmatrix_inv m'" "sm_num_columns m' = sm_num_columns m1"
      "spmatrix_rel m' = with_row (spmatrix_rel m1) r (hybrid_elems h')"
    using spmatrix_set_row_spec [OF m1(2,5) h'(2)] h'(3) h(2) m1(4) by auto
  then show ?thesis
    using m1 h h' with_row_eq [of "spmatrix_rel m" r "hybrid_elems h'"]
    by (auto simp: spmatrix_update_row_def)
qed

lemma spmatrix_update_existing_spec:
  assumes m: "spmatrix_inv m"
    and upd: "\<And>h. hybrid_inv h \<Longrightarrow> hybrid_domain_size h = sm_num_columns m \<Longrightarrow> hybrid_rel f B h (upd h)"
    and f: "f {} B = {}"
  shows "\<exists>m'. spmatrix_update_existing m r upd = Some (spmatrix_rel m' \<noteq> spmatrix_rel m, m') \<and> spmatrix_inv m' \<and>
      sm_num_columns m' = sm_num_columns m \<and>
      spmatrix_rel m' = with_row (spmatrix_rel m) r (f (spmatrix_rel m `` {r}) B)"
proof (cases "spmatrix_row m r")
  case None
  then have "spmatrix_update_existing m r upd = Some (False, m)"
    by (auto simp: spmatrix_update_existing_def spmatrix_row_def split: option.splits)
  moreover have empty: "spmatrix_rel m `` {r} = {}" using None by (auto simp: spmatrix_rel_def)
  moreover have "with_row (spmatrix_rel m) r {} = spmatrix_rel m" using empty by (simp add: with_row_eq)
  ultimately show ?thesis using m f by simp
next
  case (Some h)
  then have r: "r < length (sm_rows m)" "index_vec_get (sm_rows m) r = Some (Some h)"
    by (auto simp: spmatrix_row_def index_vec_get_def split: if_splits option.splits)
  have h: "hybrid_inv h" "hybrid_domain_size h = sm_num_columns m" "spmatrix_rel m `` {r} = hybrid_elems h"
    using m Some spmatrix_rel_row [OF Some] by (auto simp: spmatrix_inv_def)
  obtain h' where h': "upd h = Some (hybrid_elems h' \<noteq> hybrid_elems h, h')" "hybrid_inv h'"
      "hybrid_domain_size h' = hybrid_domain_size h" "hybrid_elems h' = f (hybrid_elems h) B"
    using upd [OF h(1,2)] by (auto simp: relation_spec_def)
  obtain m' where "spmatrix_set_row m r h' = Some m'" "spmatrix_inv m'" "sm_num_columns m' = sm_num_columns m"
      "spmatrix_rel m' = with_row (spmatrix_rel m) r (hybrid_elems h')"
    using spmatrix_set_row_spec [OF m r(1) h'(2)] h'(3) h(2) by auto
  then show ?thesis
    using r h h' with_row_eq [of "spmatrix_rel m" r "hybrid_elems h'"]
    by (auto simp: spmatrix_update_existing_def)
qed

lemma with_row_insert: "with_row R r (R `` {r} \<union> C) = R \<union> {r} \<times> C"
  by (auto simp: with_row_def)

context arrayvec_laws
begin

lemma hybrid_insert_rel: "hybrid_inv h \<Longrightarrow> e < hybrid_domain_size h \<Longrightarrow> hybrid_rel (\<union>) {e} h (hybrid_insert A h e)"
  using hybrid.insert_ok [of h e] by (auto simp: relation_spec_def insert_absorb)

lemma hybrid_remove_rel: "hybrid_inv h \<Longrightarrow> e < hybrid_domain_size h \<Longrightarrow> hybrid_rel (-) {e} h (hybrid_remove A h e)"
  using hybrid.remove_ok [of h e] by (auto simp: relation_spec_def)

lemma spmatrix_insert_ok:
  assumes "spmatrix_inv m" "c < sm_num_columns m"
  shows "\<exists>m'. spmatrix_insert A m r c = Some ((r, c) \<notin> spmatrix_rel m, m') \<and> spmatrix_inv m' \<and>
      sm_num_columns m' = sm_num_columns m \<and> spmatrix_rel m' = insert (r, c) (spmatrix_rel m)"
  using spmatrix_update_row_spec [OF assms(1), of "(\<union>)" "{c}" "\<lambda>h. hybrid_insert A h c" r] assms(2)
    with_row_insert [of "spmatrix_rel m" r "{c}"]
  by (auto simp: spmatrix_insert_def hybrid_insert_rel insert_absorb)

lemma spmatrix_remove_ok:
  assumes "spmatrix_inv m" "c < sm_num_columns m"
  shows "\<exists>m'. spmatrix_remove A m r c = Some ((r, c) \<in> spmatrix_rel m, m') \<and> spmatrix_inv m' \<and>
      sm_num_columns m' = sm_num_columns m \<and> spmatrix_rel m' = spmatrix_rel m - {(r, c)}"
proof -
  have "with_row (spmatrix_rel m) r (spmatrix_rel m `` {r} - {c}) = spmatrix_rel m - {(r, c)}"
    by (auto simp: with_row_def)
  with spmatrix_update_existing_spec [OF assms(1), of "(-)" "{c}" "\<lambda>h. hybrid_remove A h c" r] assms(2)
  show ?thesis by (auto simp: spmatrix_remove_def hybrid_remove_rel)
qed

lemma spmatrix_union_rows_ok:
  assumes m: "spmatrix_inv m" and c: "0 < sm_num_columns m"
  shows "\<exists>m'. spmatrix_union_rows A m read write = Some (spmatrix_rel m' \<noteq> spmatrix_rel m, m') \<and> spmatrix_inv m' \<and>
      sm_num_columns m' = sm_num_columns m \<and>
      spmatrix_rel m' = spmatrix_rel m \<union> {write} \<times> (spmatrix_rel m `` {read})"
proof (cases "read = write \<or> spmatrix_row m read = None")
  case True
  then have "spmatrix_rel m \<union> {write} \<times> (spmatrix_rel m `` {read}) = spmatrix_rel m"
    by (auto simp: spmatrix_rel_def)
  with True m show ?thesis by (simp add: spmatrix_union_rows_def)
next
  case False
  obtain h m1 where m1: "spmatrix_ensure_row m write = Some (h, m1)" "spmatrix_inv m1"
      "spmatrix_rel m1 = spmatrix_rel m" "sm_num_columns m1 = sm_num_columns m" "write < length (sm_rows m1)"
      "spmatrix_row m1 write = Some h" "\<forall>q. q \<noteq> write \<longrightarrow> spmatrix_row m1 q = spmatrix_row m q"
    using spmatrix_ensure_row_spec [OF m, of "write"] by blast
  obtain g where g: "spmatrix_row m1 read = Some g" using False m1(7) by auto
  then have "index_vec_pick2 (sm_rows m1) read write = Some (Some g, Some h)"
    using False m1(5,6) by (auto simp: index_vec_pick2_eq spmatrix_row_map index_vec_map_def split: if_splits)
  moreover have h: "hybrid_inv h" "hybrid_domain_size h = sm_num_columns m" "hybrid_inv g"
      "hybrid_domain_size g = sm_num_columns m"
    using m1(2,4,6) g by (auto simp: spmatrix_inv_def)
  moreover obtain h' where h': "hybrid_union A h g = Some (hybrid_elems h' \<noteq> hybrid_elems h, h')" "hybrid_inv h'"
      "hybrid_domain_size h' = hybrid_domain_size h" "hybrid_elems h' = hybrid_elems h \<union> hybrid_elems g"
    using hybrid_union_spec [OF h(1,3)] h(2,4) c by (auto simp: relation_spec_def)
  moreover obtain m' where m': "spmatrix_set_row m1 write h' = Some m'" "spmatrix_inv m'"
      "sm_num_columns m' = sm_num_columns m1" "spmatrix_rel m' = with_row (spmatrix_rel m1) write (hybrid_elems h')"
    using spmatrix_set_row_spec [OF m1(2,5) h'(2)] h'(3) h(2) m1(4) by auto
  ultimately have "spmatrix_union_rows A m read write = Some (hybrid_elems h' \<noteq> hybrid_elems h, m')"
    using False m1(1) by (auto simp: spmatrix_union_rows_def)
  moreover have "spmatrix_rel m' = spmatrix_rel m \<union> {write} \<times> (spmatrix_rel m `` {read})"
    using m'(4) m1(3) h'(4) spmatrix_rel_row [OF m1(6)] spmatrix_rel_row [OF g] with_row_insert by metis
  moreover have "spmatrix_rel m' \<noteq> spmatrix_rel m \<longleftrightarrow> hybrid_elems h' \<noteq> hybrid_elems h"
    using m'(4) m1(3) spmatrix_rel_row [OF m1(6)] with_row_eq by metis
  ultimately show ?thesis using m'(2,3) m1(4) by auto
qed

lemma spmatrix_contains_eq:
  assumes "spmatrix_inv m" "c < sm_num_columns m"
  shows "spmatrix_contains m r c = Some ((r, c) \<in> spmatrix_rel m)"
  using assms
  by (cases "spmatrix_row m r") (auto simp: spmatrix_contains_def spmatrix_rel_def spmatrix_inv_def hybrid_contains_eq)

end

text \<open>A row exists on demand, so every row index is in bounds; an empty column domain is the exception.\<close>

sublocale arrayvec_laws \<subseteq> sparse_matrix: bit_relation spmatrix_rel spmatrix_inv
  "\<lambda>m r. 0 < sm_num_columns m" "\<lambda>m c. c < sm_num_columns m" spmatrix_contains "spmatrix_insert A" "spmatrix_union_rows A"
proof unfold_locales
  fix m r c w
  assume m: "spmatrix_inv m"
  show "c < sm_num_columns m \<Longrightarrow> spmatrix_contains m r c = Some ((r, c) \<in> spmatrix_rel m)"
    using m by (rule spmatrix_contains_eq)
  show "\<exists>m'. spmatrix_insert A m r c = Some ((r, c) \<notin> spmatrix_rel m, m') \<and> spmatrix_inv m' \<and>
      (\<lambda>r. 0 < sm_num_columns m') = (\<lambda>r :: nat. 0 < sm_num_columns m) \<and>
      (\<lambda>c. c < sm_num_columns m') = (\<lambda>c. c < sm_num_columns m) \<and>
      spmatrix_rel m' = insert (r, c) (spmatrix_rel m)" if "c < sm_num_columns m"
    using spmatrix_insert_ok [OF m that, of r] by auto
  show "\<exists>m'. spmatrix_union_rows A m r w = Some (spmatrix_rel m' \<noteq> spmatrix_rel m, m') \<and> spmatrix_inv m' \<and>
      (\<lambda>r. 0 < sm_num_columns m') = (\<lambda>r :: nat. 0 < sm_num_columns m) \<and>
      (\<lambda>c. c < sm_num_columns m') = (\<lambda>c. c < sm_num_columns m) \<and>
      spmatrix_rel m' = spmatrix_rel m \<union> {w} \<times> (spmatrix_rel m `` {r})" if "0 < sm_num_columns m"
    using spmatrix_union_rows_ok [OF m that, of r w] by auto
qed


section \<open>Properties\<close>

text \<open>\<open>BitMatrix\<close> as a relation: \<open>insert\<close>, \<open>union_rows\<close>, \<open>union_row_with\<close> and
  \<open>insert_all_into_row\<close> on rows and columns in bounds add exactly the pairs they document, leave every other
  row alone, and the boolean results say whether the relation grew.\<close>

theorem bitmatrix_updates:
  assumes "bitmatrix_inv m" "r < num_rows m" "w < num_rows m" "c < num_columns m"
    and "bitset_inv s" "domain_size s = num_columns m"
  shows "(\<exists>n. bitmatrix_insert m r c = Some ((r, c) \<notin> bitmatrix_rel m, n) \<and> bitmatrix_inv n \<and>
            bitmatrix_rel n = insert (r, c) (bitmatrix_rel m)) \<and>
    (\<exists>n. bitmatrix_union_rows m r w = Some (bitmatrix_rel n \<noteq> bitmatrix_rel m, n) \<and> bitmatrix_inv n \<and>
            bitmatrix_rel n = bitmatrix_rel m \<union> {w} \<times> (bitmatrix_rel m `` {r})) \<and>
    (\<exists>n. bitmatrix_union_row_with m s w = Some (bitmatrix_rel n \<noteq> bitmatrix_rel m, n) \<and> bitmatrix_inv n \<and>
            bitmatrix_rel n = bitmatrix_rel m \<union> {w} \<times> bitset_elems s) \<and>
    (\<exists>n. bitmatrix_insert_all_into_row m r = Some n \<and> bitmatrix_inv n \<and>
            bitmatrix_rel n = bitmatrix_rel m \<union> {r} \<times> {..<num_columns m})"
  using bitmatrix_insert_ok [OF assms(1,2,4)] bitmatrix_union_rows_ok [OF assms(1-3)]
    bitmatrix_union_row_with_ok [OF assms(1,3,5,6)] bitmatrix_insert_all_spec [OF assms(1,2)] by blast

theorem bitmatrix_updates_witness:
  "\<exists>n. bitmatrix_insert (bitmatrix_new 3 100) 2 70 = Some (True, n) \<and> bitmatrix_rel n = {(2, 70)}"
proof -
  have "bitmatrix_inv (bitmatrix_new 3 100)" "bitmatrix_rel (bitmatrix_new 3 100) = {}"
    using bitmatrix_new_spec [of 100 3] by simp_all
  then show ?thesis
    using bitmatrix_updates [of "bitmatrix_new 3 100" 2 2 70 "bitset_new_empty 100"]
    by (simp add: bitmatrix_new_def Let_def) blast
qed

text \<open>Reading a \<open>BitMatrix\<close>: \<open>contains\<close> decides the relation, \<open>intersect_rows\<close> lists the columns two
  rows share in increasing order, \<open>iter\<close> lists the columns of a row and \<open>count\<close> is their number.\<close>

theorem bitmatrix_observers:
  assumes "bitmatrix_inv m" "r < num_rows m" "q < num_rows m" "c < num_columns m"
  shows "bitmatrix_contains m r c = Some ((r, c) \<in> bitmatrix_rel m) \<and>
    bitmatrix_intersect_rows m r q =
      Some (sorted_list_of_set (bitmatrix_rel m `` {r} \<inter> bitmatrix_rel m `` {q})) \<and>
    map_option bit_iter_collect (bitmatrix_iter m r) = Some (sorted_list_of_set (bitmatrix_rel m `` {r})) \<and>
    bitmatrix_count m r = Some (card (bitmatrix_rel m `` {r}))"
  using bitmatrix_contains_eq [OF assms(1,2,4)] bitmatrix_intersect_rows_spec [OF assms(1-3)]
    bitmatrix_iter_spec [OF assms(1,2)] bitmatrix_count_spec [OF assms(1,2)] by blast

theorem bitmatrix_observers_witness:
  "bitmatrix_contains (bitmatrix_new 3 100) 2 70 = Some False \<and> bitmatrix_count (bitmatrix_new 3 100) 1 = Some 0"
proof -
  have "bitmatrix_inv (bitmatrix_new 3 100)" "bitmatrix_rel (bitmatrix_new 3 100) = {}"
    using bitmatrix_new_spec [of 100 3] by simp_all
  then show ?thesis
    using bitmatrix_observers [of "bitmatrix_new 3 100" 2 2 70] bitmatrix_observers [of "bitmatrix_new 3 100" 1 2 70]
    by (simp add: bitmatrix_new_def Let_def)
qed

text \<open>\<open>SparseBitMatrix\<close> as a relation over rows created on demand: \<open>insert\<close> and \<open>remove\<close> change one
  pair, \<open>union_rows\<close> adds the columns of one row to another, the results say whether the relation changed, and
  adding the row of a successor (\<open>read\<close> reachable from \<open>write\<close>) to \<open>write\<close> keeps the transitive closure.\<close>

theorem spmatrix_updates:
  assumes "arrayvec_laws A" "spmatrix_inv m" "c < sm_num_columns m"
  shows "(\<exists>n. spmatrix_insert A m r c = Some ((r, c) \<notin> spmatrix_rel m, n) \<and> spmatrix_inv n \<and>
            spmatrix_rel n = insert (r, c) (spmatrix_rel m)) \<and>
    (\<exists>n. spmatrix_remove A m r c = Some ((r, c) \<in> spmatrix_rel m, n) \<and> spmatrix_inv n \<and>
            spmatrix_rel n = spmatrix_rel m - {(r, c)}) \<and>
    (\<exists>n. spmatrix_union_rows A m read w = Some (spmatrix_rel n \<noteq> spmatrix_rel m, n) \<and> spmatrix_inv n \<and>
            spmatrix_rel n = spmatrix_rel m \<union> {w} \<times> (spmatrix_rel m `` {read}) \<and>
            ((w, read) \<in> spmatrix_rel m \<longrightarrow> (spmatrix_rel n)\<^sup>+ = (spmatrix_rel m)\<^sup>+))"
proof -
  have col: "0 < sm_num_columns m" using assms(3) by simp
  show ?thesis
    using arrayvec_laws.spmatrix_insert_ok [OF assms, of r] arrayvec_laws.spmatrix_remove_ok [OF assms, of r]
      arrayvec_laws.spmatrix_union_rows_ok [OF assms(1,2) col, of read w]
      union_rows_trancl [of w read "spmatrix_rel m"] by fastforce
qed

theorem spmatrix_updates_witness:
  "\<exists>n. spmatrix_insert list_arrayvec (spmatrix_new 10) 4 7 = Some (True, n) \<and> spmatrix_rel n = {(4, 7)}"
  using spmatrix_updates [OF list_av.arrayvec_laws_axioms, of "spmatrix_new 10" 7 4] spmatrix_new_spec [of 10]
  by (simp add: spmatrix_new_def) blast

text \<open>\<open>IndexVec<I, Option<T>>\<close> as a map from indices: \<open>insert\<close> returns the previous value and binds the
  index, growing the vector when needed, \<open>remove\<close> returns and unbinds it, and \<open>get_or_insert_with\<close> returns the
  bound value or binds the given one.\<close>

theorem index_vec_option_map:
  "\<exists>v1 v2 v3. index_vec_insert v i x = Some (index_vec_map v i, v1) \<and>
      index_vec_map v1 = (index_vec_map v)(i \<mapsto> x) \<and>
      index_vec_remove v i = Some (index_vec_map v i, v2) \<and> index_vec_map v2 = (index_vec_map v)(i := None) \<and>
      index_vec_get_or_insert_with v i x = Some (case index_vec_map v i of Some y \<Rightarrow> y | None \<Rightarrow> x, v3) \<and>
      index_vec_map v3 = (index_vec_map v)(i \<mapsto> (case index_vec_map v i of Some y \<Rightarrow> y | None \<Rightarrow> x))"
proof -
  obtain v1 where v1: "index_vec_insert v i x = Some (index_vec_map v i, v1)"
      "index_vec_map v1 = (index_vec_map v)(i \<mapsto> x)"
    using index_vec_insert_spec [of v i x] by blast
  obtain v2 where v2: "index_vec_remove v i = Some (index_vec_map v i, v2)"
      "index_vec_map v2 = (index_vec_map v)(i := None)"
    using index_vec_remove_spec [of v i] by blast
  obtain v3 where v3: "index_vec_get_or_insert_with v i x = Some (case index_vec_map v i of Some y \<Rightarrow> y | None \<Rightarrow> x, v3)"
      "index_vec_map v3 = (index_vec_map v)(i \<mapsto> (case index_vec_map v i of Some y \<Rightarrow> y | None \<Rightarrow> x))"
    using index_vec_get_or_insert_with_spec [of v i x] by (auto split: option.splits simp: fun_upd_idem)
  from v1 v2 v3 show ?thesis by blast
qed

end
