(* ===== verification/Interval_Set.thy ===== *)
theory Interval_Set
  imports Slice_Search Bit_Matrix
begin

text \<open>
  \<open>IntervalSet\<close> and \<open>SparseIntervalMatrix\<close> of \<open>compiler/rustc_index/src/interval.rs\<close>: a set of indices
  as a sorted vector of disjoint, non-adjacent closed intervals.

  An interval is a pair of \<open>u32\<close> values, here naturals: \<open>as u32\<close> truncates (\<open>as_u32\<close>) and an addition
  that leaves the range panics (\<open>add_u32\<close>). The vector is a \<open>SmallVec\<close> of the third-party crate
  \<open>smallvec\<close>; its mutating operations are the parameter \<open>smallvec\<close>, with its documented behaviour as
  the locale \<open>smallvec_laws\<close>. The debug assertions are not modelled; that \<open>check_invariants\<close> holds
  where they stand is proved.
\<close>

section \<open>State and operations\<close>

type_synonym interval = "nat \<times> nat"

record smallvec =
  sv_push :: "interval list \<Rightarrow> interval \<Rightarrow> interval list"
  sv_insert :: "interval list \<Rightarrow> nat \<Rightarrow> interval \<Rightarrow> interval list option"
  sv_drain :: "interval list \<Rightarrow> nat \<Rightarrow> nat \<Rightarrow> interval list option"
  sv_clear :: "interval list \<Rightarrow> interval list"

locale smallvec_laws =
  fixes V :: smallvec
  assumes push_ok: "sv_push V xs v = xs @ [v]"
    and insert_ok: "i \<le> length xs \<Longrightarrow> sv_insert V xs i v = Some (take i xs @ v # drop i xs)"
    and insert_panics: "length xs < i \<Longrightarrow> sv_insert V xs i v = None"
    and drain_ok: "a \<le> b \<Longrightarrow> b \<le> length xs \<Longrightarrow> sv_drain V xs a b = Some (take a xs @ drop b xs)"
    and clear_ok: "sv_clear V xs = []"

definition as_u32 :: "nat \<Rightarrow> nat" where
  "as_u32 n = n mod 2 ^ 32"

definition add_u32 :: "nat \<Rightarrow> nat \<Rightarrow> nat option" where
  "add_u32 a b = (if a + b < 2 ^ 32 then Some (a + b) else None)"

record interval_set =
  iv_map :: "interval list"
  iv_domain :: nat

definition inclusive_start :: "nat range_bounds \<Rightarrow> nat option" where
  "inclusive_start rng = (case fst rng of
       Included start \<Rightarrow> Some (as_u32 start)
     | Excluded start \<Rightarrow> add_u32 (as_u32 start) 1
     | Unbounded \<Rightarrow> Some 0)"

definition inclusive_end :: "nat \<Rightarrow> nat range_bounds \<Rightarrow> nat option" where
  "inclusive_end domain rng = (case snd rng of
       Included end \<Rightarrow> Some (as_u32 end)
     | Excluded end \<Rightarrow> map_option as_u32 (checked_sub end 1)
     | Unbounded \<Rightarrow> map_option as_u32 (checked_sub domain 1))"

definition interval_new :: "nat \<Rightarrow> interval_set" where
  "interval_new domain = \<lparr>iv_map = [], iv_domain = domain\<rparr>"

definition interval_clear :: "smallvec \<Rightarrow> interval_set \<Rightarrow> interval_set" where
  "interval_clear V s = s\<lparr>iv_map := sv_clear V (iv_map s)\<rparr>"

text \<open>\<open>iter_intervals\<close>: half-open ranges of indices.\<close>

definition iter_intervals :: "interval_set \<Rightarrow> interval list" where
  "iter_intervals s = map (\<lambda>(start, end). (start, end + 1)) (iv_map s)"

definition interval_iter :: "interval_set \<Rightarrow> nat list" where
  "interval_iter s = concat (map (\<lambda>(start, end). [start..<end]) (iter_intervals s))"

text \<open>\<open>insert_range\<close>, once the bounds are known to be a non-empty interval.\<close>

definition insert_interval :: "smallvec \<Rightarrow> interval list \<Rightarrow> nat \<Rightarrow> nat \<Rightarrow> (bool \<times> interval list) option" where
  "insert_interval V m start end = do {
     next \<leftarrow> partition_point m (\<lambda>r. do { e \<leftarrow> add_u32 end 1; Some (fst r \<le> e) });
     case checked_sub next 1 of
       Some right \<Rightarrow> do {
         (prev_start, prev_end) \<leftarrow> index_at m right;
         prev_end_1 \<leftarrow> add_u32 prev_end 1;
         if prev_end_1 \<ge> start then
           if start < prev_start then do {
             left \<leftarrow> partition_point m (\<lambda>l. do { e \<leftarrow> add_u32 (snd l) 1; Some (e < start) });
             (left_start, _) \<leftarrow> index_at m left;
             let mn = min left_start start;
             let mx = max prev_end end;
             m \<leftarrow> store_at m right (mn, mx);
             m \<leftarrow> (if left \<noteq> right then sv_drain V m left right else Some m);
             Some (True, m)
           } else if end > prev_end then do {
             m \<leftarrow> store_at m right (prev_start, end);
             Some (True, m)
           } else Some (False, m)
         else do {
           m \<leftarrow> sv_insert V m (right + 1) (start, end);
           Some (True, m)
         }
       }
     | None \<Rightarrow>
         if m = [] then Some (True, sv_push V m (start, end))
         else do {
           m \<leftarrow> sv_insert V m next (start, end);
           Some (True, m)
         }
   }"

definition interval_insert_range ::
    "smallvec \<Rightarrow> interval_set \<Rightarrow> nat range_bounds \<Rightarrow> (bool \<times> interval_set) option" where
  "interval_insert_range V s rng = do {
     start \<leftarrow> inclusive_start rng;
     case inclusive_end (iv_domain s) rng of
       None \<Rightarrow> Some (False, s)
     | Some end \<Rightarrow>
         if start > end then Some (False, s)
         else do {
           (result, m) \<leftarrow> insert_interval V (iv_map s) start end;
           Some (result, s\<lparr>iv_map := m\<rparr>)
         }
   }"

definition interval_insert :: "smallvec \<Rightarrow> interval_set \<Rightarrow> nat \<Rightarrow> (bool \<times> interval_set) option" where
  "interval_insert V s point = interval_insert_range V s (Included point, Included point)"

definition interval_contains :: "interval_set \<Rightarrow> nat \<Rightarrow> bool option" where
  "interval_contains s needle = do {
     let needle = as_u32 needle;
     n \<leftarrow> partition_point (iv_map s) (\<lambda>r. Some (fst r \<le> needle));
     case checked_sub n 1 of
       None \<Rightarrow> Some False
     | Some prev \<Rightarrow> do {
         (_, prev_end) \<leftarrow> index_at (iv_map s) prev;
         Some (needle \<le> prev_end)
       }
   }"

text \<open>
  \<open>superset\<close>: the closure \<open>contains\<close> gives its answer and the new \<open>current\<close>; \<open>find_sup\<close> is the
  \<open>find_map\<close> over the rest of the intervals of \<open>self\<close>; \<open>superset_loop\<close> is \<open>all\<close> over those of \<open>other\<close>.
\<close>

definition sup_contains :: "interval \<Rightarrow> interval \<Rightarrow> interval option \<Rightarrow> bool option \<times> interval option" where
  "sup_contains sup_iv sub_iv current =
     (if snd sup_iv < fst sub_iv then (None, current)
      else if snd sup_iv \<ge> snd sub_iv \<and> fst sup_iv \<le> fst sub_iv then (Some True, Some sup_iv)
      else (Some False, current))"

fun find_sup :: "interval list \<Rightarrow> interval \<Rightarrow> interval option \<Rightarrow> bool option \<times> interval option \<times> interval list" where
  "find_sup [] sub_iv current = (None, current, [])"
| "find_sup (sup_iv # sup_iter) sub_iv current =
     (case sup_contains sup_iv sub_iv current of
        (Some b, current) \<Rightarrow> (Some b, current, sup_iter)
      | (None, current) \<Rightarrow> find_sup sup_iter sub_iv current)"

fun superset_loop :: "interval list \<Rightarrow> interval list \<Rightarrow> interval option \<Rightarrow> bool" where
  "superset_loop [] sup_iter current = True"
| "superset_loop (sub_iv # subs) sup_iter current =
     (let (first, current) = (case current of
            None \<Rightarrow> (None, None)
          | Some sup_iv \<Rightarrow> sup_contains sup_iv sub_iv None);
          (found, current, sup_iter) = (case first of
            Some b \<Rightarrow> (Some b, current, sup_iter)
          | None \<Rightarrow> find_sup sup_iter sub_iv current)
      in case found of
           Some True \<Rightarrow> superset_loop subs sup_iter current
         | _ \<Rightarrow> False)"

definition interval_superset :: "interval_set \<Rightarrow> interval_set \<Rightarrow> bool" where
  "interval_superset s other = superset_loop (iter_intervals other) (iter_intervals s) None"

definition interval_is_empty :: "interval_set \<Rightarrow> bool" where
  "interval_is_empty s \<longleftrightarrow> iv_map s = []"

definition interval_last_set_in :: "interval_set \<Rightarrow> nat range_bounds \<Rightarrow> nat option option" where
  "interval_last_set_in s rng = do {
     start \<leftarrow> inclusive_start rng;
     case inclusive_end (iv_domain s) rng of
       None \<Rightarrow> Some None
     | Some end \<Rightarrow>
         if start > end then Some None
         else do {
           n \<leftarrow> partition_point (iv_map s) (\<lambda>r. Some (fst r \<le> end));
           case checked_sub n 1 of
             None \<Rightarrow> Some None
           | Some prev \<Rightarrow> do {
               (_, prev_end) \<leftarrow> index_at (iv_map s) prev;
               Some (if start \<le> prev_end then Some (min prev_end end) else None)
             }
         }
   }"

text \<open>\<open>insert_all\<close>: \<open>try_into().unwrap()\<close> panics when the last index does not fit \<open>u32\<close>.\<close>

definition interval_insert_all :: "smallvec \<Rightarrow> interval_set \<Rightarrow> interval_set option" where
  "interval_insert_all V s = do {
     let s = interval_clear V s;
     case checked_sub (iv_domain s) 1 of
       None \<Rightarrow> Some s
     | Some end \<Rightarrow> do {
         assert_that (end < 2 ^ 32);
         Some (s\<lparr>iv_map := sv_push V (iv_map s) (0, end)\<rparr>)
       }
   }"

definition interval_union :: "smallvec \<Rightarrow> interval_set \<Rightarrow> interval_set \<Rightarrow> (bool \<times> interval_set) option" where
  "interval_union V s other = do {
     assert_that (iv_domain s = iv_domain other);
     for_each (\<lambda>(start, end) (did_insert, s). do {
         (b, s) \<leftarrow> interval_insert_range V s (Included start, Excluded end);
         Some (did_insert \<or> b, s)
       }) (iter_intervals other) (False, s)
   }"

fun check_intervals :: "interval list \<Rightarrow> nat option \<Rightarrow> (bool \<times> nat option) option" where
  "check_intervals [] current = Some (True, current)"
| "check_intervals ((start, end) # m) current = do {
     bad \<leftarrow> (if start > end then Some True
             else case current of None \<Rightarrow> Some False | Some x \<Rightarrow> do { y \<leftarrow> add_u32 x 1; Some (y \<ge> start) });
     if bad then Some (False, current) else check_intervals m (Some end)
   }"

definition interval_check_invariants :: "interval_set \<Rightarrow> bool option" where
  "interval_check_invariants s = do {
     (b, current) \<leftarrow> check_intervals (iv_map s) None;
     Some (b \<and> (case current of None \<Rightarrow> True | Some x \<Rightarrow> x < as_u32 (iv_domain s)))
   }"


section \<open>The interval matrix\<close>

record interval_matrix =
  im_rows :: "interval_set index_vec"
  im_column_size :: nat

definition imatrix_new :: "nat \<Rightarrow> interval_matrix" where
  "imatrix_new column_size = \<lparr>im_rows = [], im_column_size = column_size\<rparr>"

definition imatrix_row :: "interval_matrix \<Rightarrow> nat \<Rightarrow> interval_set option" where
  "imatrix_row m row = index_vec_get (im_rows m) row"

definition imatrix_ensure_row :: "interval_matrix \<Rightarrow> nat \<Rightarrow> (interval_set \<times> interval_matrix) option" where
  "imatrix_ensure_row m row = do {
     let rows = ensure_contains_elem (im_rows m) row (interval_new (im_column_size m));
     r \<leftarrow> index_at rows row;
     Some (r, m\<lparr>im_rows := rows\<rparr>)
   }"

definition imatrix_update_row ::
    "interval_matrix \<Rightarrow> nat \<Rightarrow> (interval_set \<Rightarrow> (bool \<times> interval_set) option) \<Rightarrow> (bool \<times> interval_matrix) option" where
  "imatrix_update_row m row upd = do {
     (r, m) \<leftarrow> imatrix_ensure_row m row;
     (changed, r) \<leftarrow> upd r;
     rows \<leftarrow> store_at (im_rows m) row r;
     Some (changed, m\<lparr>im_rows := rows\<rparr>)
   }"

definition imatrix_union_row :: "smallvec \<Rightarrow> interval_matrix \<Rightarrow> nat \<Rightarrow> interval_set \<Rightarrow> (bool \<times> interval_matrix) option" where
  "imatrix_union_row V m row from = imatrix_update_row m row (\<lambda>r. interval_union V r from)"

definition imatrix_union_rows :: "smallvec \<Rightarrow> interval_matrix \<Rightarrow> nat \<Rightarrow> nat \<Rightarrow> (bool \<times> interval_matrix) option" where
  "imatrix_union_rows V m read write =
     (if read = write \<or> index_vec_get (im_rows m) read = None then Some (False, m)
      else do {
        (_, m) \<leftarrow> imatrix_ensure_row m write;
        (read_row, write_row) \<leftarrow> index_vec_pick2 (im_rows m) read write;
        (changed, write_row) \<leftarrow> interval_union V write_row read_row;
        rows \<leftarrow> store_at (im_rows m) write write_row;
        Some (changed, m\<lparr>im_rows := rows\<rparr>)
      })"

definition imatrix_insert_all_into_row :: "smallvec \<Rightarrow> interval_matrix \<Rightarrow> nat \<Rightarrow> interval_matrix option" where
  "imatrix_insert_all_into_row V m row =
     map_option snd (imatrix_update_row m row (\<lambda>r. map_option (Pair False) (interval_insert_all V r)))"

definition imatrix_insert_range ::
    "smallvec \<Rightarrow> interval_matrix \<Rightarrow> nat \<Rightarrow> nat range_bounds \<Rightarrow> interval_matrix option" where
  "imatrix_insert_range V m row rng =
     map_option snd (imatrix_update_row m row (\<lambda>r. interval_insert_range V r rng))"

definition imatrix_insert :: "smallvec \<Rightarrow> interval_matrix \<Rightarrow> nat \<Rightarrow> nat \<Rightarrow> (bool \<times> interval_matrix) option" where
  "imatrix_insert V m row point = imatrix_update_row m row (\<lambda>r. interval_insert V r point)"

definition imatrix_contains :: "interval_matrix \<Rightarrow> nat \<Rightarrow> nat \<Rightarrow> bool option" where
  "imatrix_contains m row point =
     (case imatrix_row m row of None \<Rightarrow> Some False | Some r \<Rightarrow> interval_contains r point)"


section \<open>Invariant and abstraction\<close>

definition ivs_ok :: "interval list \<Rightarrow> nat \<Rightarrow> bool" where
  "ivs_ok m d \<longleftrightarrow> sorted_wrt (\<lambda>r q. snd r + 1 < fst q) m \<and> (\<forall>r \<in> set m. fst r \<le> snd r \<and> snd r < d)"

definition ivs_elems :: "interval list \<Rightarrow> nat set" where
  "ivs_elems m = (\<Union>r \<in> set m. {fst r..snd r})"

lemma ivs_ok_Nil [simp]: "ivs_ok [] d"
  by (simp add: ivs_ok_def)

lemma ivs_ok_Cons:
  "ivs_ok (r # m) d \<longleftrightarrow> fst r \<le> snd r \<and> snd r < d \<and> (\<forall>q \<in> set m. snd r + 1 < fst q) \<and> ivs_ok m d"
  by (auto simp: ivs_ok_def)

lemma ivs_ok_append:
  "ivs_ok (m @ n) d \<longleftrightarrow> ivs_ok m d \<and> ivs_ok n d \<and> (\<forall>r \<in> set m. \<forall>q \<in> set n. snd r + 1 < fst q)"
  by (auto simp: ivs_ok_def sorted_wrt_append)

lemma ivs_elems_simps [simp]:
  "ivs_elems [] = {}" "ivs_elems (r # m) = {fst r..snd r} \<union> ivs_elems m"
  "ivs_elems (m @ n) = ivs_elems m \<union> ivs_elems n"
  by (auto simp: ivs_elems_def)

lemma mem_ivs_elems: "x \<in> ivs_elems m \<longleftrightarrow> (\<exists>r \<in> set m. fst r \<le> x \<and> x \<le> snd r)"
  by (auto simp: ivs_elems_def)

lemma ivs_elems_above: "\<forall>r \<in> set m. e < fst r \<Longrightarrow> \<forall>x \<in> ivs_elems m. e < x"
  by (induction m) auto

lemma ivs_ok_bound: "ivs_ok m d \<Longrightarrow> r \<in> set m \<Longrightarrow> fst r \<le> snd r \<and> snd r < d"
  by (auto simp: ivs_ok_def)

lemma ivs_elems_dom: "ivs_ok m d \<Longrightarrow> ivs_elems m \<subseteq> {..<d}"
  using ivs_ok_bound [of m d] by (auto simp: mem_ivs_elems) (meson le_less_trans)

lemma add_u32_Some [simp]: "a + b < 2 ^ 32 \<Longrightarrow> add_u32 a b = Some (a + b)"
  by (simp add: add_u32_def)

text \<open>The two partition points of \<open>insert_range\<close>, and the one of \<open>contains\<close>, split the vector.\<close>

lemma ivs_nth_mono:
  assumes "ivs_ok m d" "i \<le> j" "j < length m"
  shows "fst (m ! i) \<le> fst (m ! j)" "snd (m ! i) \<le> snd (m ! j)"
proof -
  have "fst (m ! i) \<le> fst (m ! j) \<and> snd (m ! i) \<le> snd (m ! j)"
  proof (cases "i = j")
    case False
    with assms have "snd (m ! i) + 1 < fst (m ! j)" by (simp add: ivs_ok_def sorted_wrt_iff_nth_less)
    moreover have "fst (m ! i) \<le> snd (m ! i)" "fst (m ! j) \<le> snd (m ! j)"
      using ivs_ok_bound [OF assms(1)] assms(2,3) by simp_all
    ultimately show ?thesis by linarith
  qed simp
  then show "fst (m ! i) \<le> fst (m ! j)" "snd (m ! i) \<le> snd (m ! j)" by auto
qed

lemma partition_starts:
  assumes "ivs_ok m d"
  shows "partition_point m (\<lambda>r. Some (fst r \<le> e)) = Some (length (takeWhile (\<lambda>r. fst r \<le> e) m))"
  by (rule partition_point_spec) (use ivs_nth_mono(1) [OF assms] in \<open>auto intro: order_trans\<close>)

lemma partition_starts_u32:
  assumes "ivs_ok m d" "e + 1 < 2 ^ 32"
  shows "partition_point m (\<lambda>r. do { e \<leftarrow> add_u32 e 1; Some (fst r \<le> e) }) =
    Some (length (takeWhile (\<lambda>r. fst r \<le> e + 1) m))"
  by (rule partition_point_spec) (use assms(2) ivs_nth_mono(1) [OF assms(1)] in \<open>auto intro: order_trans\<close>)

lemma partition_ends_u32:
  assumes "ivs_ok m d" "d < 2 ^ 32"
  shows "partition_point m (\<lambda>l. do { e \<leftarrow> add_u32 (snd l) 1; Some (e < a) }) =
    Some (length (takeWhile (\<lambda>l. snd l + 1 < a) m))"
proof (rule partition_point_spec)
  fix x assume "x \<in> set m"
  then have "snd x < d" using ivs_ok_bound [OF assms(1)] by blast
  then show "do { e \<leftarrow> add_u32 (snd x) 1; Some (e < a) } = Some (snd x + 1 < a)" using assms(2) by simp
next
  fix i j assume "i \<le> j" "j < length m" "snd (m ! j) + 1 < a"
  then show "snd (m ! i) + 1 < a" using ivs_nth_mono(2) [OF assms(1), of i j] by linarith
qed

lemma starts_split:
  assumes "ivs_ok m d"
  shows "\<forall>r \<in> set (takeWhile (\<lambda>r. fst r \<le> e) m). fst r \<le> e" "\<forall>r \<in> set (dropWhile (\<lambda>r. fst r \<le> e) m). e < fst r"
proof -
  let ?L = "takeWhile (\<lambda>r. fst r \<le> e) m" and ?R = "dropWhile (\<lambda>r. fst r \<le> e) m"
  show "\<forall>r \<in> set ?L. fst r \<le> e" by (auto dest: set_takeWhileD)
  show "\<forall>r \<in> set ?R. e < fst r"
  proof (cases ?R)
    case Nil
    then show ?thesis by (simp only: list.set ball_empty)
  next
    case (Cons r R)
    have "\<not> fst r \<le> e" using Cons by (metis dropWhile_eq_Cons_conv)
    moreover have "ivs_ok (r # R) d" using assms(1) Cons by (metis ivs_ok_append takeWhile_dropWhile_id)
    ultimately show ?thesis unfolding Cons by (auto simp: ivs_ok_Cons)
  qed
qed

text \<open>
  Merging: \<open>[s, e]\<close> swallows the intervals \<open>vs @ [pq]\<close> that touch it from \<open>s\<close> on, between \<open>us\<close>,
  which ends before it, and \<open>R\<close>, which starts after it.
\<close>

lemma merge_intervals:
  assumes ok: "ivs_ok (us @ vs @ pq # R) d" and se: "s \<le> e" "e < d" and sp: "s < fst pq" "fst pq \<le> e + 1"
    and us: "\<forall>r \<in> set us. snd r + 1 < s" and vs: "\<forall>r \<in> set (vs @ [pq]). s \<le> snd r + 1"
    and R: "\<forall>r \<in> set R. e + 1 < fst r"
  defines "mn \<equiv> min (fst (hd (vs @ [pq]))) s"
  shows "ivs_ok (us @ (mn, max (snd pq) e) # R) d"
    and "ivs_elems (us @ (mn, max (snd pq) e) # R) = ivs_elems (us @ vs @ pq # R) \<union> {s..e}"
proof -
  obtain r0 ws where hd: "vs @ [pq] = r0 # ws" by (cases vs) auto
  have mn: "mn = min (fst r0) s" using hd by (simp add: mn_def)
  have in0: "r0 \<in> set (vs @ [pq])" using hd by simp
  have ok': "ivs_ok us d" "ivs_ok (r0 # ws) d" "ivs_ok R d" "\<forall>r \<in> set us. \<forall>q \<in> set (vs @ [pq]) \<union> set R. snd r + 1 < fst q"
      "\<forall>q \<in> set R. snd pq + 1 < fst q" "fst pq \<le> snd pq" "snd pq < d"
    using ok unfolding hd [symmetric] by (auto simp: ivs_ok_append ivs_ok_Cons)
  have bounds: "mn \<le> fst r \<and> fst r \<le> snd r \<and> snd r \<le> snd pq" if "r \<in> set (vs @ [pq])" for r
  proof -
    have "fst r0 \<le> fst r" using that ok'(2) unfolding hd by (auto simp: ivs_ok_Cons)
    moreover have okv: "ivs_ok (vs @ [pq]) d" using ok by (simp add: ivs_ok_append ivs_ok_Cons)
    moreover have "snd r \<le> snd pq"
    proof (cases "r = pq")
      case False
      then have "snd r + 1 < fst pq" using that okv by (simp add: ivs_ok_append)
      with ok'(6) show ?thesis by linarith
    qed simp
    ultimately show ?thesis using ivs_ok_bound [OF okv that] by (simp add: mn)
  qed
  show "ivs_ok (us @ (mn, max (snd pq) e) # R) d"
    unfolding ivs_ok_append ivs_ok_Cons mn using ok' us in0 R se sp bounds [OF in0]
    by (auto simp: mn min_def max_def)
  have "{mn..max (snd pq) e} = ivs_elems (vs @ [pq]) \<union> {s..e}"
  proof (rule set_eqI)
    fix x
    have s0: "s \<le> snd r0 + 1" using vs in0 by blast
    show "x \<in> {mn..max (snd pq) e} \<longleftrightarrow> x \<in> ivs_elems (vs @ [pq]) \<union> {s..e}"
    proof
      assume x: "x \<in> {mn..max (snd pq) e}"
      consider "x < s" | "s \<le> x" "x \<le> e" | "e < x" by linarith
      then show "x \<in> ivs_elems (vs @ [pq]) \<union> {s..e}"
      proof cases
        case 1
        then have "fst r0 \<le> x" "x \<le> snd r0" using x s0 by (auto simp: mn min_def split: if_splits)
        then show ?thesis unfolding hd by simp
      next
        case 3
        with x sp(2) show ?thesis by (auto simp: max_def split: if_splits)
      qed simp
    next
      assume "x \<in> ivs_elems (vs @ [pq]) \<union> {s..e}"
      then consider r where "r \<in> set (vs @ [pq])" "fst r \<le> x" "x \<le> snd r" | "s \<le> x" "x \<le> e"
        unfolding Un_iff mem_ivs_elems atLeastAtMost_iff by blast
      then show "x \<in> {mn..max (snd pq) e}"
      proof cases
        case 1
        with bounds [OF 1(1)] show ?thesis by auto
      next
        case 2
        then show ?thesis by (simp add: mn min_le_iff_disj le_max_iff_disj)
      qed
    qed
  qed
  then show "ivs_elems (us @ (mn, max (snd pq) e) # R) = ivs_elems (us @ vs @ pq # R) \<union> {s..e}" by auto
qed

text \<open>Where the inserted interval fits: after the intervals of \<open>L\<close>, before those of \<open>R\<close>.\<close>

lemma insert_between:
  assumes "ivs_ok (L @ R) d" "s \<le> e" "e < d" "\<forall>r \<in> set L. snd r + 1 < s" "\<forall>r \<in> set R. e + 1 < fst r"
  shows "ivs_ok (L @ (s, e) # R) d" "ivs_elems (L @ (s, e) # R) = ivs_elems (L @ R) \<union> {s..e}"
    "s \<notin> ivs_elems (L @ R)"
proof -
  show "ivs_ok (L @ (s, e) # R) d" using assms by (auto simp: ivs_ok_append ivs_ok_Cons)
  show "ivs_elems (L @ (s, e) # R) = ivs_elems (L @ R) \<union> {s..e}" by auto
  show "s \<notin> ivs_elems (L @ R)" using assms(2,4,5) by (fastforce simp: mem_ivs_elems)
qed

lemma ends_split:
  assumes "ivs_ok (L @ [pq]) d" "\<not> snd pq + 1 < s"
  shows "takeWhile (\<lambda>l. snd l + 1 < s) (L @ pq # R) = takeWhile (\<lambda>l. snd l + 1 < s) L"
    and "\<forall>r \<in> set (takeWhile (\<lambda>l. snd l + 1 < s) L). snd r + 1 < s"
    and "\<forall>r \<in> set (dropWhile (\<lambda>l. snd l + 1 < s) L @ [pq]). s \<le> snd r + 1"
proof -
  let ?Q = "\<lambda>l :: interval. snd l + 1 < s"
  show "takeWhile ?Q (L @ pq # R) = takeWhile ?Q L" using assms(2) by (induction L) auto
  show "\<forall>r \<in> set (takeWhile ?Q L). snd r + 1 < s" by (auto dest: set_takeWhileD)
  show "\<forall>r \<in> set (dropWhile ?Q L @ [pq]). s \<le> snd r + 1"
  proof (cases "dropWhile ?Q L")
    case Nil
    then show ?thesis using assms(2) by (simp only: list.set append_Nil) simp
  next
    case (Cons q ws)
    have q: "\<not> snd q + 1 < s" using Cons by (metis dropWhile_eq_Cons_conv)
    have "ivs_ok (q # ws) d" using assms(1) Cons by (metis ivs_ok_append takeWhile_dropWhile_id)
    then have "\<forall>r \<in> set ws. snd q < snd r" by (fastforce simp: ivs_ok_Cons dest: ivs_ok_bound)
    with q assms(2) show ?thesis unfolding Cons by fastforce
  qed
qed

lemma nth_split_hd: "(us @ vs @ x # R) ! length us = hd (vs @ [x])"
  by (cases vs) auto

context smallvec_laws
begin

lemma drain_middle:
  assumes "n = length us + length vs"
  shows "(if length us \<noteq> n then sv_drain V (us @ vs @ x # R) (length us) n else Some (us @ vs @ x # R)) =
    Some (us @ x # R)"
  using assms drain_ok [of "length us" n "us @ vs @ x # R"] by (cases vs) simp_all

text \<open>The interval meets the last of those that start before its end, and the ones it covers are merged into that one.\<close>

lemma insert_merging:
  assumes ok: "ivs_ok m d" and d: "d < 2 ^ 32" and se: "s \<le> e" "e < d" and m: "m = L @ pq # R"
    and pq: "s \<le> snd pq + 1" "s < fst pq" "fst pq \<le> e + 1" and R: "\<forall>r \<in> set R. e + 1 < fst r"
    and step: "insert_interval V m s e = do {
      left \<leftarrow> partition_point m (\<lambda>l. do { e \<leftarrow> add_u32 (snd l) 1; Some (e < s) });
      (left_start, _) \<leftarrow> index_at m left;
      m \<leftarrow> store_at m (length L) (min left_start s, max (snd pq) e);
      m \<leftarrow> (if left \<noteq> length L then sv_drain V m left (length L) else Some m);
      Some (True, m)
    }"
  shows "\<exists>m'. insert_interval V m s e = Some (\<not> {s..e} \<subseteq> ivs_elems m, m') \<and> ivs_ok m' d \<and> ivs_elems m' = ivs_elems m \<union> {s..e}"
proof -
  define us where "us = takeWhile (\<lambda>l. snd l + 1 < s) L"
  define vs where "vs = dropWhile (\<lambda>l. snd l + 1 < s) L"
  define mn where "mn = min (fst (hd (vs @ [pq]))) s"
  define mx where "mx = max (snd pq) e"
  have okL: "ivs_ok (L @ [pq]) d" "\<forall>r \<in> set L. snd r + 1 < fst pq" "fst pq \<le> snd pq" using ok by (auto simp: m ivs_ok_append ivs_ok_Cons)
  have n2: "\<not> snd pq + 1 < s" using pq(1) by simp
  note split = ends_split [OF okL(1) n2, folded us_def vs_def]
  have left: "partition_point m (\<lambda>l. do { e \<leftarrow> add_u32 (snd l) 1; Some (e < s) }) = Some (length us)"
    using partition_ends_u32 [OF ok d, of s] split(1) [of R] by (simp add: m)
  have L: "L = us @ vs" by (simp add: us_def vs_def)
  then have m2: "m = us @ vs @ pq # R" using m by simp
  have at_left: "index_at m (length us) = Some (hd (vs @ [pq]))"
    using nth_split_hd [of us vs pq R] by (simp add: m2 index_at_def)
  have "store_at m (length L) (mn, mx) = Some (us @ vs @ (mn, mx) # R)"
    by (simp add: L m2 list_update_append)
  moreover have "(if length us \<noteq> length L then sv_drain V (us @ vs @ (mn, mx) # R) (length us) (length L)
      else Some (us @ vs @ (mn, mx) # R)) = Some (us @ (mn, mx) # R)"
    by (rule drain_middle) (simp add: L)
  ultimately have res: "insert_interval V m s e = Some (True, us @ (mn, mx) # R)"
    unfolding step using left at_left
    by (simp add: case_prod_beta split del: if_split flip: mn_def mx_def)
  have "ivs_ok (us @ vs @ pq # R) d" using ok m2 by simp
  note merge = merge_intervals [OF this se pq(2,3) split(2,3) R, folded mn_def mx_def]
  have "fst pq - 1 \<notin> ivs_elems m" "fst pq - 1 \<in> {s..e}"
    using pq okL ok by (fastforce simp: m mem_ivs_elems ivs_ok_append ivs_ok_Cons)+
  then have "\<not> {s..e} \<subseteq> ivs_elems m" by blast
  with res merge show ?thesis by (auto simp flip: m2)
qed

text \<open>
  \<open>insert_range\<close> adds the interval, keeps the vector sorted and non-adjacent, and reports whether the
  set grew.
\<close>

lemma insert_interval_spec:
  assumes ok: "ivs_ok m d" and d: "d < 2 ^ 32" and se: "s \<le> e" "e < d"
  shows "\<exists>m'. insert_interval V m s e = Some (\<not> {s..e} \<subseteq> ivs_elems m, m') \<and> ivs_ok m' d \<and>
              ivs_elems m' = ivs_elems m \<union> {s..e}"
proof -
  let ?P = "\<lambda>r :: interval. fst r \<le> e + 1"
  define L where "L = takeWhile ?P m"
  define R where "R = dropWhile ?P m"
  have m: "m = L @ R" by (simp add: L_def R_def)
  have LR: "\<forall>r \<in> set L. fst r \<le> e + 1" "\<forall>r \<in> set R. e + 1 < fst r"
    using starts_split [OF ok, of "e + 1"] by (simp_all add: L_def R_def)
  have e1: "e + 1 < 2 ^ 32" using se d by linarith
  note next_eq = partition_starts_u32 [OF ok e1, folded L_def]
  show ?thesis
  proof (cases L rule: rev_cases)
    case Nil
    have ins: "sv_insert V m 0 (s, e) = Some ((s, e) # m)" by (simp add: insert_ok)
    have "insert_interval V m s e = Some (True, (s, e) # m)"
      using next_eq Nil ins by (cases m) (simp_all add: insert_interval_def push_ok)
    moreover note insert_between [of "[]" R d s e]
    ultimately show ?thesis using ok m Nil se LR by auto
  next
    case (snoc L' pq)
    let ?right = "length L'"
    have m': "m = L' @ pq # R" using m snoc by simp
    have at: "index_at m ?right = Some (fst pq, snd pq)" by (simp add: m')
    have pq: "fst pq \<le> snd pq" "snd pq < d" "fst pq \<le> e + 1" "ivs_ok (L' @ [pq]) d" "\<forall>r \<in> set R. snd pq + 1 < fst r"
      "\<forall>r \<in> set L'. snd r + 1 < fst pq"
      using ok LR snoc by (auto simp: m' ivs_ok_append ivs_ok_Cons)
    have step: "insert_interval V m s e =
        (if snd pq + 1 \<ge> s then
           if s < fst pq then do {
             left \<leftarrow> partition_point m (\<lambda>l. do { e \<leftarrow> add_u32 (snd l) 1; Some (e < s) });
             (left_start, _) \<leftarrow> index_at m left;
             m \<leftarrow> store_at m ?right (min left_start s, max (snd pq) e);
             m \<leftarrow> (if left \<noteq> ?right then sv_drain V m left ?right else Some m);
             Some (True, m)
           } else if e > snd pq then do { m \<leftarrow> store_at m ?right (fst pq, e); Some (True, m) }
           else Some (False, m)
         else do { m \<leftarrow> sv_insert V m (?right + 1) (s, e); Some (True, m) })"
      using next_eq snoc at pq(2) d by (cases pq) (simp add: insert_interval_def Let_def)
    consider "snd pq + 1 < s" | "s \<le> snd pq + 1" "s < fst pq" | "s \<le> snd pq + 1" "fst pq \<le> s" by linarith
    then show ?thesis
    proof cases
      case 1
      then have before: "\<forall>r \<in> set (L' @ [pq]). snd r + 1 < s" using pq by auto
      have "insert_interval V m s e = Some (True, L @ (s, e) # R)"
        using step 1 snoc by (simp add: insert_ok m')
      with insert_between [of L R d s e] ok m snoc before se LR show ?thesis by auto
    next
      case 2
      then show ?thesis using step by (intro insert_merging [OF ok d se m' _ _ pq(3) LR(2)]) simp_all
    next
      case 3
      show ?thesis
      proof (cases "e > snd pq")
        case True
        have "insert_interval V m s e = Some (True, L' @ (fst pq, e) # R)"
          using step 3 True by (simp add: m')
        moreover have "ivs_ok (L' @ (fst pq, e) # R) d"
          using ok LR(2) True pq se by (auto simp: m' ivs_ok_append ivs_ok_Cons)
        moreover have "ivs_elems (L' @ (fst pq, e) # R) = ivs_elems m \<union> {s..e}"
          using 3 True pq by (auto simp: m')
        moreover have "e \<notin> ivs_elems m"
          using ok LR(2) True pq by (fastforce simp: m' mem_ivs_elems)
        ultimately show ?thesis using se(1) by auto
      next
        case False
        then have "insert_interval V m s e = Some (False, m)" using step 3 by simp
        moreover have "{s..e} \<subseteq> ivs_elems m" using 3 False by (auto simp: m')
        ultimately show ?thesis using ok by auto
      qed
    qed
  qed
qed

end


section \<open>Queries\<close>

abbreviation interval_elems :: "interval_set \<Rightarrow> nat set" where
  "interval_elems s \<equiv> ivs_elems (iv_map s)"

definition interval_inv :: "interval_set \<Rightarrow> bool" where
  "interval_inv s \<longleftrightarrow> iv_domain s < 2 ^ 32 \<and> ivs_ok (iv_map s) (iv_domain s)"

text \<open>A range whose bounds fit the domain and \<open>u32\<close>.\<close>

definition iv_range_ok :: "nat range_bounds \<Rightarrow> nat \<Rightarrow> bool" where
  "iv_range_ok r d \<longleftrightarrow>
     (case fst r of Included a \<Rightarrow> a < 2 ^ 32 | Excluded a \<Rightarrow> a + 1 < 2 ^ 32 | Unbounded \<Rightarrow> True) \<and>
     (case snd r of Included b \<Rightarrow> b < d | Excluded b \<Rightarrow> b \<le> d | Unbounded \<Rightarrow> True)"

lemma iv_range_cases:
  assumes "iv_range_ok r d" "d < 2 ^ 32"
  obtains (empty) a where "inclusive_start r = Some a" "inclusive_end d r = None" "range_elems r d = {}"
  | (bounds) a b where "inclusive_start r = Some a" "inclusive_end d r = Some b" "b < d" "range_elems r d = {a..b}"
proof -
  define a where "a = (case fst r of Included a \<Rightarrow> a | Excluded a \<Rightarrow> a + 1 | Unbounded \<Rightarrow> 0)"
  have start: "inclusive_start r = Some a" "\<And>x. above_start (fst r) x \<longleftrightarrow> a \<le> x"
    using assms by (auto simp: inclusive_start_def iv_range_ok_def a_def as_u32_def split: bound.splits)
  have elems: "range_elems r d = {x. a \<le> x \<and> x < d \<and> below_end (snd r) x}"
    by (auto simp: range_elems_def range_contains_def start(2))
  show ?thesis
  proof (cases "inclusive_end d r")
    case None
    have "range_elems r d = {}"
      unfolding elems using None assms
      by (cases "snd r") (auto simp: inclusive_end_def iv_range_ok_def checked_sub_def split: if_splits)
    with None start(1) empty show ?thesis by blast
  next
    case (Some b)
    then have "b < d \<and> (\<forall>x < d. below_end (snd r) x \<longleftrightarrow> x \<le> b)"
      using assms
      by (cases "snd r") (auto simp: inclusive_end_def iv_range_ok_def checked_sub_def as_u32_def split: if_splits)
    moreover from this have "range_elems r d = {a..b}" unfolding elems by auto
    ultimately show ?thesis using Some start(1) bounds by blast
  qed
qed

text \<open>The last interval that starts at or before \<open>e\<close> decides what the set holds up to \<open>e\<close>.\<close>

lemma starts_last:
  assumes ok: "ivs_ok m d"
  obtains (none) "partition_point m (\<lambda>r. Some (fst r \<le> e)) = Some 0" "\<forall>x \<in> ivs_elems m. e < x"
  | (prev) k p q where "partition_point m (\<lambda>r. Some (fst r \<le> e)) = Some (Suc k)" "index_at m k = Some (p, q)"
      "p \<le> q" "p \<le> e" "\<forall>x. p \<le> x \<longrightarrow> x \<le> q \<longrightarrow> x \<in> ivs_elems m" "\<forall>x \<in> ivs_elems m. x \<le> e \<longrightarrow> x \<le> q"
proof -
  define L where "L = takeWhile (\<lambda>r. fst r \<le> e) m"
  define R where "R = dropWhile (\<lambda>r. fst r \<le> e) m"
  have m: "m = L @ R" by (simp add: L_def R_def)
  have LR: "\<forall>r \<in> set L. fst r \<le> e" "\<forall>r \<in> set R. e < fst r"
    using starts_split [OF ok, of e] by (simp_all add: L_def R_def)
  note pp = partition_starts [OF ok, of e, folded L_def]
  show ?thesis
  proof (cases L rule: rev_cases)
    case Nil
    have "\<forall>x \<in> ivs_elems m. e < x" using ivs_elems_above [OF LR(2)] m Nil by simp
    moreover have "partition_point m (\<lambda>r. Some (fst r \<le> e)) = Some 0" using pp Nil by simp
    ultimately show ?thesis using none by blast
  next
    case (snoc L' pq)
    have m': "m = L' @ pq # R" using m snoc by simp
    have before: "\<forall>r \<in> set L'. snd r + 1 < fst pq" "fst pq \<le> snd pq" "fst pq \<le> e"
      using ok LR(1) snoc by (auto simp: m' ivs_ok_append ivs_ok_Cons)
    have "\<forall>x \<in> ivs_elems m. x \<le> e \<longrightarrow> x \<le> snd pq"
    proof (intro ballI impI)
      fix x assume "x \<in> ivs_elems m" "x \<le> e"
      then obtain r where r: "r \<in> set m" "fst r \<le> x" "x \<le> snd r" unfolding mem_ivs_elems by blast
      then consider "r \<in> set L'" | "r = pq" | "r \<in> set R" unfolding m' by auto
      then show "x \<le> snd pq"
      proof cases
        case 1
        then have "snd r + 1 < fst pq" using before(1) by blast
        with r(3) before(2) show ?thesis by linarith
      next
        case 3
        then have "e < fst r" using LR(2) by blast
        with r(2) \<open>x \<le> e\<close> show ?thesis by linarith
      qed (use r(3) in simp)
    qed
    moreover have "\<forall>x. fst pq \<le> x \<longrightarrow> x \<le> snd pq \<longrightarrow> x \<in> ivs_elems m" by (auto simp: m')
    moreover have "index_at m (length L') = Some (fst pq, snd pq)" by (simp add: m')
    moreover have "partition_point m (\<lambda>r. Some (fst r \<le> e)) = Some (Suc (length L'))" using pp snoc by simp
    ultimately show ?thesis using prev [of "length L'" "fst pq" "snd pq"] before(2,3) by blast
  qed
qed

lemma interval_contains_eq:
  assumes "interval_inv s" "x < 2 ^ 32"
  shows "interval_contains s x = Some (x \<in> interval_elems s)"
proof -
  have ok: "ivs_ok (iv_map s) (iv_domain s)" using assms(1) by (simp add: interval_inv_def)
  have x: "as_u32 x = x" using assms(2) by (simp add: as_u32_def)
  from ok show ?thesis
  proof (cases rule: starts_last [where e = x])
    case none
    then show ?thesis by (auto simp: interval_contains_def x)
  next
    case (prev k p q)
    then show ?thesis by (auto simp: interval_contains_def x)
  qed
qed

lemma interval_last_set_in_spec:
  assumes "interval_inv s" "iv_range_ok r (iv_domain s)"
  shows "interval_last_set_in s r = Some (greatest (interval_elems s \<inter> range_elems r (iv_domain s)))"
proof -
  have ok: "ivs_ok (iv_map s) (iv_domain s)" and d: "iv_domain s < 2 ^ 32" using assms(1) by (simp_all add: interval_inv_def)
  from assms(2) d show ?thesis
  proof (cases rule: iv_range_cases)
    case empty
    then show ?thesis by (simp add: interval_last_set_in_def)
  next
    case (bounds a b)
    have fin: "finite (interval_elems s \<inter> {a..b})" by simp
    from ok show ?thesis
    proof (cases rule: starts_last [where e = b])
      case none
      then have "interval_elems s \<inter> {a..b} = {}" by fastforce
      with none bounds show ?thesis by (auto simp: interval_last_set_in_def)
    next
      case (prev k p q)
      have res: "interval_last_set_in s r = Some (if b < a then None else if a \<le> q then Some (min q b) else None)"
        using prev(1,2) bounds(1,2) by (simp add: interval_last_set_in_def)
      show ?thesis
      proof (cases "a \<le> b \<and> a \<le> q")
        case True
        then have "greatest (interval_elems s \<inter> {a..b}) = Some (min q b)"
          using prev by (intro greatestI) auto
        with True res bounds show ?thesis by simp
      next
        case False
        then have "interval_elems s \<inter> {a..b} = {}" using prev(6) by auto
        with False res bounds show ?thesis by auto
      qed
    qed
  qed
qed

text \<open>\<open>superset\<close>: what the loop sees are the intervals from \<open>current\<close> on.\<close>

abbreviation half_open :: "interval \<Rightarrow> interval" where
  "half_open r \<equiv> (fst r, snd r + 1)"

abbreviation pending :: "interval option \<Rightarrow> interval list \<Rightarrow> interval list" where
  "pending current sups \<equiv> (case current of None \<Rightarrow> sups | Some r \<Rightarrow> r # sups)"

fun superset_ref :: "interval list \<Rightarrow> interval list \<Rightarrow> bool" where
  "superset_ref [] sups = True"
| "superset_ref (q # subs) sups = (case dropWhile (\<lambda>r. snd r + 1 < fst q) sups of
       [] \<Rightarrow> False
     | r # rest \<Rightarrow> fst r \<le> fst q \<and> snd q \<le> snd r \<and> superset_ref subs (r # rest))"

lemma find_sup_eq:
  "find_sup (map half_open sups) (half_open q) None =
     (case dropWhile (\<lambda>r. snd r + 1 < fst q) sups of
        [] \<Rightarrow> (None, None, [])
      | r # rest \<Rightarrow> if fst r \<le> fst q \<and> snd q \<le> snd r then (Some True, Some (half_open r), map half_open rest)
                    else (Some False, None, map half_open rest))"
  by (induction sups) (auto simp: sup_contains_def)

lemma superset_loop_eq:
  "superset_loop (map half_open subs) (map half_open sups) (map_option half_open current) =
   superset_ref subs (pending current sups)"
proof (induction subs arbitrary: sups current)
  case (Cons q subs)
  note IH = Cons.IH
  have fresh: "superset_loop (map half_open (q # subs)) (map half_open zs) None = superset_ref (q # subs) zs" for zs
  proof (cases "dropWhile (\<lambda>r. snd r + 1 < fst q) zs")
    case Nil
    have ref: "superset_ref (q # subs) zs = False" by (simp only: superset_ref.simps Nil list.case)
    show ?thesis unfolding ref using find_sup_eq [of zs q, unfolded Nil] by simp
  next
    case (Cons r rest)
    have ref: "superset_ref (q # subs) zs = (fst r \<le> fst q \<and> snd q \<le> snd r \<and> superset_ref subs (r # rest))"
      by (simp only: superset_ref.simps Cons list.case)
    show ?thesis unfolding ref using find_sup_eq [of zs q, unfolded Cons] IH [of rest "Some r"] by auto
  qed
  show ?case
  proof (cases current)
    case None
    then show ?thesis using fresh by simp
  next
    case (Some r)
    show ?thesis
    proof (cases "snd r + 1 < fst q")
      case True
      then have "superset_loop (map half_open (q # subs)) (map half_open sups) (map_option half_open current) =
          superset_loop (map half_open (q # subs)) (map half_open sups) None"
        using Some by (simp add: sup_contains_def)
      then show ?thesis using fresh [of sups] Some True by simp
    next
      case False
      then show ?thesis using Some IH [of sups "Some r"] by (auto simp: sup_contains_def)
    qed
  qed
qed simp

lemma dropWhile_ivs:
  assumes "ivs_ok m d" "c \<le> x"
  shows "x \<in> ivs_elems (dropWhile (\<lambda>r. snd r + 1 < c) m) \<longleftrightarrow> x \<in> ivs_elems m"
  using assms by (induction m) (auto simp: ivs_ok_Cons)

lemma superset_ref_spec:
  assumes "ivs_ok subs d" "ivs_ok sups d'"
  shows "superset_ref subs sups \<longleftrightarrow> ivs_elems subs \<subseteq> ivs_elems sups"
  using assms
proof (induction subs arbitrary: sups)
  case (Cons q subs)
  let ?D = "dropWhile (\<lambda>r. snd r + 1 < fst q) sups"
  have q: "fst q \<le> snd q" "ivs_ok subs d" "\<forall>x \<in> ivs_elems subs. snd q + 1 < x"
    using Cons.prems(1) ivs_elems_above [of subs "snd q + 1"] by (simp_all add: ivs_ok_Cons)
  have D_ok: "ivs_ok ?D d'" using Cons.prems(2) by (metis ivs_ok_append takeWhile_dropWhile_id)
  have "ivs_elems (q # subs) \<subseteq> ivs_elems sups \<longleftrightarrow> {fst q..snd q} \<subseteq> ivs_elems ?D \<and> ivs_elems subs \<subseteq> ivs_elems ?D"
  proof -
    have "x \<in> ivs_elems ?D \<longleftrightarrow> x \<in> ivs_elems sups" if "fst q \<le> x" for x
      using dropWhile_ivs [OF Cons.prems(2) that] .
    moreover have "fst q \<le> x" if "x \<in> ivs_elems subs" for x using q(1,3) that by fastforce
    ultimately show ?thesis unfolding ivs_elems_simps by (auto simp: subset_iff)
  qed
  moreover have "{fst q..snd q} \<subseteq> ivs_elems ?D \<longleftrightarrow> (\<exists>r rest. ?D = r # rest \<and> fst r \<le> fst q \<and> snd q \<le> snd r)"
  proof (cases ?D)
    case Nil
    have "fst q \<in> {fst q..snd q}" using q(1) by simp
    then show ?thesis unfolding Nil by auto
  next
    case (Cons r rest)
    have r: "fst q \<le> snd r + 1" using Cons by (metis dropWhile_eq_Cons_conv not_less)
    have rest: "\<forall>x \<in> ivs_elems rest. snd r + 1 < x" "fst r \<le> snd r"
      using D_ok ivs_elems_above [of rest "snd r + 1"] unfolding Cons by (simp_all add: ivs_ok_Cons)
    have "fst r \<le> fst q \<and> snd q \<le> snd r" if sub: "{fst q..snd q} \<subseteq> ivs_elems ?D"
    proof -
      have "fst q \<in> {fst r..snd r} \<union> ivs_elems rest" using sub q(1) unfolding Cons by auto
      then have first: "fst r \<le> fst q" "fst q \<le> snd r" using r rest by auto
      have "snd q \<le> snd r"
      proof (rule ccontr)
        assume "\<not> snd q \<le> snd r"
        then have "snd r + 1 \<in> {fst q..snd q}" using first by simp
        then have "snd r + 1 \<in> {fst r..snd r} \<union> ivs_elems rest" using sub unfolding Cons by auto
        with rest show False by auto
      qed
      with first show ?thesis by simp
    qed
    moreover have "{fst q..snd q} \<subseteq> ivs_elems ?D" if "fst r \<le> fst q \<and> snd q \<le> snd r"
      using that unfolding Cons by auto
    moreover have "(\<exists>r rest. ?D = r # rest \<and> fst r \<le> fst q \<and> snd q \<le> snd r) \<longleftrightarrow> fst r \<le> fst q \<and> snd q \<le> snd r"
      unfolding Cons by simp
    ultimately show ?thesis by metis
  qed
  moreover have "superset_ref (q # subs) sups \<longleftrightarrow>
      (\<exists>r rest. ?D = r # rest \<and> fst r \<le> fst q \<and> snd q \<le> snd r) \<and> superset_ref subs ?D"
    by (simp only: superset_ref.simps, cases ?D; simp only: list.case list.distinct list.inject) blast+
  ultimately show ?case using Cons.IH [OF q(2) D_ok] by simp
qed simp

lemma iter_intervals_eq: "iter_intervals s = map half_open (iv_map s)"
  by (simp add: iter_intervals_def case_prod_beta)

lemma interval_superset_spec:
  assumes "interval_inv s" "interval_inv t"
  shows "interval_superset s t \<longleftrightarrow> interval_elems t \<subseteq> interval_elems s"
  using superset_loop_eq [of "iv_map t" "iv_map s" None] assms
    superset_ref_spec [of "iv_map t" "iv_domain t" "iv_map s" "iv_domain s"]
  by (simp add: interval_superset_def iter_intervals_eq interval_inv_def)


section \<open>Updates\<close>

lemma interval_iter_spec:
  assumes "interval_inv s"
  shows "interval_iter s = sorted_list_of_set (interval_elems s)"
proof -
  have "sorted_wrt (<) (concat (map (\<lambda>r. [fst r..<snd r + 1]) m))" if "ivs_ok m d" for m d
    using that
  proof (induction m)
    case (Cons r m)
    have "\<forall>x \<in> ivs_elems m. snd r + 1 < x"
      using Cons.prems ivs_elems_above [of m "snd r + 1"] by (simp add: ivs_ok_Cons)
    moreover have "set (concat (map (\<lambda>r. [fst r..<snd r + 1]) m)) = ivs_elems m" by (auto simp: ivs_elems_def)
    ultimately show ?case using Cons by (fastforce simp: sorted_wrt_append ivs_ok_Cons simp del: upt_Suc)
  qed simp
  moreover have "set (interval_iter s) = interval_elems s"
    by (auto simp: interval_iter_def iter_intervals_eq ivs_elems_def)
  ultimately show ?thesis using assms
    by (metis (no_types, lifting) interval_inv_def interval_iter_def iter_intervals_eq map_map comp_def fst_conv snd_conv
        case_prod_beta sorted_list_of_set.idem_if_sorted_distinct strict_sorted_iff map_cong)
qed

abbreviation interval_rel ::
    "(nat set \<Rightarrow> nat set \<Rightarrow> nat set) \<Rightarrow> nat set \<Rightarrow> interval_set \<Rightarrow> (bool \<times> interval_set) option \<Rightarrow> bool" where
  "interval_rel \<equiv> relation_spec iv_domain interval_elems interval_inv"

context smallvec_laws
begin

lemma interval_insert_range_spec:
  assumes "interval_inv s" "iv_range_ok r (iv_domain s)"
  shows "interval_rel (\<union>) (range_elems r (iv_domain s)) s (interval_insert_range V s r)"
proof -
  have ok: "ivs_ok (iv_map s) (iv_domain s)" and d: "iv_domain s < 2 ^ 32" using assms(1) by (simp_all add: interval_inv_def)
  from assms(2) d show ?thesis
  proof (cases rule: iv_range_cases)
    case empty
    with assms(1) show ?thesis by (intro relation_specI [of _ False s]) (auto simp: interval_insert_range_def)
  next
    case (bounds a b)
    show ?thesis
    proof (cases "a \<le> b")
      case True
      obtain m where m: "insert_interval V (iv_map s) a b = Some (\<not> {a..b} \<subseteq> interval_elems s, m)"
          "ivs_ok m (iv_domain s)" "ivs_elems m = interval_elems s \<union> {a..b}"
        using insert_interval_spec [OF ok d True bounds(3)] by blast
      show ?thesis
        by (rule relation_specI [of _ "\<not> {a..b} \<subseteq> interval_elems s" "s\<lparr>iv_map := m\<rparr>"])
           (use m bounds True d in \<open>auto simp: interval_insert_range_def interval_inv_def\<close>)
    next
      case False
      with bounds assms(1) show ?thesis
        by (intro relation_specI [of _ False s]) (auto simp: interval_insert_range_def)
    qed
  qed
qed

lemma interval_insert_spec:
  assumes "interval_inv s" "x < iv_domain s"
  shows "interval_rel (\<union>) {x} s (interval_insert V s x)"
proof -
  have "range_elems (Included x, Included x) (iv_domain s) = {x}"
    using assms(2) by (auto simp: range_elems_def range_contains_def)
  moreover have "iv_range_ok (Included x, Included x) (iv_domain s)"
    using assms by (simp add: iv_range_ok_def interval_inv_def)
  ultimately show ?thesis
    using interval_insert_range_spec [OF assms(1)] by (metis interval_insert_def)
qed

lemma interval_insert_all_spec:
  assumes "interval_inv s"
  shows "\<exists>s'. interval_insert_all V s = Some s' \<and> interval_inv s' \<and> iv_domain s' = iv_domain s \<and>
              interval_elems s' = {..<iv_domain s}"
proof (cases "iv_domain s = 0")
  case True
  with assms show ?thesis by (simp add: interval_insert_all_def interval_clear_def clear_ok interval_inv_def)
next
  case False
  then have "checked_sub (iv_domain s) 1 = Some (iv_domain s - 1)" by simp
  with False assms show ?thesis
    by (auto simp: interval_insert_all_def interval_clear_def clear_ok push_ok interval_inv_def ivs_ok_Cons)
qed

lemma interval_union_spec:
  assumes s: "interval_inv s" and t: "interval_inv t" and d: "iv_domain s = iv_domain t"
  shows "interval_rel (\<union>) (interval_elems t) s (interval_union V s t)"
proof -
  let ?step = "\<lambda>(start, end) (did_insert, s). do {
         (b, s) \<leftarrow> interval_insert_range V s (Included start, Excluded end);
         Some (did_insert \<or> b, s)
       }"
  let ?I = "\<lambda>ys (c, u). interval_inv u \<and> iv_domain u = iv_domain s \<and>
      interval_elems u = interval_elems s \<union> (\<Union>r \<in> set ys. {fst r..<snd r}) \<and> c = (interval_elems u \<noteq> interval_elems s)"
  have "\<exists>r. for_each ?step (iter_intervals t) (False, s) = Some r \<and> ?I (iter_intervals t) r"
  proof (rule for_each_rule [where I = ?I])
    fix ys y zs r
    assume split: "iter_intervals t = ys @ y # zs" and I: "?I ys r"
    obtain c u where r: "r = (c, u)" by fastforce
    have "y \<in> set (iter_intervals t)" using split by simp
    then obtain q where q: "q \<in> set (iv_map t)" "y = half_open q" by (auto simp: iter_intervals_eq)
    have qd: "fst q \<le> snd q" "snd q < iv_domain s" "iv_domain s < 2 ^ 32"
      using t d ivs_ok_bound [OF _ q(1)] by (auto simp: interval_inv_def)
    let ?rng = "(Included (fst q), Excluded (snd q + 1)) :: nat range_bounds"
    have "iv_range_ok ?rng (iv_domain u)" using qd I r by (simp add: iv_range_ok_def)
    moreover have "range_elems ?rng (iv_domain u) = {fst y..<snd y}"
      using qd I r q(2) by (auto simp: range_elems_def range_contains_def)
    ultimately obtain u' where u': "interval_insert_range V u ?rng = Some (interval_elems u' \<noteq> interval_elems u, u')"
        "interval_inv u'" "iv_domain u' = iv_domain u" "interval_elems u' = interval_elems u \<union> {fst y..<snd y}"
      using interval_insert_range_spec [of u ?rng] I r by (auto simp: relation_spec_def)
    then have "?step y r = Some (c \<or> interval_elems u' \<noteq> interval_elems u, u')" by (simp add: r q(2))
    moreover have "?I (ys @ [y]) (c \<or> interval_elems u' \<noteq> interval_elems u, u')" using u' I r by auto
    ultimately show "\<exists>r'. ?step y r = Some r' \<and> ?I (ys @ [y]) r'" by blast
  qed (use s in simp)
  moreover have "(\<Union>r \<in> set (iter_intervals t). {fst r..<snd r}) = interval_elems t"
    by (auto simp: iter_intervals_eq ivs_elems_def)
  ultimately show ?thesis using d by (auto simp: interval_union_def relation_spec_def)
qed

end

text \<open>\<open>check_invariants\<close>, which the debug assertions run, holds of every well-formed set.\<close>

lemma check_intervals_ok:
  assumes "ivs_ok m d" "d < 2 ^ 32" "\<forall>x. cur = Some x \<longrightarrow> x < d \<and> (\<forall>r \<in> set m. x + 1 < fst r)"
  shows "check_intervals m cur = Some (True, if m = [] then cur else Some (snd (last m)))"
  using assms
proof (induction m arbitrary: cur)
  case (Cons r m)
  have "check_intervals m (Some (snd r)) = Some (True, if m = [] then Some (snd r) else Some (snd (last m)))"
    by (rule Cons.IH) (use Cons.prems in \<open>auto simp: ivs_ok_Cons\<close>)
  with Cons.prems show ?case by (cases r; cases cur) (auto simp: ivs_ok_Cons)
qed simp

lemma interval_check_invariants_ok:
  assumes "interval_inv s"
  shows "interval_check_invariants s = Some True"
proof -
  have ok: "ivs_ok (iv_map s) (iv_domain s)" "iv_domain s < 2 ^ 32" using assms by (simp_all add: interval_inv_def)
  then have "check_intervals (iv_map s) None = Some (True, if iv_map s = [] then None else Some (snd (last (iv_map s))))"
    by (intro check_intervals_ok) auto
  moreover have "snd (last (iv_map s)) < iv_domain s" if "iv_map s \<noteq> []"
    using ivs_ok_bound [OF ok(1)] that by simp
  ultimately show ?thesis using ok(2) by (simp add: interval_check_invariants_def as_u32_def)
qed

definition list_smallvec :: smallvec where
  "list_smallvec = \<lparr>
     sv_push = (\<lambda>xs v. xs @ [v]),
     sv_insert = (\<lambda>xs i v. insert_at i v xs),
     sv_drain = (\<lambda>xs a b. if a \<le> b \<and> b \<le> length xs then Some (take a xs @ drop b xs) else None),
     sv_clear = (\<lambda>xs. [])\<rparr>"

interpretation list_sv: smallvec_laws list_smallvec
  by unfold_locales (simp_all add: list_smallvec_def insert_at_def)


section \<open>The matrix as a relation\<close>

definition imatrix_inv :: "interval_matrix \<Rightarrow> bool" where
  "imatrix_inv m \<longleftrightarrow> im_column_size m < 2 ^ 32 \<and>
     (\<forall>s \<in> set (im_rows m). interval_inv s \<and> iv_domain s = im_column_size m)"

definition imatrix_rel :: "interval_matrix \<Rightarrow> (nat \<times> nat) set" where
  "imatrix_rel m = {(r, c). r < length (im_rows m) \<and> c \<in> interval_elems (im_rows m ! r)}"

lemma interval_new_spec [simp]:
  "iv_domain (interval_new d) = d" "interval_elems (interval_new d) = {}"
  "d < 2 ^ 32 \<Longrightarrow> interval_inv (interval_new d)"
  by (simp_all add: interval_new_def interval_inv_def)

lemma imatrix_new_spec:
  "d < 2 ^ 32 \<Longrightarrow> imatrix_inv (imatrix_new d)" "imatrix_rel (imatrix_new d) = {}" "im_column_size (imatrix_new d) = d"
  by (simp_all add: imatrix_new_def imatrix_inv_def imatrix_rel_def)

lemma imatrix_row_Image: "imatrix_rel m `` {r} = (if r < length (im_rows m) then interval_elems (im_rows m ! r) else {})"
  by (auto simp: imatrix_rel_def)

lemma imatrix_ensure_row_spec:
  assumes "imatrix_inv m"
  shows "\<exists>s m'. imatrix_ensure_row m r = Some (s, m') \<and> imatrix_inv m' \<and> imatrix_rel m' = imatrix_rel m \<and>
      im_column_size m' = im_column_size m \<and> r < length (im_rows m') \<and> im_rows m' ! r = s \<and> interval_inv s \<and>
      iv_domain s = im_column_size m \<and> interval_elems s = imatrix_rel m `` {r} \<and> length (im_rows m) \<le> length (im_rows m') \<and>
      (\<forall>q < length (im_rows m). im_rows m' ! q = im_rows m ! q)"
proof -
  let ?n = "interval_new (im_column_size m)" and ?v = "im_rows m"
  let ?rows = "ensure_contains_elem ?v r ?n"
  have nth: "?rows ! q = (if q < length ?v then ?v ! q else ?n)" if "q < length ?rows" for q
    using that by (auto simp: ensure_contains_elem_spec)
  have len: "length ?rows = max (length ?v) (r + 1)" by (simp add: ensure_contains_elem_spec)
  have inv: "\<forall>s \<in> set ?rows. interval_inv s \<and> iv_domain s = im_column_size m"
    using assms nth nth_mem by (fastforce simp: imatrix_inv_def in_set_conv_nth [of _ ?rows])
  have "imatrix_inv (m\<lparr>im_rows := ?rows\<rparr>)" using assms inv by (simp add: imatrix_inv_def)
  moreover have "imatrix_rel (m\<lparr>im_rows := ?rows\<rparr>) = imatrix_rel m"
    using nth len by (auto simp: imatrix_rel_def split: if_splits)
  moreover have r: "r < length ?rows" by (simp add: len)
  moreover have "interval_elems (?rows ! r) = imatrix_rel m `` {r}" using nth [OF r] by (simp add: imatrix_row_Image)
  moreover have "interval_inv (?rows ! r) \<and> iv_domain (?rows ! r) = im_column_size m" using inv r nth_mem by blast
  ultimately show ?thesis using len nth
    by (intro exI [of _ "?rows ! r"] exI [of _ "m\<lparr>im_rows := ?rows\<rparr>"]) (simp add: imatrix_ensure_row_def)
qed

lemma imatrix_store:
  assumes "imatrix_inv m" "r < length (im_rows m)" "interval_inv s" "iv_domain s = im_column_size m"
  shows "\<exists>rows. store_at (im_rows m) r s = Some rows \<and> imatrix_inv (m\<lparr>im_rows := rows\<rparr>) \<and>
      imatrix_rel (m\<lparr>im_rows := rows\<rparr>) = with_row (imatrix_rel m) r (interval_elems s)"
proof -
  let ?rows = "(im_rows m)[r := s]"
  have "imatrix_inv (m\<lparr>im_rows := ?rows\<rparr>)"
    using assms by (auto simp: imatrix_inv_def dest!: set_update_subset_insert [THEN subsetD])
  moreover have "imatrix_rel (m\<lparr>im_rows := ?rows\<rparr>) = with_row (imatrix_rel m) r (interval_elems s)"
    using assms(2) by (auto simp: imatrix_rel_def with_row_def nth_list_update)
  ultimately show ?thesis using assms(2) by (simp add: store_at_def)
qed

lemma imatrix_update_row_spec:
  assumes m: "imatrix_inv m"
    and upd: "\<And>s. interval_inv s \<Longrightarrow> iv_domain s = im_column_size m \<Longrightarrow> interval_rel f B s (upd s)"
  shows "\<exists>m'. imatrix_update_row m r upd = Some (imatrix_rel m' \<noteq> imatrix_rel m, m') \<and> imatrix_inv m' \<and>
      im_column_size m' = im_column_size m \<and>
      imatrix_rel m' = with_row (imatrix_rel m) r (f (imatrix_rel m `` {r}) B)"
proof -
  obtain s m1 where s: "imatrix_ensure_row m r = Some (s, m1)" "imatrix_inv m1" "imatrix_rel m1 = imatrix_rel m"
      "im_column_size m1 = im_column_size m" "r < length (im_rows m1)" "interval_inv s"
      "iv_domain s = im_column_size m" "interval_elems s = imatrix_rel m `` {r}"
    using imatrix_ensure_row_spec [OF m] by metis
  obtain s' where s': "upd s = Some (interval_elems s' \<noteq> interval_elems s, s')" "interval_inv s'"
      "iv_domain s' = iv_domain s" "interval_elems s' = f (interval_elems s) B"
    using upd [OF s(6,7)] by (auto simp: relation_spec_def)
  obtain rows where rows: "store_at (im_rows m1) r s' = Some rows" "imatrix_inv (m1\<lparr>im_rows := rows\<rparr>)"
      "imatrix_rel (m1\<lparr>im_rows := rows\<rparr>) = with_row (imatrix_rel m) r (interval_elems s')"
    using imatrix_store [OF s(2,5) s'(2)] s(3,4,7) s'(3) by auto
  have "with_row (imatrix_rel m) r (interval_elems s') \<noteq> imatrix_rel m \<longleftrightarrow> interval_elems s' \<noteq> interval_elems s"
    using with_row_eq [of "imatrix_rel m" r "interval_elems s'"] s(8) by auto
  then show ?thesis using s rows s'
    by (intro exI [of _ "m1\<lparr>im_rows := rows\<rparr>"]) (simp add: imatrix_update_row_def)
qed

lemma imatrix_contains_eq:
  assumes "imatrix_inv m" "c < im_column_size m"
  shows "imatrix_contains m r c = Some ((r, c) \<in> imatrix_rel m)"
proof (cases "r < length (im_rows m)")
  case True
  then have "interval_inv (im_rows m ! r)" using assms(1) by (simp add: imatrix_inv_def)
  moreover have "c < 2 ^ 32" using assms by (simp add: imatrix_inv_def)
  ultimately show ?thesis using True
    by (simp add: imatrix_contains_def imatrix_row_def index_vec_get_def imatrix_rel_def interval_contains_eq)
qed (simp add: imatrix_contains_def imatrix_row_def index_vec_get_def imatrix_rel_def)

context smallvec_laws
begin

lemma imatrix_insert_ok:
  assumes "imatrix_inv m" "c < im_column_size m"
  shows "\<exists>m'. imatrix_insert V m r c = Some ((r, c) \<notin> imatrix_rel m, m') \<and> imatrix_inv m' \<and>
      im_column_size m' = im_column_size m \<and> imatrix_rel m' = insert (r, c) (imatrix_rel m)"
proof -
  have "\<exists>m'. imatrix_insert V m r c = Some (imatrix_rel m' \<noteq> imatrix_rel m, m') \<and> imatrix_inv m' \<and>
      im_column_size m' = im_column_size m \<and>
      imatrix_rel m' = with_row (imatrix_rel m) r (imatrix_rel m `` {r} \<union> {c})"
    unfolding imatrix_insert_def
    by (rule imatrix_update_row_spec [OF assms(1)]) (use assms(2) interval_insert_spec in auto)
  then show ?thesis unfolding with_row_insert by auto
qed

lemma imatrix_insert_range_ok:
  assumes "imatrix_inv m" "iv_range_ok rng (im_column_size m)"
  shows "\<exists>m'. imatrix_insert_range V m r rng = Some m' \<and> imatrix_inv m' \<and>
      im_column_size m' = im_column_size m \<and>
      imatrix_rel m' = imatrix_rel m \<union> {r} \<times> range_elems rng (im_column_size m)"
proof -
  have upd: "interval_rel (\<union>) (range_elems rng (im_column_size m)) s (interval_insert_range V s rng)"
    if "interval_inv s" "iv_domain s = im_column_size m" for s
    using interval_insert_range_spec [OF that(1), of rng] assms(2) unfolding that(2) .
  have "\<exists>m'. imatrix_update_row m r (\<lambda>r. interval_insert_range V r rng) =
        Some (imatrix_rel m' \<noteq> imatrix_rel m, m') \<and> imatrix_inv m' \<and> im_column_size m' = im_column_size m \<and>
      imatrix_rel m' = with_row (imatrix_rel m) r (imatrix_rel m `` {r} \<union> range_elems rng (im_column_size m))"
    by (rule imatrix_update_row_spec [OF assms(1) upd])
  then show ?thesis unfolding with_row_insert imatrix_insert_range_def by auto
qed

lemma imatrix_union_row_ok:
  assumes "imatrix_inv m" "interval_inv s" "iv_domain s = im_column_size m"
  shows "\<exists>m'. imatrix_union_row V m r s = Some (imatrix_rel m' \<noteq> imatrix_rel m, m') \<and> imatrix_inv m' \<and>
      im_column_size m' = im_column_size m \<and> imatrix_rel m' = imatrix_rel m \<union> {r} \<times> interval_elems s"
proof -
  have "\<exists>m'. imatrix_union_row V m r s = Some (imatrix_rel m' \<noteq> imatrix_rel m, m') \<and> imatrix_inv m' \<and>
      im_column_size m' = im_column_size m \<and>
      imatrix_rel m' = with_row (imatrix_rel m) r (imatrix_rel m `` {r} \<union> interval_elems s)"
    unfolding imatrix_union_row_def
    by (rule imatrix_update_row_spec [OF assms(1)]) (use assms interval_union_spec in auto)
  then show ?thesis unfolding with_row_insert .
qed

lemma imatrix_union_rows_ok:
  assumes m: "imatrix_inv m"
  shows "\<exists>m'. imatrix_union_rows V m read write = Some (imatrix_rel m' \<noteq> imatrix_rel m, m') \<and> imatrix_inv m' \<and>
      im_column_size m' = im_column_size m \<and>
      imatrix_rel m' = imatrix_rel m \<union> {write} \<times> (imatrix_rel m `` {read})"
proof (cases "read = write \<or> length (im_rows m) \<le> read")
  case True
  then have "imatrix_union_rows V m read write = Some (False, m)"
    by (auto simp: imatrix_union_rows_def index_vec_get_def)
  moreover have "imatrix_rel m \<union> {write} \<times> (imatrix_rel m `` {read}) = imatrix_rel m"
    using True by (auto simp: imatrix_rel_def)
  ultimately show ?thesis using m by auto
next
  case False
  obtain s m1 where s: "imatrix_ensure_row m write = Some (s, m1)" "imatrix_inv m1" "imatrix_rel m1 = imatrix_rel m"
      "im_column_size m1 = im_column_size m" "write < length (im_rows m1)" "im_rows m1 ! write = s" "interval_inv s"
      "iv_domain s = im_column_size m" "interval_elems s = imatrix_rel m `` {write}"
      "length (im_rows m) \<le> length (im_rows m1)"
    using imatrix_ensure_row_spec [OF m, of "write"] by metis
  let ?t = "im_rows m1 ! read"
  have read: "read < length (im_rows m1)" using False s(10) by simp
  have t: "interval_inv ?t" "iv_domain ?t = im_column_size m" "interval_elems ?t = imatrix_rel m `` {read}"
    using s(2-4) read imatrix_row_Image [of m1 read] by (simp_all add: imatrix_inv_def)
  obtain s' where s': "interval_union V s ?t = Some (interval_elems s' \<noteq> interval_elems s, s')" "interval_inv s'"
      "iv_domain s' = iv_domain s" "interval_elems s' = interval_elems s \<union> interval_elems ?t"
    using interval_union_spec [OF s(7) t(1)] s(8) t(2) by (auto simp: relation_spec_def)
  obtain rows where rows: "store_at (im_rows m1) write s' = Some rows" "imatrix_inv (m1\<lparr>im_rows := rows\<rparr>)"
      "imatrix_rel (m1\<lparr>im_rows := rows\<rparr>) = with_row (imatrix_rel m) write (interval_elems s')"
    using imatrix_store [OF s(2,5) s'(2)] s(3,4,8) s'(3) by auto
  have "imatrix_rel (m1\<lparr>im_rows := rows\<rparr>) = imatrix_rel m \<union> {write} \<times> (imatrix_rel m `` {read})"
    unfolding rows(3) s'(4) s(9) t(3) by (rule with_row_insert)
  moreover have "imatrix_rel (m1\<lparr>im_rows := rows\<rparr>) \<noteq> imatrix_rel m \<longleftrightarrow> interval_elems s' \<noteq> interval_elems s"
    using rows(3) with_row_eq [of "imatrix_rel m" "write" "interval_elems s'"] s(9) by auto
  moreover have "index_vec_pick2 (im_rows m1) read write = Some (?t, s)"
    using index_vec_pick2_eq [of read "write" "im_rows m1"] False read s(5,6) by simp
  ultimately show ?thesis using False s rows s'
    by (intro exI [of _ "m1\<lparr>im_rows := rows\<rparr>"]) (simp add: imatrix_union_rows_def index_vec_get_def)
qed

end

sublocale smallvec_laws \<subseteq> interval_mat: bit_relation imatrix_rel imatrix_inv
  "\<lambda>_ _. True" "\<lambda>m c. c < im_column_size m" imatrix_contains "imatrix_insert V" "imatrix_union_rows V"
proof unfold_locales
  fix m r c w
  assume m: "imatrix_inv m"
  show "c < im_column_size m \<Longrightarrow> imatrix_contains m r c = Some ((r, c) \<in> imatrix_rel m)"
    using m by (rule imatrix_contains_eq)
  show "\<exists>m'. imatrix_insert V m r c = Some ((r, c) \<notin> imatrix_rel m, m') \<and> imatrix_inv m' \<and>
      (\<lambda>_ :: nat. True) = (\<lambda>_. True) \<and> (\<lambda>c. c < im_column_size m') = (\<lambda>c. c < im_column_size m) \<and>
      imatrix_rel m' = insert (r, c) (imatrix_rel m)" if "c < im_column_size m"
    using imatrix_insert_ok [OF m that, of r] by auto
  show "\<exists>m'. imatrix_union_rows V m r w = Some (imatrix_rel m' \<noteq> imatrix_rel m, m') \<and> imatrix_inv m' \<and>
      (\<lambda>_ :: nat. True) = (\<lambda>_. True) \<and> (\<lambda>c. c < im_column_size m') = (\<lambda>c. c < im_column_size m) \<and>
      imatrix_rel m' = imatrix_rel m \<union> {w} \<times> (imatrix_rel m `` {r})"
    using imatrix_union_rows_ok [OF m, of r w] by auto
qed


section \<open>Properties\<close>

text \<open>C11: \<open>IntervalSet::insert_range\<close> on a range in bounds adds exactly the points of the range, merges every
  interval it overlaps or touches so that the intervals stay sorted, disjoint and never adjacent
  (\<open>check_invariants\<close> holds of the result), and reports whether the set grew.\<close>

theorem interval_insert_range_correct:
  assumes "smallvec_laws V" "interval_inv s" "iv_range_ok r (iv_domain s)"
  shows "\<exists>t. interval_insert_range V s r = Some (interval_elems t \<noteq> interval_elems s, t) \<and> interval_inv t \<and>
    interval_check_invariants t = Some True \<and> iv_domain t = iv_domain s \<and>
    interval_elems t = interval_elems s \<union> range_elems r (iv_domain s)"
  using smallvec_laws.interval_insert_range_spec [OF assms] interval_check_invariants_ok
  unfolding relation_spec_def by blast

theorem interval_insert_range_correct_witness:
  "\<exists>t. interval_insert_range list_smallvec (interval_new 100) (Included 3, Included 9) = Some (True, t) \<and>
     interval_elems t = {3..9}"
proof -
  have "range_elems (Included 3, Included 9) 100 = {3..9}" by (auto simp: range_elems_def range_contains_def)
  then show ?thesis
    using interval_insert_range_correct [OF list_sv.smallvec_laws_axioms, of "interval_new 100" "(Included 3, Included 9)"]
    by (auto simp: iv_range_ok_def)
qed

text \<open>Queries of an \<open>IntervalSet\<close>: \<open>contains\<close> (a binary search over interval starts) decides membership,
  \<open>last_set_in\<close> returns the greatest element in a range, \<open>superset\<close> (a merge of two interval lists) decides
  inclusion, and \<open>iter\<close> lists the elements in increasing order.\<close>

theorem interval_queries:
  assumes "interval_inv s" "interval_inv t" "x < 2 ^ 32" "iv_range_ok r (iv_domain s)"
  shows "interval_contains s x = Some (x \<in> interval_elems s) \<and>
    interval_last_set_in s r = Some (greatest (interval_elems s \<inter> range_elems r (iv_domain s))) \<and>
    (interval_superset s t \<longleftrightarrow> interval_elems t \<subseteq> interval_elems s) \<and>
    interval_iter s = sorted_list_of_set (interval_elems s)"
  using interval_contains_eq [OF assms(1,3)] interval_last_set_in_spec [OF assms(1,4)]
    interval_superset_spec [OF assms(1,2)] interval_iter_spec [OF assms(1)] by blast

theorem interval_queries_witness:
  "interval_contains (interval_new 10) 4 = Some False \<and> interval_superset (interval_new 10) (interval_new 10)"
  using interval_queries [of "interval_new 10" "interval_new 10" 4 "(Unbounded, Unbounded)"]
  by (simp add: iv_range_ok_def)

text \<open>\<open>IntervalSet::union\<close> of two sets over the same domain computes the union, keeps the canonical form
  and reports whether the receiver grew; \<open>insert_all\<close> gives the whole domain, also when it is empty.\<close>

theorem interval_unions:
  assumes "smallvec_laws V" "interval_inv s" "interval_inv t" "iv_domain s = iv_domain t"
  shows "relation_spec iv_domain interval_elems interval_inv (\<union>) (interval_elems t) s (interval_union V s t) \<and>
    (\<exists>u. interval_insert_all V s = Some u \<and> interval_inv u \<and> iv_domain u = iv_domain s \<and>
         interval_elems u = {..<iv_domain s})"
  using smallvec_laws.interval_union_spec [OF assms] smallvec_laws.interval_insert_all_spec [OF assms(1,2)] by blast

theorem interval_unions_witness:
  "\<exists>u. interval_insert_all list_smallvec (interval_new 8) = Some u \<and> interval_elems u = {..<8}"
  using interval_unions [OF list_sv.smallvec_laws_axioms, of "interval_new 8" "interval_new 8"] by auto

text \<open>\<open>SparseIntervalMatrix\<close> as a relation: \<open>insert\<close>, \<open>insert_range\<close>, \<open>union_row\<close> and \<open>union_rows\<close> add
  exactly the pairs they document, creating rows on demand, and \<open>contains\<close> decides the relation.\<close>

theorem imatrix_operations:
  assumes "smallvec_laws V" "imatrix_inv m" "c < im_column_size m" "interval_inv s" "iv_domain s = im_column_size m"
    and "iv_range_ok rng (im_column_size m)"
  shows "(\<exists>n. imatrix_insert V m r c = Some ((r, c) \<notin> imatrix_rel m, n) \<and> imatrix_inv n \<and>
            imatrix_rel n = insert (r, c) (imatrix_rel m)) \<and>
    (\<exists>n. imatrix_insert_range V m r rng = Some n \<and> imatrix_inv n \<and>
            imatrix_rel n = imatrix_rel m \<union> {r} \<times> range_elems rng (im_column_size m)) \<and>
    (\<exists>n. imatrix_union_row V m r s = Some (imatrix_rel n \<noteq> imatrix_rel m, n) \<and> imatrix_inv n \<and>
            imatrix_rel n = imatrix_rel m \<union> {r} \<times> interval_elems s) \<and>
    (\<exists>n. imatrix_union_rows V m q r = Some (imatrix_rel n \<noteq> imatrix_rel m, n) \<and> imatrix_inv n \<and>
            imatrix_rel n = imatrix_rel m \<union> {r} \<times> (imatrix_rel m `` {q})) \<and>
    imatrix_contains m r c = Some ((r, c) \<in> imatrix_rel m)"
  using smallvec_laws.imatrix_insert_ok [OF assms(1-3), of r] smallvec_laws.imatrix_insert_range_ok [OF assms(1,2,6), of r]
    smallvec_laws.imatrix_union_row_ok [OF assms(1,2,4,5), of r] smallvec_laws.imatrix_union_rows_ok [OF assms(1,2), of q r]
    imatrix_contains_eq [OF assms(2,3), of r] by blast

theorem imatrix_operations_witness:
  "\<exists>n. imatrix_insert list_smallvec (imatrix_new 50) 3 20 = Some (True, n) \<and> imatrix_rel n = {(3, 20)}"
  using imatrix_operations [OF list_sv.smallvec_laws_axioms, of "imatrix_new 50" 20 "interval_new 50" "(Unbounded, Unbounded)" 3 3]
  by (auto simp: imatrix_new_spec iv_range_ok_def)

end
