(* ===== verification/Finite_Bit_Set.thy ===== *)
theory Finite_Bit_Set
  imports Rust_Prelude
begin

text \<open>
  \<open>FiniteBitSet<T>\<close> of \<open>compiler/rustc_index/src/bit_set.rs\<close>: a set of indices below 32, 64 or 128 in
  one machine word. The trait \<open>FiniteBitSetTy\<close> is implemented by \<open>u32\<close>, \<open>u64\<close> and \<open>u128\<close> with the same
  constants and shifts, so the model is over a word of any length.
\<close>

text \<open>\<open>checked_shl\<close> and \<open>checked_shr\<close> of the unsigned integers: \<open>None\<close> when the shift is too wide.\<close>

definition checked_shl :: "'a::len word \<Rightarrow> nat \<Rightarrow> 'a word option" where
  "checked_shl w rhs = (if rhs < LENGTH('a) then Some (push_bit rhs w) else None)"

definition checked_shr :: "'a::len word \<Rightarrow> nat \<Rightarrow> 'a word option" where
  "checked_shr w rhs = (if rhs < LENGTH('a) then Some (drop_bit rhs w) else None)"

definition unwrap_or :: "'a option \<Rightarrow> 'a \<Rightarrow> 'a" where
  "unwrap_or x d = (case x of Some v \<Rightarrow> v | None \<Rightarrow> d)"

definition finite_new_empty :: "'a::len word" where
  "finite_new_empty = 0"

definition finite_set :: "'a::len word \<Rightarrow> nat \<Rightarrow> 'a word" where
  "finite_set s index = s OR unwrap_or (checked_shl 1 index) 0"

definition finite_clear :: "'a::len word \<Rightarrow> nat \<Rightarrow> 'a word" where
  "finite_clear s index = s AND NOT (unwrap_or (checked_shl 1 index) 0)"

text \<open>The subtraction \<open>range.end - range.start\<close> underflows on a reversed range.\<close>

definition finite_set_range :: "'a::len word \<Rightarrow> nat \<Rightarrow> nat \<Rightarrow> 'a word option" where
  "finite_set_range s start end = do {
     width \<leftarrow> checked_sub end start;
     let bits = unwrap_or (checked_shl (NOT (unwrap_or (checked_shl (NOT 0) width) 0)) start) 0;
     Some (s OR bits)
   }"

definition finite_is_empty :: "'a::len word \<Rightarrow> bool" where
  "finite_is_empty s \<longleftrightarrow> s = 0"

definition finite_within_domain :: "'a::len word \<Rightarrow> nat \<Rightarrow> bool" where
  "finite_within_domain s index \<longleftrightarrow> index < LENGTH('a)"

definition finite_contains :: "'a::len word \<Rightarrow> nat \<Rightarrow> bool option" where
  "finite_contains s index =
     (if finite_within_domain s index then Some (unwrap_or (checked_shr s index) 1 AND 1 = 1) else None)"


text \<open>Inside the domain the word is the set of its bits; outside, \<open>contains\<close> gives no answer.\<close>

lemma finite_contains_eq:
  "finite_contains s i = (if i < LENGTH('a) then Some (bit s i) else None)" for s :: "'a::len word"
proof -
  have "drop_bit i s AND 1 = 1 \<longleftrightarrow> bit s i"
    by (simp add: and_one_eq odd_iff_mod_2_eq_one bit_iff_odd_drop_bit)
  then show ?thesis
    by (simp add: finite_contains_def finite_within_domain_def checked_shr_def unwrap_or_def)
qed

lemma bit_finite_set: "bit (finite_set s i) j \<longleftrightarrow> bit s j \<or> i = j \<and> i < LENGTH('a)" for s :: "'a::len word"
  by (auto simp: finite_set_def checked_shl_def unwrap_or_def bit_or_iff bit_exp_iff)

lemma bit_finite_clear: "bit (finite_clear s i) j \<longleftrightarrow> bit s j \<and> i \<noteq> j" for s :: "'a::len word"
  by (auto simp: finite_clear_def checked_shl_def unwrap_or_def bit_and_iff bit_not_iff bit_exp_iff
      dest: bit_less_length)

lemma finite_set_range_panics: "b < a \<Longrightarrow> finite_set_range s a b = None"
  by (simp add: finite_set_range_def)

lemma bit_checked_shl:
  "bit (unwrap_or (checked_shl m a) 0) j \<longleftrightarrow> a \<le> j \<and> bit m (j - a) \<and> j < LENGTH('a)" for m :: "'a::len word"
  by (auto simp: unwrap_or_def checked_shl_def bit_push_bit_iff)

lemma finite_set_range_spec:
  fixes s :: "'a::len word"
  assumes "a \<le> b"
  shows "\<exists>t. finite_set_range s a b = Some t \<and> (\<forall>j. bit t j \<longleftrightarrow> bit s j \<or> a \<le> j \<and> j < b \<and> j < LENGTH('a))"
proof -
  let ?m = "NOT (unwrap_or (checked_shl (NOT 0) (b - a)) 0) :: 'a word"
  have m: "bit ?m j \<longleftrightarrow> j < b - a \<and> j < LENGTH('a)" for j
    by (auto simp: unwrap_or_def checked_shl_def bit_not_iff bit_push_bit_iff bit_mask_iff)
  have "bit (s OR unwrap_or (checked_shl ?m a) 0) j \<longleftrightarrow> bit s j \<or> a \<le> j \<and> j < b \<and> j < LENGTH('a)" for j
    unfolding bit_or_iff bit_checked_shl m using assms by auto
  with assms show ?thesis by (simp add: finite_set_range_def)
qed

text \<open>The three instances, evaluated at their widths.\<close>

lemma finite_contains_after_set:
  fixes s :: "'a::len word"
  assumes "i < LENGTH('a)" "j < LENGTH('a)"
  shows "finite_contains (finite_set s i) j = Some (j = i \<or> bit s j)"
    and "finite_contains (finite_clear s i) j = Some (j \<noteq> i \<and> bit s j)"
  using assms by (auto simp: finite_contains_eq bit_finite_set bit_finite_clear)


section \<open>Properties\<close>

text \<open>C30: \<open>FiniteBitSet\<close> over an integer of any width: \<open>set\<close> and \<open>clear\<close> change one index of the domain and
  nothing outside it, \<open>set_range\<close> adds the indices of a range that are in the domain, also when the range runs
  past the integer's width, and \<open>contains\<close> answers for the indices of the domain only.\<close>

theorem finite_bit_set_operations:
  fixes s :: "'a::len word"
  assumes "a \<le> b"
  shows "\<exists>t. finite_set_range s a b = Some t \<and>
    (\<forall>j. finite_contains t j =
       (if j < LENGTH('a) then Some (bit s j \<or> a \<le> j \<and> j < b) else None)) \<and>
    (\<forall>j. finite_contains (finite_set s i) j = (if j < LENGTH('a) then Some (bit s j \<or> j = i) else None)) \<and>
    (\<forall>j. finite_contains (finite_clear s i) j = (if j < LENGTH('a) then Some (bit s j \<and> j \<noteq> i) else None))"
  using finite_set_range_spec [OF assms, of s] by (auto simp: finite_contains_eq bit_finite_set bit_finite_clear)

theorem finite_bit_set_operations_witness:
  "\<exists>t. finite_set_range (0 :: 32 word) 30 40 = Some t \<and> finite_contains t 31 = Some True \<and>
     finite_contains t 35 = None"
  using finite_bit_set_operations [of 30 40 "0 :: 32 word" 0] by auto

end
