(* ===== verification/Rust_Char.thy ===== *)
theory Rust_Char
  imports Slice_Search
begin

unbundle bit_operations_syntax

text \<open>
  Characters, from \<open>library/core/src/char\<close>: a \<open>char\<close> is the \<open>u32\<close> of its Unicode scalar value. The
  conversions from integers and digits, the length and bytes of the UTF-8 encoding, the white-space table of
  \<open>unicode_data.rs\<close> and the escape iterators of \<open>char/mod.rs\<close>. A \<open>&str\<close> is the list of its characters, with
  the length in bytes written out.
\<close>

type_synonym rchar = u32

type_synonym rstr = "rchar list"


section \<open>Conversions\<close>

definition char_try_from_u32 :: "u32 \<Rightarrow> rchar option" where
  "char_try_from_u32 i =
     (if 0x110000 - 0x800 \<le> (i XOR 0xD800) - 0x800 then None else Some i)"

definition saturating_add :: "u32 \<Rightarrow> u32 \<Rightarrow> u32" where
  "saturating_add a b = (if unat a + unat b < 2 ^ 32 then a + b else - 1)"

definition to_digit :: "rchar \<Rightarrow> u32 \<Rightarrow> u32 option option" where
  "to_digit c radix = do {
     let digit = c - 48;
     if 10 < radix then do {
       assert_that (radix \<le> 36);
       if digit < 10 then Some (Some digit)
       else (let digit = saturating_add ((c OR 0x20) - 97) 10
             in Some (if digit < radix then Some digit else None))
     }
     else Some (if digit < radix then Some digit else None)
   }"

definition is_digit :: "rchar \<Rightarrow> u32 \<Rightarrow> bool option" where
  "is_digit c radix = do { d \<leftarrow> to_digit c radix; Some (d \<noteq> None) }"

definition from_digit :: "u32 \<Rightarrow> u32 \<Rightarrow> rchar option option" where
  "from_digit num radix = do {
     assert_that (radix \<le> 36);
     Some (if num < radix
       then (let num = (ucast num :: u8) in if num < 10 then Some (ucast (48 + num)) else Some (ucast (97 + num - 10)))
       else None)
   }"

definition char_is_ascii :: "rchar \<Rightarrow> bool" where
  "char_is_ascii c \<longleftrightarrow> c \<le> 0x7F"


section \<open>UTF-8 length\<close>

definition len_utf8 :: "u32 \<Rightarrow> nat" where
  "len_utf8 code = (if code < 0x80 then 1 else if code < 0x800 then 2 else if code < 0x10000 then 3 else 4)"

definition str_len :: "rstr \<Rightarrow> nat" where
  "str_len s = sum_list (map len_utf8 s)"


section \<open>White space\<close>

definition decode_prefix_sum :: "u32 \<Rightarrow> u32" where
  "decode_prefix_sum short_offset_run_header = short_offset_run_header AND (push_bit 21 1 - 1)"

definition decode_length :: "u32 \<Rightarrow> nat" where
  "decode_length short_offset_run_header = unat (drop_bit 21 short_offset_run_header)"

text \<open>
  \<open>skip_search\<close>: runs of offsets, alternately outside and inside the set; the loop walks the run that
  can hold the needle. \<open>needle - prev\<close> and the sums are \<open>u32\<close> and checked.
\<close>

fun skip_loop :: "nat \<Rightarrow> u8 list \<Rightarrow> nat \<Rightarrow> u32 \<Rightarrow> u32 \<Rightarrow> nat option" where
  "skip_loop 0 offsets offset_idx prefix_sum target = Some offset_idx"
| "skip_loop (Suc n) offsets offset_idx prefix_sum target = do {
     offset \<leftarrow> index_at offsets offset_idx;
     assert_that (unat prefix_sum + unat offset < 2 ^ 32);
     let prefix_sum = prefix_sum + ucast offset;
     if target < prefix_sum then Some offset_idx
     else skip_loop n offsets (offset_idx + 1) prefix_sum target
   }"

definition skip_search :: "u32 \<Rightarrow> u32 list \<Rightarrow> u8 list \<Rightarrow> bool option" where
  "skip_search needle short_offset_runs offsets = do {
     r \<leftarrow> binary_search_by_key short_offset_runs (push_bit 11 needle) (\<lambda>header. Some (push_bit 11 header));
     let last_idx = (case r of Ok idx \<Rightarrow> idx + 1 | Err idx \<Rightarrow> idx);
     header \<leftarrow> index_at short_offset_runs last_idx;
     let offset_idx = decode_length header;
     len \<leftarrow> (if last_idx + 1 < length short_offset_runs
             then checked_sub (decode_length (short_offset_runs ! (last_idx + 1))) offset_idx
             else checked_sub (length offsets) offset_idx);
     let prev = (if last_idx = 0 then 0 else decode_prefix_sum (short_offset_runs ! (last_idx - 1)));
     assert_that (prev \<le> needle);
     let target = needle - prev;
     n \<leftarrow> checked_sub len 1;
     offset_idx \<leftarrow> skip_loop n offsets offset_idx 0 target;
     Some (offset_idx mod 2 = 1)
   }"

definition white_space_runs :: "u32 list" where
  "white_space_runs = [5760, 18882560, 23080960, 40972289]"

definition white_space_offsets :: "u8 list" where
  "white_space_offsets = [9, 5, 18, 1, 100, 1, 26, 1, 0, 1, 0, 11, 29, 2, 5, 1, 47, 1, 0, 1, 0]"

definition white_space_lookup :: "rchar \<Rightarrow> bool option" where
  "white_space_lookup c = skip_search c white_space_runs white_space_offsets"

definition char_is_whitespace :: "rchar \<Rightarrow> bool option" where
  "char_is_whitespace c =
     (if c = 32 \<or> 0x09 \<le> c \<and> c \<le> 0x0D then Some True
      else if 0x7F < c then white_space_lookup c else Some False)"


section \<open>Escapes\<close>

datatype escape_unicode_state = EscDone | RightBrace | Value | LeftBrace | EscType | Backslash

record escape_unicode =
  eu_c :: rchar
  eu_state :: escape_unicode_state
  hex_digit_idx :: nat

definition char_escape_unicode :: "rchar \<Rightarrow> escape_unicode option" where
  "char_escape_unicode c = do {
     msb \<leftarrow> checked_sub 31 (leading_zeros (c OR 1));
     let ms_hex_digit = msb div 4;
     Some \<lparr>eu_c = c, eu_state = Backslash, hex_digit_idx = ms_hex_digit\<rparr>
   }"

definition escape_unicode_next :: "escape_unicode \<Rightarrow> (rchar option \<times> escape_unicode) option" where
  "escape_unicode_next e = (case eu_state e of
     Backslash \<Rightarrow> Some (Some 92, e\<lparr>eu_state := EscType\<rparr>)
   | EscType \<Rightarrow> Some (Some 117, e\<lparr>eu_state := LeftBrace\<rparr>)
   | LeftBrace \<Rightarrow> Some (Some 123, e\<lparr>eu_state := Value\<rparr>)
   | Value \<Rightarrow> do {
       let hex_digit = drop_bit (hex_digit_idx e * 4) (eu_c e) AND 0xF;
       d \<leftarrow> from_digit hex_digit 16;
       c \<leftarrow> d;
       Some (Some c, if hex_digit_idx e = 0 then e\<lparr>eu_state := RightBrace\<rparr>
                     else e\<lparr>hex_digit_idx := hex_digit_idx e - 1\<rparr>)
     }
   | RightBrace \<Rightarrow> Some (Some 125, e\<lparr>eu_state := EscDone\<rparr>)
   | EscDone \<Rightarrow> Some (None, e))"

definition escape_unicode_len :: "escape_unicode \<Rightarrow> nat" where
  "escape_unicode_len e = hex_digit_idx e + (case eu_state e of
     EscDone \<Rightarrow> 0 | RightBrace \<Rightarrow> 1 | Value \<Rightarrow> 2 | LeftBrace \<Rightarrow> 3 | EscType \<Rightarrow> 4 | Backslash \<Rightarrow> 5)"

datatype escape_default = DefDone | DefChar rchar | DefBackslash rchar | DefUnicode escape_unicode

definition char_escape_default :: "rchar \<Rightarrow> escape_default option" where
  "char_escape_default c =
     (if c = 9 then Some (DefBackslash 116)
      else if c = 13 then Some (DefBackslash 114)
      else if c = 10 then Some (DefBackslash 110)
      else if c = 92 \<or> c = 39 \<or> c = 34 then Some (DefBackslash c)
      else if 0x20 \<le> c \<and> c \<le> 0x7E then Some (DefChar c)
      else map_option DefUnicode (char_escape_unicode c))"

fun escape_default_next :: "escape_default \<Rightarrow> (rchar option \<times> escape_default) option" where
  "escape_default_next (DefBackslash c) = Some (Some 92, DefChar c)"
| "escape_default_next (DefChar c) = Some (Some c, DefDone)"
| "escape_default_next DefDone = Some (None, DefDone)"
| "escape_default_next (DefUnicode iter) = do {
     (r, iter) \<leftarrow> escape_unicode_next iter;
     Some (r, DefUnicode iter)
   }"

fun escape_default_len :: "escape_default \<Rightarrow> nat" where
  "escape_default_len DefDone = 0"
| "escape_default_len (DefChar _) = 1"
| "escape_default_len (DefBackslash _) = 2"
| "escape_default_len (DefUnicode iter) = escape_unicode_len iter"


section \<open>Scalar values\<close>

definition is_scalar :: "u32 \<Rightarrow> bool" where
  "is_scalar c \<longleftrightarrow> c < 0xD800 \<or> 0xE000 \<le> c \<and> c \<le> 0x10FFFF"

lemma unat_div_eq_iff: "x div k = q \<longleftrightarrow> q * k \<le> x \<and> x < (q + 1) * k" if "0 < k" for x k q :: nat
  using div_nat_eqI [of k q x] dividend_less_div_times [OF that, of x] that by (auto simp: algebra_simps)

lemma unat_less_drop: "unat (drop_bit n w) < k \<longleftrightarrow> unat w < k * 2 ^ n" for w :: "'a::len word"
  by (simp add: unat_drop_bit_eq drop_bit_nat_def div_less_iff_less_mult)

lemma drop_bit_xor_low:
  "drop_bit n (w XOR v) = drop_bit n w XOR drop_bit n v" for w v :: "'a::len word"
  by (rule bit_word_eqI) (simp add: bit_drop_bit_eq bit_xor_iff)

lemma word_xor_eq_0: "a XOR b = 0 \<longleftrightarrow> a = b" for a b :: "'a::len word"
  by (auto simp: bit_eq_iff bit_xor_iff)

text \<open>The optimised check of \<open>from_u32\<close> accepts exactly the scalar values.\<close>

lemma char_try_from_u32_eq: "char_try_from_u32 i = (if is_scalar i then Some i else None)"
proof -
  let ?j = "i XOR 0xD800"
  have d: "drop_bit 16 (0xD800 :: u32) = 0" "drop_bit 11 (0xD800 :: u32) = 27" by simp_all
  have "drop_bit 16 ?j = drop_bit 16 i" unfolding drop_bit_xor_low d by simp
  then have "unat ?j < 0x11 * 2 ^ 16 \<longleftrightarrow> unat i < 0x11 * 2 ^ 16"
    unfolding unat_less_drop [symmetric] by simp
  then have top: "?j < 0x110000 \<longleftrightarrow> i < 0x110000" by (simp add: word_less_nat_alt)
  have "unat ?j < 1 * 2 ^ 11 \<longleftrightarrow> drop_bit 11 ?j = 0"
    unfolding unat_less_drop [symmetric] by (simp only: less_one unat_eq_zero)
  also have "\<dots> \<longleftrightarrow> drop_bit 11 i = 27"
    unfolding drop_bit_xor_low d word_xor_eq_0 ..
  also have "\<dots> \<longleftrightarrow> unat (drop_bit 11 i) = 27" by (simp add: word_unat_eq_iff)
  also have "\<dots> \<longleftrightarrow> 27 * 2 ^ 11 \<le> unat i \<and> unat i < (27 + 1) * 2 ^ 11"
    unfolding unat_drop_bit_eq drop_bit_nat_def by (rule unat_div_eq_iff) simp
  finally have low: "?j < 0x800 \<longleftrightarrow> 0xD800 \<le> i \<and> i < 0xE000"
    by (simp add: word_less_nat_alt word_le_nat_alt)
  have key: "(0x110000 - 0x800 \<le> j - 0x800) = (j < 0x800 \<or> \<not> j < 0x110000)" for j :: u32
    by (simp add: word_less_nat_alt word_le_nat_alt unat_sub_if_size word_size) arith
  have "is_scalar i \<longleftrightarrow> \<not> ((0xD800 \<le> i \<and> i < 0xE000) \<or> \<not> i < 0x110000)"
    unfolding is_scalar_def word_less_nat_alt word_le_nat_alt by simp arith
  then show ?thesis unfolding char_try_from_u32_def key top low by simp
qed


section \<open>Digits\<close>

definition hex_digit :: "u32 \<Rightarrow> u32 option" where
  "hex_digit c = (if 48 \<le> c \<and> c \<le> 57 then Some (c - 48)
     else if 97 \<le> c \<and> c \<le> 102 then Some (c - 87)
     else if 65 \<le> c \<and> c \<le> 70 then Some (c - 55) else None)"

lemma bit_0x20: "bit (0x20 :: u32) n \<longleftrightarrow> n = 5"
proof -
  have "(0x20 :: u32) = push_bit 5 1" by simp
  then show ?thesis by (simp only: bit_push_bit_iff) (auto simp: bit_1_iff)
qed

lemma or_bit5_eq: "c OR 0x20 = (if bit c 5 then c else c + 0x20)" for c :: u32
proof (cases "bit c 5")
  case True
  then have "c OR 0x20 = c" by (intro bit_word_eqI) (metis bit_or_iff bit_0x20)
  with True show ?thesis by simp
next
  case False
  then have "c AND 0x20 = 0" by (intro bit_word_eqI) (metis bit_and_iff bit_0x20 bit_0_eq bot_apply bot_bool_def)
  then have "c + 0x20 = c OR 0x20" by (metis disjunctive_add bit_and_iff bit_0_eq bot_apply bot_bool_def)
  with False show ?thesis by simp
qed

lemma saturating_add_10_less: "saturating_add x 10 < 16 \<longleftrightarrow> x < 6" for x
  by (auto simp: saturating_add_def word_less_nat_alt unat_word_ariths unsigned_minus_1_eq_mask mask_eq_exp_minus_1)

lemma saturating_add_10_eq: "x < 6 \<Longrightarrow> saturating_add x 10 = x + 10" for x
  by (auto simp: saturating_add_def word_less_nat_alt)

lemma minus_48_less: "x - 48 < 10 \<longleftrightarrow> 48 \<le> x \<and> x \<le> 57" for x :: u32
  by (simp add: word_less_nat_alt word_le_nat_alt unat_sub_if_size word_size) arith

lemma minus_97_less: "x - 97 < 6 \<longleftrightarrow> 97 \<le> x \<and> x \<le> 102" for x :: u32
  by (simp add: word_less_nat_alt word_le_nat_alt unat_sub_if_size word_size) arith

lemma letter_bit5: "97 \<le> c \<Longrightarrow> c \<le> 102 \<Longrightarrow> bit c 5" "65 \<le> c \<Longrightarrow> c \<le> 70 \<Longrightarrow> \<not> bit c 5" for c :: u32
proof -
  show "97 \<le> c \<Longrightarrow> c \<le> 102 \<Longrightarrow> bit c 5"
    using unat_div_eq_iff [of 32 "unat c" 3]
    by (simp add: bit_iff_odd_drop_bit drop_bit_eq_div word_le_nat_alt word_arith_nat_div)
  show "65 \<le> c \<Longrightarrow> c \<le> 70 \<Longrightarrow> \<not> bit c 5"
    using unat_div_eq_iff [of 32 "unat c" 2]
    by (simp add: bit_iff_odd_drop_bit drop_bit_eq_div word_le_nat_alt word_arith_nat_div)
qed

lemma plus32_range: "97 \<le> c + 32 \<and> c + 32 \<le> 102 \<longleftrightarrow> 65 \<le> c \<and> c \<le> 70" for c :: u32
proof -
  have "unat c < 2 ^ LENGTH(32)" by (rule unsigned_less)
  then show ?thesis by (simp add: word_le_nat_alt unat_plus_if_size word_size) arith
qed

lemma or20_range:
  "97 \<le> c OR 32 \<and> c OR 32 \<le> 102 \<longleftrightarrow> 97 \<le> c \<and> c \<le> 102 \<or> 65 \<le> c \<and> c \<le> 70" for c :: u32
  using letter_bit5 [of c] plus32_range [of c] unfolding or_bit5_eq by auto

lemma to_digit_16: "to_digit c 16 = Some (hex_digit c)"
proof (cases "48 \<le> c \<and> c \<le> 57")
  case True
  then show ?thesis using minus_48_less [of c] by (simp add: to_digit_def hex_digit_def Let_def)
next
  case False
  let ?x = "(c OR 0x20) - 97"
  have range: "?x < 6 \<longleftrightarrow> 97 \<le> c \<and> c \<le> 102 \<or> 65 \<le> c \<and> c \<le> 70"
    unfolding minus_97_less or20_range ..
  have eq: "to_digit c 16 = Some (if ?x < 6 then Some (?x + 10) else None)"
    using False minus_48_less [of c] saturating_add_10_less [of ?x] saturating_add_10_eq [of ?x] by (auto simp: to_digit_def Let_def)
  have less: "65 \<le> c \<Longrightarrow> c \<le> 70 \<Longrightarrow> \<not> 97 \<le> c" by (simp add: word_le_nat_alt)
  have "?x + 10 = c - 87" if "97 \<le> c" "c \<le> 102" using letter_bit5(1) [OF that] by (simp add: or_bit5_eq)
  moreover have "?x + 10 = c - 55" if "65 \<le> c" "c \<le> 70" using letter_bit5(2) [OF that] by (simp add: or_bit5_eq)
  ultimately show ?thesis unfolding eq range using False less by (auto simp: hex_digit_def)
qed

lemma to_digit_10: "to_digit c 10 = Some (if 48 \<le> c \<and> c \<le> 57 then Some (c - 48) else None)"
  using minus_48_less [of c] by (simp add: to_digit_def Let_def)


section \<open>The white-space table\<close>

lemma ordered_by_key: "sorted (map f xs) \<Longrightarrow> ordered_by (\<lambda>x. cmp (f x) b) xs"
  unfolding ordered_by_def
  by (auto dest: sorted_nth_mono)

lemma unat_push_bit_11: "c \<le> 0x10FFFF \<Longrightarrow> unat (push_bit 11 c) = unat c * 2048" for c :: u32
  by (simp add: push_bit_eq_mult word_le_nat_alt unat_word_ariths mult.commute)

lemma cmp_word_unat: "cmp a b = cmp (unat a) (unat b)" for a b :: u32
  by (simp add: cmp_def word_less_nat_alt word_unat_eq_iff)

lemma white_space_cmp:
  assumes "c \<le> 0x10FFFF" "h \<in> set white_space_runs"
  shows "cmp (push_bit 11 h) (push_bit 11 c) = cmp (unat (take_bit 21 h)) (unat c)"
proof -
  have "unat (push_bit 11 h) = unat (take_bit 21 h) * 2048"
    using assms(2) by (auto simp: white_space_runs_def)
  then show ?thesis unfolding cmp_word_unat [of "push_bit 11 h"] unat_push_bit_11 [OF assms(1)]
    by (simp add: cmp_def)
qed

text \<open>The search finds the number of run headers whose prefix sum is at most the needle.\<close>

lemma white_space_last_idx:
  assumes "c \<le> 0x10FFFF"
  shows "\<exists>r. binary_search_by_key white_space_runs (push_bit 11 c) (\<lambda>header. Some (push_bit 11 header)) = Some r \<and>
    (case r of Ok i \<Rightarrow> i + 1 | Err i \<Rightarrow> i) =
      (if c < 5760 then 0 else if c < 8192 then 1 else if c < 12288 then 2 else 3)"
proof -
  let ?g = "\<lambda>h. cmp (push_bit 11 h) (push_bit 11 c)"
  let ?n = "unat c"
  have n: "?n \<le> 0x10FFFF" using assms by (simp add: word_le_nat_alt)
  have g: "?g 5760 = cmp 5760 ?n" "?g 18882560 = cmp 8192 ?n" "?g 23080960 = cmp 12288 ?n" "?g 40972289 = Greater"
    using white_space_cmp [OF assms, of 5760] white_space_cmp [OF assms, of 18882560]
      white_space_cmp [OF assms, of 23080960] white_space_cmp [OF assms, of 40972289] n
    by (simp_all add: white_space_runs_def cmp_def)
  have nth: "?g (white_space_runs ! 0) = cmp 5760 ?n" "?g (white_space_runs ! 1) = cmp 8192 ?n"
    "?g (white_space_runs ! 2) = cmp 12288 ?n" "?g (white_space_runs ! 3) = Greater"
    using g by (simp_all add: white_space_runs_def numeral_2_eq_2 numeral_3_eq_3)
  have len: "length white_space_runs = 4" by (simp add: white_space_runs_def)
  have four: "i < 4 \<Longrightarrow> i = 0 \<or> i = 1 \<or> i = 2 \<or> i = 3" for i :: nat by arith
  have ord: "ordered_by ?g white_space_runs"
    by (rule ordered_by_key) (simp add: white_space_runs_def)
  obtain r where r: "binary_search_by white_space_runs (\<lambda>x. Some (?g x)) = Some r"
    "case r of
       Ok i \<Rightarrow> i < length white_space_runs \<and> ?g (white_space_runs ! i) = Equal
     | Err i \<Rightarrow> i \<le> length white_space_runs \<and> (\<forall>j < i. ?g (white_space_runs ! j) = Less) \<and>
               (\<forall>j. i \<le> j \<longrightarrow> j < length white_space_runs \<longrightarrow> ?g (white_space_runs ! j) = Greater)"
    using binary_search_by_spec [OF _ ord, of "\<lambda>x. Some (?g x)"] by blast
  define g where "g = (\<lambda>i. ?g (white_space_runs ! i))"
  have g_nth: "g 0 = cmp 5760 ?n" "g 1 = cmp 8192 ?n" "g 2 = cmp 12288 ?n" "g 3 = Greater"
    using nth by (simp_all only: g_def)
  have "(case r of Ok i \<Rightarrow> i + 1 | Err i \<Rightarrow> i) =
      (if ?n < 5760 then 0 else if ?n < 8192 then 1 else if ?n < 12288 then 2 else 3)"
  proof (cases r)
    case (Ok i)
    then have "i < 4" "g i = Equal" using r(2) len by (simp_all add: g_def)
    then show ?thesis using Ok g_nth four [of i] by auto
  next
    case (Err i)
    then have i: "i \<le> 4" "\<And>j. j < i \<Longrightarrow> g j = Less" "\<And>j. i \<le> j \<Longrightarrow> j < 4 \<Longrightarrow> g j = Greater"
      using r(2) len by (simp_all add: g_def)
    then have "i \<le> 3" using i(2) [of 3] g_nth(4) by (cases "i = 4") simp_all
    then have "i = 0 \<or> i = 1 \<or> i = 2 \<or> i = 3" by arith
    then show ?thesis
      using Err g_nth i(2) [of 0] i(2) [of 1] i(2) [of 2] i(3) [of 0] i(3) [of 1] i(3) [of 2] by auto
  qed
  then show ?thesis using r(1) by (auto simp: binary_search_by_key_def word_less_nat_alt)
qed

definition is_white_space :: "u32 \<Rightarrow> bool" where
  "is_white_space c \<longleftrightarrow> 0x9 \<le> c \<and> c \<le> 0xD \<or> c = 0x20 \<or> c = 0x85 \<or> c = 0xA0 \<or> c = 0x1680 \<or>
     0x2000 \<le> c \<and> c \<le> 0x200A \<or> c = 0x2028 \<or> c = 0x2029 \<or> c = 0x202F \<or> c = 0x205F \<or> c = 0x3000"

lemma skip_loop_step:
  "i < length offsets \<Longrightarrow> unat s + unat (offsets ! i) < 2 ^ 32 \<Longrightarrow>
   skip_loop (Suc n) offsets i s t =
     (if t < s + ucast (offsets ! i) then Some i else skip_loop n offsets (i + 1) (s + ucast (offsets ! i)) t)"
  by simp

lemmas skip_loop_numeral = skip_loop_step [of _ _ _ "pred_numeral k" for k, folded numeral_eq_Suc]

lemma white_space_run_0:
  "skip_loop 8 white_space_offsets 0 0 c =
     Some (if c < 9 then 0 else if c < 14 then 1 else if c < 32 then 2 else if c < 33 then 3 else if c < 133 then 4
       else if c < 134 then 5 else if c < 160 then 6 else if c < 161 then 7 else 8)"
  by (simp add: skip_loop_numeral skip_loop_step white_space_offsets_def del: skip_loop.simps(2))

lemma white_space_run_2:
  "skip_loop 7 white_space_offsets 11 0 c =
     Some (if c < 11 then 11 else if c < 40 then 12 else if c < 42 then 13 else if c < 47 then 14 else if c < 48 then 15
       else if c < 95 then 16 else if c < 96 then 17 else 18)"
  by (simp add: skip_loop_numeral skip_loop_step white_space_offsets_def del: skip_loop.simps(2))

lemma white_space_headers:
  "decode_length 5760 = 0" "decode_length 18882560 = 9" "decode_length 23080960 = 11" "decode_length 40972289 = 19"
  "decode_prefix_sum 5760 = 5760" "decode_prefix_sum 18882560 = 8192" "decode_prefix_sum 23080960 = 12288"
  by (simp_all add: decode_length_def decode_prefix_sum_def)

lemma white_space_lookup_eq:
  assumes "c \<le> 0x10FFFF"
  shows "white_space_lookup c = Some (is_white_space c)"
proof -
  obtain r where r: "binary_search_by_key white_space_runs (push_bit 11 c) (\<lambda>header. Some (push_bit 11 header)) = Some r"
    "(case r of Ok i \<Rightarrow> i + 1 | Err i \<Rightarrow> i) =
      (if c < 5760 then 0 else if c < 8192 then 1 else if c < 12288 then 2 else 3)"
    using white_space_last_idx [OF assms] by blast
  note unfold = white_space_lookup_def skip_search_def r white_space_headers
  have len: "length white_space_offsets = 21" by (simp add: white_space_offsets_def)
  note nat = word_less_nat_alt word_le_nat_alt word_unat_eq_iff
  consider "c < 5760" | "\<not> c < 5760" "5760 \<le> c" "c < 8192"
    | "\<not> c < 5760" "\<not> c < 8192" "8192 \<le> c" "c < 12288"
    | "\<not> c < 5760" "\<not> c < 8192" "\<not> c < 12288" "12288 \<le> c" by force
  then show ?thesis
  proof cases
    case 1
    have "white_space_lookup c = (do { k \<leftarrow> skip_loop 8 white_space_offsets 0 0 c; Some (k mod 2 = 1) })"
      using 1 by (simp add: unfold) (simp add: white_space_runs_def white_space_headers)
    then show ?thesis unfolding white_space_run_0 using 1 by (auto simp: is_white_space_def nat)
  next
    case 2
    have "white_space_lookup c = (do { k \<leftarrow> skip_loop 1 white_space_offsets 9 0 (c - 5760); Some (k mod 2 = 1) })"
      using 2 by (simp add: unfold) (simp add: white_space_runs_def white_space_headers)
    then show ?thesis using 2 by (auto simp: is_white_space_def nat white_space_offsets_def unat_sub_if_size)
  next
    case 3
    have "white_space_lookup c = (do { k \<leftarrow> skip_loop 7 white_space_offsets 11 0 (c - 8192); Some (k mod 2 = 1) })"
      using 3 by (simp add: unfold) (simp add: white_space_runs_def white_space_headers)
    then show ?thesis unfolding white_space_run_2 using 3 by (auto simp: is_white_space_def nat unat_sub_if_size)
  next
    case 4
    have "white_space_lookup c = (do { k \<leftarrow> skip_loop 1 white_space_offsets 19 0 (c - 12288); Some (k mod 2 = 1) })"
      using 4 by (simp add: unfold) (simp add: white_space_runs_def white_space_headers len)
    then show ?thesis using 4 by (auto simp: is_white_space_def nat white_space_offsets_def unat_sub_if_size)
  qed
qed

lemma char_is_whitespace_eq: "c \<le> 0x10FFFF \<Longrightarrow> char_is_whitespace c = Some (is_white_space c)"
  by (auto simp: char_is_whitespace_def white_space_lookup_eq is_white_space_def word_less_nat_alt word_le_nat_alt
      word_unat_eq_iff)

section \<open>What the escapes print\<close>

definition hex_char :: "u32 \<Rightarrow> rchar" where
  "hex_char d = (if d < 10 then 48 + d else 87 + d)"

lemma from_digit_16: "d < 16 \<Longrightarrow> from_digit d 16 = Some (Some (hex_char d))"
proof -
  assume d: "d < 16"
  then have n: "unat d < 16" by (simp add: word_less_nat_alt)
  then have "unat (ucast d :: u8) = unat d" by (simp add: unsigned_ucast_eq take_bit_eq_mod)
  with n show ?thesis using d
    by (auto simp: from_digit_def hex_char_def word_less_nat_alt word_unat_eq_iff unsigned_ucast_eq
        unat_word_ariths take_bit_eq_mod)
qed

lemma hex_digit_char: "d < 16 \<Longrightarrow> hex_digit (hex_char d) = Some d"
  by (auto simp: hex_digit_def hex_char_def word_less_nat_alt word_le_nat_alt unat_word_ariths)

lemma hex_char_range: "d < 16 \<Longrightarrow> 48 \<le> hex_char d \<and> hex_char d \<le> 57 \<or> 97 \<le> hex_char d \<and> hex_char d \<le> 102"
  by (auto simp: hex_char_def word_less_nat_alt word_le_nat_alt unat_word_ariths)

definition nibble :: "u32 \<Rightarrow> nat \<Rightarrow> u32" where
  "nibble c i = drop_bit (i * 4) c AND 0xF"

lemma unat_nibble: "unat (nibble c i) = unat c div 16 ^ i mod 16"
proof -
  have "(0xF :: u32) = mask 4" by (simp add: mask_eq_exp_minus_1)
  then have "nibble c i = take_bit 4 (drop_bit (i * 4) c)" by (simp add: nibble_def take_bit_eq_mask)
  moreover have "(16 :: nat) ^ i = 2 ^ (i * 4)" by (simp add: power_mult mult.commute [of i])
  ultimately show ?thesis
    unfolding unsigned_take_bit_eq unat_drop_bit_eq drop_bit_nat_def take_bit_nat_def
    by (simp only: unsigned_take_bit_eq unat_drop_bit_eq drop_bit_nat_def take_bit_nat_def) simp
qed

lemma nibble_less: "nibble c i < 16"
  using unat_nibble [of c i] by (simp add: word_less_nat_alt)

text \<open>Horner's rule over the hexadecimal digits, most significant first.\<close>

lemma hex_horner:
  "foldl (\<lambda>v i. v * 16 + n div 16 ^ i mod 16) a (rev [0..<m]) = a * 16 ^ m + n mod 16 ^ m" for n a :: nat
proof (induction m arbitrary: a)
  case (Suc m)
  have "n mod 16 ^ Suc m = 16 ^ m * (n div 16 ^ m mod 16) + n mod 16 ^ m"
    by (metis mod_mult2_eq mult.commute power_Suc)
  then show ?case by (simp add: Suc algebra_simps)
qed simp

definition escape_text :: "nat \<Rightarrow> rchar \<Rightarrow> rstr" where
  "escape_text k c = [92, 117, 123] @ map (\<lambda>i. hex_char (nibble c i)) (rev [0..<Suc k]) @ [125]"

text \<open>The iterator yields one character per unit of its exact length.\<close>

lemma escape_unicode_next_len:
  "escape_unicode_next e = Some (Some c, e') \<Longrightarrow> Suc (escape_unicode_len e') = escape_unicode_len e"
  by (auto simp: escape_unicode_next_def escape_unicode_len_def split: escape_unicode_state.splits bind_splits if_splits)

lemma escape_default_next_len:
  "escape_default_next e = Some (Some c, e') \<Longrightarrow> Suc (escape_default_len e') = escape_default_len e"
  by (cases e) (auto split: bind_splits dest: escape_unicode_next_len)

function escape_collect :: "escape_default \<Rightarrow> rstr option" where
  "escape_collect e = do {
     (r, e') \<leftarrow> escape_default_next e;
     case r of
       None \<Rightarrow> Some []
     | Some c \<Rightarrow> do { cs \<leftarrow> escape_collect e'; Some (c # cs) }
   }"
  by auto
termination
  by (relation "measure escape_default_len") (auto dest!: escape_default_next_len)

declare escape_collect.simps [simp del]

lemma escape_collect_step:
  "escape_unicode_next e = Some (Some c, e') \<Longrightarrow>
   escape_collect (DefUnicode e) = do { cs \<leftarrow> escape_collect (DefUnicode e'); Some (c # cs) }"
  by (simp add: escape_collect.simps [of "DefUnicode e"])

lemma escape_collect_done: "escape_collect (DefUnicode \<lparr>eu_c = c, eu_state = EscDone, hex_digit_idx = i\<rparr>) = Some []"
  by (simp add: escape_collect.simps escape_unicode_next_def)

lemma escape_collect_value:
  "escape_collect (DefUnicode \<lparr>eu_c = c, eu_state = Value, hex_digit_idx = i\<rparr>) =
   Some (map (\<lambda>i. hex_char (nibble c i)) (rev [0..<Suc i]) @ [125])"
proof (induction i)
  case 0
  have next0: "escape_unicode_next \<lparr>eu_c = c, eu_state = Value, hex_digit_idx = 0\<rparr> =
      Some (Some (hex_char (nibble c 0)), \<lparr>eu_c = c, eu_state = RightBrace, hex_digit_idx = 0\<rparr>)"
    using from_digit_16 [OF nibble_less [of c 0]] by (simp add: escape_unicode_next_def nibble_def)
  have brace: "escape_unicode_next \<lparr>eu_c = c, eu_state = RightBrace, hex_digit_idx = 0\<rparr> =
      Some (Some 125, \<lparr>eu_c = c, eu_state = EscDone, hex_digit_idx = 0\<rparr>)"
    by (simp add: escape_unicode_next_def)
  show ?case
    by (simp add: escape_collect_step [OF next0] escape_collect_step [OF brace] escape_collect_done)
next
  case (Suc i)
  have next_i: "escape_unicode_next \<lparr>eu_c = c, eu_state = Value, hex_digit_idx = Suc i\<rparr> =
      Some (Some (hex_char (nibble c (Suc i))), \<lparr>eu_c = c, eu_state = Value, hex_digit_idx = i\<rparr>)"
    using from_digit_16 [OF nibble_less [of c "Suc i"]]
    by (simp add: escape_unicode_next_def nibble_def del: mult_Suc)
  show ?case by (simp add: escape_collect_step [OF next_i] Suc)
qed

lemma escape_collect_unicode:
  "escape_collect (DefUnicode \<lparr>eu_c = c, eu_state = Backslash, hex_digit_idx = k\<rparr>) = Some (escape_text k c)"
  by (simp add: escape_collect.simps [of "DefUnicode \<lparr>eu_c = c, eu_state = Backslash, hex_digit_idx = k\<rparr>"]
      escape_collect.simps [of "DefUnicode \<lparr>eu_c = c, eu_state = EscType, hex_digit_idx = k\<rparr>"]
      escape_collect.simps [of "DefUnicode \<lparr>eu_c = c, eu_state = LeftBrace, hex_digit_idx = k\<rparr>"]
      escape_unicode_next_def escape_collect_value escape_text_def)

text \<open>The number of digits printed is enough for the character, and at most six for a scalar value.\<close>

lemma char_escape_unicode_digits:
  assumes "c \<le> 0x10FFFF"
  shows "\<exists>k \<le> 5. char_escape_unicode c = Some \<lparr>eu_c = c, eu_state = Backslash, hex_digit_idx = k\<rparr> \<and>
     unat c < 16 ^ Suc k"
proof -
  let ?w = "c OR 1" and ?z = "leading_zeros (c OR 1)"
  have w: "?w \<noteq> 0" by (metis bit_0_eq bit_or_iff bit_1_0 bot_apply bot_bool_def)
  have z: "?z < 32" "bit ?w (31 - ?z)" "\<And>j. bit ?w j \<Longrightarrow> j \<le> 31 - ?z"
    using leading_zeros_bit [OF w] by simp_all
  let ?m = "31 - ?z"
  let ?k = "?m div 4"
  have "?m < 21"
  proof (rule ccontr)
    assume m: "\<not> ?m < 21"
    then have "bit c ?m" using z(2) by (auto simp: bit_or_iff bit_1_iff)
    then have "bit (unat c) ?m" by (simp add: bit_unsigned_iff)
    then have "odd (unat c div 2 ^ ?m)" by (simp add: bit_iff_odd)
    then have "2 ^ ?m \<le> unat c" by (metis div_less even_zero linorder_not_less)
    moreover have "(2::nat) ^ 21 \<le> 2 ^ ?m" using m by (intro power_increasing) simp_all
    ultimately show False using assms by (simp add: word_le_nat_alt)
  qed
  then have k: "?k \<le> 5" by simp
  have "take_bit (4 * Suc ?k) c = c"
  proof (rule bit_word_eqI)
    fix n
    have "n < 4 * Suc ?k" if "bit c n"
    proof -
      have "n \<le> ?m" using z(3) [of n] that by (simp add: bit_or_iff)
      also have "?m < 4 * Suc ?k" using dividend_less_times_div [of 4 ?m] by simp
      finally show ?thesis .
    qed
    then show "bit (take_bit (4 * Suc ?k) c) n \<longleftrightarrow> bit c n" by (auto simp: bit_take_bit_iff)
  qed
  then have "unat c = unat c mod 2 ^ (4 * Suc ?k)" by (metis unsigned_take_bit_eq take_bit_eq_mod)
  then have "unat c < 2 ^ (4 * Suc ?k)" by (metis mod_less_divisor zero_less_numeral zero_less_power)
  then have "unat c < 16 ^ Suc ?k" unfolding power_mult by simp
  moreover have "checked_sub 31 ?z = Some ?m" using z(1) by simp
  ultimately show ?thesis using k by (intro exI [of _ ?k]) (simp add: char_escape_unicode_def Let_def)
qed


section \<open>Properties\<close>

text \<open>\<open>char::from_u32\<close>: the branch-free check (an XOR, a wrapping subtraction and one comparison) accepts
  exactly the Unicode scalar values, that is every \<open>u32\<close> up to \<open>0x10FFFF\<close> that is not a surrogate.\<close>

theorem from_u32_accepts_scalars:
  "char_try_from_u32 i = (if i < 0xD800 \<or> 0xE000 \<le> i \<and> i \<le> 0x10FFFF then Some i else None)"
  using char_try_from_u32_eq [of i] by (simp add: is_scalar_def)

text \<open>\<open>char::is_whitespace\<close> with its compressed table (\<open>skip_search\<close> over runs of offsets) never panics and
  decides exactly the code points of the Unicode property White\_Space, for every character.\<close>

theorem is_whitespace_table:
  assumes "c \<le> 0x10FFFF"
  shows "char_is_whitespace c = Some (c \<in> {0x9..0xD} \<union> {0x20, 0x85, 0xA0, 0x1680} \<union> {0x2000..0x200A} \<union>
    {0x2028, 0x2029, 0x202F, 0x205F, 0x3000})"
  using char_is_whitespace_eq [OF assms] by (auto simp: is_white_space_def)

theorem is_whitespace_table_witness: "char_is_whitespace 0x3000 = Some True"
  using is_whitespace_table [of "0x3000"] by simp

end
