(* ===== verification/Unescape.thy ===== *)
theory Unescape
  imports Rust_Char "HOL-Library.Sublist"
begin

text \<open>
  \<open>compiler/rustc_lexer/src/unescape.rs\<close>: validation of character, byte and string literals and their
  translation to the values they stand for. A \<open>Chars\<close> iterator is the list of the characters that are left;
  the callback's invocations are the list of the ranges and results it is called with, in order. \<open>u32\<close>
  and \<open>i32\<close> arithmetic is checked.
\<close>

section \<open>Modes and errors\<close>

datatype escape_error =
    ZeroChars
  | MoreThanOneChar
  | LoneSlash
  | InvalidEscape
  | BareCarriageReturn
  | BareCarriageReturnInRawString
  | EscapeOnlyChar
  | TooShortHexEscape
  | InvalidCharInHexEscape
  | OutOfRangeHexEscape
  | NoBraceInUnicodeEscape
  | InvalidCharInUnicodeEscape
  | EmptyUnicodeEscape
  | UnclosedUnicodeEscape
  | LeadingUnderscoreUnicodeEscape
  | OverlongUnicodeEscape
  | LoneSurrogateUnicodeEscape
  | OutOfRangeUnicodeEscape
  | UnicodeEscapeInByte
  | NonAsciiCharInByte
  | NonAsciiCharInByteString
  | UnskippedWhitespaceWarning
  | MultipleSkippedLinesWarning

definition is_fatal :: "escape_error \<Rightarrow> bool" where
  "is_fatal e \<longleftrightarrow> \<not> (e = UnskippedWhitespaceWarning \<or> e = MultipleSkippedLinesWarning)"

datatype mode = ModeChar | ModeStr | ModeByte | ModeByteStr | ModeRawStr | ModeRawByteStr

fun in_single_quotes :: "mode \<Rightarrow> bool" where
  "in_single_quotes ModeChar = True"
| "in_single_quotes ModeByte = True"
| "in_single_quotes ModeStr = False"
| "in_single_quotes ModeByteStr = False"
| "in_single_quotes ModeRawStr = False"
| "in_single_quotes ModeRawByteStr = False"

definition in_double_quotes :: "mode \<Rightarrow> bool" where
  "in_double_quotes mode \<longleftrightarrow> \<not> in_single_quotes mode"

fun is_bytes :: "mode \<Rightarrow> bool" where
  "is_bytes ModeByte = True"
| "is_bytes ModeByteStr = True"
| "is_bytes ModeRawByteStr = True"
| "is_bytes ModeChar = False"
| "is_bytes ModeStr = False"
| "is_bytes ModeRawStr = False"

type_synonym unescaped = "(rchar, escape_error) result"

type_synonym event = "(nat \<times> nat) \<times> unescaped"


section \<open>Escapes\<close>

definition is_ascii :: "u32 \<Rightarrow> bool" where
  "is_ascii x \<longleftrightarrow> x \<le> 0x7F"

definition byte_from_char :: "rchar \<Rightarrow> u8 option" where
  "byte_from_char c = do { assert_that (c \<le> 0xFF); Some (ucast c) }"

text \<open>The loop of \<open>\\u{..}\<close> after the first digit. The counter \<open>n_digits\<close> is an \<open>i32\<close>, incremented for every digit.\<close>

fun unicode_loop :: "rstr \<Rightarrow> mode \<Rightarrow> nat \<Rightarrow> u32 \<Rightarrow> (unescaped \<times> rstr) option" where
  "unicode_loop [] mode n_digits v = Some (Err UnclosedUnicodeEscape, [])"
| "unicode_loop (c # chars) mode n_digits v =
     (if c = 95 then unicode_loop chars mode n_digits v
      else if c = 125 then
        (if 6 < n_digits then Some (Err OverlongUnicodeEscape, chars)
         else if is_bytes mode then Some (Err UnicodeEscapeInByte, chars)
         else Some (case char_try_from_u32 v of
             Some c \<Rightarrow> Ok c
           | None \<Rightarrow> Err (if 0x10FFFF < v then OutOfRangeUnicodeEscape else LoneSurrogateUnicodeEscape), chars))
      else do {
        d \<leftarrow> to_digit c 16;
        case d of
          None \<Rightarrow> Some (Err InvalidCharInUnicodeEscape, chars)
        | Some digit \<Rightarrow> do {
            assert_that (n_digits + 1 < 2 ^ 31);
            if 6 < n_digits + 1 then unicode_loop chars mode (n_digits + 1) v
            else do {
              assert_that (unat v * 16 + unat digit < 2 ^ 32);
              unicode_loop chars mode (n_digits + 1) (v * 16 + digit)
            }
          }
      })"

definition scan_hex_escape :: "rstr \<Rightarrow> mode \<Rightarrow> (unescaped \<times> rstr) option" where
  "scan_hex_escape chars mode = (case chars of
     [] \<Rightarrow> Some (Err TooShortHexEscape, [])
   | hi # chars \<Rightarrow> do {
       hi \<leftarrow> to_digit hi 16;
       case hi of
         None \<Rightarrow> Some (Err InvalidCharInHexEscape, chars)
       | Some hi \<Rightarrow> (case chars of
           [] \<Rightarrow> Some (Err TooShortHexEscape, [])
         | lo # chars \<Rightarrow> do {
             lo \<leftarrow> to_digit lo 16;
             case lo of
               None \<Rightarrow> Some (Err InvalidCharInHexEscape, chars)
             | Some lo \<Rightarrow> do {
                 assert_that (unat hi * 16 + unat lo < 2 ^ 32);
                 let v = hi * 16 + lo;
                 if \<not> is_bytes mode \<and> \<not> is_ascii v then Some (Err OutOfRangeHexEscape, chars)
                 else Some (Ok (ucast (ucast v :: u8)), chars)
               }
           })
     })"

definition scan_unicode_escape :: "rstr \<Rightarrow> mode \<Rightarrow> (unescaped \<times> rstr) option" where
  "scan_unicode_escape chars mode = (case chars of
     [] \<Rightarrow> Some (Err NoBraceInUnicodeEscape, [])
   | brace # chars \<Rightarrow>
       if brace \<noteq> 123 then Some (Err NoBraceInUnicodeEscape, chars)
       else (case chars of
         [] \<Rightarrow> Some (Err UnclosedUnicodeEscape, [])
       | c # chars \<Rightarrow>
           if c = 95 then Some (Err LeadingUnderscoreUnicodeEscape, chars)
           else if c = 125 then Some (Err EmptyUnicodeEscape, chars)
           else do {
             d \<leftarrow> to_digit c 16;
             case d of
               None \<Rightarrow> Some (Err InvalidCharInUnicodeEscape, chars)
             | Some digit \<Rightarrow> unicode_loop chars mode 1 digit
           }))"

definition scan_escape :: "rstr \<Rightarrow> mode \<Rightarrow> (unescaped \<times> rstr) option" where
  "scan_escape chars mode = (case chars of
     [] \<Rightarrow> Some (Err LoneSlash, [])
   | second_char # chars \<Rightarrow>
       if second_char = 34 then Some (Ok 34, chars)
       else if second_char = 110 then Some (Ok 10, chars)
       else if second_char = 114 then Some (Ok 13, chars)
       else if second_char = 116 then Some (Ok 9, chars)
       else if second_char = 92 then Some (Ok 92, chars)
       else if second_char = 39 then Some (Ok 39, chars)
       else if second_char = 48 then Some (Ok 0, chars)
       else if second_char = 120 then scan_hex_escape chars mode
       else if second_char = 117 then scan_unicode_escape chars mode
       else Some (Err InvalidEscape, chars))"

definition ascii_check :: "rchar \<Rightarrow> mode \<Rightarrow> unescaped" where
  "ascii_check first_char mode =
     (if is_bytes mode \<and> \<not> char_is_ascii first_char then Err NonAsciiCharInByte else Ok first_char)"

definition unescape_char_or_byte :: "rstr \<Rightarrow> mode \<Rightarrow> (unescaped \<times> rstr) option" where
  "unescape_char_or_byte chars mode = (case chars of
     [] \<Rightarrow> Some (Err ZeroChars, [])
   | first_char # chars \<Rightarrow> do {
       (res, chars) \<leftarrow>
         (if first_char = 92 then scan_escape chars mode
          else if first_char = 10 \<or> first_char = 9 \<or> first_char = 39 then Some (Err EscapeOnlyChar, chars)
          else if first_char = 13 then Some (Err BareCarriageReturn, chars)
          else Some (ascii_check first_char mode, chars));
       case res of
         Err e \<Rightarrow> Some (Err e, chars)
       | Ok c \<Rightarrow> (case chars of [] \<Rightarrow> Some (Ok c, []) | _ # chars \<Rightarrow> Some (Err MoreThanOneChar, chars))
     })"


section \<open>Strings\<close>

text \<open>
  \<open>skip_ascii_whitespace\<close>: the skipped characters are one byte each, so their number is the byte
  offset of the first byte that is not skipped.
\<close>

definition is_skipped :: "rchar \<Rightarrow> bool" where
  "is_skipped b \<longleftrightarrow> \<not> (b \<noteq> 32 \<and> b \<noteq> 9 \<and> b \<noteq> 10 \<and> b \<noteq> 13)"

definition skip_ascii_whitespace :: "rstr \<Rightarrow> nat \<Rightarrow> (event list \<times> rstr) option" where
  "skip_ascii_whitespace tail start = do {
     let first_non_space = length (takeWhile is_skipped tail);
     skipped \<leftarrow> slice tail 1 first_non_space;
     let lines = (if 10 \<in> set skipped
                  then [((start, start + first_non_space + 1), Err MultipleSkippedLinesWarning)] else []);
     let tail = drop first_non_space tail;
     unskipped \<leftarrow> (case tail of
         [] \<Rightarrow> Some []
       | c # _ \<Rightarrow> do {
           let end_pos = start + first_non_space + len_utf8 c + 1;
           w \<leftarrow> char_is_whitespace c;
           Some (if w then [((start, end_pos), Err UnskippedWhitespaceWarning)] else [])
         });
     Some (lines @ unskipped, tail)
   }"

lemma unicode_loop_shrinks: "unicode_loop chars mode n v = Some (r, chars') \<Longrightarrow> length chars' \<le> length chars"
  by (induction chars mode n v rule: unicode_loop.induct)
     (force split: if_splits option.splits bind_splits)+

lemma scan_escape_shrinks: "scan_escape chars mode = Some (r, chars') \<Longrightarrow> length chars' \<le> length chars"
  by (auto simp: scan_escape_def scan_hex_escape_def scan_unicode_escape_def Let_def
      split: list.splits if_splits option.splits bind_splits dest!: unicode_loop_shrinks)

lemma skip_ascii_whitespace_shrinks:
  "skip_ascii_whitespace tail start = Some (evs, tail') \<Longrightarrow> length tail' \<le> length tail"
  by (auto simp: skip_ascii_whitespace_def Let_def split: bind_splits)

text \<open>The character at the head of the loop, when it does not start a skipped line.\<close>

definition unescape_step :: "rchar \<Rightarrow> rstr \<Rightarrow> mode \<Rightarrow> (unescaped \<times> rstr) option" where
  "unescape_step first_char chars mode =
     (if first_char = 92 then scan_escape chars mode
      else if first_char = 10 then Some (Ok 10, chars)
      else if first_char = 9 then Some (Ok 9, chars)
      else if first_char = 34 then Some (Err EscapeOnlyChar, chars)
      else if first_char = 13 then Some (Err BareCarriageReturn, chars)
      else Some (ascii_check first_char mode, chars))"

lemma unescape_step_shrinks: "unescape_step c chars mode = Some (r, chars') \<Longrightarrow> length chars' \<le> length chars"
  by (auto simp: unescape_step_def split: if_splits dest: scan_escape_shrinks)

function (sequential) str_loop :: "nat \<Rightarrow> rstr \<Rightarrow> mode \<Rightarrow> event list option" where
  "str_loop initial_len [] mode = Some []"
| "str_loop initial_len (first_char # chars) mode = do {
     pos \<leftarrow> checked_sub initial_len (str_len chars);
     start \<leftarrow> checked_sub pos (len_utf8 first_char);
     if first_char = 92 \<and> chars \<noteq> [] \<and> hd chars = 10 then do {
       (evs, chars) \<leftarrow> skip_ascii_whitespace chars start;
       rest \<leftarrow> str_loop initial_len chars mode;
       Some (evs @ rest)
     } else do {
       (unescaped_char, chars) \<leftarrow> unescape_step first_char chars mode;
       end_pos \<leftarrow> checked_sub initial_len (str_len chars);
       rest \<leftarrow> str_loop initial_len chars mode;
       Some (((start, end_pos), unescaped_char) # rest)
     }
   }"
  by pat_completeness auto
termination
  by (relation "measure (\<lambda>(n, chars, mode). length chars)")
     (auto dest!: skip_ascii_whitespace_shrinks unescape_step_shrinks)

definition unescape_str_or_byte_str :: "rstr \<Rightarrow> mode \<Rightarrow> event list option" where
  "unescape_str_or_byte_str src mode = do {
     assert_that (in_double_quotes mode);
     str_loop (str_len src) src mode
   }"

definition raw_char :: "mode \<Rightarrow> rchar \<Rightarrow> unescaped" where
  "raw_char mode c =
     (if c = 13 then Err BareCarriageReturnInRawString
      else if is_bytes mode \<and> \<not> char_is_ascii c then Err NonAsciiCharInByteString
      else Ok c)"

fun raw_loop :: "nat \<Rightarrow> rstr \<Rightarrow> mode \<Rightarrow> event list option" where
  "raw_loop initial_len [] mode = Some []"
| "raw_loop initial_len (c # chars) mode = do {
     pos \<leftarrow> checked_sub initial_len (str_len chars);
     start \<leftarrow> checked_sub pos (len_utf8 c);
     let r = raw_char mode c;
     end_pos \<leftarrow> checked_sub initial_len (str_len chars);
     rest \<leftarrow> raw_loop initial_len chars mode;
     Some (((start, end_pos), r) # rest)
   }"

definition unescape_raw_str_or_byte_str :: "rstr \<Rightarrow> mode \<Rightarrow> event list option" where
  "unescape_raw_str_or_byte_str literal_text mode = do {
     assert_that (in_double_quotes mode);
     raw_loop (str_len literal_text) literal_text mode
   }"


section \<open>Entry points\<close>

definition unescape_literal :: "rstr \<Rightarrow> mode \<Rightarrow> event list option" where
  "unescape_literal literal_text mode =
     (if mode = ModeChar \<or> mode = ModeByte then do {
        (r, chars) \<leftarrow> unescape_char_or_byte literal_text mode;
        n \<leftarrow> checked_sub (str_len literal_text) (str_len chars);
        Some [((0, n), r)]
      }
      else if mode = ModeStr \<or> mode = ModeByteStr then unescape_str_or_byte_str literal_text mode
      else unescape_raw_str_or_byte_str literal_text mode)"

fun byte_events :: "event list \<Rightarrow> ((nat \<times> nat) \<times> (u8, escape_error) result) list option" where
  "byte_events [] = Some []"
| "byte_events ((rng, r) # evs) = do {
     b \<leftarrow> (case r of Ok c \<Rightarrow> map_option Ok (byte_from_char c) | Err e \<Rightarrow> Some (Err e));
     rest \<leftarrow> byte_events evs;
     Some ((rng, b) # rest)
   }"

definition unescape_byte_literal ::
    "rstr \<Rightarrow> mode \<Rightarrow> ((nat \<times> nat) \<times> (u8, escape_error) result) list option" where
  "unescape_byte_literal literal_text mode = do {
     assert_that (is_bytes mode);
     evs \<leftarrow> unescape_literal literal_text mode;
     byte_events evs
   }"

definition unescape_char :: "rstr \<Rightarrow> (rchar, nat \<times> escape_error) result option" where
  "unescape_char literal_text = do {
     (r, chars) \<leftarrow> unescape_char_or_byte literal_text ModeChar;
     case r of
       Ok c \<Rightarrow> Some (Ok c)
     | Err e \<Rightarrow> do { n \<leftarrow> checked_sub (str_len literal_text) (str_len chars); Some (Err (n, e)) }
   }"

definition unescape_byte :: "rstr \<Rightarrow> (u8, nat \<times> escape_error) result option" where
  "unescape_byte literal_text = do {
     (r, chars) \<leftarrow> unescape_char_or_byte literal_text ModeByte;
     case r of
       Ok c \<Rightarrow> map_option Ok (byte_from_char c)
     | Err e \<Rightarrow> do { n \<leftarrow> checked_sub (str_len literal_text) (str_len chars); Some (Err (n, e)) }
   }"


section \<open>Escapes never panic\<close>

lemma str_len_simps [simp]: "str_len [] = 0" "str_len (c # s) = len_utf8 c + str_len s" "str_len (s @ t) = str_len s + str_len t"
  by (simp_all add: str_len_def)

lemma len_utf8_pos [simp]: "0 < len_utf8 c"
  by (simp add: len_utf8_def)

lemma suffix_str_len: "suffix s t \<Longrightarrow> str_len s \<le> str_len t"
  by (auto simp: suffix_def)

definition char_ok :: "mode \<Rightarrow> unescaped \<Rightarrow> bool" where
  "char_ok mode r = (case r of Ok c \<Rightarrow> is_scalar c \<and> (is_bytes mode \<longrightarrow> c \<le> 0xFF) | Err _ \<Rightarrow> True)"

lemma char_ok_Err [simp]: "char_ok mode (Err e)"
  by (simp add: char_ok_def)

lemma hex_digit_less: "hex_digit c = Some d \<Longrightarrow> unat d < 16"
  by (auto simp: hex_digit_def word_le_nat_alt unat_sub_if_size word_size split: if_splits)

lemma pow16_le: "n \<le> 6 \<Longrightarrow> (16::nat) ^ n \<le> 16 ^ 6"
  by (intro power_increasing) simp_all

lemma hex_push:
  fixes v d :: u32
  assumes "unat v < 16 ^ n" "n < 6" "unat d < 16"
  shows "unat v * 16 + unat d < 2 ^ 32" "unat (v * 16 + d) = unat v * 16 + unat d" "unat (v * 16 + d) < 16 ^ Suc n"
proof -
  have lt: "unat v * 16 + unat d < 16 ^ Suc n" using assms by simp
  also have "\<dots> \<le> 16 ^ 6" using assms(2) by (intro pow16_le) simp
  finally show "unat v * 16 + unat d < 2 ^ 32" by simp
  then show "unat (v * 16 + d) = unat v * 16 + unat d" by (simp add: unat_word_ariths)
  with lt show "unat (v * 16 + d) < 16 ^ Suc n" by simp
qed

lemma unicode_loop_ok:
  assumes "n \<le> 6 \<Longrightarrow> unat v < 16 ^ n" "n + length chars < 2 ^ 31"
  shows "\<exists>r chars'. unicode_loop chars mode n v = Some (r, chars') \<and> suffix chars' chars \<and> char_ok mode r"
  using assms
proof (induction chars arbitrary: n v)
  case (Cons c chars)
  consider "c = 95" | "c \<noteq> 95" "c = 125" | "c \<noteq> 95" "c \<noteq> 125" "hex_digit c = None"
    | d where "c \<noteq> 95" "c \<noteq> 125" "hex_digit c = Some d" by fastforce
  then show ?case
  proof cases
    case 1
    with Cons.IH [OF Cons.prems(1)] Cons.prems(2) show ?thesis by (auto intro: suffix_ConsI)
  next
    case 2
    then show ?thesis by (auto simp: char_ok_def char_try_from_u32_eq intro: suffix_ConsI)
  next
    case 3
    then show ?thesis by (auto simp: to_digit_16 intro: suffix_ConsI)
  next
    case 4
    note d = hex_digit_less [OF 4(3)]
    show ?thesis
    proof (cases "6 < n + 1")
      case True
      with Cons.IH [of "n + 1" v] Cons.prems(2) 4 show ?thesis by (auto simp: to_digit_16 intro: suffix_ConsI)
    next
      case False
      then have n: "n < 6" and v: "unat v < 16 ^ n" using Cons.prems(1) by simp_all
      note push = hex_push [OF v n d]
      from Cons.IH [of "n + 1" "v * 16 + d"] Cons.prems(2) push 4 False show ?thesis
        by (auto simp: to_digit_16 intro: suffix_ConsI)
    qed
  qed
qed simp

lemma scan_hex_escape_ok:
  "\<exists>r chars'. scan_hex_escape chars mode = Some (r, chars') \<and> suffix chars' chars \<and> char_ok mode r"
proof -
  consider "chars = []" | hi where "chars = [hi]" | hi lo rest where "chars = hi # lo # rest"
    by (metis list.exhaust)
  then show ?thesis
  proof cases
    case (3 hi lo rest)
    have "char_ok mode (Ok (ucast w))" for w :: u8
    proof -
      have "unat w < 2 ^ LENGTH(8)" by (rule unsigned_less)
      from le_less_trans [OF take_bit_nat_less_eq_self this]
      have "unat (ucast w :: u32) < 2 ^ LENGTH(8)" unfolding unsigned_ucast_eq .
      then show ?thesis by (simp add: char_ok_def is_scalar_def word_less_nat_alt word_le_nat_alt)
    qed
    moreover have "unat d * 16 + unat e < 2 ^ 32" if "hex_digit hi = Some d" "hex_digit lo = Some e" for d e
      using hex_digit_less [OF that(1)] hex_digit_less [OF that(2)] by simp
    ultimately show ?thesis using 3
      by (auto simp: scan_hex_escape_def to_digit_16 Let_def intro!: suffix_ConsI split: option.splits)
  qed (auto simp: scan_hex_escape_def to_digit_16 intro!: suffix_ConsI split: option.splits)
qed

text \<open>The bound is needed: with that many digits the counter overflows.\<close>

lemma unicode_loop_overflow:
  assumes "n + k = 2 ^ 31" "0 < n" "0 < k"
  shows "unicode_loop (replicate k 48 @ rest) mode n 0 = None"
  using assms
proof (induction k arbitrary: n)
  case (Suc k)
  have zero: "hex_digit 48 = Some 0" by (simp add: hex_digit_def)
  show ?case
  proof (cases "k = 0")
    case False
    then have "unicode_loop (replicate k 48 @ rest) mode (n + 1) 0 = None" using Suc.IH [of "n + 1"] Suc.prems by simp
    then show ?thesis using zero by (simp add: to_digit_16)
  qed (use Suc.prems zero in \<open>simp add: to_digit_16\<close>)
qed simp

lemma scan_unicode_escape_ok:
  assumes "length chars < 2 ^ 31"
  shows "\<exists>r chars'. scan_unicode_escape chars mode = Some (r, chars') \<and> suffix chars' chars \<and> char_ok mode r"
proof -
  consider "chars = []" | b where "chars = [b]" | b c rest where "chars = b # c # rest"
    by (metis list.exhaust)
  then show ?thesis
  proof cases
    case (3 b c rest)
    show ?thesis
    proof (cases "b = 123 \<and> c \<noteq> 95 \<and> c \<noteq> 125 \<and> hex_digit c \<noteq> None")
      case True
      then obtain d where d: "hex_digit c = Some d" by blast
      from unicode_loop_ok [of 1 d rest mode] hex_digit_less [OF d] True d 3 assms show ?thesis
        by (auto simp: scan_unicode_escape_def to_digit_16 intro!: suffix_ConsI)
    qed (use 3 in \<open>auto simp: scan_unicode_escape_def to_digit_16 intro!: suffix_ConsI\<close>)
  qed (auto simp: scan_unicode_escape_def intro!: suffix_ConsI)
qed

lemma char_ok_const: "c \<le> 0xFF \<Longrightarrow> char_ok mode (Ok c)"
  by (simp add: char_ok_def is_scalar_def word_less_nat_alt word_le_nat_alt)

lemma scan_escape_ok:
  assumes "length chars < 2 ^ 31"
  shows "\<exists>r chars'. scan_escape chars mode = Some (r, chars') \<and> suffix chars' chars \<and> char_ok mode r"
proof (cases chars)
  case (Cons c rest)
  from scan_hex_escape_ok [of rest mode] scan_unicode_escape_ok [of rest mode] assms show ?thesis
    unfolding Cons scan_escape_def list.case
    by (auto intro: suffix_ConsI char_ok_const)
qed (simp add: scan_escape_def)

lemma ascii_check_ok: "is_scalar c \<Longrightarrow> char_ok mode (ascii_check c mode)"
  by (auto simp: ascii_check_def char_ok_def char_is_ascii_def word_le_nat_alt)

lemma unescape_step_ok:
  "is_scalar c \<Longrightarrow> length chars < 2 ^ 31 \<Longrightarrow>
   \<exists>r chars'. unescape_step c chars mode = Some (r, chars') \<and> suffix chars' chars \<and> char_ok mode r"
  using scan_escape_ok [of chars mode] ascii_check_ok [of c mode]
  by (auto simp: unescape_step_def intro!: char_ok_const)

lemma unescape_char_or_byte_ok:
  assumes "\<forall>c \<in> set chars. is_scalar c" "length chars < 2 ^ 31"
  shows "\<exists>r chars'. unescape_char_or_byte chars mode = Some (r, chars') \<and> suffix chars' chars \<and> char_ok mode r"
proof (cases chars)
  case (Cons c rest)
  let ?step = "if c = 92 then scan_escape rest mode
     else if c = 10 \<or> c = 9 \<or> c = 39 then Some (Err EscapeOnlyChar, rest)
     else if c = 13 then Some (Err BareCarriageReturn, rest)
     else Some (ascii_check c mode, rest)"
  have "\<exists>r rest'. ?step = Some (r, rest') \<and> suffix rest' rest \<and> char_ok mode r"
    using scan_escape_ok [of rest mode] ascii_check_ok [of c mode] assms Cons by auto
  then obtain r rest' where r: "?step = Some (r, rest')" "suffix rest' rest" "char_ok mode r" by blast
  have "suffix ds (c # rest)" if "rest' = d # ds" for d ds
    using r(2) that by (metis suffix_ConsD suffix_ConsI)
  with r show ?thesis unfolding unescape_char_or_byte_def Cons list.case
    by (auto split: result.splits list.splits intro: suffix_ConsI)
qed (simp add: unescape_char_or_byte_def)


section \<open>String literals\<close>

definition event_ok :: "mode \<Rightarrow> nat \<Rightarrow> event \<Rightarrow> bool" where
  "event_ok mode n ev \<longleftrightarrow> fst (fst ev) < snd (fst ev) \<and> snd (fst ev) \<le> n \<and> char_ok mode (snd ev)"

lemma scalar_le: "is_scalar c \<Longrightarrow> c \<le> 0x10FFFF"
  by (auto simp: is_scalar_def word_less_nat_alt word_le_nat_alt)

lemma skipped_len: "str_len (takeWhile is_skipped s) = length (takeWhile is_skipped s)"
  by (induction s) (auto simp: is_skipped_def len_utf8_def)

lemma skip_ascii_whitespace_ok:
  assumes "\<forall>c \<in> set tail. is_scalar c" "tail \<noteq> []" "hd tail = 10"
  shows "\<exists>evs. skip_ascii_whitespace tail start = Some (evs, dropWhile is_skipped tail) \<and>
    (\<forall>ev \<in> set evs. fst (fst ev) = start \<and> event_ok mode (start + 1 + str_len tail) ev)"
proof -
  define n rest where "n = length (takeWhile is_skipped tail)" and "rest = dropWhile is_skipped tail"
  have n: "1 \<le> n" using assms(2,3) unfolding n_def by (cases tail) (simp_all add: is_skipped_def)
  have len: "str_len tail = n + str_len rest"
    unfolding n_def rest_def by (metis skipped_len str_len_simps(3) takeWhile_dropWhile_id)
  have slice: "slice tail 1 n = Some (take (n - 1) (drop 1 tail))"
    using n length_takeWhile_le [of is_skipped tail] by (simp add: slice_def n_def)
  have drop: "drop n tail = rest" unfolding n_def rest_def by (simp add: dropWhile_eq_drop)
  have eq: "skip_ascii_whitespace tail start = (do {
      unskipped \<leftarrow> (case rest of
          [] \<Rightarrow> Some []
        | c # _ \<Rightarrow> do {
            w \<leftarrow> char_is_whitespace c;
            Some (if w then [((start, start + n + len_utf8 c + 1), Err UnskippedWhitespaceWarning)] else [])
          });
      Some ((if 10 \<in> set (take (n - 1) (drop 1 tail))
          then [((start, start + n + 1), Err MultipleSkippedLinesWarning)] else []) @ unskipped, rest) })"
    unfolding skip_ascii_whitespace_def Let_def n_def [symmetric] slice drop by (simp cong: list.case_cong)
  have "\<exists>evs. skip_ascii_whitespace tail start = Some (evs, rest) \<and>
    (\<forall>ev \<in> set evs. fst (fst ev) = start \<and> event_ok mode (start + 1 + str_len tail) ev)"
  proof (cases rest)
    case Nil
    then show ?thesis unfolding eq using len n by (simp add: event_ok_def)
  next
    case (Cons c cs)
    then have "is_scalar c" using assms(1) rest_def by (metis list.set_intros(1) set_dropWhileD)
    then have "char_is_whitespace c = Some (is_white_space c)" by (simp add: char_is_whitespace_eq scalar_le)
    then show ?thesis unfolding eq Cons using Cons len n by (auto simp: event_ok_def)
  qed
  then show ?thesis unfolding rest_def .
qed

lemma sorted_const: "\<forall>x \<in> set xs. x = k \<Longrightarrow> sorted xs" for k :: nat
  by (induction xs) auto

lemma event_ok_mono: "event_ok mode n ev \<Longrightarrow> n \<le> m \<Longrightarrow> event_ok mode m ev"
  by (simp add: event_ok_def)

lemma str_loop_ok:
  assumes "\<forall>c \<in> set chars. is_scalar c" "str_len chars \<le> n" "length chars < 2 ^ 31"
  shows "\<exists>evs. str_loop n chars mode = Some evs \<and>
    (\<forall>ev \<in> set evs. n - str_len chars \<le> fst (fst ev) \<and> event_ok mode n ev) \<and> sorted (map (fst \<circ> fst) evs)"
  using assms
proof (induction "length chars" arbitrary: chars rule: less_induct)
  case less
  show ?case
  proof (cases chars)
    case (Cons c rest)
    let ?start = "n - str_len rest - len_utf8 c"
    have start: "checked_sub n (str_len rest) = Some (n - str_len rest)"
      "checked_sub (n - str_len rest) (len_utf8 c) = Some ?start" "?start = n - str_len chars"
      using less.prems(2) Cons by simp_all
    have IH: "\<exists>evs. str_loop n cs mode = Some evs \<and>
        (\<forall>ev \<in> set evs. n - str_len rest \<le> fst (fst ev) \<and> event_ok mode n ev) \<and> sorted (map (fst \<circ> fst) evs)"
      if "suffix cs rest" for cs
    proof -
      have "length cs < length chars" "str_len cs \<le> str_len rest"
        using that Cons suffix_length_le suffix_str_len by fastforce+
      moreover have "\<forall>c \<in> set cs. is_scalar c" using less.prems(1) Cons that set_mono_suffix by fastforce
      ultimately show ?thesis using less.hyps [of cs] less.prems(2,3) Cons by fastforce
    qed
    show ?thesis
    proof (cases "c = 92 \<and> rest \<noteq> [] \<and> hd rest = 10")
      case True
      obtain evs where evs: "skip_ascii_whitespace rest ?start = Some (evs, dropWhile is_skipped rest)"
          "\<forall>ev \<in> set evs. fst (fst ev) = ?start \<and> event_ok mode (?start + 1 + str_len rest) ev"
        using skip_ascii_whitespace_ok [of rest ?start mode] True less.prems(1) Cons by auto
      have "?start + 1 + str_len rest \<le> n" using less.prems(2) Cons True by (simp add: len_utf8_def)
      then have ok: "\<forall>ev \<in> set evs. fst (fst ev) = ?start \<and> event_ok mode n ev"
        using evs(2) event_ok_mono by blast
      obtain evs' where evs': "str_loop n (dropWhile is_skipped rest) mode = Some evs'"
          "\<forall>ev \<in> set evs'. n - str_len rest \<le> fst (fst ev) \<and> event_ok mode n ev" "sorted (map (fst \<circ> fst) evs')"
        using IH [OF suffix_dropWhile] by blast
      have "sorted (map (fst \<circ> fst) evs)" using ok by (intro sorted_const [of _ ?start]) auto
      moreover have "\<forall>ev \<in> set evs'. ?start \<le> fst (fst ev)" using evs'(2) by fastforce
      ultimately have "sorted (map (fst \<circ> fst) (evs @ evs'))" using evs'(3) ok by (auto simp: sorted_append)
      moreover have "str_loop n chars mode = Some (evs @ evs')"
        using start True evs(1) evs'(1) unfolding Cons by simp
      ultimately show ?thesis using ok evs'(2) start(3) by fastforce
    next
      case False
      obtain r cs where r: "unescape_step c rest mode = Some (r, cs)" "suffix cs rest" "char_ok mode r"
        using unescape_step_ok [of c rest mode] less.prems(1,3) Cons by auto
      have end_pos: "checked_sub n (str_len cs) = Some (n - str_len cs)"
        using suffix_str_len [OF r(2)] less.prems(2) Cons by simp
      obtain evs where evs: "str_loop n cs mode = Some evs"
          "\<forall>ev \<in> set evs. n - str_len rest \<le> fst (fst ev) \<and> event_ok mode n ev" "sorted (map (fst \<circ> fst) evs)"
        using IH [OF r(2)] by blast
      have "str_len rest + len_utf8 c \<le> n" using less.prems(2) Cons by simp
      then have "?start < n - str_len cs" using suffix_str_len [OF r(2)] len_utf8_pos [of c] by linarith
      then have "event_ok mode n ((?start, n - str_len cs), r)" using r(3) by (simp add: event_ok_def)
      moreover have "str_loop n chars mode = Some (((?start, n - str_len cs), r) # evs)"
        using start False r(1) end_pos evs(1) unfolding Cons by auto
      moreover have "\<forall>ev \<in> set evs. ?start \<le> fst (fst ev)" using evs(2) by fastforce
      ultimately show ?thesis using evs start(3) by auto
    qed
  qed simp
qed

lemma raw_loop_eq:
  assumes "str_len chars \<le> n"
  shows "\<exists>evs. raw_loop n chars mode = Some evs \<and>
    map snd evs = map (raw_char mode) chars \<and>
    (\<forall>ev \<in> set evs. n - str_len chars \<le> fst (fst ev) \<and> fst (fst ev) < snd (fst ev) \<and> snd (fst ev) \<le> n) \<and>
    sorted (map (fst \<circ> fst) evs)"
  using assms
proof (induction chars)
  case (Cons c chars)
  from Cons.prems have "str_len chars \<le> n" by simp
  from Cons.IH [OF this] obtain evs where evs: "raw_loop n chars mode = Some evs"
      "map snd evs = map (raw_char mode) chars"
      "\<forall>ev \<in> set evs. n - str_len chars \<le> fst (fst ev) \<and> fst (fst ev) < snd (fst ev) \<and> snd (fst ev) \<le> n"
      "sorted (map (fst \<circ> fst) evs)" by blast
  have "checked_sub n (str_len chars) = Some (n - str_len chars)"
    "checked_sub (n - str_len chars) (len_utf8 c) = Some (n - str_len chars - len_utf8 c)"
    using Cons.prems by simp_all
  moreover have "n - str_len chars - len_utf8 c < n - str_len chars"
    using Cons.prems len_utf8_pos [of c] unfolding str_len_simps by linarith
  moreover have "\<forall>ev \<in> set evs. n - str_len chars - len_utf8 c \<le> fst (fst ev)" using evs(3) by fastforce
  ultimately show ?case using evs
    by (intro exI [of _ "((n - str_len chars - len_utf8 c, n - str_len chars), raw_char mode c) # evs"])
       (auto simp: Let_def comp_def)
qed simp

lemma raw_char_ok:
  "is_scalar c \<Longrightarrow> char_ok mode (raw_char mode c)"
  by (auto simp: raw_char_def char_ok_def char_is_ascii_def word_le_nat_alt)

text \<open>Every literal of fewer than \<open>2 ^ 31\<close> valid characters is processed without panic, whatever the mode.\<close>

lemma unescape_literal_ok:
  assumes "\<forall>c \<in> set lit. is_scalar c" "length lit < 2 ^ 31"
  shows "\<exists>evs. unescape_literal lit mode = Some evs \<and>
    (\<forall>ev \<in> set evs. fst (fst ev) \<le> snd (fst ev) \<and> snd (fst ev) \<le> str_len lit \<and> char_ok mode (snd ev)) \<and>
    sorted (map (fst \<circ> fst) evs)"
proof -
  consider "mode = ModeChar \<or> mode = ModeByte" | "mode = ModeStr \<or> mode = ModeByteStr"
    | "mode = ModeRawStr \<or> mode = ModeRawByteStr" by (cases mode) simp_all
  then show ?thesis
  proof cases
    case 1
    obtain r cs where r: "unescape_char_or_byte lit mode = Some (r, cs)" "suffix cs lit" "char_ok mode r"
      using unescape_char_or_byte_ok [OF assms] by blast
    with 1 suffix_str_len [OF r(2)] show ?thesis by (auto simp: unescape_literal_def)
  next
    case 2
    obtain evs where "str_loop (str_len lit) lit mode = Some evs"
        "\<forall>ev \<in> set evs. event_ok mode (str_len lit) ev" "sorted (map (fst \<circ> fst) evs)"
      using str_loop_ok [OF assms(1) order_refl assms(2)] by blast
    with 2 show ?thesis
      by (auto simp: unescape_literal_def unescape_str_or_byte_str_def in_double_quotes_def event_ok_def
          intro: less_imp_le)
  next
    case 3
    obtain evs where evs: "raw_loop (str_len lit) lit mode = Some evs"
        "map snd evs = map (raw_char mode) lit"
        "\<forall>ev \<in> set evs. fst (fst ev) < snd (fst ev) \<and> snd (fst ev) \<le> str_len lit" "sorted (map (fst \<circ> fst) evs)"
      using raw_loop_eq [OF order_refl, of lit mode] by auto
    have "char_ok mode (snd ev)" if "ev \<in> set evs" for ev
    proof -
      have "snd ev \<in> set (map snd evs)" using that by simp
      then show ?thesis unfolding evs(2) using raw_char_ok assms(1) by auto
    qed
    with 3 evs show ?thesis
      by (auto simp: unescape_literal_def unescape_raw_str_or_byte_str_def in_double_quotes_def less_imp_le)
  qed
qed

lemma byte_events_ok:
  assumes "\<forall>ev \<in> set evs. char_ok mode (snd ev)" "is_bytes mode"
  shows "\<exists>bs. byte_events evs = Some bs \<and> map fst bs = map fst evs \<and>
    (\<forall>i < length evs. \<forall>c. snd (evs ! i) = Ok c \<longrightarrow> snd (bs ! i) = Ok (ucast c))"
  using assms(1)
proof (induction evs)
  case (Cons ev evs)
  then obtain bs where bs: "byte_events evs = Some bs" "map fst bs = map fst evs"
    "\<forall>i < length evs. \<forall>c. snd (evs ! i) = Ok c \<longrightarrow> snd (bs ! i) = Ok (ucast c)" by auto
  obtain rng r where ev: "ev = (rng, r)" by fastforce
  show ?case
  proof (cases r)
    case (Ok c)
    then have "c \<le> 0xFF" using Cons.prems assms(2) ev by (simp add: char_ok_def)
    with bs show ?thesis by (auto simp: ev Ok byte_from_char_def nth_Cons split: nat.splits)
  next
    case (Err e)
    with bs show ?thesis by (auto simp: ev nth_Cons split: nat.splits)
  qed
qed simp


section \<open>Escaping and unescaping\<close>

definition escape_default_text :: "rchar \<Rightarrow> rstr option" where
  "escape_default_text c = do { e \<leftarrow> char_escape_default c; escape_collect e }"

text \<open>\<open>str::escape_default\<close>.\<close>

fun str_escape_default :: "rstr \<Rightarrow> rstr option" where
  "str_escape_default [] = Some []"
| "str_escape_default (c # s) = do {
     t \<leftarrow> escape_default_text c;
     u \<leftarrow> str_escape_default s;
     Some (t @ u)
   }"

lemma escape_collect_simple:
  "escape_collect (DefChar c) = Some [c]" "escape_collect (DefBackslash c) = Some [92, c]"
proof -
  show "escape_collect (DefChar c) = Some [c]"
    by (simp add: escape_collect.simps [of "DefChar c"] escape_collect.simps [of DefDone])
  then show "escape_collect (DefBackslash c) = Some [92, c]"
    by (simp add: escape_collect.simps [of "DefBackslash c"])
qed

lemma hex_char_not_delim: "d < 16 \<Longrightarrow> hex_char d \<noteq> 95 \<and> hex_char d \<noteq> 125"
  using hex_char_range [of d] by (auto simp: word_le_nat_alt)

text \<open>Reading back printed hexadecimal digits accumulates their value.\<close>

lemma unicode_loop_nibbles:
  assumes "n + m \<le> 6" "unat v < 16 ^ n"
  shows "unicode_loop (map (\<lambda>i. hex_char (nibble c i)) (rev [0..<m]) @ rest) mode n v =
    unicode_loop rest mode (n + m) (of_nat (unat v * 16 ^ m + unat c mod 16 ^ m))"
  using assms
proof (induction m arbitrary: n v)
  case (Suc m)
  let ?d = "nibble c m"
  have d: "unat ?d < 16" "?d < 16" using nibble_less [of c m] by (simp_all add: word_less_nat_alt)
  have push: "unat v * 16 + unat ?d < 2 ^ 32" "unat (v * 16 + ?d) = unat v * 16 + unat ?d"
      "unat (v * 16 + ?d) < 16 ^ Suc n"
    using hex_push [OF Suc.prems(2) _ d(1)] Suc.prems(1) by simp_all
  have "unicode_loop (map (\<lambda>i. hex_char (nibble c i)) (rev [0..<Suc m]) @ rest) mode n v =
      unicode_loop (map (\<lambda>i. hex_char (nibble c i)) (rev [0..<m]) @ rest) mode (Suc n) (v * 16 + ?d)"
    using hex_char_not_delim [OF d(2)] hex_digit_char [OF d(2)] push(1) Suc.prems(1) by (simp add: to_digit_16)
  also have "\<dots> = unicode_loop rest mode (Suc n + m) (of_nat (unat (v * 16 + ?d) * 16 ^ m + unat c mod 16 ^ m))"
    using Suc.IH [of "Suc n" "v * 16 + ?d"] Suc.prems push(3) by simp
  also have "unat (v * 16 + ?d) * 16 ^ m + unat c mod 16 ^ m = unat v * 16 ^ Suc m + unat c mod 16 ^ Suc m"
  proof -
    have "unat c mod 16 ^ Suc m = 16 ^ m * (unat c div 16 ^ m mod 16) + unat c mod 16 ^ m"
      by (metis mod_mult2_eq mult.commute power_Suc)
    then show ?thesis unfolding push(2) unat_nibble by (simp add: algebra_simps)
  qed
  finally show ?case by simp
qed simp

lemma scan_escape_text:
  assumes "is_scalar c" "k \<le> 5" "unat c < 16 ^ Suc k" "\<not> is_bytes mode"
  shows "scan_escape (tl (escape_text k c) @ rest) mode = Some (Ok c, rest)"
proof -
  let ?d = "nibble c k" and ?ds = "map (\<lambda>i. hex_char (nibble c i)) (rev [0..<k])"
  have d: "?d < 16" "unat ?d < 16 ^ 1" using nibble_less [of c k] by (simp_all add: word_less_nat_alt)
  have chars: "tl (escape_text k c) @ rest = 117 # 123 # hex_char ?d # ?ds @ 125 # rest"
    by (simp add: escape_text_def)
  have "scan_escape (117 # 123 # hex_char ?d # ?ds @ 125 # rest) mode = unicode_loop (?ds @ 125 # rest) mode 1 ?d"
    using hex_char_not_delim [OF d(1)] hex_digit_char [OF d(1)]
    by (simp add: scan_escape_def scan_unicode_escape_def to_digit_16)
  also have "\<dots> = unicode_loop (125 # rest) mode (1 + k) (of_nat (unat ?d * 16 ^ k + unat c mod 16 ^ k))"
    using unicode_loop_nibbles [of 1 k ?d c "125 # rest" mode] d(2) assms(2) by simp
  also have "unat ?d * 16 ^ k + unat c mod 16 ^ k = unat c mod 16 ^ Suc k"
    unfolding unat_nibble by (metis mod_mult2_eq mult.commute power_Suc)
  also have "\<dots> = unat c" using assms(3) by simp
  finally show ?thesis unfolding chars using assms by (simp add: char_try_from_u32_eq)
qed

text \<open>The text \<open>escape_default\<close> prints for a character starts with it or with a backslash, and reads back as it.\<close>

lemma escape_default_text_reads:
  assumes "is_scalar c" "\<not> is_bytes mode"
  shows "\<exists>d s. escape_default_text c = Some (d # s) \<and>
    (\<forall>rest. unescape_step d (s @ rest) mode = Some (Ok c, rest)) \<and> d \<noteq> 10 \<and> d \<noteq> 9 \<and> d \<noteq> 39 \<and> d \<noteq> 13 \<and>
    (d = 92 \<longrightarrow> s \<noteq> [] \<and> hd s \<noteq> 10) \<and> (d \<noteq> 92 \<longrightarrow> d = c \<and> s = [])"
proof -
  consider (slash) "c = 9 \<or> c = 13 \<or> c = 10 \<or> c = 92 \<or> c = 39 \<or> c = 34"
    | (plain) "\<not> (c = 9 \<or> c = 13 \<or> c = 10 \<or> c = 92 \<or> c = 39 \<or> c = 34)" "0x20 \<le> c \<and> c \<le> 0x7E"
    | (unicode) "\<not> (c = 9 \<or> c = 13 \<or> c = 10 \<or> c = 92 \<or> c = 39 \<or> c = 34)" "\<not> (0x20 \<le> c \<and> c \<le> 0x7E)" by blast
  then show ?thesis
  proof cases
    case slash
    then show ?thesis
      by (auto simp: escape_default_text_def char_escape_default_def escape_collect_simple unescape_step_def scan_escape_def)
  next
    case plain
    then show ?thesis using assms
      by (auto simp: escape_default_text_def char_escape_default_def escape_collect_simple unescape_step_def ascii_check_def)
  next
    case unicode
    obtain k where k: "k \<le> 5" "unat c < 16 ^ Suc k"
        "char_escape_unicode c = Some \<lparr>eu_c = c, eu_state = Backslash, hex_digit_idx = k\<rparr>"
      using char_escape_unicode_digits [OF scalar_le [OF assms(1)]] by blast
    have "escape_text k c = 92 # tl (escape_text k c)" "hd (tl (escape_text k c)) = 117" "tl (escape_text k c) \<noteq> []"
      by (simp_all add: escape_text_def)
    moreover have "escape_default_text c = Some (escape_text k c)"
      using unicode k(3) by (auto simp: escape_default_text_def char_escape_default_def escape_collect_unicode)
    ultimately show ?thesis using scan_escape_text [OF assms(1) k(1,2) assms(2)]
      by (intro exI [of _ 92] exI [of _ "tl (escape_text k c)"]) (auto simp: unescape_step_def)
  qed
qed

lemma unescape_char_escape_default:
  assumes "is_scalar c"
  shows "\<exists>lit. escape_default_text c = Some lit \<and> unescape_char lit = Some (Ok c)"
proof -
  obtain d s where d: "escape_default_text c = Some (d # s)"
      "\<forall>rest. unescape_step d (s @ rest) ModeChar = Some (Ok c, rest)" "d \<noteq> 10" "d \<noteq> 9" "d \<noteq> 39" "d \<noteq> 13"
      "d \<noteq> 92 \<longrightarrow> d = c \<and> s = []"
    using escape_default_text_reads [OF assms, of ModeChar] by (metis is_bytes.simps(4))
  moreover have "unescape_step d s ModeChar = Some (Ok c, [])" using d(2) by (metis append_Nil2)
  ultimately have "unescape_char_or_byte (d # s) ModeChar = Some (Ok c, [])"
    by (cases "d = 92") (auto simp: unescape_char_or_byte_def unescape_step_def ascii_check_def)
  with d(1) show ?thesis by (simp add: unescape_char_def)
qed

lemma str_loop_escape_default:
  assumes "\<forall>c \<in> set s. is_scalar c"
  shows "\<exists>lit. str_escape_default s = Some lit \<and>
    (\<forall>n. str_len lit \<le> n \<longrightarrow> (\<exists>evs. str_loop n lit ModeStr = Some evs \<and> map snd evs = map Ok s))"
  using assms
proof (induction s)
  case (Cons c s)
  obtain d u where d: "escape_default_text c = Some (d # u)"
      "\<forall>rest. unescape_step d (u @ rest) ModeStr = Some (Ok c, rest)" "d = 92 \<longrightarrow> u \<noteq> [] \<and> hd u \<noteq> 10"
    using escape_default_text_reads [of c ModeStr] Cons.prems by (metis is_bytes.simps(5) list.set_intros(1))
  obtain lit where lit: "str_escape_default s = Some lit"
      "\<forall>n. str_len lit \<le> n \<longrightarrow> (\<exists>evs. str_loop n lit ModeStr = Some evs \<and> map snd evs = map Ok s)"
    using Cons by auto
  have loop: "\<exists>evs. str_loop n (d # u @ lit) ModeStr = Some evs \<and> map snd evs = map Ok (c # s)"
    if n: "str_len (d # u @ lit) \<le> n" for n
  proof -
    have "str_len lit \<le> n" using n by simp
    then obtain evs where evs: "str_loop n lit ModeStr = Some evs" "map snd evs = map Ok s" using lit(2) by blast
    have "\<not> (d = 92 \<and> u @ lit \<noteq> [] \<and> hd (u @ lit) = 10)" using d(3) by auto
    moreover have "checked_sub n (str_len (u @ lit)) = Some (n - str_len (u @ lit))"
      "checked_sub (n - str_len (u @ lit)) (len_utf8 d) = Some (n - str_len (u @ lit) - len_utf8 d)"
      "checked_sub n (str_len lit) = Some (n - str_len lit)"
      using n by simp_all
    ultimately show ?thesis using d(2) evs by (auto simp del: str_len_simps)
  qed
  then show ?case using d(1) lit(1) by simp
qed simp

lemma escape_default_exact_len:
  assumes "c \<le> 0x10FFFF" "char_escape_default c = Some e"
  shows "\<exists>t. escape_collect e = Some t \<and> length t = escape_default_len e"
proof -
  obtain k where k: "char_escape_unicode c = Some \<lparr>eu_c = c, eu_state = Backslash, hex_digit_idx = k\<rparr>"
    using char_escape_unicode_digits [OF assms(1)] by blast
  show ?thesis using assms(2) k
    by (auto simp: char_escape_default_def escape_collect_simple escape_collect_unicode escape_text_def
        escape_unicode_len_def split: if_splits)
qed


section \<open>Properties\<close>

text \<open>C29: \<open>unescape_literal\<close> never panics on a text of fewer than \<open>2 ^ 31\<close> characters: in every mode it calls back with
  ranges in increasing order of their start that lie inside the text, and every character it yields is a Unicode scalar
  value, at most \<open>0xFF\<close> in the byte modes; neither the \<open>u32\<close> arithmetic of the escapes nor the \<open>i32\<close> counter of the digits
  of a unicode escape overflows.\<close>

theorem unescape_literal_safe:
  assumes "\<forall>c \<in> set lit. is_scalar c" "length lit < 2 ^ 31"
  shows "\<exists>evs. unescape_literal lit mode = Some evs \<and> sorted (map (fst \<circ> fst) evs) \<and>
    (\<forall>ev \<in> set evs. fst (fst ev) \<le> snd (fst ev) \<and> snd (fst ev) \<le> str_len lit \<and>
       (\<forall>c. snd ev = Ok c \<longrightarrow> is_scalar c \<and> (is_bytes mode \<longrightarrow> c \<le> 0xFF)))"
proof -
  have "char_ok mode r \<Longrightarrow> r = Ok c \<Longrightarrow> is_scalar c \<and> (is_bytes mode \<longrightarrow> c \<le> 0xFF)" for r c
    by (simp add: char_ok_def)
  then show ?thesis using unescape_literal_ok [OF assms, of mode] by metis
qed

theorem unescape_literal_safe_witness:
  "\<exists>evs. unescape_literal [92, 117, 123, 49, 70, 54, 48, 48, 125, 34] ModeStr = Some evs \<and>
     (\<forall>ev \<in> set evs. snd (fst ev) \<le> 10)"
  using unescape_literal_safe [of "[92, 117, 123, 49, 70, 54, 48, 48, 125, 34]" ModeStr]
  by (fastforce simp: is_scalar_def len_utf8_def)

text \<open>Nor does \<open>unescape_byte_literal\<close> panic for a byte mode: the assertion in \<open>byte_from_char\<close>, that the
  character fits in a byte, holds for every character \<open>unescape_literal\<close> yields, and the ranges are the same.\<close>

theorem unescape_byte_literal_safe:
  assumes "\<forall>c \<in> set lit. is_scalar c" "is_bytes mode" "length lit < 2 ^ 31"
  shows "\<exists>evs bs. unescape_literal lit mode = Some evs \<and> unescape_byte_literal lit mode = Some bs \<and>
    map fst bs = map fst evs \<and>
    (\<forall>i < length evs. \<forall>c. snd (evs ! i) = Ok c \<longrightarrow> c \<le> 0xFF \<and> snd (bs ! i) = Ok (ucast c))"
proof -
  obtain evs where evs: "unescape_literal lit mode = Some evs" "\<forall>ev \<in> set evs. char_ok mode (snd ev)"
    using unescape_literal_ok [OF assms(1,3), of mode] by blast
  obtain bs where bs: "byte_events evs = Some bs" "map fst bs = map fst evs"
      "\<forall>i < length evs. \<forall>c. snd (evs ! i) = Ok c \<longrightarrow> snd (bs ! i) = Ok (ucast c)"
    using byte_events_ok [OF evs(2) assms(2)] by blast
  have "c \<le> 0xFF" if "i < length evs" "snd (evs ! i) = Ok c" for i c
    using evs(2) nth_mem [OF that(1)] that(2) assms(2) by (fastforce simp: char_ok_def)
  with evs bs assms(2) show ?thesis by (auto simp: unescape_byte_literal_def)
qed

theorem unescape_byte_literal_safe_witness:
  "\<exists>bs. unescape_byte_literal [92, 120, 102, 102] ModeByteStr = Some bs"
  using unescape_byte_literal_safe [of "[92, 120, 102, 102]" ModeByteStr] by (auto simp: is_scalar_def)

text \<open>Escaping round trip: for every string of scalar values, \<open>str::escape_default\<close> succeeds, and
  unescaping what it prints as the contents of a string literal yields exactly the characters of the string,
  with no error; for one character, \<open>unescape_char\<close> reads it back.\<close>

theorem escape_default_roundtrip:
  assumes "\<forall>c \<in> set s. is_scalar c"
  shows "\<exists>lit evs. str_escape_default s = Some lit \<and> unescape_literal lit ModeStr = Some evs \<and>
    map snd evs = map Ok s \<and>
    (\<forall>c \<in> set s. \<exists>t. escape_default_text c = Some t \<and> unescape_char t = Some (Ok c))"
proof -
  obtain lit where lit: "str_escape_default s = Some lit"
      "\<forall>n. str_len lit \<le> n \<longrightarrow> (\<exists>evs. str_loop n lit ModeStr = Some evs \<and> map snd evs = map Ok s)"
    using str_loop_escape_default [OF assms] by blast
  then obtain evs where "str_loop (str_len lit) lit ModeStr = Some evs" "map snd evs = map Ok s" by blast
  with lit(1) unescape_char_escape_default assms show ?thesis
    by (auto simp: unescape_literal_def unescape_str_or_byte_str_def in_double_quotes_def)
qed

theorem escape_default_roundtrip_witness:
  "\<exists>lit evs. str_escape_default [104, 10, 0x1F600] = Some lit \<and> unescape_literal lit ModeStr = Some evs \<and>
     map snd evs = [Ok 104, Ok 10, Ok 0x1F600]"
  using escape_default_roundtrip [of "[104, 10, 0x1F600]"] by (auto simp: is_scalar_def)

text \<open>C32: Raw string literals: unescaping yields one result per character, the character itself except for an
  error on every carriage return and, in raw byte strings, on every character that is not ASCII.\<close>

theorem unescape_raw_literal:
  assumes "mode = ModeRawStr \<or> mode = ModeRawByteStr"
  shows "\<exists>evs. unescape_literal lit mode = Some evs \<and>
    map snd evs = map (\<lambda>c. if c = 13 then Err BareCarriageReturnInRawString
      else if is_bytes mode \<and> 0x7F < c then Err NonAsciiCharInByteString else Ok c) lit"
proof -
  obtain evs where evs: "raw_loop (str_len lit) lit mode = Some evs" "map snd evs = map (raw_char mode) lit"
    using raw_loop_eq [OF order_refl, of lit mode] by blast
  have "raw_char mode = (\<lambda>c. if c = 13 then Err BareCarriageReturnInRawString
      else if is_bytes mode \<and> 0x7F < c then Err NonAsciiCharInByteString else Ok c)"
    by (rule ext) (simp add: raw_char_def char_is_ascii_def not_le)
  with evs assms show ?thesis
    by (auto simp: unescape_literal_def unescape_raw_str_or_byte_str_def in_double_quotes_def)
qed

theorem unescape_raw_literal_witness:
  "\<exists>evs. unescape_literal [97, 13, 92] ModeRawStr = Some evs \<and>
     map snd evs = [Ok 97, Err BareCarriageReturnInRawString, Ok 92]"
  using unescape_raw_literal [of ModeRawStr "[97, 13, 92]"] by simp

text \<open>The escape iterators report their exact length: \<open>EscapeDefault::len\<close> is the number of characters
  the iterator yields, for every character.\<close>

theorem escape_default_len_exact:
  assumes "c \<le> 0x10FFFF" "char_escape_default c = Some e"
  shows "\<exists>t. escape_collect e = Some t \<and> length t = escape_default_len e"
  by (rule escape_default_exact_len [OF assms])

theorem escape_default_len_exact_witness:
  "\<exists>t. escape_collect (DefBackslash 110) = Some t \<and> length t = escape_default_len (DefBackslash 110)"
  by (rule escape_default_len_exact [of 10]) (simp_all add: char_escape_default_def)

end
