(* ===== verification/Lexer.thy ===== *)
theory Lexer
  imports Unescape
begin

text \<open>
  \<open>compiler/rustc_lexer/src/cursor.rs\<close> and \<open>lib.rs\<close>: the lexer that splits Rust source text into tokens.
  Characters are code points (\<open>u32\<close>, see theory \<open>Rust_Char\<close>), the cursor keeps the characters that are left
  and, as in a build with debug assertions, the character eaten last; a failed debug assertion, an underflow
  or \<open>unwrap\<close> of \<open>None\<close> is \<open>None\<close>. The tables of the crates \<open>unicode_xid\<close> and \<open>unic_emoji_char\<close> are a
  parameter.
\<close>

section \<open>Unicode tables\<close>

record unicode_tables =
  is_xid_start :: "rchar \<Rightarrow> bool"
  is_xid_continue :: "rchar \<Rightarrow> bool"
  is_emoji :: "rchar \<Rightarrow> bool"


section \<open>The cursor\<close>

record cursor =
  initial_len :: nat
  cur_chars :: rstr
  prev_char :: rchar

abbreviation EOF_CHAR :: rchar where "EOF_CHAR \<equiv> 0"

definition cursor_new :: "rstr \<Rightarrow> cursor" where
  "cursor_new input = \<lparr>initial_len = str_len input, cur_chars = input, prev_char = EOF_CHAR\<rparr>"

definition first :: "cursor \<Rightarrow> rchar" where
  "first c = (case cur_chars c of [] \<Rightarrow> EOF_CHAR | x # _ \<Rightarrow> x)"

definition second :: "cursor \<Rightarrow> rchar" where
  "second c = (case cur_chars c of _ # y # _ \<Rightarrow> y | _ \<Rightarrow> EOF_CHAR)"

definition is_eof :: "cursor \<Rightarrow> bool" where
  "is_eof c \<longleftrightarrow> cur_chars c = []"

definition len_consumed :: "cursor \<Rightarrow> nat option" where
  "len_consumed c = checked_sub (initial_len c) (str_len (cur_chars c))"

definition reset_len_consumed :: "cursor \<Rightarrow> cursor" where
  "reset_len_consumed c = c\<lparr>initial_len := str_len (cur_chars c)\<rparr>"

definition bump :: "cursor \<Rightarrow> rchar option \<times> cursor" where
  "bump c = (case cur_chars c of
     [] \<Rightarrow> (None, c)
   | x # xs \<Rightarrow> (Some x, c\<lparr>cur_chars := xs, prev_char := x\<rparr>))"

lemma bump_length: "\<not> is_eof c \<Longrightarrow> length (cur_chars (snd (bump c))) < length (cur_chars c)"
  by (cases "cur_chars c") (simp_all add: bump_def is_eof_def)

lemma bump_Some_length: "bump c = (Some x, c') \<Longrightarrow> length (cur_chars c') < length (cur_chars c)"
  by (cases "cur_chars c") (auto simp: bump_def)

lemma bump_length_le: "length (cur_chars (snd (bump c))) \<le> length (cur_chars c)"
  by (cases "cur_chars c") (simp_all add: bump_def)

lemma first_not_eof: "first c \<noteq> EOF_CHAR \<Longrightarrow> \<not> is_eof c"
  by (auto simp: first_def is_eof_def)

function eat_while :: "(rchar \<Rightarrow> bool) \<Rightarrow> cursor \<Rightarrow> cursor" where
  "eat_while P c = (if P (first c) \<and> \<not> is_eof c then eat_while P (snd (bump c)) else c)"
  by auto
termination by (relation "measure (\<lambda>(P, c). length (cur_chars c))") (auto simp: bump_length)

declare eat_while.simps [simp del]


section \<open>Tokens\<close>

datatype doc_style = Outer | Inner

datatype base = Binary | Octal | Hexadecimal | Decimal

datatype raw_str_error =
    InvalidStarter rchar
  | NoTerminator nat nat "nat option"
  | TooManyDelimiters nat

datatype literal_kind =
    Int_lit base bool
  | Float_lit base bool
  | Char_lit bool
  | Byte_lit bool
  | Str_lit bool
  | ByteStr_lit bool
  | RawStr u8 "raw_str_error option"
  | RawByteStr u8 "raw_str_error option"

datatype token_kind =
    LineComment "doc_style option"
  | BlockComment "doc_style option" bool
  | Whitespace
  | Ident
  | InvalidIdent
  | RawIdent
  | UnknownPrefix
  | Literal literal_kind nat
  | Lifetime bool
  | Semi | Comma | Dot | OpenParen | CloseParen | OpenBrace | CloseBrace | OpenBracket | CloseBracket
  | At | Pound | Tilde | Question | Colon | Dollar | Eq | Bang | Lt | Gt | Minus | And | Or | Plus | Star
  | Slash | Caret | Percent
  | Unknown

record token =
  tok_kind :: token_kind
  tok_len :: nat


section \<open>Character classes\<close>

definition is_whitespace :: "rchar \<Rightarrow> bool" where
  "is_whitespace c \<longleftrightarrow> c \<in> set [0x09, 0x0A, 0x0B, 0x0C, 0x0D, 0x20, 0x85, 0x200E, 0x200F, 0x2028, 0x2029]"

definition is_id_start :: "unicode_tables \<Rightarrow> rchar \<Rightarrow> bool" where
  "is_id_start U c \<longleftrightarrow> c = 95 \<or> is_xid_start U c"

definition is_id_continue :: "unicode_tables \<Rightarrow> rchar \<Rightarrow> bool" where
  "is_id_continue U c \<longleftrightarrow> is_xid_continue U c"

definition is_ident :: "unicode_tables \<Rightarrow> rstr \<Rightarrow> bool" where
  "is_ident U s = (case s of
     [] \<Rightarrow> False
   | start # chars \<Rightarrow> is_id_start U start \<and> list_all (is_id_continue U) chars)"


text \<open>
  What the lexer relies on of the tables: within ASCII, \<open>XID_Start\<close> is the letters and \<open>XID_Continue\<close> the
  letters, the digits and the underscore; no pattern white space starts an identifier.
\<close>

definition ascii_letter :: "rchar \<Rightarrow> bool" where
  "ascii_letter c \<longleftrightarrow> 97 \<le> c \<and> c \<le> 122 \<or> 65 \<le> c \<and> c \<le> 90"

locale unicode_laws =
  fixes U :: unicode_tables
  assumes ascii_start: "c \<le> 127 \<Longrightarrow> is_xid_start U c \<longleftrightarrow> ascii_letter c"
    and ascii_continue: "c \<le> 127 \<Longrightarrow> is_xid_continue U c \<longleftrightarrow> ascii_letter c \<or> 48 \<le> c \<and> c \<le> 57 \<or> c = 95"
    and white_space_not_start: "is_whitespace c \<Longrightarrow> \<not> is_xid_start U c"


section \<open>Literals\<close>

function eat_decimal_digits :: "cursor \<Rightarrow> bool \<Rightarrow> bool \<times> cursor" where
  "eat_decimal_digits c has_digits =
     (if first c = 95 then eat_decimal_digits (snd (bump c)) has_digits
      else if 48 \<le> first c \<and> first c \<le> 57 then eat_decimal_digits (snd (bump c)) True
      else (has_digits, c))"
  by auto
termination
  by (relation "measure (\<lambda>(c, b). length (cur_chars c))")
     (auto simp: first_def bump_def split: list.splits)

function eat_hexadecimal_digits :: "cursor \<Rightarrow> bool \<Rightarrow> bool \<times> cursor" where
  "eat_hexadecimal_digits c has_digits =
     (if first c = 95 then eat_hexadecimal_digits (snd (bump c)) has_digits
      else if 48 \<le> first c \<and> first c \<le> 57 \<or> 97 \<le> first c \<and> first c \<le> 102 \<or> 65 \<le> first c \<and> first c \<le> 70
      then eat_hexadecimal_digits (snd (bump c)) True
      else (has_digits, c))"
  by auto
termination
  by (relation "measure (\<lambda>(c, b). length (cur_chars c))")
     (auto simp: first_def bump_def split: list.splits)

declare eat_decimal_digits.simps [simp del] eat_hexadecimal_digits.simps [simp del]

definition eat_float_exponent :: "cursor \<Rightarrow> (bool \<times> cursor) option" where
  "eat_float_exponent c = do {
     assert_that (prev_char c = 101 \<or> prev_char c = 69);
     let c = (if first c = 45 \<or> first c = 43 then snd (bump c) else c);
     Some (eat_decimal_digits c False)
   }"

definition eat_identifier :: "unicode_tables \<Rightarrow> cursor \<Rightarrow> cursor" where
  "eat_identifier U c =
     (if \<not> is_id_start U (first c) then c else eat_while (is_id_continue U) (snd (bump c)))"

definition eat_literal_suffix :: "unicode_tables \<Rightarrow> cursor \<Rightarrow> cursor" where
  "eat_literal_suffix U c = eat_identifier U c"

text \<open>The end of every literal: where the suffix starts, and the suffix when the literal is complete.\<close>

definition finish_literal :: "unicode_tables \<Rightarrow> literal_kind \<Rightarrow> bool \<Rightarrow> cursor \<Rightarrow> (token_kind \<times> cursor) option" where
  "finish_literal U kind complete c = do {
     suffix_start \<leftarrow> len_consumed c;
     Some (Literal kind suffix_start, if complete then eat_literal_suffix U c else c)
   }"

text \<open>\<open>number\<close> after the integer part.\<close>

definition number_tail :: "unicode_tables \<Rightarrow> base \<Rightarrow> cursor \<Rightarrow> (literal_kind \<times> cursor) option" where
  "number_tail U base c =
     (if first c = 46 \<and> second c \<noteq> 46 \<and> \<not> is_id_start U (second c) then do {
        let c = snd (bump c);
        d \<leftarrow> is_digit (first c) 10;
        if d then do {
          let (_, c) = eat_decimal_digits c False;
          if first c = 101 \<or> first c = 69 then do {
            let c = snd (bump c);
            (e, c) \<leftarrow> eat_float_exponent c;
            Some (Float_lit base (\<not> e), c)
          } else Some (Float_lit base False, c)
        } else Some (Float_lit base False, c)
      }
      else if first c = 101 \<or> first c = 69 then do {
        let c = snd (bump c);
        (e, c) \<leftarrow> eat_float_exponent c;
        Some (Float_lit base (\<not> e), c)
      }
      else Some (Int_lit base False, c))"

definition number :: "unicode_tables \<Rightarrow> rchar \<Rightarrow> cursor \<Rightarrow> (literal_kind \<times> cursor) option" where
  "number U first_digit c = do {
     assert_that (48 \<le> prev_char c \<and> prev_char c \<le> 57);
     if first_digit = 48 then
       (if first c = 98 then
          (let (has_digits, c) = eat_decimal_digits (snd (bump c)) False
           in if \<not> has_digits then Some (Int_lit Binary True, c) else number_tail U Binary c)
        else if first c = 111 then
          (let (has_digits, c) = eat_decimal_digits (snd (bump c)) False
           in if \<not> has_digits then Some (Int_lit Octal True, c) else number_tail U Octal c)
        else if first c = 120 then
          (let (has_digits, c) = eat_hexadecimal_digits (snd (bump c)) False
           in if \<not> has_digits then Some (Int_lit Hexadecimal True, c) else number_tail U Hexadecimal c)
        else if 48 \<le> first c \<and> first c \<le> 57 \<or> first c = 95 \<or> first c = 46 \<or> first c = 101 \<or> first c = 69 then
          number_tail U Decimal (snd (eat_decimal_digits c False))
        else Some (Int_lit Decimal False, c))
     else number_tail U Decimal (snd (eat_decimal_digits c False))
   }"

function single_quoted_loop :: "cursor \<Rightarrow> bool \<times> cursor" where
  "single_quoted_loop c =
     (if first c = 39 then (True, snd (bump c))
      else if first c = 47 then (False, c)
      else if first c = 10 \<and> second c \<noteq> 39 then (False, c)
      else if first c = EOF_CHAR \<and> is_eof c then (False, c)
      else if first c = 92 then single_quoted_loop (snd (bump (snd (bump c))))
      else single_quoted_loop (snd (bump c)))"
  by auto
termination
proof (relation "measure (\<lambda>c. length (cur_chars c))")
  fix c assume "first c = 92"
  then have "\<not> is_eof c" using first_not_eof by simp
  from le_less_trans [OF bump_length_le bump_length [OF this]]
  show "(snd (bump (snd (bump c))), c) \<in> measure (\<lambda>c. length (cur_chars c))" by simp
next
  fix c assume "\<not> (first c = EOF_CHAR \<and> is_eof c)"
  then have "\<not> is_eof c" by (auto simp: first_def is_eof_def)
  then show "(snd (bump c), c) \<in> measure (\<lambda>c. length (cur_chars c))" by (simp add: bump_length)
qed simp

declare single_quoted_loop.simps [simp del]

definition single_quoted_string :: "cursor \<Rightarrow> (bool \<times> cursor) option" where
  "single_quoted_string c = do {
     assert_that (prev_char c = 39);
     if second c = 39 \<and> first c \<noteq> 92 then Some (True, snd (bump (snd (bump c))))
     else Some (single_quoted_loop c)
   }"

function double_quoted_loop :: "cursor \<Rightarrow> bool \<times> cursor" where
  "double_quoted_loop c = (case bump c of
     (None, c') \<Rightarrow> (False, c')
   | (Some x, c') \<Rightarrow>
       if x = 34 then (True, c')
       else if x = 92 \<and> (first c' = 92 \<or> first c' = 34) then double_quoted_loop (snd (bump c'))
       else double_quoted_loop c')"
  by auto
termination
  by (relation "measure (\<lambda>c. length (cur_chars c))")
     (auto dest!: bump_Some_length sym [of _ "bump _"] intro: le_less_trans [OF bump_length_le])

declare double_quoted_loop.simps [simp del]

definition double_quoted_string :: "cursor \<Rightarrow> (bool \<times> cursor) option" where
  "double_quoted_string c = do {
     assert_that (prev_char c = 34);
     Some (double_quoted_loop c)
   }"


function eat_hashes :: "cursor \<Rightarrow> nat \<Rightarrow> nat \<times> cursor" where
  "eat_hashes c eaten = (if first c = 35 then eat_hashes (snd (bump c)) (eaten + 1) else (eaten, c))"
  by auto
termination
  by (relation "measure (\<lambda>(c, n). length (cur_chars c))") (auto simp: first_def bump_def split: list.splits)

function eat_end_hashes :: "nat \<Rightarrow> cursor \<Rightarrow> nat \<Rightarrow> nat \<times> cursor" where
  "eat_end_hashes n_start_hashes c n_end_hashes =
     (if first c = 35 \<and> n_end_hashes < n_start_hashes
      then eat_end_hashes n_start_hashes (snd (bump c)) (n_end_hashes + 1)
      else (n_end_hashes, c))"
  by auto
termination
  by (relation "measure (\<lambda>(s, c, n). s - n)") auto

declare eat_while.simps [simp del] eat_hashes.simps [simp del] eat_end_hashes.simps [simp del]

lemma eat_while_length: "length (cur_chars (eat_while P c)) \<le> length (cur_chars c)"
proof (induction P c rule: eat_while.induct)
  case (1 P c)
  then show ?case
    using bump_length_le [of c] by (subst eat_while.simps) (auto intro: le_trans)
qed

lemma eat_end_hashes_length: "length (cur_chars (snd (eat_end_hashes s c n))) \<le> length (cur_chars c)"
proof (induction s c n rule: eat_end_hashes.induct)
  case (1 s c n)
  then show ?case
    using bump_length_le [of c] by (subst eat_end_hashes.simps) (auto intro: le_trans)
qed

lemma raw_step_length:
  assumes "c1 = eat_while P c" "\<not> is_eof c1" "r = eat_end_hashes s (snd (bump c1)) 0" "(n, c2) = r"
  shows "length (cur_chars c2) < length (cur_chars c)"
  using eat_end_hashes_length [of s "snd (bump c1)" 0] bump_length [OF assms(2)] eat_while_length [of P c] assms
  by (metis snd_conv le_less_trans less_le_trans)

text \<open>
  The loop over the contents of a raw string: the state is the best candidate for a missing terminator
  (\<open>possible_terminator_offset\<close>, \<open>max_hashes\<close>).
\<close>

function raw_string_loop ::
  "nat \<Rightarrow> nat \<Rightarrow> nat \<Rightarrow> nat option \<Rightarrow> nat \<Rightarrow> cursor \<Rightarrow> ((nat \<times> raw_str_error option) \<times> cursor) option" where
  "raw_string_loop prefix_len start_pos n_start_hashes possible_terminator_offset max_hashes c =
     (let c1 = eat_while (\<lambda>x. x \<noteq> 34) c in
      if is_eof c1 then
        Some ((n_start_hashes, Some (NoTerminator n_start_hashes max_hashes possible_terminator_offset)), c1)
      else
        (let (n_end_hashes, c2) = eat_end_hashes n_start_hashes (snd (bump c1)) 0 in
         if n_end_hashes = n_start_hashes then Some ((n_start_hashes, None), c2)
         else if n_end_hashes > max_hashes then do {
           consumed \<leftarrow> len_consumed c2;
           d \<leftarrow> checked_sub consumed start_pos;
           d \<leftarrow> checked_sub d n_end_hashes;
           raw_string_loop prefix_len start_pos n_start_hashes (Some (d + prefix_len)) n_end_hashes c2
         }
         else raw_string_loop prefix_len start_pos n_start_hashes possible_terminator_offset max_hashes c2))"
  by auto
termination
  by (relation "measure (\<lambda>(a, b, d, e, f, c). length (cur_chars c))") 
     (simp (no_asm), (simp (no_asm), erule (3) raw_step_length)+)

declare raw_string_loop.simps [simp del]

definition raw_string_unvalidated :: "nat \<Rightarrow> cursor \<Rightarrow> ((nat \<times> raw_str_error option) \<times> cursor) option" where
  "raw_string_unvalidated prefix_len c = do {
     assert_that (prev_char c = 114);
     start_pos \<leftarrow> len_consumed c;
     let (n_start_hashes, c) = eat_hashes c 0;
     case bump c of
       (Some x, c') \<Rightarrow>
         if x = 34 then raw_string_loop prefix_len start_pos n_start_hashes None 0 c'
         else Some ((n_start_hashes, Some (InvalidStarter x)), c')
     | (None, c') \<Rightarrow> Some ((n_start_hashes, Some (InvalidStarter EOF_CHAR)), c')
   }"

definition raw_double_quoted_string :: "nat \<Rightarrow> cursor \<Rightarrow> ((u8 \<times> raw_str_error option) \<times> cursor) option" where
  "raw_double_quoted_string prefix_len c = do {
     ((n_hashes, err), c) \<leftarrow> raw_string_unvalidated prefix_len c;
     if n_hashes < 256 then Some ((of_nat n_hashes, err), c)
     else Some ((0, Some (TooManyDelimiters n_hashes)), c)
   }"


section \<open>Comments, whitespace, identifiers\<close>

definition line_comment :: "cursor \<Rightarrow> (token_kind \<times> cursor) option" where
  "line_comment c = do {
     assert_that (prev_char c = 47 \<and> first c = 47);
     let c = snd (bump c);
     let doc_style =
       (if first c = 33 then Some Inner else if first c = 47 \<and> second c \<noteq> 47 then Some Outer else None);
     Some (LineComment doc_style, eat_while (\<lambda>x. x \<noteq> 10) c)
   }"

function block_comment_loop :: "nat \<Rightarrow> cursor \<Rightarrow> (nat \<times> cursor) option" where
  "block_comment_loop depth c = (case bump c of
     (None, c') \<Rightarrow> Some (depth, c')
   | (Some x, c') \<Rightarrow>
       if x = 47 \<and> first c' = 42 then block_comment_loop (depth + 1) (snd (bump c'))
       else if x = 42 \<and> first c' = 47 then do {
         d \<leftarrow> checked_sub depth 1;
         if d = 0 then Some (d, snd (bump c')) else block_comment_loop d (snd (bump c'))
       }
       else block_comment_loop depth c')"
  by auto
termination
  by (relation "measure (\<lambda>(d, c). length (cur_chars c))")
     (auto dest!: bump_Some_length sym [of _ "bump _"] intro: le_less_trans [OF bump_length_le])

declare block_comment_loop.simps [simp del]

definition block_comment :: "cursor \<Rightarrow> (token_kind \<times> cursor) option" where
  "block_comment c = do {
     assert_that (prev_char c = 47 \<and> first c = 42);
     let c = snd (bump c);
     let doc_style =
       (if first c = 33 then Some Inner
        else if first c = 42 \<and> \<not> (second c = 42 \<or> second c = 47) then Some Outer else None);
     (depth, c) \<leftarrow> block_comment_loop 1 c;
     Some (BlockComment doc_style (depth = 0), c)
   }"

definition whitespace :: "cursor \<Rightarrow> (token_kind \<times> cursor) option" where
  "whitespace c = do {
     assert_that (is_whitespace (prev_char c));
     Some (Whitespace, eat_while is_whitespace c)
   }"

definition raw_ident :: "unicode_tables \<Rightarrow> cursor \<Rightarrow> (token_kind \<times> cursor) option" where
  "raw_ident U c = do {
     assert_that (prev_char c = 114 \<and> first c = 35 \<and> is_id_start U (second c));
     Some (RawIdent, eat_identifier U (snd (bump c)))
   }"

definition fake_ident_or_unknown_prefix :: "unicode_tables \<Rightarrow> cursor \<Rightarrow> token_kind \<times> cursor" where
  "fake_ident_or_unknown_prefix U c =
     (let c = eat_while (\<lambda>x. is_xid_continue U x \<or> (\<not> char_is_ascii x \<and> is_emoji U x) \<or> x = 0x200d) c
      in (if first c = 35 \<or> first c = 34 \<or> first c = 39 then UnknownPrefix else InvalidIdent, c))"

definition ident_or_unknown_prefix :: "unicode_tables \<Rightarrow> cursor \<Rightarrow> (token_kind \<times> cursor) option" where
  "ident_or_unknown_prefix U c = do {
     assert_that (is_id_start U (prev_char c));
     let c = eat_while (is_id_continue U) c;
     if first c = 35 \<or> first c = 34 \<or> first c = 39 then Some (UnknownPrefix, c)
     else if \<not> char_is_ascii (first c) \<and> is_emoji U (first c) then Some (fake_ident_or_unknown_prefix U c)
     else Some (Ident, c)
   }"

definition lifetime_or_char :: "unicode_tables \<Rightarrow> cursor \<Rightarrow> (token_kind \<times> cursor) option" where
  "lifetime_or_char U c = do {
     assert_that (prev_char c = 39);
     digit \<leftarrow> is_digit (first c) 10;
     let can_be_a_lifetime = (if second c = 39 then False else is_id_start U (first c) \<or> digit);
     if \<not> can_be_a_lifetime then do {
       (terminated, c) \<leftarrow> single_quoted_string c;
       finish_literal U (Char_lit terminated) terminated c
     } else do {
       let starts_with_number = digit;
       let c = eat_while (is_id_continue U) (snd (bump c));
       if first c = 39 then do {
         let c = snd (bump c);
         suffix_start \<leftarrow> len_consumed c;
         Some (Literal (Char_lit True) suffix_start, c)
       } else Some (Lifetime starts_with_number, c)
     }
   }"


section \<open>Tokens from text\<close>

definition one_symbol_token :: "rchar \<Rightarrow> token_kind option" where
  "one_symbol_token x =
     (if x = 59 then Some Semi else if x = 44 then Some Comma else if x = 46 then Some Dot
      else if x = 40 then Some OpenParen else if x = 41 then Some CloseParen
      else if x = 123 then Some OpenBrace else if x = 125 then Some CloseBrace
      else if x = 91 then Some OpenBracket else if x = 93 then Some CloseBracket
      else if x = 64 then Some At else if x = 35 then Some Pound else if x = 126 then Some Tilde
      else if x = 63 then Some Question else if x = 58 then Some Colon else if x = 36 then Some Dollar
      else if x = 61 then Some Eq else if x = 33 then Some Bang else if x = 60 then Some Lt
      else if x = 62 then Some Gt else if x = 45 then Some Minus else if x = 38 then Some And
      else if x = 124 then Some Or else if x = 43 then Some Plus else if x = 42 then Some Star
      else if x = 94 then Some Caret else if x = 37 then Some Percent else None)"

definition raw_string_token ::
  "unicode_tables \<Rightarrow> (u8 \<Rightarrow> raw_str_error option \<Rightarrow> literal_kind) \<Rightarrow> nat \<Rightarrow> cursor \<Rightarrow> (token_kind \<times> cursor) option" where
  "raw_string_token U K prefix_len c = do {
     ((n_hashes, err), c) \<leftarrow> raw_double_quoted_string prefix_len c;
     finish_literal U (K n_hashes err) (err = None) c
   }"

definition token_kind_of :: "unicode_tables \<Rightarrow> rchar \<Rightarrow> cursor \<Rightarrow> (token_kind \<times> cursor) option" where
  "token_kind_of U first_char c =
     (if first_char = 47 then
        (if first c = 47 then line_comment c else if first c = 42 then block_comment c else Some (Slash, c))
      else if is_whitespace first_char then whitespace c
      else if first_char = 114 then
        (if first c = 35 \<and> is_id_start U (second c) then raw_ident U c
         else if first c = 35 \<or> first c = 34 then raw_string_token U RawStr 1 c
         else ident_or_unknown_prefix U c)
      else if first_char = 98 then
        (if first c = 39 then do {
           (terminated, c) \<leftarrow> single_quoted_string (snd (bump c));
           finish_literal U (Byte_lit terminated) terminated c
         }
         else if first c = 34 then do {
           (terminated, c) \<leftarrow> double_quoted_string (snd (bump c));
           finish_literal U (ByteStr_lit terminated) terminated c
         }
         else if first c = 114 \<and> (second c = 34 \<or> second c = 35) then raw_string_token U RawByteStr 2 (snd (bump c))
         else ident_or_unknown_prefix U c)
      else if is_id_start U first_char then ident_or_unknown_prefix U c
      else if 48 \<le> first_char \<and> first_char \<le> 57 then do {
        (kind, c) \<leftarrow> number U first_char c;
        finish_literal U kind True c
      }
      else case one_symbol_token first_char of
        Some k \<Rightarrow> Some (k, c)
      | None \<Rightarrow>
          if first_char = 39 then lifetime_or_char U c
          else if first_char = 34 then do {
            (terminated, c) \<leftarrow> double_quoted_string c;
            finish_literal U (Str_lit terminated) terminated c
          }
          else if \<not> char_is_ascii first_char \<and> is_emoji U first_char then Some (fake_ident_or_unknown_prefix U c)
          else Some (Unknown, c))"

definition advance_token :: "unicode_tables \<Rightarrow> cursor \<Rightarrow> (token \<times> cursor) option" where
  "advance_token U c = (case bump c of
     (None, _) \<Rightarrow> None
   | (Some first_char, c) \<Rightarrow> do {
       (kind, c) \<leftarrow> token_kind_of U first_char c;
       len \<leftarrow> len_consumed c;
       Some (\<lparr>tok_kind = kind, tok_len = len\<rparr>, c)
     })"


section \<open>Every operation only moves the cursor forward\<close>

definition advances :: "cursor \<Rightarrow> cursor \<Rightarrow> bool" where
  "advances c c' \<longleftrightarrow> suffix (cur_chars c') (cur_chars c) \<and> initial_len c' = initial_len c"

named_theorems advance_intros "operations that only move the cursor forward"

lemma advances_refl [simp, advance_intros]: "advances c c"
  by (simp add: advances_def)

lemma advances_trans: "advances a b \<Longrightarrow> advances b c \<Longrightarrow> advances a c"
  by (auto simp: advances_def intro: suffix_order.trans)

lemma advances_length: "advances c c' \<Longrightarrow> length (cur_chars c') \<le> length (cur_chars c)"
  by (auto simp: advances_def suffix_length_le)

lemma bump_advances: "advances c (snd (bump c))"
  by (cases "cur_chars c") (simp_all add: bump_def advances_def suffix_ConsI)

lemma advances_bump [advance_intros]: "advances c d \<Longrightarrow> advances c (snd (bump d))"
  by (rule advances_trans [OF _ bump_advances])

lemma advances_bump_Pair: "bump d = (r, e) \<Longrightarrow> advances c d \<Longrightarrow> advances c e"
  using advances_bump [of c d] by simp

lemma advances_eat_while [advance_intros]: "advances c d \<Longrightarrow> advances c (eat_while P d)"
proof (induction P d rule: eat_while.induct)
  case (1 P d)
  then show ?case by (subst eat_while.simps) (simp add: advances_bump)
qed

lemma advances_eat_decimal_digits [advance_intros]:
  "advances c d \<Longrightarrow> advances c (snd (eat_decimal_digits d b))"
proof (induction d b rule: eat_decimal_digits.induct)
  case (1 d b)
  then show ?case by (subst eat_decimal_digits.simps) (simp add: advances_bump)
qed

lemma advances_eat_hexadecimal_digits [advance_intros]:
  "advances c d \<Longrightarrow> advances c (snd (eat_hexadecimal_digits d b))"
proof (induction d b rule: eat_hexadecimal_digits.induct)
  case (1 d b)
  then show ?case by (subst eat_hexadecimal_digits.simps) (simp add: advances_bump)
qed

lemma advances_eat_hashes [advance_intros]: "advances c d \<Longrightarrow> advances c (snd (eat_hashes d n))"
proof (induction d n rule: eat_hashes.induct)
  case (1 d n)
  then show ?case by (subst eat_hashes.simps) (simp add: advances_bump)
qed

lemma advances_eat_end_hashes [advance_intros]: "advances c d \<Longrightarrow> advances c (snd (eat_end_hashes s d n))"
proof (induction s d n rule: eat_end_hashes.induct)
  case (1 s d n)
  then show ?case by (subst eat_end_hashes.simps) (simp add: advances_bump)
qed

lemma advances_single_quoted_loop [advance_intros]: "advances c d \<Longrightarrow> advances c (snd (single_quoted_loop d))"
proof (induction d rule: single_quoted_loop.induct)
  case (1 d)
  then show ?case by (subst single_quoted_loop.simps) (simp add: advances_bump)
qed

lemma advances_double_quoted_loop [advance_intros]: "advances c d \<Longrightarrow> advances c (snd (double_quoted_loop d))"
proof (induction d rule: double_quoted_loop.induct)
  case (1 d)
  then show ?case
    by (subst double_quoted_loop.simps) (auto split: prod.split option.split simp: advances_bump advances_bump_Pair)
qed

lemma advances_eat_identifier [advance_intros]: "advances c d \<Longrightarrow> advances c (eat_identifier U d)"
  by (simp add: eat_identifier_def advance_intros)

lemma advances_eat_literal_suffix [advance_intros]: "advances c d \<Longrightarrow> advances c (eat_literal_suffix U d)"
  by (simp add: eat_literal_suffix_def advance_intros)

lemma advances_fake_ident [advance_intros]: "advances c d \<Longrightarrow> advances c (snd (fake_ident_or_unknown_prefix U d))"
  by (simp add: fake_ident_or_unknown_prefix_def Let_def advance_intros)

text \<open>The operations that can panic move the cursor forward when they return.\<close>

named_theorems advance_dests "a returning operation only moved the cursor forward"

lemma finish_literal_advances [advance_dests]: "finish_literal U k b d = Some (r, e) \<Longrightarrow> advances c d \<Longrightarrow> advances c e"
  by (auto simp: finish_literal_def bind_eq_Some_conv advance_intros)

lemma eat_float_exponent_advances [advance_dests]: "eat_float_exponent d = Some (r, e) \<Longrightarrow> advances c d \<Longrightarrow> advances c e"
  using advances_eat_decimal_digits [of c d False] advances_eat_decimal_digits [OF advances_bump, of c d False]
  by (auto simp: eat_float_exponent_def Let_def split: if_splits)

lemma number_tail_advances [advance_dests]: "number_tail U base d = Some (r, e) \<Longrightarrow> advances c d \<Longrightarrow> advances c e"
  by (auto simp: number_tail_def Let_def split_beta bind_eq_Some_conv split: if_splits
      intro!: advance_intros dest!: eat_float_exponent_advances [of _ _ _ c])

lemma number_advances [advance_dests]: "number U x d = Some (r, e) \<Longrightarrow> advances c d \<Longrightarrow> advances c e"
  by (auto simp: number_def Let_def split_beta bind_eq_Some_conv split: if_splits
      intro!: advance_intros dest!: number_tail_advances [of _ _ _ _ _ c])

lemma single_quoted_string_advances [advance_dests]: "single_quoted_string d = Some (r, e) \<Longrightarrow> advances c d \<Longrightarrow> advances c e"
  using advances_single_quoted_loop [of c d]
  by (auto simp: single_quoted_string_def split: if_splits intro!: advance_intros)

lemma double_quoted_string_advances [advance_dests]: "double_quoted_string d = Some (r, e) \<Longrightarrow> advances c d \<Longrightarrow> advances c e"
  using advances_double_quoted_loop [of c d] by (auto simp: double_quoted_string_def split: if_splits)

lemma raw_string_loop_advances:
  "raw_string_loop p s n off m d = Some (r, e) \<Longrightarrow> advances c d \<Longrightarrow> advances c e"
proof (induction p s n off m d rule: raw_string_loop.induct)
  case (1 p s n off m d)
  show ?case
  proof (cases "is_eof (eat_while (\<lambda>x. x \<noteq> 34) d)")
    case True
    with 1(3,4) show ?thesis by (subst (asm) raw_string_loop.simps) (auto simp: Let_def intro!: advance_intros)
  next
    case False
    obtain k d2 where k: "eat_end_hashes n (snd (bump (eat_while (\<lambda>x. x \<noteq> 34) d))) 0 = (k, d2)"
      by fastforce
    have d2: "advances c d2"
      using advances_eat_end_hashes [OF advances_bump [OF advances_eat_while [OF 1(4)]]] k by (metis snd_conv)
    from 1(3) False k d2 1(1)[OF refl False k [symmetric] refl] 1(2)[OF refl False k [symmetric] refl]
    show ?thesis
      by (subst (asm) raw_string_loop.simps) (auto simp: Let_def bind_eq_Some_conv split: if_splits)
  qed
qed

lemma raw_string_unvalidated_advances [advance_dests]:
  "raw_string_unvalidated p d = Some (r, e) \<Longrightarrow> advances c d \<Longrightarrow> advances c e"
  by (auto simp: raw_string_unvalidated_def split_beta bind_eq_Some_conv split: if_splits option.splits
      intro: advance_intros dest!: raw_string_loop_advances [of _ _ _ _ _ _ _ _ c])

lemma raw_double_quoted_string_advances [advance_dests]:
  "raw_double_quoted_string p d = Some (r, e) \<Longrightarrow> advances c d \<Longrightarrow> advances c e"
  by (auto simp: raw_double_quoted_string_def bind_eq_Some_conv split: if_splits dest: raw_string_unvalidated_advances)

lemma block_comment_loop_advances: "block_comment_loop n d = Some (r, e) \<Longrightarrow> advances c d \<Longrightarrow> advances c e"
proof (induction n d rule: block_comment_loop.induct)
  case (1 n d)
  have close: "advances c e"
    if "bump d = (Some 42, x2)" "first x2 = 47" "0 < y" "checked_sub n (Suc 0) = Some y"
      "block_comment_loop y (snd (bump x2)) = Some (r, e)" for x2 y
    using 1(2) [OF that(1) [symmetric] refl] that advances_bump [OF advances_bump_Pair [OF that(1) 1(5)]] by simp
  from 1(4,5) show ?case
    by (subst (asm) block_comment_loop.simps)
       (auto simp: bind_eq_Some_conv split: prod.splits option.splits if_splits
         dest: 1(1,3) [OF sym refl, simplified] advances_bump_Pair
         intro: advances_bump advances_bump_Pair close)
qed

lemma line_comment_advances [advance_dests]: "line_comment d = Some (r, e) \<Longrightarrow> advances c d \<Longrightarrow> advances c e"
  by (auto simp: line_comment_def Let_def split: if_splits intro!: advance_intros)

lemma block_comment_advances [advance_dests]: "block_comment d = Some (r, e) \<Longrightarrow> advances c d \<Longrightarrow> advances c e"
  by (auto simp: block_comment_def Let_def bind_eq_Some_conv split: if_splits
      dest!: block_comment_loop_advances [of _ _ _ _ c] intro!: advance_intros)

lemma whitespace_advances [advance_dests]: "whitespace d = Some (r, e) \<Longrightarrow> advances c d \<Longrightarrow> advances c e"
  by (auto simp: whitespace_def split: if_splits intro!: advance_intros)

lemma raw_ident_advances [advance_dests]: "raw_ident U d = Some (r, e) \<Longrightarrow> advances c d \<Longrightarrow> advances c e"
  by (auto simp: raw_ident_def split: if_splits intro!: advance_intros)

lemma ident_or_unknown_prefix_advances [advance_dests]:
  "ident_or_unknown_prefix U d = Some (r, e) \<Longrightarrow> advances c d \<Longrightarrow> advances c e"
  using advances_fake_ident [OF advances_eat_while, of c d U "is_id_continue U"]
  by (auto simp: ident_or_unknown_prefix_def Let_def split: if_splits intro!: advance_intros)

lemma lifetime_or_char_advances [advance_dests]: "lifetime_or_char U d = Some (r, e) \<Longrightarrow> advances c d \<Longrightarrow> advances c e"
  by (auto simp: lifetime_or_char_def Let_def bind_eq_Some_conv split: if_splits intro!: advance_intros
      dest!: single_quoted_string_advances [of _ _ _ c] finish_literal_advances [of _ _ _ _ _ _ c])

lemma raw_string_token_advances [advance_dests]: "raw_string_token U K p d = Some (r, e) \<Longrightarrow> advances c d \<Longrightarrow> advances c e"
  by (auto simp: raw_string_token_def bind_eq_Some_conv split: if_splits
      dest!: raw_double_quoted_string_advances [of _ _ _ _ c] finish_literal_advances [of _ _ _ _ _ _ c])

lemma token_kind_of_advances: "token_kind_of U x d = Some (r, e) \<Longrightarrow> advances c d \<Longrightarrow> advances c e"
  using advances_fake_ident [of c d U]
  by (auto simp: token_kind_of_def bind_eq_Some_conv split: if_splits option.splits
      dest!: advance_dests intro: advance_intros advances_trans [OF advances_bump])

lemma advance_token_advances:
  assumes "advance_token U c = Some (t, c')"
  shows "advances c c'" and "length (cur_chars c') < length (cur_chars c)"
proof -
  from assms obtain x d where x: "bump c = (Some x, d)" and d: "\<exists>k. token_kind_of U x d = Some (k, c')"
    by (auto simp: advance_token_def bind_eq_Some_conv split: prod.splits option.splits)
  from d token_kind_of_advances [of U x d _ c' d] have "advances d c'" by auto
  with advances_bump_Pair [OF x advances_refl] advances_length [of d c'] bump_Some_length [OF x]
  show "advances c c'" and "length (cur_chars c') < length (cur_chars c)"
    by (auto intro: advances_trans)
qed

text \<open>The iterator \<open>tokenize\<close> returns: one call of its closure, and all the tokens it yields.\<close>

definition tokenize_next :: "unicode_tables \<Rightarrow> cursor \<Rightarrow> (token \<times> cursor) option option" where
  "tokenize_next U c = (if is_eof c then Some None else map_option Some (advance_token U (reset_len_consumed c)))"

lemma tokenize_next_length:
  "tokenize_next U c = Some (Some (t, c')) \<Longrightarrow> length (cur_chars c') < length (cur_chars c)"
  using advance_token_advances(2) [of U "reset_len_consumed c" t c']
  by (auto simp: tokenize_next_def reset_len_consumed_def split: if_splits)

function tokenize_all :: "unicode_tables \<Rightarrow> cursor \<Rightarrow> token list option" where
  "tokenize_all U c = (case tokenize_next U c of
     None \<Rightarrow> None
   | Some None \<Rightarrow> Some []
   | Some (Some (t, c')) \<Rightarrow> map_option ((#) t) (tokenize_all U c'))"
  by auto
termination
  by (relation "measure (\<lambda>(U, c). length (cur_chars c))") (auto simp: tokenize_next_length)

declare tokenize_all.simps [simp del]

definition tokenize :: "unicode_tables \<Rightarrow> rstr \<Rightarrow> token list option" where
  "tokenize U input = tokenize_all U (cursor_new input)"

definition first_token :: "unicode_tables \<Rightarrow> rstr \<Rightarrow> token option" where
  "first_token U input = do {
     assert_that (input \<noteq> []);
     (t, _) \<leftarrow> advance_token U (cursor_new input);
     Some t
   }"

text \<open>\<open>str::lines().next()\<close>: the text before the first line feed, less one carriage return at its end.\<close>

definition strip_cr :: "rstr \<Rightarrow> rstr" where
  "strip_cr l = (if l \<noteq> [] \<and> List.last l = 13 then butlast l else l)"

definition first_line :: "rstr \<Rightarrow> rstr option" where
  "first_line s = (if s = [] then None else Some (strip_cr (takeWhile (\<lambda>x. x \<noteq> 10) s)))"

definition is_trivia :: "token_kind \<Rightarrow> bool" where
  "is_trivia k = (case k of
     Whitespace \<Rightarrow> True
   | LineComment None \<Rightarrow> True
   | BlockComment None _ \<Rightarrow> True
   | _ \<Rightarrow> False)"

definition strip_shebang :: "unicode_tables \<Rightarrow> rstr \<Rightarrow> nat option option" where
  "strip_shebang U input =
     (if take 2 input = [35, 33] then do {
        let input_tail = drop 2 input;
        ts \<leftarrow> tokenize U input_tail;
        if find (\<lambda>k. \<not> is_trivia k) (map tok_kind ts) \<noteq> Some OpenBracket
        then Some (Some (2 + str_len (case first_line input_tail of None \<Rightarrow> [] | Some l \<Rightarrow> l)))
        else Some None
      }
      else Some None)"

end
