(* ===== verification/Lexer_Proofs.thy ===== *)
theory Lexer_Proofs
  imports Lexer
begin

text \<open>
  What the lexer of theory \<open>Lexer\<close> guarantees: no operation panics on a well-formed cursor, tokens partition
  the text, raw strings end at their first terminator, identifiers and trivia are single tokens, and printed
  string literals are read back.
\<close>

section \<open>No panics\<close>

definition cursor_wf :: "cursor \<Rightarrow> bool" where
  "cursor_wf c \<longleftrightarrow> str_len (cur_chars c) \<le> initial_len c"

lemma cursor_wf_advances: "cursor_wf c \<Longrightarrow> advances c d \<Longrightarrow> cursor_wf d"
  by (auto simp: cursor_wf_def advances_def dest: suffix_str_len)

lemma len_consumed_wf: "cursor_wf c \<Longrightarrow> len_consumed c = Some (initial_len c - str_len (cur_chars c))"
  by (simp add: len_consumed_def cursor_wf_def)

lemma prev_char_bump: "first c = x \<Longrightarrow> x \<noteq> EOF_CHAR \<Longrightarrow> prev_char (snd (bump c)) = x"
  by (cases "cur_chars c") (auto simp: first_def bump_def)

lemma finish_literal_total: "cursor_wf c \<Longrightarrow> \<exists>r. finish_literal U k b c = Some r"
  by (simp add: finish_literal_def len_consumed_wf)

lemma number_tail_total: "\<exists>r. number_tail U b c = Some r"
  by (auto simp: number_tail_def Let_def split_beta is_digit_def to_digit_10 eat_float_exponent_def prev_char_bump)

lemma number_total: "48 \<le> prev_char c \<Longrightarrow> prev_char c \<le> 57 \<Longrightarrow> \<exists>r. number U x c = Some r"
  using number_tail_total by (auto simp: number_def Let_def split_beta)

lemma single_quoted_string_total: "prev_char c = 39 \<Longrightarrow> \<exists>r. single_quoted_string c = Some r"
  by (auto simp: single_quoted_string_def)

lemma double_quoted_string_total: "prev_char c = 34 \<Longrightarrow> \<exists>r. double_quoted_string c = Some r"
  by (simp add: double_quoted_string_def)

lemma eat_end_hashes_spec:
  "eat_end_hashes s c n = (k, c2) \<Longrightarrow> n \<le> s \<Longrightarrow>
     n \<le> k \<and> k \<le> s \<and> cur_chars c = replicate (k - n) 35 @ cur_chars c2 \<and> (k = s \<or> first c2 \<noteq> 35)"
proof (induction s c n rule: eat_end_hashes.induct)
  case (1 s c n)
  show ?case
  proof (cases "first c = 35 \<and> n < s")
    case True
    then obtain xs where xs: "cur_chars c = 35 # xs" by (auto simp: first_def split: list.splits)
    from True 1(2) have "eat_end_hashes s (snd (bump c)) (n + 1) = (k, c2)" by (subst (asm) eat_end_hashes.simps) simp
    from 1(1) [OF True this] True xs show ?thesis by (auto simp: bump_def Suc_diff_Suc simp flip: replicate_Suc append_Cons)
  next
    case False
    with 1(2,3) show ?thesis by (subst (asm) eat_end_hashes.simps) auto
  qed
qed

lemma str_len_replicate_hash: "str_len (replicate n 35) = n"
  by (induction n) (simp_all add: len_utf8_def)

lemma eat_while_spec:
  "cur_chars (eat_while P c) = dropWhile P (cur_chars c) \<and> initial_len (eat_while P c) = initial_len c"
proof (induction P c rule: eat_while.induct)
  case (1 P c)
  show ?case
  proof (cases "P (first c) \<and> \<not> is_eof c")
    case True
    then obtain x xs where xs: "cur_chars c = x # xs" "P x" by (auto simp: first_def is_eof_def split: list.splits)
    from 1 [OF True] True xs show ?thesis by (subst (1 2) eat_while.simps) (simp add: bump_def)
  next
    case False
    then show ?thesis by (subst (1 2) eat_while.simps) (auto simp: first_def is_eof_def split: list.splits)
  qed
qed

lemmas eat_while_simps [simp] = eat_while_spec [THEN conjunct1] eat_while_spec [THEN conjunct2]

lemma raw_string_loop_total:
  "s + str_len (cur_chars d) \<le> initial_len d \<Longrightarrow> \<exists>r. raw_string_loop p s n off m d = Some r"
proof (induction p s n off m d rule: raw_string_loop.induct)
  case (1 p s n off m d)
  let ?d1 = "eat_while (\<lambda>x. x \<noteq> 34) d"
  show ?case
  proof (cases "is_eof ?d1")
    case True
    then show ?thesis by (subst raw_string_loop.simps) (simp add: Let_def)
  next
    case False
    obtain k d2 where k: "eat_end_hashes n (snd (bump ?d1)) 0 = (k, d2)" by fastforce
    have adv: "advances d (snd (bump ?d1))" "advances d d2"
      using advances_eat_end_hashes [of d "snd (bump ?d1)" n 0] k by (simp_all add: advance_intros)
    from eat_end_hashes_spec [OF k] have "cur_chars (snd (bump ?d1)) = replicate k 35 @ cur_chars d2" by simp
    then have "str_len (cur_chars (snd (bump ?d1))) = k + str_len (cur_chars d2)" by (simp add: str_len_replicate_hash)
    with adv(1) 1(3) have b: "s + k + str_len (cur_chars d2) \<le> initial_len d2"
      using adv(2) suffix_str_len [of "cur_chars (snd (bump ?d1))" "cur_chars d"] by (auto simp: advances_def)
    then obtain x y z where "len_consumed d2 = Some x" "checked_sub x s = Some y" "checked_sub y k = Some z"
      by (simp add: len_consumed_def)
    with b k False 1(1) [OF refl False k [symmetric] refl] 1(2) [OF refl False k [symmetric] refl]
    show ?thesis by (subst raw_string_loop.simps) (simp add: Let_def)
  qed
qed

lemma raw_double_quoted_string_total:
  assumes "prev_char c = 114" "cursor_wf c"
  shows "\<exists>r. raw_double_quoted_string p c = Some r"
proof -
  obtain n d where n: "eat_hashes c 0 = (n, d)" by fastforce
  with advances_eat_hashes [of c c 0] have "advances c d" by simp
  from advances_bump [OF this] have d: "advances c (snd (bump d))" .
  obtain s where s: "len_consumed c = Some s" "s + str_len (cur_chars c) = initial_len c"
    using assms(2) by (simp add: len_consumed_wf cursor_wf_def)
  from s(2) d suffix_str_len [of "cur_chars (snd (bump d))" "cur_chars c"]
  have "s + str_len (cur_chars (snd (bump d))) \<le> initial_len (snd (bump d))" by (auto simp: advances_def)
  from raw_string_loop_total [OF this]
  have "\<exists>r. raw_string_unvalidated p c = Some r"
    using assms(1) s(1) n by (auto simp: raw_string_unvalidated_def split: prod.split option.split)
  then show ?thesis by (auto simp: raw_double_quoted_string_def)
qed

lemma block_comment_loop_total: "0 < n \<Longrightarrow> \<exists>r. block_comment_loop n d = Some r"
proof (induction n d rule: block_comment_loop.induct)
  case (1 n d)
  show ?case
  proof (cases "bump d")
    case (Pair r e)
    with 1(1,2,3) [OF Pair [symmetric]] 1(4) show ?thesis
      by (subst block_comment_loop.simps) (auto split: option.split)
  qed
qed

lemma block_comment_total: "prev_char c = 47 \<Longrightarrow> first c = 42 \<Longrightarrow> \<exists>r. block_comment c = Some r"
  using block_comment_loop_total [of 1 "snd (bump c)"] by (auto simp: block_comment_def Let_def)

lemma lifetime_or_char_total:
  assumes "prev_char c = 39" "cursor_wf c"
  shows "\<exists>r. lifetime_or_char U c = Some r"
proof -
  obtain t d where t: "single_quoted_string c = Some (t, d)" using single_quoted_string_total [OF assms(1)] by auto
  then have "cursor_wf d" using cursor_wf_advances [OF assms(2)] single_quoted_string_advances advances_refl by blast
  moreover have "cursor_wf (snd (bump (eat_while (is_id_continue U) (snd (bump c)))))"
    by (rule cursor_wf_advances [OF assms(2)]) (intro advance_intros)
  ultimately show ?thesis
    using assms t finish_literal_total [of d]
    by (simp add: lifetime_or_char_def Let_def is_digit_def to_digit_10 len_consumed_wf)
qed

lemma if_total: "(b \<Longrightarrow> \<exists>r. x = Some r) \<Longrightarrow> (\<not> b \<Longrightarrow> \<exists>r. y = Some r) \<Longrightarrow> \<exists>r. (if b then x else y) = Some r"
  by simp

lemma case_option_total:
  "(\<And>k. z = Some k \<Longrightarrow> \<exists>r. f k = Some r) \<Longrightarrow> (z = None \<Longrightarrow> \<exists>r. y = Some r) \<Longrightarrow>
    \<exists>r. (case z of None \<Rightarrow> y | Some k \<Rightarrow> f k) = Some r"
  by (cases z) simp_all

context unicode_laws
begin

lemma ident_or_unknown_prefix_total:
  "is_id_start U (prev_char c) \<Longrightarrow> \<exists>r. ident_or_unknown_prefix U c = Some r"
  by (auto simp: ident_or_unknown_prefix_def Let_def)

lemma letter_r: "is_id_start U 114" and letter_b: "is_id_start U 98"
  by (simp_all add: is_id_start_def ascii_start ascii_letter_def)

lemma raw_string_token_total:
  assumes "prev_char c = 114" "cursor_wf c"
  shows "\<exists>r. raw_string_token U K p c = Some r"
proof -
  obtain n e d where d: "raw_double_quoted_string p c = Some ((n, e), d)"
    using raw_double_quoted_string_total [OF assms, of p] by auto
  from cursor_wf_advances [OF assms(2) raw_double_quoted_string_advances [OF d advances_refl]]
  show ?thesis using finish_literal_total [of d] d by (simp add: raw_string_token_def)
qed

lemma quoted_literal_total:
  assumes "\<exists>r. f c = Some r" "cursor_wf c" "\<And>t d. f c = Some (t, d) \<Longrightarrow> advances c d"
  shows "\<exists>r. (f c \<bind> (\<lambda>(t, d). finish_literal U (K t) (Q t) d)) = Some r"
proof -
  obtain t d where d: "f c = Some (t, d)" using assms(1) by auto
  with cursor_wf_advances [OF assms(2) assms(3) [OF d]] finish_literal_total [of d] show ?thesis by simp
qed

lemmas single_quoted_literal_total =
  quoted_literal_total [of single_quoted_string, OF single_quoted_string_total _ single_quoted_string_advances [OF _ advances_refl]]
lemmas double_quoted_literal_total =
  quoted_literal_total [of double_quoted_string, OF double_quoted_string_total _ double_quoted_string_advances [OF _ advances_refl]]
lemmas number_literal_total =
  quoted_literal_total [of "number U x" for x, OF number_total _ number_advances [OF _ advances_refl]]

theorem token_kind_of_total:
  assumes "prev_char c = x" "cursor_wf c"
  shows "\<exists>r. token_kind_of U x c = Some r"
proof -
  have bumped: "prev_char (snd (bump c)) = y" "cursor_wf (snd (bump c))" if "first c = y" "y \<noteq> EOF_CHAR" for y
    using that cursor_wf_advances [OF assms(2) bump_advances] prev_char_bump by auto
  show ?thesis
    unfolding token_kind_of_def
    by (intro if_total case_option_total)
       (use assms bumped letter_r letter_b in \<open>auto simp: line_comment_def whitespace_def raw_ident_def Let_def
          simp del: split_paired_Ex intro!: block_comment_total ident_or_unknown_prefix_total raw_string_token_total lifetime_or_char_total
          single_quoted_literal_total double_quoted_literal_total number_literal_total\<close>)
qed

lemma advance_token_total:
  assumes "cur_chars c \<noteq> []" "initial_len c = str_len (cur_chars c)"
  shows "\<exists>t c' p. advance_token U c = Some (t, c') \<and> p \<noteq> [] \<and> cur_chars c = p @ cur_chars c' \<and> tok_len t = str_len p"
proof -
  obtain x xs where xs: "cur_chars c = x # xs" using assms(1) by (cases "cur_chars c") auto
  define d where "d = snd (bump c)"
  have d: "bump c = (Some x, d)" "prev_char d = x" "cursor_wf d" "advances c d"
    using xs assms(2) by (auto simp: d_def bump_def cursor_wf_def advances_def suffix_ConsI)
  obtain k e where k: "token_kind_of U x d = Some (k, e)" using token_kind_of_total [OF d(2,3)] by auto
  have e: "advances d e" using token_kind_of_advances [OF k advances_refl] .
  then obtain q where q: "cur_chars d = q @ cur_chars e" by (auto simp: advances_def suffix_def)
  have "len_consumed e = Some (str_len (x # q))"
    using len_consumed_wf [OF cursor_wf_advances [OF d(3) e]] advances_trans [OF d(4) e] assms(2) q xs
    by (simp add: advances_def d_def bump_def)
  with d k q xs show ?thesis
    by (intro exI [of _ "\<lparr>tok_kind = k, tok_len = str_len (x # q)\<rparr>"] exI [of _ e] exI [of _ "x # q"])
       (simp add: advance_token_def d_def bump_def)
qed

end

text \<open>The state a token is read from is the text that is left: the rest of the cursor is set up afresh.\<close>

lemma advance_token_fresh: "cur_chars c \<noteq> [] \<Longrightarrow> advance_token U (reset_len_consumed c) = advance_token U (cursor_new (cur_chars c))"
  by (cases "cur_chars c")
     (simp_all add: advance_token_def bump_def reset_len_consumed_def cursor_new_def, cases c, simp)

lemma cursor_new_chars [simp]: "cur_chars (cursor_new s) = s" "initial_len (cursor_new s) = str_len s"
  by (simp_all add: cursor_new_def)

lemma tokenize_all_eq: "tokenize_all U c = tokenize U (cur_chars c)"
proof (cases "cur_chars c = []")
  case True
  then show ?thesis
    by (simp add: tokenize_def cursor_new_def tokenize_all.simps tokenize_next_def is_eof_def)
next
  case False
  have "tokenize_next U c = tokenize_next U (cursor_new (cur_chars c))"
    using False advance_token_fresh [OF False] advance_token_fresh [of "cursor_new (cur_chars c)"]
    by (simp add: tokenize_next_def is_eof_def)
  then show ?thesis by (simp add: tokenize_def tokenize_all.simps)
qed

lemma tokenize_Nil: "tokenize U [] = Some []"
  by (simp add: tokenize_def cursor_new_def tokenize_all.simps tokenize_next_def is_eof_def)

lemma tokenize_unfold:
  "s \<noteq> [] \<Longrightarrow> tokenize U s = (case advance_token U (cursor_new s) of
     None \<Rightarrow> None | Some (t, c') \<Rightarrow> map_option ((#) t) (tokenize U (cur_chars c')))"
  unfolding tokenize_def [of U s] tokenize_all.simps [of U "cursor_new s"]
  using advance_token_fresh [of "cursor_new s" U]
  by (simp add: tokenize_next_def is_eof_def tokenize_all_eq split: option.split)

lemma tokenize_step:
  assumes "s \<noteq> []" "advance_token U (cursor_new s) = Some (t, c')"
  shows "tokenize U s = map_option ((#) t) (tokenize U (cur_chars c'))" and "first_token U s = Some t"
  using assms by (simp_all add: tokenize_unfold first_token_def)

context unicode_laws
begin

lemma tokenize_first:
  assumes "s \<noteq> []"
  shows "\<exists>t p r. s = p @ r \<and> p \<noteq> [] \<and> first_token U s = Some t \<and> tok_len t = str_len p \<and>
    tokenize U s = map_option ((#) t) (tokenize U r)"
proof -
  from advance_token_total [of "cursor_new s"] assms obtain t c' p
    where t: "advance_token U (cursor_new s) = Some (t, c')" "p \<noteq> []" "s = p @ cur_chars c'" "tok_len t = str_len p"
    by auto
  with tokenize_step [OF assms t(1)] show ?thesis by blast
qed

lemma tokenize_partition:
  "\<exists>ts parts. tokenize U s = Some ts \<and> s = concat parts \<and> list_all2 (\<lambda>t p. p \<noteq> [] \<and> tok_len t = str_len p) ts parts"
proof (induction s rule: length_induct)
  case (1 s)
  show ?case
  proof (cases "s = []")
    case True
    then show ?thesis using tokenize_Nil by (intro exI [of _ "[]"]) simp
  next
    case False
    then obtain t p r where t: "s = p @ r" "p \<noteq> []" "tok_len t = str_len p" "tokenize U s = map_option ((#) t) (tokenize U r)"
      using tokenize_first by blast
    then have "length r < length s" by simp
    from 1 [rule_format, OF this] obtain ts parts where "tokenize U r = Some ts" "r = concat parts"
      "list_all2 (\<lambda>t p. p \<noteq> [] \<and> tok_len t = str_len p) ts parts" by auto
    with t show ?thesis by (intro exI [of _ "t # ts"] exI [of _ "p # parts"]) simp
  qed
qed

end


section \<open>Raw strings\<close>

text \<open>Position \<open>i\<close> holds the closing quote of a raw string with \<open>n\<close> hashes.\<close>

definition terminator_at :: "nat \<Rightarrow> rstr \<Rightarrow> nat \<Rightarrow> bool" where
  "terminator_at n s i \<longleftrightarrow> i < length s \<and> s ! i = 34 \<and> take n (drop (Suc i) s) = replicate n 35"

definition first_terminator :: "nat \<Rightarrow> rstr \<Rightarrow> nat \<Rightarrow> bool" where
  "first_terminator n s i \<longleftrightarrow> terminator_at n s i \<and> (\<forall>j < i. \<not> terminator_at n s j)"

lemma terminator_at_Cons: "terminator_at n (x # s) (Suc i) = terminator_at n s i"
  by (simp add: terminator_at_def)

lemma terminator_at_skip:
  assumes "34 \<notin> set q"
  shows "terminator_at n (q @ s) i \<longleftrightarrow> length q \<le> i \<and> terminator_at n s (i - length q)"
  using assms
proof (induction q arbitrary: i)
  case (Cons x q)
  then show ?case by (cases i) (auto simp: terminator_at_Cons, simp add: terminator_at_def)
qed simp

lemma terminator_at_partial:
  assumes "k < n" "t = [] \<or> hd t \<noteq> 35"
  shows "\<not> terminator_at n (34 # replicate k 35 @ t) 0"
proof
  assume "terminator_at n (34 # replicate k 35 @ t) 0"
  then have *: "take n (replicate k 35 @ t) = replicate n 35" by (simp add: terminator_at_def)
  then have "length t \<ge> 1" using assms(1) by (auto dest: arg_cong [where f = length] simp: min_def split: if_splits)
  moreover have "take n (replicate k 35 @ t) ! k = t ! 0" using assms(1) by (simp add: nth_append)
  ultimately show False using * assms by (cases t) auto
qed

lemma terminator_at_failed:
  assumes "34 \<notin> set q" "k < n" "t = [] \<or> hd t \<noteq> 35"
  shows "terminator_at n (q @ 34 # replicate k 35 @ t) i \<longleftrightarrow>
    length q + 1 + k \<le> i \<and> terminator_at n t (i - (length q + 1 + k))"
proof -
  let ?r = "34 # replicate k 35 @ t"
  have *: "terminator_at n ?r j \<longleftrightarrow> 1 + k \<le> j \<and> terminator_at n t (j - (1 + k))" for j
  proof (cases j)
    case 0
    then show ?thesis using terminator_at_partial [OF assms(2,3)] by simp
  next
    case (Suc j')
    then show ?thesis using terminator_at_skip [of "replicate k 35" n t j'] by (auto simp: terminator_at_Cons)
  qed
  have "i - length q - (1 + k) = i - (length q + 1 + k)"
    and "length q \<le> i \<and> 1 + k \<le> i - length q \<longleftrightarrow> length q + 1 + k \<le> i" by auto
  then show ?thesis using terminator_at_skip [OF assms(1), of n ?r i] * [of "i - length q"] by metis
qed

lemma first_not_hash: "first c \<noteq> 35 \<Longrightarrow> cur_chars c = [] \<or> hd (cur_chars c) \<noteq> 35"
  by (cases "cur_chars c") (simp_all add: first_def)

lemma eat_to_quote:
  assumes "\<not> is_eof (eat_while (\<lambda>x. x \<noteq> 34) c)"
  shows "cur_chars c = takeWhile (\<lambda>x. x \<noteq> 34) (cur_chars c) @ 34 # cur_chars (snd (bump (eat_while (\<lambda>x. x \<noteq> 34) c)))"
proof -
  obtain xs where "dropWhile (\<lambda>x. x \<noteq> 34) (cur_chars c) = 34 # xs"
    using assms hd_dropWhile [of "\<lambda>x. x \<noteq> 34" "cur_chars c"]
    by (cases "dropWhile (\<lambda>x. x \<noteq> 34) (cur_chars c)") (auto simp: is_eof_def)
  then show ?thesis using takeWhile_dropWhile_id [of "\<lambda>x. x \<noteq> 34" "cur_chars c"] by (simp add: bump_def)
qed

lemma raw_string_loop_spec:
  "raw_string_loop p s n off m d = Some ((k, err), e) \<Longrightarrow>
     k = n \<and> (case err of
       None \<Rightarrow> \<exists>i. first_terminator n (cur_chars d) i \<and> cur_chars e = drop (i + 1 + n) (cur_chars d)
     | Some _ \<Rightarrow> (\<forall>i. \<not> terminator_at n (cur_chars d) i) \<and> cur_chars e = [])"
proof (induction p s n off m d rule: raw_string_loop.induct)
  case (1 p s n off m d)
  define q where "q = takeWhile (\<lambda>x. x \<noteq> 34) (cur_chars d)"
  let ?d1 = "eat_while (\<lambda>x. x \<noteq> 34) d"
  have q: "34 \<notin> set q" by (auto simp: q_def dest: set_takeWhileD)
  show ?case
  proof (cases "is_eof ?d1")
    case True
    then have "\<not> terminator_at n (cur_chars d) i" for i by (auto simp: terminator_at_def is_eof_def)
    with True 1(3) show ?thesis by (subst (asm) raw_string_loop.simps) (auto simp: Let_def is_eof_def)
  next
    case False
    obtain h d2 where h: "eat_end_hashes n (snd (bump ?d1)) 0 = (h, d2)" by fastforce
    note hs = eat_end_hashes_spec [OF h, simplified]
    have cd: "cur_chars d = q @ 34 # replicate h 35 @ cur_chars d2" using eat_to_quote [OF False] hs by (simp add: q_def)
    show ?thesis
    proof (cases "h = n")
      case True
      have "terminator_at n (34 # replicate n 35 @ cur_chars d2) 0" by (simp add: terminator_at_def)
      then have "first_terminator n (cur_chars d) (length q)"
        by (subst cd) (simp add: True first_terminator_def terminator_at_skip [OF q])
      moreover have "drop (length q + 1 + n) (cur_chars d) = cur_chars d2" by (subst cd) (simp add: True)
      moreover have "k = n \<and> err = None \<and> e = d2"
        using 1(3) False h True by (subst (asm) raw_string_loop.simps) (simp add: Let_def)
      ultimately show ?thesis by auto
    next
      case no: False
      let ?m = "length q + 1 + h"
      have ta: "terminator_at n (cur_chars d) i \<longleftrightarrow> ?m \<le> i \<and> terminator_at n (cur_chars d2) (i - ?m)" for i
        by (subst cd, rule terminator_at_failed [OF q]) (use hs no first_not_hash [of d2] in auto)
      have dr: "drop (?m + i) (cur_chars d) = drop i (cur_chars d2)" for i
        by (subst cd) simp
      have ih: "k = n \<and> (case err of
          None \<Rightarrow> \<exists>i. first_terminator n (cur_chars d2) i \<and> cur_chars e = drop (i + 1 + n) (cur_chars d2)
        | Some _ \<Rightarrow> (\<forall>i. \<not> terminator_at n (cur_chars d2) i) \<and> cur_chars e = [])"
        using 1(3) False h no 1(1) [OF refl False h [symmetric] refl no] 1(2) [OF refl False h [symmetric] refl no]
        by (subst (asm) raw_string_loop.simps) (auto simp: Let_def bind_eq_Some_conv split: if_splits)
      show ?thesis
      proof (cases err)
        case None
        with ih obtain i where "first_terminator n (cur_chars d2) i" "cur_chars e = drop (i + 1 + n) (cur_chars d2)" by auto
        then have "first_terminator n (cur_chars d) (?m + i)" "cur_chars e = drop (?m + i + 1 + n) (cur_chars d)"
          using dr [of "i + 1 + n"] by (auto simp: first_terminator_def ta add_ac)
        with None ih show ?thesis by auto
      qed (use ih ta in auto)
    qed
  qed
qed

lemma eat_hashes_spec:
  "cur_chars c = replicate k 35 @ r \<Longrightarrow> r = [] \<or> hd r \<noteq> 35 \<Longrightarrow>
    fst (eat_hashes c m) = m + k \<and> cur_chars (snd (eat_hashes c m)) = r"
proof (induction k arbitrary: c m)
  case 0
  then show ?case by (subst (1 2) eat_hashes.simps) (auto simp: first_def split: list.splits)
next
  case (Suc k)
  then show ?case
    using Suc.IH [of "snd (bump c)" "m + 1"] by (subst (1 2) eat_hashes.simps) (auto simp: first_def bump_def)
qed


section \<open>Identifiers, trivia and string literals\<close>

text \<open>One token read from fresh text: the first character decides, the rest is the cursor after it.\<close>

definition after_first :: "rchar \<Rightarrow> rstr \<Rightarrow> cursor" where
  "after_first x xs = \<lparr>initial_len = len_utf8 x + str_len xs, cur_chars = xs, prev_char = x\<rparr>"

lemma after_first_simps [simp]:
  "cur_chars (after_first x xs) = xs" "prev_char (after_first x xs) = x"
  "initial_len (after_first x xs) = len_utf8 x + str_len xs"
  by (simp_all add: after_first_def)

lemma advance_token_Cons:
  "advance_token U (cursor_new (x # xs)) = do {
     (kind, c) \<leftarrow> token_kind_of U x (after_first x xs);
     len \<leftarrow> len_consumed c;
     Some (\<lparr>tok_kind = kind, tok_len = len\<rparr>, c)
   }"
  by (simp add: advance_token_def cursor_new_def bump_def after_first_def)

lemma first_Cons: "cur_chars c = x # xs \<Longrightarrow> first c = x" and first_Nil: "cur_chars c = [] \<Longrightarrow> first c = EOF_CHAR"
  by (simp_all add: first_def)

lemma first_token_eq:
  assumes "s = p @ r" "advance_token U (cursor_new s) = Some (t, c')" "cur_chars c' = r" "p \<noteq> []"
  shows "first_token U s = Some t" and "tokenize U s = map_option ((#) t) (tokenize U r)"
  using tokenize_step [of s U t c'] assms by simp_all

lemma token_kind_of_Ident:
  assumes "token_kind_of U x c = Some (Ident, d)" "prev_char c = x"
  shows "is_id_start U x \<and> d = eat_while (is_id_continue U) c"
  using assms
  by (auto simp: token_kind_of_def line_comment_def block_comment_def whitespace_def raw_ident_def raw_string_token_def
      finish_literal_def lifetime_or_char_def ident_or_unknown_prefix_def fake_ident_or_unknown_prefix_def
      one_symbol_token_def Let_def bind_eq_Some_conv split: if_splits option.splits)

lemma tokenize_Some_Nil: "tokenize U s = Some [] \<longleftrightarrow> s = []"
  by (cases "s = []") (auto simp: tokenize_Nil tokenize_unfold split: option.splits)

lemma tokenize_single:
  assumes "tokenize U s = Some [t]"
  shows "\<exists>x xs c'. s = x # xs \<and> advance_token U (cursor_new s) = Some (t, c') \<and> cur_chars c' = []"
  using assms by (cases s) (auto simp: tokenize_Nil tokenize_unfold tokenize_Some_Nil split: option.splits)

lemma dropWhile_all: "\<forall>x \<in> set xs. P x \<Longrightarrow> dropWhile P xs = []"
  by simp

context unicode_laws
begin

lemma ascii_not_start: "c \<le> 127 \<Longrightarrow> \<not> ascii_letter c \<Longrightarrow> c \<noteq> 95 \<Longrightarrow> \<not> is_id_start U c"
  by (simp add: is_id_start_def ascii_start)

lemma quote_hash_not_continue:
  "\<not> is_id_continue U 34" "\<not> is_id_continue U 35" "\<not> is_id_continue U 39"
  by (simp_all add: is_id_continue_def ascii_continue ascii_letter_def)

lemma token_kind_of_ident:
  assumes x: "is_id_start U x" and xs: "\<forall>y \<in> set (cur_chars c). is_id_continue U y" and c: "prev_char c = x"
  shows "token_kind_of U x c = Some (Ident, eat_while (is_id_continue U) c)"
proof -
  have nq: "first c \<noteq> 34" "first c \<noteq> 35" "first c \<noteq> 39" "second c \<noteq> 34" "second c \<noteq> 35"
    using xs quote_hash_not_continue by (auto simp: first_def second_def split: list.splits)
  have "first (eat_while (is_id_continue U) c) = EOF_CHAR" using xs by (simp add: first_def dropWhile_all)
  then have "ident_or_unknown_prefix U c = Some (Ident, eat_while (is_id_continue U) c)"
    using x c by (simp add: ident_or_unknown_prefix_def Let_def char_is_ascii_def)
  moreover have "x \<noteq> 47" using x ascii_not_start [of 47] by (auto simp: ascii_letter_def)
  moreover have "\<not> is_whitespace x"
    using x white_space_not_start [of x] by (auto simp: is_id_start_def is_whitespace_def)
  ultimately show ?thesis using x nq unfolding token_kind_of_def by presburger
qed

lemma tokenize_ident: "is_ident U s \<longleftrightarrow> tokenize U s = Some [\<lparr>tok_kind = Ident, tok_len = str_len s\<rparr>]"
proof
  assume "is_ident U s"
  then obtain x xs where s: "s = x # xs" "is_id_start U x" "\<forall>y \<in> set xs. is_id_continue U y"
    by (auto simp: is_ident_def list_all_iff split: list.splits)
  with token_kind_of_ident [OF s(2), of "after_first x xs"]
  have "advance_token U (cursor_new s) =
      Some (\<lparr>tok_kind = Ident, tok_len = str_len s\<rparr>, eat_while (is_id_continue U) (after_first x xs))"
    by (simp add: advance_token_Cons len_consumed_def dropWhile_all)
  from tokenize_step(1) [OF _ this] s show "tokenize U s = Some [\<lparr>tok_kind = Ident, tok_len = str_len s\<rparr>]"
    by (simp add: tokenize_Nil dropWhile_all)
next
  assume "tokenize U s = Some [\<lparr>tok_kind = Ident, tok_len = str_len s\<rparr>]"
  from tokenize_single [OF this] obtain x xs c' where s: "s = x # xs" "cur_chars c' = []"
    "token_kind_of U x (after_first x xs) = Some (Ident, c')"
    by (auto simp: advance_token_Cons bind_eq_Some_conv)
  with token_kind_of_Ident [OF s(3)] show "is_ident U s" by (auto simp: is_ident_def list_all_iff)
qed

end


text \<open>Whitespace and line comments extend as far as they can.\<close>

lemma dropWhile_run: "\<forall>x \<in> set w. P x \<Longrightarrow> r = [] \<or> \<not> P (hd r) \<Longrightarrow> dropWhile P (w @ r) = r"
  by (cases r) (simp_all add: dropWhile_append2)

lemma whitespace_token:
  assumes "w \<noteq> []" "\<forall>x \<in> set w. is_whitespace x" "r = [] \<or> \<not> is_whitespace (hd r)"
  shows "first_token U (w @ r) = Some \<lparr>tok_kind = Whitespace, tok_len = str_len w\<rparr>"
    and "tokenize U (w @ r) = map_option ((#) \<lparr>tok_kind = Whitespace, tok_len = str_len w\<rparr>) (tokenize U r)"
proof -
  obtain x xs where w: "w = x # xs" using assms(1) by (cases w) auto
  let ?c = "after_first x (xs @ r)"
  have r: "dropWhile is_whitespace (xs @ r) = r" using assms(2,3) w by (intro dropWhile_run) simp_all
  have "is_whitespace x" "x \<noteq> 47" using assms(2) w by (auto simp: is_whitespace_def)
  then have "token_kind_of U x ?c = Some (Whitespace, eat_while is_whitespace ?c)"
    by (simp add: token_kind_of_def whitespace_def)
  then have t: "advance_token U (cursor_new (w @ r)) = Some (\<lparr>tok_kind = Whitespace, tok_len = str_len w\<rparr>, eat_while is_whitespace ?c)"
    using w r by (simp add: advance_token_Cons len_consumed_def)
  show "first_token U (w @ r) = Some \<lparr>tok_kind = Whitespace, tok_len = str_len w\<rparr>"
    and "tokenize U (w @ r) = map_option ((#) \<lparr>tok_kind = Whitespace, tok_len = str_len w\<rparr>) (tokenize U r)"
    using first_token_eq [OF refl t _ assms(1)] r by simp_all
qed

definition line_doc_style :: "rstr \<Rightarrow> doc_style option" where
  "line_doc_style body = (case body of
     [] \<Rightarrow> None
   | x # ys \<Rightarrow> if x = 33 then Some Inner else if x = 47 \<and> (ys = [] \<or> hd ys \<noteq> 47) then Some Outer else None)"

lemma line_comment_token:
  assumes "10 \<notin> set body" "r = [] \<or> hd r = 10"
  shows "first_token U (47 # 47 # body @ r) =
      Some \<lparr>tok_kind = LineComment (line_doc_style body), tok_len = 2 + str_len body\<rparr>"
    and "tokenize U (47 # 47 # body @ r) =
      map_option ((#) \<lparr>tok_kind = LineComment (line_doc_style body), tok_len = 2 + str_len body\<rparr>) (tokenize U r)"
proof -
  let ?c = "after_first 47 (47 # body @ r)"
  let ?t = "\<lparr>tok_kind = LineComment (line_doc_style body), tok_len = 2 + str_len body\<rparr>"
  let ?d = "eat_while (\<lambda>x. x \<noteq> 10) (snd (bump ?c))"
  have r: "dropWhile (\<lambda>x. x \<noteq> 10) (body @ r) = r" using assms by (intro dropWhile_run) auto
  have "line_comment ?c = Some (LineComment (line_doc_style body), ?d)"
    using assms(2)
    by (cases body; cases r) (auto simp: line_comment_def Let_def first_def second_def bump_def line_doc_style_def append_eq_Cons_conv split: list.splits)
  then have "token_kind_of U 47 ?c = Some (LineComment (line_doc_style body), ?d)"
    by (simp add: token_kind_of_def first_Cons [of ?c 47])
  then have t: "advance_token U (cursor_new ((47 # 47 # body) @ r)) = Some (?t, ?d)"
    using r by (simp add: advance_token_Cons len_consumed_def bump_def len_utf8_def)
  show "first_token U (47 # 47 # body @ r) = Some ?t" and "tokenize U (47 # 47 # body @ r) = map_option ((#) ?t) (tokenize U r)"
    using first_token_eq [OF refl t] r by (simp_all add: bump_def)
qed


text \<open>Text the scan for the closing quote of a string passes over.\<close>

definition passes :: "rstr \<Rightarrow> bool" where
  "passes t \<longleftrightarrow> (\<forall>c r. cur_chars c = t @ r \<longrightarrow>
     (\<exists>p. double_quoted_loop c = double_quoted_loop (c\<lparr>cur_chars := r, prev_char := p\<rparr>)))"

lemma passes_Nil: "passes []"
  unfolding passes_def
proof (intro allI impI)
  fix c :: cursor and r assume "cur_chars c = [] @ r"
  then have "c = c\<lparr>cur_chars := r, prev_char := prev_char c\<rparr>" by simp
  then show "\<exists>p. double_quoted_loop c = double_quoted_loop (c\<lparr>cur_chars := r, prev_char := p\<rparr>)" by metis
qed

lemma passes_append: "passes t \<Longrightarrow> passes u \<Longrightarrow> passes (t @ u)"
  unfolding passes_def
proof (intro allI impI)
  fix c :: cursor and r
  assume t: "\<forall>c r. cur_chars c = t @ r \<longrightarrow> (\<exists>p. double_quoted_loop c = double_quoted_loop (c\<lparr>cur_chars := r, prev_char := p\<rparr>))"
    and u: "\<forall>c r. cur_chars c = u @ r \<longrightarrow> (\<exists>p. double_quoted_loop c = double_quoted_loop (c\<lparr>cur_chars := r, prev_char := p\<rparr>))"
    and c: "cur_chars c = (t @ u) @ r"
  obtain p where p: "double_quoted_loop c = double_quoted_loop (c\<lparr>cur_chars := u @ r, prev_char := p\<rparr>)"
    using t c by (metis append_assoc)
  obtain q where "double_quoted_loop (c\<lparr>cur_chars := u @ r, prev_char := p\<rparr>) =
      double_quoted_loop (c\<lparr>cur_chars := u @ r, prev_char := p\<rparr>\<lparr>cur_chars := r, prev_char := q\<rparr>)"
    using u [rule_format, of "c\<lparr>cur_chars := u @ r, prev_char := p\<rparr>" r] by auto
  with p show "\<exists>p. double_quoted_loop c = double_quoted_loop (c\<lparr>cur_chars := r, prev_char := p\<rparr>)" by auto
qed

lemma passes_plain: "x \<noteq> 34 \<Longrightarrow> x \<noteq> 92 \<Longrightarrow> passes [x]"
  by (auto simp: passes_def bump_def double_quoted_loop.simps [of c for c])

lemma passes_escape: "passes [92, x]"
  by (auto simp: passes_def bump_def first_def double_quoted_loop.simps [of c for c])


lemma passes_list: "\<forall>x \<in> set t. x \<noteq> 34 \<and> x \<noteq> 92 \<Longrightarrow> passes t"
proof (induction t)
  case (Cons x t)
  then show ?case using passes_append [OF passes_plain [of x], of t] by simp
qed (simp add: passes_Nil)

lemma passes_escape_text: "passes (escape_text k c)"
proof -
  have "passes ([92, 117] @ 123 # map (\<lambda>i. hex_char (nibble c i)) (rev [0..<Suc k]) @ [125])"
  proof (rule passes_append [OF passes_escape passes_list])
    have "hex_char (nibble c i) \<noteq> 34 \<and> hex_char (nibble c i) \<noteq> 92" for i
      using hex_char_range [OF nibble_less, of c i] by (auto simp: word_le_nat_alt)
    then show "\<forall>x \<in> set (123 # map (\<lambda>i. hex_char (nibble c i)) (rev [0..<Suc k]) @ [125]). x \<noteq> 34 \<and> x \<noteq> 92" by auto
  qed
  then show ?thesis by (simp add: escape_text_def)
qed

lemma passes_escape_default_text:
  assumes "escape_default_text c = Some t" "c \<le> 0x10FFFF"
  shows "passes t"
proof -
  obtain k where "char_escape_unicode c = Some \<lparr>eu_c = c, eu_state = Backslash, hex_digit_idx = k\<rparr>"
    using char_escape_unicode_digits [OF assms(2)] by blast
  with assms(1) show ?thesis
    by (auto simp: escape_default_text_def char_escape_default_def escape_collect_simple escape_collect_unicode
        intro: passes_escape passes_plain passes_escape_text split: if_splits)
qed

lemma passes_str_escape_default:
  "str_escape_default s = Some lit \<Longrightarrow> \<forall>c \<in> set s. c \<le> 0x10FFFF \<Longrightarrow> passes lit"
  by (induction s arbitrary: lit)
     (auto simp: passes_Nil bind_eq_Some_conv intro: passes_append passes_escape_default_text)

lemma string_token:
  assumes "unicode_laws U" "passes lit" "r = [] \<or> \<not> is_id_start U (hd r)"
  shows "first_token U (34 # lit @ 34 # r) =
      Some \<lparr>tok_kind = Literal (Str_lit True) (str_len lit + 2), tok_len = str_len lit + 2\<rparr>"
    and "tokenize U (34 # lit @ 34 # r) =
      map_option ((#) \<lparr>tok_kind = Literal (Str_lit True) (str_len lit + 2), tok_len = str_len lit + 2\<rparr>) (tokenize U r)"
proof -
  let ?c = "after_first 34 (lit @ 34 # r)"
  let ?k = "Literal (Str_lit True) (str_len lit + 2)"
  let ?t = "\<lparr>tok_kind = ?k, tok_len = str_len lit + 2\<rparr>"
  obtain p where "double_quoted_loop ?c = double_quoted_loop (?c\<lparr>cur_chars := 34 # r, prev_char := p\<rparr>)"
    using assms(2) [unfolded passes_def, rule_format, of ?c "34 # r"] by auto
  then obtain d where d: "double_quoted_loop ?c = (True, d)" "cur_chars d = r" "initial_len d = initial_len ?c"
    by (auto simp: double_quoted_loop.simps [of "_\<lparr>prev_char := _\<rparr>"] bump_def)
  have start: "\<not> is_id_start U c" if "c = 0 \<or> c = 34" for c
    using unicode_laws.ascii_not_start [OF assms(1), of c] that by (auto simp: ascii_letter_def)
  then have suffix: "eat_literal_suffix U d = d"
    using d(2) assms(3) by (cases r) (auto simp: eat_literal_suffix_def eat_identifier_def first_def)
  have "token_kind_of U 34 ?c = Some (?k, d)"
    using start d suffix
    by (simp add: token_kind_of_def is_whitespace_def one_symbol_token_def double_quoted_string_def finish_literal_def
        len_consumed_def len_utf8_def)
  then have t: "advance_token U (cursor_new ((34 # lit @ [34]) @ r)) = Some (?t, d)"
    using d by (simp add: advance_token_Cons len_consumed_def len_utf8_def)
  show "first_token U (34 # lit @ 34 # r) = Some ?t" and "tokenize U (34 # lit @ 34 # r) = map_option ((#) ?t) (tokenize U r)"
    using first_token_eq [OF refl t d(2)] by simp_all
qed


lemma first_line_prefix: "\<exists>rest. s = (case first_line s of None \<Rightarrow> [] | Some l \<Rightarrow> l) @ rest"
proof (cases "s = []")
  case False
  let ?w = "takeWhile (\<lambda>x. x \<noteq> 10) s"
  have "?w = strip_cr ?w @ drop (length (strip_cr ?w)) ?w"
    by (simp add: strip_cr_def butlast_conv_take)
  then have "s = strip_cr ?w @ drop (length (strip_cr ?w)) ?w @ dropWhile (\<lambda>x. x \<noteq> 10) s"
    by (metis append_assoc takeWhile_dropWhile_id)
  with False show ?thesis by (auto simp: first_line_def)
qed (simp add: first_line_def)

lemma first_line_no_lf: "first_line s = Some l \<Longrightarrow> 10 \<notin> set l"
  by (auto simp: first_line_def strip_cr_def dest: in_set_butlastD set_takeWhileD split: if_splits)


section \<open>A concrete table\<close>

text \<open>The three predicates within Latin-1, as the Unicode Character Database has them.\<close>

definition latin1_tables :: unicode_tables where
  "latin1_tables = \<lparr>
     is_xid_start = (\<lambda>c. ascii_letter c \<or> c \<in> set [0xAA, 0xB5, 0xBA] \<or> 0xC0 \<le> c \<and> c \<le> 0xFF \<and> c \<noteq> 0xD7 \<and> c \<noteq> 0xF7),
     is_xid_continue = (\<lambda>c. ascii_letter c \<or> 48 \<le> c \<and> c \<le> 57 \<or> c = 95 \<or> c \<in> set [0xAA, 0xB5, 0xB7, 0xBA] \<or>
       0xC0 \<le> c \<and> c \<le> 0xFF \<and> c \<noteq> 0xD7 \<and> c \<noteq> 0xF7),
     is_emoji = (\<lambda>c. c \<in> set [0x23, 0x2A, 0xA9, 0xAE] \<or> 48 \<le> c \<and> c \<le> 57)\<rparr>"

interpretation latin1: unicode_laws latin1_tables
proof
  show "is_xid_start latin1_tables c \<longleftrightarrow> ascii_letter c" if "c \<le> 127" for c
    using that by (auto simp: latin1_tables_def ascii_letter_def word_le_nat_alt)
  show "is_xid_continue latin1_tables c \<longleftrightarrow> ascii_letter c \<or> 48 \<le> c \<and> c \<le> 57 \<or> c = 95" if "c \<le> 127" for c
    using that by (auto simp: latin1_tables_def ascii_letter_def word_le_nat_alt)
  show "\<not> is_xid_start latin1_tables c" if "is_whitespace c" for c
    using that by (auto simp: latin1_tables_def ascii_letter_def is_whitespace_def)
qed


section \<open>Properties\<close>

text \<open>C7: The lexer is total and lossless: for every text, \<open>tokenize\<close> never panics (no debug assertion fails, no
  subtraction underflows, \<open>bump().unwrap()\<close> is never on \<open>None\<close>) and the iterator ends; the text is the
  concatenation of non-empty pieces, one per token, and each token's \<open>len\<close> is the length of its piece in
  bytes.\<close>

theorem tokenize_lossless:
  assumes "unicode_laws U"
  shows "\<exists>ts parts. tokenize U input = Some ts \<and> input = concat parts \<and>
    list_all2 (\<lambda>t p. p \<noteq> [] \<and> tok_len t = str_len p) ts parts"
  by (rule unicode_laws.tokenize_partition [OF assms])

theorem tokenize_lossless_witness:
  "\<exists>ts. tokenize latin1_tables [102, 110, 32, 0xE9, 39, 34, 13] = Some ts \<and> ts \<noteq> []"
  using tokenize_lossless [OF latin1.unicode_laws_axioms, of "[102, 110, 32, 0xE9, 39, 34, 13]"] by fastforce

text \<open>The lexer keeps no state between tokens: \<open>tokenize\<close> of a non-empty text is its \<open>first_token\<close>, followed by
  the tokens of the text after it.\<close>

theorem tokenize_is_first_token:
  assumes "unicode_laws U" "input \<noteq> []"
  shows "\<exists>t p rest. input = p @ rest \<and> p \<noteq> [] \<and> first_token U input = Some t \<and> tok_len t = str_len p \<and>
    tokenize U input = map_option ((#) t) (tokenize U rest)"
  by (rule unicode_laws.tokenize_first [OF assms])

theorem tokenize_is_first_token_witness:
  "\<exists>t. first_token latin1_tables [48, 120, 46] = Some t \<and> 0 < tok_len t"
  using tokenize_is_first_token [OF latin1.unicode_laws_axioms, of "[48, 120, 46]"]
  by (auto simp: neq_Nil_conv)

text \<open>Raw strings: after \<open>r\<close>, \<open>k\<close> hashes and a quote, the literal is free of errors exactly when there are at
  most 255 hashes and a quote followed by \<open>k\<close> hashes comes later; then the reported number of hashes is \<open>k\<close> and
  the literal ends right after the first such terminator. The offset kept for the error message never
  underflows.\<close>

theorem raw_string_terminator:
  assumes "cursor_wf c" "prev_char c = 114" "cur_chars c = replicate k 35 @ 34 # s"
  shows "\<exists>n err d. raw_double_quoted_string prefix_len c = Some ((n, err), d) \<and>
    (err = None \<longleftrightarrow> k < 256 \<and> (\<exists>i. terminator_at k s i)) \<and>
    (err = None \<longrightarrow> unat n = k \<and> (\<exists>i. first_terminator k s i \<and> cur_chars d = drop (i + 1 + k) s))"
proof -
  obtain n err d where r: "raw_double_quoted_string prefix_len c = Some ((n, err), d)"
    using raw_double_quoted_string_total [OF assms(2,1), of prefix_len] by auto
  then obtain m e where m: "raw_string_unvalidated prefix_len c = Some ((m, e), d)"
      "m < 256 \<and> n = of_nat m \<and> err = e \<or> \<not> m < 256 \<and> n = 0 \<and> err = Some (TooManyDelimiters m)"
    by (auto simp: raw_double_quoted_string_def bind_eq_Some_conv split: if_splits)
  let ?c = "snd (eat_hashes c 0)"
  have h: "fst (eat_hashes c 0) = k" "cur_chars ?c = 34 # s" using eat_hashes_spec [OF assms(3)] by simp_all
  then have b: "fst (bump ?c) = Some 34" "cur_chars (snd (bump ?c)) = s" by (simp_all add: bump_def)
  from m(1) obtain sp where "raw_string_loop prefix_len sp k None 0 (snd (bump ?c)) = Some ((m, e), d)"
    using assms(2) h(1) b(1) by (auto simp: raw_string_unvalidated_def split_beta bind_eq_Some_conv)
  from raw_string_loop_spec [OF this, unfolded b(2)]
  have e: "m = k" "case e of None \<Rightarrow> \<exists>i. first_terminator k s i \<and> cur_chars d = drop (i + 1 + k) s
      | Some _ \<Rightarrow> (\<forall>i. \<not> terminator_at k s i) \<and> cur_chars d = []" by simp_all
  have "unat (of_nat k :: u8) = k" if "k < 256" using that by (simp add: unat_of_nat)
  with r m(2) e show ?thesis by (auto simp: first_terminator_def split: option.splits)
qed

theorem raw_string_terminator_witness:
  "\<exists>n d. raw_double_quoted_string 1 (after_first 114 [35, 34, 34, 97, 34, 35, 33]) = Some ((n, None), d) \<and>
     unat n = 1 \<and> cur_chars d = [33]"
proof -
  let ?s = "[34, 97, 34, 35, 33] :: rstr"
  have wf: "cursor_wf (after_first 114 (35 # 34 # ?s))" by (simp add: cursor_wf_def)
  have tm: "terminator_at 1 ?s 2" "\<not> terminator_at 1 ?s 0" "\<not> terminator_at 1 ?s 1"
    by (simp_all add: terminator_at_def)
  have "i = 2" if "first_terminator 1 ?s i" for i
  proof -
    have "i \<noteq> 0" "i \<noteq> 1" "\<not> 2 < i" using that tm unfolding first_terminator_def by metis+
    then show ?thesis by simp
  qed
  with tm(1) raw_string_terminator [OF wf, of 1 ?s 1] show ?thesis by fastforce
qed

text \<open>\<open>is_ident\<close> accepts exactly the texts that lex to one identifier token.\<close>

theorem is_ident_lexes:
  assumes "unicode_laws U"
  shows "is_ident U s \<longleftrightarrow> tokenize U s = Some [\<lparr>tok_kind = Ident, tok_len = str_len s\<rparr>]"
  by (rule unicode_laws.tokenize_ident [OF assms])

theorem is_ident_lexes_witness:
  "tokenize latin1_tables [98, 0xE9, 95, 49] = Some [\<lparr>tok_kind = Ident, tok_len = 5\<rparr>]"
  using is_ident_lexes [OF latin1.unicode_laws_axioms, of "[98, 0xE9, 95, 49]"]
  by (simp add: is_ident_def is_id_start_def is_id_continue_def latin1_tables_def ascii_letter_def len_utf8_def)

text \<open>Trivia: a run of white space lexes to one \<open>Whitespace\<close> token that covers all of it, and \<open>//\<close> to one
  \<open>LineComment\<close> up to the next line feed, a doc comment exactly for \<open>//!\<close> and for \<open>///\<close> not followed by a fourth
  slash.\<close>

theorem trivia_tokens:
  "(w \<noteq> [] \<and> (\<forall>x \<in> set w. is_whitespace x) \<and> (r = [] \<or> \<not> is_whitespace (hd r)) \<longrightarrow>
     tokenize U (w @ r) = map_option ((#) \<lparr>tok_kind = Whitespace, tok_len = str_len w\<rparr>) (tokenize U r)) \<and>
   (10 \<notin> set body \<and> (r = [] \<or> hd r = 10) \<longrightarrow>
     tokenize U (47 # 47 # body @ r) =
       map_option ((#) \<lparr>tok_kind = LineComment (line_doc_style body), tok_len = 2 + str_len body\<rparr>) (tokenize U r))"
  using whitespace_token(2) [of w r U] line_comment_token(2) [of body r U] by blast

theorem trivia_tokens_witness:
  "tokenize latin1_tables ([47, 47, 47, 97] @ [10, 32]) =
     Some [\<lparr>tok_kind = LineComment (Some Outer), tok_len = 4\<rparr>, \<lparr>tok_kind = Whitespace, tok_len = 2\<rparr>]"
  using trivia_tokens [of "[]" "[10, 32]" latin1_tables "[47, 97]"]
    trivia_tokens [of "[10, 32]" "[]" latin1_tables "[]"]
  by (simp add: is_whitespace_def tokenize_Nil len_utf8_def line_doc_style_def)

text \<open>C20: Printing and reading back a string literal: for every string of scalar values, a quote, the text of
  \<open>escape_default\<close> and a quote lex to one terminated string literal that ends at that quote, and unescaping its
  contents yields the string, with no error.\<close>

theorem string_literal_roundtrip:
  assumes "unicode_laws U" "\<forall>c \<in> set s. is_scalar c" "r = [] \<or> \<not> is_id_start U (hd r)"
  shows "\<exists>lit evs. str_escape_default s = Some lit \<and>
    first_token U (34 # lit @ 34 # r) =
      Some \<lparr>tok_kind = Literal (Str_lit True) (str_len lit + 2), tok_len = str_len lit + 2\<rparr> \<and>
    unescape_literal lit ModeStr = Some evs \<and> map snd evs = map Ok s"
proof -
  obtain lit evs where lit: "str_escape_default s = Some lit"
      "str_loop (str_len lit) lit ModeStr = Some evs" "map snd evs = map Ok s"
    using str_loop_escape_default [OF assms(2)] by blast
  have "passes lit" using passes_str_escape_default [OF lit(1)] assms(2) scalar_le by blast
  from string_token(1) [OF assms(1) this assms(3)] lit show ?thesis
    by (auto simp: unescape_literal_def unescape_str_or_byte_str_def in_double_quotes_def)
qed

theorem string_literal_roundtrip_witness:
  "\<exists>lit t. str_escape_default [34, 92, 0xFC] = Some lit \<and> first_token latin1_tables (34 # lit @ [34, 59]) = Some t \<and>
     tok_len t = str_len lit + 2"
  using string_literal_roundtrip [OF latin1.unicode_laws_axioms, of "[34, 92, 0xFC]" "[59]"]
  by (auto simp: is_scalar_def is_id_start_def latin1_tables_def ascii_letter_def)

text \<open>\<open>strip_shebang\<close> never panics; what it strips is the beginning of the text up to at most the end of its
  first line, starting with \<open>#!\<close>, and it strips exactly when the text starts with \<open>#!\<close> and the first token
  after it that is neither white space nor a plain comment is not an opening bracket.\<close>

theorem strip_shebang_line:
  assumes "unicode_laws U"
  shows "\<exists>r. strip_shebang U input = Some r \<and>
    (\<forall>n. r = Some n \<longrightarrow> (\<exists>l rest. input = 35 # 33 # l @ rest \<and> n = str_len (35 # 33 # l) \<and> 10 \<notin> set l)) \<and>
    (r = None \<longleftrightarrow> take 2 input \<noteq> [35, 33] \<or>
      (\<exists>ts. tokenize U (drop 2 input) = Some ts \<and> find (\<lambda>k. \<not> is_trivia k) (map tok_kind ts) = Some OpenBracket))"
proof (cases "take 2 input = [35, 33]")
  case True
  then have input: "input = 35 # 33 # drop 2 input" by (metis append_Cons append_Nil append_take_drop_id)
  obtain ts where ts: "tokenize U (drop 2 input) = Some ts"
    using unicode_laws.tokenize_partition [OF assms, of "drop 2 input"] by blast
  obtain l where l: "l = (case first_line (drop 2 input) of None \<Rightarrow> [] | Some l \<Rightarrow> l)" by simp
  obtain rest where rest: "drop 2 input = l @ rest" using first_line_prefix [of "drop 2 input"] l by auto
  have "10 \<notin> set l" using first_line_no_lf [of "drop 2 input"] l by (auto split: option.splits)
  moreover have "strip_shebang U input = Some (if find (\<lambda>k. \<not> is_trivia k) (map tok_kind ts) \<noteq> Some OpenBracket
      then Some (str_len (35 # 33 # l)) else None)"
    using True ts l by (simp add: strip_shebang_def len_utf8_def)
  moreover have "input = 35 # 33 # l @ rest" using input rest by simp
  ultimately show ?thesis using True ts
    by (cases "find (\<lambda>k. \<not> is_trivia k) (map tok_kind ts) = Some OpenBracket") auto
qed (auto simp: strip_shebang_def)

theorem strip_shebang_line_witness:
  "\<exists>r. strip_shebang latin1_tables [35, 33, 47, 98, 10, 97] = Some r"
  using strip_shebang_line [OF latin1.unicode_laws_axioms, of "[35, 33, 47, 98, 10, 97]"] by blast

end
