(* ===== verification/Leb128.thy ===== *)
theory Leb128
  imports Rust_Prelude
begin

text \<open>
  \<open>compiler/rustc_serialize/src/leb128.rs\<close>: the variable-length integer encoding of the compiler's metadata and
  incremental cache. The four macros are functions polymorphic in the width of the integer; a signed integer is
  the word of its two's complement, with \<open>signed_drop_bit\<close> for \<open>>>\<close>. The unchecked writes into the output array
  are checked here: an index outside of it, undefined behaviour in the source, is \<open>None\<close>. Shifts are checked
  as in a build with overflow checks.
\<close>

definition max_leb128_len :: "nat \<Rightarrow> nat" where
  "max_leb128_len bits = (bits + 6) div 7"


section \<open>Unsigned integers\<close>

function write_unsigned_loop :: "u8 list \<Rightarrow> nat \<Rightarrow> 'a::len word \<Rightarrow> (u8 list \<times> nat) option" where
  "write_unsigned_loop out i value =
     (if unat value < 0x80 then do {
        out \<leftarrow> store_at out i (ucast value);
        Some (out, i + 1)
      } else do {
        out \<leftarrow> store_at out i (ucast ((value AND 0x7f) OR 0x80));
        write_unsigned_loop out (i + 1) (drop_bit 7 value)
      })"
  by auto
termination
  by (relation "measure (\<lambda>(out, i, value). length out - i)") (auto simp: store_at_def split: if_splits)

definition write_unsigned_leb128 :: "u8 list \<Rightarrow> 'a::len word \<Rightarrow> (u8 list \<times> u8 list) option" where
  "write_unsigned_leb128 out value = do {
     (out, i) \<leftarrow> write_unsigned_loop out 0 value;
     Some (take i out, out)
   }"

function read_unsigned_loop :: "u8 list \<Rightarrow> nat \<Rightarrow> 'a::len word \<Rightarrow> nat \<Rightarrow> ('a word \<times> nat) option" where
  "read_unsigned_loop xs pos result shift = do {
     byte \<leftarrow> index_at xs pos;
     assert_that (shift < LENGTH('a));
     if byte AND 0x80 = 0 then Some (result OR push_bit shift (ucast byte), pos + 1)
     else read_unsigned_loop xs (pos + 1) (result OR push_bit shift (ucast (byte AND 0x7F))) (shift + 7)
   }"
  by auto
termination
  by (relation "measure (\<lambda>(xs, pos, result, shift). length xs - pos)") (auto simp: index_at_eq_Some)

definition read_unsigned_leb128 :: "u8 list \<Rightarrow> nat \<Rightarrow> ('a::len word \<times> nat) option" where
  "read_unsigned_leb128 xs pos = do {
     byte \<leftarrow> index_at xs pos;
     if byte AND 0x80 = 0 then Some (ucast byte, pos + 1)
     else read_unsigned_loop xs (pos + 1) (ucast (byte AND 0x7F)) 7
   }"


section \<open>Signed integers\<close>

function write_signed_loop :: "u8 list \<Rightarrow> nat \<Rightarrow> 'a::len word \<Rightarrow> (u8 list \<times> nat) option" where
  "write_signed_loop out i value =
     (let byte = ucast value AND 0x7f;
          value = signed_drop_bit 7 value;
          more = (\<not> (value = 0 \<and> byte AND 0x40 = 0 \<or> value = - 1 \<and> byte AND 0x40 \<noteq> 0));
          byte = (if more then byte OR 0x80 else byte)
      in do {
        out \<leftarrow> store_at out i byte;
        if \<not> more then Some (out, i + 1) else write_signed_loop out (i + 1) value
      })"
  by auto
termination
  by (relation "measure (\<lambda>(out, i, value). length out - i)") (auto simp: store_at_def split: if_splits)

definition write_signed_leb128 :: "u8 list \<Rightarrow> 'a::len word \<Rightarrow> (u8 list \<times> u8 list) option" where
  "write_signed_leb128 out value = do {
     (out, i) \<leftarrow> write_signed_loop out 0 value;
     Some (take i out, out)
   }"

function read_signed_loop :: "u8 list \<Rightarrow> nat \<Rightarrow> 'a::len word \<Rightarrow> nat \<Rightarrow> (('a word \<times> nat) \<times> u8 \<times> nat) option" where
  "read_signed_loop xs pos result shift = do {
     byte \<leftarrow> index_at xs pos;
     assert_that (shift < LENGTH('a));
     let result = result OR push_bit shift (ucast (byte AND 0x7F));
     if byte AND 0x80 = 0 then Some ((result, shift + 7), byte, pos + 1)
     else read_signed_loop xs (pos + 1) result (shift + 7)
   }"
  by auto
termination
  by (relation "measure (\<lambda>(xs, pos, result, shift). length xs - pos)") (auto simp: index_at_eq_Some)

definition read_signed_leb128 :: "u8 list \<Rightarrow> nat \<Rightarrow> ('a::len word \<times> nat) option" where
  "read_signed_leb128 xs pos = do {
     ((result, shift), byte, pos) \<leftarrow> read_signed_loop xs pos 0 0;
     Some (if shift < LENGTH('a) \<and> byte AND 0x40 \<noteq> 0 then result OR push_bit shift (NOT 0) else result, pos)
   }"

declare write_unsigned_loop.simps [simp del] read_unsigned_loop.simps [simp del]
declare write_signed_loop.simps [simp del] read_signed_loop.simps [simp del]


section \<open>The bytes of an encoding\<close>

text \<open>Seven bits of the value, and whether more bytes follow.\<close>

definition leb_byte :: "'a::len word \<Rightarrow> bool \<Rightarrow> u8" where
  "leb_byte w more = ucast w AND 0x7f OR (if more then 0x80 else 0)"

definition leb_bytes :: "(nat \<Rightarrow> 'a::len word) \<Rightarrow> nat \<Rightarrow> u8 list" where
  "leb_bytes f n = map (\<lambda>j. leb_byte (f j) (Suc j \<noteq> n)) [0..<n]"

lemma bit_7f: "bit (0x7f :: 'a::len word) k \<longleftrightarrow> k < 7 \<and> k < LENGTH('a)"
proof -
  have "(0x7f :: 'a word) = mask 7" by (simp add: mask_eq_exp_minus_1)
  then show ?thesis by (simp only: bit_mask_iff possible_bit_word) auto
qed

lemma bit_80: "bit (0x80 :: 'a::len word) k \<longleftrightarrow> k = 7 \<and> 7 < LENGTH('a)"
proof -
  have "(0x80 :: 'a word) = 2 ^ 7" by simp
  then show ?thesis by (simp only: bit_exp_iff) auto
qed

lemma bit_40: "bit (0x40 :: 'a::len word) k \<longleftrightarrow> k = 6 \<and> 6 < LENGTH('a)"
proof -
  have "(0x40 :: 'a word) = 2 ^ 6" by simp
  then show ?thesis by (simp only: bit_exp_iff) auto
qed

lemma bit_leb_byte: "bit (leb_byte w more) k \<longleftrightarrow> k < 7 \<and> bit w k \<or> k = 7 \<and> more"
  by (auto simp: leb_byte_def bit_or_iff bit_and_iff bit_7f bit_80 bit_ucast_iff simp del: bit_numeral_word_iff)

lemma and_80_eq_0: "b AND 0x80 = 0 \<longleftrightarrow> \<not> bit b 7" for b :: u8
proof -
  have "b AND 0x80 = (if bit b 7 then 0x80 else 0)"
    by (rule bit_word_eqI) (auto simp: bit_and_iff bit_80 simp del: bit_numeral_word_iff)
  then show ?thesis by simp
qed

lemma and_40_eq_0: "b AND 0x40 = 0 \<longleftrightarrow> \<not> bit b 6" for b :: u8
proof -
  have "b AND 0x40 = (if bit b 6 then 0x40 else 0)"
    by (rule bit_word_eqI) (auto simp: bit_and_iff bit_40 simp del: bit_numeral_word_iff)
  then show ?thesis by simp
qed

lemma leb_byte_more: "leb_byte w more AND 0x80 = 0 \<longleftrightarrow> \<not> more"
  by (simp add: and_80_eq_0 bit_leb_byte)

lemma leb_byte_low: "bit (ucast (leb_byte w more AND 0x7F) :: 'a::len word) k \<longleftrightarrow> k < 7 \<and> bit w k \<and> k < LENGTH('a)"
  by (auto simp: bit_ucast_iff bit_and_iff bit_7f bit_leb_byte simp del: bit_numeral_word_iff)


lemma max_leb128_len_iff: "i < max_leb128_len b \<longleftrightarrow> 7 * i < b"
  unfolding max_leb128_len_def by linarith

lemma unat_less_128: "unat w < 128 \<longleftrightarrow> drop_bit 7 w = 0" for w :: "'a::len word"
proof -
  have "drop_bit 7 w = 0 \<longleftrightarrow> unat (drop_bit 7 w) = 0" by (simp only: unsigned_eq_0_iff)
  also have "unat (drop_bit 7 w) = unat w div 128" unfolding unat_drop_bit_eq by (simp add: drop_bit_eq_div)
  finally show ?thesis by (simp add: div_eq_0_iff)
qed

lemma leb_byte_small:
  assumes "drop_bit 7 w = 0"
  shows "(ucast w :: u8) = leb_byte w False"
proof (rule bit_word_eqI)
  fix k :: nat
  have "\<not> bit w k" if "7 \<le> k"
  proof -
    have "bit (drop_bit 7 w) (k - 7) = bit w k" using that by (simp add: bit_drop_bit_eq)
    with assms show ?thesis by simp
  qed
  then show "bit (ucast w :: u8) k \<longleftrightarrow> bit (leb_byte w False) k"
    by (cases "7 \<le> k") (auto simp: bit_ucast_iff bit_leb_byte)
qed

lemma leb_byte_large:
  assumes "8 \<le> LENGTH('a)"
  shows "(ucast ((w AND 0x7f) OR 0x80) :: u8) = leb_byte (w :: 'a::len word) True"
  using assms by (intro bit_word_eqI) (auto simp: bit_ucast_iff bit_leb_byte bit_or_iff bit_and_iff bit_7f bit_80 simp del: bit_numeral_word_iff)

lemma drop_bit_nonzero: "drop_bit n w \<noteq> 0 \<Longrightarrow> n < LENGTH('a)" for w :: "'a::len word"
  by (rule ccontr) (simp add: bit_eq_iff bit_drop_bit_eq bit_imp_le_length)

definition encodes :: "u8 list \<Rightarrow> u8 list \<Rightarrow> nat \<Rightarrow> nat \<Rightarrow> (nat \<Rightarrow> 'a::len word) \<Rightarrow> bool" where
  "encodes out out' i n f \<longleftrightarrow> i < n \<and> n \<le> length out \<and> length out' = length out \<and> take i out' = take i out \<and>
     (\<forall>j. i \<le> j \<and> j < n \<longrightarrow> out' ! j = leb_byte (f j) (Suc j \<noteq> n))"

lemma encodes_last:
  assumes "i < length out" "b = leb_byte (f i) False"
  shows "encodes out (out[i := b]) i (Suc i) f"
  using assms by (auto simp: encodes_def le_less_Suc_eq)

lemma encodes_step:
  assumes "encodes (out[i := b]) out' (Suc i) n f" "i < length out" "b = leb_byte (f i) True"
  shows "encodes out out' i n f"
proof -
  have "take (Suc i) out' = take (Suc i) (out[i := b])" using assms(1) by (simp add: encodes_def)
  then have "take i out' = take i out" "out' ! i = b"
    using assms(1,2) by (auto simp: take_Suc_conv_app_nth encodes_def)
  moreover have "out' ! j = leb_byte (f j) (Suc j \<noteq> n)" if "i \<le> j" "j < n" for j
    using assms(1,3) that \<open>out' ! i = b\<close> by (cases "i = j") (auto simp: encodes_def)
  ultimately show ?thesis using assms(1) by (auto simp: encodes_def)
qed

lemma encodes_take: "encodes out out' 0 n f \<Longrightarrow> take n out' = leb_bytes f n"
  by (rule nth_equalityI) (auto simp: encodes_def leb_bytes_def)

lemma write_unsigned_loop_spec:
  fixes v :: "'a::len word"
  assumes "8 \<le> LENGTH('a)" "length out = max_leb128_len LENGTH('a)" "7 * i < LENGTH('a)"
  shows "\<exists>n out'. write_unsigned_loop out i (drop_bit (7 * i) v) = Some (out', n) \<and>
    encodes out out' i n (\<lambda>j. drop_bit (7 * j) v) \<and> drop_bit (7 * n) v = 0"
  using assms
proof (induction "length out - i" arbitrary: out i rule: less_induct)
  case less
  let ?w = "drop_bit (7 * i) v"
  have i: "i < length out" using less.prems by (simp add: max_leb128_len_iff)
  then have dec: "length out - Suc i < length out - i" by simp
  have d: "drop_bit 7 ?w = drop_bit (7 * Suc i) v" by (simp add: add.commute)
  show ?case
  proof (cases "drop_bit 7 ?w = 0")
    case True
    then have "write_unsigned_loop out i ?w = Some (out[i := ucast ?w], Suc i)"
      using i by (subst write_unsigned_loop.simps) (simp add: unat_less_128)
    with encodes_last [OF i, of "ucast ?w" "\<lambda>j. drop_bit (7 * j) v"] leb_byte_small [OF True] True d
    show ?thesis by auto
  next
    case False
    let ?out = "out[i := leb_byte ?w True]"
    have "7 * Suc i < LENGTH('a)" using drop_bit_nonzero False d by metis
    with less.hyps [of ?out "Suc i"] dec less.prems obtain n out'
      where n: "write_unsigned_loop ?out (Suc i) (drop_bit (7 * Suc i) v) = Some (out', n)"
        "encodes ?out out' (Suc i) n (\<lambda>j. drop_bit (7 * j) v)" "drop_bit (7 * n) v = 0" by auto
    have "write_unsigned_loop out i ?w = Some (out', n)"
      using i False n(1) d by (subst write_unsigned_loop.simps) (simp add: unat_less_128 leb_byte_large [OF less.prems(1)])
    with encodes_step [OF n(2) i] n(3) show ?thesis by auto
  qed
qed

lemma write_signed_step:
  fixes w :: "'a::len word"
  assumes "7 \<le> LENGTH('a)" "LENGTH('a) \<le> k + 7" "w = signed_drop_bit k v"
  shows "signed_drop_bit 7 w = 0 \<and> \<not> bit w 6 \<or> signed_drop_bit 7 w = - 1 \<and> bit w 6"
proof -
  have "signed_drop_bit 7 w = (if bit v (LENGTH('a) - 1) then - 1 else 0)"
    using assms(2,3) signed_drop_bit_beyond [of "7 + k" v] by simp
  moreover have "bit w 6 \<longleftrightarrow> bit v (LENGTH('a) - 1)"
  proof (cases "LENGTH('a) - k \<le> 6")
    case False
    then have "k + 6 = LENGTH('a) - 1" using assms(2) by linarith
    with False show ?thesis using assms by (simp add: bit_signed_drop_bit_iff)
  qed (use assms in \<open>simp add: bit_signed_drop_bit_iff\<close>)
  ultimately show ?thesis by auto
qed

lemma ucast_7f: "(ucast w :: u8) AND 0x7f = leb_byte w False"
  "leb_byte w False OR 0x80 = leb_byte w True"
  by (simp_all add: leb_byte_def)

lemma write_signed_loop_spec:
  fixes v :: "'a::len word"
  assumes "7 \<le> LENGTH('a)" "length out = max_leb128_len LENGTH('a)" "7 * i < LENGTH('a)"
  shows "\<exists>n out'. write_signed_loop out i (signed_drop_bit (7 * i) v) = Some (out', n) \<and>
    encodes out out' i n (\<lambda>j. signed_drop_bit (7 * j) v) \<and>
    (if bit (signed_drop_bit (7 * (n - 1)) v) 6 then signed_drop_bit (7 * n) v = - 1 else signed_drop_bit (7 * n) v = 0)"
  using assms
proof (induction "length out - i" arbitrary: out i rule: less_induct)
  case less
  let ?w = "signed_drop_bit (7 * i) v"
  have i: "i < length out" using less.prems by (simp add: max_leb128_len_iff)
  then have dec: "length out - Suc i < length out - i" by simp
  have d: "signed_drop_bit 7 ?w = signed_drop_bit (7 * Suc i) v" by simp
  let ?stop = "signed_drop_bit 7 ?w = 0 \<and> \<not> bit ?w 6 \<or> signed_drop_bit 7 ?w = - 1 \<and> bit ?w 6"
  show ?case
  proof (cases ?stop)
    case True
    then have "write_signed_loop out i ?w = Some (out[i := leb_byte ?w False], Suc i)"
      using i by (subst write_signed_loop.simps) (auto simp: Let_def ucast_7f and_40_eq_0 bit_leb_byte)
    with encodes_last [OF i, of "leb_byte ?w False" "\<lambda>j. signed_drop_bit (7 * j) v"] True d
    show ?thesis by (auto simp del: signed_drop_bit_signed_drop_bit)
  next
    case False
    let ?out = "out[i := leb_byte ?w True]"
    have "7 * Suc i < LENGTH('a)"
      using write_signed_step [OF less.prems(1) _ refl, of "7 * i" v] False by (rule_tac ccontr) (auto simp: add.commute)
    with less.hyps [of ?out "Suc i"] dec less.prems obtain n out'
      where n: "write_signed_loop ?out (Suc i) (signed_drop_bit (7 * Suc i) v) = Some (out', n)"
        "encodes ?out out' (Suc i) n (\<lambda>j. signed_drop_bit (7 * j) v)"
        "if bit (signed_drop_bit (7 * (n - 1)) v) 6 then signed_drop_bit (7 * n) v = - 1 else signed_drop_bit (7 * n) v = 0"
      by auto
    have "write_signed_loop out i ?w = Some (out', n)"
      using i False n(1) by (subst write_signed_loop.simps) (auto simp: Let_def ucast_7f and_40_eq_0 bit_leb_byte)
    with encodes_step [OF n(2) i] n(3) show ?thesis by auto
  qed
qed


section \<open>Reading back\<close>

lemma leb_bytes_nth: "j < n \<Longrightarrow> (pre @ leb_bytes f n @ rest) ! (length pre + j) = leb_byte (f j) (Suc j \<noteq> n)"
  by (simp add: leb_bytes_def nth_append)

lemma leb_bytes_index:
  "j < n \<Longrightarrow> index_at (pre @ leb_bytes f n @ rest) (length pre + j) = Some (leb_byte (f j) (Suc j \<noteq> n))"
  using leb_bytes_nth [of j n pre f rest] by (simp add: leb_bytes_def)

lemma take_bit_OR_push:
  fixes v b :: "'a::len word"
  assumes "\<And>m. m < 7 \<Longrightarrow> k + m < LENGTH('a) \<Longrightarrow> bit b m \<longleftrightarrow> bit v (k + m)"
    and "\<And>m. bit b m \<Longrightarrow> m < 7"
  shows "take_bit k v OR push_bit k b = take_bit (k + 7) v"
proof (rule bit_word_eqI)
  fix n assume n: "n < LENGTH('a)"
  have "bit b (n - k) \<longleftrightarrow> n < k + 7 \<and> bit v n" if "k \<le> n"
    using assms(1) [of "n - k"] assms(2) [of "n - k"] that n by fastforce
  then show "bit (take_bit k v OR push_bit k b) n \<longleftrightarrow> bit (take_bit (k + 7) v) n"
    using n by (cases "k \<le> n") (auto simp: bit_or_iff bit_take_bit_iff bit_push_bit_iff)
qed

lemma unsigned_chunk:
  "take_bit k v OR push_bit k (ucast (leb_byte (drop_bit k v) more AND 0x7F)) = take_bit (k + 7) v" for v :: "'a::len word"
  by (rule take_bit_OR_push) (auto simp: leb_byte_low bit_drop_bit_eq)

lemma signed_chunk:
  "take_bit k v OR push_bit k (ucast (leb_byte (signed_drop_bit k v) more AND 0x7F)) = take_bit (k + 7) v" for v :: "'a::len word"
  by (rule take_bit_OR_push) (auto simp: leb_byte_low bit_signed_drop_bit_iff)

lemma leb_byte_no_more: "leb_byte w False AND 0x7F = leb_byte w False"
  by (rule bit_word_eqI) (auto simp: bit_and_iff bit_7f bit_leb_byte simp del: bit_numeral_word_iff)

lemma drop_bit_0_take_bit: "drop_bit n v = 0 \<Longrightarrow> take_bit n v = v" for v :: "'a::len word"
  by (simp add: take_bit_eq_self_iff_drop_bit_eq_0)

lemma read_unsigned_loop_spec:
  fixes v :: "'a::len word"
  assumes "drop_bit (7 * n) v = 0" "\<forall>j < n. 7 * j < LENGTH('a)" "j < n"
  shows "read_unsigned_loop (pre @ leb_bytes (\<lambda>j. drop_bit (7 * j) v) n @ rest) (length pre + j) (take_bit (7 * j) v) (7 * j) =
    Some (v, length pre + n)"
  using assms(3)
proof (induction "n - j" arbitrary: j)
  case (Suc d)
  note idx = leb_bytes_index [OF Suc.prems, of pre "\<lambda>j. drop_bit (7 * j) v" rest]
  have len: "7 * j < LENGTH('a)" using assms(2) Suc.prems by simp
  have seven: "7 * j + 7 = 7 * Suc j" by simp
  show ?case
  proof (cases "Suc j = n")
    case True
    then have "take_bit (7 * j + 7) v = v" using assms(1) drop_bit_0_take_bit [of "7 * j + 7" v] seven by metis
    with unsigned_chunk [of "7 * j" v False] True idx len show ?thesis
      by (subst read_unsigned_loop.simps) (simp add: leb_byte_more leb_byte_no_more)
  next
    case False
    with Suc have "Suc j < n" "d = n - Suc j" by simp_all
    from Suc.hyps(1) [OF this(2,1)] unsigned_chunk [of "7 * j" v True] False idx len seven show ?thesis
      by (subst read_unsigned_loop.simps) (simp add: leb_byte_more add.commute)
  qed
qed simp

lemma read_unsigned_leb128_first:
  "7 < LENGTH('a) \<Longrightarrow> read_unsigned_leb128 xs pos = (read_unsigned_loop xs pos 0 0 :: ('a::len word \<times> nat) option)"
  by (subst read_unsigned_loop.simps) (simp add: read_unsigned_leb128_def cong: if_cong)

lemma read_signed_loop_spec:
  fixes v :: "'a::len word"
  assumes "\<forall>j < n. 7 * j < LENGTH('a)" "j < n"
  shows "read_signed_loop (pre @ leb_bytes (\<lambda>j. signed_drop_bit (7 * j) v) n @ rest) (length pre + j) (take_bit (7 * j) v) (7 * j) =
    Some ((take_bit (7 * n) v, 7 * n), leb_byte (signed_drop_bit (7 * (n - 1)) v) False, length pre + n)"
  using assms(2)
proof (induction "n - j" arbitrary: j)
  case (Suc d)
  note idx = leb_bytes_index [OF Suc.prems, of pre "\<lambda>j. signed_drop_bit (7 * j) v" rest]
  have len: "7 * j < LENGTH('a)" using assms(1) Suc.prems by simp
  have seven: "7 * j + 7 = 7 * Suc j" by simp
  show ?case
  proof (cases "Suc j = n")
    case True
    with signed_chunk [of "7 * j" v False] idx len seven show ?thesis
      by (subst read_signed_loop.simps) (auto simp: leb_byte_more leb_byte_no_more Let_def)
  next
    case False
    with Suc have "Suc j < n" "d = n - Suc j" by simp_all
    from Suc.hyps(1) [OF this(2,1)] signed_chunk [of "7 * j" v True] False idx len seven show ?thesis
      by (subst read_signed_loop.simps) (simp add: leb_byte_more Let_def add.commute)
  qed
qed simp

lemma sign_extend_0:
  fixes v :: "'a::len word"
  assumes "signed_drop_bit k v = 0" "k < LENGTH('a)"
  shows "take_bit k v = v"
proof (rule bit_word_eqI)
  fix n assume n: "n < LENGTH('a)"
  have "\<not> bit v n" if "k \<le> n"
  proof -
    have "bit (signed_drop_bit k v) (n - k) \<longleftrightarrow> bit v n" using that n assms(2) by (auto simp: bit_signed_drop_bit_iff)
    with assms(1) show ?thesis by simp
  qed
  then show "bit (take_bit k v) n \<longleftrightarrow> bit v n" by (cases "k \<le> n") (auto simp: bit_take_bit_iff)
qed

lemma sign_extend_1:
  fixes v :: "'a::len word"
  assumes "signed_drop_bit k v = - 1" "k < LENGTH('a)"
  shows "take_bit k v OR push_bit k (NOT 0) = v"
proof (rule bit_word_eqI)
  fix n assume n: "n < LENGTH('a)"
  have "bit v n" if "k \<le> n"
  proof -
    have "bit (signed_drop_bit k v) (n - k) \<longleftrightarrow> bit v n" using that n assms(2) by (auto simp: bit_signed_drop_bit_iff)
    moreover have "bit (signed_drop_bit k v) (n - k)" using assms(1) n by (simp add: less_imp_diff_less)
    ultimately show ?thesis by simp
  qed
  then show "bit (take_bit k v OR push_bit k (NOT 0)) n \<longleftrightarrow> bit v n"
    using n by (cases "k \<le> n") (auto simp: bit_or_iff bit_take_bit_iff bit_push_bit_iff bit_not_iff bit_mask_iff)
qed


section \<open>Round trips\<close>

lemma write_unsigned_leb128_spec:
  fixes v :: "'a::len word"
  assumes "8 \<le> LENGTH('a)" "length out = max_leb128_len LENGTH('a)"
  shows "\<exists>bytes out'. write_unsigned_leb128 out v = Some (bytes, out') \<and> length bytes \<le> max_leb128_len LENGTH('a) \<and>
    bytes \<noteq> [] \<and> (\<forall>pre rest. read_unsigned_leb128 (pre @ bytes @ rest) (length pre) = Some (v, length pre + length bytes))"
proof -
  let ?f = "\<lambda>j. drop_bit (7 * j) v"
  obtain n out' where n: "write_unsigned_loop out 0 v = Some (out', n)" "encodes out out' 0 n ?f" "drop_bit (7 * n) v = 0"
    using write_unsigned_loop_spec [OF assms, of 0 v] by auto
  have b: "take n out' = leb_bytes ?f n" "0 < n" "n \<le> max_leb128_len LENGTH('a)"
    using encodes_take [OF n(2)] n(2) assms(2) by (auto simp: encodes_def)
  have "\<forall>j < n. 7 * j < LENGTH('a)" using b(3) max_leb128_len_iff by (metis less_le_trans)
  from read_unsigned_loop_spec [OF n(3) this b(2)] assms(1) n(1) b show ?thesis
    by (auto simp: write_unsigned_leb128_def read_unsigned_leb128_first leb_bytes_def)
qed

lemma write_signed_leb128_spec:
  fixes v :: "'a::len word"
  assumes "7 \<le> LENGTH('a)" "length out = max_leb128_len LENGTH('a)"
  shows "\<exists>bytes out'. write_signed_leb128 out v = Some (bytes, out') \<and> length bytes \<le> max_leb128_len LENGTH('a) \<and>
    bytes \<noteq> [] \<and> (\<forall>pre rest. read_signed_leb128 (pre @ bytes @ rest) (length pre) = Some (v, length pre + length bytes))"
proof -
  let ?f = "\<lambda>j. signed_drop_bit (7 * j) v"
  obtain n out' where n: "write_signed_loop out 0 v = Some (out', n)" "encodes out out' 0 n ?f"
      "if bit (?f (n - 1)) 6 then ?f n = - 1 else ?f n = 0"
    using write_signed_loop_spec [OF assms, of 0 v] by auto
  have b: "take n out' = leb_bytes ?f n" "0 < n" "n \<le> max_leb128_len LENGTH('a)"
    using encodes_take [OF n(2)] n(2) assms(2) by (auto simp: encodes_def)
  have "\<forall>j < n. 7 * j < LENGTH('a)" using b(3) max_leb128_len_iff by (metis less_le_trans)
  note r = read_signed_loop_spec [OF this b(2)]
  let ?last = "leb_byte (?f (n - 1)) False"
  have "(if 7 * n < LENGTH('a) \<and> ?last AND 0x40 \<noteq> 0 then take_bit (7 * n) v OR push_bit (7 * n) (NOT 0)
      else take_bit (7 * n) v) = v"
  proof (cases "7 * n < LENGTH('a)")
    case True
    with n(3) sign_extend_0 [of "7 * n" v] sign_extend_1 [of "7 * n" v] show ?thesis
      by (auto simp: and_40_eq_0 bit_leb_byte split: if_splits)
  next
    case False
    then show ?thesis by (simp add: take_bit_word_eq_self)
  qed
  with r n(1) b assms(1) show ?thesis by (auto simp: write_signed_leb128_def read_signed_leb128_def leb_bytes_def)
qed


section \<open>Properties\<close>

text \<open>Unsigned LEB128 round trip, for every integer type of at least eight bits: writing stays inside the
  output array of \<open>max_leb128_len!\<close> bytes whatever it held before, and reading the bytes back, wherever they
  stand in a slice, gives the value and moves the position just past them; neither the indexing nor a shift
  panics.\<close>

theorem unsigned_leb128_roundtrip:
  fixes v :: "'a::len word"
  assumes "8 \<le> LENGTH('a)" "length out = max_leb128_len LENGTH('a)"
  shows "\<exists>bytes out'. write_unsigned_leb128 out v = Some (bytes, out') \<and> length bytes \<le> max_leb128_len LENGTH('a) \<and>
    read_unsigned_leb128 (pre @ bytes @ rest) (length pre) = Some (v, length pre + length bytes)"
  using write_unsigned_leb128_spec [OF assms, of v] by blast

theorem unsigned_leb128_roundtrip_witness:
  "\<exists>bytes out'. write_unsigned_leb128 [0, 0, 0] (0xFFFF :: u16) = Some (bytes, out') \<and>
     read_unsigned_leb128 (7 # bytes @ [9]) 1 = Some (0xFFFF :: u16, 1 + length bytes)"
  using unsigned_leb128_roundtrip [where v = "0xFFFF :: u16" and out = "[0, 0, 0]" and pre = "[7]" and rest = "[9]"]
  by (auto simp: max_leb128_len_def)

text \<open>Signed LEB128 round trip, for every integer type of at least seven bits: writing stays inside the output
  array, and reading back gives the value, sign included, and moves the position just past the bytes.\<close>

theorem signed_leb128_roundtrip:
  fixes v :: "'a::len word"
  assumes "7 \<le> LENGTH('a)" "length out = max_leb128_len LENGTH('a)"
  shows "\<exists>bytes out'. write_signed_leb128 out v = Some (bytes, out') \<and> length bytes \<le> max_leb128_len LENGTH('a) \<and>
    read_signed_leb128 (pre @ bytes @ rest) (length pre) = Some (v, length pre + length bytes)"
  using write_signed_leb128_spec [OF assms, of v] by blast

theorem signed_leb128_roundtrip_witness:
  "\<exists>bytes out'. write_signed_leb128 [0, 0, 0] (- 300 :: u16) = Some (bytes, out') \<and>
     read_signed_leb128 (7 # bytes @ [9]) 1 = Some (- 300 :: u16, 1 + length bytes)"
  using signed_leb128_roundtrip [where v = "- 300 :: u16" and out = "[0, 0, 0]" and pre = "[7]" and rest = "[9]"]
  by (auto simp: max_leb128_len_def)

end
