(* ===== verification/Opaque.thy ===== *)
theory Opaque
  imports Leb128 Rust_Char
begin

text \<open>
  \<open>compiler/rustc_serialize/src/opaque.rs\<close>: the encoders and the decoder of the compiler's metadata and caches.
  \<open>MemEncoder\<close> appends to a vector, \<open>FileEncoder\<close> goes through a fixed-size buffer to a file and delays errors,
  \<open>MemDecoder\<close> reads a slice. \<open>usize\<close> and \<open>isize\<close> are 64 bits wide; a signed integer is the word of its two's
  complement, a float its bits, a \<open>str\<close> its bytes. Writes the source does not check (spare capacity of the
  vector, the buffer) are checked here, with \<open>None\<close> outside of bounds. The file is a parameter: a type of file
  states and the function \<open>File::write\<close>; a loop that waits for it for ever has no result, which is \<open>None\<close> too.
\<close>

abbreviation STR_SENTINEL :: u8 where "STR_SENTINEL \<equiv> 0xC1"


section \<open>MemEncoder\<close>

record mem_encoder =
  enc_data :: "u8 list"

definition mem_encoder_new :: mem_encoder where
  "mem_encoder_new = \<lparr>enc_data = []\<rparr>"

definition mem_encoder_position :: "mem_encoder \<Rightarrow> nat" where
  "mem_encoder_position e = length (enc_data e)"

definition mem_encoder_finish :: "mem_encoder \<Rightarrow> u8 list" where
  "mem_encoder_finish e = enc_data e"

definition mem_write_leb128 ::
  "(u8 list \<Rightarrow> 'a::len word \<Rightarrow> (u8 list \<times> u8 list) option) \<Rightarrow> 'a word \<Rightarrow> mem_encoder \<Rightarrow> mem_encoder option" where
  "mem_write_leb128 fn v e = do {
     (encoded, _) \<leftarrow> fn (replicate (max_leb128_len LENGTH('a)) 0) v;
     Some (e\<lparr>enc_data := enc_data e @ encoded\<rparr>)
   }"

definition mem_emit_usize :: "u64 \<Rightarrow> mem_encoder \<Rightarrow> mem_encoder option" where
  "mem_emit_usize v e = mem_write_leb128 write_unsigned_leb128 v e"

definition mem_emit_u128 :: "u128 \<Rightarrow> mem_encoder \<Rightarrow> mem_encoder option" where
  "mem_emit_u128 v e = mem_write_leb128 write_unsigned_leb128 v e"

definition mem_emit_u64 :: "u64 \<Rightarrow> mem_encoder \<Rightarrow> mem_encoder option" where
  "mem_emit_u64 v e = mem_write_leb128 write_unsigned_leb128 v e"

definition mem_emit_u32 :: "u32 \<Rightarrow> mem_encoder \<Rightarrow> mem_encoder option" where
  "mem_emit_u32 v e = mem_write_leb128 write_unsigned_leb128 v e"

definition mem_emit_u16 :: "u16 \<Rightarrow> mem_encoder \<Rightarrow> mem_encoder option" where
  "mem_emit_u16 v e = Some (e\<lparr>enc_data := enc_data e @ to_le_bytes v\<rparr>)"

definition mem_emit_u8 :: "u8 \<Rightarrow> mem_encoder \<Rightarrow> mem_encoder option" where
  "mem_emit_u8 v e = Some (e\<lparr>enc_data := enc_data e @ [v]\<rparr>)"

definition mem_emit_isize :: "u64 \<Rightarrow> mem_encoder \<Rightarrow> mem_encoder option" where
  "mem_emit_isize v e = mem_write_leb128 write_signed_leb128 v e"

definition mem_emit_i128 :: "u128 \<Rightarrow> mem_encoder \<Rightarrow> mem_encoder option" where
  "mem_emit_i128 v e = mem_write_leb128 write_signed_leb128 v e"

definition mem_emit_i64 :: "u64 \<Rightarrow> mem_encoder \<Rightarrow> mem_encoder option" where
  "mem_emit_i64 v e = mem_write_leb128 write_signed_leb128 v e"

definition mem_emit_i32 :: "u32 \<Rightarrow> mem_encoder \<Rightarrow> mem_encoder option" where
  "mem_emit_i32 v e = mem_write_leb128 write_signed_leb128 v e"

definition mem_emit_i16 :: "u16 \<Rightarrow> mem_encoder \<Rightarrow> mem_encoder option" where
  "mem_emit_i16 v e = Some (e\<lparr>enc_data := enc_data e @ to_le_bytes v\<rparr>)"

definition mem_emit_i8 :: "u8 \<Rightarrow> mem_encoder \<Rightarrow> mem_encoder option" where
  "mem_emit_i8 v e = mem_emit_u8 v e"

definition mem_emit_bool :: "bool \<Rightarrow> mem_encoder \<Rightarrow> mem_encoder option" where
  "mem_emit_bool v e = mem_emit_u8 (if v then 1 else 0) e"

definition mem_emit_f64 :: "u64 \<Rightarrow> mem_encoder \<Rightarrow> mem_encoder option" where
  "mem_emit_f64 as_u64 e = mem_emit_u64 as_u64 e"

definition mem_emit_f32 :: "u32 \<Rightarrow> mem_encoder \<Rightarrow> mem_encoder option" where
  "mem_emit_f32 as_u32 e = mem_emit_u32 as_u32 e"

definition mem_emit_char :: "rchar \<Rightarrow> mem_encoder \<Rightarrow> mem_encoder option" where
  "mem_emit_char v e = mem_emit_u32 v e"

definition mem_emit_raw_bytes :: "u8 list \<Rightarrow> mem_encoder \<Rightarrow> mem_encoder option" where
  "mem_emit_raw_bytes s e = Some (e\<lparr>enc_data := enc_data e @ s\<rparr>)"

definition mem_emit_str :: "u8 list \<Rightarrow> mem_encoder \<Rightarrow> mem_encoder option" where
  "mem_emit_str v e = do {
     e \<leftarrow> mem_emit_usize (of_nat (length v)) e;
     e \<leftarrow> mem_emit_raw_bytes v e;
     mem_emit_u8 STR_SENTINEL e
   }"


section \<open>FileEncoder\<close>

datatype io_error = WriteZero | Interrupted | OtherError nat

type_synonym 'f file_write = "'f \<Rightarrow> u8 list \<Rightarrow> (nat, io_error) result \<times> 'f"

record 'f file_encoder =
  fe_buf :: "u8 list"
  buffered :: nat
  flushed :: nat
  fe_file :: 'f
  fe_res :: "(unit, io_error) result"

definition USIZE_MAX :: nat where
  "USIZE_MAX = 2 ^ 64 - 1"

definition file_encoder_with_capacity :: "('f, io_error) result \<Rightarrow> nat \<Rightarrow> ('f file_encoder, io_error) result option" where
  "file_encoder_with_capacity created cap = do {
     assert_that (cap \<ge> max_leb128_len 128);
     assert_that (cap \<le> USIZE_MAX - max_leb128_len 128);
     case created of
       Err x \<Rightarrow> Some (Err x)
     | Ok file \<Rightarrow> Some (Ok \<lparr>fe_buf = replicate cap 0, buffered = 0, flushed = 0, fe_file = file, fe_res = Ok ()\<rparr>)
   }"

definition file_encoder_new :: "('f, io_error) result \<Rightarrow> ('f file_encoder, io_error) result option" where
  "file_encoder_new created = file_encoder_with_capacity created 8192"

definition file_encoder_position :: "'f file_encoder \<Rightarrow> nat" where
  "file_encoder_position e = flushed e + buffered e"

definition file_capacity :: "'f file_encoder \<Rightarrow> nat" where
  "file_capacity e = length (fe_buf e)"

text \<open>The loop of \<open>flush\<close>: how much was written, the file, and the error that stopped it.\<close>

partial_function (option) flush_loop ::
  "'f file_write \<Rightarrow> u8 list \<Rightarrow> nat \<Rightarrow> 'f \<Rightarrow> (nat \<times> 'f \<times> io_error option) option" where
  "flush_loop w buffer n file =
     (if n \<ge> length buffer then Some (n, file, None)
      else case w file (drop n buffer) of
        (Ok k, file) \<Rightarrow> if k = 0 then Some (n, file, Some WriteZero) else flush_loop w buffer (n + k) file
      | (Err x, file) \<Rightarrow> if x = Interrupted then flush_loop w buffer n file else Some (n, file, Some x))"

text \<open>\<open>drop\<close> of the guard: what was written leaves the front of the buffer.\<close>

definition drop_guard :: "nat \<Rightarrow> 'f file_encoder \<Rightarrow> 'f file_encoder option" where
  "drop_guard n e =
     (if n > 0 then
        (if n \<ge> buffered e then Some (e\<lparr>flushed := flushed e + buffered e, buffered := 0\<rparr>)
         else do {
           left \<leftarrow> checked_sub (buffered e) n;
           Some (e\<lparr>fe_buf := drop n (take (buffered e) (fe_buf e)) @ drop left (fe_buf e),
                   flushed := flushed e + n, buffered := left\<rparr>)
         })
      else Some e)"

definition flush :: "'f file_write \<Rightarrow> 'f file_encoder \<Rightarrow> 'f file_encoder option" where
  "flush w e = (case fe_res e of
     Err _ \<Rightarrow> Some e
   | Ok _ \<Rightarrow> do {
       buffer \<leftarrow> slice (fe_buf e) 0 (buffered e);
       assert_that (length buffer = buffered e);
       (n, file, err) \<leftarrow> flush_loop w buffer 0 (fe_file e);
       drop_guard n (e\<lparr>fe_file := file, fe_res := (case err of None \<Rightarrow> Ok () | Some x \<Rightarrow> Err x)\<rparr>)
     })"

definition write_one :: "'f file_write \<Rightarrow> u8 \<Rightarrow> 'f file_encoder \<Rightarrow> 'f file_encoder option" where
  "write_one w v e = do {
     assert_that (file_capacity e \<ge> 1);
     (e, n) \<leftarrow> (if buffered e \<ge> file_capacity e then do { e \<leftarrow> flush w e; Some (e, 0) } else Some (e, buffered e));
     buf \<leftarrow> store_at (fe_buf e) n v;
     Some (e\<lparr>fe_buf := buf, buffered := n + 1\<rparr>)
   }"

partial_function (option) unbuffered_loop ::
  "'f file_write \<Rightarrow> u8 list \<Rightarrow> 'f file_encoder \<Rightarrow> 'f file_encoder option" where
  "unbuffered_loop w buf e =
     (if buf = [] then Some e
      else case w (fe_file e) buf of
        (Ok n, file) \<Rightarrow>
          if n = 0 then Some (e\<lparr>fe_file := file, fe_res := Err WriteZero\<rparr>)
          else if n \<le> length buf then unbuffered_loop w (drop n buf) (e\<lparr>fe_file := file, flushed := flushed e + n\<rparr>)
          else None
      | (Err x, file) \<Rightarrow>
          if x = Interrupted then unbuffered_loop w buf (e\<lparr>fe_file := file\<rparr>)
          else Some (e\<lparr>fe_file := file, fe_res := Err x\<rparr>))"

definition write_all_unbuffered :: "'f file_write \<Rightarrow> u8 list \<Rightarrow> 'f file_encoder \<Rightarrow> 'f file_encoder option" where
  "write_all_unbuffered w buf e = (case fe_res e of
     Err _ \<Rightarrow> Some e
   | Ok _ \<Rightarrow> do {
       e \<leftarrow> (if buffered e > 0 then flush w e else Some e);
       unbuffered_loop w buf e
     })"

text \<open>\<open>ptr::copy_nonoverlapping\<close> into the buffer.\<close>

definition copy_at :: "nat \<Rightarrow> u8 list \<Rightarrow> u8 list \<Rightarrow> u8 list option" where
  "copy_at n src dst =
     (if n + length src \<le> length dst then Some (take n dst @ src @ drop (n + length src) dst) else None)"

definition write_all :: "'f file_write \<Rightarrow> u8 list \<Rightarrow> 'f file_encoder \<Rightarrow> 'f file_encoder option" where
  "write_all w buf e =
     (if length buf \<le> file_capacity e then do {
        room \<leftarrow> checked_sub (file_capacity e) (buffered e);
        (e, n) \<leftarrow> (if length buf > room then do { e \<leftarrow> flush w e; Some (e, 0) } else Some (e, buffered e));
        dst \<leftarrow> copy_at n buf (fe_buf e);
        Some (e\<lparr>fe_buf := dst, buffered := n + length buf\<rparr>)
      }
      else write_all_unbuffered w buf e)"

text \<open>\<open>finish\<close> takes the encoder by value: it is dropped at the end, and dropping flushes again.\<close>

definition file_encoder_finish :: "'f file_write \<Rightarrow> 'f file_encoder \<Rightarrow> ((nat, io_error) result \<times> 'f) option" where
  "file_encoder_finish w e = do {
     e \<leftarrow> flush w e;
     let r = (case fe_res e of Ok _ \<Rightarrow> Ok (file_encoder_position e) | Err x \<Rightarrow> Err x);
     e \<leftarrow> flush w (e\<lparr>fe_res := Ok ()\<rparr>);
     Some (r, fe_file e)
   }"

definition file_write_leb128 ::
  "'f file_write \<Rightarrow> (u8 list \<Rightarrow> 'a::len word \<Rightarrow> (u8 list \<times> u8 list) option) \<Rightarrow> 'a word \<Rightarrow> 'f file_encoder \<Rightarrow> 'f file_encoder option" where
  "file_write_leb128 w fn v e = do {
     let max_len = max_leb128_len LENGTH('a);
     assert_that (file_capacity e \<ge> max_len);
     (e, n) \<leftarrow> (if buffered e + max_len > file_capacity e then do { e \<leftarrow> flush w e; Some (e, 0) } else Some (e, buffered e));
     out \<leftarrow> slice (fe_buf e) n (n + max_len);
     (encoded, out) \<leftarrow> fn out v;
     buf \<leftarrow> copy_at n out (fe_buf e);
     Some (e\<lparr>fe_buf := buf, buffered := n + length encoded\<rparr>)
   }"

definition file_emit_usize :: "'f file_write \<Rightarrow> u64 \<Rightarrow> 'f file_encoder \<Rightarrow> 'f file_encoder option" where
  "file_emit_usize w v e = file_write_leb128 w write_unsigned_leb128 v e"

definition file_emit_u128 :: "'f file_write \<Rightarrow> u128 \<Rightarrow> 'f file_encoder \<Rightarrow> 'f file_encoder option" where
  "file_emit_u128 w v e = file_write_leb128 w write_unsigned_leb128 v e"

definition file_emit_u64 :: "'f file_write \<Rightarrow> u64 \<Rightarrow> 'f file_encoder \<Rightarrow> 'f file_encoder option" where
  "file_emit_u64 w v e = file_write_leb128 w write_unsigned_leb128 v e"

definition file_emit_u32 :: "'f file_write \<Rightarrow> u32 \<Rightarrow> 'f file_encoder \<Rightarrow> 'f file_encoder option" where
  "file_emit_u32 w v e = file_write_leb128 w write_unsigned_leb128 v e"

definition file_emit_u16 :: "'f file_write \<Rightarrow> u16 \<Rightarrow> 'f file_encoder \<Rightarrow> 'f file_encoder option" where
  "file_emit_u16 w v e = write_all w (to_le_bytes v) e"

definition file_emit_u8 :: "'f file_write \<Rightarrow> u8 \<Rightarrow> 'f file_encoder \<Rightarrow> 'f file_encoder option" where
  "file_emit_u8 w v e = write_one w v e"

definition file_emit_isize :: "'f file_write \<Rightarrow> u64 \<Rightarrow> 'f file_encoder \<Rightarrow> 'f file_encoder option" where
  "file_emit_isize w v e = file_write_leb128 w write_signed_leb128 v e"

definition file_emit_i128 :: "'f file_write \<Rightarrow> u128 \<Rightarrow> 'f file_encoder \<Rightarrow> 'f file_encoder option" where
  "file_emit_i128 w v e = file_write_leb128 w write_signed_leb128 v e"

definition file_emit_i64 :: "'f file_write \<Rightarrow> u64 \<Rightarrow> 'f file_encoder \<Rightarrow> 'f file_encoder option" where
  "file_emit_i64 w v e = file_write_leb128 w write_signed_leb128 v e"

definition file_emit_i32 :: "'f file_write \<Rightarrow> u32 \<Rightarrow> 'f file_encoder \<Rightarrow> 'f file_encoder option" where
  "file_emit_i32 w v e = file_write_leb128 w write_signed_leb128 v e"

definition file_emit_i16 :: "'f file_write \<Rightarrow> u16 \<Rightarrow> 'f file_encoder \<Rightarrow> 'f file_encoder option" where
  "file_emit_i16 w v e = write_all w (to_le_bytes v) e"

definition file_emit_i8 :: "'f file_write \<Rightarrow> u8 \<Rightarrow> 'f file_encoder \<Rightarrow> 'f file_encoder option" where
  "file_emit_i8 w v e = file_emit_u8 w v e"

definition file_emit_bool :: "'f file_write \<Rightarrow> bool \<Rightarrow> 'f file_encoder \<Rightarrow> 'f file_encoder option" where
  "file_emit_bool w v e = file_emit_u8 w (if v then 1 else 0) e"

definition file_emit_f64 :: "'f file_write \<Rightarrow> u64 \<Rightarrow> 'f file_encoder \<Rightarrow> 'f file_encoder option" where
  "file_emit_f64 w as_u64 e = file_emit_u64 w as_u64 e"

definition file_emit_f32 :: "'f file_write \<Rightarrow> u32 \<Rightarrow> 'f file_encoder \<Rightarrow> 'f file_encoder option" where
  "file_emit_f32 w as_u32 e = file_emit_u32 w as_u32 e"

definition file_emit_char :: "'f file_write \<Rightarrow> rchar \<Rightarrow> 'f file_encoder \<Rightarrow> 'f file_encoder option" where
  "file_emit_char w v e = file_emit_u32 w v e"

definition file_emit_raw_bytes :: "'f file_write \<Rightarrow> u8 list \<Rightarrow> 'f file_encoder \<Rightarrow> 'f file_encoder option" where
  "file_emit_raw_bytes w s e = write_all w s e"

definition file_emit_str :: "'f file_write \<Rightarrow> u8 list \<Rightarrow> 'f file_encoder \<Rightarrow> 'f file_encoder option" where
  "file_emit_str w v e = do {
     e \<leftarrow> file_emit_usize w (of_nat (length v)) e;
     e \<leftarrow> file_emit_raw_bytes w v e;
     file_emit_u8 w STR_SENTINEL e
   }"


section \<open>MemDecoder\<close>

record mem_decoder =
  dec_data :: "u8 list"
  dec_position :: nat

definition mem_decoder_new :: "u8 list \<Rightarrow> nat \<Rightarrow> mem_decoder" where
  "mem_decoder_new data n = \<lparr>dec_data = data, dec_position = n\<rparr>"

definition set_position :: "nat \<Rightarrow> mem_decoder \<Rightarrow> mem_decoder" where
  "set_position n d = d\<lparr>dec_position := n\<rparr>"

definition decoder_advance :: "nat \<Rightarrow> mem_decoder \<Rightarrow> mem_decoder" where
  "decoder_advance n d = d\<lparr>dec_position := dec_position d + n\<rparr>"

definition read_leb128 ::
  "(u8 list \<Rightarrow> nat \<Rightarrow> ('a::len word \<times> nat) option) \<Rightarrow> mem_decoder \<Rightarrow> ('a word \<times> mem_decoder) option" where
  "read_leb128 fn d = do {
     (v, n) \<leftarrow> fn (dec_data d) (dec_position d);
     Some (v, d\<lparr>dec_position := n\<rparr>)
   }"

definition read_u128 :: "mem_decoder \<Rightarrow> (u128 \<times> mem_decoder) option" where
  "read_u128 d = read_leb128 read_unsigned_leb128 d"

definition read_u64 :: "mem_decoder \<Rightarrow> (u64 \<times> mem_decoder) option" where
  "read_u64 d = read_leb128 read_unsigned_leb128 d"

definition read_u32 :: "mem_decoder \<Rightarrow> (u32 \<times> mem_decoder) option" where
  "read_u32 d = read_leb128 read_unsigned_leb128 d"

definition read_u16 :: "mem_decoder \<Rightarrow> (u16 \<times> mem_decoder) option" where
  "read_u16 d = do {
     b0 \<leftarrow> index_at (dec_data d) (dec_position d);
     b1 \<leftarrow> index_at (dec_data d) (dec_position d + 1);
     Some (from_le_bytes [b0, b1], d\<lparr>dec_position := dec_position d + 2\<rparr>)
   }"

definition read_u8 :: "mem_decoder \<Rightarrow> (u8 \<times> mem_decoder) option" where
  "read_u8 d = do {
     v \<leftarrow> index_at (dec_data d) (dec_position d);
     Some (v, d\<lparr>dec_position := dec_position d + 1\<rparr>)
   }"

definition read_usize :: "mem_decoder \<Rightarrow> (u64 \<times> mem_decoder) option" where
  "read_usize d = read_leb128 read_unsigned_leb128 d"

definition read_i128 :: "mem_decoder \<Rightarrow> (u128 \<times> mem_decoder) option" where
  "read_i128 d = read_leb128 read_signed_leb128 d"

definition read_i64 :: "mem_decoder \<Rightarrow> (u64 \<times> mem_decoder) option" where
  "read_i64 d = read_leb128 read_signed_leb128 d"

definition read_i32 :: "mem_decoder \<Rightarrow> (u32 \<times> mem_decoder) option" where
  "read_i32 d = read_leb128 read_signed_leb128 d"

definition read_i16 :: "mem_decoder \<Rightarrow> (u16 \<times> mem_decoder) option" where
  "read_i16 d = do {
     b0 \<leftarrow> index_at (dec_data d) (dec_position d);
     b1 \<leftarrow> index_at (dec_data d) (dec_position d + 1);
     Some (from_le_bytes [b0, b1], d\<lparr>dec_position := dec_position d + 2\<rparr>)
   }"

definition read_i8 :: "mem_decoder \<Rightarrow> (u8 \<times> mem_decoder) option" where
  "read_i8 d = do {
     v \<leftarrow> index_at (dec_data d) (dec_position d);
     Some (v, d\<lparr>dec_position := dec_position d + 1\<rparr>)
   }"

definition read_isize :: "mem_decoder \<Rightarrow> (u64 \<times> mem_decoder) option" where
  "read_isize d = read_leb128 read_signed_leb128 d"

definition read_bool :: "mem_decoder \<Rightarrow> (bool \<times> mem_decoder) option" where
  "read_bool d = do { (v, d) \<leftarrow> read_u8 d; Some (v \<noteq> 0, d) }"

definition read_f64 :: "mem_decoder \<Rightarrow> (u64 \<times> mem_decoder) option" where
  "read_f64 d = do { (bits, d) \<leftarrow> read_u64 d; Some (bits, d) }"

definition read_f32 :: "mem_decoder \<Rightarrow> (u32 \<times> mem_decoder) option" where
  "read_f32 d = do { (bits, d) \<leftarrow> read_u32 d; Some (bits, d) }"

definition read_char :: "mem_decoder \<Rightarrow> (rchar \<times> mem_decoder) option" where
  "read_char d = do { (bits, d) \<leftarrow> read_u32 d; c \<leftarrow> char_try_from_u32 bits; Some (c, d) }"

definition read_raw_bytes :: "nat \<Rightarrow> mem_decoder \<Rightarrow> (u8 list \<times> mem_decoder) option" where
  "read_raw_bytes n d = do {
     s \<leftarrow> slice (dec_data d) (dec_position d) (dec_position d + n);
     Some (s, d\<lparr>dec_position := dec_position d + n\<rparr>)
   }"

definition read_str :: "mem_decoder \<Rightarrow> (u8 list \<times> mem_decoder) option" where
  "read_str d = do {
     (n, d) \<leftarrow> read_usize d;
     let len = unat n;
     sentinel \<leftarrow> index_at (dec_data d) (dec_position d + len);
     assert_that (sentinel = STR_SENTINEL);
     s \<leftarrow> slice (dec_data d) (dec_position d) (dec_position d + len);
     Some (s, d\<lparr>dec_position := dec_position d + (len + 1)\<rparr>)
   }"


section \<open>Byte slices and integers of fixed size\<close>

definition mem_encode_bytes :: "u8 list \<Rightarrow> mem_encoder \<Rightarrow> mem_encoder option" where
  "mem_encode_bytes s e = do { e \<leftarrow> mem_emit_usize (of_nat (length s)) e; mem_emit_raw_bytes s e }"

definition file_encode_bytes :: "'f file_write \<Rightarrow> u8 list \<Rightarrow> 'f file_encoder \<Rightarrow> 'f file_encoder option" where
  "file_encode_bytes w s e = do { e \<leftarrow> file_emit_usize w (of_nat (length s)) e; file_emit_raw_bytes w s e }"

definition decode_bytes :: "mem_decoder \<Rightarrow> (u8 list \<times> mem_decoder) option" where
  "decode_bytes d = do { (len, d) \<leftarrow> read_usize d; read_raw_bytes (unat len) d }"

abbreviation ENCODED_SIZE :: nat where "ENCODED_SIZE \<equiv> 8"

definition mem_encode_fixed :: "u64 \<Rightarrow> mem_encoder \<Rightarrow> mem_encoder option" where
  "mem_encode_fixed v e = do {
     let start_pos = mem_encoder_position e;
     e \<leftarrow> mem_emit_raw_bytes (to_le_bytes v) e;
     n \<leftarrow> checked_sub (mem_encoder_position e) start_pos;
     assert_that (n = ENCODED_SIZE);
     Some e
   }"

definition file_encode_fixed :: "'f file_write \<Rightarrow> u64 \<Rightarrow> 'f file_encoder \<Rightarrow> 'f file_encoder option" where
  "file_encode_fixed w v e = do {
     let start_pos = file_encoder_position e;
     e \<leftarrow> file_emit_raw_bytes w (to_le_bytes v) e;
     n \<leftarrow> checked_sub (file_encoder_position e) start_pos;
     assert_that (n = ENCODED_SIZE);
     Some e
   }"

definition decode_fixed :: "mem_decoder \<Rightarrow> (u64 \<times> mem_decoder) option" where
  "decode_fixed d = do {
     let start_pos = dec_position d;
     (bytes, d) \<leftarrow> read_raw_bytes ENCODED_SIZE d;
     assert_that (length bytes = 8);
     let v = from_le_bytes bytes;
     n \<leftarrow> checked_sub (dec_position d) start_pos;
     assert_that (n = ENCODED_SIZE);
     Some (v, d)
   }"

end
