(* ===== verification/Opaque_Proofs.thy ===== *)
theory Opaque_Proofs
  imports Opaque
begin

text \<open>
  What the encoders and the decoder of theory \<open>Opaque\<close> guarantee. The LEB128 codecs enter through the locale
  \<open>leb_codec\<close>, interpreted at every width and signedness the encoders use, the file through the locale
  \<open>file_laws\<close>; every call of the \<open>Encoder\<close> trait is a value of \<open>emit\<close>, so that sequences of calls can be compared
  between the two encoders and read back by the decoder.
\<close>

section \<open>The codecs as an interface\<close>

locale leb_codec =
  fixes wr :: "u8 list \<Rightarrow> 'a::len word \<Rightarrow> (u8 list \<times> u8 list) option"
    and rd :: "u8 list \<Rightarrow> nat \<Rightarrow> ('a word \<times> nat) option"
    and enc :: "'a word \<Rightarrow> u8 list"
  assumes writes: "length out = max_leb128_len LENGTH('a) \<Longrightarrow>
      \<exists>out'. wr out v = Some (enc v, out') \<and> length out' = length out \<and> take (length (enc v)) out' = enc v"
    and enc_length: "length (enc v) \<le> max_leb128_len LENGTH('a)"
    and reads: "rd (pre @ enc v @ rest) (length pre) = Some (v, length pre + length (enc v))"
begin

lemma mem_write: "mem_write_leb128 wr v e = Some (e\<lparr>enc_data := enc_data e @ enc v\<rparr>)"
  using writes [of "replicate (max_leb128_len LENGTH('a)) 0" v] by (auto simp: mem_write_leb128_def)

lemma decode: "read_leb128 rd \<lparr>dec_data = pre @ enc v @ rest, dec_position = length pre\<rparr> =
    Some (v, \<lparr>dec_data = pre @ enc v @ rest, dec_position = length pre + length (enc v)\<rparr>)"
  using reads [of pre v rest] by (simp add: read_leb128_def)

end

text \<open>The bytes an integer is written as do not depend on what the output array held.\<close>

definition uleb :: "'a::len word \<Rightarrow> u8 list" where
  "uleb v = (case write_unsigned_leb128 (replicate (max_leb128_len LENGTH('a)) 0) v of Some (bs, _) \<Rightarrow> bs | None \<Rightarrow> [])"

definition sleb :: "'a::len word \<Rightarrow> u8 list" where
  "sleb v = (case write_signed_leb128 (replicate (max_leb128_len LENGTH('a)) 0) v of Some (bs, _) \<Rightarrow> bs | None \<Rightarrow> [])"

lemma write_unsigned_loop_length:
  "length out = length out2 \<Longrightarrow> map_option snd (write_unsigned_loop out i v) = map_option snd (write_unsigned_loop out2 i v)"
proof (induction out i v arbitrary: out2 rule: write_unsigned_loop.induct)
  case (1 out i v)
  show ?case
  proof (cases "i < length out")
    case True
    then show ?thesis using 1(2) 1(1) [of _ "out2[i := ucast ((v AND 0x7f) OR 0x80)]"]
      by (subst (1 2) write_unsigned_loop.simps) simp
  next
    case False
    then show ?thesis using 1(2) by (subst (1 2) write_unsigned_loop.simps) simp
  qed
qed

lemma write_signed_loop_length:
  fixes v :: "'a::len word"
  shows "length out = length out2 \<Longrightarrow> map_option snd (write_signed_loop out i v) = map_option snd (write_signed_loop out2 i v)"
proof (induction "length out - i" arbitrary: out out2 i v rule: less_induct)
  case less
  show ?case
  proof (cases "i < length out")
    case True
    have ih: "map_option snd (write_signed_loop (out[i := b]) (Suc i) u) = map_option snd (write_signed_loop (out2[i := b]) (Suc i) u)"
      for b and u :: "'a word"
      using less(1) [of "out[i := b]" "Suc i" "out2[i := b]" u] less(2) True by simp
    show ?thesis using True less(2) by (subst (1 2) write_signed_loop.simps) (simp add: Let_def ih)
  next
    case False
    then show ?thesis using less(2) by (subst (1 2) write_signed_loop.simps) (simp add: Let_def)
  qed
qed

lemma uleb_write:
  fixes v :: "'a::len word"
  assumes "8 \<le> LENGTH('a)" "length out = max_leb128_len LENGTH('a)"
  shows "\<exists>out'. write_unsigned_leb128 out v = Some (uleb v, out') \<and> length out' = length out \<and> take (length (uleb v)) out' = uleb v"
proof -
  let ?f = "\<lambda>j. drop_bit (7 * j) v" and ?z = "replicate (max_leb128_len LENGTH('a)) (0 :: u8)"
  obtain n out' where n: "write_unsigned_loop out 0 v = Some (out', n)" "encodes out out' 0 n ?f"
    using write_unsigned_loop_spec [OF assms, of 0 v] by auto
  obtain m z' where m: "write_unsigned_loop ?z 0 v = Some (z', m)" "encodes ?z z' 0 m ?f"
    using write_unsigned_loop_spec [OF assms(1), of ?z 0 v] by auto
  have "m = n" using write_unsigned_loop_length [of out ?z 0 v] n(1) m(1) assms(2) by simp
  with encodes_take [OF n(2)] encodes_take [OF m(2)] n m show ?thesis
    by (simp add: write_unsigned_leb128_def uleb_def encodes_def leb_bytes_def)
qed

lemma sleb_write:
  fixes v :: "'a::len word"
  assumes "7 \<le> LENGTH('a)" "length out = max_leb128_len LENGTH('a)"
  shows "\<exists>out'. write_signed_leb128 out v = Some (sleb v, out') \<and> length out' = length out \<and> take (length (sleb v)) out' = sleb v"
proof -
  let ?f = "\<lambda>j. signed_drop_bit (7 * j) v" and ?z = "replicate (max_leb128_len LENGTH('a)) (0 :: u8)"
  obtain n out' where n: "write_signed_loop out 0 v = Some (out', n)" "encodes out out' 0 n ?f"
    using write_signed_loop_spec [OF assms, of 0 v] by auto
  obtain m z' where m: "write_signed_loop ?z 0 v = Some (z', m)" "encodes ?z z' 0 m ?f"
    using write_signed_loop_spec [OF assms(1), of ?z 0 v] by auto
  have "m = n" using write_signed_loop_length [of out ?z 0 v] n(1) m(1) assms(2) by simp
  with encodes_take [OF n(2)] encodes_take [OF m(2)] n m show ?thesis
    by (simp add: write_signed_leb128_def sleb_def encodes_def leb_bytes_def)
qed

lemma unsigned_leb_codec:
  assumes "8 \<le> LENGTH('a)"
  shows "leb_codec (write_unsigned_leb128 :: _ \<Rightarrow> 'a::len word \<Rightarrow> _) read_unsigned_leb128 uleb"
proof
  fix out pre rest :: "u8 list" and v :: "'a word"
  show "\<exists>out'. write_unsigned_leb128 out v = Some (uleb v, out') \<and> length out' = length out \<and> take (length (uleb v)) out' = uleb v"
    if "length out = max_leb128_len LENGTH('a)" using uleb_write [OF assms that] .
  obtain bs z where z: "write_unsigned_leb128 (replicate (max_leb128_len LENGTH('a)) 0) v = Some (bs, z)"
      "length bs \<le> max_leb128_len LENGTH('a)"
      "read_unsigned_leb128 (pre @ bs @ rest) (length pre) = Some (v, length pre + length bs)"
    using write_unsigned_leb128_spec [OF assms, of "replicate (max_leb128_len LENGTH('a)) 0" v] by auto
  then show "length (uleb v) \<le> max_leb128_len LENGTH('a)"
    and "read_unsigned_leb128 (pre @ uleb v @ rest) (length pre) = Some (v, length pre + length (uleb v))"
    by (simp_all add: uleb_def)
qed

lemma signed_leb_codec:
  assumes "7 \<le> LENGTH('a)"
  shows "leb_codec (write_signed_leb128 :: _ \<Rightarrow> 'a::len word \<Rightarrow> _) read_signed_leb128 sleb"
proof
  fix out pre rest :: "u8 list" and v :: "'a word"
  show "\<exists>out'. write_signed_leb128 out v = Some (sleb v, out') \<and> length out' = length out \<and> take (length (sleb v)) out' = sleb v"
    if "length out = max_leb128_len LENGTH('a)" using sleb_write [OF assms that] .
  obtain bs z where z: "write_signed_leb128 (replicate (max_leb128_len LENGTH('a)) 0) v = Some (bs, z)"
      "length bs \<le> max_leb128_len LENGTH('a)"
      "read_signed_leb128 (pre @ bs @ rest) (length pre) = Some (v, length pre + length bs)"
    using write_signed_leb128_spec [OF assms, of "replicate (max_leb128_len LENGTH('a)) 0" v] by auto
  then show "length (sleb v) \<le> max_leb128_len LENGTH('a)"
    and "read_signed_leb128 (pre @ sleb v @ rest) (length pre) = Some (v, length pre + length (sleb v))"
    by (simp_all add: sleb_def)
qed

interpretation leb_u32: leb_codec "write_unsigned_leb128 :: _ \<Rightarrow> u32 \<Rightarrow> _" read_unsigned_leb128 uleb
  by (rule unsigned_leb_codec) simp

interpretation leb_u64: leb_codec "write_unsigned_leb128 :: _ \<Rightarrow> u64 \<Rightarrow> _" read_unsigned_leb128 uleb
  by (rule unsigned_leb_codec) simp

interpretation leb_u128: leb_codec "write_unsigned_leb128 :: _ \<Rightarrow> u128 \<Rightarrow> _" read_unsigned_leb128 uleb
  by (rule unsigned_leb_codec) simp

interpretation leb_i32: leb_codec "write_signed_leb128 :: _ \<Rightarrow> u32 \<Rightarrow> _" read_signed_leb128 sleb
  by (rule signed_leb_codec) simp

interpretation leb_i64: leb_codec "write_signed_leb128 :: _ \<Rightarrow> u64 \<Rightarrow> _" read_signed_leb128 sleb
  by (rule signed_leb_codec) simp

interpretation leb_i128: leb_codec "write_signed_leb128 :: _ \<Rightarrow> u128 \<Rightarrow> _" read_signed_leb128 sleb
  by (rule signed_leb_codec) simp

lemma le_bytes_16: "to_le_bytes (v :: u16) = [ucast v, ucast (drop_bit 8 v)]"
  by (simp add: to_le_bytes_def upt_rec)

lemma le_bytes_roundtrip_16: "from_le_bytes (to_le_bytes v) = (v :: u16)"
proof -
  have "ucast (ucast v :: u8) OR push_bit 8 (ucast (ucast (drop_bit 8 v) :: u8)) = v"
    by (rule bit_word_eqI) (auto simp: bit_or_iff bit_push_bit_iff bit_ucast_iff bit_drop_bit_eq)
  then show ?thesis by (simp add: le_bytes_16)
qed


section \<open>Sequences of calls\<close>

text \<open>One call of an \<open>Encoder\<close> method with its argument; \<open>Bytes\<close> is \<open>Encodable\<close> for \<open>[u8]\<close>.\<close>

datatype emit =
    Usize u64 | U128 u128 | U64 u64 | U32 u32 | U16 u16 | U8 u8
  | Isize u64 | I128 u128 | I64 u64 | I32 u32 | I16 u16 | I8 u8
  | BoolV bool | F64 u64 | F32 u32 | CharV rchar | StrV "u8 list" | RawBytes "u8 list" | Bytes "u8 list"

fun mem_emit :: "emit \<Rightarrow> mem_encoder \<Rightarrow> mem_encoder option" where
  "mem_emit (Usize v) = mem_emit_usize v"
| "mem_emit (U128 v) = mem_emit_u128 v"
| "mem_emit (U64 v) = mem_emit_u64 v"
| "mem_emit (U32 v) = mem_emit_u32 v"
| "mem_emit (U16 v) = mem_emit_u16 v"
| "mem_emit (U8 v) = mem_emit_u8 v"
| "mem_emit (Isize v) = mem_emit_isize v"
| "mem_emit (I128 v) = mem_emit_i128 v"
| "mem_emit (I64 v) = mem_emit_i64 v"
| "mem_emit (I32 v) = mem_emit_i32 v"
| "mem_emit (I16 v) = mem_emit_i16 v"
| "mem_emit (I8 v) = mem_emit_i8 v"
| "mem_emit (BoolV v) = mem_emit_bool v"
| "mem_emit (F64 v) = mem_emit_f64 v"
| "mem_emit (F32 v) = mem_emit_f32 v"
| "mem_emit (CharV v) = mem_emit_char v"
| "mem_emit (StrV v) = mem_emit_str v"
| "mem_emit (RawBytes v) = mem_emit_raw_bytes v"
| "mem_emit (Bytes v) = mem_encode_bytes v"

fun file_emit :: "'f file_write \<Rightarrow> emit \<Rightarrow> 'f file_encoder \<Rightarrow> 'f file_encoder option" where
  "file_emit w (Usize v) = file_emit_usize w v"
| "file_emit w (U128 v) = file_emit_u128 w v"
| "file_emit w (U64 v) = file_emit_u64 w v"
| "file_emit w (U32 v) = file_emit_u32 w v"
| "file_emit w (U16 v) = file_emit_u16 w v"
| "file_emit w (U8 v) = file_emit_u8 w v"
| "file_emit w (Isize v) = file_emit_isize w v"
| "file_emit w (I128 v) = file_emit_i128 w v"
| "file_emit w (I64 v) = file_emit_i64 w v"
| "file_emit w (I32 v) = file_emit_i32 w v"
| "file_emit w (I16 v) = file_emit_i16 w v"
| "file_emit w (I8 v) = file_emit_i8 w v"
| "file_emit w (BoolV v) = file_emit_bool w v"
| "file_emit w (F64 v) = file_emit_f64 w v"
| "file_emit w (F32 v) = file_emit_f32 w v"
| "file_emit w (CharV v) = file_emit_char w v"
| "file_emit w (StrV v) = file_emit_str w v"
| "file_emit w (RawBytes v) = file_emit_raw_bytes w v"
| "file_emit w (Bytes v) = file_encode_bytes w v"

text \<open>Reading back the type of value a call emitted.\<close>

fun mem_read :: "emit \<Rightarrow> mem_decoder \<Rightarrow> (emit \<times> mem_decoder) option" where
  "mem_read (Usize _) d = map_option (map_prod Usize id) (read_usize d)"
| "mem_read (U128 _) d = map_option (map_prod U128 id) (read_u128 d)"
| "mem_read (U64 _) d = map_option (map_prod U64 id) (read_u64 d)"
| "mem_read (U32 _) d = map_option (map_prod U32 id) (read_u32 d)"
| "mem_read (U16 _) d = map_option (map_prod U16 id) (read_u16 d)"
| "mem_read (U8 _) d = map_option (map_prod U8 id) (read_u8 d)"
| "mem_read (Isize _) d = map_option (map_prod Isize id) (read_isize d)"
| "mem_read (I128 _) d = map_option (map_prod I128 id) (read_i128 d)"
| "mem_read (I64 _) d = map_option (map_prod I64 id) (read_i64 d)"
| "mem_read (I32 _) d = map_option (map_prod I32 id) (read_i32 d)"
| "mem_read (I16 _) d = map_option (map_prod I16 id) (read_i16 d)"
| "mem_read (I8 _) d = map_option (map_prod I8 id) (read_i8 d)"
| "mem_read (BoolV _) d = map_option (map_prod BoolV id) (read_bool d)"
| "mem_read (F64 _) d = map_option (map_prod F64 id) (read_f64 d)"
| "mem_read (F32 _) d = map_option (map_prod F32 id) (read_f32 d)"
| "mem_read (CharV _) d = map_option (map_prod CharV id) (read_char d)"
| "mem_read (StrV _) d = map_option (map_prod StrV id) (read_str d)"
| "mem_read (RawBytes v) d = map_option (map_prod RawBytes id) (read_raw_bytes (length v) d)"
| "mem_read (Bytes _) d = map_option (map_prod Bytes id) (decode_bytes d)"

text \<open>What the type system guarantees: a \<open>char\<close> is a scalar value, a slice is at most \<open>isize::MAX\<close> bytes long.\<close>

fun valid_emit :: "emit \<Rightarrow> bool" where
  "valid_emit (CharV c) = is_scalar c"
| "valid_emit (StrV v) = (length v < 2 ^ 63)"
| "valid_emit (RawBytes v) = (length v < 2 ^ 63)"
| "valid_emit (Bytes v) = (length v < 2 ^ 63)"
| "valid_emit _ = True"

fun emit_bytes :: "emit \<Rightarrow> u8 list" where
  "emit_bytes (Usize v) = uleb v"
| "emit_bytes (U128 v) = uleb v"
| "emit_bytes (U64 v) = uleb v"
| "emit_bytes (U32 v) = uleb v"
| "emit_bytes (U16 v) = to_le_bytes v"
| "emit_bytes (U8 v) = [v]"
| "emit_bytes (Isize v) = sleb v"
| "emit_bytes (I128 v) = sleb v"
| "emit_bytes (I64 v) = sleb v"
| "emit_bytes (I32 v) = sleb v"
| "emit_bytes (I16 v) = to_le_bytes v"
| "emit_bytes (I8 v) = [v]"
| "emit_bytes (BoolV v) = [if v then 1 else 0]"
| "emit_bytes (F64 v) = uleb v"
| "emit_bytes (F32 v) = uleb v"
| "emit_bytes (CharV v) = uleb v"
| "emit_bytes (StrV v) = uleb (of_nat (length v) :: u64) @ v @ [STR_SENTINEL]"
| "emit_bytes (RawBytes v) = v"
| "emit_bytes (Bytes v) = uleb (of_nat (length v) :: u64) @ v"

fun emit_all :: "(emit \<Rightarrow> 's \<Rightarrow> 's option) \<Rightarrow> emit list \<Rightarrow> 's \<Rightarrow> 's option" where
  "emit_all f [] s = Some s"
| "emit_all f (op # ops) s = do { s \<leftarrow> f op s; emit_all f ops s }"

fun read_all :: "emit list \<Rightarrow> mem_decoder \<Rightarrow> (emit list \<times> mem_decoder) option" where
  "read_all [] d = Some ([], d)"
| "read_all (op # ops) d = do {
     (v, d) \<leftarrow> mem_read op d;
     (vs, d) \<leftarrow> read_all ops d;
     Some (v # vs, d)
   }"


section \<open>MemEncoder and MemDecoder\<close>

lemmas mem_emit_defs = mem_emit_usize_def mem_emit_u128_def mem_emit_u64_def mem_emit_u32_def mem_emit_u16_def
  mem_emit_u8_def mem_emit_isize_def mem_emit_i128_def mem_emit_i64_def mem_emit_i32_def mem_emit_i16_def
  mem_emit_i8_def mem_emit_bool_def mem_emit_f64_def mem_emit_f32_def mem_emit_char_def mem_emit_raw_bytes_def
  mem_emit_str_def mem_encode_bytes_def

lemmas mem_writes = leb_u32.mem_write leb_u64.mem_write leb_u128.mem_write leb_i32.mem_write leb_i64.mem_write leb_i128.mem_write

lemmas read_defs = read_usize_def read_u128_def read_u64_def read_u32_def read_isize_def read_i128_def read_i64_def
  read_i32_def

lemmas decodes = leb_u32.decode leb_u64.decode leb_u128.decode leb_i32.decode leb_i64.decode leb_i128.decode

lemma mem_emit_spec: "mem_emit op e = Some (e\<lparr>enc_data := enc_data e @ emit_bytes op\<rparr>)"
  by (cases op) (simp_all add: mem_emit_defs mem_writes)

lemma mem_emit_all: "emit_all mem_emit ops e = Some (e\<lparr>enc_data := enc_data e @ concat (map emit_bytes ops)\<rparr>)"
  by (induction ops arbitrary: e) (simp_all add: mem_emit_spec)

lemma slice_middle: "slice (pre @ s @ rest) (length pre) (length pre + length s) = Some s"
  by (simp add: slice_def)

lemma unat_length: "length v < 2 ^ 63 \<Longrightarrow> unat (of_nat (length v) :: u64) = length v"
  by (simp add: unat_of_nat)

lemma read_usize_len:
  "length v < 2 ^ 63 \<Longrightarrow> read_usize \<lparr>dec_data = pre @ uleb (of_nat (length v) :: u64) @ rest, dec_position = length pre\<rparr> =
    Some (of_nat (length v), \<lparr>dec_data = pre @ uleb (of_nat (length v) :: u64) @ rest,
      dec_position = length (pre @ uleb (of_nat (length v) :: u64))\<rparr>)"
  by (simp add: read_usize_def decodes)

lemma mem_read_spec:
  assumes "valid_emit op"
  shows "mem_read op \<lparr>dec_data = pre @ emit_bytes op @ rest, dec_position = length pre\<rparr> =
    Some (op, \<lparr>dec_data = pre @ emit_bytes op @ rest, dec_position = length pre + length (emit_bytes op)\<rparr>)"
proof (cases op)
  case (StrV v)
  let ?u = "uleb (of_nat (length v) :: u64)"
  have v: "length v < 2 ^ 63" using assms StrV by simp
  have "index_at (pre @ ?u @ v @ STR_SENTINEL # rest) (length (pre @ ?u) + length v) = Some STR_SENTINEL"
    by (simp add: index_at_def nth_append)
  with StrV v read_usize_len [OF v, of pre "v @ STR_SENTINEL # rest"] slice_middle [of "pre @ ?u" v "STR_SENTINEL # rest"]
  show ?thesis by (simp add: read_str_def unat_length Let_def add.assoc)
next
  case (Bytes v)
  let ?u = "uleb (of_nat (length v) :: u64)"
  have v: "length v < 2 ^ 63" using assms Bytes by simp
  with Bytes read_usize_len [OF v, of pre "v @ rest"] slice_middle [of "pre @ ?u" v rest]
  show ?thesis by (simp add: decode_bytes_def read_raw_bytes_def unat_length)
next
  case (CharV c)
  then show ?thesis using assms by (simp add: read_char_def read_defs decodes char_try_from_u32_eq)
next
  case (RawBytes v)
  then show ?thesis using slice_middle [of pre v rest] by (simp add: read_raw_bytes_def)
next
  case (U16 v)
  then show ?thesis using le_bytes_roundtrip_16 [of v] by (simp add: read_u16_def le_bytes_16 index_at_def nth_append)
next
  case (I16 v)
  then show ?thesis using le_bytes_roundtrip_16 [of v] by (simp add: read_i16_def le_bytes_16 index_at_def nth_append)
qed (simp_all add: read_defs decodes read_u8_def read_i8_def read_bool_def read_f64_def read_f32_def index_at_def nth_append)

lemma read_all_spec:
  "\<forall>op \<in> set ops. valid_emit op \<Longrightarrow>
   read_all ops \<lparr>dec_data = pre @ concat (map emit_bytes ops) @ rest, dec_position = length pre\<rparr> =
   Some (ops, \<lparr>dec_data = pre @ concat (map emit_bytes ops) @ rest,
     dec_position = length pre + length (concat (map emit_bytes ops))\<rparr>)"
proof (induction ops arbitrary: pre)
  case (Cons op ops)
  then show ?case
    using mem_read_spec [of op pre "concat (map emit_bytes ops) @ rest"] Cons.IH [of "pre @ emit_bytes op"]
    by (simp add: add.assoc)
qed simp


section \<open>FileEncoder\<close>

text \<open>
  What the encoder relies on of \<open>File::write\<close>: it appends a prefix of the bytes it is given and reports how
  long that prefix is, or it fails and appends nothing; it is interrupted finitely often.
\<close>

lemma take_then_drop: "n + k \<le> m \<Longrightarrow> take k (drop n xs) @ drop (n + k) (take m xs) = drop n (take m xs)"
proof -
  assume m: "n + k \<le> m"
  have "drop n (take m xs) = take (k + (m - (n + k))) (drop n xs)" using m by (simp add: drop_take)
  also have "\<dots> = take k (drop n xs) @ take (m - (n + k)) (drop k (drop n xs))" by (rule take_add)
  also have "take (m - (n + k)) (drop k (drop n xs)) = drop (n + k) (take m xs)"
    by (simp add: drop_take add.commute)
  finally show ?thesis by simp
qed

locale file_laws =
  fixes w :: "'f file_write" and contents :: "'f \<Rightarrow> u8 list" and patience :: "'f \<Rightarrow> nat"
  assumes write_ok: "w f b = (Ok n, f') \<Longrightarrow> n \<le> length b \<and> contents f' = contents f @ take n b \<and> patience f' \<le> patience f"
    and write_err: "w f b = (Err x, f') \<Longrightarrow> contents f' = contents f \<and> patience f' \<le> patience f"
    and interrupted: "w f b = (Err Interrupted, f') \<Longrightarrow> patience f' < patience f"

text \<open>A file whose writes never fail and make progress.\<close>

definition reliable :: "'f file_write \<Rightarrow> bool" where
  "reliable w \<longleftrightarrow> (\<forall>f b. b \<noteq> [] \<longrightarrow> (case fst (w f b) of Ok n \<Rightarrow> 0 < n | Err x \<Rightarrow> x = Interrupted))"

lemma reliable_ok: "reliable w \<Longrightarrow> w f b = (Ok n, f') \<Longrightarrow> b \<noteq> [] \<Longrightarrow> 0 < n"
  and reliable_err: "reliable w \<Longrightarrow> w f b = (Err x, f') \<Longrightarrow> b \<noteq> [] \<Longrightarrow> x = Interrupted"
  unfolding reliable_def by (metis fst_conv result.simps(5), metis fst_conv result.simps(6))

definition fe_ok :: "'f file_encoder \<Rightarrow> bool" where
  "fe_ok e \<longleftrightarrow> fe_res e = Ok ()"

definition fe_inv :: "nat \<Rightarrow> 'f file_encoder \<Rightarrow> bool" where
  "fe_inv cap e \<longleftrightarrow> length (fe_buf e) = cap \<and> max_leb128_len 128 \<le> cap \<and> buffered e \<le> cap"

lemma fe_res_ok: "fe_ok e \<longleftrightarrow> (\<exists>u. fe_res e = Ok u)"
  by (simp add: fe_ok_def)

context file_laws
begin

definition logical :: "'f file_encoder \<Rightarrow> u8 list" where
  "logical e = contents (fe_file e) @ take (buffered e) (fe_buf e)"

definition based :: "nat \<Rightarrow> 'f file_encoder \<Rightarrow> bool" where
  "based b e \<longleftrightarrow> length (contents (fe_file e)) = b + flushed e"

text \<open>A step that appends \<open>bs\<close>, unless an error has been recorded.\<close>

definition appends :: "nat \<Rightarrow> u8 list \<Rightarrow> 'f file_encoder \<Rightarrow> 'f file_encoder \<Rightarrow> bool" where
  "appends cap bs e e' \<longleftrightarrow> fe_inv cap e' \<and>
     (fe_ok e' \<longrightarrow> fe_ok e \<and> logical e' = logical e @ bs \<and> (\<forall>b. based b e \<longrightarrow> based b e')) \<and>
     (reliable w \<and> fe_ok e \<longrightarrow> fe_ok e')"

lemma appends_trans: "appends cap bs e e' \<Longrightarrow> appends cap cs e' e'' \<Longrightarrow> appends cap (bs @ cs) e e''"
  unfolding appends_def by (metis append_assoc)

lemma flush_loop_spec:
  assumes "n \<le> length buffer"
  shows "\<exists>n' f' err. flush_loop w buffer n f = Some (n', f', err) \<and> n \<le> n' \<and> n' \<le> length buffer \<and>
    contents f' = contents f @ drop n (take n' buffer) \<and> (err = None \<longrightarrow> n' = length buffer) \<and> (reliable w \<longrightarrow> err = None)"
  using assms
proof (induction "patience f + (length buffer - n)" arbitrary: n f rule: less_induct)
  case less
  show ?case
  proof (cases "n < length buffer")
    case False
    then show ?thesis using less.prems by (subst flush_loop.simps) simp
  next
    case True
    obtain r f1 where r: "w f (drop n buffer) = (r, f1)" by fastforce
    show ?thesis
    proof (cases r)
      case (Ok k)
      note ok = write_ok [OF r [unfolded Ok]]
      show ?thesis
      proof (cases "k = 0")
        case True
        with \<open>n < length buffer\<close> r Ok ok reliable_ok [of w f "drop n buffer" k f1] show ?thesis by (subst flush_loop.simps) auto
      next
        case False
        then have "patience f1 + (length buffer - (n + k)) < patience f + (length buffer - n)" "n + k \<le> length buffer"
          using ok True by auto
        from less.hyps [OF this] obtain n' f' err where n': "flush_loop w buffer (n + k) f1 = Some (n', f', err)"
          "n + k \<le> n'" "n' \<le> length buffer" "contents f' = contents f1 @ drop (n + k) (take n' buffer)"
          "err = None \<longrightarrow> n' = length buffer" "reliable w \<longrightarrow> err = None" by blast
        have "take k (drop n buffer) @ drop (n + k) (take n' buffer) = drop n (take n' buffer)"
          by (rule take_then_drop [OF n'(2)])
        with n' ok True r Ok False show ?thesis by (subst flush_loop.simps) auto
      qed
    next
      case (Err x)
      note er = write_err [OF r [unfolded Err]]
      show ?thesis
      proof (cases "x = Interrupted")
        case True
        then have "patience f1 + (length buffer - n) < patience f + (length buffer - n)"
          using interrupted r Err by auto
        from less.hyps [OF this less.prems] er \<open>n < length buffer\<close> r Err True show ?thesis
          by (subst flush_loop.simps) auto
      next
        case False
        with \<open>n < length buffer\<close> r Err er reliable_err [of w f "drop n buffer" x f1] show ?thesis by (subst flush_loop.simps) auto
      qed
    qed
  qed
qed

lemma flush_spec:
  assumes "fe_inv cap e"
  shows "\<exists>e'. flush w e = Some e' \<and> appends cap [] e e' \<and> (fe_ok e' \<longrightarrow> buffered e' = 0)"
proof (cases "fe_ok e")
  case False
  then obtain x where "fe_res e = Err x" by (cases "fe_res e") (auto simp: fe_ok_def)
  with assms False show ?thesis by (simp add: flush_def appends_def)
next
  case True
  let ?b = "take (buffered e) (fe_buf e)"
  have len: "length ?b = buffered e" using assms by (simp add: fe_inv_def)
  obtain n f' err where n: "flush_loop w ?b 0 (fe_file e) = Some (n, f', err)" "n \<le> buffered e"
      "contents f' = contents (fe_file e) @ take n ?b" "err = None \<longrightarrow> n = buffered e"
      "reliable w \<longrightarrow> err = None"
    using flush_loop_spec [OF le0, of ?b "fe_file e", unfolded len drop_0] by blast
  have fl: "flush w e = drop_guard n (e\<lparr>fe_file := f', fe_res := (case err of None \<Rightarrow> Ok () | Some x \<Rightarrow> Err x)\<rparr>)"
    using True n(1) len assms by (simp add: flush_def fe_ok_def fe_inv_def)
  show ?thesis
  proof (cases err)
    case None
    with n have nb: "n = buffered e" by simp
    let ?e = "e\<lparr>fe_file := f', fe_res := Ok (), flushed := flushed e + buffered e, buffered := 0\<rparr>"
    have "flush w e = Some ?e" using fl None nb by (cases "n = 0") (simp_all add: drop_guard_def)
    moreover have "contents f' = logical e" using n(3) nb by (simp add: logical_def)
    ultimately show ?thesis using True assms by (auto simp: appends_def fe_inv_def logical_def based_def fe_ok_def)
  next
    case (Some x)
    then have "\<not> reliable w" using n(5) by auto
    with fl Some n(2) assms show ?thesis by (auto simp: drop_guard_def appends_def fe_inv_def fe_ok_def)
  qed
qed

lemma write_one_spec:
  assumes "fe_inv cap e"
  shows "\<exists>e'. write_one w v e = Some e' \<and> appends cap [v] e e'"
proof -
  have cap: "file_capacity e = cap" "1 \<le> cap" using assms by (auto simp: fe_inv_def file_capacity_def max_leb128_len_def)
  show ?thesis
  proof (cases "buffered e \<ge> cap")
    case True
    obtain e1 where e1: "flush w e = Some e1" "appends cap [] e e1" "fe_ok e1 \<longrightarrow> buffered e1 = 0"
      using flush_spec [OF assms] by blast
    then show ?thesis using True cap
      by (auto simp: write_one_def appends_def fe_inv_def logical_def based_def fe_ok_def take_Suc_conv_app_nth)
  next
    case False
    then show ?thesis using cap assms
      by (auto simp: write_one_def appends_def fe_inv_def logical_def based_def fe_ok_def take_Suc_conv_app_nth)
  qed
qed

lemma copy_at_take: "n + length src \<le> length dst \<Longrightarrow>
    \<exists>d. copy_at n src dst = Some d \<and> length d = length dst \<and> take (n + k) d = take n dst @ take k src" if "k \<le> length src"
  using that by (simp add: copy_at_def)

lemma unbuffered_loop_spec:
  "\<exists>e'. unbuffered_loop w buf e = Some e' \<and> fe_buf e' = fe_buf e \<and> buffered e' = buffered e \<and>
    (fe_ok e' \<longrightarrow> fe_ok e \<and> contents (fe_file e') = contents (fe_file e) @ buf \<and> flushed e' = flushed e + length buf) \<and>
    (reliable w \<and> fe_ok e \<longrightarrow> fe_ok e')"
proof (induction "patience (fe_file e) + length buf" arbitrary: buf e rule: less_induct)
  case less
  show ?case
  proof (cases "buf = []")
    case True
    then show ?thesis by (subst unbuffered_loop.simps) simp
  next
    case False
    obtain r f1 where r: "w (fe_file e) buf = (r, f1)" by fastforce
    show ?thesis
    proof (cases r)
      case (Ok k)
      note ok = write_ok [OF r [unfolded Ok]]
      show ?thesis
      proof (cases "k = 0")
        case True
        with r Ok ok \<open>buf \<noteq> []\<close> reliable_ok [of w "fe_file e" buf k f1] show ?thesis
          by (subst unbuffered_loop.simps) (auto simp: fe_ok_def)
      next
        case False
        let ?e = "e\<lparr>fe_file := f1, flushed := flushed e + k\<rparr>"
        have "patience (fe_file ?e) + length (drop k buf) < patience (fe_file e) + length buf"
          using ok False \<open>buf \<noteq> []\<close> by (cases buf) auto
        from less.hyps [OF this] obtain e' where "unbuffered_loop w (drop k buf) ?e = Some e'"
          "fe_buf e' = fe_buf e" "buffered e' = buffered e"
          "fe_ok e' \<longrightarrow> fe_ok e \<and> contents (fe_file e') = contents f1 @ drop k buf \<and> flushed e' = flushed e + k + length (drop k buf)"
          "reliable w \<and> fe_ok e \<longrightarrow> fe_ok e'"
          by (auto simp: fe_ok_def)
        with ok False r Ok \<open>buf \<noteq> []\<close> show ?thesis by (subst unbuffered_loop.simps) simp
      qed
    next
      case (Err x)
      note er = write_err [OF r [unfolded Err]]
      show ?thesis
      proof (cases "x = Interrupted")
        case True
        let ?e = "e\<lparr>fe_file := f1\<rparr>"
        have "patience (fe_file ?e) + length buf < patience (fe_file e) + length buf"
          using interrupted r Err True by auto
        from less.hyps [OF this] er r Err True \<open>buf \<noteq> []\<close> show ?thesis
          by (subst unbuffered_loop.simps) (auto simp: fe_ok_def)
      next
        case False
        with r Err \<open>buf \<noteq> []\<close> reliable_err [of w "fe_file e" buf x f1] show ?thesis
          by (subst unbuffered_loop.simps) (auto simp: fe_ok_def)
      qed
    qed
  qed
qed

lemma write_all_unbuffered_spec:
  assumes "fe_inv cap e"
  shows "\<exists>e'. write_all_unbuffered w buf e = Some e' \<and> appends cap buf e e'"
proof (cases "fe_ok e")
  case False
  then obtain x where "fe_res e = Err x" by (cases "fe_res e") (auto simp: fe_ok_def)
  with assms False show ?thesis by (simp add: write_all_unbuffered_def appends_def)
next
  case True
  obtain e1 where e1: "(if buffered e > 0 then flush w e else Some e) = Some e1" "appends cap [] e e1" "fe_ok e1 \<longrightarrow> buffered e1 = 0"
  proof (cases "buffered e > 0")
    case False
    with assms that [of e] show thesis by (simp add: appends_def)
  qed (use flush_spec [OF assms] that in auto)
  obtain e2 where e2: "unbuffered_loop w buf e1 = Some e2" "fe_buf e2 = fe_buf e1" "buffered e2 = buffered e1"
    "fe_ok e2 \<longrightarrow> fe_ok e1 \<and> contents (fe_file e2) = contents (fe_file e1) @ buf \<and> flushed e2 = flushed e1 + length buf"
    "reliable w \<and> fe_ok e1 \<longrightarrow> fe_ok e2"
    using unbuffered_loop_spec by blast
  have inv: "fe_inv cap e2" using e1(2) e2(2,3) by (simp add: appends_def fe_inv_def)
  have "appends cap buf e e2"
  proof (cases "fe_ok e2")
    case True
    with e2(4) have ok: "fe_ok e1" "contents (fe_file e2) = contents (fe_file e1) @ buf" "flushed e2 = flushed e1 + length buf"
      by simp_all
    with e1(2,3) have "buffered e1 = 0" "fe_ok e" "logical e1 = logical e" "\<forall>b. based b e \<longrightarrow> based b e1"
      by (simp_all add: appends_def)
    with ok e2(3) inv True show ?thesis by (simp add: appends_def logical_def based_def)
  next
    case False
    with e2(5) e1(2) inv show ?thesis unfolding appends_def by blast
  qed
  with e1(1) e2(1) True show ?thesis by (simp add: write_all_unbuffered_def fe_ok_def)
qed

text \<open>Room for \<open>m\<close> more bytes, after a flush if need be.\<close>

lemma make_room:
  assumes "fe_inv cap e" "m \<le> cap" "c \<longleftrightarrow> cap < buffered e + m"
  shows "\<exists>e1 n. (if c then do { e \<leftarrow> flush w e; Some (e, 0) } else Some (e, buffered e)) = Some (e1, n) \<and>
    appends cap [] e e1 \<and> n + m \<le> cap \<and> (fe_ok e1 \<longrightarrow> buffered e1 = n)"
proof (cases c)
  case True
  obtain e1 where "flush w e = Some e1" "appends cap [] e e1" "fe_ok e1 \<longrightarrow> buffered e1 = 0"
    using flush_spec [OF assms(1)] by blast
  with True assms(2) show ?thesis by simp
next
  case False
  with assms show ?thesis by (simp add: appends_def)
qed

lemma store_buffer:
  assumes "appends cap [] e e1" "fe_ok e1 \<longrightarrow> buffered e1 = n" "n + k \<le> cap" "length d = cap" "take (n + k) d = take n (fe_buf e1) @ bs" "length bs = k"
  shows "appends cap bs e (e1\<lparr>fe_buf := d, buffered := n + k\<rparr>)"
  using assms by (auto simp: appends_def fe_inv_def logical_def based_def fe_ok_def)

lemma write_all_spec:
  assumes "fe_inv cap e"
  shows "\<exists>e'. write_all w buf e = Some e' \<and> appends cap buf e e'"
proof (cases "length buf \<le> cap")
  case True
  have cap: "file_capacity e = cap" "buffered e \<le> cap" using assms by (auto simp: fe_inv_def file_capacity_def)
  have c: "length buf > cap - buffered e \<longleftrightarrow> cap < buffered e + length buf" using cap(2) by linarith
  obtain e1 n where e1: "(if length buf > cap - buffered e then do { e \<leftarrow> flush w e; Some (e, 0) } else Some (e, buffered e)) = Some (e1, n)"
    "appends cap [] e e1" "n + length buf \<le> cap" "fe_ok e1 \<longrightarrow> buffered e1 = n"
    using make_room [OF assms True c] by blast
  then have "length (fe_buf e1) = cap" by (simp add: appends_def fe_inv_def)
  then obtain d where d: "copy_at n buf (fe_buf e1) = Some d" "length d = cap" "take (n + length buf) d = take n (fe_buf e1) @ buf"
    using copy_at_take [of "length buf" buf n "fe_buf e1"] e1(3) by auto
  with store_buffer [OF e1(2,4,3) d(2,3) refl] e1(1) True cap show ?thesis by (simp add: write_all_def)
next
  case False
  with write_all_unbuffered_spec [OF assms, of buf] assms show ?thesis
    by (simp add: write_all_def fe_inv_def file_capacity_def)
qed

lemma write_leb128_spec:
  fixes v :: "'a::len word"
  assumes "leb_codec wr rd enc" "fe_inv cap e" "LENGTH('a) \<le> 128"
  shows "\<exists>e'. file_write_leb128 w wr v e = Some e' \<and> appends cap (enc v) e e'"
proof -
  let ?m = "max_leb128_len LENGTH('a)"
  have m: "?m \<le> cap" using assms(2,3) div_le_mono [of "LENGTH('a) + 6" "128 + 6" 7] by (simp add: fe_inv_def max_leb128_len_def)
  have cap: "file_capacity e = cap" using assms(2) by (simp add: fe_inv_def file_capacity_def)
  obtain e1 n where e1: "(if buffered e + ?m > cap then do { e \<leftarrow> flush w e; Some (e, 0) } else Some (e, buffered e)) = Some (e1, n)"
    "appends cap [] e e1" "n + ?m \<le> cap" "fe_ok e1 \<longrightarrow> buffered e1 = n"
    using make_room [OF assms(2) m refl] by blast
  then have buf: "length (fe_buf e1) = cap" by (simp add: appends_def fe_inv_def)
  let ?out = "take ?m (drop n (fe_buf e1))"
  have out: "length ?out = ?m" using e1(3) buf by simp
  obtain out' where o: "wr ?out v = Some (enc v, out')" "length out' = ?m" "take (length (enc v)) out' = enc v"
    using leb_codec.writes [OF assms(1) out, of v] out by auto
  have k: "length (enc v) \<le> ?m" using leb_codec.enc_length [OF assms(1)] .
  obtain d where d: "copy_at n out' (fe_buf e1) = Some d" "length d = cap" "take (n + length (enc v)) d = take n (fe_buf e1) @ enc v"
    using copy_at_take [of "length (enc v)" out' n "fe_buf e1"] o k e1(3) buf by auto
  have "slice (fe_buf e1) n (n + ?m) = Some ?out" using e1(3) buf by simp
  with store_buffer [OF e1(2,4) _ d(2,3) refl] e1 k m cap o(1) d(1) show ?thesis by (simp add: file_write_leb128_def)
qed


lemmas file_leb_specs =
  write_leb128_spec [OF leb_u32.leb_codec_axioms] write_leb128_spec [OF leb_u64.leb_codec_axioms]
  write_leb128_spec [OF leb_u128.leb_codec_axioms] write_leb128_spec [OF leb_i32.leb_codec_axioms]
  write_leb128_spec [OF leb_i64.leb_codec_axioms] write_leb128_spec [OF leb_i128.leb_codec_axioms]

lemma bind_appends:
  assumes "\<exists>e'. f e = Some e' \<and> appends cap bs e e'" "\<And>e'. fe_inv cap e' \<Longrightarrow> \<exists>e''. g e' = Some e'' \<and> appends cap cs e' e''"
  shows "\<exists>e''. (f e \<bind> g) = Some e'' \<and> appends cap (bs @ cs) e e''"
proof -
  obtain e' where e': "f e = Some e'" "appends cap bs e e'" using assms(1) by blast
  with assms(2) [of e'] obtain e'' where "g e' = Some e''" "appends cap cs e' e''" by (auto simp: appends_def)
  with e' appends_trans show ?thesis by auto
qed

lemma file_emit_spec:
  assumes "fe_inv cap e"
  shows "\<exists>e'. file_emit w op e = Some e' \<and> appends cap (emit_bytes op) e e'"
proof (cases op)
  case (StrV v)
  let ?n = "of_nat (length v) :: u64"
  show ?thesis
    unfolding StrV file_emit.simps emit_bytes.simps file_emit_str_def file_emit_usize_def file_emit_raw_bytes_def file_emit_u8_def
    by (intro bind_appends file_leb_specs write_all_spec write_one_spec assms) simp_all
next
  case (Bytes v)
  show ?thesis
    unfolding Bytes file_emit.simps emit_bytes.simps file_encode_bytes_def file_emit_usize_def file_emit_raw_bytes_def
    by (intro bind_appends file_leb_specs write_all_spec assms) simp_all
qed (use assms in \<open>simp_all add: file_leb_specs write_all_spec write_one_spec file_emit_usize_def file_emit_u128_def
  file_emit_u64_def file_emit_u32_def file_emit_u16_def file_emit_u8_def file_emit_isize_def file_emit_i128_def
  file_emit_i64_def file_emit_i32_def file_emit_i16_def file_emit_i8_def file_emit_bool_def file_emit_f64_def
  file_emit_f32_def file_emit_char_def file_emit_raw_bytes_def\<close>)

lemma file_emit_all:
  "fe_inv cap e \<Longrightarrow> \<exists>e'. emit_all (file_emit w) ops e = Some e' \<and> appends cap (concat (map emit_bytes ops)) e e'"
proof (induction ops arbitrary: e)
  case (Cons op ops)
  then show ?case using bind_appends [where f = "file_emit w op" and g = "emit_all (file_emit w) ops", OF file_emit_spec Cons.IH] by simp
qed (simp add: appends_def)

lemma flush_empty:
  assumes "fe_ok e" "buffered e = 0"
  shows "flush w e = Some e"
proof -
  have "flush_loop w [] 0 (fe_file e) = Some (0, fe_file e, None)" by (subst flush_loop.simps) simp
  with assms show ?thesis by (simp add: flush_def fe_ok_def drop_guard_def)
qed

lemma finish_spec:
  assumes "fe_inv cap e"
  shows "\<exists>r f. file_encoder_finish w e = Some (r, f) \<and>
    (\<forall>n. r = Ok n \<longrightarrow> fe_ok e \<and> contents f = logical e \<and> (\<forall>b. based b e \<longrightarrow> b + n = length (logical e))) \<and>
    (reliable w \<and> fe_ok e \<longrightarrow> (\<exists>n. r = Ok n))"
proof -
  obtain e1 where e1: "flush w e = Some e1" "appends cap [] e e1" "fe_ok e1 \<longrightarrow> buffered e1 = 0"
    using flush_spec [OF assms] by blast
  show ?thesis
  proof (cases "fe_ok e1")
    case True
    then have "e1\<lparr>fe_res := Ok ()\<rparr> = e1" by (simp add: fe_ok_def)
    then have "flush w (e1\<lparr>fe_res := Ok ()\<rparr>) = Some e1" using flush_empty True e1(3) by simp
    then have "file_encoder_finish w e = Some (Ok (file_encoder_position e1), fe_file e1)"
      using True e1(1) by (simp add: file_encoder_finish_def fe_ok_def)
    moreover have "fe_ok e" "logical e1 = logical e" "contents (fe_file e1) = logical e" "\<forall>b. based b e \<longrightarrow> based b e1"
      using True e1(2,3) by (simp_all add: appends_def logical_def)
    ultimately show ?thesis using True e1(3) by (simp add: based_def file_encoder_position_def)
  next
    case False
    then obtain x where x: "fe_res e1 = Err x" by (cases "fe_res e1") (auto simp: fe_ok_def)
    have "fe_inv cap (e1\<lparr>fe_res := Ok ()\<rparr>)" using e1(2) by (simp add: appends_def fe_inv_def)
    from flush_spec [OF this] e1 False x show ?thesis
      by (auto simp: file_encoder_finish_def appends_def)
  qed
qed

lemma encoder_run:
  assumes "file_encoder_with_capacity (Ok f0) cap = Some (Ok e0)"
  shows "\<exists>e r f. emit_all (file_emit w) ops e0 = Some e \<and> file_encoder_finish w e = Some (r, f) \<and>
    (\<forall>n. r = Ok n \<longrightarrow> contents f = contents f0 @ concat (map emit_bytes ops) \<and> n = length (concat (map emit_bytes ops))) \<and>
    (reliable w \<longrightarrow> (\<exists>n. r = Ok n))"
proof -
  have e0: "fe_inv cap e0" "fe_ok e0" "logical e0 = contents f0" "based (length (contents f0)) e0"
    using assms by (auto simp: file_encoder_with_capacity_def fe_inv_def fe_ok_def logical_def based_def split: if_splits)
  obtain e where e: "emit_all (file_emit w) ops e0 = Some e" "appends cap (concat (map emit_bytes ops)) e0 e"
    using file_emit_all [OF e0(1)] by blast
  then have "fe_inv cap e" by (simp add: appends_def)
  from finish_spec [OF this] obtain r f where r: "file_encoder_finish w e = Some (r, f)"
    "\<forall>n. r = Ok n \<longrightarrow> fe_ok e \<and> contents f = logical e \<and> (\<forall>b. based b e \<longrightarrow> b + n = length (logical e))"
    "reliable w \<and> fe_ok e \<longrightarrow> (\<exists>n. r = Ok n)" by blast
  from e(2) e0 r(2) have "contents f = contents f0 @ concat (map emit_bytes ops) \<and> n = length (concat (map emit_bytes ops))" if "r = Ok n" for n
    using that by (force simp: appends_def)
  moreover from e(2) e0(2) r(3) have "reliable w \<longrightarrow> (\<exists>n. r = Ok n)" by (auto simp: appends_def)
  ultimately show ?thesis using e(1) r(1) by blast
qed

end


lemma take_min_length: "take (min n (length b)) b = take n b"
  by (simp add: min_def)

text \<open>A file that follows a script of outcomes, and then accepts everything.\<close>

record script_file =
  sf_contents :: "u8 list"
  sf_script :: "(nat, io_error) result list"

definition script_write :: "script_file file_write" where
  "script_write f b = (case sf_script f of
     [] \<Rightarrow> (Ok (length b), f\<lparr>sf_contents := sf_contents f @ b\<rparr>)
   | Ok n # s \<Rightarrow> (Ok (min n (length b)), f\<lparr>sf_contents := sf_contents f @ take n b, sf_script := s\<rparr>)
   | Err x # s \<Rightarrow> (Err x, f\<lparr>sf_script := s\<rparr>))"

interpretation script: file_laws script_write sf_contents "\<lambda>f. length (sf_script f)"
  by unfold_locales (auto simp: script_write_def take_min_length split: list.splits result.splits)


section \<open>Integers of fixed size\<close>

lemma from_le_bytes_chunks:
  "k \<le> n \<Longrightarrow> 8 * n = LENGTH('a) \<Longrightarrow>
    from_le_bytes (map (\<lambda>i. ucast (drop_bit (8 * i) v)) [k..<n]) = drop_bit (8 * k) (v :: 'a::len word)"
proof (induction "n - k" arbitrary: k)
  case 0
  then have "drop_bit (8 * k) v = 0" using drop_bit_nonzero [of "8 * k" v] by auto
  with 0 show ?case by simp
next
  case (Suc d)
  then have k: "k < n" "d = n - Suc k" by simp_all
  have "ucast (ucast (drop_bit (8 * k) v) :: u8) OR push_bit 8 (drop_bit (8 * Suc k) v) = drop_bit (8 * k) v"
  proof (rule bit_word_eqI)
    fix m assume m: "m < LENGTH('a)"
    have "8 * Suc k + (m - 8) = 8 * k + m" if "8 \<le> m" using that by simp
    then show "bit (ucast (ucast (drop_bit (8 * k) v) :: u8) OR push_bit 8 (drop_bit (8 * Suc k) v)) m \<longleftrightarrow> bit (drop_bit (8 * k) v) m"
      using m by (cases "8 \<le> m") (simp_all add: bit_or_iff bit_push_bit_iff bit_ucast_iff bit_drop_bit_eq del: mult_Suc_right)
  qed
  with Suc.hyps(1) [OF k(2)] Suc.prems k(1) show ?case by (simp add: upt_rec [of k n])
qed

lemma le_bytes_roundtrip: "LENGTH('a) mod 8 = 0 \<Longrightarrow> from_le_bytes (to_le_bytes v) = (v :: 'a::len word)"
  using from_le_bytes_chunks [of 0 "LENGTH('a) div 8" v] by (auto simp: to_le_bytes_def)

lemma to_le_bytes_length [simp]: "length (to_le_bytes (v :: 'a::len word)) = LENGTH('a) div 8"
  by (simp add: to_le_bytes_def)


section \<open>Properties\<close>

text \<open>C19: Metadata round trip: any sequence of valid \<open>Encoder\<close> calls on a \<open>MemEncoder\<close> succeeds, and a \<open>MemDecoder\<close>
  over the result, asked for the same types in the same order, returns the same values and ends exactly at the
  position the encoder reported; no read panics.\<close>

theorem mem_roundtrip:
  assumes "\<forall>op \<in> set ops. valid_emit op"
  shows "\<exists>m. emit_all mem_emit ops mem_encoder_new = Some m \<and>
    read_all ops (mem_decoder_new (mem_encoder_finish m) 0) =
      Some (ops, mem_decoder_new (mem_encoder_finish m) (mem_encoder_position m))"
  using read_all_spec [OF assms, of "[]" "[]"]
  by (simp add: mem_emit_all mem_encoder_new_def mem_decoder_new_def mem_encoder_finish_def mem_encoder_position_def)

theorem mem_roundtrip_witness:
  "\<exists>m. emit_all mem_emit [U32 300, I64 (- 5), StrV [104, 105], CharV 0x1F600, BoolV True] mem_encoder_new = Some m"
  using mem_roundtrip [of "[U32 300, I64 (- 5), StrV [104, 105], CharV 0x1F600, BoolV True]"]
  by (auto simp: is_scalar_def)

text \<open>C9: \<open>FileEncoder\<close> implements \<open>MemEncoder\<close>: for every buffer size, every sequence of calls and every behaviour
  of the file (short writes, errors, and interruptions, of which there are finitely many), no call panics or writes outside of the buffer, and when
  \<open>finish\<close> reports success the file holds exactly the bytes \<open>MemEncoder\<close> would have produced, and the reported
  position is their number.\<close>

theorem file_encoder_refines_mem:
  assumes "file_laws w contents patience" "file_encoder_with_capacity (Ok f0) cap = Some (Ok e0)"
  shows "\<exists>e r f m. emit_all (file_emit w) ops e0 = Some e \<and> file_encoder_finish w e = Some (r, f) \<and>
    emit_all mem_emit ops mem_encoder_new = Some m \<and>
    (\<forall>n. r = Ok n \<longrightarrow> contents f = contents f0 @ mem_encoder_finish m \<and> n = mem_encoder_position m)"
  using file_laws.encoder_run [OF assms, of ops]
  by (auto simp: mem_emit_all mem_encoder_new_def mem_encoder_finish_def mem_encoder_position_def)

theorem file_encoder_refines_mem_witness:
  "\<exists>e0 e. file_encoder_with_capacity (Ok \<lparr>sf_contents = [], sf_script = [Err Interrupted, Ok 3]\<rparr>) 19 = Some (Ok e0) \<and>
     emit_all (file_emit script_write) [RawBytes (replicate 30 7), U8 1] e0 = Some e"
proof -
  obtain e0 where e0: "file_encoder_with_capacity (Ok \<lparr>sf_contents = [], sf_script = [Err Interrupted, Ok 3]\<rparr>) 19 = Some (Ok e0)"
    by (simp add: file_encoder_with_capacity_def max_leb128_len_def USIZE_MAX_def)
  with file_encoder_refines_mem [OF script.file_laws_axioms e0] show ?thesis by blast
qed

text \<open>C33: \<open>FileEncoder\<close> gets everything written: when the file never fails and every write makes progress, however
  short the writes and however often (finitely) they are interrupted, \<open>finish\<close> returns and reports success.\<close>

theorem file_encoder_completes:
  assumes "file_laws w contents patience" "reliable w" "file_encoder_with_capacity (Ok f0) cap = Some (Ok e0)"
  shows "\<exists>e n f. emit_all (file_emit w) ops e0 = Some e \<and> file_encoder_finish w e = Some (Ok n, f)"
  using file_laws.encoder_run [OF assms(1,3), of ops] assms(2) by blast

definition one_byte_write :: "u8 list file_write" where
  "one_byte_write f b = (Ok (min 1 (length b)), f @ take 1 b)"

theorem file_encoder_completes_witness:
  "\<exists>e0 e n f. file_encoder_with_capacity (Ok []) 19 = Some (Ok e0) \<and>
     emit_all (file_emit one_byte_write) [U128 (2 ^ 100), StrV [97]] e0 = Some e \<and>
     file_encoder_finish one_byte_write e = Some (Ok n, f)"
proof -
  have laws: "file_laws one_byte_write id (\<lambda>_. 0)" by unfold_locales (auto simp: one_byte_write_def take_min_length)
  have rel: "reliable one_byte_write" by (simp add: reliable_def one_byte_write_def min_def Suc_le_eq)
  obtain e0 :: "u8 list file_encoder" where e0: "file_encoder_with_capacity (Ok []) 19 = Some (Ok e0)"
    by (simp add: file_encoder_with_capacity_def max_leb128_len_def USIZE_MAX_def)
  from file_encoder_completes [OF laws rel e0] e0 show ?thesis by blast
qed

text \<open>Integers of fixed size: \<open>IntEncodedWithFixedSize\<close> takes eight bytes whatever its value, its assertions
  hold on a \<open>MemEncoder\<close> and on the decoder, and it is read back.\<close>

theorem fixed_size_roundtrip:
  "\<exists>e'. mem_encode_fixed v e = Some e' \<and> mem_encoder_position e' = mem_encoder_position e + 8 \<and>
    decode_fixed (mem_decoder_new (enc_data e' @ rest) (mem_encoder_position e)) =
      Some (v, mem_decoder_new (enc_data e' @ rest) (mem_encoder_position e'))"
  using slice_middle [of "enc_data e" "to_le_bytes v" rest]
  by (simp add: mem_encode_fixed_def mem_emit_raw_bytes_def mem_encoder_position_def decode_fixed_def read_raw_bytes_def
      mem_decoder_new_def le_bytes_roundtrip Let_def)

text \<open>A failed write-out leaves the bytes that were not written in the buffer, at least one.\<close>

lemma flush_loop_error:
  fixes f :: 'a
  assumes "flush_loop w buffer n f = Some (n', f', Some x)"
  shows "n' < length buffer"
proof -
  have "snd (snd r) = None \<or> fst r < length buffer" if "flush_loop w buffer n f = Some r" for r
  proof (rule flush_loop.raw_induct [where P = "\<lambda>w b n f r. snd (snd r) = None \<or> fst r < length b", OF _ that])
    fix loop :: "'a file_write \<Rightarrow> u8 list \<Rightarrow> nat \<Rightarrow> 'a \<Rightarrow> (nat \<times> 'a \<times> io_error option) option" and w b n f r
    assume IH: "\<And>w b n f r. loop w b n f = Some r \<Longrightarrow> snd (snd r) = None \<or> fst r < length b"
      and step: "(if n \<ge> length b then Some (n, f, None)
        else case w f (drop n b) of
          (Ok k, f) \<Rightarrow> if k = 0 then Some (n, f, Some WriteZero) else loop w b (n + k) f
        | (Err x, f) \<Rightarrow> if x = Interrupted then loop w b n f else Some (n, f, Some x)) = Some r"
    obtain res f1 where "w f (drop n b) = (res, f1)" by fastforce
    then show "snd (snd r) = None \<or> fst r < length b"
      using step IH [of w b _ f1 r] by (cases res) (auto split: if_splits)
  qed
  from this [OF assms] show ?thesis by simp
qed

lemma flush_error:
  assumes e: "fe_inv cap e" "0 < buffered e" and f: "flush w e = Some e1" "\<not> fe_ok e1"
  shows "length (fe_buf e1) = cap" "0 < buffered e1" "flushed e1 + buffered e1 = flushed e + buffered e"
    "take (buffered e1) (fe_buf e1) = drop (buffered e - buffered e1) (take (buffered e) (fe_buf e))"
proof -
  have len: "length (fe_buf e) = cap" "buffered e \<le> cap" using e(1) by (simp_all add: fe_inv_def)
  have "length (fe_buf e1) = cap \<and> 0 < buffered e1 \<and> flushed e1 + buffered e1 = flushed e + buffered e \<and>
    take (buffered e1) (fe_buf e1) = drop (buffered e - buffered e1) (take (buffered e) (fe_buf e))"
  proof (cases "fe_res e")
    case (Err x)
    then show ?thesis using f(1) len e(2) by (simp add: flush_def)
  next
    case (Ok u)
    let ?b = "take (buffered e) (fe_buf e)"
    obtain n f' err where l: "flush_loop w ?b 0 (fe_file e) = Some (n, f', err)"
      "drop_guard n (e\<lparr>fe_file := f', fe_res := (case err of None \<Rightarrow> Ok () | Some x \<Rightarrow> Err x)\<rparr>) = Some e1"
      using f(1) Ok len by (auto simp: flush_def slice_def bind_eq_Some_conv split: if_splits)
    have "fe_res e1 = (case err of None \<Rightarrow> Ok () | Some x \<Rightarrow> Err x)" using l(2) by (auto simp: drop_guard_def bind_eq_Some_conv split: if_splits)
    then obtain x where "err = Some x" using f(2) by (cases err) (auto simp: fe_ok_def)
    then have n: "n < buffered e" using flush_loop_error [of w ?b 0 "fe_file e" n f' x] l(1) len by simp
    show ?thesis
    proof (cases "n = 0")
      case True
      then show ?thesis using l(2) len e(2) by (auto simp: drop_guard_def)
    next
      case False
      then show ?thesis using l(2) len n by (auto simp: drop_guard_def checked_sub_def split: if_splits)
    qed
  qed
  then show "length (fe_buf e1) = cap" "0 < buffered e1" "flushed e1 + buffered e1 = flushed e + buffered e"
    "take (buffered e1) (fe_buf e1) = drop (buffered e - buffered e1) (take (buffered e) (fe_buf e))" by simp_all
qed

text \<open>C34: The delayed error handling of \<open>FileEncoder\<close> does not extend to \<open>IntEncodedWithFixedSize\<close>. When the value does not
  fit in the rest of the buffer and writing the buffer out stops at an error, now or before, the unwritten bytes, at least
  one, are overwritten with the eight bytes of the value. The error is kept for \<open>finish\<close>, but the position advances by eight
  less the number of the lost bytes (it goes back when more than eight are lost), so that the debug assertion on the eight
  bytes panics.\<close>

theorem fixed_size_panics_on_error:
  assumes "fe_inv cap e" "cap < buffered e + 8" "flush w e = Some e1" "\<not> fe_ok e1"
  shows "0 < buffered e1 \<and> take (buffered e1) (fe_buf e1) = drop (buffered e - buffered e1) (take (buffered e) (fe_buf e)) \<and>
    (\<exists>e2. file_emit_raw_bytes w (to_le_bytes v) e = Some e2 \<and> fe_res e2 = fe_res e1 \<and> fe_file e2 = fe_file e1 \<and>
      take (buffered e2) (fe_buf e2) = to_le_bytes v \<and> file_encoder_position e2 + buffered e1 = file_encoder_position e + 8) \<and>
    file_encode_fixed w v e = None"
proof -
  have cap: "file_capacity e = cap" "19 \<le> cap" "buffered e \<le> cap"
    using assms(1) by (auto simp: fe_inv_def file_capacity_def max_leb128_len_def)
  then have "0 < buffered e" using assms(2) by linarith
  note fl = flush_error [OF assms(1) this assms(3,4)]
  have room: "8 > cap - buffered e" using assms(2) by linarith
  let ?e2 = "e1\<lparr>fe_buf := to_le_bytes v @ drop 8 (fe_buf e1), buffered := 8\<rparr>"
  have emit: "file_emit_raw_bytes w (to_le_bytes v) e = Some ?e2"
    using room cap assms(3) fl(1) by (simp add: file_emit_raw_bytes_def write_all_def copy_at_def)
  have pos: "file_encoder_position ?e2 + buffered e1 = file_encoder_position e + 8"
    using fl(3) by (simp add: file_encoder_position_def)
  then have "checked_sub (file_encoder_position ?e2) (file_encoder_position e) \<noteq> Some ENCODED_SIZE"
    using fl(2) by (auto simp: checked_sub_def)
  then have "file_encode_fixed w v e = None"
    using emit by (cases "checked_sub (file_encoder_position ?e2) (file_encoder_position e)") (auto simp: file_encode_fixed_def)
  then show ?thesis using emit pos fl(2,4) by (intro conjI exI [of _ ?e2]) simp_all
qed

text \<open>A file that takes three bytes and is full then: twelve bytes are lost, and the position goes back by four.\<close>

theorem fixed_size_panics_on_error_witness:
  "\<exists>e2. file_emit_raw_bytes (\<lambda>n b. if n = 0 then (Ok 3, 1) else (Err (OtherError 28), n)) (to_le_bytes (5 :: u64))
      \<lparr>fe_buf = replicate 20 0, buffered = 15, flushed = 0, fe_file = 0 :: nat, fe_res = Ok ()\<rparr> = Some e2 \<and>
    file_encoder_position e2 = 11 \<and>
    file_encode_fixed (\<lambda>n b. if n = 0 then (Ok 3, 1) else (Err (OtherError 28), n)) 5
      \<lparr>fe_buf = replicate 20 0, buffered = 15, flushed = 0, fe_file = 0 :: nat, fe_res = Ok ()\<rparr> = None"
proof -
  let ?w = "\<lambda>n b. if n = 0 then (Ok 3, 1) else (Err (OtherError 28), n :: nat)"
  let ?e = "\<lparr>fe_buf = replicate 20 0, buffered = 15, flushed = 0, fe_file = 0 :: nat, fe_res = Ok ()\<rparr>"
  let ?e1 = "\<lparr>fe_buf = replicate 20 0, buffered = 12, flushed = 3, fe_file = 1 :: nat, fe_res = Err (OtherError 28)\<rparr>"
  have "flush_loop ?w (replicate 15 0) 0 0 = Some (3, 1, Some (OtherError 28))"
    by (subst flush_loop.simps, subst flush_loop.simps) simp
  then have "flush ?w ?e = Some ?e1" by (simp add: flush_def drop_guard_def slice_def checked_sub_def replicate_add [symmetric])
  from fixed_size_panics_on_error [OF _ _ this, of 20 5] show ?thesis
    by (simp add: fe_inv_def fe_ok_def max_leb128_len_def file_encoder_position_def) blast
qed

end
