(* ===== verification/Transitive_Relation.thy ===== *)
theory Transitive_Relation
  imports Bit_Matrix "HOL-Library.Multiset" "HOL-Library.Sublist"
begin

text \<open>
  \<open>compiler/rustc_data_structures/src/transitive_relation.rs\<close>: a relation given by base edges, queried
  through its transitive closure, which is computed on demand in a \<open>BitMatrix\<close> and cached until an edge
  or an element is added.

  The elements are kept in an \<open>FxIndexSet\<close> of the third-party crate \<open>indexmap\<close>, whose operations are a
  parameter, the record \<open>index_set_ops\<close>; its contents are the list of the elements in the order they were
  inserted, and what its documentation promises is the locale \<open>index_set_laws\<close>. The queries take
  \<open>&self\<close> but write the cache through its \<open>Lock\<close>, so they return the relation too.
\<close>

section \<open>State and operations\<close>

record 'a index_set_ops =
  ix_insert_full :: "'a list \<Rightarrow> 'a \<Rightarrow> (nat \<times> bool) \<times> 'a list"
  ix_get_index_of :: "'a list \<Rightarrow> 'a \<Rightarrow> nat option"

locale index_set_laws =
  fixes X :: "'a index_set_ops"
  assumes insert_full_present: "distinct xs \<Longrightarrow> i < length xs \<Longrightarrow> ix_insert_full X xs (xs ! i) = ((i, False), xs)"
    and insert_full_absent: "distinct xs \<Longrightarrow> v \<notin> set xs \<Longrightarrow>
      ix_insert_full X xs v = ((length xs, True), xs @ [v])"
    and get_index_of_present: "distinct xs \<Longrightarrow> i < length xs \<Longrightarrow> ix_get_index_of X xs (xs ! i) = Some i"
    and get_index_of_absent: "distinct xs \<Longrightarrow> v \<notin> set xs \<Longrightarrow> ix_get_index_of X xs v = None"

text \<open>\<open>Index\<close> is a newtype of \<open>usize\<close>.\<close>

record edge =
  source :: nat
  target :: nat

record 'a transitive_relation =
  elements :: "'a list"
  edges :: "edge list"
  closure :: "bit_matrix option"

definition tr_default :: "'a transitive_relation" where
  "tr_default = \<lparr>elements = [], edges = [], closure = None\<rparr>"

definition tr_is_empty :: "'a transitive_relation \<Rightarrow> bool" where
  "tr_is_empty t \<longleftrightarrow> edges t = []"

definition tr_elements :: "'a transitive_relation \<Rightarrow> 'a list" where
  "tr_elements t = elements t"

definition tr_index :: "'a index_set_ops \<Rightarrow> 'a transitive_relation \<Rightarrow> 'a \<Rightarrow> nat option" where
  "tr_index X t a = ix_get_index_of X (elements t) a"

definition add_index :: "'a index_set_ops \<Rightarrow> 'a transitive_relation \<Rightarrow> 'a \<Rightarrow> nat \<times> 'a transitive_relation" where
  "add_index X t a =
     (let ((index, added), els) = ix_insert_full X (elements t) a;
          t = t\<lparr>elements := els\<rparr>
      in (index, if added then t\<lparr>closure := None\<rparr> else t))"

definition tr_add :: "'a index_set_ops \<Rightarrow> 'a transitive_relation \<Rightarrow> 'a \<Rightarrow> 'a \<Rightarrow> 'a transitive_relation" where
  "tr_add X t a b =
     (let (a, t) = add_index X t a;
          (b, t) = add_index X t b;
          edge = \<lparr>source = a, target = b\<rparr>
      in if edge \<notin> set (edges t) then t\<lparr>edges := edges t @ [edge], closure := None\<rparr> else t)"

text \<open>
  \<open>maybe_map\<close>: the outer option is the panic of an index out of bounds, the inner one the result. The closure keeps no state.
\<close>

fun maybe_map_loop ::
    "'b index_set_ops \<Rightarrow> ('a \<Rightarrow> 'b option) \<Rightarrow> 'a list \<Rightarrow> edge list \<Rightarrow> 'b transitive_relation \<Rightarrow>
     'b transitive_relation option option" where
  "maybe_map_loop Y f els [] result = Some (Some result)"
| "maybe_map_loop Y f els (edge # es) result = do {
     a \<leftarrow> index_at els (source edge);
     case f a of
       None \<Rightarrow> Some None
     | Some fa \<Rightarrow> do {
         b \<leftarrow> index_at els (target edge);
         case f b of
           None \<Rightarrow> Some None
         | Some fb \<Rightarrow> maybe_map_loop Y f els es (tr_add Y result fa fb)
       }
   }"

definition maybe_map ::
    "'b index_set_ops \<Rightarrow> 'a transitive_relation \<Rightarrow> ('a \<Rightarrow> 'b option) \<Rightarrow> 'b transitive_relation option option" where
  "maybe_map Y t f = maybe_map_loop Y f (elements t) (edges t) tr_default"

text \<open>One round of the loop of \<open>compute_closure\<close> over the edges, then the \<open>while changed\<close> loop.\<close>

definition closure_step :: "edge \<Rightarrow> bool \<times> bit_matrix \<Rightarrow> (bool \<times> bit_matrix) option" where
  "closure_step edge = (\<lambda>(changed, matrix). do {
     (c1, matrix) \<leftarrow> bitmatrix_insert matrix (source edge) (target edge);
     (c2, matrix) \<leftarrow> bitmatrix_union_rows matrix (target edge) (source edge);
     Some (changed \<or> c1 \<or> c2, matrix)
   })"

partial_function (option) closure_loop :: "edge list \<Rightarrow> bool \<Rightarrow> bit_matrix \<Rightarrow> bit_matrix option" where
  "closure_loop es changed matrix =
     (if changed then do {
        (changed, matrix) \<leftarrow> for_each closure_step es (False, matrix);
        closure_loop es changed matrix
      } else Some matrix)"

declare closure_loop.simps [code]

definition compute_closure :: "'a transitive_relation \<Rightarrow> bit_matrix option" where
  "compute_closure t = closure_loop (edges t) True (bitmatrix_new (length (elements t)) (length (elements t)))"

definition with_closure ::
    "'a transitive_relation \<Rightarrow> (bit_matrix \<Rightarrow> 'r option) \<Rightarrow> ('r \<times> 'a transitive_relation) option" where
  "with_closure t f = do {
     matrix \<leftarrow> (case closure t of None \<Rightarrow> compute_closure t | Some m \<Rightarrow> Some m);
     result \<leftarrow> f matrix;
     Some (result, t\<lparr>closure := Some matrix\<rparr>)
   }"

definition tr_contains ::
    "'a index_set_ops \<Rightarrow> 'a transitive_relation \<Rightarrow> 'a \<Rightarrow> 'a \<Rightarrow> (bool \<times> 'a transitive_relation) option" where
  "tr_contains X t a b = (case (tr_index X t a, tr_index X t b) of
       (Some a, Some b) \<Rightarrow> with_closure t (\<lambda>m. bitmatrix_contains m a b)
     | _ \<Rightarrow> Some (False, t))"

definition reachable_from ::
    "'a index_set_ops \<Rightarrow> 'a transitive_relation \<Rightarrow> 'a \<Rightarrow> ('a list \<times> 'a transitive_relation) option" where
  "reachable_from X t a = (case tr_index X t a of
       Some a \<Rightarrow> with_closure t (\<lambda>m. do {
         it \<leftarrow> bitmatrix_iter m a;
         those (map (index_at (elements t)) (bit_iter_collect it))
       })
     | None \<Rightarrow> Some ([], t))"

text \<open>
  \<open>pare_down\<close> works in place: \<open>pare_inner\<close> is its inner loop, at the position \<open>j\<close> with \<open>dead\<close> elements
  dropped, with the \<open>truncate\<close> that follows; \<open>pare_outer\<close> is the loop around it.
\<close>

function pare_inner :: "bit_matrix \<Rightarrow> nat \<Rightarrow> nat list \<Rightarrow> nat \<Rightarrow> nat \<Rightarrow> nat list option" where
  "pare_inner m candidate_i candidates j dead =
     (if j < length candidates then do {
        let candidate_j = candidates ! j;
        c \<leftarrow> bitmatrix_contains m candidate_i candidate_j;
        if c then pare_inner m candidate_i candidates (j + 1) (dead + 1)
        else do {
          k \<leftarrow> checked_sub j dead;
          candidates' \<leftarrow> store_at candidates k candidate_j;
          pare_inner m candidate_i candidates' (j + 1) dead
        }
      } else do {
        k \<leftarrow> checked_sub j dead;
        Some (take k candidates)
      })"
  by pat_completeness auto
termination
  by (relation "measure (\<lambda>(m, ci, xs, j, d). length xs - j)") (auto simp: store_at_def split: if_splits)

declare pare_inner.simps [simp del]

lemma pare_inner_length:
  "pare_inner m ci xs j d = Some ys \<Longrightarrow> length ys \<le> length xs"
proof (induction m ci xs j d rule: pare_inner.induct)
  case (1 m ci xs j d)
  from 1(3) show ?case
    by (subst (asm) pare_inner.simps)
      (auto simp: Let_def store_at_def checked_sub_def split: if_splits bind_splits dest: 1(1) 1(2))
qed

function pare_outer :: "bit_matrix \<Rightarrow> nat list \<Rightarrow> nat \<Rightarrow> nat list option" where
  "pare_outer m candidates i =
     (if i < length candidates then do {
        candidates' \<leftarrow> pare_inner m (candidates ! i) candidates (i + 1) 0;
        pare_outer m candidates' (i + 1)
      } else Some candidates)"
  by pat_completeness auto
termination
  by (relation "measure (\<lambda>(m, xs, i). length xs - i)") (auto dest: pare_inner_length)

declare pare_outer.simps [simp del]

definition pare_down :: "nat list \<Rightarrow> bit_matrix \<Rightarrow> nat list option" where
  "pare_down candidates m = pare_outer m candidates 0"

definition minimal_upper_bounds ::
    "'a index_set_ops \<Rightarrow> 'a transitive_relation \<Rightarrow> 'a \<Rightarrow> 'a \<Rightarrow> ('a list \<times> 'a transitive_relation) option" where
  "minimal_upper_bounds X t a b = (case (tr_index X t a, tr_index X t b) of
       (Some a, Some b) \<Rightarrow> do {
         let (a, b) = (if a > b then (b, a) else (a, b));
         (lub_indices, t) \<leftarrow> with_closure t (\<lambda>m. do {
           ab \<leftarrow> bitmatrix_contains m a b;
           if ab then Some [b]
           else do {
             ba \<leftarrow> bitmatrix_contains m b a;
             if ba then Some [a]
             else do {
               candidates \<leftarrow> bitmatrix_intersect_rows m a b;
               candidates \<leftarrow> pare_down candidates m;
               pare_down (rev candidates) m
             }
           }
         });
         result \<leftarrow> those (map (index_at (elements t)) (rev lub_indices));
         Some (result, t)
       }
     | _ \<Rightarrow> Some ([], t))"

partial_function (option) mutual_immediate_postdominator ::
    "'a index_set_ops \<Rightarrow> 'a transitive_relation \<Rightarrow> 'a list \<Rightarrow> ('a option \<times> 'a transitive_relation) option" where
  "mutual_immediate_postdominator X t mubs =
     (if length mubs = 0 then Some (None, t)
      else if length mubs = 1 then Some (Some (mubs ! 0), t)
      else do {
        let m = last mubs;
        let mubs = butlast mubs;
        let n = last mubs;
        let mubs = butlast mubs;
        (bounds, t) \<leftarrow> minimal_upper_bounds X t n m;
        mutual_immediate_postdominator X t (mubs @ bounds)
      })"

declare mutual_immediate_postdominator.simps [code]

definition postdom_upper_bound ::
    "'a index_set_ops \<Rightarrow> 'a transitive_relation \<Rightarrow> 'a \<Rightarrow> 'a \<Rightarrow> ('a option \<times> 'a transitive_relation) option" where
  "postdom_upper_bound X t a b = do {
     (mubs, t) \<leftarrow> minimal_upper_bounds X t a b;
     mutual_immediate_postdominator X t mubs
   }"

text \<open>\<open>Vec::retain\<close> with a test that may panic.\<close>

fun retain_with :: "('a \<Rightarrow> bool option) \<Rightarrow> 'a list \<Rightarrow> 'a list option" where
  "retain_with P [] = Some []"
| "retain_with P (x # xs) = do {
     keep \<leftarrow> P x;
     ys \<leftarrow> retain_with P xs;
     Some (if keep then x # ys else ys)
   }"

definition parents ::
    "'a index_set_ops \<Rightarrow> 'a transitive_relation \<Rightarrow> 'a \<Rightarrow> ('a list \<times> 'a transitive_relation) option" where
  "parents X t a = (case tr_index X t a of
       None \<Rightarrow> Some ([], t)
     | Some a \<Rightarrow> do {
         (ancestors, t) \<leftarrow> with_closure t (\<lambda>m. do {
           ancestors \<leftarrow> bitmatrix_intersect_rows m a a;
           ancestors \<leftarrow> retain_with (\<lambda>e. map_option Not (bitmatrix_contains m e a)) ancestors;
           ancestors \<leftarrow> pare_down ancestors m;
           pare_down (rev ancestors) m
         });
         result \<leftarrow> those (map (index_at (elements t)) (rev ancestors));
         Some (result, t)
       })"

definition base_edges :: "'a transitive_relation \<Rightarrow> ('a \<times> 'a) list option" where
  "base_edges t = those (map (\<lambda>edge. do {
     a \<leftarrow> index_at (elements t) (source edge);
     b \<leftarrow> index_at (elements t) (target edge);
     Some (a, b)
   }) (edges t))"


section \<open>The closure loop\<close>

definition edge_rel :: "edge list \<Rightarrow> (nat \<times> nat) set" where
  "edge_rel es = (\<lambda>e. (source e, target e)) ` set es"

lemma edge_rel_append [simp]: "edge_rel (xs @ ys) = edge_rel xs \<union> edge_rel ys"
  by (auto simp: edge_rel_def)

lemma edge_rel_simps [simp]: "edge_rel [] = {}" "edge_rel (e # es) = insert (source e, target e) (edge_rel es)"
  by (simp_all add: edge_rel_def)

text \<open>A square matrix of dimension \<open>n\<close> and the relation it holds.\<close>

definition square_matrix :: "nat \<Rightarrow> bit_matrix \<Rightarrow> bool" where
  "square_matrix n m \<longleftrightarrow> bitmatrix_inv m \<and> num_rows m = n \<and> num_columns m = n"

lemma square_matrix_rel: "square_matrix n m \<Longrightarrow> bitmatrix_rel m \<subseteq> {..<n} \<times> {..<n}"
  using bitmatrix_invD(2) [of m] by (auto simp: square_matrix_def bitmatrix_rel_def)

lemma closure_step_spec:
  assumes m: "square_matrix n m" and e: "source e < n" "target e < n"
  shows "\<exists>m'. closure_step e (ch, m) = Some (ch \<or> bitmatrix_rel m' \<noteq> bitmatrix_rel m, m') \<and> square_matrix n m' \<and>
      bitmatrix_rel m' = bitmatrix_rel m \<union> {(source e, target e)} \<union>
        {source e} \<times> (insert (source e, target e) (bitmatrix_rel m) `` {target e})"
proof -
  from m e have inv: "bitmatrix_inv m" "source e < num_rows m" "target e < num_columns m"
    by (simp_all add: square_matrix_def)
  from bitmatrix_insert_ok [OF inv] obtain m1 where m1:
      "bitmatrix_insert m (source e) (target e) = Some ((source e, target e) \<notin> bitmatrix_rel m, m1)"
      "bitmatrix_inv m1" "num_rows m1 = n" "num_columns m1 = n"
      "bitmatrix_rel m1 = insert (source e, target e) (bitmatrix_rel m)"
    using m by (auto simp: square_matrix_def)
  from m1 e bitmatrix_union_rows_ok [of m1 "target e" "source e"] obtain m2 where m2:
      "bitmatrix_union_rows m1 (target e) (source e) = Some (bitmatrix_rel m2 \<noteq> bitmatrix_rel m1, m2)"
      "square_matrix n m2" "bitmatrix_rel m2 = bitmatrix_rel m1 \<union> {source e} \<times> (bitmatrix_rel m1 `` {target e})"
    by (auto simp: square_matrix_def)
  then have "bitmatrix_rel m \<subseteq> bitmatrix_rel m1" "bitmatrix_rel m1 \<subseteq> bitmatrix_rel m2" using m1 by auto
  then have "((source e, target e) \<notin> bitmatrix_rel m \<or> bitmatrix_rel m2 \<noteq> bitmatrix_rel m1) \<longleftrightarrow>
      bitmatrix_rel m2 \<noteq> bitmatrix_rel m" using m1(5) by auto
  with m1 m2 show ?thesis
    by (intro exI [of _ m2]) (auto simp: closure_step_def)
qed

text \<open>
  One round keeps the matrix between the edges and their transitive closure, and if it changes nothing
  the matrix is closed under every edge.
\<close>

lemma closure_round_spec:
  assumes m: "square_matrix n m" and es: "edge_rel es \<subseteq> {..<n} \<times> {..<n}"
    and sub: "bitmatrix_rel m \<subseteq> E\<^sup>+" "edge_rel es \<subseteq> E"
  shows "\<exists>ch m'. for_each closure_step es (False, m) = Some (ch, m') \<and> square_matrix n m' \<and>
      bitmatrix_rel m \<subseteq> bitmatrix_rel m' \<and> bitmatrix_rel m' \<subseteq> E\<^sup>+ \<and> ch = (bitmatrix_rel m' \<noteq> bitmatrix_rel m) \<and>
      (\<not> ch \<longrightarrow> edge_rel es \<subseteq> bitmatrix_rel m \<and> edge_rel es O bitmatrix_rel m \<subseteq> bitmatrix_rel m)"
proof -
  let ?R = "bitmatrix_rel m"
  let ?I = "\<lambda>ys (ch, m'). square_matrix n m' \<and> ?R \<subseteq> bitmatrix_rel m' \<and> bitmatrix_rel m' \<subseteq> E\<^sup>+ \<and>
      ch = (bitmatrix_rel m' \<noteq> ?R) \<and> (\<not> ch \<longrightarrow> edge_rel ys \<subseteq> ?R \<and> edge_rel ys O ?R \<subseteq> ?R)"
  have "\<exists>s. for_each closure_step es (False, m) = Some s \<and> ?I es s"
  proof (rule for_each_rule [where I = ?I])
    fix ys y zs s
    assume split: "es = ys @ y # zs" and I: "?I ys s"
    obtain ch m1 where s: "s = (ch, m1)" by (cases s)
    have y: "(source y, target y) \<in> edge_rel es" by (simp add: split edge_rel_def)
    with es have lt: "source y < n" "target y < n" by auto
    let ?e = "(source y, target y)"
    from closure_step_spec [OF _ lt, of m1 ch] I s obtain m2 where m2:
        "closure_step y (ch, m1) = Some (ch \<or> bitmatrix_rel m2 \<noteq> bitmatrix_rel m1, m2)" "square_matrix n m2"
        and rel: "bitmatrix_rel m2 = bitmatrix_rel m1 \<union> {?e} \<union> {source y} \<times> (insert ?e (bitmatrix_rel m1) `` {target y})"
      by auto
    have grows: "?R \<subseteq> bitmatrix_rel m1" "bitmatrix_rel m1 \<subseteq> bitmatrix_rel m2" using I s rel by auto
    have "insert ?e (bitmatrix_rel m1) \<subseteq> E\<^sup>+" using I s y sub(2) by auto
    then have closed: "bitmatrix_rel m2 \<subseteq> E\<^sup>+"
      unfolding rel by (fastforce intro: trancl_trans)
    have kept: "edge_rel (ys @ [y]) \<subseteq> ?R \<and> edge_rel (ys @ [y]) O ?R \<subseteq> ?R" if "bitmatrix_rel m2 = ?R"
    proof -
      have "bitmatrix_rel m1 = ?R" using that grows by simp
      then have "?e \<in> ?R" "{source y} \<times> (?R `` {target y}) \<subseteq> ?R" using that rel by auto
      moreover have "edge_rel ys \<subseteq> ?R \<and> edge_rel ys O ?R \<subseteq> ?R" using I s \<open>bitmatrix_rel m1 = ?R\<close> by simp
      ultimately show ?thesis by auto
    qed
    have "(ch \<or> bitmatrix_rel m2 \<noteq> bitmatrix_rel m1) = (bitmatrix_rel m2 \<noteq> ?R)"
      using I s grows by auto
    with m2(2) closed kept grows have "?I (ys @ [y]) (ch \<or> bitmatrix_rel m2 \<noteq> bitmatrix_rel m1, m2)"
      by simp
    with m2(1) s show "\<exists>s'. closure_step y s = Some s' \<and> ?I (ys @ [y]) s'" by blast
  qed (use m sub in \<open>simp add: edge_rel_def\<close>)
  then show ?thesis by (simp split: prod.splits)
qed

lemma trancl_subset_closed:
  assumes "E \<subseteq> R" "E O R \<subseteq> R"
  shows "E\<^sup>+ \<subseteq> R"
proof (rule subrelI)
  fix x y assume "(x, y) \<in> E\<^sup>+"
  then show "(x, y) \<in> R" by (induction rule: converse_trancl_induct) (use assms in auto)
qed

lemma closure_loop_False [simp]: "closure_loop es False m = Some m"
  by (subst closure_loop.simps) simp

lemma closure_loop_True:
  "closure_loop es True m = for_each closure_step es (False, m) \<bind> (\<lambda>(ch, m'). closure_loop es ch m')"
  by (subst closure_loop.simps) simp

text \<open>The loop ends: every round but the last adds a pair to a relation on \<open>n\<close> indices.\<close>

lemma closure_loop_spec:
  assumes "square_matrix n m" "edge_rel es \<subseteq> {..<n} \<times> {..<n}" "bitmatrix_rel m \<subseteq> (edge_rel es)\<^sup>+"
  shows "\<exists>m'. closure_loop es True m = Some m' \<and> square_matrix n m' \<and> bitmatrix_rel m' = (edge_rel es)\<^sup>+"
  using assms(1,3)
proof (induction "n * n - card (bitmatrix_rel m)" arbitrary: m rule: less_induct)
  case less
  obtain ch m' where round: "for_each closure_step es (False, m) = Some (ch, m')" "square_matrix n m'"
      "bitmatrix_rel m \<subseteq> bitmatrix_rel m'" "bitmatrix_rel m' \<subseteq> (edge_rel es)\<^sup>+" "ch = (bitmatrix_rel m' \<noteq> bitmatrix_rel m)"
      "\<not> ch \<longrightarrow> edge_rel es \<subseteq> bitmatrix_rel m \<and> edge_rel es O bitmatrix_rel m \<subseteq> bitmatrix_rel m"
    using closure_round_spec [OF less.prems(1) assms(2) less.prems(2) subset_refl] by blast
  show ?case
  proof (cases ch)
    case True
    have fin: "finite (bitmatrix_rel m')" and le: "card (bitmatrix_rel m') \<le> n * n"
      using square_matrix_rel [OF round(2)] card_mono [OF _ square_matrix_rel [OF round(2)]]
      by (auto intro: finite_subset)
    with True round have "card (bitmatrix_rel m) < card (bitmatrix_rel m')" by (intro psubset_card_mono) auto
    with le have "n * n - card (bitmatrix_rel m') < n * n - card (bitmatrix_rel m)" by linarith
    from less.hyps [OF this round(2,4)] True round(1) show ?thesis by (simp add: closure_loop_True [of es m])
  next
    case False
    then have "(edge_rel es)\<^sup>+ \<subseteq> bitmatrix_rel m" using round(6) trancl_subset_closed by blast
    with False round show ?thesis by (simp add: closure_loop_True)
  qed
qed


section \<open>Paring down\<close>

text \<open>What \<open>pare_down\<close> computes: each element removes the later ones it reaches.\<close>

function pare :: "(nat \<times> nat) set \<Rightarrow> nat list \<Rightarrow> nat list" where
  "pare R [] = []"
| "pare R (x # xs) = x # pare R (filter (\<lambda>y. (x, y) \<notin> R) xs)"
  by pat_completeness auto
termination by (relation "measure (\<lambda>(R, xs). length xs)") (auto simp: le_imp_less_Suc)

lemma pare_inner_eq:
  assumes m: "square_matrix n m" and x: "x < n"
  shows "set (drop j xs) \<subseteq> {..<n} \<Longrightarrow> dead \<le> j \<Longrightarrow> j \<le> length xs \<Longrightarrow>
    pare_inner m x xs j dead = Some (take (j - dead) xs @ filter (\<lambda>y. (x, y) \<notin> bitmatrix_rel m) (drop j xs))"
proof (induction "length xs - j" arbitrary: xs j dead)
  case 0
  then show ?case by (subst pare_inner.simps) simp
next
  case (Suc k)
  then have j: "j < length xs" by simp
  then have drop: "drop j xs = xs ! j # drop (Suc j) xs" by (rule Cons_nth_drop_Suc [symmetric])
  then have y: "xs ! j < n" "set (drop (Suc j) xs) \<subseteq> {..<n}" using Suc.prems(1) by auto
  then have c: "bitmatrix_contains m x (xs ! j) = Some ((x, xs ! j) \<in> bitmatrix_rel m)"
    using m x by (intro bitmatrix_contains_eq) (simp_all add: square_matrix_def)
  show ?case
  proof (cases "(x, xs ! j) \<in> bitmatrix_rel m")
    case True
    with Suc.hyps(1) [of xs "Suc j" "Suc dead"] Suc.hyps(2) Suc.prems j y c drop show ?thesis
      by (subst pare_inner.simps) simp
  next
    case False
    let ?ys = "xs[j - dead := xs ! j]"
    have same: "drop (Suc j) ?ys = drop (Suc j) xs" using Suc.prems(2) by simp
    have "take (Suc j - dead) ?ys = take (j - dead) xs @ [xs ! j]"
      using Suc.prems(2) j by (simp add: Suc_diff_le take_Suc_conv_app_nth)
    with Suc.hyps(1) [of ?ys "Suc j" dead] Suc.hyps(2) Suc.prems j y c drop False same show ?thesis
      by (subst pare_inner.simps) (simp add: le_less_trans [OF diff_le_self])
  qed
qed

lemma pare_outer_eq:
  assumes "square_matrix n m" "set (ys @ xs) \<subseteq> {..<n}"
  shows "pare_outer m (ys @ xs) (length ys) = Some (ys @ pare (bitmatrix_rel m) xs)"
  using assms(2)
proof (induction "length xs" arbitrary: ys xs rule: less_induct)
  case less
  show ?case
  proof (cases xs)
    case Nil
    then show ?thesis by (subst pare_outer.simps) simp
  next
    case (Cons x zs)
    let ?zs = "filter (\<lambda>y. (x, y) \<notin> bitmatrix_rel m) zs"
    have "pare_inner m x (ys @ xs) (length ys + 1) 0 = Some ((ys @ [x]) @ ?zs)"
      using pare_inner_eq [OF assms(1), of x "length ys + 1" "ys @ xs" 0] less.prems Cons by simp
    moreover have "pare_outer m ((ys @ [x]) @ ?zs) (length (ys @ [x])) = Some ((ys @ [x]) @ pare (bitmatrix_rel m) ?zs)"
      using less.prems Cons by (intro less.hyps) (auto simp: le_imp_less_Suc)
    ultimately show ?thesis using Cons by (subst pare_outer.simps) simp
  qed
qed

lemma pare_down_eq:
  "square_matrix n m \<Longrightarrow> set xs \<subseteq> {..<n} \<Longrightarrow> pare_down xs m = Some (pare (bitmatrix_rel m) xs)"
  using pare_outer_eq [of n m "[]" xs] by (simp add: pare_down_def)

text \<open>No element kept reaches a later one, and every element dropped is reached from one kept before it.\<close>

lemma pare_subset: "set (pare R xs) \<subseteq> set xs"
  by (induction R xs rule: pare.induct) auto

lemma pare_sorted_wrt: "sorted_wrt P xs \<Longrightarrow> sorted_wrt P (pare R xs)"
proof (induction R xs rule: pare.induct)
  case (2 R x xs)
  then show ?case using pare_subset [of R "filter (\<lambda>y. (x, y) \<notin> R) xs"] by (auto simp: sorted_wrt_filter)
qed simp

lemma pare_unreached: "sorted_wrt (\<lambda>x y. (x, y) \<notin> R) (pare R xs)"
proof (induction R xs rule: pare.induct)
  case (2 R x xs)
  then show ?case using pare_subset [of R "filter (\<lambda>y. (x, y) \<notin> R) xs"] by auto
qed simp

lemma pare_covers: "y \<in> set xs \<Longrightarrow> \<exists>x \<in> set (pare R xs). x = y \<or> (x, y) \<in> R"
proof (induction R xs rule: pare.induct)
  case (2 R x xs)
  then show ?case by (cases "y = x \<or> (x, y) \<in> R") auto
qed simp

text \<open>On an ascending list, an element that is kept is reached from no smaller element of the list.\<close>

lemma pare_smallest:
  "trans R \<Longrightarrow> sorted_wrt (<) xs \<Longrightarrow> x \<in> set (pare R xs) \<Longrightarrow> y \<in> set xs \<Longrightarrow> (y, x) \<in> R \<Longrightarrow> x \<le> y"
proof (induction R xs rule: pare.induct)
  case (2 R z xs)
  show ?case
  proof (cases "x = z")
    case True
    with "2.prems"(2,4) show ?thesis by auto
  next
    case False
    with "2.prems"(3) have x: "x \<in> set (pare R (filter (\<lambda>y. (z, y) \<notin> R) xs))" by simp
    then have "(z, x) \<notin> R" using pare_subset by fastforce
    with "2.prems"(1,4,5) have "y \<in> set (filter (\<lambda>y. (z, y) \<notin> R) xs)" by (auto dest: transD)
    with "2.IH" "2.prems"(1,2,5) x show ?thesis by (simp add: sorted_wrt_filter)
  qed
qed simp

text \<open>
  The two passes over an ascending list of candidates: what remains are the candidates that are minimal up
  to cycles, the smallest index of each cycle, in descending order.
\<close>

definition minimal_in :: "(nat \<times> nat) set \<Rightarrow> nat set \<Rightarrow> nat set" where
  "minimal_in R C = {x \<in> C. \<forall>y \<in> C. (y, x) \<in> R \<longrightarrow> (x, y) \<in> R \<and> x \<le> y}"

lemma sorted_wrt_rev_distinct:
  assumes "sorted_wrt P xs" "sorted_wrt (\<lambda>x y. P y x) xs" "x \<in> set xs" "y \<in> set xs" "x \<noteq> y"
  shows "P x y"
  using assms by (induction xs) auto

lemma minimal_in_eqI:
  assumes "trans R" "S \<subseteq> C"
    and anti: "\<And>x y. x \<in> S \<Longrightarrow> y \<in> S \<Longrightarrow> x \<noteq> y \<Longrightarrow> (x, y) \<notin> R"
    and covers: "\<And>y. y \<in> C \<Longrightarrow> \<exists>x \<in> S. x = y \<or> (x, y) \<in> R"
    and small: "\<And>x y. x \<in> S \<Longrightarrow> y \<in> C \<Longrightarrow> (y, x) \<in> R \<Longrightarrow> x \<le> y"
  shows "S = minimal_in R C"
proof
  show "S \<subseteq> minimal_in R C"
  proof
    fix x assume x: "x \<in> S"
    have "(x, y) \<in> R" if y: "y \<in> C" "(y, x) \<in> R" for y
    proof -
      obtain z where "z \<in> S" "z = y \<or> (z, y) \<in> R" using covers [OF y(1)] by blast
      with y(2) x anti assms(1) show ?thesis by (metis transE)
    qed
    with x small assms(2) show "x \<in> minimal_in R C" by (auto simp: minimal_in_def)
  qed
  show "minimal_in R C \<subseteq> S"
  proof
    fix x assume x: "x \<in> minimal_in R C"
    then obtain z where z: "z \<in> S" "z = x \<or> (z, x) \<in> R" using covers by (auto simp: minimal_in_def)
    with x assms(2) have "z = x \<or> (x, z) \<in> R \<and> x \<le> z" by (auto simp: minimal_in_def)
    with z x small show "x \<in> S" by (fastforce simp: minimal_in_def)
  qed
qed

lemma pare_twice:
  assumes "finite C" "trans R"
  shows "rev (pare R (rev (pare R (sorted_list_of_set C)))) = sorted_list_of_set (minimal_in R C)"
proof -
  let ?xs = "pare R (sorted_list_of_set C)" and ?ys = "pare R (rev (pare R (sorted_list_of_set C)))"
  have xs: "set ?xs \<subseteq> C" and ys: "set ?ys \<subseteq> set ?xs"
    using pare_subset [of R "sorted_list_of_set C"] pare_subset [of R "rev ?xs"] assms(1) by auto
  have asc: "sorted_wrt (<) (rev ?ys)"
    using pare_sorted_wrt [of "\<lambda>x y. y < x" "rev ?xs" R] pare_sorted_wrt [of "(<)" "sorted_list_of_set C" R]
    by (simp add: sorted_wrt_rev)
  have "set ?ys = minimal_in R C"
  proof (rule minimal_in_eqI [OF assms(2)])
    show "set ?ys \<subseteq> C" using xs ys by blast
    show "(x, y) \<notin> R" if "x \<in> set ?ys" "y \<in> set ?ys" "x \<noteq> y" for x y
    proof (rule sorted_wrt_rev_distinct [of "\<lambda>x y. (x, y) \<notin> R", OF pare_unreached _ that])
      show "sorted_wrt (\<lambda>x y. (y, x) \<notin> R) ?ys"
        using pare_sorted_wrt [of "\<lambda>x y. (y, x) \<notin> R" "rev ?xs" R] pare_unreached [of R "sorted_list_of_set C"]
        by (simp add: sorted_wrt_rev)
    qed
    show "\<exists>x \<in> set ?ys. x = y \<or> (x, y) \<in> R" if y: "y \<in> C" for y
    proof -
      obtain z where z: "z \<in> set ?xs" "z = y \<or> (z, y) \<in> R"
        using pare_covers [of y "sorted_list_of_set C" R] y assms(1) by auto
      then obtain x where "x \<in> set ?ys" "x = z \<or> (x, z) \<in> R" using pare_covers [of z "rev ?xs" R] by auto
      with z assms(2) show ?thesis by (auto dest: transD)
    qed
    show "x \<le> y" if "x \<in> set ?ys" "y \<in> C" "(y, x) \<in> R" for x y
      using pare_smallest [OF assms(2) _ _ _ that(3), of "sorted_list_of_set C"] that ys assms(1) by auto
  qed
  with asc show ?thesis
    by (metis set_rev sorted_list_of_set.idem_if_sorted_distinct strict_sorted_iff)
qed


section \<open>The relation on elements\<close>

text \<open>The base edges as pairs of elements, and the relation the queries answer for.\<close>

definition tr_base :: "'a transitive_relation \<Rightarrow> ('a \<times> 'a) set" where
  "tr_base t = map_prod (nth (elements t)) (nth (elements t)) ` edge_rel (edges t)"

definition tr_less :: "'a transitive_relation \<Rightarrow> ('a \<times> 'a) set" where
  "tr_less t = (tr_base t)\<^sup>+"

text \<open>
  The invariant: the elements are distinct, the edges join elements, and a cached matrix is the transitive
  closure of the edges there are now.
\<close>

definition is_closure :: "'a transitive_relation \<Rightarrow> bit_matrix \<Rightarrow> bool" where
  "is_closure t m \<longleftrightarrow> square_matrix (length (elements t)) m \<and> bitmatrix_rel m = (edge_rel (edges t))\<^sup>+"

definition tr_inv :: "'a transitive_relation \<Rightarrow> bool" where
  "tr_inv t \<longleftrightarrow> distinct (elements t) \<and>
     edge_rel (edges t) \<subseteq> {..<length (elements t)} \<times> {..<length (elements t)} \<and>
     (\<forall>m. closure t = Some m \<longrightarrow> is_closure t m)"

text \<open>What a query may change: only the cache.\<close>

definition same_relation :: "'a transitive_relation \<Rightarrow> 'a transitive_relation \<Rightarrow> bool" where
  "same_relation t t' \<longleftrightarrow> elements t' = elements t \<and> edges t' = edges t"

lemma same_relation_refl [simp]: "same_relation t t"
  by (simp add: same_relation_def)

lemma same_relation_trans: "same_relation t t' \<Longrightarrow> same_relation t' t'' \<Longrightarrow> same_relation t t''"
  by (simp add: same_relation_def)

lemma same_relation_less: "same_relation t t' \<Longrightarrow> tr_less t' = tr_less t"
  by (simp add: same_relation_def tr_less_def tr_base_def)

lemma trancl_image_inj:
  assumes "inj_on f A" "E \<subseteq> A \<times> A" "x \<in> A" "y \<in> A"
  shows "(f x, f y) \<in> (map_prod f f ` E)\<^sup>+ \<longleftrightarrow> (x, y) \<in> E\<^sup>+"
proof
  have "(u, v) \<in> (map_prod f f ` E)\<^sup>+ \<Longrightarrow> u = f x \<Longrightarrow> \<exists>y \<in> A. v = f y \<and> (x, y) \<in> E\<^sup>+" for u v
  proof (induction rule: trancl_induct)
    case (base v)
    then show ?case using assms(1-3) by (fastforce dest: inj_onD)
  next
    case (step v w)
    then obtain y' w' where "y' \<in> A" "v = f y'" "(x, y') \<in> E\<^sup>+" "(v, w) \<in> map_prod f f ` E" by blast
    then show ?case using assms(1,2) by (fastforce dest: inj_onD intro: trancl_into_trancl)
  qed
  then show "(f x, f y) \<in> (map_prod f f ` E)\<^sup>+ \<Longrightarrow> (x, y) \<in> E\<^sup>+"
    using assms(1,4) by (metis inj_onD)
  show "(x, y) \<in> E\<^sup>+ \<Longrightarrow> (f x, f y) \<in> (map_prod f f ` E)\<^sup>+"
    by (induction rule: trancl_induct) (auto intro: trancl_into_trancl)
qed

lemma tr_less_nth:
  assumes "tr_inv t" "i < length (elements t)" "j < length (elements t)"
  shows "(elements t ! i, elements t ! j) \<in> tr_less t \<longleftrightarrow> (i, j) \<in> (edge_rel (edges t))\<^sup>+"
  unfolding tr_less_def tr_base_def
  by (rule trancl_image_inj [of _ "{..<length (elements t)}"])
    (use assms in \<open>auto simp: tr_inv_def intro: inj_on_nth\<close>)

lemma tr_less_field:
  assumes "tr_inv t"
  shows "tr_less t \<subseteq> set (elements t) \<times> set (elements t)"
proof -
  have "tr_base t \<subseteq> set (elements t) \<times> set (elements t)" using assms by (auto simp: tr_base_def tr_inv_def)
  then show ?thesis unfolding tr_less_def by (rule trancl_subset_Sigma)
qed

lemma tr_less_image:
  assumes "tr_inv t" "i < length (elements t)"
  shows "nth (elements t) ` ((edge_rel (edges t))\<^sup>+ `` {i}) = tr_less t `` {elements t ! i}"
proof
  have "(edge_rel (edges t))\<^sup>+ \<subseteq> {..<length (elements t)} \<times> {..<length (elements t)}"
    using assms(1) trancl_subset_Sigma by (auto simp: tr_inv_def)
  then show "nth (elements t) ` ((edge_rel (edges t))\<^sup>+ `` {i}) \<subseteq> tr_less t `` {elements t ! i}"
    using tr_less_nth [OF assms] by auto
  show "tr_less t `` {elements t ! i} \<subseteq> nth (elements t) ` ((edge_rel (edges t))\<^sup>+ `` {i})"
  proof
    fix y assume y: "y \<in> tr_less t `` {elements t ! i}"
    then have "y \<in> set (elements t)" using tr_less_field [OF assms(1)] by blast
    then obtain j where "j < length (elements t)" "y = elements t ! j" by (auto simp: in_set_conv_nth)
    with y tr_less_nth [OF assms] show "y \<in> nth (elements t) ` ((edge_rel (edges t))\<^sup>+ `` {i})" by auto
  qed
qed

lemma trans_tr_less [simp]: "trans (tr_less t)"
  by (simp add: tr_less_def)

lemma tr_less_trans: "(x, y) \<in> tr_less t \<Longrightarrow> (y, z) \<in> tr_less t \<Longrightarrow> (x, z) \<in> tr_less t"
  by (rule transD [OF trans_tr_less])

lemma tr_default_spec [simp]: "tr_inv tr_default" "tr_base tr_default = {}"
  by (simp_all add: tr_inv_def tr_default_def tr_base_def)

lemma with_closure_spec:
  assumes "tr_inv t" "length (elements t) \<le> MAX_DOMAIN" and f: "\<And>m. is_closure t m \<Longrightarrow> f m = Some r"
  shows "\<exists>t'. with_closure t f = Some (r, t') \<and> tr_inv t' \<and> same_relation t t'"
proof -
  let ?n = "length (elements t)"
  have "\<exists>m. (case closure t of None \<Rightarrow> compute_closure t | Some m \<Rightarrow> Some m) = Some m \<and> is_closure t m"
  proof (cases "closure t")
    case None
    have "square_matrix ?n (bitmatrix_new ?n ?n)" "bitmatrix_rel (bitmatrix_new ?n ?n) = {}"
      using bitmatrix_new_spec [OF assms(2), of ?n] by (simp_all add: square_matrix_def bitmatrix_new_def Let_def)
    with None closure_loop_spec [of ?n "bitmatrix_new ?n ?n" "edges t"] assms(1) show ?thesis
      by (auto simp: compute_closure_def is_closure_def tr_inv_def)
  next
    case (Some m)
    with assms(1) show ?thesis by (simp add: tr_inv_def)
  qed
  then obtain m where m: "(case closure t of None \<Rightarrow> compute_closure t | Some m \<Rightarrow> Some m) = Some m" "is_closure t m"
    by blast
  with f assms(1) show ?thesis
    by (auto simp: with_closure_def tr_inv_def same_relation_def is_closure_def)
qed

lemma those_index_at:
  "set is \<subseteq> {..<length xs} \<Longrightarrow> those (map (index_at xs) is) = Some (map (nth xs) is)"
  by (induction "is") auto

lemma closure_contains:
  assumes "is_closure t m" "i < length (elements t)" "j < length (elements t)"
  shows "bitmatrix_contains m i j = Some ((i, j) \<in> (edge_rel (edges t))\<^sup>+)"
  using assms bitmatrix_contains_eq [of m i j] by (simp add: is_closure_def square_matrix_def)

lemma closure_bounded: "is_closure t m \<Longrightarrow> (edge_rel (edges t))\<^sup>+ \<subseteq> {..<length (elements t)} \<times> {..<length (elements t)}"
  using square_matrix_rel by (auto simp: is_closure_def)

text \<open>The candidates of \<open>minimal_upper_bounds\<close> and \<open>parents\<close>, pared down twice.\<close>

lemma pare_down_closure:
  assumes "is_closure t m" "C \<subseteq> {..<length (elements t)}"
  shows "pare_down (sorted_list_of_set C) m \<bind> (\<lambda>xs. pare_down (rev xs) m) =
    Some (rev (sorted_list_of_set (minimal_in ((edge_rel (edges t))\<^sup>+) C)))"
proof -
  let ?R = "(edge_rel (edges t))\<^sup>+" and ?n = "length (elements t)"
  have fin: "finite C" using assms(2) finite_subset by blast
  have "square_matrix ?n m" "bitmatrix_rel m = ?R" using assms(1) by (simp_all add: is_closure_def)
  then have "pare_down (sorted_list_of_set C) m = Some (pare ?R (sorted_list_of_set C))"
    "pare_down (rev (pare ?R (sorted_list_of_set C))) m = Some (pare ?R (rev (pare ?R (sorted_list_of_set C))))"
    using pare_down_eq [of ?n m] assms(2) fin pare_subset [of ?R "sorted_list_of_set C"] by fastforce+
  with pare_twice [OF fin trans_trancl, of "edge_rel (edges t)", symmetric] show ?thesis by simp
qed

lemma retain_with_eq: "(\<And>x. x \<in> set xs \<Longrightarrow> P x = Some (Q x)) \<Longrightarrow> retain_with P xs = Some (filter Q xs)"
  by (induction xs) auto

lemma filter_sorted_list_of_set:
  "finite C \<Longrightarrow> filter P (sorted_list_of_set C) = sorted_list_of_set {x \<in> C. P x}" for C :: "nat set"
  by (rule sorted_distinct_set_unique) (auto simp: sorted_wrt_filter)

text \<open>The order the elements were added in, which the queries use to choose between equivalent elements.\<close>

definition tr_before :: "'a transitive_relation \<Rightarrow> 'a \<Rightarrow> 'a \<Rightarrow> bool" where
  "tr_before t x y \<longleftrightarrow> (\<exists>i j. i \<le> j \<and> j < length (elements t) \<and> x = elements t ! i \<and> y = elements t ! j)"

lemma tr_before_nth:
  assumes "tr_inv t" "i < length (elements t)" "j < length (elements t)"
  shows "tr_before t (elements t ! i) (elements t ! j) \<longleftrightarrow> i \<le> j"
  using assms by (auto simp: tr_before_def tr_inv_def nth_eq_iff_index_eq)

text \<open>The elements of a set that are minimal up to cycles, the first one added of each cycle.\<close>

definition minimal_elements :: "'a transitive_relation \<Rightarrow> 'a set \<Rightarrow> 'a set" where
  "minimal_elements t C = {x \<in> C. \<forall>y \<in> C. (y, x) \<in> tr_less t \<longrightarrow> (x, y) \<in> tr_less t \<and> tr_before t x y}"

lemma minimal_elements_nth:
  assumes "tr_inv t" "C \<subseteq> {..<length (elements t)}"
  shows "nth (elements t) ` minimal_in ((edge_rel (edges t))\<^sup>+) C = minimal_elements t (nth (elements t) ` C)"
proof -
  have "x \<in> C \<Longrightarrow> x < length (elements t)" for x using assms(2) by blast
  then show ?thesis
    using tr_less_nth [OF assms(1)] tr_before_nth [OF assms(1)]
    by (auto simp: minimal_in_def minimal_elements_def image_iff)
qed

text \<open>Strictly above, leaving out cycles, is well-founded: there are finitely many elements.\<close>

lemma wf_strictly_above:
  assumes "tr_inv t"
  shows "wf {(y, x). (x, y) \<in> tr_less t \<and> (y, x) \<notin> tr_less t}" (is "wf ?S")
proof (rule finite_acyclic_wf)
  have "?S \<subseteq> set (elements t) \<times> set (elements t)" using tr_less_field [OF assms] by auto
  then show "finite ?S" by (rule finite_subset) simp
  have "trans ?S" by (rule transI) (simp, meson trans_tr_less transE)
  then show "acyclic ?S" by (auto simp: acyclic_def)
qed

lemma bounds_decrease:
  assumes "bounds = [n] \<or> bounds = [m] \<or> (\<forall>x \<in> set bounds. (x, n) \<in> S)"
  shows "(mset (rest @ bounds), mset (rest @ [n, m])) \<in> mult S"
  using assms one_step_implies_mult [of "{#m#}" "{#}" S "mset (rest @ [n])"]
    one_step_implies_mult [of "{#n#}" "{#}" S "mset (rest @ [m])"]
    one_step_implies_mult [of "{#n, m#}" "mset bounds" S "mset rest"]
  by (auto simp: add_mset_commute)

context index_set_laws
begin

lemma index_nth: "tr_inv t \<Longrightarrow> i < length (elements t) \<Longrightarrow> tr_index X t (elements t ! i) = Some i"
  by (simp add: tr_index_def tr_inv_def get_index_of_present)

lemma index_absent: "tr_inv t \<Longrightarrow> a \<notin> set (elements t) \<Longrightarrow> tr_index X t a = None"
  by (simp add: tr_index_def tr_inv_def get_index_of_absent)

lemma add_index_spec:
  assumes "tr_inv t"
  shows "\<exists>i t'. add_index X t a = (i, t') \<and> tr_inv t' \<and> edges t' = edges t \<and> prefix (elements t) (elements t') \<and>
    length (elements t') \<le> Suc (length (elements t)) \<and> i < length (elements t') \<and> elements t' ! i = a"
proof (cases "a \<in> set (elements t)")
  case True
  then obtain i where i: "i < length (elements t)" "a = elements t ! i" by (auto simp: in_set_conv_nth)
  then have "ix_insert_full X (elements t) a = ((i, False), elements t)"
    using assms by (simp add: tr_inv_def insert_full_present)
  with i assms show ?thesis by (auto simp: add_index_def)
next
  case False
  then have "ix_insert_full X (elements t) a = ((length (elements t), True), elements t @ [a])"
    using assms by (simp add: tr_inv_def insert_full_absent)
  moreover have "edge_rel (edges t) \<subseteq> {..<Suc (length (elements t))} \<times> {..<Suc (length (elements t))}"
    using assms less_SucI by (fastforce simp: tr_inv_def)
  ultimately show ?thesis using assms False by (simp add: add_index_def tr_inv_def)
qed

lemma add_spec:
  assumes "tr_inv t"
  shows "tr_inv (tr_add X t a b)" and "tr_base (tr_add X t a b) = insert (a, b) (tr_base t)"
    and "length (elements (tr_add X t a b)) \<le> length (elements t) + 2" and "prefix (elements t) (elements (tr_add X t a b))"
proof -
  obtain i t1 where t1: "add_index X t a = (i, t1)" "tr_inv t1" "edges t1 = edges t" "prefix (elements t) (elements t1)"
      "length (elements t1) \<le> Suc (length (elements t))" "i < length (elements t1)" "elements t1 ! i = a"
    using add_index_spec [OF assms, of a] by blast
  obtain j t2 where t2: "add_index X t1 b = (j, t2)" "tr_inv t2" "edges t2 = edges t1" "prefix (elements t1) (elements t2)"
      "length (elements t2) \<le> Suc (length (elements t1))" "j < length (elements t2)" "elements t2 ! j = b"
    using add_index_spec [OF t1(2), of b] by blast
  let ?e = "\<lparr>source = i, target = j\<rparr>"
  let ?t = "if ?e \<notin> set (edges t2) then t2\<lparr>edges := edges t2 @ [?e], closure := None\<rparr> else t2"
  have add: "tr_add X t a b = ?t" using t1(1) t2(1) by (simp add: tr_add_def)
  have els: "elements ?t = elements t2" by simp
  have i: "i < length (elements t2)" "elements t2 ! i = a"
    using t1(6,7) t2(4) by (auto simp: prefix_def nth_append)
  show "length (elements (tr_add X t a b)) \<le> length (elements t) + 2" "prefix (elements t) (elements (tr_add X t a b))"
    using add els t1(4,5) t2(4,5) prefix_order.trans by auto
  show "tr_inv (tr_add X t a b)"
    using t2(2,6) i(1) unfolding add by (auto simp: tr_inv_def)
  have "edge_rel (edges ?t) = insert (i, j) (edge_rel (edges t))"
    using t1(3) t2(3) by (auto simp: edge_rel_def image_iff) force
  moreover have "map_prod (nth (elements t2)) (nth (elements t2)) e = map_prod (nth (elements t)) (nth (elements t)) e"
    if "e \<in> edge_rel (edges t)" for e
    using that assms t1(4) t2(4) by (cases e) (auto simp: tr_inv_def prefix_def nth_append)
  ultimately show "tr_base (tr_add X t a b) = insert (a, b) (tr_base t)"
    using i t2(7) unfolding add by (auto simp: tr_base_def els image_iff)
qed

lemma contains_spec:
  assumes "tr_inv t" "length (elements t) \<le> MAX_DOMAIN"
  shows "\<exists>t'. tr_contains X t a b = Some ((a, b) \<in> tr_less t, t') \<and> tr_inv t' \<and> same_relation t t'"
proof (cases "a \<in> set (elements t) \<and> b \<in> set (elements t)")
  case True
  then obtain i j where ij: "i < length (elements t)" "a = elements t ! i" "j < length (elements t)" "b = elements t ! j"
    by (auto simp: in_set_conv_nth)
  with with_closure_spec [OF assms, of "\<lambda>m. bitmatrix_contains m i j" "(i, j) \<in> (edge_rel (edges t))\<^sup>+"]
    closure_contains [of t _ i j] tr_less_nth [OF assms(1), of i j] assms(1)
  show ?thesis by (simp add: tr_contains_def index_nth)
next
  case False
  with tr_less_field [OF assms(1)] have "(a, b) \<notin> tr_less t" by auto
  moreover have "tr_contains X t a b = Some (False, t)"
    using False assms(1) index_absent [of t] by (auto simp: tr_contains_def split: option.split)
  ultimately show ?thesis using assms(1) by simp
qed

lemma reachable_from_spec:
  assumes "tr_inv t" "length (elements t) \<le> MAX_DOMAIN"
  shows "\<exists>r t'. reachable_from X t a = Some (r, t') \<and> distinct r \<and> set r = tr_less t `` {a} \<and>
    tr_inv t' \<and> same_relation t t'"
proof (cases "a \<in> set (elements t)")
  case True
  then obtain i where i: "i < length (elements t)" "a = elements t ! i" by (auto simp: in_set_conv_nth)
  let ?E = "(edge_rel (edges t))\<^sup>+" and ?n = "length (elements t)"
  let ?r = "map (nth (elements t)) (sorted_list_of_set (?E `` {i}))"
  let ?f = "\<lambda>m. bitmatrix_iter m i \<bind> (\<lambda>it. those (map (index_at (elements t)) (bit_iter_collect it)))"
  have E: "?E \<subseteq> {..<?n} \<times> {..<?n}" using assms(1) trancl_subset_Sigma by (auto simp: tr_inv_def)
  then have fin: "finite (?E `` {i})" "?E `` {i} \<subseteq> {..<?n}" by (auto intro: finite_subset [of _ "{..<?n}"])
  have "?f m = Some ?r" if "is_closure t m" for m
    using that i(1) bitmatrix_iter_spec [of m i] fin
    by (auto simp: is_closure_def square_matrix_def those_index_at)
  from with_closure_spec [OF assms, of ?f, OF this] obtain t' where "with_closure t ?f = Some (?r, t')" "tr_inv t'" "same_relation t t'"
    by blast
  moreover have "distinct ?r"
    using fin(2) assms(1) by (auto simp: distinct_map fin(1) tr_inv_def intro: inj_on_subset [OF inj_on_nth])
  moreover have "set ?r = tr_less t `` {a}"
    using fin tr_less_image [OF assms(1) i(1)] i(2) by simp
  ultimately show ?thesis using i assms(1) by (auto simp: reachable_from_def index_nth)
next
  case False
  with tr_less_field [OF assms(1)] have "tr_less t `` {a} = {}" by auto
  with False assms(1) show ?thesis by (simp add: reachable_from_def index_absent)
qed

lemma with_closure_elements:
  assumes "tr_inv t" "length (elements t) \<le> MAX_DOMAIN" "set is \<subseteq> {..<length (elements t)}"
    and "\<And>m. is_closure t m \<Longrightarrow> f m = Some (rev is)"
  shows "\<exists>t'. (do { (r, t) \<leftarrow> with_closure t f; result \<leftarrow> those (map (index_at (elements t)) (rev r)); Some (result, t) }) =
      Some (map (nth (elements t)) is, t') \<and> tr_inv t' \<and> same_relation t t'"
proof -
  obtain t' where t': "with_closure t f = Some (rev is, t')" "tr_inv t'" "same_relation t t'"
    using with_closure_spec [OF assms(1,2), of f, OF assms(4)] by blast
  then have "elements t' = elements t" by (simp add: same_relation_def)
  with t' assms(3) show ?thesis by (simp add: those_index_at)
qed

lemma minimal_upper_bounds_index:
  assumes "tr_inv t" "length (elements t) \<le> MAX_DOMAIN" "i \<le> j" "j < length (elements t)"
  defines "R \<equiv> (edge_rel (edges t))\<^sup>+"
  defines "is \<equiv> (if (i, j) \<in> R then [j] else if (j, i) \<in> R then [i]
      else sorted_list_of_set (minimal_in R (R `` {i} \<inter> R `` {j})))"
  shows "\<exists>t'. minimal_upper_bounds X t (elements t ! i) (elements t ! j) = Some (map (nth (elements t)) is, t') \<and>
    tr_inv t' \<and> same_relation t t'"
proof -
  let ?n = "length (elements t)"
  have "R \<subseteq> {..<?n} \<times> {..<?n}" using assms(1) trancl_subset_Sigma by (auto simp: tr_inv_def R_def)
  then have C: "R `` {i} \<inter> R `` {j} \<subseteq> {..<?n}" by auto
  then have "minimal_in R (R `` {i} \<inter> R `` {j}) \<subseteq> {..<?n}" by (auto simp: minimal_in_def)
  then have sub: "set is \<subseteq> {..<?n}"
    using assms(3,4) by (auto simp: is_def finite_subset [THEN sorted_list_of_set.set_sorted_key_list_of_set])
  have rows: "bitmatrix_intersect_rows m i j = Some (sorted_list_of_set (R `` {i} \<inter> R `` {j}))" if "is_closure t m" for m
    using that assms(3,4) bitmatrix_intersect_rows_spec [of m i j] by (simp add: is_closure_def square_matrix_def R_def)
  let ?f = "\<lambda>m. do {
           ab \<leftarrow> bitmatrix_contains m i j;
           if ab then Some [j]
           else do {
             ba \<leftarrow> bitmatrix_contains m j i;
             if ba then Some [i]
             else do {
               candidates \<leftarrow> bitmatrix_intersect_rows m i j;
               candidates \<leftarrow> pare_down candidates m;
               pare_down (rev candidates) m
             }
           }
         }"
  have "?f m = Some (rev is)" if "is_closure t m" for m
    using rows [OF that] closure_contains [OF that, of i j] closure_contains [OF that, of j i] assms(3,4)
      pare_down_closure [OF that C] by (simp add: is_def R_def)
  from with_closure_elements [OF assms(1,2) sub, of ?f, OF this] show ?thesis
    using assms(1,3,4) by (simp add: minimal_upper_bounds_def index_nth)
qed

lemma minimal_upper_bounds_sym: "minimal_upper_bounds X t b a = minimal_upper_bounds X t a b"
proof -
  have swap: "(if i > j then (j, i) else (i, j)) = (if j > i then (i, j) else (j, i))" for i j :: nat by auto
  show ?thesis by (auto simp: minimal_upper_bounds_def swap split: option.split)
qed

lemma sorted_nth_before:
  assumes "tr_inv t" "finite S" "S \<subseteq> {..<length (elements t)}"
  shows "sorted_wrt (tr_before t) (map (nth (elements t)) (sorted_list_of_set S))"
    and "distinct (map (nth (elements t)) (sorted_list_of_set S))"
proof -
  show "sorted_wrt (tr_before t) (map (nth (elements t)) (sorted_list_of_set S))"
    unfolding sorted_wrt_map
    by (rule sorted_wrt_mono_rel [OF _ sorted_sorted_list_of_set]) (use assms tr_before_nth [OF assms(1)] in auto)
  show "distinct (map (nth (elements t)) (sorted_list_of_set S))"
    using assms by (auto simp: distinct_map tr_inv_def intro: inj_on_subset [OF inj_on_nth])
qed

lemma minimal_upper_bounds_spec:
  assumes "tr_inv t" "length (elements t) \<le> MAX_DOMAIN" "tr_before t a b"
  shows "\<exists>bounds t'. minimal_upper_bounds X t a b = Some (bounds, t') \<and> tr_inv t' \<and> same_relation t t' \<and>
    distinct bounds \<and> sorted_wrt (tr_before t) bounds \<and>
    set bounds = (if (a, b) \<in> tr_less t then {b} else if (b, a) \<in> tr_less t then {a}
      else minimal_elements t (tr_less t `` {a} \<inter> tr_less t `` {b}))"
proof -
  let ?n = "length (elements t)" and ?R = "(edge_rel (edges t))\<^sup>+"
  obtain i j where ij: "i \<le> j" "j < ?n" "a = elements t ! i" "b = elements t ! j"
    using assms(3) by (auto simp: tr_before_def)
  define S where "S = (if (i, j) \<in> ?R then {j} else if (j, i) \<in> ?R then {i} else minimal_in ?R (?R `` {i} \<inter> ?R `` {j}))"
  have R: "?R \<subseteq> {..<?n} \<times> {..<?n}" using assms(1) trancl_subset_Sigma by (auto simp: tr_inv_def)
  then have S: "S \<subseteq> {..<?n}" using ij(1,2) by (auto simp: S_def minimal_in_def)
  then have fin: "finite S" using finite_subset by blast
  have "(if (i, j) \<in> ?R then [j] else if (j, i) \<in> ?R then [i]
      else sorted_list_of_set (minimal_in ?R (?R `` {i} \<inter> ?R `` {j}))) = sorted_list_of_set S" by (simp add: S_def)
  from minimal_upper_bounds_index [OF assms(1,2) ij(1,2), unfolded this] obtain t' where t':
      "minimal_upper_bounds X t a b = Some (map (nth (elements t)) (sorted_list_of_set S), t')" "tr_inv t'" "same_relation t t'"
    unfolding ij(3,4) by blast
  have C: "?R `` {i} \<inter> ?R `` {j} \<subseteq> {..<?n}" using R by auto
  have "inj_on (nth (elements t)) {..<?n}" using assms(1) by (auto simp: tr_inv_def intro: inj_on_nth)
  then have "nth (elements t) ` (?R `` {i} \<inter> ?R `` {j}) = tr_less t `` {a} \<inter> tr_less t `` {b}"
    using tr_less_image [OF assms(1), of i] tr_less_image [OF assms(1), of j] ij R
    by (subst inj_on_image_Int [of _ "{..<?n}"]) auto
  then have "set (map (nth (elements t)) (sorted_list_of_set S)) = (if (a, b) \<in> tr_less t then {b}
      else if (b, a) \<in> tr_less t then {a} else minimal_elements t (tr_less t `` {a} \<inter> tr_less t `` {b}))"
    using fin ij tr_less_nth [OF assms(1), of i j] tr_less_nth [OF assms(1), of j i] minimal_elements_nth [OF assms(1) C]
    by (simp add: S_def if_distrib [of "image (nth (elements t))"] split del: if_split cong: if_cong)
  with t' sorted_nth_before [OF assms(1) fin S] show ?thesis by blast
qed

lemma parents_spec:
  assumes "tr_inv t" "length (elements t) \<le> MAX_DOMAIN"
  shows "\<exists>r t'. parents X t a = Some (r, t') \<and> tr_inv t' \<and> same_relation t t' \<and>
    distinct r \<and> sorted_wrt (tr_before t) r \<and> set r = minimal_elements t {x. (a, x) \<in> tr_less t \<and> (x, a) \<notin> tr_less t}"
proof (cases "a \<in> set (elements t)")
  case True
  let ?n = "length (elements t)" and ?R = "(edge_rel (edges t))\<^sup>+"
  obtain i where i: "i < ?n" "a = elements t ! i" using True by (auto simp: in_set_conv_nth)
  let ?C = "{x \<in> ?R `` {i}. (x, i) \<notin> ?R}"
  let ?S = "minimal_in ?R ?C"
  have R: "?R \<subseteq> {..<?n} \<times> {..<?n}" using assms(1) trancl_subset_Sigma by (auto simp: tr_inv_def)
  then have row: "?R `` {i} \<subseteq> {..<?n}" and C: "?C \<subseteq> {..<?n}" and S: "?S \<subseteq> {..<?n}" by (auto simp: minimal_in_def)
  then have fin: "finite (?R `` {i})" "finite ?S" by (auto intro: finite_subset)
  let ?f = "\<lambda>m. do {
           ancestors \<leftarrow> bitmatrix_intersect_rows m i i;
           ancestors \<leftarrow> retain_with (\<lambda>e. map_option Not (bitmatrix_contains m e i)) ancestors;
           ancestors \<leftarrow> pare_down ancestors m;
           pare_down (rev ancestors) m
         }"
  have "?f m = Some (rev (sorted_list_of_set ?S))" if m: "is_closure t m" for m
  proof -
    have "bitmatrix_intersect_rows m i i = Some (sorted_list_of_set (?R `` {i}))"
      using m i(1) bitmatrix_intersect_rows_spec [of m i i] by (simp add: is_closure_def square_matrix_def)
    moreover have "retain_with (\<lambda>e. map_option Not (bitmatrix_contains m e i)) (sorted_list_of_set (?R `` {i})) =
        Some (sorted_list_of_set ?C)"
      unfolding filter_sorted_list_of_set [OF fin(1), symmetric]
      by (rule retain_with_eq) (use closure_contains [OF m] row i(1) fin(1) in auto)
    ultimately show ?thesis using pare_down_closure [OF m C] by simp
  qed
  from with_closure_elements [OF assms, of "sorted_list_of_set ?S" ?f, OF _ this] S fin(2) obtain t' where
      "parents X t a = Some (map (nth (elements t)) (sorted_list_of_set ?S), t')" "tr_inv t'" "same_relation t t'"
    using assms(1) i by (auto simp: parents_def index_nth)
  moreover have "nth (elements t) ` ?C = {x. (a, x) \<in> tr_less t \<and> (x, a) \<notin> tr_less t}"
  proof -
    have "nth (elements t) ` ?C = {x \<in> nth (elements t) ` (?R `` {i}). (x, a) \<notin> tr_less t}"
      using tr_less_nth [OF assms(1), of _ i] i row by auto
    then show ?thesis unfolding tr_less_image [OF assms(1) i(1)] by (simp add: i(2))
  qed
  ultimately show ?thesis
    using sorted_nth_before [OF assms(1) fin(2) S] minimal_elements_nth [OF assms(1) C] fin(2) by auto
next
  case False
  with tr_less_field [OF assms(1)] have "{x. (a, x) \<in> tr_less t \<and> (x, a) \<notin> tr_less t} = {}" by auto
  with False assms(1) show ?thesis by (simp add: parents_def index_absent minimal_elements_def)
qed

text \<open>What the loop of \<open>mutual_immediate_postdominator\<close> needs to know of the bounds of two elements.\<close>

lemma minimal_upper_bounds_cases:
  assumes "tr_inv t" "length (elements t) \<le> MAX_DOMAIN"
  shows "\<exists>bounds t'. minimal_upper_bounds X t a b = Some (bounds, t') \<and> tr_inv t' \<and> same_relation t t' \<and>
    (bounds = [a] \<and> (b, a) \<in> tr_less t \<or> bounds = [b] \<and> (a, b) \<in> tr_less t \<or>
     (\<forall>x \<in> set bounds. (a, x) \<in> tr_less t \<and> (b, x) \<in> tr_less t \<and> (x, a) \<notin> tr_less t))"
proof -
  have known: "\<exists>bounds t'. minimal_upper_bounds X t a b = Some (bounds, t') \<and> tr_inv t' \<and> same_relation t t' \<and>
      (bounds = [a] \<and> (b, a) \<in> tr_less t \<or> bounds = [b] \<and> (a, b) \<in> tr_less t \<or>
       (\<forall>x \<in> set bounds. (a, x) \<in> tr_less t \<and> (b, x) \<in> tr_less t \<and> (x, a) \<notin> tr_less t \<and> (x, b) \<notin> tr_less t))"
    if before: "tr_before t a b" for a b
  proof -
    obtain bounds t' where b: "minimal_upper_bounds X t a b = Some (bounds, t')" "tr_inv t'" "same_relation t t'"
      "distinct bounds" "set bounds = (if (a, b) \<in> tr_less t then {b} else if (b, a) \<in> tr_less t then {a}
          else minimal_elements t (tr_less t `` {a} \<inter> tr_less t `` {b}))"
      using minimal_upper_bounds_spec [OF assms before] by blast
    have single: "set bounds = {c} \<Longrightarrow> bounds = [c]" for c
      using b(4) by (metis distinct.simps(2) empty_set insert_absorb list.exhaust list.set_intros(1,2) list.simps(15)
          singletonD insert_not_empty)
    have "(x, a) \<notin> tr_less t \<and> (x, b) \<notin> tr_less t"
      if "(a, b) \<notin> tr_less t" "(b, a) \<notin> tr_less t" "(a, x) \<in> tr_less t" "(b, x) \<in> tr_less t" for x
      using that trans_tr_less [of t] by (meson transE)
    then show ?thesis
      using b single by (intro exI [of _ bounds] exI [of _ t'])
        (auto simp: minimal_elements_def split: if_splits)
  qed
  show ?thesis
  proof (cases "a \<in> set (elements t) \<and> b \<in> set (elements t)")
    case True
    then have "tr_before t a b \<or> tr_before t b a" by (auto simp: in_set_conv_nth tr_before_def) (metis nat_le_linear)
    then show ?thesis using known [of a b] known [of b a] minimal_upper_bounds_sym [of t a b] by auto
  next
    case False
    then have "minimal_upper_bounds X t a b = Some ([], t)"
      using assms(1) index_absent [of t] by (auto simp: minimal_upper_bounds_def split: option.split)
    then show ?thesis using assms(1) by auto
  qed
qed

text \<open>
  The loop of \<open>mutual_immediate_postdominator\<close> ends: it replaces two elements by one of them or by elements
  strictly above both, which is smaller in the multiset order. Its result stays in any upward closed set
  that holds the elements it starts with.
\<close>

lemma postdominator_loop:
  assumes inv: "tr_inv t" and size: "length (elements t) \<le> MAX_DOMAIN"
    and up: "\<And>x y. x \<in> U \<Longrightarrow> (x, y) \<in> tr_less t \<Longrightarrow> y \<in> U" and sub: "set mubs \<subseteq> U"
  shows "\<exists>r t'. mutual_immediate_postdominator X t mubs = Some (r, t') \<and> tr_inv t' \<and> same_relation t t' \<and>
    set_option r \<subseteq> U"
proof -
  let ?S = "{(y, x). (x, y) \<in> tr_less t \<and> (y, x) \<notin> tr_less t}"
  have "\<exists>r t'. mutual_immediate_postdominator X t1 mubs = Some (r, t') \<and> tr_inv t' \<and> same_relation t t' \<and> set_option r \<subseteq> U"
    if "tr_inv t1" "same_relation t t1" "set mubs \<subseteq> U" for t1
    using that
  proof (induction "mset mubs" arbitrary: mubs t1 rule: wf_induct_rule [OF wf_mult [OF wf_strictly_above [OF inv]]])
    case 1
    show ?case
    proof (cases "length mubs < 2")
      case True
      then have "mubs = [] \<or> (\<exists>x. mubs = [x])" by (cases mubs) auto
      with "1.prems" show ?thesis by (subst mutual_immediate_postdominator.simps) auto
    next
      case False
      then obtain rest n m where mubs: "mubs = rest @ [n, m]"
        by (metis append_butlast_last_id append_assoc append_Cons append_Nil butlast.simps(1) length_append_singleton
            less_2_cases_iff list.size(3) One_nat_def)
      have size1: "length (elements t1) \<le> MAX_DOMAIN" and less: "tr_less t1 = tr_less t"
        using size "1.prems"(2) same_relation_less by (auto simp: same_relation_def)
      from minimal_upper_bounds_cases [OF "1.prems"(1) size1, of n m] obtain bounds t2 where t2:
          "minimal_upper_bounds X t1 n m = Some (bounds, t2)" "tr_inv t2" "same_relation t1 t2"
          and b: "bounds = [n] \<or> bounds = [m] \<or>
            (\<forall>x \<in> set bounds. (n, x) \<in> tr_less t \<and> (m, x) \<in> tr_less t \<and> (x, n) \<notin> tr_less t)"
        unfolding less by blast
      have "(mset (rest @ bounds), mset mubs) \<in> mult ?S" unfolding mubs by (rule bounds_decrease) (use b in auto)
      moreover have "set (rest @ bounds) \<subseteq> U" using "1.prems"(3) b up by (auto simp: mubs)
      moreover have "same_relation t t2" using "1.prems"(2) t2(3) by (rule same_relation_trans)
      ultimately have "\<exists>r t'. mutual_immediate_postdominator X t2 (rest @ bounds) = Some (r, t') \<and> tr_inv t' \<and>
          same_relation t t' \<and> set_option r \<subseteq> U" using "1.hyps" t2(2) by blast
      then show ?thesis using t2(1) by (subst mutual_immediate_postdominator.simps) (simp add: mubs butlast_append)
    qed
  qed
  from this [OF inv same_relation_refl sub] show ?thesis .
qed

lemma maybe_map_loop_spec:
  assumes "edge_rel es \<subseteq> {..<length els} \<times> {..<length els}" "tr_inv s"
  defines "E \<equiv> map_prod (nth els) (nth els) ` edge_rel es"
  shows "if \<forall>(a, b) \<in> E. f a \<noteq> None \<and> f b \<noteq> None
    then \<exists>s'. maybe_map_loop X f els es s = Some (Some s') \<and> tr_inv s' \<and>
      tr_base s' = tr_base s \<union> (\<lambda>(a, b). (the (f a), the (f b))) ` E
    else maybe_map_loop X f els es s = Some None"
  using assms(1,2) unfolding E_def
proof (induction es arbitrary: s)
  case (Cons e es)
  then have e: "source e < length els" "target e < length els" by auto
  show ?case
  proof (cases "f (els ! source e) = None \<or> f (els ! target e) = None")
    case True
    with e show ?thesis by (auto split: option.split)
  next
    case False
    then obtain u v where uv: "f (els ! source e) = Some u" "f (els ! target e) = Some v" by auto
    with Cons.IH [of "tr_add X s u v"] Cons.prems e add_spec(1,2) [OF Cons.prems(2), of u v] show ?thesis
      by (auto split: if_splits)
  qed
qed simp

lemma maybe_map_spec:
  assumes "tr_inv t"
  shows "if \<forall>(a, b) \<in> tr_base t. f a \<noteq> None \<and> f b \<noteq> None
    then \<exists>s. maybe_map X t f = Some (Some s) \<and> tr_inv s \<and> tr_base s = (\<lambda>(a, b). (the (f a), the (f b))) ` tr_base t
    else maybe_map X t f = Some None"
  using maybe_map_loop_spec [of "edges t" "elements t" tr_default f] assms
  unfolding maybe_map_def tr_base_def [of t] tr_inv_def [of t] tr_default_spec(2) Un_empty_left
  by (meson tr_default_spec(1))

end

lemma base_edges_spec:
  assumes "tr_inv t"
  shows "\<exists>es. base_edges t = Some es \<and> set es = tr_base t"
proof -
  have "edge_rel es \<subseteq> {..<length (elements t)} \<times> {..<length (elements t)} \<Longrightarrow>
      those (map (\<lambda>edge. do { a \<leftarrow> index_at (elements t) (source edge); b \<leftarrow> index_at (elements t) (target edge); Some (a, b) }) es) =
      Some (map (\<lambda>e. (elements t ! source e, elements t ! target e)) es)" for es
    by (induction es) auto
  then show ?thesis using assms by (auto simp: base_edges_def tr_inv_def tr_base_def edge_rel_def image_iff)
qed

text \<open>The laws can hold: an index set over plain lists, searched from the front.\<close>

definition list_index_set :: "'a index_set_ops" where
  "list_index_set = \<lparr>
     ix_insert_full = (\<lambda>xs v. case position ((=) v) xs of
         Some i \<Rightarrow> ((i, False), xs)
       | None \<Rightarrow> ((length xs, True), xs @ [v])),
     ix_get_index_of = (\<lambda>xs v. position ((=) v) xs)\<rparr>"

lemma position_nth: "distinct xs \<Longrightarrow> i < length xs \<Longrightarrow> position ((=) (xs ! i)) xs = Some i"
  by (auto simp: position_Some_iff nth_eq_iff_index_eq)

interpretation list_ix: index_set_laws list_index_set
proof
  fix xs :: "'a list" and v
  assume "v \<notin> set xs"
  then have "position ((=) v) xs = None" by (auto simp: position_None_iff)
  then show "ix_insert_full list_index_set xs v = ((length xs, True), xs @ [v])" "ix_get_index_of list_index_set xs v = None"
    by (simp_all add: list_index_set_def)
qed (simp_all add: list_index_set_def position_nth)


text \<open>A relation built from a list of pairs, for concrete inputs.\<close>

definition added :: "('a \<times> 'a) list \<Rightarrow> 'a transitive_relation" where
  "added es = foldl (\<lambda>t (a, b). tr_add list_index_set t a b) tr_default es"

lemma added_spec:
  "tr_inv (added es) \<and> tr_base (added es) = set es \<and> length (elements (added es)) \<le> 2 * length es"
proof (induction es rule: rev_induct)
  case (snoc e es)
  then show ?case
    using list_ix.add_spec [of "added es" "fst e" "snd e"] by (auto simp: added_def split: prod.split)
qed (simp add: added_def, simp add: tr_default_def)


section \<open>Properties\<close>

text \<open>C15: \<open>TransitiveRelation\<close> as a relation on elements: with the base edges that \<open>base_edges\<close> lists,
  \<open>contains\<close> decides their transitive closure, \<open>reachable_from\<close> lists what the closure relates an element
  to, each once, and elements the relation does not know are related to nothing. Whether the closure was
  cached or is computed now makes no difference, and a query changes nothing but the cache.\<close>

theorem transitive_relation_queries:
  assumes "index_set_laws X" "tr_inv t" "length (elements t) \<le> MAX_DOMAIN"
  shows "\<exists>es t1 r t2. base_edges t = Some es \<and>
    tr_contains X t a b = Some ((a, b) \<in> (set es)\<^sup>+, t1) \<and> tr_inv t1 \<and> same_relation t t1 \<and>
    reachable_from X t a = Some (r, t2) \<and> distinct r \<and> set r = {x. (a, x) \<in> (set es)\<^sup>+} \<and> tr_inv t2 \<and> same_relation t t2"
proof -
  obtain es where es: "base_edges t = Some es" "set es = tr_base t" using base_edges_spec [OF assms(2)] by blast
  then have "tr_less t = (set es)\<^sup>+" by (simp add: tr_less_def)
  with es(1) index_set_laws.contains_spec [OF assms, of a b] index_set_laws.reachable_from_spec [OF assms, of a]
  show ?thesis by (auto simp: Image_def)
qed

theorem transitive_relation_queries_witness:
  "\<exists>t1. tr_contains list_index_set (added [(1, 2), (2, 3 :: nat)]) 1 3 = Some (True, t1)"
proof -
  let ?t = "added [(1, 2), (2, 3 :: nat)]"
  have t: "tr_inv ?t" "tr_base ?t = {(1, 2), (2, 3)}" "length (elements ?t) \<le> MAX_DOMAIN"
    using added_spec [of "[(1, 2), (2, 3 :: nat)]"] by auto
  have trancl: "(1, 3) \<in> {(1, 2), (2, 3 :: nat)}\<^sup>+" by (rule trancl_into_trancl [of _ 2]) auto
  obtain es where es: "base_edges ?t = Some es" "set es = {(1, 2), (2, 3)}" using base_edges_spec [OF t(1)] t(2) by metis
  from transitive_relation_queries [OF list_ix.index_set_laws_axioms t(1,3), of 1 3]
  obtain t1 where "tr_contains list_index_set ?t 1 3 = Some ((1, 3) \<in> (set es)\<^sup>+, t1)" unfolding es(1) option.inject by metis
  with trancl es(2) show ?thesis by metis
qed

text \<open>C37: The invariant of \<open>TransitiveRelation\<close>, that a cached closure is the closure of the edges there are
  now: it holds of the empty relation, and \<open>add\<close> keeps it, whether or not the elements and the edge were
  there, adding exactly the pair to the base edges. \<open>maybe_map\<close> builds the image of the base edges, or
  gives \<open>None\<close> if the function is undefined at an end of some edge.\<close>

theorem transitive_relation_updates:
  assumes "index_set_laws X" "index_set_laws Y" "tr_inv t"
  shows "tr_inv (tr_default :: 'a transitive_relation) \<and> tr_base (tr_default :: 'a transitive_relation) = {} \<and>
    tr_inv (tr_add X t a b) \<and> tr_base (tr_add X t a b) = insert (a, b) (tr_base t) \<and>
    (if \<forall>(a, b) \<in> tr_base t. f a \<noteq> None \<and> f b \<noteq> None
      then \<exists>s. maybe_map Y t f = Some (Some s) \<and> tr_inv s \<and> tr_base s = (\<lambda>(a, b). (the (f a), the (f b))) ` tr_base t
      else maybe_map Y t f = Some None)"
  using index_set_laws.maybe_map_spec [OF assms(2,3), of f] index_set_laws.add_spec(1,2) [OF assms(1,3), of a b] by simp

theorem transitive_relation_updates_witness:
  "tr_inv (tr_add list_index_set (added [(1, 2)]) 2 (3 :: nat)) \<and>
    (\<exists>s. maybe_map list_index_set (added [(1, 2 :: nat)]) (\<lambda>x. Some (x * x)) = Some (Some s) \<and> tr_base s = {(1, 4)})"
  using transitive_relation_updates [OF list_ix.index_set_laws_axioms list_ix.index_set_laws_axioms, of "added [(1, 2 :: nat)]"
      2 3 "\<lambda>x. Some (x * x)"] added_spec [of "[(1, 2 :: nat)]"] by auto

text \<open>C27: \<open>minimal_upper_bounds\<close> does not depend on the order of its arguments. If one argument is related to
  the other, it gives the larger one (when each is, the one added later); otherwise it gives the common upper bounds
  that are minimal up to cycles, from each cycle of equivalent bounds the one added first, each once and in
  the order they were added. \<open>parents\<close> does the same for the elements strictly above one element.\<close>

theorem minimal_upper_bounds_correct:
  assumes "index_set_laws X" "tr_inv t" "length (elements t) \<le> MAX_DOMAIN" "tr_before t a b"
  shows "\<exists>bounds t1 ps t2. minimal_upper_bounds X t a b = Some (bounds, t1) \<and> minimal_upper_bounds X t b a = Some (bounds, t1) \<and>
    tr_inv t1 \<and> same_relation t t1 \<and> distinct bounds \<and> sorted_wrt (tr_before t) bounds \<and>
    set bounds = (if (a, b) \<in> tr_less t then {b} else if (b, a) \<in> tr_less t then {a}
      else minimal_elements t {x. (a, x) \<in> tr_less t \<and> (b, x) \<in> tr_less t}) \<and>
    parents X t a = Some (ps, t2) \<and> tr_inv t2 \<and> same_relation t t2 \<and> distinct ps \<and> sorted_wrt (tr_before t) ps \<and>
    set ps = minimal_elements t {x. (a, x) \<in> tr_less t \<and> (x, a) \<notin> tr_less t}"
proof -
  have common: "tr_less t `` {a} \<inter> tr_less t `` {b} = {x. (a, x) \<in> tr_less t \<and> (b, x) \<in> tr_less t}" by auto
  from index_set_laws.minimal_upper_bounds_spec [OF assms] index_set_laws.parents_spec [OF assms(1-3), of a] show ?thesis
    unfolding index_set_laws.minimal_upper_bounds_sym [OF assms(1), of t b a] common by blast
qed

theorem minimal_upper_bounds_correct_witness:
  "\<exists>bounds t1. minimal_upper_bounds list_index_set (added [(0, 2), (1, 2), (0, 3), (1, 3), (3, 2)]) 0 (1 :: nat) = Some (bounds, t1) \<and>
    set bounds = {3}"
proof -
  let ?es = "[(0, 2), (1, 2), (0, 3), (1, 3), (3, 2)] :: (nat \<times> nat) list"
  let ?t = "added ?es"
  have els: "elements ?t = [0, 2, 1, 3]" by code_simp
  have t: "tr_inv ?t" "tr_base ?t = set ?es" using added_spec [of ?es] by auto
  have less: "tr_less ?t = set ?es" unfolding tr_less_def t(2) by (rule trancl_id, rule transI) auto
  have before: "tr_before ?t 0 1" unfolding tr_before_def els by (rule exI [of _ 0], rule exI [of _ 2]) simp
  have "minimal_elements ?t {x. (0, x) \<in> tr_less ?t \<and> (1, x) \<in> tr_less ?t} = {3}"
  proof -
    have "{x. (0, x) \<in> tr_less ?t \<and> (1, x) \<in> tr_less ?t} = {2, 3}" unfolding less by auto
    then show ?thesis unfolding minimal_elements_def less by auto
  qed
  moreover have "(0, 1) \<notin> tr_less ?t" "(1, 0) \<notin> tr_less ?t" unfolding less by simp_all
  moreover have "length (elements ?t) \<le> MAX_DOMAIN" using added_spec [of ?es] by simp
  ultimately show ?thesis
    using minimal_upper_bounds_correct [OF list_ix.index_set_laws_axioms t(1) _ before] by auto
qed

text \<open>C38: The loop of \<open>mutual_immediate_postdominator\<close> ends for every list of elements, cycles and unknown
  elements included, and \<open>postdom_upper_bound\<close> gives, if anything, an element that \<open>a\<close> and \<open>b\<close> each equal or
  are related to.\<close>

theorem postdominator_terminates:
  assumes "index_set_laws X" "tr_inv t" "length (elements t) \<le> MAX_DOMAIN"
  shows "\<exists>r t1 u t2. mutual_immediate_postdominator X t mubs = Some (r, t1) \<and> tr_inv t1 \<and> same_relation t t1 \<and>
    postdom_upper_bound X t a b = Some (u, t2) \<and> tr_inv t2 \<and> same_relation t t2 \<and>
    (\<forall>x. u = Some x \<longrightarrow> (a = x \<or> (a, x) \<in> tr_less t) \<and> (b = x \<or> (b, x) \<in> tr_less t))"
proof -
  obtain r t1 where r: "mutual_immediate_postdominator X t mubs = Some (r, t1)" "tr_inv t1" "same_relation t t1"
    using index_set_laws.postdominator_loop [OF assms, of UNIV mubs] by auto
  obtain bounds t' where b: "minimal_upper_bounds X t a b = Some (bounds, t')" "tr_inv t'" "same_relation t t'"
      "bounds = [a] \<and> (b, a) \<in> tr_less t \<or> bounds = [b] \<and> (a, b) \<in> tr_less t \<or>
        (\<forall>x \<in> set bounds. (a, x) \<in> tr_less t \<and> (b, x) \<in> tr_less t \<and> (x, a) \<notin> tr_less t)"
    using index_set_laws.minimal_upper_bounds_cases [OF assms, of a b] by blast
  let ?U = "{x. (a = x \<or> (a, x) \<in> tr_less t) \<and> (b = x \<or> (b, x) \<in> tr_less t)}"
  have "\<exists>u t2. mutual_immediate_postdominator X t' bounds = Some (u, t2) \<and> tr_inv t2 \<and> same_relation t' t2 \<and> set_option u \<subseteq> ?U"
  proof (rule index_set_laws.postdominator_loop [OF assms(1) b(2)])
    show "length (elements t') \<le> MAX_DOMAIN" using assms(3) b(3) by (simp add: same_relation_def)
    show "y \<in> ?U" if "x \<in> ?U" "(x, y) \<in> tr_less t'" for x y
      using that same_relation_less [OF b(3)] by (auto dest: tr_less_trans)
    show "set bounds \<subseteq> ?U" using b(4) by auto
  qed
  with r b(1,3) show ?thesis by (auto simp: postdom_upper_bound_def dest: same_relation_trans)
qed

theorem postdominator_terminates_witness:
  "\<exists>r t1. mutual_immediate_postdominator list_index_set (added [(1, 2), (2, 1), (3, 1 :: nat)]) [1, 2, 3, 3] = Some (r, t1)"
proof -
  let ?es = "[(1, 2), (2, 1), (3, 1 :: nat)]"
  have "tr_inv (added ?es)" "length (elements (added ?es)) \<le> MAX_DOMAIN" using added_spec [of ?es] by auto
  from postdominator_terminates [OF list_ix.index_set_laws_axioms this, of "[1, 2, 3, 3]" 1 1] show ?thesis by blast
qed

lemma tr_before_antisym: "tr_inv t \<Longrightarrow> tr_before t x y \<Longrightarrow> tr_before t y x \<Longrightarrow> x = y"
  by (auto simp: tr_before_def tr_inv_def nth_eq_iff_index_eq)

lemma tr_before_refl: "tr_before t x y \<Longrightarrow> tr_before t x x \<and> tr_before t y y"
proof -
  have "tr_before t (elements t ! i) (elements t ! i)" if "i < length (elements t)" for i
    using that unfolding tr_before_def by blast
  then show "tr_before t x y \<Longrightarrow> tr_before t x x \<and> tr_before t y y" by (auto simp: tr_before_def [of t x y])
qed

lemma sorted_three:
  assumes "tr_inv t" "sorted_wrt (tr_before t) xs" "distinct xs" "set xs = {p, n, m}"
    and "tr_before t p n" "tr_before t n m" "p \<noteq> n" "p \<noteq> m" "n \<noteq> m"
  shows "xs = [p, n, m]"
proof -
  have "length xs = 3" using distinct_card [OF assms(3)] assms(4,7-9) by simp
  then obtain x y z where xs: "xs = [x, y, z]" by (auto simp: numeral_3_eq_3 length_Suc_conv)
  have "\<not> tr_before t n p" "\<not> tr_before t m n" using tr_before_antisym [OF assms(1)] assms(5-9) by blast+
  moreover have "x \<in> {p, n, m}" "y \<in> {p, n, m}" "z \<in> {p, n, m}" using assms(4) xs by auto
  ultimately show ?thesis using assms(2,3) xs by auto
qed

text \<open>The bounds of two unrelated elements that have exactly three common bounds, all unrelated.\<close>

lemma three_bounds:
  assumes X: "index_set_laws X" and t: "tr_inv t" "length (elements t) \<le> MAX_DOMAIN"
    and ab: "(a, b) \<notin> tr_less t" "(b, a) \<notin> tr_less t" "{x. (a, x) \<in> tr_less t \<and> (b, x) \<in> tr_less t} = {p, n, m}"
    and order: "tr_before t p n" "tr_before t n m" "p \<noteq> n" "p \<noteq> m" "n \<noteq> m"
    and apart: "\<forall>x \<in> {p, n, m}. \<forall>y \<in> {p, n, m}. x \<noteq> y \<longrightarrow> (x, y) \<notin> tr_less t"
  shows "\<exists>t'. minimal_upper_bounds X t a b = Some ([p, n, m], t') \<and> tr_inv t' \<and> same_relation t t'"
proof -
  have C: "tr_less t `` {a} \<inter> tr_less t `` {b} = {p, n, m}" using ab(3) by auto
  have refl: "tr_before t x x" if "x \<in> {p, n, m}" for x using that tr_before_refl [OF order(1)] tr_before_refl [OF order(2)] by auto
  have "(y, x) \<in> tr_less t \<Longrightarrow> (x, y) \<in> tr_less t \<and> tr_before t x y" if "x \<in> {p, n, m}" "y \<in> {p, n, m}" for x y
  proof (cases "x = y")
    case False
    then have "(y, x) \<notin> tr_less t" using bspec [OF bspec [OF apart that(2)] that(1)] by simp
    then show "(y, x) \<in> tr_less t \<Longrightarrow> (x, y) \<in> tr_less t \<and> tr_before t x y" by blast
  qed (use that refl in simp)
  then have min: "minimal_elements t {p, n, m} = {p, n, m}" unfolding minimal_elements_def by blast
  have "a \<in> set (elements t)" "b \<in> set (elements t)" using ab(3) tr_less_field [OF t(1)] by auto
  then have "tr_before t a b \<or> tr_before t b a" by (auto simp: in_set_conv_nth tr_before_def) (metis nat_le_linear)
  then obtain bounds t' where b: "minimal_upper_bounds X t a b = Some (bounds, t')" "tr_inv t'" "same_relation t t'"
    "distinct bounds" "sorted_wrt (tr_before t) bounds" "set bounds = {p, n, m}"
    using index_set_laws.minimal_upper_bounds_spec [OF X t, of a b] index_set_laws.minimal_upper_bounds_spec [OF X t, of b a]
      index_set_laws.minimal_upper_bounds_sym [OF X, of t a b] ab(1,2) C min by (auto simp: Int_commute)
  then show ?thesis using sorted_three [OF t(1) b(5,4,6) order] by simp
qed

lemma postdominator_drops_pair:
  assumes "index_set_laws X" "tr_inv t" "length (elements t) \<le> MAX_DOMAIN"
    and "(n, m) \<notin> tr_less t" "(m, n) \<notin> tr_less t" "\<nexists>x. (n, x) \<in> tr_less t \<and> (m, x) \<in> tr_less t"
  shows "\<exists>t'. mutual_immediate_postdominator X t [p, n, m] = Some (Some p, t') \<and>
    mutual_immediate_postdominator X t [n, m] = Some (None, t')"
proof -
  obtain t' where "minimal_upper_bounds X t n m = Some ([], t')"
    using index_set_laws.minimal_upper_bounds_cases [OF assms(1-3), of n m] assms(4-6) by (metis all_not_in_conv set_empty2)
  then show ?thesis by (subst mutual_immediate_postdominator.simps, subst mutual_immediate_postdominator.simps) (simp add: mutual_immediate_postdominator.simps)
qed

text \<open>C39: \<open>postdom_upper_bound\<close> of two elements, neither related to the other, that have exactly three common bounds, none
  related to another of them: it gives the bound that was added first, although no element is equal to or above all three,
  so that the documented result is \<open>None\<close>. The loop of \<open>mutual_immediate_postdominator\<close> drops the last two bounds, which
  have no bound in common, and goes on with the first; called with the last two alone it gives \<open>None\<close>.\<close>

theorem postdominator_of_three_bounds:
  assumes "index_set_laws X" "tr_inv t" "length (elements t) \<le> MAX_DOMAIN"
    and "(a, b) \<notin> tr_less t" "(b, a) \<notin> tr_less t" "{x. (a, x) \<in> tr_less t \<and> (b, x) \<in> tr_less t} = {p, n, m}"
    and "tr_before t p n" "tr_before t n m" "p \<noteq> n" "p \<noteq> m" "n \<noteq> m"
    and "\<forall>x \<in> {p, n, m}. \<forall>y \<in> {p, n, m}. x \<noteq> y \<longrightarrow> (x, y) \<notin> tr_less t"
  shows "map_option fst (postdom_upper_bound X t a b) = Some (Some p) \<and>
    (\<nexists>x. \<forall>y \<in> {p, n, m}. y = x \<or> (y, x) \<in> tr_less t) \<and>
    map_option fst (mutual_immediate_postdominator X t [p, n, m]) = Some (Some p) \<and>
    map_option fst (mutual_immediate_postdominator X t [n, m]) = Some None"
proof -
  have top: "x = y" if "y \<in> {p, n, m}" "(y, x) \<in> tr_less t" for x y
  proof -
    have "y \<in> {x. (a, x) \<in> tr_less t \<and> (b, x) \<in> tr_less t}" unfolding assms(6) by (rule that(1))
    then have "x \<in> {x. (a, x) \<in> tr_less t \<and> (b, x) \<in> tr_less t}" using that(2) tr_less_trans [of _ y t x] by simp
    then have "x \<in> {p, n, m}" unfolding assms(6) .
    from bspec [OF bspec [OF assms(12) that(1)] this] show ?thesis using that(2) by argo
  qed
  have above: "(p, x) \<in> tr_less t \<Longrightarrow> x = p" and above': "(n, x) \<in> tr_less t \<Longrightarrow> x = n"
    and above'': "(m, x) \<in> tr_less t \<Longrightarrow> x = m" for x by (rule top; simp)+
  have none: "\<nexists>x. \<forall>y \<in> {p, n, m}. y = x \<or> (y, x) \<in> tr_less t"
  proof
    assume "\<exists>x. \<forall>y \<in> {p, n, m}. y = x \<or> (y, x) \<in> tr_less t"
    then obtain x where "p = x \<or> (p, x) \<in> tr_less t" "n = x \<or> (n, x) \<in> tr_less t" by auto
    then have "x = p" "x = n" using above [of x] above' [of x] by argo+
    then show False using assms(9) by simp
  qed
  have "(n, m) \<notin> tr_less t" "(m, n) \<notin> tr_less t" using assms(12) assms(11) by simp_all
  moreover have "\<nexists>x. (n, x) \<in> tr_less t \<and> (m, x) \<in> tr_less t" using above' above'' assms(11) by blast
  ultimately have pair: "(n, m) \<notin> tr_less t" "(m, n) \<notin> tr_less t" "\<nexists>x. (n, x) \<in> tr_less t \<and> (m, x) \<in> tr_less t" .
  obtain t' where t': "minimal_upper_bounds X t a b = Some ([p, n, m], t')" "tr_inv t'" "same_relation t t'"
    using three_bounds [OF assms] by blast
  then have "length (elements t') \<le> MAX_DOMAIN" "tr_less t' = tr_less t"
    using assms(3) same_relation_less by (auto simp: same_relation_def)
  then obtain t2 where "mutual_immediate_postdominator X t' [p, n, m] = Some (Some p, t2)"
    using postdominator_drops_pair [OF assms(1) t'(2), of n m p] pair by auto
  then have "map_option fst (postdom_upper_bound X t a b) = Some (Some p)" using t'(1) by (simp add: postdom_upper_bound_def)
  moreover obtain t3 where "mutual_immediate_postdominator X t [p, n, m] = Some (Some p, t3)" "mutual_immediate_postdominator X t [n, m] = Some (None, t3)"
    using postdominator_drops_pair [OF assms(1,2,3) pair, of p] by blast
  ultimately show ?thesis using none by simp
qed

theorem postdominator_of_three_bounds_witness:
  "map_option fst (postdom_upper_bound list_index_set (added [(0, 2), (0, 3), (0, 4), (1, 2), (1, 3), (1, 4)]) 0 (1 :: nat)) =
    Some (Some 2)"
proof -
  let ?es = "[(0, 2), (0, 3), (0, 4), (1, 2), (1, 3), (1, 4 :: nat)] :: (nat \<times> nat) list"
  let ?t = "added ?es"
  have els: "elements ?t = [0, 2, 3, 4, 1]" by code_simp
  have t: "tr_inv ?t" "tr_base ?t = set ?es" "length (elements ?t) \<le> MAX_DOMAIN" using added_spec [of ?es] by auto
  have less: "tr_less ?t = set ?es" unfolding tr_less_def t(2) by (rule trancl_id, rule transI) auto
  have "tr_before ?t 2 3" "tr_before ?t 3 4" unfolding tr_before_def els
    by (rule exI [of _ 1], rule exI [of _ 2], simp, rule exI [of _ 2], rule exI [of _ 3], simp)
  moreover have "{x. (0, x) \<in> tr_less ?t \<and> (1, x) \<in> tr_less ?t} = {2, 3, 4}" unfolding less by auto
  ultimately show ?thesis
    using postdominator_of_three_bounds [OF list_ix.index_set_laws_axioms t(1,3), of 0 1 2 3 4] unfolding less by simp
qed

end
