(* ===== verification/Sorted_Map.thy ===== *)
theory Sorted_Map
  imports Slice_Search "HOL-Library.Multiset"
begin

text \<open>
  \<open>compiler/rustc_data_structures/src/sorted_map.rs\<close> and \<open>sorted_map/index_map.rs\<close>: a map kept as a vector of
  pairs sorted by key and searched by \<open>binary_search_by\<close>, and a multi-map that keeps its items in insertion
  order beside the indices sorted by key.

  Which of several equal elements \<open>sort_unstable_by\<close> puts first is not specified, so the sort is a parameter of
  \<open>from_iter\<close>, with what its documentation promises as the locale \<open>unstable_sort_laws\<close>. The stable
  \<open>sort_by_key\<close> is \<open>sort_key\<close>. The unchecked reads of the source are checked here.
\<close>

section \<open>State and operations of the sorted map\<close>

record ('k, 'v) sorted_map =
  smap_data :: "('k \<times> 'v) list"

definition smap_new :: "('k, 'v) sorted_map" where
  "smap_new = \<lparr>smap_data = []\<rparr>"

text \<open>\<open>array_windows().all(|[fst, snd]| fst.0 < snd.0)\<close>.\<close>

fun windows_ascending :: "('k::linorder \<times> 'v) list \<Rightarrow> bool" where
  "windows_ascending (x # y # zs) \<longleftrightarrow> fst x < fst y \<and> windows_ascending (y # zs)"
| "windows_ascending _ \<longleftrightarrow> True"

definition from_presorted_elements :: "('k::linorder \<times> 'v) list \<Rightarrow> ('k, 'v) sorted_map option" where
  "from_presorted_elements els = do {
     assert_that (windows_ascending els);
     Some \<lparr>smap_data = els\<rparr>
   }"

definition lookup_index_for :: "('k::linorder, 'v) sorted_map \<Rightarrow> 'k \<Rightarrow> (nat, nat) result option" where
  "lookup_index_for m key = binary_search_by (smap_data m) (\<lambda>(x, _). Some (cmp x key))"

definition smap_insert ::
    "('k::linorder, 'v) sorted_map \<Rightarrow> 'k \<Rightarrow> 'v \<Rightarrow> ('v option \<times> ('k, 'v) sorted_map) option" where
  "smap_insert m key value = do {
     r \<leftarrow> lookup_index_for m key;
     case r of
       Ok index \<Rightarrow> do {
         (k, old) \<leftarrow> index_at (smap_data m) index;
         data \<leftarrow> store_at (smap_data m) index (k, value);
         Some (Some old, m\<lparr>smap_data := data\<rparr>)
       }
     | Err index \<Rightarrow> do {
         data \<leftarrow> insert_at index (key, value) (smap_data m);
         Some (None, m\<lparr>smap_data := data\<rparr>)
       }
   }"

definition smap_remove ::
    "('k::linorder, 'v) sorted_map \<Rightarrow> 'k \<Rightarrow> ('v option \<times> ('k, 'v) sorted_map) option" where
  "smap_remove m key = do {
     r \<leftarrow> lookup_index_for m key;
     case r of
       Ok index \<Rightarrow> do {
         ((_, v), data) \<leftarrow> remove_at index (smap_data m);
         Some (Some v, m\<lparr>smap_data := data\<rparr>)
       }
     | Err _ \<Rightarrow> Some (None, m)
   }"

definition smap_get :: "('k::linorder, 'v) sorted_map \<Rightarrow> 'k \<Rightarrow> 'v option option" where
  "smap_get m key = do {
     r \<leftarrow> lookup_index_for m key;
     case r of
       Ok index \<Rightarrow> do { (_, v) \<leftarrow> index_at (smap_data m) index; Some (Some v) }
     | Err _ \<Rightarrow> Some None
   }"

text \<open>\<open>get_mut\<close> gives a reference into the map; here, the map after the referenced value is updated by \<open>f\<close>.\<close>

definition smap_get_mut ::
    "('k::linorder, 'v) sorted_map \<Rightarrow> 'k \<Rightarrow> ('v \<Rightarrow> 'v) \<Rightarrow> ('v option \<times> ('k, 'v) sorted_map) option" where
  "smap_get_mut m key f = do {
     r \<leftarrow> lookup_index_for m key;
     case r of
       Ok index \<Rightarrow> do {
         (k, v) \<leftarrow> index_at (smap_data m) index;
         data \<leftarrow> store_at (smap_data m) index (k, f v);
         Some (Some v, m\<lparr>smap_data := data\<rparr>)
       }
     | Err _ \<Rightarrow> Some (None, m)
   }"

definition smap_clear :: "('k, 'v) sorted_map \<Rightarrow> ('k, 'v) sorted_map" where
  "smap_clear m = m\<lparr>smap_data := []\<rparr>"

definition smap_iter :: "('k, 'v) sorted_map \<Rightarrow> ('k \<times> 'v) list" where
  "smap_iter m = smap_data m"

definition smap_keys :: "('k, 'v) sorted_map \<Rightarrow> 'k list" where
  "smap_keys m = map fst (smap_data m)"

definition smap_values :: "('k, 'v) sorted_map \<Rightarrow> 'v list" where
  "smap_values m = map snd (smap_data m)"

definition smap_len :: "('k, 'v) sorted_map \<Rightarrow> nat" where
  "smap_len m = length (smap_data m)"

definition smap_is_empty :: "('k, 'v) sorted_map \<Rightarrow> bool" where
  "smap_is_empty m \<longleftrightarrow> smap_len m = 0"

definition range_slice_indices ::
    "('k::linorder, 'v) sorted_map \<Rightarrow> 'k range_bounds \<Rightarrow> (nat \<times> nat) option" where
  "range_slice_indices m bnds = do {
     start \<leftarrow> (case fst bnds of
         Included k \<Rightarrow> do { r \<leftarrow> lookup_index_for m k; Some (case r of Ok index \<Rightarrow> index | Err index \<Rightarrow> index) }
       | Excluded k \<Rightarrow> do { r \<leftarrow> lookup_index_for m k; Some (case r of Ok index \<Rightarrow> index + 1 | Err index \<Rightarrow> index) }
       | Unbounded \<Rightarrow> Some 0);
     end \<leftarrow> (case snd bnds of
         Included k \<Rightarrow> do { r \<leftarrow> lookup_index_for m k; Some (case r of Ok index \<Rightarrow> index + 1 | Err index \<Rightarrow> index) }
       | Excluded k \<Rightarrow> do { r \<leftarrow> lookup_index_for m k; Some (case r of Ok index \<Rightarrow> index | Err index \<Rightarrow> index) }
       | Unbounded \<Rightarrow> Some (length (smap_data m)));
     Some (start, end)
   }"

definition smap_range :: "('k::linorder, 'v) sorted_map \<Rightarrow> 'k range_bounds \<Rightarrow> ('k \<times> 'v) list option" where
  "smap_range m bnds = do {
     (start, end) \<leftarrow> range_slice_indices m bnds;
     slice (smap_data m) start end
   }"

text \<open>\<open>Vec::splice\<close> of the range \<open>start..end\<close> by \<open>ys\<close>, which panics where slicing would.\<close>

definition splice_vec :: "'a list \<Rightarrow> nat \<Rightarrow> nat \<Rightarrow> 'a list \<Rightarrow> 'a list option" where
  "splice_vec xs start end ys =
     (if start \<le> end \<and> end \<le> length xs then Some (take start xs @ ys @ drop end xs) else None)"

definition smap_remove_range ::
    "('k::linorder, 'v) sorted_map \<Rightarrow> 'k range_bounds \<Rightarrow> ('k, 'v) sorted_map option" where
  "smap_remove_range m bnds = do {
     (start, end) \<leftarrow> range_slice_indices m bnds;
     data \<leftarrow> splice_vec (smap_data m) start end [];
     Some (m\<lparr>smap_data := data\<rparr>)
   }"

definition offset_keys :: "('k, 'v) sorted_map \<Rightarrow> ('k \<Rightarrow> 'k) \<Rightarrow> ('k, 'v) sorted_map" where
  "offset_keys m f = m\<lparr>smap_data := map (\<lambda>(k, v). (f k, v)) (smap_data m)\<rparr>"

text \<open>The loop that inserts the rest, discarding the old values.\<close>

definition insert_rest ::
    "('k::linorder \<times> 'v) list \<Rightarrow> ('k, 'v) sorted_map \<Rightarrow> ('k, 'v) sorted_map option" where
  "insert_rest = for_each (\<lambda>(k, v) m. map_option snd (smap_insert m k v))"

definition insert_presorted ::
    "('k::linorder, 'v) sorted_map \<Rightarrow> ('k \<times> 'v) list \<Rightarrow> ('k, 'v) sorted_map option" where
  "insert_presorted m els = (case els of
       [] \<Rightarrow> Some m
     | e # rest \<Rightarrow> do {
         assert_that (windows_ascending els);
         start_index \<leftarrow> lookup_index_for m (fst e);
         case start_index of
           Ok index \<Rightarrow> do {
             data \<leftarrow> store_at (smap_data m) index e;
             insert_rest rest (m\<lparr>smap_data := data\<rparr>)
           }
         | Err index \<Rightarrow> do {
             whole \<leftarrow> (if index = length (smap_data m) then Some True
                       else do { d \<leftarrow> index_at (smap_data m) index; Some (fst (last els) < fst d) });
             if whole then do {
               data \<leftarrow> splice_vec (smap_data m) index index els;
               Some (m\<lparr>smap_data := data\<rparr>)
             } else do {
               data \<leftarrow> insert_at index e (smap_data m);
               insert_rest rest (m\<lparr>smap_data := data\<rparr>)
             }
           }
       })"

definition contains_key :: "('k::linorder, 'v) sorted_map \<Rightarrow> 'k \<Rightarrow> bool option" where
  "contains_key m key = map_option (\<lambda>r. r \<noteq> None) (smap_get m key)"

definition smap_index :: "('k::linorder, 'v) sorted_map \<Rightarrow> 'k \<Rightarrow> 'v option" where
  "smap_index m key = do { r \<leftarrow> smap_get m key; r }"

definition smap_index_mut ::
    "('k::linorder, 'v) sorted_map \<Rightarrow> 'k \<Rightarrow> ('v \<Rightarrow> 'v) \<Rightarrow> ('v \<times> ('k, 'v) sorted_map) option" where
  "smap_index_mut m key f = do {
     (r, m) \<leftarrow> smap_get_mut m key f;
     v \<leftarrow> r;
     Some (v, m)
   }"

definition smap_into_iter :: "('k, 'v) sorted_map \<Rightarrow> ('k \<times> 'v) list" where
  "smap_into_iter m = smap_data m"

text \<open>\<open>Vec::dedup_by\<close>: an element is dropped if it is in the bucket of the last element kept.\<close>

fun dedup_by :: "('a \<Rightarrow> 'a \<Rightarrow> bool) \<Rightarrow> 'a list \<Rightarrow> 'a list" where
  "dedup_by same (x # y # zs) = (if same y x then dedup_by same (x # zs) else x # dedup_by same (y # zs))"
| "dedup_by same xs = xs"

definition smap_from_iter ::
    "((('k::linorder \<times> 'v) \<Rightarrow> ('k \<times> 'v) \<Rightarrow> ordering) \<Rightarrow> ('k \<times> 'v) list \<Rightarrow> ('k \<times> 'v) list) \<Rightarrow>
     ('k \<times> 'v) list \<Rightarrow> ('k, 'v) sorted_map" where
  "smap_from_iter sort_unstable_by xs =
     (let data = sort_unstable_by (\<lambda>(k1, _) (k2, _). cmp k1 k2) xs;
          data = dedup_by (\<lambda>(k1, _) (k2, _). cmp k1 k2 = Equal) data
      in \<lparr>smap_data = data\<rparr>)"


section \<open>State and operations of the multi-map\<close>

record ('k, 'v) multi_map =
  mm_items :: "('k \<times> 'v) list"
  idx_sorted_by_item_key :: "nat list"

definition mm_new :: "('k, 'v) multi_map" where
  "mm_new = \<lparr>mm_items = [], idx_sorted_by_item_key = []\<rparr>"

definition mm_len :: "('k, 'v) multi_map \<Rightarrow> nat" where
  "mm_len m = length (mm_items m)"

definition mm_is_empty :: "('k, 'v) multi_map \<Rightarrow> bool" where
  "mm_is_empty m \<longleftrightarrow> mm_items m = []"

definition mm_into_iter :: "('k, 'v) multi_map \<Rightarrow> ('k \<times> 'v) list" where
  "mm_into_iter m = mm_items m"

definition mm_into_iter_enumerated :: "('k, 'v) multi_map \<Rightarrow> (nat \<times> 'k \<times> 'v) list" where
  "mm_into_iter_enumerated m = enumerate 0 (mm_items m)"

definition mm_iter :: "('k, 'v) multi_map \<Rightarrow> ('k \<times> 'v) list" where
  "mm_iter m = map (\<lambda>(k, v). (k, v)) (mm_items m)"

definition mm_iter_enumerated :: "('k, 'v) multi_map \<Rightarrow> (nat \<times> 'k \<times> 'v) list" where
  "mm_iter_enumerated m = map (\<lambda>(i, (k, v)). (i, (k, v))) (enumerate 0 (mm_items m))"

definition mm_get :: "('k, 'v) multi_map \<Rightarrow> nat \<Rightarrow> ('k \<times> 'v) option" where
  "mm_get m idx = (if idx < length (mm_items m) then Some (mm_items m ! idx) else None)"

text \<open>\<open>Iterator::map_while\<close> with a function that may panic.\<close>

fun map_while :: "('a \<Rightarrow> 'b option option) \<Rightarrow> 'a list \<Rightarrow> 'b list option" where
  "map_while f [] = Some []"
| "map_while f (x # xs) = do {
     r \<leftarrow> f x;
     case r of
       None \<Rightarrow> Some []
     | Some y \<Rightarrow> do { ys \<leftarrow> map_while f xs; Some (y # ys) }
   }"

definition get_by_key_enumerated :: "('k::linorder, 'v) multi_map \<Rightarrow> 'k \<Rightarrow> (nat \<times> 'v) list option" where
  "get_by_key_enumerated m key = do {
     lower_bound \<leftarrow> partition_point (idx_sorted_by_item_key m)
       (\<lambda>i. do { (k, _) \<leftarrow> index_at (mm_items m) i; Some (k < key) });
     tail \<leftarrow> slice (idx_sorted_by_item_key m) lower_bound (length (idx_sorted_by_item_key m));
     map_while (\<lambda>i. do {
       (k, v) \<leftarrow> index_at (mm_items m) i;
       Some (if k = key then Some (i, v) else None)
     }) tail
   }"

definition get_by_key :: "('k::linorder, 'v) multi_map \<Rightarrow> 'k \<Rightarrow> 'v list option" where
  "get_by_key m key = map_option (map snd) (get_by_key_enumerated m key)"

definition mm_eq :: "('k, 'v) multi_map \<Rightarrow> ('k, 'v) multi_map \<Rightarrow> bool" where
  "mm_eq m other \<longleftrightarrow> mm_items m = mm_items other"

definition mm_from_iter :: "('k::linorder \<times> 'v) list \<Rightarrow> ('k, 'v) multi_map" where
  "mm_from_iter iter =
     (let its = iter;
          idx = [0..<length its];
          idx = sort_key (\<lambda>i. fst (its ! i)) idx
      in \<lparr>mm_items = its, idx_sorted_by_item_key = idx\<rparr>)"

definition mm_index :: "('k, 'v) multi_map \<Rightarrow> nat \<Rightarrow> 'v option" where
  "mm_index m idx = map_option snd (index_at (mm_items m) idx)"


section \<open>The contract of a map\<close>

text \<open>
  What a client of \<open>insert\<close> relies on: it returns the old value and updates the map at one key. Inserting a
  list of pairs one after the other then overrides the map by the list, the last pair of a key counting.
\<close>

locale insertable_map =
  fixes to_map :: "'m \<Rightarrow> 'k \<rightharpoonup> 'v"
    and invar :: "'m \<Rightarrow> bool"
    and ins :: "'m \<Rightarrow> 'k \<Rightarrow> 'v \<Rightarrow> ('v option \<times> 'm) option"
  assumes insert_spec: "invar m \<Longrightarrow>
    \<exists>m'. ins m k v = Some (to_map m k, m') \<and> invar m' \<and> to_map m' = (to_map m)(k \<mapsto> v)"
begin

lemma insert_all:
  "invar m \<Longrightarrow> \<exists>m'. for_each (\<lambda>(k, v) m. map_option snd (ins m k v)) xs m = Some m' \<and> invar m' \<and>
     to_map m' = to_map m ++ map_of (rev xs)"
proof (induction xs arbitrary: m)
  case (Cons x xs)
  obtain k v where x: "x = (k, v)" by (cases x)
  obtain m1 where m1: "ins m k v = Some (to_map m k, m1)" "invar m1" "to_map m1 = (to_map m)(k \<mapsto> v)"
    using insert_spec [OF Cons.prems] by blast
  have "to_map m ++ map_of (rev (x # xs)) = to_map m1 ++ map_of (rev xs)" unfolding m1(3) x by simp
  with Cons.IH [OF m1(2)] m1(1) show ?case by (simp add: x)
qed simp

end


section \<open>The sorted map is a map\<close>

definition smap_inv :: "('k::linorder, 'v) sorted_map \<Rightarrow> bool" where
  "smap_inv m \<longleftrightarrow> sorted_wrt (<) (map fst (smap_data m))"

definition smap_map :: "('k, 'v) sorted_map \<Rightarrow> 'k \<rightharpoonup> 'v" where
  "smap_map m = map_of (smap_data m)"

lemma windows_ascending_iff: "windows_ascending xs \<longleftrightarrow> sorted_wrt (<) (map fst xs)"
  by (induction xs rule: windows_ascending.induct) (auto intro: order.strict_trans)

lemma sorted_keys_append:
  "sorted_wrt (<) (map fst (xs @ (k, v) # ys)) \<longleftrightarrow> sorted_wrt (<) (map fst xs) \<and> sorted_wrt (<) (map fst ys) \<and>
     (\<forall>x \<in> set xs. fst x < k) \<and> (\<forall>y \<in> set ys. k < fst y)" for k :: "'k::linorder"
  by (auto simp: sorted_wrt_append intro: order.strict_trans)

text \<open>The search splits the vector at the key.\<close>

lemma lookup_cases:
  fixes k :: "'k::linorder"
  assumes "smap_inv m"
  obtains (found) xs v ys where "smap_data m = xs @ (k, v) # ys" "lookup_index_for m k = Some (Ok (length xs))"
      "\<forall>x \<in> set xs. fst x < k" "\<forall>y \<in> set ys. k < fst y"
    | (absent) xs ys where "smap_data m = xs @ ys" "lookup_index_for m k = Some (Err (length xs))"
      "\<forall>x \<in> set xs. fst x < k" "\<forall>y \<in> set ys. k < fst y"
proof -
  let ?d = "smap_data m" and ?g = "\<lambda>(x, _). cmp x k"
  have lt: "i < j \<Longrightarrow> j < length ?d \<Longrightarrow> fst (?d ! i) < fst (?d ! j)" for i j
    using assms sorted_wrt_nth_less [of "(<)" "map fst ?d" i j] by (simp add: smap_inv_def)
  then have le: "i \<le> j \<Longrightarrow> j < length ?d \<Longrightarrow> fst (?d ! i) \<le> fst (?d ! j)" for i j
    by (cases "i = j") (auto simp: less_imp_le)
  have "ordered_by ?g ?d"
    unfolding ordered_by_def split_def cmp_iff using le by (meson le_less_trans less_le_trans)
  with binary_search_by_spec [of ?d "\<lambda>(x, _). Some (cmp x k)" ?g] obtain r where r: "lookup_index_for m k = Some r"
    "case r of Ok i \<Rightarrow> i < length ?d \<and> ?g (?d ! i) = Equal
       | Err i \<Rightarrow> i \<le> length ?d \<and> (\<forall>j < i. ?g (?d ! j) = Less) \<and> (\<forall>j. i \<le> j \<longrightarrow> j < length ?d \<longrightarrow> ?g (?d ! j) = Greater)"
    by (auto simp: lookup_index_for_def)
  show thesis
  proof (cases r)
    case (Ok i)
    with r(2) have i: "i < length ?d" "fst (?d ! i) = k" by (auto simp: split_def)
    then have "?d = take i ?d @ (k, snd (?d ! i)) # drop (Suc i) ?d" by (metis id_take_nth_drop prod.collapse)
    then show thesis using found [of "take i ?d" "snd (?d ! i)" "drop (Suc i) ?d"] r(1) Ok i assms
      by (metis (no_types, lifting) length_take less_imp_le_nat min.absorb2 smap_inv_def sorted_keys_append)
  next
    case (Err i)
    with r(2) have i: "i \<le> length ?d" "\<forall>j < i. fst (?d ! j) < k" "\<forall>j. i \<le> j \<longrightarrow> j < length ?d \<longrightarrow> k < fst (?d ! j)"
      by (auto simp: split_def)
    then have "\<forall>x \<in> set (take i ?d). fst x < k" "\<forall>y \<in> set (drop i ?d). k < fst y"
      unfolding all_set_conv_all_nth by simp_all
    then show thesis using absent [of "take i ?d" "drop i ?d"] r(1) Err i(1) by simp
  qed
qed

lemma map_of_absent: "\<forall>x \<in> set xs. fst x < k \<Longrightarrow> map_of xs k = None" "\<forall>y \<in> set xs. k < fst y \<Longrightarrow> map_of xs k = None"
  for k :: "'k::linorder"
  by (fastforce simp: map_of_eq_None_iff)+

lemma smap_insert_ok:
  assumes "smap_inv m"
  shows "\<exists>m'. smap_insert m k v = Some (smap_map m k, m') \<and> smap_inv m' \<and> smap_map m' = (smap_map m)(k \<mapsto> v)"
proof (cases rule: lookup_cases [OF assms, of k, case_names found absent])
  case (found xs w ys)
  then show ?thesis using assms
    by (auto simp: smap_insert_def smap_inv_def smap_map_def sorted_wrt_append map_of_absent map_add_def
        split: option.split intro!: ext)
next
  case (absent xs ys)
  then show ?thesis using assms
    by (auto simp: smap_insert_def smap_inv_def smap_map_def sorted_wrt_append map_of_absent map_add_def
        split: option.split intro!: ext)
qed

interpretation smap: insertable_map smap_map smap_inv smap_insert
  by unfold_locales (rule smap_insert_ok)

lemma smap_get_ok: "smap_inv m \<Longrightarrow> smap_get m k = Some (smap_map m k)"
  by (erule lookup_cases [of m k]) (auto simp: smap_get_def smap_map_def map_of_absent map_add_def)

lemma smap_remove_ok:
  assumes "smap_inv m"
  shows "\<exists>m'. smap_remove m k = Some (smap_map m k, m') \<and> smap_inv m' \<and> smap_map m' = (smap_map m)(k := None)"
proof (cases rule: lookup_cases [OF assms, of k, case_names found absent])
  case (found xs w ys)
  then show ?thesis using assms
    by (auto simp: smap_remove_def smap_inv_def smap_map_def sorted_wrt_append map_of_absent map_add_def
        split: option.split intro!: ext)
next
  case (absent xs ys)
  then have "smap_map m k = None" by (simp add: smap_map_def map_of_absent map_add_def)
  with absent assms show ?thesis by (simp add: smap_remove_def fun_upd_idem)
qed

lemma smap_get_mut_ok:
  assumes "smap_inv m"
  shows "\<exists>m'. smap_get_mut m k f = Some (smap_map m k, m') \<and> smap_inv m' \<and>
    smap_map m' = (smap_map m)(k := map_option f (smap_map m k))"
proof (cases rule: lookup_cases [OF assms, of k, case_names found absent])
  case (found xs w ys)
  then show ?thesis using assms
    by (auto simp: smap_get_mut_def smap_inv_def smap_map_def sorted_wrt_append map_of_absent map_add_def
        split: option.split intro!: ext)
next
  case (absent xs ys)
  then have "smap_map m k = None" by (simp add: smap_map_def map_of_absent map_add_def)
  with absent assms show ?thesis by (simp add: smap_get_mut_def fun_upd_idem)
qed

section \<open>Ranges\<close>

text \<open>The two indices count the keys below the start of the range and the keys not above its end.\<close>

lemma takeWhile_split: "\<forall>x \<in> set xs. P x \<Longrightarrow> \<forall>y \<in> set ys. \<not> P y \<Longrightarrow> takeWhile P (xs @ ys) = xs"
  by (induction xs) (auto simp: takeWhile_eq_Nil_iff dest: hd_in_set)

lemma takeWhile_const [simp]: "takeWhile (\<lambda>_. True) xs = xs" "takeWhile (\<lambda>_. False) xs = []"
  by (induction xs) auto

lemma range_slice_indices_eq:
  assumes "smap_inv m"
  shows "range_slice_indices m bnds = Some (length (takeWhile (\<lambda>e. \<not> above_start (fst bnds) (fst e)) (smap_data m)),
    length (takeWhile (\<lambda>e. below_end (snd bnds) (fst e)) (smap_data m)))"
proof -
  have bounds: "(do { r \<leftarrow> lookup_index_for m k; Some (case r of Ok index \<Rightarrow> index | Err index \<Rightarrow> index) }) =
        Some (length (takeWhile (\<lambda>e. fst e < k) (smap_data m))) \<and>
      (do { r \<leftarrow> lookup_index_for m k; Some (case r of Ok index \<Rightarrow> index + 1 | Err index \<Rightarrow> index) }) =
        Some (length (takeWhile (\<lambda>e. fst e \<le> k) (smap_data m)))" for k
  proof (cases rule: lookup_cases [OF assms, of k, case_names found absent])
    case (found xs v ys)
    then have "takeWhile (\<lambda>e. fst e < k) (xs @ (k, v) # ys) = xs"
      "takeWhile (\<lambda>e. fst e \<le> k) ((xs @ [(k, v)]) @ ys) = xs @ [(k, v)]"
      by (intro takeWhile_split; force)+
    with found show ?thesis by simp
  next
    case (absent xs ys)
    then have "takeWhile (\<lambda>e. fst e < k) (xs @ ys) = xs" "takeWhile (\<lambda>e. fst e \<le> k) (xs @ ys) = xs"
      by (intro takeWhile_split; force)+
    with absent show ?thesis by simp
  qed
  obtain lo hi where b: "bnds = (lo, hi)" by (cases bnds)
  then show ?thesis
    unfolding b range_slice_indices_def
    by (cases lo; cases hi) (simp_all add: bounds [THEN conjunct1, simplified] bounds [THEN conjunct2, simplified] not_le not_less)
qed

text \<open>Slicing between two such counts: it panics iff some element is below the start and above the end.\<close>

lemma slice_takeWhile:
  assumes "sorted_wrt (\<lambda>x y. (P y \<longrightarrow> P x) \<and> (Q y \<longrightarrow> Q x)) xs"
  shows "slice xs (length (takeWhile P xs)) (length (takeWhile Q xs)) =
      (if \<exists>x \<in> set xs. P x \<and> \<not> Q x then None else Some (filter (\<lambda>x. \<not> P x \<and> Q x) xs)) \<and>
    splice_vec xs (length (takeWhile P xs)) (length (takeWhile Q xs)) [] =
      (if \<exists>x \<in> set xs. P x \<and> \<not> Q x then None else Some (filter (\<lambda>x. \<not> (\<not> P x \<and> Q x)) xs))"
  using assms
proof (induction xs)
  case (Cons x xs)
  consider "P x \<and> Q x" | "P x \<and> \<not> Q x" | "\<not> P x" by blast
  then show ?case
  proof cases
    case 1
    with Cons show ?thesis by (auto simp: slice_def splice_vec_def split: if_splits)
  next
    case 2
    then show ?thesis by (auto simp: slice_def splice_vec_def)
  next
    case 3
    let ?ys = "x # xs" and ?n = "length (takeWhile Q (x # xs))"
    have closed: "sorted_wrt (\<lambda>x y. Q y \<longrightarrow> Q x) ?ys"
      using Cons.prems by (rule sorted_wrt_mono_rel [rotated]) auto
    have "takeWhile Q ys = filter Q ys \<and> dropWhile Q ys = filter (\<lambda>y. \<not> Q y) ys" if "sorted_wrt (\<lambda>x y. Q y \<longrightarrow> Q x) ys" for ys
      using that by (induction ys) (auto simp: filter_empty_conv)
    note Q = this [OF closed]
    have P: "\<forall>y \<in> set ?ys. \<not> P y" using Cons.prems 3 by auto
    then have eqs: "filter (\<lambda>y. \<not> P y \<and> Q y) ?ys = filter Q ?ys" "filter (\<lambda>y. \<not> (\<not> P y \<and> Q y)) ?ys = filter (\<lambda>y. \<not> Q y) ?ys"
      "takeWhile P ?ys = []" by (auto intro!: filter_cong)
    have "slice ?ys 0 ?n = Some (filter Q ?ys)" "splice_vec ?ys 0 ?n [] = Some (filter (\<lambda>y. \<not> Q y) ?ys)"
      using Q takeWhile_eq_take [of Q ?ys] dropWhile_eq_drop [of Q ?ys] length_takeWhile_le [of Q ?ys]
      by (metis slice_def splice_vec_def append_Nil diff_zero drop0 le0 take0)+
    with P eqs show ?thesis unfolding eqs by auto
  qed
qed (simp add: slice_def splice_vec_def)

lemma smap_range_ok:
  fixes bnds :: "'k::linorder range_bounds"
  assumes "smap_inv m"
  defines "bad \<equiv> \<exists>k \<in> dom (smap_map m). \<not> above_start (fst bnds) k \<and> \<not> below_end (snd bnds) k"
  shows "smap_range m bnds = (if bad then None else Some (filter (\<lambda>(k, _). range_contains bnds k) (smap_data m)))"
    and "smap_remove_range m bnds =
      (if bad then None else Some (m\<lparr>smap_data := filter (\<lambda>(k, _). \<not> range_contains bnds k) (smap_data m)\<rparr>))"
proof -
  let ?P = "\<lambda>e. \<not> above_start (fst bnds) (fst e)" and ?Q = "\<lambda>e. below_end (snd bnds) (fst e)"
  have mono: "(x :: 'k) < y \<Longrightarrow> above_start b x \<Longrightarrow> above_start b y" "x < y \<Longrightarrow> below_end b y \<Longrightarrow> below_end b x" for x y b
    by (cases b; auto)+
  have "sorted_wrt (\<lambda>x y. fst x < fst y) (smap_data m)" using assms(1) by (simp add: smap_inv_def sorted_wrt_map)
  then have "sorted_wrt (\<lambda>x y. (?P y \<longrightarrow> ?P x) \<and> (?Q y \<longrightarrow> ?Q x)) (smap_data m)"
    by (rule sorted_wrt_mono_rel [rotated]) (use mono in blast)
  note cut = slice_takeWhile [OF this]
  have bad: "(\<exists>x \<in> set (smap_data m). ?P x \<and> \<not> ?Q x) \<longleftrightarrow> bad"
    by (auto simp: bad_def smap_map_def dom_map_of_conv_image_fst)
  from cut bad show "smap_range m bnds = (if bad then None else Some (filter (\<lambda>(k, _). range_contains bnds k) (smap_data m)))"
    "smap_remove_range m bnds =
      (if bad then None else Some (m\<lparr>smap_data := filter (\<lambda>(k, _). \<not> range_contains bnds k) (smap_data m)\<rparr>))"
    by (auto simp: smap_range_def smap_remove_range_def range_slice_indices_eq [OF assms(1)] split_def range_contains_def)
qed

lemma map_of_filter_key: "map_of (filter (\<lambda>(k, _). P k) xs) = (map_of xs) |` {k. P k}"
  by (induction xs) (auto simp: restrict_map_def fun_eq_iff)

section \<open>Bulk insertion\<close>

text \<open>The representation is canonical: a map has one sorted vector.\<close>

lemma distinct_keys: "sorted_wrt (<) ks \<Longrightarrow> distinct ks" for ks :: "'k::linorder list"
  by (simp add: strict_sorted_iff)

lemma smap_canonical:
  assumes "smap_inv m" "smap_inv m'" "smap_map m = smap_map m'"
  shows "m = m'"
proof -
  let ?d = "smap_data m" and ?d' = "smap_data m'"
  have dist: "distinct (map fst ?d)" "distinct (map fst ?d')" using assms(1,2) by (auto simp: smap_inv_def distinct_keys)
  have set: "set ?d = set ?d'" using assms(3) map_of_inject_set [OF dist] by (simp add: smap_map_def)
  then have keys: "map fst ?d = map fst ?d'"
    using assms(1,2) unfolding smap_inv_def by (intro strict_sorted_equal) (simp_all add: set)
  have "?d = ?d'"
  proof (rule nth_equalityI)
    show len: "length ?d = length ?d'" using arg_cong [OF keys, of length] by simp
    fix i assume i: "i < length ?d"
    then have "?d ! i \<in> set ?d'" "?d' ! i \<in> set ?d'" using nth_mem [of i ?d] nth_mem [of i ?d'] set len by simp_all
    moreover have "fst (?d ! i) = fst (?d' ! i)" using i len arg_cong [OF keys, of "\<lambda>ks. ks ! i"] by simp
    moreover have "inj_on fst (set ?d')" using dist(2) by (simp add: distinct_map)
    ultimately show "?d ! i = ?d' ! i" by (simp add: inj_onD)
  qed
  then show ?thesis by (cases m; cases m') simp
qed

lemma map_of_rev_distinct: "distinct (map fst xs) \<Longrightarrow> map_of (rev xs) = map_of xs"
  by (rule map_of_inject_set [THEN iffD2]) (auto simp: rev_map [symmetric])

lemma insert_rest_ok:
  assumes "smap_inv m" "sorted_wrt (<) (map fst els)"
  shows "\<exists>m'. insert_rest els m = Some m' \<and> smap_inv m' \<and> smap_map m' = smap_map m ++ map_of els"
  using smap.insert_all [OF assms(1), of els] map_of_rev_distinct [OF distinct_keys [OF assms(2)]]
  by (simp add: insert_rest_def)

lemma sorted_hd_last: "sorted xs \<Longrightarrow> e \<in> set xs \<Longrightarrow> hd xs \<le> e \<and> e \<le> last xs"
  by (induction xs) auto

lemma insert_whole:
  fixes els :: "('k::linorder \<times> 'v) list"
  assumes "sorted_wrt (<) (map fst (xs @ ys))" "sorted_wrt (<) (map fst els)" "els \<noteq> []"
    and "\<forall>x \<in> set xs. fst x < fst (hd els)" "\<forall>y \<in> set ys. fst (last els) < fst y"
  shows "sorted_wrt (<) (map fst (xs @ els @ ys)) \<and> map_of (xs @ els @ ys) = map_of (xs @ ys) ++ map_of els"
proof
  have hd: "fst (hd els) \<le> fst e" and last: "fst e \<le> fst (last els)" if "e \<in> set els" for e
    using sorted_hd_last [of "map fst els" "fst e"] assms(2,3) that
    by (auto simp: strict_sorted_imp_sorted hd_map last_map)
  have xs: "fst x < fst e" if "x \<in> set xs" "e \<in> set els" for x e using assms(4) hd that by (meson less_le_trans)
  have ys: "fst e < fst y" if "y \<in> set ys" "e \<in> set els" for y e using assms(5) last that by (meson le_less_trans)
  show sorted: "sorted_wrt (<) (map fst (xs @ els @ ys))" using assms(1,2) xs ys by (auto simp: sorted_wrt_append)
  have "dom (map_of els) \<inter> dom (map_of xs) = {}" using xs by (force simp: dom_map_of_conv_image_fst)
  then show "map_of (xs @ els @ ys) = map_of (xs @ ys) ++ map_of els"
    by (metis map_add_assoc map_add_comm map_of_append)
qed

lemma insert_presorted_ok:
  assumes m: "smap_inv m" and els: "sorted_wrt (<) (map fst els)"
  shows "\<exists>m'. insert_presorted m els = Some m' \<and> smap_inv m' \<and> smap_map m' = smap_map m ++ map_of els"
proof (cases els)
  case Nil
  with m show ?thesis by (simp add: insert_presorted_def)
next
  case (Cons e rest)
  obtain k v where e: "e = (k, v)" by (cases e)
  have rest: "sorted_wrt (<) (map fst rest)" "k \<notin> fst ` set rest" using els Cons e by auto
  then have add: "f(k \<mapsto> v) ++ map_of rest = f ++ map_of els" for f
    by (simp add: Cons e map_add_upd_left dom_map_of_conv_image_fst flip: map_add_upd)
  have one: "\<exists>m'. insert_rest rest (m\<lparr>smap_data := d\<rparr>) = Some m' \<and> smap_inv m' \<and> smap_map m' = smap_map m ++ map_of els"
    if "sorted_wrt (<) (map fst d)" "map_of d = (smap_map m)(k \<mapsto> v)" for d
    using insert_rest_ok [of "m\<lparr>smap_data := d\<rparr>" rest] that rest(1) add [of "smap_map m"]
    by (simp add: smap_inv_def smap_map_def)
  note start = insert_presorted_def Cons e windows_ascending_iff [THEN iffD2, OF els [unfolded Cons e]]
  show ?thesis
  proof (cases rule: lookup_cases [OF m, of k, case_names found absent])
    case (found xs w ys)
    have "sorted_wrt (<) (map fst (xs @ (k, v) # ys))" using m found(1) unfolding smap_inv_def by (simp add: sorted_wrt_append)
    moreover have "map_of (xs @ (k, v) # ys) = (smap_map m)(k \<mapsto> v)"
      using found by (auto simp: smap_map_def map_add_def map_of_absent split: option.split)
    ultimately show ?thesis using one [of "xs @ (k, v) # ys"] found by (simp add: start)
  next
    case (absent xs ys)
    show ?thesis
    proof (cases "ys = [] \<or> fst (last els) < fst (hd ys)")
      case True
      have "sorted_wrt (<) (map fst ys)" using m absent(1) by (simp add: smap_inv_def sorted_wrt_append)
      with True have "\<forall>y \<in> set ys. fst (last els) < fst y" by (cases ys) auto
      with insert_whole [of xs ys els] els m absent Cons e
      have "sorted_wrt (<) (map fst (xs @ els @ ys))" "map_of (xs @ els @ ys) = smap_map m ++ map_of els"
        by (auto simp: smap_inv_def smap_map_def)
      moreover have "insert_presorted m els = Some (m\<lparr>smap_data := xs @ els @ ys\<rparr>)"
        using True absent by (cases ys) (auto simp: start splice_vec_def nth_append)
      ultimately show ?thesis by (simp add: smap_inv_def smap_map_def)
    next
      case False
      then obtain y zs where ys: "ys = y # zs" "\<not> fst (last els) < fst y" by (cases ys) auto
      have "sorted_wrt (<) (map fst (xs @ (k, v) # ys))"
        using m absent unfolding smap_inv_def by (auto simp: sorted_wrt_append intro: order.strict_trans)
      moreover have "map_of (xs @ (k, v) # ys) = (smap_map m)(k \<mapsto> v)"
        using absent by (auto simp: smap_map_def map_add_def map_of_absent split: option.split)
      ultimately show ?thesis using one [of "xs @ (k, v) # ys"] absent ys by (simp add: start nth_append)
    qed
  qed
qed

section \<open>Building a map from an iterator\<close>

text \<open>
  A comparator is a total order up to equality; \<open>sort_unstable_by\<close> then gives a permutation of the slice in
  ascending order.
\<close>

definition total_comparator :: "('a \<Rightarrow> 'a \<Rightarrow> ordering) \<Rightarrow> bool" where
  "total_comparator c \<longleftrightarrow> (\<forall>x y. c x y = Less \<longleftrightarrow> c y x = Greater) \<and>
     (\<forall>x y z. c x y \<noteq> Greater \<longrightarrow> c y z \<noteq> Greater \<longrightarrow> c x z \<noteq> Greater)"

locale unstable_sort_laws =
  fixes sort_by :: "('a \<Rightarrow> 'a \<Rightarrow> ordering) \<Rightarrow> 'a list \<Rightarrow> 'a list"
  assumes sort_permutes: "total_comparator c \<Longrightarrow> mset (sort_by c xs) = mset xs"
    and sort_orders: "total_comparator c \<Longrightarrow> sorted_wrt (\<lambda>x y. c x y \<noteq> Greater) (sort_by c xs)"

lemma total_comparator_key: "total_comparator (\<lambda>(k1, _) (k2, _). cmp k1 k2)"
  by (auto simp: total_comparator_def not_less)

lemma dedup_by_keys:
  fixes xs :: "('k::linorder \<times> 'v) list"
  assumes "sorted (map fst xs)"
  defines "ys \<equiv> dedup_by (\<lambda>(k1, _) (k2, _). cmp k1 k2 = Equal) xs"
  shows "sorted_wrt (<) (map fst ys) \<and> set ys \<subseteq> set xs \<and> fst ` set ys = fst ` set xs \<and> (xs \<noteq> [] \<longrightarrow> fst (hd ys) = fst (hd xs) \<and> ys \<noteq> [])"
  using assms(1) unfolding ys_def
proof (induction "\<lambda>(k1 :: 'k, _ :: 'v) (k2 :: 'k, _ :: 'v). cmp k1 k2 = Equal" xs rule: dedup_by.induct)
  case (1 x y zs)
  show ?case
  proof (cases "fst y = fst x")
    case True
    with 1 show ?thesis by (auto simp: split_def)
  next
    case False
    let ?ds = "dedup_by (\<lambda>(k1, _) (k2, _). cmp k1 k2 = Equal) (y # zs)"
    have IH: "sorted_wrt (<) (map fst ?ds)" "set ?ds \<subseteq> set (y # zs)" "fst ` set ?ds = fst ` set (y # zs)"
      using 1 False by (auto simp: split_def)
    have "fst x < fst y" using "1.prems" False by (simp add: less_le)
    then have "\<forall>d \<in> set (y # zs). fst x < fst d" using "1.prems" by (auto intro: less_le_trans)
    with IH False show ?thesis by (auto simp: split_def)
  qed
qed simp_all

lemma smap_from_iter_ok:
  assumes "unstable_sort_laws S"
  shows "smap_inv (smap_from_iter S xs) \<and> dom (smap_map (smap_from_iter S xs)) = fst ` set xs \<and>
    (\<forall>k v. smap_map (smap_from_iter S xs) k = Some v \<longrightarrow> (k, v) \<in> set xs)"
proof -
  let ?c = "\<lambda>(k1, _) (k2, _). cmp k1 k2"
  let ?ys = "S ?c xs"
  have set: "set ?ys = set xs"
    using unstable_sort_laws.sort_permutes [OF assms total_comparator_key] by (metis set_mset_mset)
  have "sorted (map fst ?ys)"
    using unstable_sort_laws.sort_orders [OF assms total_comparator_key, of xs]
    by (simp add: sorted_wrt_map split_def not_less)
  from dedup_by_keys [OF this] set show ?thesis
    by (auto simp: smap_from_iter_def smap_inv_def smap_map_def dom_map_of_conv_image_fst dest!: map_of_SomeD)
qed

text \<open>The laws can hold: insertion sort.\<close>

fun insert_by :: "('a \<Rightarrow> 'a \<Rightarrow> ordering) \<Rightarrow> 'a \<Rightarrow> 'a list \<Rightarrow> 'a list" where
  "insert_by c x [] = [x]"
| "insert_by c x (y # ys) = (if c x y = Greater then y # insert_by c x ys else x # y # ys)"

definition insertion_sort_by :: "('a \<Rightarrow> 'a \<Rightarrow> ordering) \<Rightarrow> 'a list \<Rightarrow> 'a list" where
  "insertion_sort_by c xs = foldr (insert_by c) xs []"

lemma insert_by_mset [simp]: "mset (insert_by c x ys) = add_mset x (mset ys)"
  by (induction ys) auto

lemma insert_by_set [simp]: "set (insert_by c x ys) = insert x (set ys)"
  by (metis insert_by_mset set_mset_add_mset_insert set_mset_mset)

lemma insert_by_sorted:
  assumes "total_comparator c"
  shows "sorted_wrt (\<lambda>x y. c x y \<noteq> Greater) ys \<Longrightarrow> sorted_wrt (\<lambda>x y. c x y \<noteq> Greater) (insert_by c x ys)"
proof (induction ys)
  case (Cons y ys)
  have "c y x \<noteq> Greater" if "c x y = Greater" using assms that by (metis ordering.distinct(3) total_comparator_def)
  with Cons assms show ?case by (auto simp: total_comparator_def)
qed simp

interpretation insertion: unstable_sort_laws insertion_sort_by
proof
  fix c :: "'a \<Rightarrow> 'a \<Rightarrow> ordering" and xs
  assume "total_comparator c"
  then show "sorted_wrt (\<lambda>x y. c x y \<noteq> Greater) (insertion_sort_by c xs)"
    unfolding insertion_sort_by_def by (induction xs) (auto intro: insert_by_sorted)
  show "mset (insertion_sort_by c xs) = mset xs" unfolding insertion_sort_by_def by (induction xs) auto
qed

section \<open>The multi-map\<close>

definition mm_inv :: "('k::linorder, 'v) multi_map \<Rightarrow> bool" where
  "mm_inv m \<longleftrightarrow> idx_sorted_by_item_key m = sort_key (\<lambda>i. fst (mm_items m ! i)) [0..<length (mm_items m)]"

lemma map_while_eq:
  "(\<And>x. x \<in> set xs \<Longrightarrow> f x = Some (if P x then Some (g x) else None)) \<Longrightarrow> map_while f xs = Some (map g (takeWhile P xs))"
  by (induction xs) auto

lemma takeWhile_dropWhile_key:
  "sorted (map f xs) \<Longrightarrow> takeWhile (\<lambda>x. f x = k) (dropWhile (\<lambda>x. f x < k) xs) = filter (\<lambda>x. f x = k) xs" for k :: "'k::linorder"
proof (induction xs)
  case (Cons x xs)
  consider "f x < k" | "f x = k" | "k < f x" by force
  then show ?case
  proof cases
    case 2
    then have "dropWhile (\<lambda>x. f x < k) xs = xs" using Cons.prems by (cases xs) auto
    with Cons 2 show ?thesis by simp
  next
    case 3
    then have "\<forall>y \<in> set xs. f y \<noteq> k" using Cons.prems by auto
    with 3 show ?thesis by (simp add: filter_empty_conv not_less_iff_gr_or_eq)
  qed (use Cons in auto)
qed simp

lemma get_by_key_enumerated_ok:
  assumes "mm_inv m"
  shows "get_by_key_enumerated m key =
    Some (map (\<lambda>i. (i, snd (mm_items m ! i))) (filter (\<lambda>i. fst (mm_items m ! i) = key) [0..<length (mm_items m)]))"
proof -
  let ?n = "length (mm_items m)" and ?f = "\<lambda>i. fst (mm_items m ! i)" and ?xs = "idx_sorted_by_item_key m"
  have xs: "?xs = sort_key ?f [0..<?n]" "set ?xs = {..<?n}" "sorted (map ?f ?xs)"
    using assms by (auto simp: mm_inv_def)
  have "partition_point ?xs (\<lambda>i. do { (k, _) \<leftarrow> index_at (mm_items m) i; Some (k < key) }) =
      Some (length (takeWhile (\<lambda>i. ?f i < key) ?xs))"
  proof (rule partition_point_spec)
    show "\<And>i. i \<in> set ?xs \<Longrightarrow> (do { (k, _) \<leftarrow> index_at (mm_items m) i; Some (k < key) }) = Some (?f i < key)"
      using xs(2) by (simp add: split_def)
    show "?f (?xs ! j) < key \<Longrightarrow> ?f (?xs ! i) < key" if "i \<le> j" "j < length ?xs" for i j
      using sorted_nth_mono [OF xs(3), of i j] that by simp
  qed
  moreover have "map_while (\<lambda>i. do { (k, v) \<leftarrow> index_at (mm_items m) i; Some (if k = key then Some (i, v) else None) })
      (dropWhile (\<lambda>i. ?f i < key) ?xs) =
      Some (map (\<lambda>i. (i, snd (mm_items m ! i))) (takeWhile (\<lambda>i. ?f i = key) (dropWhile (\<lambda>i. ?f i < key) ?xs)))"
  proof (rule map_while_eq)
    fix i assume "i \<in> set (dropWhile (\<lambda>i. ?f i < key) ?xs)"
    then have "i < ?n" using xs(2) set_dropWhileD by fastforce
    then show "(do { (k, v) \<leftarrow> index_at (mm_items m) i; Some (if k = key then Some (i, v) else None) }) =
        Some (if ?f i = key then Some (i, snd (mm_items m ! i)) else None)" by (simp add: split_def)
  qed
  moreover have "slice ?xs (length (takeWhile (\<lambda>i. ?f i < key) ?xs)) (length ?xs) = Some (dropWhile (\<lambda>i. ?f i < key) ?xs)"
    by (simp add: dropWhile_eq_drop length_takeWhile_le)
  moreover have "filter (\<lambda>i. ?f i = key) ?xs = filter (\<lambda>i. ?f i = key) [0..<?n]"
    unfolding xs(1) by (rule sort_key_stable)
  ultimately show ?thesis
    unfolding get_by_key_enumerated_def
    by (simp add: takeWhile_dropWhile_key [OF xs(3)])
qed


section \<open>Properties\<close>

text \<open>C26: \<open>SortedMap\<close> is a map: with its keys in strictly ascending order, \<open>insert\<close>, \<open>remove\<close>, \<open>get\<close>, \<open>get_mut\<close>,
  \<open>contains_key\<close> and indexing return without an unchecked access out of bounds and do what the functions on
  partial maps do, each returning the old value; indexing panics exactly for an absent key; the order is kept,
  and the keys of the vector are the keys of the map, ascending.\<close>

theorem sorted_map_operations:
  assumes "smap_inv m"
  shows "smap_inv smap_new \<and> smap_map smap_new = Map.empty \<and>
    (\<exists>m1. smap_insert m k v = Some (smap_map m k, m1) \<and> smap_inv m1 \<and> smap_map m1 = (smap_map m)(k \<mapsto> v)) \<and>
    (\<exists>m1. smap_remove m k = Some (smap_map m k, m1) \<and> smap_inv m1 \<and> smap_map m1 = (smap_map m)(k := None)) \<and>
    (\<exists>m1. smap_get_mut m k f = Some (smap_map m k, m1) \<and> smap_inv m1 \<and> smap_map m1 = (smap_map m)(k := map_option f (smap_map m k))) \<and>
    smap_get m k = Some (smap_map m k) \<and> contains_key m k = Some (k \<in> dom (smap_map m)) \<and> smap_index m k = smap_map m k \<and>
    smap_keys m = sorted_list_of_set (dom (smap_map m)) \<and> smap_len m = card (dom (smap_map m))"
proof -
  have "sorted_list_of_set (dom (smap_map m)) = smap_keys m"
    using assms unfolding smap_keys_def smap_map_def smap_inv_def dom_map_of_conv_image_fst
    by (metis list.set_map sorted_list_of_set.idem_if_sorted_distinct strict_sorted_iff)
  moreover have "card (dom (smap_map m)) = length (smap_keys m)"
    using assms unfolding smap_keys_def smap_map_def smap_inv_def dom_map_of_conv_image_fst
    by (metis distinct_card distinct_keys list.set_map)
  moreover have "smap_inv smap_new" "smap_map smap_new = Map.empty" by (simp_all add: smap_inv_def smap_new_def smap_map_def)
  ultimately show ?thesis
    using smap_insert_ok [OF assms, of k v] smap_remove_ok [OF assms, of k] smap_get_mut_ok [OF assms, of k f]
      smap_get_ok [OF assms, of k]
    by (simp add: contains_key_def smap_index_def smap_keys_def smap_len_def domIff)
qed

theorem sorted_map_operations_witness:
  "smap_inv \<lparr>smap_data = [(1 :: nat, ''a''), (5, ''b'')]\<rparr> \<and>
    (\<exists>m1. smap_insert \<lparr>smap_data = [(1 :: nat, ''a''), (5, ''b'')]\<rparr> 3 ''c'' = Some (None, m1) \<and> smap_map m1 3 = Some ''c'')"
proof -
  let ?m = "\<lparr>smap_data = [(1 :: nat, ''a''), (5, ''b'')]\<rparr>"
  have inv: "smap_inv ?m" by (simp add: smap_inv_def)
  moreover have "smap_map ?m 3 = None" by (simp add: smap_map_def)
  moreover obtain m1 where "smap_insert ?m 3 ''c'' = Some (smap_map ?m 3, m1)" "smap_map m1 = (smap_map ?m)(3 \<mapsto> ''c'')"
    using sorted_map_operations [OF inv, of 3 "''c''" id] by blast
  ultimately show ?thesis by simp
qed

text \<open>\<open>range\<close> gives the entries whose keys the bounds contain, in order, and \<open>remove_range\<close> leaves exactly the
  others. Both panic, and only, if some key of the map is at once before the start and after the end, as with an
  inverted range or two excluded bounds at one key.\<close>

theorem sorted_map_ranges:
  assumes "smap_inv m"
  shows "if \<exists>k \<in> dom (smap_map m). \<not> above_start (fst bnds) k \<and> \<not> below_end (snd bnds) k
    then smap_range m bnds = None \<and> smap_remove_range m bnds = None
    else smap_range m bnds = Some (filter (\<lambda>(k, _). range_contains bnds k) (smap_iter m)) \<and>
      (\<exists>m1. smap_remove_range m bnds = Some m1 \<and> smap_inv m1 \<and> smap_map m1 = (smap_map m) |` {k. \<not> range_contains bnds k})"
proof -
  have "smap_inv (m\<lparr>smap_data := filter P (smap_data m)\<rparr>)" for P
    using assms by (simp add: smap_inv_def sorted_wrt_map sorted_wrt_filter)
  then show ?thesis
    using smap_range_ok [OF assms, of bnds] map_of_filter_key [of "\<lambda>k. \<not> range_contains bnds k" "smap_data m"]
    by (auto simp: smap_iter_def smap_map_def)
qed

theorem sorted_map_ranges_witness:
  "smap_range \<lparr>smap_data = [(1 :: nat, ''a''), (5, ''b''), (7, ''c'')]\<rparr> (Included 2, Excluded 7) = Some [(5, ''b'')] \<and>
    smap_range \<lparr>smap_data = [(1 :: nat, ''a''), (5, ''b''), (7, ''c'')]\<rparr> (Included 6, Included 2) = None"
proof -
  let ?m = "\<lparr>smap_data = [(1 :: nat, ''a''), (5, ''b''), (7, ''c'')]\<rparr>"
  have "smap_inv ?m" by (simp add: smap_inv_def)
  moreover have "dom (smap_map ?m) = {1, 5, 7}" by (auto simp: smap_map_def)
  ultimately show ?thesis
    using sorted_map_ranges [of ?m "(Included 2, Excluded 7)"] sorted_map_ranges [of ?m "(Included 6, Included 2)"]
    by (simp add: smap_iter_def range_contains_def)
qed

text \<open>\<open>insert_presorted\<close> is equivalent to inserting its elements one by one, on every path (the whole slice
  copied in between, the first key present or not), and \<open>from_presorted_elements\<close> to inserting them into the empty
  map; both panic on elements that are not in strictly ascending order of key. Collecting an iterator gives a map
  with the keys of its items, each with one of the values given for it.\<close>

theorem sorted_map_bulk:
  assumes "smap_inv m" "unstable_sort_laws S"
  shows "(if els = [] \<or> sorted_wrt (<) (map fst els)
      then \<exists>m1 m2. insert_presorted m els = Some m1 \<and> insert_rest els m = Some m1 \<and> smap_inv m1 \<and> smap_map m1 = smap_map m ++ map_of els \<and>
        from_presorted_elements els = Some m2 \<and> insert_rest els smap_new = Some m2
      else insert_presorted m els = None \<and> from_presorted_elements els = None) \<and>
    smap_inv (smap_from_iter S els) \<and> dom (smap_map (smap_from_iter S els)) = fst ` set els \<and>
    (\<forall>k v. smap_map (smap_from_iter S els) k = Some v \<longrightarrow> (k, v) \<in> set els)"
proof (cases "sorted_wrt (<) (map fst els)")
  case True
  obtain m1 where m1: "insert_presorted m els = Some m1" "smap_inv m1" "smap_map m1 = smap_map m ++ map_of els"
    using insert_presorted_ok [OF assms(1) True] by blast
  have same: "smap_inv x \<Longrightarrow> smap_inv y \<Longrightarrow> smap_map y = smap_map x ++ map_of els \<Longrightarrow> insert_rest els x = Some y" for x y
    using insert_rest_ok [OF _ True, of x] smap_canonical by metis
  have "smap_inv smap_new" "smap_inv \<lparr>smap_data = els\<rparr>" "smap_map \<lparr>smap_data = els\<rparr> = smap_map smap_new ++ map_of els"
    using True by (simp_all add: smap_inv_def smap_new_def smap_map_def)
  with True m1 same [OF assms(1) m1(2,3)] same [of smap_new "\<lparr>smap_data = els\<rparr>"] smap_from_iter_ok [OF assms(2), of els] show ?thesis
    by (simp add: from_presorted_elements_def windows_ascending_iff)
next
  case False
  then have "els \<noteq> []" by auto
  then have "insert_presorted m els = None" using False by (cases els) (auto simp: insert_presorted_def windows_ascending_iff)
  with False \<open>els \<noteq> []\<close> smap_from_iter_ok [OF assms(2), of els] show ?thesis
    by (simp add: from_presorted_elements_def windows_ascending_iff)
qed

theorem sorted_map_bulk_witness:
  "\<exists>m1. insert_presorted \<lparr>smap_data = [(2 :: nat, ''a''), (6, ''b'')]\<rparr> [(1, ''c''), (6, ''d'')] = Some m1 \<and>
    smap_map m1 6 = Some ''d''"
proof -
  have "smap_inv \<lparr>smap_data = [(2 :: nat, ''a''), (6, ''b'')]\<rparr>" by (simp add: smap_inv_def)
  from sorted_map_bulk [OF this insertion.unstable_sort_laws_axioms, of "[(1, ''c''), (6, ''d'')]"]
  show ?thesis by auto
qed

text \<open>\<open>SortedIndexMultiMap\<close>: a map collected from an iterator yields its items in insertion order, and
  \<open>get_by_key_enumerated\<close> and \<open>get_by_key\<close> find, by binary search over the sorted indices, exactly the items with
  the key, in insertion order.\<close>

theorem multi_map_lookup:
  "mm_iter (mm_from_iter xs) = xs \<and>
   get_by_key_enumerated (mm_from_iter xs) key =
     Some (map (\<lambda>i. (i, snd (xs ! i))) (filter (\<lambda>i. fst (xs ! i) = key) [0..<length xs])) \<and>
   get_by_key (mm_from_iter xs) key = Some (map snd (filter (\<lambda>(k, _). k = key) xs))"
proof -
  have items: "mm_items (mm_from_iter xs) = xs" and inv: "mm_inv (mm_from_iter xs)"
    by (simp_all add: mm_from_iter_def mm_inv_def)
  have "filter P xs = map (nth xs) (filter (\<lambda>i. P (xs ! i)) [0..<length xs])" for P
    using filter_map [of P "nth xs" "[0..<length xs]"] by (simp add: map_nth comp_def)
  then have "map snd (filter (\<lambda>(k, _). k = key) xs) = map (\<lambda>i. snd (xs ! i)) (filter (\<lambda>i. fst (xs ! i) = key) [0..<length xs])"
    by (simp add: split_def)
  with get_by_key_enumerated_ok [OF inv, of key] items show ?thesis
    by (simp add: mm_iter_def get_by_key_def comp_def split_def)
qed

end
