(* ===== verification/Utf8.thy ===== *)
theory Utf8
  imports Rust_Char "HOL-Library.Sublist"
begin

text \<open>
  UTF-8 in the standard library: the encoder \<open>encode_utf8_raw\<close> of \<open>library/core/src/char/methods.rs\<close>, the decoders
  and the validator of \<open>library/core/src/str/validations.rs\<close>, and \<open>from_utf8\<close> of \<open>str/converts.rs\<close>. A \<open>&str\<close> is the list of its bytes here. An iterator over bytes is the list
  that is left; \<open>unwrap_unchecked\<close> and the reads through pointers are checked, with \<open>None\<close> where the source would
  have undefined behaviour. \<open>usize\<close> is 64 bits wide.
\<close>

section \<open>Encoding and decoding one character\<close>

abbreviation TAG_CONT :: u8 where "TAG_CONT \<equiv> 0x80"
abbreviation TAG_TWO_B :: u8 where "TAG_TWO_B \<equiv> 0xC0"
abbreviation TAG_THREE_B :: u8 where "TAG_THREE_B \<equiv> 0xE0"
abbreviation TAG_FOUR_B :: u8 where "TAG_FOUR_B \<equiv> 0xF0"
abbreviation CONT_MASK :: u8 where "CONT_MASK \<equiv> 0x3F"

text \<open>\<open>encode_utf8_raw\<close>: the subslice it returns, and the buffer.\<close>

definition encode_utf8_raw :: "u32 \<Rightarrow> u8 list \<Rightarrow> (u8 list \<times> u8 list) option" where
  "encode_utf8_raw code dst = do {
     let len = len_utf8 code;
     dst \<leftarrow> (case (len, dst) of
         (Suc 0, a # dst') \<Rightarrow> Some (ucast code # dst')
       | (Suc (Suc 0), a # b # dst') \<Rightarrow>
           Some ((ucast (drop_bit 6 code AND 0x1F) OR TAG_TWO_B) # (ucast (code AND 0x3F) OR TAG_CONT) # dst')
       | (Suc (Suc (Suc 0)), a # b # c # dst') \<Rightarrow>
           Some ((ucast (drop_bit 12 code AND 0x0F) OR TAG_THREE_B) #
                 (ucast (drop_bit 6 code AND 0x3F) OR TAG_CONT) # (ucast (code AND 0x3F) OR TAG_CONT) # dst')
       | (Suc (Suc (Suc (Suc 0))), a # b # c # d # dst') \<Rightarrow>
           Some ((ucast (drop_bit 18 code AND 0x07) OR TAG_FOUR_B) # (ucast (drop_bit 12 code AND 0x3F) OR TAG_CONT) #
                 (ucast (drop_bit 6 code AND 0x3F) OR TAG_CONT) # (ucast (code AND 0x3F) OR TAG_CONT) # dst')
       | _ \<Rightarrow> None);
     r \<leftarrow> slice dst 0 len;
     Some (r, dst)
   }"

definition utf8_first_byte :: "u8 \<Rightarrow> nat \<Rightarrow> u32" where
  "utf8_first_byte byte width = ucast (byte AND drop_bit width 0x7F)"

definition utf8_acc_cont_byte :: "u32 \<Rightarrow> u8 \<Rightarrow> u32" where
  "utf8_acc_cont_byte ch byte = push_bit 6 ch OR ucast (byte AND CONT_MASK)"

definition utf8_is_cont_byte :: "u8 \<Rightarrow> bool" where
  "utf8_is_cont_byte byte \<longleftrightarrow> sint byte < -64"

text \<open>\<open>bytes.next().unwrap_unchecked()\<close>, and the same at the back.\<close>

definition take_front :: "u8 list \<Rightarrow> (u8 \<times> u8 list) option" where
  "take_front bytes = (case bytes of [] \<Rightarrow> None | x # rest \<Rightarrow> Some (x, rest))"

definition take_back :: "u8 list \<Rightarrow> (u8 \<times> u8 list) option" where
  "take_back bytes = (if bytes = [] then None else Some (last bytes, butlast bytes))"

definition next_code_point :: "u8 list \<Rightarrow> (u32 option \<times> u8 list) option" where
  "next_code_point bytes = (case bytes of
       [] \<Rightarrow> Some (None, [])
     | x # bytes \<Rightarrow>
         if x < 128 then Some (Some (ucast x), bytes)
         else do {
           let init = utf8_first_byte x 2;
           (y, bytes) \<leftarrow> take_front bytes;
           let ch = utf8_acc_cont_byte init y;
           if 0xE0 \<le> x then do {
             (z, bytes) \<leftarrow> take_front bytes;
             let y_z = utf8_acc_cont_byte (ucast (y AND CONT_MASK)) z;
             let ch = push_bit 12 init OR y_z;
             if 0xF0 \<le> x then do {
               (w, bytes) \<leftarrow> take_front bytes;
               let ch = push_bit 18 (init AND 7) OR utf8_acc_cont_byte y_z w;
               Some (Some ch, bytes)
             } else Some (Some ch, bytes)
           } else Some (Some ch, bytes)
         })"

definition next_code_point_reverse :: "u8 list \<Rightarrow> (u32 option \<times> u8 list) option" where
  "next_code_point_reverse bytes =
     (if bytes = [] then Some (None, [])
      else do {
        (w, bytes) \<leftarrow> take_back bytes;
        if w < 128 then Some (Some (ucast w), bytes)
        else do {
          (z, bytes) \<leftarrow> take_back bytes;
          let ch = utf8_first_byte z 2;
          (ch, bytes) \<leftarrow> (if utf8_is_cont_byte z then do {
              (y, bytes) \<leftarrow> take_back bytes;
              let ch = utf8_first_byte y 3;
              (ch, bytes) \<leftarrow> (if utf8_is_cont_byte y then do {
                  (x, bytes) \<leftarrow> take_back bytes;
                  let ch = utf8_first_byte x 4;
                  let ch = utf8_acc_cont_byte ch y;
                  Some (ch, bytes)
                } else Some (ch, bytes));
              let ch = utf8_acc_cont_byte ch z;
              Some (ch, bytes)
            } else Some (ch, bytes));
          let ch = utf8_acc_cont_byte ch w;
          Some (Some ch, bytes)
        }
      })"


section \<open>Validation\<close>

text \<open>The 256 entries of the table, in runs.\<close>

definition UTF8_CHAR_WIDTH :: "nat list" where
  "UTF8_CHAR_WIDTH = replicate 128 1 @ replicate 64 0 @ replicate 2 0 @ replicate 30 2 @ replicate 16 3 @
     replicate 5 4 @ replicate 11 0"

definition utf8_char_width :: "u8 \<Rightarrow> nat" where
  "utf8_char_width b = UTF8_CHAR_WIDTH ! unat b"

definition NONASCII_MASK :: u64 where "NONASCII_MASK = 0x8080808080808080"

definition contains_nonascii :: "u64 \<Rightarrow> bool" where
  "contains_nonascii x \<longleftrightarrow> x AND NONASCII_MASK \<noteq> 0"

record utf8_error =
  valid_up_to :: nat
  error_len :: "nat option"

text \<open>The macro \<open>next!\<close>: the following byte, or the error that there is none.\<close>

definition next_byte :: "u8 list \<Rightarrow> nat \<Rightarrow> (nat \<Rightarrow> u8 \<Rightarrow> (nat, nat option) result) \<Rightarrow> (nat, nat option) result" where
  "next_byte v index k =
     (let index = index + 1 in if length v \<le> index then Err None else k index (v ! index))"

text \<open>The second byte of a sequence of three or four, after the first; the patterns of the two matches.\<close>

definition second_of_three :: "u8 \<Rightarrow> u8 \<Rightarrow> bool" where
  "second_of_three b0 b1 \<longleftrightarrow>
     b0 = 0xE0 \<and> 0xA0 \<le> b1 \<and> b1 \<le> 0xBF \<or> 0xE1 \<le> b0 \<and> b0 \<le> 0xEC \<and> 0x80 \<le> b1 \<and> b1 \<le> 0xBF \<or>
     b0 = 0xED \<and> 0x80 \<le> b1 \<and> b1 \<le> 0x9F \<or> 0xEE \<le> b0 \<and> b0 \<le> 0xEF \<and> 0x80 \<le> b1 \<and> b1 \<le> 0xBF"

definition second_of_four :: "u8 \<Rightarrow> u8 \<Rightarrow> bool" where
  "second_of_four b0 b1 \<longleftrightarrow>
     b0 = 0xF0 \<and> 0x90 \<le> b1 \<and> b1 \<le> 0xBF \<or> 0xF1 \<le> b0 \<and> b0 \<le> 0xF3 \<and> 0x80 \<le> b1 \<and> b1 \<le> 0xBF \<or>
     b0 = 0xF4 \<and> 0x80 \<le> b1 \<and> b1 \<le> 0x8F"

text \<open>The branch of the loop for a first byte of at least 128: the index after the sequence, or the error length.\<close>

definition validate_multibyte :: "u8 list \<Rightarrow> nat \<Rightarrow> (nat, nat option) result" where
  "validate_multibyte v index =
     (let b0 = v ! index; w = utf8_char_width b0
      in if w = 2 then
           next_byte v index (\<lambda>index b. if -64 \<le> sint b then Err (Some 1) else Ok (index + 1))
         else if w = 3 then
           next_byte v index (\<lambda>index b.
             if second_of_three b0 b
             then next_byte v index (\<lambda>index b. if -64 \<le> sint b then Err (Some 2) else Ok (index + 1))
             else Err (Some 1))
         else if w = 4 then
           next_byte v index (\<lambda>index b.
             if second_of_four b0 b
             then next_byte v index (\<lambda>index b.
               if -64 \<le> sint b then Err (Some 2)
               else next_byte v index (\<lambda>index b. if -64 \<le> sint b then Err (Some 3) else Ok (index + 1)))
             else Err (Some 1))
         else Err (Some 1))"

lemma validate_multibyte_less: "validate_multibyte v i = Ok j \<Longrightarrow> i < j"
  by (auto simp: validate_multibyte_def next_byte_def Let_def split: if_splits)

text \<open>The read of a \<open>usize\<close> through the pointer, in little-endian order.\<close>

definition word_of_bytes :: "u8 list \<Rightarrow> u64" where
  "word_of_bytes bs = foldr (\<lambda>b w. ucast b OR push_bit 8 w) bs 0"

definition read_usize_at :: "u8 list \<Rightarrow> nat \<Rightarrow> u64 option" where
  "read_usize_at v index = map_option word_of_bytes (slice v index (index + 8))"

text \<open>The two loops that skip ASCII: two words at a time, then the bytes up to the next that is not ASCII.\<close>

function ascii_blocks :: "u8 list \<Rightarrow> nat \<Rightarrow> nat \<Rightarrow> nat option" where
  "ascii_blocks v blocks_end index =
     (if index < blocks_end then do {
        zu \<leftarrow> read_usize_at v index;
        zv \<leftarrow> read_usize_at v (index + 8);
        if contains_nonascii zu \<or> contains_nonascii zv then Some index
        else ascii_blocks v blocks_end (index + 16)
      } else Some index)"
  by pat_completeness auto
termination by (relation "measure (\<lambda>(v, e, i). e - i)") auto

function ascii_bytes :: "u8 list \<Rightarrow> nat \<Rightarrow> nat" where
  "ascii_bytes v index = (if index < length v \<and> v ! index < 128 then ascii_bytes v (index + 1) else index)"
  by pat_completeness auto
termination by (relation "measure (\<lambda>(v, i). length v - i)") auto

declare ascii_blocks.simps [simp del] ascii_bytes.simps [simp del]

definition skip_ascii :: "u8 list \<Rightarrow> nat \<Rightarrow> nat option" where
  "skip_ascii v index = do {
     let blocks_end = (if 16 \<le> length v then length v - 16 + 1 else 0);
     index \<leftarrow> ascii_blocks v blocks_end index;
     Some (ascii_bytes v index)
   }"

lemma ascii_blocks_le: "ascii_blocks v e i = Some j \<Longrightarrow> i \<le> j"
proof (induction v e i rule: ascii_blocks.induct)
  case (1 v e i)
  from "1.prems" show ?case
    by (subst (asm) ascii_blocks.simps) (auto split: if_splits bind_splits dest!: "1.IH")
qed

lemma ascii_bytes_le: "i \<le> ascii_bytes v i"
  by (induction v i rule: ascii_bytes.induct) (subst ascii_bytes.simps, auto)

lemma skip_ascii_less: "skip_ascii v i = Some j \<Longrightarrow> i < length v \<Longrightarrow> v ! i < 128 \<Longrightarrow> i < j"
proof -
  assume "skip_ascii v i = Some j" and i: "i < length v" "v ! i < 128"
  then obtain k where k: "i \<le> k" "j = ascii_bytes v k"
    by (auto simp: skip_ascii_def Let_def dest: ascii_blocks_le split: bind_splits)
  show "i < j"
  proof (cases "i = k")
    case True
    with i k(2) have "j = ascii_bytes v (i + 1)" by (subst (asm) ascii_bytes.simps) simp
    then show ?thesis using ascii_bytes_le [of "i + 1" v] by simp
  qed (use k ascii_bytes_le [of k v] in simp)
qed

text \<open>\<open>align\<close> is what \<open>align_offset\<close> says of the pointer to the slice.\<close>

function validation_loop :: "u64 \<Rightarrow> u8 list \<Rightarrow> nat \<Rightarrow> (unit, utf8_error) result option" where
  "validation_loop align v index =
     (if index < length v then
        (if 128 \<le> v ! index then
           (case validate_multibyte v index of
              Err l \<Rightarrow> Some (Err \<lparr>valid_up_to = index, error_len = l\<rparr>)
            | Ok index' \<Rightarrow> validation_loop align v index')
         else if align \<noteq> -1 \<and> (align - word_of_nat index) mod 8 = 0 then do {
           index' \<leftarrow> skip_ascii v index;
           validation_loop align v index'
         } else validation_loop align v (index + 1))
      else Some (Ok ()))"
  by pat_completeness auto
termination
  by (relation "measure (\<lambda>(a, v, i). length v - i)") (auto dest: skip_ascii_less validate_multibyte_less simp: not_le)

declare validation_loop.simps [simp del]

definition run_utf8_validation :: "u64 \<Rightarrow> u8 list \<Rightarrow> (unit, utf8_error) result option" where
  "run_utf8_validation align v = validation_loop align v 0"

definition from_utf8 :: "u64 \<Rightarrow> u8 list \<Rightarrow> (u8 list, utf8_error) result option" where
  "from_utf8 align v = do {
     r \<leftarrow> run_utf8_validation align v;
     Some (case r of Ok _ \<Rightarrow> Ok v | Err err \<Rightarrow> Err err)
   }"


section \<open>The encoding as numbers\<close>

text \<open>The bytes of a character, and the numbers they are.\<close>

definition utf8_bytes :: "rchar \<Rightarrow> u8 list" where
  "utf8_bytes c = (if c < 0x80 then [ucast c]
     else if c < 0x800 then [ucast (drop_bit 6 c AND 0x1F) OR TAG_TWO_B, ucast (c AND 0x3F) OR TAG_CONT]
     else if c < 0x10000 then [ucast (drop_bit 12 c AND 0x0F) OR TAG_THREE_B, ucast (drop_bit 6 c AND 0x3F) OR TAG_CONT,
       ucast (c AND 0x3F) OR TAG_CONT]
     else [ucast (drop_bit 18 c AND 0x07) OR TAG_FOUR_B, ucast (drop_bit 12 c AND 0x3F) OR TAG_CONT,
       ucast (drop_bit 6 c AND 0x3F) OR TAG_CONT, ucast (c AND 0x3F) OR TAG_CONT])"

definition utf8_codes :: "nat \<Rightarrow> nat list" where
  "utf8_codes n = (if n < 0x80 then [n]
     else if n < 0x800 then [0xC0 + n div 64, 0x80 + n mod 64]
     else if n < 0x10000 then [0xE0 + n div 4096, 0x80 + n div 64 mod 64, 0x80 + n mod 64]
     else [0xF0 + n div 262144, 0x80 + n div 4096 mod 64, 0x80 + n div 64 mod 64, 0x80 + n mod 64])"

lemma length_utf8_bytes [simp]: "length (utf8_bytes c) = len_utf8 c"
  by (simp add: utf8_bytes_def len_utf8_def)

lemma len_utf8_bounds: "0 < len_utf8 c" "len_utf8 c \<le> 4"
  by (simp_all add: len_utf8_def)

lemma encode_utf8_raw_eq:
  "encode_utf8_raw c dst =
     (if len_utf8 c \<le> length dst then Some (utf8_bytes c, utf8_bytes c @ drop (len_utf8 c) dst) else None)"
proof -
  consider "dst = []" | a where "dst = [a]" | a b where "dst = [a, b]" | a b d where "dst = [a, b, d]"
    | a b d e ds where "dst = a # b # d # e # ds"
    by (metis list.exhaust)
  then show ?thesis
    by cases (simp_all add: encode_utf8_raw_def utf8_bytes_def len_utf8_def Let_def slice_def numeral_eq_Suc)
qed

lemma unat_and_mask: "unat (w AND word_of_nat (2 ^ k - 1)) = unat w mod 2 ^ k" if "k < LENGTH('a)" for w :: "'a::len word"
proof -
  have mask: "w AND word_of_nat (2 ^ k - 1) = take_bit k w"
    using that by (simp add: take_bit_eq_mask mask_eq_exp_minus_1 of_nat_diff)
  show ?thesis unfolding mask unsigned_take_bit_eq by (simp add: take_bit_nat_def)
qed

lemma or_tags:
  "n < 64 \<Longrightarrow> unat ((word_of_nat n :: u8) OR 0x80) = 0x80 + n"
  "n < 32 \<Longrightarrow> unat ((word_of_nat n :: u8) OR 0xC0) = 0xC0 + n"
  "n < 16 \<Longrightarrow> unat ((word_of_nat n :: u8) OR 0xE0) = 0xE0 + n"
  "n < 8 \<Longrightarrow> unat ((word_of_nat n :: u8) OR 0xF0) = 0xF0 + n"
proof -
  have "list_all (\<lambda>n. unat ((word_of_nat n :: u8) OR 0x80) = 0x80 + n) [0..<64]"
    "list_all (\<lambda>n. unat ((word_of_nat n :: u8) OR 0xC0) = 0xC0 + n) [0..<32]"
    "list_all (\<lambda>n. unat ((word_of_nat n :: u8) OR 0xE0) = 0xE0 + n) [0..<16]"
    "list_all (\<lambda>n. unat ((word_of_nat n :: u8) OR 0xF0) = 0xF0 + n) [0..<8]"
    by code_simp+
  then show "n < 64 \<Longrightarrow> unat ((word_of_nat n :: u8) OR 0x80) = 0x80 + n"
    "n < 32 \<Longrightarrow> unat ((word_of_nat n :: u8) OR 0xC0) = 0xC0 + n"
    "n < 16 \<Longrightarrow> unat ((word_of_nat n :: u8) OR 0xE0) = 0xE0 + n"
    "n < 8 \<Longrightarrow> unat ((word_of_nat n :: u8) OR 0xF0) = 0xF0 + n"
    by (auto simp: list_all_iff)
qed

lemma field_of_code:
  "(ucast (drop_bit k c AND 0x3F) :: u8) = word_of_nat (unat c div 2 ^ k mod 64)"
  "(ucast (drop_bit k c AND 0x1F) :: u8) = word_of_nat (unat c div 2 ^ k mod 32)"
  "(ucast (drop_bit k c AND 0x0F) :: u8) = word_of_nat (unat c div 2 ^ k mod 16)"
  "(ucast (drop_bit k c AND 0x07) :: u8) = word_of_nat (unat c div 2 ^ k mod 8)" for c :: u32
proof -
  have ucast: "(ucast w :: u8) = word_of_nat (unat w)" for w :: u32 by simp
  have shift: "unat (drop_bit k c) = unat c div 2 ^ k" unfolding unat_drop_bit_eq by (simp add: drop_bit_eq_div)
  show "(ucast (drop_bit k c AND 0x3F) :: u8) = word_of_nat (unat c div 2 ^ k mod 64)"
    "(ucast (drop_bit k c AND 0x1F) :: u8) = word_of_nat (unat c div 2 ^ k mod 32)"
    "(ucast (drop_bit k c AND 0x0F) :: u8) = word_of_nat (unat c div 2 ^ k mod 16)"
    "(ucast (drop_bit k c AND 0x07) :: u8) = word_of_nat (unat c div 2 ^ k mod 8)"
    unfolding ucast shift [symmetric] using unat_and_mask [of 6 "drop_bit k c"] unat_and_mask [of 5 "drop_bit k c"]
      unat_and_mask [of 4 "drop_bit k c"] unat_and_mask [of 3 "drop_bit k c"] by simp_all
qed

lemma utf8_bytes_codes:
  assumes "c \<le> 0x10FFFF"
  shows "map unat (utf8_bytes c) = utf8_codes (unat c)"
proof -
  have n: "unat c < 0x110000" using assms by (simp add: word_le_nat_alt)
  have low: "(ucast (c AND 0x3F) :: u8) = word_of_nat (unat c mod 64)" using field_of_code(1) [of 0 c] by simp
  have ascii: "unat c < 0x80 \<Longrightarrow> unat (ucast c :: u8) = unat c" by (simp add: unsigned_ucast_eq take_bit_eq_mod)
  show ?thesis
    unfolding utf8_bytes_def utf8_codes_def low field_of_code word_less_nat_alt
    using n ascii by (simp add: or_tags)
qed


section \<open>One character at a position\<close>

definition char_at :: "u8 list \<Rightarrow> nat \<Rightarrow> rchar \<Rightarrow> bool" where
  "char_at v i c \<longleftrightarrow> i + len_utf8 c \<le> length v \<and> take (len_utf8 c) (drop i v) = utf8_bytes c"

lemma unat_u8_less [simp]: "unat b < 256" for b :: u8
  using unsigned_less [of b] by simp

text \<open>A property of bytes that is checked for all 256 values.\<close>

lemma all_u8: "list_all P [0..<256] \<Longrightarrow> P (unat b)" for b :: u8
  by (simp add: list_all_iff)

lemma sint_cont: "sint b < -64 \<longleftrightarrow> 0x80 \<le> unat b \<and> unat b < 0xC0" for b :: u8
proof -
  have "list_all (\<lambda>n. (sint (word_of_nat n :: u8) < -64) = (0x80 \<le> n \<and> n < 0xC0)) [0..<256]" by code_simp
  from all_u8 [OF this, of b] show ?thesis by simp
qed

lemma sint_not_cont: "-64 \<le> sint b \<longleftrightarrow> \<not> (0x80 \<le> unat b \<and> unat b < 0xC0)" for b :: u8
  using sint_cont [of b] by linarith

lemma utf8_char_width_eq:
  "utf8_char_width b = (if unat b < 0x80 then 1 else if unat b < 0xC2 then 0 else if unat b < 0xE0 then 2
     else if unat b < 0xF0 then 3 else if unat b < 0xF5 then 4 else 0)"
proof -
  have "list_all (\<lambda>n. UTF8_CHAR_WIDTH ! n = (if n < 0x80 then 1 else if n < 0xC2 then 0 else if n < 0xE0 then 2
      else if n < 0xF0 then 3 else if n < 0xF5 then 4 else 0)) [0..<256]" by code_simp
  from all_u8 [OF this, of b] show ?thesis by (simp only: utf8_char_width_def)
qed

lemma second_of_three_eq: "second_of_three b0 b1 \<longleftrightarrow>
    unat b0 = 0xE0 \<and> 0xA0 \<le> unat b1 \<and> unat b1 \<le> 0xBF \<or> 0xE1 \<le> unat b0 \<and> unat b0 \<le> 0xEC \<and> 0x80 \<le> unat b1 \<and> unat b1 \<le> 0xBF \<or>
    unat b0 = 0xED \<and> 0x80 \<le> unat b1 \<and> unat b1 \<le> 0x9F \<or> 0xEE \<le> unat b0 \<and> unat b0 \<le> 0xEF \<and> 0x80 \<le> unat b1 \<and> unat b1 \<le> 0xBF"
  by (simp add: second_of_three_def word_le_nat_alt word_unat_eq_iff)

lemma second_of_four_eq: "second_of_four b0 b1 \<longleftrightarrow>
    unat b0 = 0xF0 \<and> 0x90 \<le> unat b1 \<and> unat b1 \<le> 0xBF \<or> 0xF1 \<le> unat b0 \<and> unat b0 \<le> 0xF3 \<and> 0x80 \<le> unat b1 \<and> unat b1 \<le> 0xBF \<or>
    unat b0 = 0xF4 \<and> 0x80 \<le> unat b1 \<and> unat b1 \<le> 0x8F"
  by (simp add: second_of_four_def word_le_nat_alt word_unat_eq_iff)

lemma is_scalar_nat: "is_scalar c \<longleftrightarrow> unat c < 0xD800 \<or> 0xE000 \<le> unat c \<and> unat c \<le> 0x10FFFF"
  by (simp add: is_scalar_def word_less_nat_alt word_le_nat_alt)

lemma length_utf8_codes: "length (utf8_codes (unat c)) = len_utf8 c"
  by (simp add: utf8_codes_def len_utf8_def word_less_nat_alt)

lemma char_at_codes:
  assumes "is_scalar c"
  shows "char_at v i c \<longleftrightarrow> map unat (take (len_utf8 c) (drop i v)) = utf8_codes (unat c)"
proof -
  have "utf8_codes (unat c) = map unat (utf8_bytes c)"
    using assms by (intro utf8_bytes_codes [symmetric]) (auto simp: is_scalar_nat word_le_nat_alt)
  moreover have "take (len_utf8 c) (drop i v) = utf8_bytes c \<Longrightarrow> i + len_utf8 c \<le> length v"
    using len_utf8_bounds(1) [of c] by (drule_tac arg_cong [where f = length]) auto
  ultimately show ?thesis by (auto simp: char_at_def inj_map_eq_map [OF inj_unsigned])
qed

lemma char_atI:
  assumes "utf8_codes n = map (\<lambda>k. unat (v ! (i + k))) [0..<w]" "i + w \<le> length v" "n < 0xD800 \<or> 0xE000 \<le> n \<and> n \<le> 0x10FFFF"
  shows "\<exists>c. is_scalar c \<and> char_at v i c \<and> i + w = i + len_utf8 c"
proof -
  have n: "unat (word_of_nat n :: u32) = n" using assms(3) by (auto simp: unat_of_nat take_bit_eq_mod)
  then have c: "is_scalar (word_of_nat n)" using assms(3) by (simp add: is_scalar_nat)
  have len: "len_utf8 (word_of_nat n) = w" using length_utf8_codes [of "word_of_nat n"] n assms(1) by simp
  have "map unat (take w (drop i v)) = map (\<lambda>k. unat (v ! (i + k))) [0..<w]"
    using assms(2) by (intro nth_equalityI) auto
  then have "char_at v i (word_of_nat n)" unfolding char_at_codes [OF c] n assms(1) len .
  with c len show ?thesis by blast
qed

lemma base64: "y < 64 \<Longrightarrow> z < 64 \<Longrightarrow> (x * 4096 + y * 64 + z) div 64 mod 64 = y \<and> (x * 4096 + y * 64 + z) mod 64 = z \<and>
    (x * 4096 + y * 64 + z) div 4096 = x" for x y z :: nat
proof -
  assume yz: "y < 64" "z < 64"
  define m where "m = x * 64 + y"
  have n: "x * 4096 + y * 64 + z = m * 64 + z" by (simp add: m_def)
  have "(m * 64 + z) div 64 = m" "(m * 64 + z) mod 64 = z" using yz by simp_all
  moreover have "m div 64 = x" "m mod 64 = y" using yz by (simp_all add: m_def)
  moreover have "k div 4096 = k div 64 div 64" for k :: nat by (simp add: div_mult2_eq [symmetric])
  ultimately show ?thesis unfolding n by simp
qed

lemma base64_digits: "n = n div 4096 * 4096 + n div 64 mod 64 * 64 + n mod 64" for n :: nat
proof -
  have "n div 64 div 64 = n div 4096" by (simp add: div_mult2_eq [symmetric])
  then have "n div 64 = n div 4096 * 64 + n div 64 mod 64" using div_mult_mod_eq [of "n div 64" 64] by simp
  with div_mult_mod_eq [of n 64] show ?thesis by linarith
qed

text \<open>A sequence that the validator accepts is the encoding of a scalar value.\<close>

lemma validate_multibyte_sound:
  assumes "validate_multibyte v i = Ok j" "i < length v" "128 \<le> v ! i"
  shows "\<exists>c. is_scalar c \<and> char_at v i c \<and> j = i + len_utf8 c"
proof -
  let ?b = "\<lambda>k. unat (v ! (i + k))"
  have b0: "0x80 \<le> ?b 0" using assms(3) by (simp add: word_le_nat_alt)
  consider
      (two) "j = i + 2" "i + 2 \<le> length v" "0xC2 \<le> ?b 0" "?b 0 < 0xE0" "0x80 \<le> ?b 1" "?b 1 < 0xC0"
    | (three) "j = i + 3" "i + 3 \<le> length v" "second_of_three (v ! i) (v ! (i + 1))" "0x80 \<le> ?b 2" "?b 2 < 0xC0"
    | (four) "j = i + 4" "i + 4 \<le> length v" "second_of_four (v ! i) (v ! (i + 1))" "0x80 \<le> ?b 2" "?b 2 < 0xC0"
        "0x80 \<le> ?b 3" "?b 3 < 0xC0"
    using assms(1) b0
    by (auto simp: validate_multibyte_def next_byte_def Let_def sint_not_cont utf8_char_width_eq eval_nat_numeral split: if_splits)
  then show ?thesis
  proof cases
    case two
    define x y where "x = ?b 0 - 0xC0" and "y = ?b 1 - 0x80"
    have xy: "?b 0 = 0xC0 + x" "?b 1 = 0x80 + y" "2 \<le> x" "x < 32" "y < 64" using two by (auto simp: x_def y_def)
    have "utf8_codes (x * 64 + y) = map (\<lambda>k. ?b k) [0..<2]" using xy by (simp add: utf8_codes_def upt_rec)
    from char_atI [OF this two(2)] xy two(1) show ?thesis by simp
  next
    case three
    define x y z where "x = ?b 0 - 0xE0" and "y = ?b 1 - 0x80" and "z = ?b 2 - 0x80"
    have xyz: "?b 0 = 0xE0 + x" "?b 1 = 0x80 + y" "?b 2 = 0x80 + z" "x < 16" "y < 64" "z < 64"
        "x = 0 \<Longrightarrow> 32 \<le> y" "x = 13 \<Longrightarrow> y < 32"
      using three(3-5) by (auto simp: x_def y_def z_def second_of_three_eq)
    let ?n = "x * 4096 + y * 64 + z"
    have n: "?n div 4096 = x" "?n div 64 mod 64 = y" "?n mod 64 = z" "?n < 65536"
      using base64 [of y z x] xyz(4-6) by auto
    have "0x800 \<le> ?n" using xyz(7) by (cases "x = 0") auto
    with n xyz have "utf8_codes ?n = map (\<lambda>k. ?b k) [0..<3]" by (simp add: utf8_codes_def upt_rec)
    moreover have "?n < 0xD800 \<or> 0xE000 \<le> ?n" using xyz(4-8) by (cases "x < 13"; cases "x = 13") auto
    ultimately show ?thesis using char_atI [of ?n v i 3] three(1,2) n(4) by simp
  next
    case four
    define x y z w where "x = ?b 0 - 0xF0" and "y = ?b 1 - 0x80" and "z = ?b 2 - 0x80" and "w = ?b 3 - 0x80"
    have xyz: "?b 0 = 0xF0 + x" "?b 1 = 0x80 + y" "?b 2 = 0x80 + z" "?b 3 = 0x80 + w" "x < 5" "y < 64" "z < 64" "w < 64"
        "x = 0 \<Longrightarrow> 16 \<le> y" "x = 4 \<Longrightarrow> y < 16"
      using four(3-7) by (auto simp: x_def y_def z_def w_def second_of_four_eq)
    let ?n = "x * 262144 + y * 4096 + z * 64 + w"
    have n: "?n div 262144 = x" "?n div 4096 mod 64 = y" "?n div 64 mod 64 = z" "?n mod 64 = w"
      using base64 [of z w "x * 64 + y"] xyz(5-8) by (auto simp: algebra_simps)
    have "0x10000 \<le> ?n" using xyz(9) by (cases "x = 0") auto
    with n xyz have "utf8_codes ?n = map (\<lambda>k. ?b k) [0..<4]" by (simp add: utf8_codes_def upt_rec numeral_3_eq_3)
    moreover have "?n \<le> 0x10FFFF" using xyz(5-10) by (cases "x = 4") auto
    ultimately show ?thesis using char_atI [of ?n v i 4] four(1,2) \<open>0x10000 \<le> ?n\<close> by simp
  qed
qed

text \<open>And the encoding of every scalar value is accepted.\<close>

lemma char_at_nth:
  assumes "char_at v i c" "is_scalar c" "k < len_utf8 c"
  shows "unat (v ! (i + k)) = utf8_codes (unat c) ! k" and "i + k < length v"
proof -
  show len: "i + k < length v" using assms(1,3) by (simp add: char_at_def)
  have "map unat (take (len_utf8 c) (drop i v)) ! k = utf8_codes (unat c) ! k"
    using assms(1) char_at_codes [OF assms(2)] by simp
  then show "unat (v ! (i + k)) = utf8_codes (unat c) ! k" using len assms(3) by simp
qed

lemma validate_multibyte_complete:
  assumes "char_at v i c" "is_scalar c" "0x80 \<le> c"
  shows "validate_multibyte v i = Ok (i + len_utf8 c)"
proof -
  let ?n = "unat c" and ?w = "len_utf8 c"
  have n: "0x80 \<le> ?n" "?n < 0xD800 \<or> 0xE000 \<le> ?n \<and> ?n \<le> 0x10FFFF"
    using assms(2,3) by (simp_all add: is_scalar_nat word_le_nat_alt)
  note nth = char_at_nth [OF assms(1,2)]
  have w: "?w = (if ?n < 0x800 then 2 else if ?n < 0x10000 then 3 else 4)"
    using n(1) by (simp add: len_utf8_def word_less_nat_alt)
  consider "?n < 0x800" | "0x800 \<le> ?n" "?n < 0x10000" | "0x10000 \<le> ?n" by linarith
  then show ?thesis
  proof cases
    case 1
    then have "unat (v ! i) = 0xC0 + ?n div 64" "unat (v ! (i + 1)) = 0x80 + ?n mod 64" "i + 1 < length v"
      using nth(1) [of 0] nth [of 1] n(1) w by (simp_all add: utf8_codes_def)
    moreover have "2 \<le> ?n div 64" "?n div 64 < 32" using n(1) 1 by linarith+
    ultimately show ?thesis using 1 w
      by (simp add: validate_multibyte_def next_byte_def Let_def sint_not_cont utf8_char_width_eq)
  next
    case 2
    then have "unat (v ! i) = 0xE0 + ?n div 4096" "unat (v ! (i + 1)) = 0x80 + ?n div 64 mod 64"
        "unat (v ! (i + 2)) = 0x80 + ?n mod 64" "i + 2 < length v"
      using nth(1) [of 0] nth(1) [of 1] nth [of 2] n(1) w by (simp_all add: utf8_codes_def)
    moreover have "second_of_three (v ! i) (v ! (i + 1))"
    proof -
      define x y z where "x = ?n div 4096" and "y = ?n div 64 mod 64" and "z = ?n mod 64"
      have "?n = x * 4096 + y * 64 + z" "y < 64" "z < 64" using base64_digits [of ?n] by (simp_all add: x_def y_def z_def)
      then show ?thesis
        unfolding second_of_three_eq calculation(1,2) x_def [symmetric] y_def [symmetric] using 2 n(2) by linarith
    qed
    moreover have "?n div 4096 < 16" using 2 by linarith
    ultimately show ?thesis using 2 w
      by (simp add: validate_multibyte_def next_byte_def Let_def sint_not_cont utf8_char_width_eq)
  next
    case 3
    then have bytes: "unat (v ! i) = 0xF0 + ?n div 262144" "unat (v ! (i + 1)) = 0x80 + ?n div 4096 mod 64"
        "unat (v ! (i + 2)) = 0x80 + ?n div 64 mod 64" "unat (v ! (i + 3)) = 0x80 + ?n mod 64" "i + 3 < length v"
      using nth(1) [of 0] nth(1) [of 1] nth(1) [of 2] nth [of 3] n(1) w by (simp_all add: utf8_codes_def numeral_3_eq_3)
    have "second_of_four (v ! i) (v ! (i + 1))"
    proof -
      define x y z where "x = ?n div 262144" and "y = ?n div 4096 mod 64" and "z = ?n mod 4096"
      have "?n div 4096 = x * 64 + y" using div_mult_mod_eq [of "?n div 4096" 64]
        by (simp add: x_def y_def div_mult2_eq [symmetric])
      then have "?n = x * 262144 + y * 4096 + z" using div_mult_mod_eq [of ?n 4096] unfolding z_def by linarith
      moreover have "y < 64" "z < 4096" by (simp_all add: y_def z_def)
      ultimately show ?thesis
        unfolding second_of_four_eq bytes(1,2) x_def [symmetric] y_def [symmetric] using 3 n(2) by linarith
    qed
    moreover have "?n div 262144 < 5" using 3 n(2) by linarith
    ultimately show ?thesis using bytes 3 w
      by (simp add: validate_multibyte_def next_byte_def Let_def sint_not_cont utf8_char_width_eq numeral_3_eq_3)
  qed
qed


section \<open>Decoding what was encoded\<close>

lemma unat_shift_or:
  fixes a b :: u32
  assumes "unat b < 2 ^ k" "unat a * 2 ^ k + unat b < 2 ^ 32"
  shows "unat (push_bit k a OR b) = unat a * 2 ^ k + unat b"
proof -
  have "\<not> bit (push_bit k a) n \<or> \<not> bit b n" for n
  proof (cases "n < k")
    case False
    then have "unat b < 2 ^ n" using assms(1) by (meson le_less_trans less_le_trans not_less one_le_numeral power_increasing)
    then have "\<not> bit (unat b) n" by (simp add: bit_iff_odd)
    then show ?thesis by (simp add: bit_unsigned_iff bit_imp_le_length)
  qed (simp add: bit_push_bit_iff)
  then have "push_bit k a OR b = push_bit k a + b" by (intro disjunctive_add [symmetric]) blast
  moreover have "unat (push_bit k a) = unat a * 2 ^ k"
    unfolding unsigned_push_bit_eq push_bit_nat_def take_bit_nat_def using assms(2) by simp
  ultimately show ?thesis using assms(2) by (simp add: unat_word_ariths)
qed

lemma unat_ucast_u8: "unat (ucast w :: u32) = unat w" for w :: u8
  using unat_u8_less [of w] by (simp add: unsigned_ucast_eq take_bit_eq_mod del: unat_u8_less)

lemma unat_first_byte:
  "unat (utf8_first_byte b 2) = unat b mod 32" "unat (utf8_first_byte b 3) = unat b mod 16"
  "unat (utf8_first_byte b 4) = unat b mod 8" "unat (ucast (b AND CONT_MASK) :: u32) = unat b mod 64"
  using unat_and_mask [of 5 b] unat_and_mask [of 4 b] unat_and_mask [of 3 b] unat_and_mask [of 6 b]
  by (simp_all add: utf8_first_byte_def unat_ucast_u8)

lemma unat_acc_cont_byte:
  "unat ch < 2 ^ 26 \<Longrightarrow> unat (utf8_acc_cont_byte ch b) = unat ch * 64 + unat b mod 64"
  unfolding utf8_acc_cont_byte_def by (subst unat_shift_or) (simp_all add: unat_first_byte(4))

lemma word_eq_unatI: "unat v = unat w \<Longrightarrow> v = w" for v w :: "'a::len word"
  by (simp add: word_unat_eq_iff)

lemma utf8_bytes_cases:
  assumes "is_scalar c"
  obtains (one) b where "utf8_bytes c = [b]" "unat b = unat c" "unat c < 0x80"
    | (two) b0 b1 x y where "utf8_bytes c = [b0, b1]" "unat b0 = 0xC0 + x" "unat b1 = 0x80 + y" "unat c = x * 64 + y"
        "2 \<le> x" "x < 32" "y < 64"
    | (three) b0 b1 b2 x y z where "utf8_bytes c = [b0, b1, b2]" "unat b0 = 0xE0 + x" "unat b1 = 0x80 + y" "unat b2 = 0x80 + z"
        "unat c = x * 4096 + y * 64 + z" "x < 16" "y < 64" "z < 64"
    | (four) b0 b1 b2 b3 x y z w where "utf8_bytes c = [b0, b1, b2, b3]" "unat b0 = 0xF0 + x" "unat b1 = 0x80 + y"
        "unat b2 = 0x80 + z" "unat b3 = 0x80 + w" "unat c = x * 262144 + y * 4096 + z * 64 + w" "x < 5" "y < 64" "z < 64" "w < 64"
proof -
  let ?n = "unat c"
  have codes: "map unat (utf8_bytes c) = utf8_codes ?n" and n: "?n \<le> 0x10FFFF"
    using assms by (auto intro!: utf8_bytes_codes simp: is_scalar_nat word_le_nat_alt)
  consider "?n < 0x80" | "0x80 \<le> ?n" "?n < 0x800" | "0x800 \<le> ?n" "?n < 0x10000" | "0x10000 \<le> ?n" by linarith
  then show thesis
  proof cases
    case 1
    with codes one show ?thesis by (auto simp: utf8_codes_def map_eq_Cons_conv)
  next
    case 2
    with codes have "map unat (utf8_bytes c) = [0xC0 + ?n div 64, 0x80 + ?n mod 64]" by (simp add: utf8_codes_def)
    then obtain b0 b1 where "utf8_bytes c = [b0, b1]" "unat b0 = 0xC0 + ?n div 64" "unat b1 = 0x80 + ?n mod 64"
      by (auto simp: map_eq_Cons_conv)
    moreover have "2 \<le> ?n div 64" "?n div 64 < 32" using 2 by linarith+
    ultimately show ?thesis using two [of b0 b1 "?n div 64" "?n mod 64"] by simp
  next
    case 3
    with codes have "map unat (utf8_bytes c) = [0xE0 + ?n div 4096, 0x80 + ?n div 64 mod 64, 0x80 + ?n mod 64]"
      by (simp add: utf8_codes_def)
    then obtain b0 b1 b2 where "utf8_bytes c = [b0, b1, b2]" "unat b0 = 0xE0 + ?n div 4096" "unat b1 = 0x80 + ?n div 64 mod 64"
        "unat b2 = 0x80 + ?n mod 64" by (auto simp: map_eq_Cons_conv)
    then show ?thesis by (rule three) (use 3 base64_digits [of ?n] in simp_all)
  next
    case 4
    with codes have "map unat (utf8_bytes c) =
        [0xF0 + ?n div 262144, 0x80 + ?n div 4096 mod 64, 0x80 + ?n div 64 mod 64, 0x80 + ?n mod 64]"
      by (simp add: utf8_codes_def)
    then obtain b0 b1 b2 b3 where "utf8_bytes c = [b0, b1, b2, b3]" "unat b0 = 0xF0 + ?n div 262144"
        "unat b1 = 0x80 + ?n div 4096 mod 64" "unat b2 = 0x80 + ?n div 64 mod 64" "unat b3 = 0x80 + ?n mod 64"
      by (auto simp: map_eq_Cons_conv)
    then show ?thesis
    proof (rule four)
      have "?n div 4096 = ?n div 262144 * 64 + ?n div 4096 mod 64"
        using div_mult_mod_eq [of "?n div 4096" 64] by (simp add: div_mult2_eq [symmetric])
      with base64_digits [of ?n] show "?n = ?n div 262144 * 262144 + ?n div 4096 mod 64 * 4096 + ?n div 64 mod 64 * 64 + ?n mod 64"
        by linarith
    qed (use n in simp_all)
  qed
qed

text \<open>What the masks leave of a tagged byte.\<close>

lemma tag_mod:
  "y < 64 \<Longrightarrow> (128 + y) mod 64 = y" "x < 32 \<Longrightarrow> (192 + x) mod 32 = x" "x < 16 \<Longrightarrow> (224 + x) mod 32 = x"
  "x < 16 \<Longrightarrow> (224 + x) mod 16 = x" "x < 8 \<Longrightarrow> (240 + x) mod 32 = 16 + x" "x < 8 \<Longrightarrow> (16 + x) mod 8 = x"
  "x < 8 \<Longrightarrow> (240 + x) mod 8 = x" for x y :: nat
proof -
  have "x < m \<Longrightarrow> (m * k + x) mod m = x" for x m k :: nat by simp
  from this [of y 64 2] this [of x 32 6] this [of x 32 7] this [of x 16 14] this [of "16 + x" 32 7] this [of x 8 2] this [of x 8 30]
  show "y < 64 \<Longrightarrow> (128 + y) mod 64 = y" "x < 32 \<Longrightarrow> (192 + x) mod 32 = x" "x < 16 \<Longrightarrow> (224 + x) mod 32 = x"
    "x < 16 \<Longrightarrow> (224 + x) mod 16 = x" "x < 8 \<Longrightarrow> (240 + x) mod 32 = 16 + x" "x < 8 \<Longrightarrow> (16 + x) mod 8 = x"
    "x < 8 \<Longrightarrow> (240 + x) mod 8 = x" by simp_all
qed

lemma next_code_point_char:
  assumes "is_scalar c"
  shows "next_code_point (utf8_bytes c @ rest) = Some (Some c, rest)"
  using assms
proof (cases rule: utf8_bytes_cases)
  case (one b)
  then have "(ucast b :: u32) = c" by (intro word_eq_unatI) (simp add: unat_ucast_u8)
  with one show ?thesis by (simp add: next_code_point_def word_less_nat_alt)
next
  case (two b0 b1 x y)
  then have "utf8_acc_cont_byte (utf8_first_byte b0 2) b1 = c"
    by (intro word_eq_unatI) (simp add: unat_acc_cont_byte unat_first_byte tag_mod)
  with two show ?thesis
    by (simp add: next_code_point_def take_front_def Let_def word_less_nat_alt word_le_nat_alt)
next
  case (three b0 b1 b2 x y z)
  have yz: "unat (utf8_acc_cont_byte (ucast (b1 AND CONT_MASK)) b2) = y * 64 + z"
    using three by (simp add: unat_acc_cont_byte unat_first_byte tag_mod)
  have "push_bit 12 (utf8_first_byte b0 2) OR utf8_acc_cont_byte (ucast (b1 AND CONT_MASK)) b2 = c"
    using three yz by (intro word_eq_unatI) (subst unat_shift_or, simp_all add: unat_first_byte tag_mod)
  with three show ?thesis
    by (simp add: next_code_point_def take_front_def Let_def word_less_nat_alt word_le_nat_alt)
next
  case (four b0 b1 b2 b3 x y z w)
  have yz: "unat (utf8_acc_cont_byte (ucast (b1 AND CONT_MASK)) b2) = y * 64 + z"
    using four by (simp add: unat_acc_cont_byte unat_first_byte tag_mod)
  have yzw: "unat (utf8_acc_cont_byte (utf8_acc_cont_byte (ucast (b1 AND CONT_MASK)) b2) b3) = y * 4096 + z * 64 + w"
    using four yz by (simp add: unat_acc_cont_byte tag_mod)
  have init: "unat (utf8_first_byte b0 2 AND 7) = x"
    using four unat_and_mask [of 3 "utf8_first_byte b0 2"] by (simp add: unat_first_byte tag_mod)
  have "push_bit 18 (utf8_first_byte b0 2 AND 7) OR
      utf8_acc_cont_byte (utf8_acc_cont_byte (ucast (b1 AND CONT_MASK)) b2) b3 = c"
    using four yzw init by (intro word_eq_unatI) (subst unat_shift_or, simp_all)
  with four show ?thesis
    by (simp add: next_code_point_def take_front_def Let_def word_less_nat_alt word_le_nat_alt)
qed

lemma take_back_snoc [simp]: "take_back (xs @ [x]) = Some (x, xs)"
  by (simp add: take_back_def)

lemma take_back_append [simp]:
  "take_back (xs @ [a, b]) = Some (b, xs @ [a])" "take_back (xs @ [a, b, c]) = Some (c, xs @ [a, b])"
  "take_back (xs @ [a, b, c, d]) = Some (d, xs @ [a, b, c])"
  by (simp_all add: take_back_def butlast_append)

lemma next_code_point_reverse_char:
  assumes "is_scalar c"
  shows "next_code_point_reverse (pre @ utf8_bytes c) = Some (Some c, pre)"
  using assms
proof (cases rule: utf8_bytes_cases)
  case (one b)
  then have "(ucast b :: u32) = c" by (intro word_eq_unatI) (simp add: unat_ucast_u8)
  with one show ?thesis by (simp add: next_code_point_reverse_def word_less_nat_alt)
next
  case (two b0 b1 x y)
  then have "utf8_acc_cont_byte (utf8_first_byte b0 2) b1 = c"
    by (intro word_eq_unatI) (simp add: unat_acc_cont_byte unat_first_byte tag_mod)
  with two show ?thesis
    by (simp add: next_code_point_reverse_def Let_def word_less_nat_alt utf8_is_cont_byte_def sint_cont)
next
  case (three b0 b1 b2 x y z)
  then have "utf8_acc_cont_byte (utf8_acc_cont_byte (utf8_first_byte b0 3) b1) b2 = c"
    by (intro word_eq_unatI) (simp add: unat_acc_cont_byte unat_first_byte tag_mod)
  with three show ?thesis
    by (simp add: next_code_point_reverse_def Let_def word_less_nat_alt utf8_is_cont_byte_def sint_cont)
next
  case (four b0 b1 b2 b3 x y z w)
  then have "utf8_acc_cont_byte (utf8_acc_cont_byte (utf8_acc_cont_byte (utf8_first_byte b0 4) b1) b2) b3 = c"
    by (intro word_eq_unatI) (simp add: unat_acc_cont_byte unat_first_byte tag_mod)
  with four show ?thesis
    by (simp add: next_code_point_reverse_def Let_def word_less_nat_alt utf8_is_cont_byte_def sint_cont)
qed


section \<open>Strings\<close>

definition utf8 :: "rchar list \<Rightarrow> u8 list" where
  "utf8 cs = concat (map utf8_bytes cs)"

definition valid_utf8 :: "u8 list \<Rightarrow> bool" where
  "valid_utf8 v \<longleftrightarrow> (\<exists>cs. list_all is_scalar cs \<and> v = utf8 cs)"

lemma utf8_simps [simp]: "utf8 [] = []" "utf8 (c # cs) = utf8_bytes c @ utf8 cs" "utf8 (cs @ ds) = utf8 cs @ utf8 ds"
  by (simp_all add: utf8_def)

lemma utf8_bytes_nonempty [simp]: "utf8_bytes c \<noteq> []"
  using len_utf8_bounds(1) [of c] by (metis length_utf8_bytes list.size(3) less_numeral_extra(3))

lemma char_at_append: "char_at (xs @ utf8_bytes c @ ys) (length xs) c"
  by (simp add: char_at_def)

lemma char_at_split: "char_at v i c \<Longrightarrow> v = take i v @ utf8_bytes c @ drop (i + len_utf8 c) v"
  by (metis append_take_drop_id char_at_def drop_drop add.commute)

lemma char_at_decode: "is_scalar c \<Longrightarrow> char_at v i c \<Longrightarrow> next_code_point (drop i v) = Some (Some c, drop (i + len_utf8 c) v)"
  by (metis append_take_drop_id char_at_def drop_drop add.commute next_code_point_char)

lemma char_at_unique: "is_scalar c \<Longrightarrow> is_scalar d \<Longrightarrow> char_at v i c \<Longrightarrow> char_at v i d \<Longrightarrow> c = d"
  using char_at_decode [of c v i] char_at_decode [of d v i] by simp

lemma valid_utf8_step:
  assumes "valid_utf8 (take i v)" "is_scalar c" "char_at v i c"
  shows "valid_utf8 (take (i + len_utf8 c) v)"
proof -
  obtain cs where cs: "list_all is_scalar cs" "take i v = utf8 cs" using assms(1) by (auto simp: valid_utf8_def)
  have "take (i + len_utf8 c) v = utf8 (cs @ [c])" using assms(3) cs(2) by (simp add: take_add char_at_def)
  with cs(1) assms(2) show ?thesis unfolding valid_utf8_def by (intro exI [of _ "cs @ [c]"]) simp
qed

text \<open>From a position up to which a valid string is valid, the next character starts.\<close>

lemma utf8_bytes_cancel:
  assumes "is_scalar c" "is_scalar d" "utf8_bytes c @ xs = utf8_bytes d @ ys"
  shows "c = d \<and> xs = ys"
  using next_code_point_char [OF assms(1), of xs] next_code_point_char [OF assms(2), of ys] unfolding assms(3) by simp

lemma utf8_rest:
  "list_all is_scalar cs \<Longrightarrow> list_all is_scalar ds \<Longrightarrow> utf8 cs = utf8 ds @ ys \<Longrightarrow> \<exists>es. list_all is_scalar es \<and> ys = utf8 es"
proof (induction ds arbitrary: cs)
  case (Cons d ds)
  then obtain c cs' where c: "cs = c # cs'" by (cases cs) auto
  with Cons.prems have "c = d \<and> utf8 cs' = utf8 ds @ ys" by (intro utf8_bytes_cancel) auto
  with Cons c show ?case by auto
qed auto

lemma valid_utf8_append: "valid_utf8 xs \<Longrightarrow> valid_utf8 ys \<Longrightarrow> valid_utf8 (xs @ ys)"
  unfolding valid_utf8_def by (metis list_all_append utf8_simps(3))

lemma valid_utf8_rest: "valid_utf8 (xs @ ys) \<Longrightarrow> valid_utf8 xs \<Longrightarrow> valid_utf8 ys"
  unfolding valid_utf8_def using utf8_rest by metis

lemma valid_utf8_next:
  assumes "valid_utf8 v" "valid_utf8 (take i v)" "i < length v"
  shows "\<exists>c. is_scalar c \<and> char_at v i c"
proof -
  have "valid_utf8 (drop i v)" using valid_utf8_rest [of "take i v" "drop i v"] assms(1,2) by simp
  then obtain cs where cs: "list_all is_scalar cs" "drop i v = utf8 cs" by (auto simp: valid_utf8_def)
  with assms(3) obtain c cs' where c: "cs = c # cs'" by (cases cs) auto
  then have "take i v @ utf8_bytes c @ utf8 cs' = v" using append_take_drop_id [of i v] cs(2) by simp
  with char_at_append [of "take i v" c "utf8 cs'"] assms(3) cs(1) c show ?thesis by auto
qed


section \<open>The validator is right\<close>

lemma char_at_ascii:
  assumes "i < length v" "v ! i < 128"
  shows "is_scalar (ucast (v ! i))" and "char_at v i (ucast (v ! i))" and "len_utf8 (ucast (v ! i)) = 1"
proof -
  let ?c = "ucast (v ! i) :: u32"
  have u: "unat ?c = unat (v ! i)" by (rule unat_ucast_u8)
  have n: "unat ?c < 0x80" using assms(2) u by (simp add: word_less_nat_alt)
  then show c: "is_scalar ?c" and len: "len_utf8 ?c = 1" by (simp_all add: is_scalar_nat len_utf8_def word_less_nat_alt)
  have "take 1 (drop i v) = [v ! i]" using assms(1) by (simp add: take_Suc_conv_app_nth)
  then show "char_at v i ?c" unfolding char_at_codes [OF c] len using n u by (simp add: utf8_codes_def)
qed

lemma valid_utf8_ascii:
  assumes "valid_utf8 (take i v)" "i \<le> j" "j \<le> length v" "\<And>k. i \<le> k \<Longrightarrow> k < j \<Longrightarrow> v ! k < 128"
  shows "valid_utf8 (take j v)"
  using assms(2-4)
proof (induction j rule: dec_induct)
  case (step k)
  with valid_utf8_step [of k v] char_at_ascii [of k v] show ?case by fastforce
qed (use assms(1) in simp)

lemma bit_word_of_bytes:
  "k < length bs \<Longrightarrow> length bs \<le> 8 \<Longrightarrow> bit (bs ! k) 7 \<Longrightarrow> bit (word_of_bytes bs) (8 * k + 7)"
proof (induction bs arbitrary: k)
  case (Cons b bs)
  then show ?case
    by (cases k) (auto simp: word_of_bytes_def bit_or_iff bit_push_bit_iff bit_unsigned_iff ac_simps)
qed simp

lemma ascii_word:
  assumes "read_usize_at v i = Some x" "\<not> contains_nonascii x" "i \<le> k" "k < i + 8"
  shows "v ! k < 128"
proof (rule ccontr)
  assume "\<not> v ! k < 128"
  then have "128 \<le> unat (v ! k)" by (simp add: word_less_nat_alt)
  moreover have "unat (v ! k) div 128 < 2" using unat_u8_less [of "v ! k"] by linarith
  ultimately have "unat (v ! k) div 2 ^ 7 = 1" by simp
  then have bit: "bit (v ! k) 7" using bit_iff_odd [of "unat (v ! k)" 7] by (simp add: bit_unsigned_iff)
  define bs where "bs = take 8 (drop i v)"
  have x: "x = word_of_bytes bs" "length bs = 8" using assms(1) by (auto simp: read_usize_at_def slice_eq_Some bs_def)
  have "bs ! (k - i) = v ! k" using assms(3,4) x(2) by (simp add: bs_def)
  then have "bit x (8 * (k - i) + 7)" using bit_word_of_bytes [of "k - i" bs] bit x assms(3,4) by simp
  moreover have "bit NONASCII_MASK (8 * (k - i) + 7)"
  proof -
    have "list_all (\<lambda>m. bit NONASCII_MASK (8 * m + 7)) [0..<8]" by code_simp
    moreover have "k - i \<in> set [0..<8]" using assms(3,4) by auto
    ultimately show ?thesis unfolding list_all_iff by blast
  qed
  ultimately have "bit (x AND NONASCII_MASK) (8 * (k - i) + 7)" by (simp add: bit_and_iff)
  then show False using assms(2) by (auto simp: contains_nonascii_def)
qed

lemma ascii_blocks_spec:
  assumes "blocks_end = (if 16 \<le> length v then length v - 16 + 1 else 0)" "i \<le> length v"
  shows "\<exists>j. ascii_blocks v blocks_end i = Some j \<and> i \<le> j \<and> j \<le> length v \<and> (\<forall>k. i \<le> k \<longrightarrow> k < j \<longrightarrow> v ! k < 128)"
  using assms
proof (induction v blocks_end i rule: ascii_blocks.induct)
  case (1 v e i)
  show ?case
  proof (cases "i < e")
    case True
    then have i: "i + 16 \<le> length v" using "1.prems"(1) by (auto split: if_splits)
    then obtain zu zv where z: "read_usize_at v i = Some zu" "read_usize_at v (i + 8) = Some zv"
      by (simp add: read_usize_at_def)
    show ?thesis
    proof (cases "contains_nonascii zu \<or> contains_nonascii zv")
      case True
      with \<open>i < e\<close> z "1.prems"(2) show ?thesis by (subst ascii_blocks.simps) auto
    next
      case False
      then have two: "v ! k < 128" if "i \<le> k" "k < i + 16" for k
        using ascii_word [OF z(1), of k] ascii_word [OF z(2), of k] that by (cases "k < i + 8") auto
      from "1.IH" [OF True z False "1.prems"(1) i] obtain j where "ascii_blocks v e (i + 16) = Some j" "i + 16 \<le> j" "j \<le> length v"
          "\<forall>k. i + 16 \<le> k \<longrightarrow> k < j \<longrightarrow> v ! k < 128" by blast
      with two True z False show ?thesis by (subst ascii_blocks.simps) (auto, metis not_le)
    qed
  qed (use "1.prems"(2) in \<open>subst ascii_blocks.simps, auto\<close>)
qed

lemma ascii_bytes_spec:
  "i \<le> length v \<Longrightarrow> ascii_bytes v i \<le> length v \<and> (\<forall>k. i \<le> k \<longrightarrow> k < ascii_bytes v i \<longrightarrow> v ! k < 128)"
proof (induction v i rule: ascii_bytes.induct)
  case (1 v i)
  show ?case
  proof (cases "i < length v \<and> v ! i < 128")
    case True
    then have "ascii_bytes v i = ascii_bytes v (i + 1)" by (subst ascii_bytes.simps) simp
    with "1.IH" [OF True] True show ?thesis by simp (metis Suc_leI le_neq_implies_less)
  next
    case False
    then have "ascii_bytes v i = i" by (subst ascii_bytes.simps) auto
    with "1.prems" show ?thesis by simp
  qed
qed

lemma skip_ascii_spec:
  assumes "i \<le> length v" "valid_utf8 (take i v)"
  shows "\<exists>j. skip_ascii v i = Some j \<and> i \<le> j \<and> j \<le> length v \<and> valid_utf8 (take j v)"
proof -
  obtain k where k: "ascii_blocks v (if 16 \<le> length v then length v - 16 + 1 else 0) i = Some k" "i \<le> k" "k \<le> length v"
      "\<forall>m. i \<le> m \<longrightarrow> m < k \<longrightarrow> v ! m < 128"
    using ascii_blocks_spec [OF refl assms(1)] by blast
  then have "valid_utf8 (take k v)" using valid_utf8_ascii [OF assms(2) k(2,3)] by blast
  with valid_utf8_ascii [of k v "ascii_bytes v k"] ascii_bytes_le [of k v] ascii_bytes_spec [OF k(3)] k(1,2)
  show ?thesis by (auto simp: skip_ascii_def Let_def)
qed

text \<open>The error length: an error that more input could mend has none; no input can mend the others.\<close>

lemma validate_multibyte_ext:
  "validate_multibyte v i = r \<Longrightarrow> r \<noteq> Err None \<Longrightarrow> i < length v \<Longrightarrow> validate_multibyte (v @ ext) i = r"
  by (auto simp: validate_multibyte_def next_byte_def Let_def nth_append split: if_splits)

lemma validate_multibyte_incomplete:
  assumes "validate_multibyte v i = Err None" "i < length v"
  shows "\<exists>ext. ext \<noteq> [] \<and> validate_multibyte (v @ ext) i = Ok (length (v @ ext))"
proof -
  let ?b = "if v ! i = 0xE0 then 0xA0 else if v ! i = 0xF0 then 0x90 else 0x80 :: u8"
  consider "length v = i + 1" "utf8_char_width (v ! i) = 2" | "length v = i + 1" "utf8_char_width (v ! i) = 3"
    | "length v = i + 1" "utf8_char_width (v ! i) = 4"
    | "length v = i + 2" "utf8_char_width (v ! i) = 3" "second_of_three (v ! i) (v ! (i + 1))"
    | "length v = i + 2" "utf8_char_width (v ! i) = 4" "second_of_four (v ! i) (v ! (i + 1))"
    | "length v = i + 3" "utf8_char_width (v ! i) = 4" "second_of_four (v ! i) (v ! (i + 1))" "\<not> -64 \<le> sint (v ! (i + 2))"
    using assms by (auto simp: validate_multibyte_def next_byte_def Let_def split: if_splits)
  then show ?thesis
  proof cases
    case 1
    then show ?thesis
      by (intro exI [of _ "[0x80]"]) (simp add: validate_multibyte_def next_byte_def Let_def nth_append sint_not_cont)
  next
    case 2
    then have "second_of_three (v ! i) ?b" unfolding second_of_three_eq utf8_char_width_eq by (auto split: if_splits simp: word_unat_eq_iff)
    with 2 show ?thesis
      by (intro exI [of _ "[?b, 0x80]"]) (simp add: validate_multibyte_def next_byte_def Let_def nth_append sint_not_cont)
  next
    case 3
    then have "second_of_four (v ! i) ?b" unfolding second_of_four_eq utf8_char_width_eq by (auto split: if_splits simp: word_unat_eq_iff)
    with 3 show ?thesis
      by (intro exI [of _ "[?b, 0x80, 0x80]"]) (simp add: validate_multibyte_def next_byte_def Let_def nth_append sint_not_cont)
  next
    case 4
    then show ?thesis
      by (intro exI [of _ "[0x80]"]) (simp add: validate_multibyte_def next_byte_def Let_def nth_append sint_not_cont)
  next
    case 5
    then show ?thesis
      by (intro exI [of _ "[0x80, 0x80]"]) (simp add: validate_multibyte_def next_byte_def Let_def nth_append sint_not_cont)
  next
    case 6
    then show ?thesis
      by (intro exI [of _ "[0x80]"]) (simp add: validate_multibyte_def next_byte_def Let_def nth_append sint_not_cont)
  qed
qed

lemma char_at_multibyte: "char_at v i c \<Longrightarrow> is_scalar c \<Longrightarrow> 128 \<le> v ! i \<Longrightarrow> 0x80 \<le> c"
  using char_at_nth(1) [of v i c 0] len_utf8_bounds(1) [of c]
  by (cases "unat c < 0x80") (auto simp: utf8_codes_def word_le_nat_alt)

lemma char_at_prefix: "char_at (take j v) i c \<Longrightarrow> char_at v i c"
  by (auto simp: char_at_def drop_take)

definition utf8_error_ok :: "u8 list \<Rightarrow> utf8_error \<Rightarrow> bool" where
  "utf8_error_ok v e \<longleftrightarrow> valid_up_to e < length v \<and> valid_utf8 (take (valid_up_to e) v) \<and>
     (\<nexists>c. is_scalar c \<and> char_at v (valid_up_to e) c) \<and>
     (case error_len e of
        None \<Rightarrow> \<exists>ext c. is_scalar c \<and> drop (valid_up_to e) v @ ext = utf8_bytes c
      | Some l \<Rightarrow> 1 \<le> l \<and> l \<le> 3 \<and> (\<nexists>ext c. is_scalar c \<and> char_at (v @ ext) (valid_up_to e) c))"

lemma validate_multibyte_error:
  assumes "validate_multibyte v i = Err l" "i < length v" "128 \<le> v ! i" "valid_utf8 (take i v)"
  shows "utf8_error_ok v \<lparr>valid_up_to = i, error_len = l\<rparr>"
proof -
  have none: "\<nexists>c. is_scalar c \<and> char_at (v @ ext) i c" if "validate_multibyte (v @ ext) i = Err l" for ext
  proof
    assume "\<exists>c. is_scalar c \<and> char_at (v @ ext) i c"
    then obtain c where c: "is_scalar c" "char_at (v @ ext) i c" by blast
    moreover have "128 \<le> (v @ ext) ! i" using assms(2,3) by (simp add: nth_append)
    ultimately show False using validate_multibyte_complete [of "v @ ext" i c] char_at_multibyte that by auto
  qed
  show ?thesis
  proof (cases l)
    case None
    with assms(1,2) obtain ext where ext: "validate_multibyte (v @ ext) i = Ok (length (v @ ext))"
      using validate_multibyte_incomplete by blast
    have "128 \<le> (v @ ext) ! i" "i < length (v @ ext)" using assms(2,3) by (simp_all add: nth_append)
    with validate_multibyte_sound [OF ext] obtain c where "is_scalar c" "char_at (v @ ext) i c" "length (v @ ext) = i + len_utf8 c"
      by blast
    then have "is_scalar c \<and> drop i v @ ext = utf8_bytes c" using assms(2) by (simp add: char_at_def)
    with None none [of "[]"] assms show ?thesis by (auto simp: utf8_error_ok_def)
  next
    case (Some k)
    moreover have "1 \<le> k \<and> k \<le> 3"
      using assms(1) Some by (auto simp: validate_multibyte_def next_byte_def Let_def split: if_splits)
    moreover have "validate_multibyte (v @ ext) i = Err l" for ext
      using assms(1,2) Some by (intro validate_multibyte_ext) auto
    ultimately show ?thesis using none none [of "[]"] assms by (auto simp: utf8_error_ok_def)
  qed
qed

lemma validation_loop_spec:
  assumes "valid_utf8 (take i v)" "i \<le> length v"
  shows "\<exists>r. validation_loop align v i = Some r \<and> (case r of Ok _ \<Rightarrow> valid_utf8 v | Err e \<Rightarrow> utf8_error_ok v e)"
  using assms
proof (induction align v i rule: validation_loop.induct)
  case (1 align v i)
  consider (finished) "i = length v" | (multi) "i < length v" "128 \<le> v ! i" | (ascii) "i < length v" "\<not> 128 \<le> v ! i"
    using "1.prems"(2) by linarith
  then show ?case
  proof cases
    case finished
    with "1.prems"(1) show ?thesis by (subst validation_loop.simps) auto
  next
    case multi
    show ?thesis
    proof (cases "validate_multibyte v i")
      case (Ok j)
      with validate_multibyte_sound [OF _ multi] obtain c where c: "is_scalar c" "char_at v i c" "j = i + len_utf8 c" by blast
      with valid_utf8_step [OF "1.prems"(1) c(1,2)] "1.IH"(1) [OF multi Ok] Ok multi show ?thesis
        by (subst validation_loop.simps) (simp add: char_at_def)
    next
      case (Err l)
      with validate_multibyte_error [OF _ multi "1.prems"(1)] multi show ?thesis
        by (subst validation_loop.simps) simp
    qed
  next
    case ascii
    show ?thesis
    proof (cases "align \<noteq> -1 \<and> (align - word_of_nat i) mod 8 = 0")
      case True
      obtain j where j: "skip_ascii v i = Some j" "j \<le> length v" "valid_utf8 (take j v)"
        using skip_ascii_spec [OF "1.prems"(2,1)] by blast
      with "1.IH"(2) [OF ascii True] ascii True show ?thesis by (subst validation_loop.simps) auto
    next
      case False
      have "valid_utf8 (take (i + 1) v)"
        using valid_utf8_ascii [OF "1.prems"(1), of "i + 1"] ascii by (auto simp: not_le less_Suc_eq)
      moreover have "i + 1 \<le> length v" using ascii by simp
      ultimately show ?thesis using "1.IH"(3) [OF ascii False]
        by (subst validation_loop.simps) (simp only: ascii False if_True if_False)
    qed
  qed
qed

lemma utf8_error_invalid:
  assumes "utf8_error_ok v e" "valid_up_to e < j" "j \<le> length v"
  shows "\<not> valid_utf8 (take j v)"
proof
  assume "valid_utf8 (take j v)"
  moreover have "valid_utf8 (take (valid_up_to e) (take j v))" "valid_up_to e < length (take j v)"
    using assms by (simp_all add: utf8_error_ok_def min_absorb1)
  ultimately obtain c where "is_scalar c" "char_at (take j v) (valid_up_to e) c" using valid_utf8_next by blast
  with char_at_prefix assms(1) show False unfolding utf8_error_ok_def by blast
qed

lemma utf8_error_exact:
  assumes "utf8_error_ok v e"
  shows "{j. j \<le> length v \<and> valid_utf8 (take j v)} \<inter> {valid_up_to e..} = {valid_up_to e}"
    and "\<not> valid_utf8 v"
    and "case error_len e of
         None \<Rightarrow> \<exists>ext c. is_scalar c \<and> drop (valid_up_to e) v @ ext = utf8_bytes c
       | Some l \<Rightarrow> l \<in> {1..3} \<and> (\<nexists>ext c. is_scalar c \<and> char_at (v @ ext) (valid_up_to e) c)"
proof -
  have le: "valid_up_to e < length v" "valid_utf8 (take (valid_up_to e) v)" using assms by (simp_all add: utf8_error_ok_def)
  then show "{j. j \<le> length v \<and> valid_utf8 (take j v)} \<inter> {valid_up_to e..} = {valid_up_to e}"
    using utf8_error_invalid [OF assms] by (auto simp: le_less)
  show "\<not> valid_utf8 v" using utf8_error_invalid [OF assms, of "length v"] le(1) by simp
  show "case error_len e of
         None \<Rightarrow> \<exists>ext c. is_scalar c \<and> drop (valid_up_to e) v @ ext = utf8_bytes c
       | Some l \<Rightarrow> l \<in> {1..3} \<and> (\<nexists>ext c. is_scalar c \<and> char_at (v @ ext) (valid_up_to e) c)"
    using assms by (auto simp: utf8_error_ok_def split: option.splits)
qed

text \<open>C2: \<open>run_utf8_validation\<close> (and \<open>from_utf8\<close>, which calls it) is a decision procedure for UTF-8 whatever the alignment
  of the slice: it returns, no word is read outside the slice, \<open>Ok\<close> is the answer exactly for the concatenations of
  encodings of Unicode scalar values, and an error is exact. \<open>valid_up_to\<close> is the length of the longest valid prefix;
  \<open>error_len\<close> is \<open>None\<close> exactly where the rest of the slice is the start of some character, and is otherwise between
  1 and 3 where no continuation of the input could make a character start there.
\<close>

theorem utf8_validation_correct:
  "\<exists>r. run_utf8_validation align v = Some r \<and>
       from_utf8 align v = Some (case r of Ok _ \<Rightarrow> Ok v | Err e \<Rightarrow> Err e) \<and>
       (case r of
          Ok _ \<Rightarrow> valid_utf8 v
        | Err e \<Rightarrow> {j. j \<le> length v \<and> valid_utf8 (take j v)} \<inter> {valid_up_to e..} = {valid_up_to e} \<and>
            \<not> valid_utf8 v \<and>
            (case error_len e of
               None \<Rightarrow> \<exists>ext c. is_scalar c \<and> drop (valid_up_to e) v @ ext = utf8_bytes c
             | Some l \<Rightarrow> l \<in> {1..3} \<and> (\<nexists>ext c. is_scalar c \<and> char_at (v @ ext) (valid_up_to e) c)))"
proof -
  have "valid_utf8 (take 0 v)" by (auto simp: valid_utf8_def intro: exI [of _ "[]"])
  then obtain r where r: "run_utf8_validation align v = Some r" "case r of Ok _ \<Rightarrow> valid_utf8 v | Err e \<Rightarrow> utf8_error_ok v e"
    using validation_loop_spec [of 0 v align] by (auto simp: run_utf8_validation_def)
  show ?thesis
  proof (intro exI conjI)
    show "run_utf8_validation align v = Some r" by (rule r(1))
    show "from_utf8 align v = Some (case r of Ok _ \<Rightarrow> Ok v | Err e \<Rightarrow> Err e)" using r(1) by (simp add: from_utf8_def)
  qed (use r(2) utf8_error_exact in \<open>auto split: result.splits\<close>)
qed

text \<open>C40: Encoding and decoding are inverse, in both directions of reading: \<open>encode_utf8_raw\<close> writes the \<open>len_utf8\<close> bytes
  of a character to the front of a buffer that is long enough, leaves the rest of the buffer, and panics on a shorter
  one; what it writes is one valid character; \<open>next_code_point\<close> reads the character back from the front of any bytes
  that follow, and \<open>next_code_point_reverse\<close> from the end of any bytes before, and neither runs off its iterator.
\<close>

theorem utf8_roundtrip:
  assumes "is_scalar c"
  shows "\<exists>bs. length bs = len_utf8 c \<and> valid_utf8 bs \<and>
    encode_utf8_raw c dst = (if len_utf8 c \<le> length dst then Some (bs, bs @ drop (len_utf8 c) dst) else None) \<and>
    next_code_point (bs @ rest) = Some (Some c, rest) \<and>
    next_code_point_reverse (rest @ bs) = Some (Some c, rest)"
proof (intro exI conjI)
  show "valid_utf8 (utf8_bytes c)" using assms by (auto simp: valid_utf8_def intro: exI [of _ "[c]"])
qed (use assms in \<open>simp_all add: encode_utf8_raw_eq next_code_point_char next_code_point_reverse_char\<close>)

text \<open>The euro sign, in a buffer of four bytes.\<close>

theorem utf8_roundtrip_witness:
  "\<exists>bs. length bs = 3 \<and> encode_utf8_raw 0x20AC [0, 0, 0, 7] = Some (bs, bs @ [7]) \<and>
        next_code_point (bs @ [0x61]) = Some (Some 0x20AC, [0x61])"
proof -
  have "is_scalar 0x20AC" by code_simp
  from utf8_roundtrip [OF this, of "[0, 0, 0, 7]" "[0x61]"] show ?thesis by (auto simp: len_utf8_def)
qed

end
