(* ===== verification/Utf8_Str.thy ===== *)
theory Utf8_Str
  imports Utf8
begin

text \<open>
  String slices: the character boundaries and \<open>split_at\<close> of \<open>library/core/src/str/mod.rs\<close>, indexing by ranges of bytes
  from \<open>str/traits.rs\<close>, and the iterators \<open>Chars\<close> and \<open>CharIndices\<close> of \<open>str/iter.rs\<close>. A \<open>&str\<close> is the list of its
  bytes, and the \<open>unsafe\<close> reads are checked as in the theory before. The lemmas read a valid \<open>&str\<close> as the list of its
  characters: a boundary is a position between two of them.
\<close>

section \<open>Boundaries and ranges\<close>

definition is_utf8_char_boundary :: "u8 \<Rightarrow> bool" where
  "is_utf8_char_boundary b \<longleftrightarrow> -0x40 \<le> sint b"

definition is_char_boundary :: "u8 list \<Rightarrow> nat \<Rightarrow> bool" where
  "is_char_boundary s index =
     (if index = 0 then True
      else case index_at s index of None \<Rightarrow> index = length s | Some b \<Rightarrow> is_utf8_char_boundary b)"

definition floor_char_boundary :: "u8 list \<Rightarrow> nat \<Rightarrow> nat option" where
  "floor_char_boundary s index =
     (if length s \<le> index then Some (length s)
      else do {
        let lower_bound = index - 3;
        bytes \<leftarrow> slice s lower_bound (index + 1);
        new_index \<leftarrow> rposition is_utf8_char_boundary bytes;
        Some (lower_bound + new_index)
      })"

definition ceil_char_boundary :: "u8 list \<Rightarrow> nat \<Rightarrow> nat option" where
  "ceil_char_boundary s index =
     (if length s < index then None
      else do {
        let upper_bound = min (index + 4) (length s);
        bytes \<leftarrow> slice s index upper_bound;
        Some (case position is_utf8_char_boundary bytes of None \<Rightarrow> upper_bound | Some pos \<Rightarrow> pos + index)
      })"

definition split_at :: "u8 list \<Rightarrow> nat \<Rightarrow> (u8 list \<times> u8 list) option" where
  "split_at s mid =
     (if is_char_boundary s mid then do {
        a \<leftarrow> slice s 0 mid;
        b \<leftarrow> slice s mid (length s);
        Some (a, b)
      } else None)"

text \<open>The \<open>get\<close> of each kind of range; the outer \<open>None\<close> is an \<open>unsafe\<close> access out of bounds.\<close>

definition USIZE_MAX :: nat where "USIZE_MAX = 2 ^ 64 - 1"

definition get_range :: "u8 list \<Rightarrow> nat \<Rightarrow> nat \<Rightarrow> u8 list option option" where
  "get_range s start end' =
     (if start \<le> end' \<and> is_char_boundary s start \<and> is_char_boundary s end'
      then map_option Some (slice s start end') else Some None)"

definition get_range_to :: "u8 list \<Rightarrow> nat \<Rightarrow> u8 list option option" where
  "get_range_to s end' = (if is_char_boundary s end' then map_option Some (slice s 0 end') else Some None)"

definition get_range_from :: "u8 list \<Rightarrow> nat \<Rightarrow> u8 list option option" where
  "get_range_from s start = (if is_char_boundary s start then map_option Some (slice s start (length s)) else Some None)"

record range_inclusive =
  ri_start :: nat
  ri_end :: nat
  exhausted :: bool

definition into_slice_range :: "range_inclusive \<Rightarrow> nat \<times> nat" where
  "into_slice_range r =
     (let exclusive_end = ri_end r + 1; start = (if exhausted r then exclusive_end else ri_start r) in (start, exclusive_end))"

definition get_range_inclusive :: "u8 list \<Rightarrow> range_inclusive \<Rightarrow> u8 list option option" where
  "get_range_inclusive s r =
     (if ri_end r = USIZE_MAX then Some None else case into_slice_range r of (a, b) \<Rightarrow> get_range s a b)"

definition get_range_to_inclusive :: "u8 list \<Rightarrow> nat \<Rightarrow> u8 list option option" where
  "get_range_to_inclusive s end' = (if end' = USIZE_MAX then Some None else get_range_to s (end' + 1))"

text \<open>\<open>&s[start..end]\<close>, \<open>&s[..end]\<close> and \<open>&s[start..]\<close>: the panic of \<open>slice_error_fail\<close> where \<open>get\<close> has no result.\<close>

definition index_range :: "u8 list \<Rightarrow> nat \<Rightarrow> nat \<Rightarrow> u8 list option" where
  "index_range s start end' = do { r \<leftarrow> get_range s start end'; r }"

definition index_range_to :: "u8 list \<Rightarrow> nat \<Rightarrow> u8 list option" where
  "index_range_to s end' = do { r \<leftarrow> get_range_to s end'; r }"

definition index_range_from :: "u8 list \<Rightarrow> nat \<Rightarrow> u8 list option" where
  "index_range_from s start = do { r \<leftarrow> get_range_from s start; r }"


section \<open>Iterators\<close>

text \<open>\<open>Chars\<close> holds the bytes that are left. \<open>from_u32_unchecked\<close> is undefined for what is no scalar value.\<close>

definition from_u32_unchecked :: "u32 \<Rightarrow> rchar option" where
  "from_u32_unchecked i = (case char_try_from_u32 i of None \<Rightarrow> None | Some c \<Rightarrow> Some i)"

definition map_char :: "u32 option \<times> u8 list \<Rightarrow> (rchar option \<times> u8 list) option" where
  "map_char r = (case r of
       (None, iter) \<Rightarrow> Some (None, iter)
     | (Some ch, iter) \<Rightarrow> do { c \<leftarrow> from_u32_unchecked ch; Some (Some c, iter) })"

definition chars_next :: "u8 list \<Rightarrow> (rchar option \<times> u8 list) option" where
  "chars_next iter = next_code_point iter \<bind> map_char"

definition chars_next_back :: "u8 list \<Rightarrow> (rchar option \<times> u8 list) option" where
  "chars_next_back iter = next_code_point_reverse iter \<bind> map_char"

definition chars_size_hint :: "u8 list \<Rightarrow> nat \<times> nat option" where
  "chars_size_hint iter = (let len = length iter in ((len + 3) div 4, Some len))"

definition chars_last :: "u8 list \<Rightarrow> rchar option option" where
  "chars_last iter = map_option fst (chars_next_back iter)"

record char_indices =
  front_offset :: nat
  ci_iter :: "u8 list"

definition char_indices_new :: "u8 list \<Rightarrow> char_indices" where
  "char_indices_new s = \<lparr>front_offset = 0, ci_iter = s\<rparr>"

definition char_indices_next :: "char_indices \<Rightarrow> ((nat \<times> rchar) option \<times> char_indices) option" where
  "char_indices_next it = do {
     let pre_len = length (ci_iter it);
     (r, iter) \<leftarrow> chars_next (ci_iter it);
     case r of
       None \<Rightarrow> Some (None, it\<lparr>ci_iter := iter\<rparr>)
     | Some ch \<Rightarrow> do {
         let index = front_offset it;
         let len = length iter;
         d \<leftarrow> checked_sub pre_len len;
         Some (Some (index, ch), \<lparr>front_offset = front_offset it + d, ci_iter = iter\<rparr>)
       }
   }"

definition char_indices_next_back :: "char_indices \<Rightarrow> ((nat \<times> rchar) option \<times> char_indices) option" where
  "char_indices_next_back it = do {
     (r, iter) \<leftarrow> chars_next_back (ci_iter it);
     Some (map_option (\<lambda>ch. (front_offset it + length iter, ch)) r, it\<lparr>ci_iter := iter\<rparr>)
   }"


section \<open>A boundary is the end of a valid prefix\<close>

lemma is_utf8_char_boundary_not_cont: "is_utf8_char_boundary b \<longleftrightarrow> \<not> utf8_is_cont_byte b"
  by (auto simp: is_utf8_char_boundary_def utf8_is_cont_byte_def)

lemma utf8_bytes_tags:
  assumes "is_scalar c"
  shows "is_utf8_char_boundary (hd (utf8_bytes c)) \<and> list_all utf8_is_cont_byte (tl (utf8_bytes c))"
  using assms
  by (cases rule: utf8_bytes_cases) (simp_all add: is_utf8_char_boundary_def utf8_is_cont_byte_def sint_not_cont sint_cont)

lemma cont_in_char:
  assumes "is_scalar c" "k < len_utf8 c"
  shows "is_utf8_char_boundary (utf8_bytes c ! k) \<longleftrightarrow> k = 0"
proof (cases k)
  case 0
  then show ?thesis using utf8_bytes_tags [OF assms(1)] by (simp add: hd_conv_nth)
next
  case (Suc j)
  then have "utf8_is_cont_byte (tl (utf8_bytes c) ! j)" using utf8_bytes_tags [OF assms(1)] assms(2) by (simp add: list_all_length)
  with Suc assms(2) show ?thesis by (simp add: nth_tl is_utf8_char_boundary_not_cont)
qed

lemma valid_utf8_Nil [simp]: "valid_utf8 []"
  unfolding valid_utf8_def by (intro exI [of _ "[]"]) simp

lemma valid_utf8_chars [simp]: "list_all is_scalar cs \<Longrightarrow> valid_utf8 (utf8 cs)"
  unfolding valid_utf8_def by blast

lemma valid_utf8_take_char:
  assumes "is_scalar c" "list_all is_scalar cs"
  shows "valid_utf8 (take i (utf8_bytes c @ utf8 cs)) \<longleftrightarrow> i = 0 \<or> len_utf8 c \<le> i \<and> valid_utf8 (take (i - len_utf8 c) (utf8 cs))"
proof (cases "len_utf8 c \<le> i")
  case True
  moreover have "valid_utf8 (utf8_bytes c)" using valid_utf8_chars [of "[c]"] assms(1) by simp
  ultimately show ?thesis using len_utf8_bounds(1) [of c]
    by (auto intro: valid_utf8_append dest: valid_utf8_rest)
next
  case False
  have "i = 0" if "valid_utf8 (take i (utf8_bytes c))"
  proof (rule ccontr)
    assume "i \<noteq> 0"
    with that valid_utf8_next [of "take i (utf8_bytes c)" 0] len_utf8_bounds(1) [of c]
    obtain d where d: "is_scalar d" "char_at (take i (utf8_bytes c)) 0 d" by auto
    then have "char_at (utf8_bytes c) 0 d" by (rule_tac char_at_prefix)
    moreover have "char_at (utf8_bytes c) 0 c" using char_at_append [of "[]" c "[]"] by simp
    ultimately have "d = c" using char_at_unique d(1) assms(1) by blast
    with d(2) False show False by (simp add: char_at_def)
  qed
  with False show ?thesis by auto
qed

lemma is_char_boundary_char:
  assumes "is_scalar c" "list_all is_scalar cs"
  shows "is_char_boundary (utf8_bytes c @ utf8 cs) i \<longleftrightarrow>
     i = 0 \<or> len_utf8 c \<le> i \<and> is_char_boundary (utf8 cs) (i - len_utf8 c)"
proof -
  have "is_utf8_char_boundary (utf8 cs ! 0)" if "utf8 cs \<noteq> []"
  proof -
    from that obtain d ds where "cs = d # ds" by (cases cs) auto
    then show ?thesis using cont_in_char [of d 0] len_utf8_bounds(1) [of d] assms(2) by (simp add: nth_append)
  qed
  then show ?thesis using cont_in_char [OF assms(1), of i] len_utf8_bounds(1) [of c]
    by (auto simp: is_char_boundary_def index_at_def nth_append)
qed

lemma is_char_boundary_iff:
  assumes "valid_utf8 s"
  shows "is_char_boundary s i \<longleftrightarrow> i \<le> length s \<and> valid_utf8 (take i s)"
proof -
  obtain cs where "list_all is_scalar cs" "s = utf8 cs" using assms by (auto simp: valid_utf8_def)
  moreover have "list_all is_scalar cs \<Longrightarrow> is_char_boundary (utf8 cs) i \<longleftrightarrow> i \<le> length (utf8 cs) \<and> valid_utf8 (take i (utf8 cs))"
  proof (induction cs arbitrary: i)
    case Nil
    then show ?case by (auto simp: is_char_boundary_def)
  next
    case (Cons c cs)
    then have c: "is_scalar c" "list_all is_scalar cs" by simp_all
    show ?case unfolding utf8_simps is_char_boundary_char [OF c] valid_utf8_take_char [OF c] Cons.IH [OF c(2)] by auto
  qed
  ultimately show ?thesis by simp
qed

text \<open>The piece between two boundaries is valid.\<close>

lemma valid_utf8_between:
  assumes "valid_utf8 (take a s)" "valid_utf8 (take b s)" "a \<le> b"
  shows "valid_utf8 (take (b - a) (drop a s))"
proof -
  have "take b s = take a s @ take (b - a) (drop a s)" using assms(3) by (metis take_add le_add_diff_inverse)
  with assms show ?thesis using valid_utf8_rest by metis
qed

lemma valid_utf8_boundary_drop: "valid_utf8 s \<Longrightarrow> valid_utf8 (take a s) \<Longrightarrow> valid_utf8 (drop a s)"
  using valid_utf8_between [of a s "length s"] by (cases "a \<le> length s") auto

definition boundaries :: "u8 list \<Rightarrow> nat set" where
  "boundaries s = {i. i \<le> length s \<and> valid_utf8 (take i s)}"

lemma boundaries_is_char_boundary: "valid_utf8 s \<Longrightarrow> i \<in> boundaries s \<longleftrightarrow> is_char_boundary s i"
  by (simp add: boundaries_def is_char_boundary_iff)

lemma finite_boundaries [simp]: "finite (boundaries s)"
  unfolding boundaries_def by simp

lemma boundaries_0 [simp]: "0 \<in> boundaries s"
  by (simp add: boundaries_def)

lemma boundaries_le: "i \<in> boundaries s \<Longrightarrow> i \<le> length s"
  by (simp add: boundaries_def)

lemma boundaries_length: "valid_utf8 s \<Longrightarrow> length s \<in> boundaries s"
  by (simp add: boundaries_def)

lemma inner_boundary: "valid_utf8 s \<Longrightarrow> i < length s \<Longrightarrow> is_utf8_char_boundary (s ! i) \<longleftrightarrow> i \<in> boundaries s"
proof (cases i)
  case 0
  assume v: "valid_utf8 s" and "i < length s"
  then obtain c cs where "is_scalar c" "s = utf8_bytes c @ utf8 cs"
    unfolding valid_utf8_def by (metis 0 list.pred_inject(2) list.size(3) neq_Nil_conv not_less_zero utf8_simps(1,2))
  then show ?thesis using 0 cont_in_char [of c 0] len_utf8_bounds(1) [of c] by (simp add: nth_append)
qed (auto simp: boundaries_is_char_boundary is_char_boundary_def)

lemma greatest_boundary:
  "Max {j \<in> boundaries s. j \<le> i} \<in> boundaries s" "Max {j \<in> boundaries s. j \<le> i} \<le> i"
  "n \<in> boundaries s \<Longrightarrow> n \<le> i \<Longrightarrow> n \<le> Max {j \<in> boundaries s. j \<le> i}"
proof -
  have "0 \<in> {j \<in> boundaries s. j \<le> i}" by simp
  then have "Max {j \<in> boundaries s. j \<le> i} \<in> {j \<in> boundaries s. j \<le> i}" by (intro Max_in) (simp, blast)
  then show "Max {j \<in> boundaries s. j \<le> i} \<in> boundaries s" "Max {j \<in> boundaries s. j \<le> i} \<le> i" by simp_all
qed (rule Max_ge, simp_all)

lemma least_boundary:
  assumes "valid_utf8 s" "i \<le> length s"
  shows "Min {j \<in> boundaries s. i \<le> j} \<in> boundaries s" "i \<le> Min {j \<in> boundaries s. i \<le> j}"
    "n \<in> boundaries s \<Longrightarrow> i \<le> n \<Longrightarrow> Min {j \<in> boundaries s. i \<le> j} \<le> n"
proof -
  have "length s \<in> {j \<in> boundaries s. i \<le> j}" using assms boundaries_length by simp
  then have "Min {j \<in> boundaries s. i \<le> j} \<in> {j \<in> boundaries s. i \<le> j}" by (intro Min_in) (simp, blast)
  then show "Min {j \<in> boundaries s. i \<le> j} \<in> boundaries s" "i \<le> Min {j \<in> boundaries s. i \<le> j}" by simp_all
qed (rule Min_le, simp_all)

text \<open>From every position a boundary is at most three bytes away, on both sides.\<close>

lemma boundary_near:
  assumes "valid_utf8 s" "i < length s"
  shows "\<exists>j \<in> boundaries s. \<exists>k \<in> boundaries s. j \<le> i \<and> i < k \<and> k \<le> j + 4"
proof -
  define j where "j = Max {j \<in> boundaries s. j \<le> i}"
  have j: "j \<in> boundaries s" "j \<le> i" using greatest_boundary unfolding j_def by blast+
  have maxj: "k \<le> j" if "k \<in> boundaries s" "k \<le> i" for k unfolding j_def using that by (rule greatest_boundary)
  obtain c where c: "is_scalar c" "char_at s j c"
    using valid_utf8_next [of s j] assms j by (auto simp: boundaries_def)
  have k: "j + len_utf8 c \<in> boundaries s" using valid_utf8_step [of j s c] c j by (auto simp: boundaries_def char_at_def)
  moreover have "i < j + len_utf8 c" using maxj [OF k] len_utf8_bounds(1) [of c] by linarith
  moreover have "j + len_utf8 c \<le> j + 4" using len_utf8_bounds(2) [of c] by simp
  ultimately show ?thesis using j by blast
qed

lemma floor_char_boundary_eq:
  assumes "valid_utf8 s"
  shows "floor_char_boundary s i = Some (Max {j \<in> boundaries s. j \<le> i})"
proof (cases "length s \<le> i")
  case True
  then have "Max {j \<in> boundaries s. j \<le> i} = length s"
    using boundaries_length [OF assms] by (intro Max_eqI) (auto dest: boundaries_le)
  with True show ?thesis by (simp add: floor_char_boundary_def)
next
  case False
  obtain j k where jk: "j \<in> boundaries s" "k \<in> boundaries s" "j \<le> i" "i < k" "k \<le> j + 4"
    using boundary_near [OF assms, of i] False by auto
  let ?l = "i - 3"
  obtain m where m_eq: "m = Max {j \<in> boundaries s. j \<le> i}" by simp
  have m: "m \<in> boundaries s" "m \<le> i" "j \<le> m" "\<And>n. n \<in> boundaries s \<Longrightarrow> n \<le> i \<Longrightarrow> n \<le> m"
    using greatest_boundary jk(1,3) unfolding m_eq by blast+
  let ?bs = "take (i + 1 - ?l) (drop ?l s)"
  have nth: "is_utf8_char_boundary (?bs ! n) \<longleftrightarrow> ?l + n \<in> boundaries s" if "n < i + 1 - ?l" for n
    using that False inner_boundary [OF assms, of "?l + n"] by simp
  have "rposition is_utf8_char_boundary ?bs = Some (m - ?l)"
    unfolding rposition_Some_iff
  proof (intro conjI allI impI)
    show "m - ?l < length ?bs" using m(2) False by simp
    show "is_utf8_char_boundary (?bs ! (m - ?l))" using nth [of "m - ?l"] m(1-3) jk(4,5) by simp
    fix n assume n: "m - ?l < n \<and> n < length ?bs"
    then have "m < ?l + n" "?l + n \<le> i" by auto
    with m(4) [of "?l + n"] have "?l + n \<notin> boundaries s" by auto
    then show "\<not> is_utf8_char_boundary (?bs ! n)" using nth [of n] n by simp
  qed
  then show ?thesis unfolding m_eq [symmetric] using False m jk(4,5) by (simp add: floor_char_boundary_def Let_def)
qed

lemma ceil_char_boundary_eq:
  assumes "valid_utf8 s" "i \<le> length s"
  shows "ceil_char_boundary s i = Some (Min {j \<in> boundaries s. i \<le> j})"
proof -
  let ?S = "{j \<in> boundaries s. i \<le> j}" and ?u = "min (i + 4) (length s)"
  let ?bs = "take (?u - i) (drop i s)"
  obtain m where m_eq: "m = Min ?S" by simp
  have m: "m \<in> boundaries s" "i \<le> m" "\<And>n. n \<in> boundaries s \<Longrightarrow> i \<le> n \<Longrightarrow> m \<le> n"
    using least_boundary [OF assms] unfolding m_eq by blast+
  have le: "m \<le> ?u"
  proof (cases "i = length s")
    case True
    then show ?thesis using m(3) boundaries_length [OF assms(1)] by simp
  next
    case False
    then obtain j k where "j \<in> boundaries s" "k \<in> boundaries s" "j \<le> i" "i < k" "k \<le> j + 4"
      using boundary_near [OF assms(1), of i] assms(2) by auto
    then show ?thesis using m(3) [of k] boundaries_le [of k s] by simp
  qed
  have nth: "is_utf8_char_boundary (?bs ! n) \<longleftrightarrow> i + n \<in> boundaries s" if "n < ?u - i" for n
    using that assms(2) inner_boundary [OF assms(1), of "i + n"] by simp
  have len: "length ?bs = ?u - i" by simp
  show ?thesis
  proof (cases "position is_utf8_char_boundary ?bs")
    case None
    have "m = ?u"
    proof (rule ccontr)
      assume "m \<noteq> ?u"
      then have "m - i < ?u - i" using le m(2) by linarith
      with nth [of "m - i"] m(1,2) None len show False unfolding position_None_iff by (metis le_add_diff_inverse nth_mem)
    qed
    with None assms(2) m_eq show ?thesis by (simp add: ceil_char_boundary_def Let_def)
  next
    case (Some p)
    then have p: "p < ?u - i" "is_utf8_char_boundary (?bs ! p)" "\<And>q. q < p \<Longrightarrow> \<not> is_utf8_char_boundary (?bs ! q)"
      unfolding position_Some_iff len by auto
    have "i + p = m"
    proof (rule antisym)
      show "m \<le> i + p" using m(3) nth [of p] p(1,2) by simp
      have "\<not> m - i < p" using p(1) p(3) [of "m - i"] nth [of "m - i"] m(1,2) by force
      then show "i + p \<le> m" using m(2) by linarith
    qed
    with Some assms(2) m_eq show ?thesis by (simp add: ceil_char_boundary_def Let_def add.commute)
  qed
qed


section \<open>Double-ended iterators as deques\<close>

text \<open>
  The contract of \<open>DoubleEndedIterator\<close>: \<open>rel\<close> says which items an iterator still has, and each call takes one off its
  end of the list, or answers \<open>None\<close> and stays empty.
\<close>

datatype end_op = Front | Back

definition head_option :: "'a list \<Rightarrow> 'a option" where
  "head_option xs = (case xs of [] \<Rightarrow> None | x # _ \<Rightarrow> Some x)"

definition last_option :: "'a list \<Rightarrow> 'a option" where
  "last_option xs = (if xs = [] then None else Some (last xs))"

fun deque_run :: "end_op list \<Rightarrow> 'a list \<Rightarrow> 'a option list \<times> 'a list" where
  "deque_run [] xs = ([], xs)"
| "deque_run (Front # ops) xs = (case deque_run ops (tl xs) of (rs, ys) \<Rightarrow> (head_option xs # rs, ys))"
| "deque_run (Back # ops) xs = (case deque_run ops (butlast xs) of (rs, ys) \<Rightarrow> (last_option xs # rs, ys))"

fun iter_run :: "('s \<Rightarrow> ('a option \<times> 's) option) \<Rightarrow> ('s \<Rightarrow> ('a option \<times> 's) option) \<Rightarrow> end_op list \<Rightarrow> 's \<Rightarrow>
    ('a option list \<times> 's) option" where
  "iter_run nxt nxt_back [] it = Some ([], it)"
| "iter_run nxt nxt_back (e # ops) it = do {
     (r, it) \<leftarrow> (case e of Front \<Rightarrow> nxt it | Back \<Rightarrow> nxt_back it);
     (rs, it) \<leftarrow> iter_run nxt nxt_back ops it;
     Some (r # rs, it)
   }"

locale double_ended_iterator =
  fixes nxt :: "'s \<Rightarrow> ('a option \<times> 's) option" and nxt_back :: "'s \<Rightarrow> ('a option \<times> 's) option"
    and rel :: "'s \<Rightarrow> 'a list \<Rightarrow> bool"
  assumes nxt_law: "rel it xs \<Longrightarrow> \<exists>it'. nxt it = Some (head_option xs, it') \<and> rel it' (tl xs)"
    and nxt_back_law: "rel it xs \<Longrightarrow> \<exists>it'. nxt_back it = Some (last_option xs, it') \<and> rel it' (butlast xs)"
begin

lemma run_refines_deque:
  "rel it xs \<Longrightarrow> \<exists>it'. iter_run nxt nxt_back ops it = Some (fst (deque_run ops xs), it') \<and> rel it' (snd (deque_run ops xs))"
proof (induction ops arbitrary: it xs)
  case (Cons e ops)
  show ?case
  proof (cases e)
    case Front
    obtain it' where "nxt it = Some (head_option xs, it')" "rel it' (tl xs)" using nxt_law [OF Cons.prems] by blast
    with Front Cons.IH [of it' "tl xs"] show ?thesis by (auto split: prod.splits)
  next
    case Back
    obtain it' where "nxt_back it = Some (last_option xs, it')" "rel it' (butlast xs)" using nxt_back_law [OF Cons.prems] by blast
    with Back Cons.IH [of it' "butlast xs"] show ?thesis by (auto split: prod.splits)
  qed
qed simp

end

text \<open>\<open>Chars\<close> over the encoding of the characters that are left.\<close>

definition chars_rel :: "u8 list \<Rightarrow> rchar list \<Rightarrow> bool" where
  "chars_rel it cs \<longleftrightarrow> list_all is_scalar cs \<and> it = utf8 cs"

lemma from_u32_unchecked_scalar [simp]: "is_scalar c \<Longrightarrow> from_u32_unchecked c = Some c"
  by (simp add: from_u32_unchecked_def char_try_from_u32_eq)

lemma chars_next_Nil [simp]: "chars_next [] = Some (None, [])" "chars_next_back [] = Some (None, [])"
  by (simp_all add: chars_next_def chars_next_back_def next_code_point_def next_code_point_reverse_def map_char_def)

lemma chars_next_char [simp]: "is_scalar c \<Longrightarrow> chars_next (utf8_bytes c @ rest) = Some (Some c, rest)"
  by (simp add: chars_next_def next_code_point_char map_char_def)

lemma chars_next_back_char [simp]: "is_scalar c \<Longrightarrow> chars_next_back (pre @ utf8_bytes c) = Some (Some c, pre)"
  by (simp add: chars_next_back_def next_code_point_reverse_char map_char_def)

lemma chars_nxt_law: "chars_rel it cs \<Longrightarrow> \<exists>it'. chars_next it = Some (head_option cs, it') \<and> chars_rel it' (tl cs)"
  by (cases cs) (auto simp: chars_rel_def head_option_def)

lemma chars_nxt_back_law:
  "chars_rel it cs \<Longrightarrow> \<exists>it'. chars_next_back it = Some (last_option cs, it') \<and> chars_rel it' (butlast cs)"
  by (cases cs rule: rev_cases) (auto simp: chars_rel_def last_option_def)

interpretation chars: double_ended_iterator chars_next chars_next_back chars_rel
  by unfold_locales (rule chars_nxt_law chars_nxt_back_law, assumption)+

text \<open>\<open>CharIndices\<close>: the characters with the positions they start at.\<close>

fun indexed :: "nat \<Rightarrow> rchar list \<Rightarrow> (nat \<times> rchar) list" where
  "indexed i [] = []"
| "indexed i (c # cs) = (i, c) # indexed (i + len_utf8 c) cs"

definition char_indices_rel :: "char_indices \<Rightarrow> (nat \<times> rchar) list \<Rightarrow> bool" where
  "char_indices_rel it ps \<longleftrightarrow> (\<exists>cs. chars_rel (ci_iter it) cs \<and> ps = indexed (front_offset it) cs)"

lemma length_utf8: "length (utf8 cs) = sum_list (map len_utf8 cs)"
  by (induction cs) simp_all

lemma indexed_append: "indexed i (cs @ ds) = indexed i cs @ indexed (i + length (utf8 cs)) ds"
  by (induction cs arbitrary: i) (simp_all add: add.assoc)

lemma char_indices_nxt_law:
  "char_indices_rel it ps \<Longrightarrow> \<exists>it'. char_indices_next it = Some (head_option ps, it') \<and> char_indices_rel it' (tl ps)"
proof -
  assume "char_indices_rel it ps"
  then obtain cs where cs: "chars_rel (ci_iter it) cs" "ps = indexed (front_offset it) cs"
    by (auto simp: char_indices_rel_def)
  then show ?thesis
    by (cases cs)
      (auto simp: chars_rel_def char_indices_next_def char_indices_rel_def head_option_def Let_def intro!: exI [of _ "tl cs"])
qed

lemma char_indices_nxt_back_law:
  "char_indices_rel it ps \<Longrightarrow> \<exists>it'. char_indices_next_back it = Some (last_option ps, it') \<and> char_indices_rel it' (butlast ps)"
proof -
  assume "char_indices_rel it ps"
  then obtain cs where cs: "chars_rel (ci_iter it) cs" "ps = indexed (front_offset it) cs"
    by (auto simp: char_indices_rel_def)
  then show ?thesis
    by (cases cs rule: rev_cases)
      (auto simp: chars_rel_def char_indices_next_back_def char_indices_rel_def last_option_def indexed_append
        intro!: exI [of _ "butlast cs"])
qed

interpretation char_indices: double_ended_iterator char_indices_next char_indices_next_back char_indices_rel
  by unfold_locales (rule char_indices_nxt_law char_indices_nxt_back_law, assumption)+


section \<open>Properties\<close>

lemma str_boundaries_parts:
  assumes "valid_utf8 s"
  shows "is_char_boundary s i \<longleftrightarrow> i \<le> length s \<and> valid_utf8 (take i s)"
    and "split_at s i = (if i \<in> boundaries s then Some (take i s, drop i s) else None)"
    and "i \<in> boundaries s \<longrightarrow> valid_utf8 (take i s) \<and> valid_utf8 (drop i s)"
    and "floor_char_boundary s i = Some (Max {j \<in> boundaries s. j \<le> i})"
    and "ceil_char_boundary s i = (if i \<le> length s then Some (Min {j \<in> boundaries s. i \<le> j}) else None)"
  using is_char_boundary_iff [OF assms] floor_char_boundary_eq [OF assms] ceil_char_boundary_eq [OF assms]
    valid_utf8_boundary_drop [OF assms]
  by (auto simp: split_at_def boundaries_def ceil_char_boundary_def)

text \<open>C28: In a valid string the character boundaries that \<open>is_char_boundary\<close> finds by looking at one byte are exactly the
  positions up to which the string is valid UTF-8 by itself. \<open>split_at\<close> cuts at a boundary into two valid strings and
  panics elsewhere; \<open>floor_char_boundary\<close> is the greatest boundary that does not exceed the index, and
  \<open>ceil_char_boundary\<close> the least that is not below it, although both look at four bytes only, and only the latter
  panics, past the end.
\<close>

theorem str_boundaries:
  assumes "valid_utf8 s"
  shows "(is_char_boundary s i \<longleftrightarrow> i \<le> length s \<and> valid_utf8 (take i s)) \<and>
    split_at s i = (if i \<in> boundaries s then Some (take i s, drop i s) else None) \<and>
    (i \<in> boundaries s \<longrightarrow> valid_utf8 (take i s) \<and> valid_utf8 (drop i s)) \<and>
    floor_char_boundary s i = Some (Max {j \<in> boundaries s. j \<le> i}) \<and>
    ceil_char_boundary s i = (if i \<le> length s then Some (Min {j \<in> boundaries s. i \<le> j}) else None)"
  by ((rule conjI)?, rule str_boundaries_parts [OF assms])+

text \<open>The euro sign between two letters: bytes 1 to 3.\<close>

theorem str_boundaries_witness:
  "valid_utf8 [0x61, 0xE2, 0x82, 0xAC, 0x62] \<and> \<not> valid_utf8 (take 2 [0x61, 0xE2, 0x82, 0xAC, 0x62]) \<and>
   Max {j \<in> boundaries [0x61, 0xE2, 0x82, 0xAC, 0x62]. j \<le> 3} = 1"
proof -
  let ?s = "[0x61, 0xE2, 0x82, 0xAC, 0x62] :: u8 list"
  have "list_all is_scalar [0x61, 0x20AC, 0x62] \<and> utf8 [0x61, 0x20AC, 0x62] = ?s" by code_simp
  then have v: "valid_utf8 ?s" unfolding valid_utf8_def by metis
  have "\<not> is_char_boundary ?s 2" "floor_char_boundary ?s 3 = Some 1" by code_simp+
  then have "\<not> valid_utf8 (take 2 ?s)" "Max {j \<in> boundaries ?s. j \<le> 3} = 1"
    using str_boundaries [OF v, of 2] str_boundaries [OF v, of 3] by auto
  with v show ?thesis by blast
qed

lemma str_indexing_parts:
  assumes "valid_utf8 s"
  shows "get_range s a b = Some (if a \<le> b \<and> a \<in> boundaries s \<and> b \<in> boundaries s then Some (take (b - a) (drop a s)) else None)"
    and "a \<le> b \<and> a \<in> boundaries s \<and> b \<in> boundaries s \<longrightarrow> valid_utf8 (take (b - a) (drop a s))"
    and "get_range_to s b = get_range s 0 b"
    and "get_range_from s a = (if a \<le> length s then get_range s a (length s) else Some None)"
    and "get_range_inclusive s r =
      (if ri_end r = USIZE_MAX then Some None
       else get_range s (if exhausted r then ri_end r + 1 else ri_start r) (ri_end r + 1))"
    and "get_range_to_inclusive s b = (if b = USIZE_MAX then Some None else get_range s 0 (b + 1))"
    and "index_range s a b = (if a \<le> b \<and> a \<in> boundaries s \<and> b \<in> boundaries s then Some (take (b - a) (drop a s)) else None)"
    and "index_range_to s b = index_range s 0 b"
    and "index_range_from s a = (if a \<le> length s then index_range s a (length s) else None)"
proof -
  note b = boundaries_is_char_boundary [OF assms, symmetric]
  show g: "get_range s a b = Some (if a \<le> b \<and> a \<in> boundaries s \<and> b \<in> boundaries s then Some (take (b - a) (drop a s)) else None)"
    for a b by (auto simp: get_range_def b dest: boundaries_le)
  show "a \<le> b \<and> a \<in> boundaries s \<and> b \<in> boundaries s \<longrightarrow> valid_utf8 (take (b - a) (drop a s))"
    using valid_utf8_between [of a s b] by (auto simp: boundaries_def)
  show to: "get_range_to s b = get_range s 0 b" for b
    by (auto simp: get_range_to_def g b dest: boundaries_le)
  show from': "get_range_from s a = (if a \<le> length s then get_range s a (length s) else Some None)"
    using boundaries_length [OF assms] by (auto simp: get_range_from_def g b dest: boundaries_le)
  show "get_range_inclusive s r =
      (if ri_end r = USIZE_MAX then Some None
       else get_range s (if exhausted r then ri_end r + 1 else ri_start r) (ri_end r + 1))"
    by (simp add: get_range_inclusive_def into_slice_range_def Let_def)
  show "get_range_to_inclusive s b = (if b = USIZE_MAX then Some None else get_range s 0 (b + 1))"
    by (simp add: get_range_to_inclusive_def to)
  show "index_range s a b = (if a \<le> b \<and> a \<in> boundaries s \<and> b \<in> boundaries s then Some (take (b - a) (drop a s)) else None)"
    by (simp add: index_range_def g)
  show "index_range_to s b = index_range s 0 b"
    by (simp add: index_range_to_def index_range_def to)
  show "index_range_from s a = (if a \<le> length s then index_range s a (length s) else None)"
    by (simp add: index_range_from_def index_range_def from')
qed

text \<open>Indexing a valid string by a range of bytes is memory safe and yields valid strings: \<open>get\<close> never reads outside the
  slice, has a result exactly if the range is ordered and both its ends are boundaries, and the result is then the bytes
  between them, which are valid UTF-8. An inclusive range is the half-open one up to its end plus one, empty after it was
  exhausted, and refused at \<open>usize::MAX\<close>, where the plus one would overflow.
\<close>

theorem str_indexing:
  assumes "valid_utf8 s"
  shows "get_range s a b = Some (if a \<le> b \<and> a \<in> boundaries s \<and> b \<in> boundaries s then Some (take (b - a) (drop a s)) else None) \<and>
    (a \<le> b \<and> a \<in> boundaries s \<and> b \<in> boundaries s \<longrightarrow> valid_utf8 (take (b - a) (drop a s))) \<and>
    get_range_to s b = get_range s 0 b \<and>
    get_range_from s a = (if a \<le> length s then get_range s a (length s) else Some None) \<and>
    get_range_inclusive s r =
        (if ri_end r = USIZE_MAX then Some None
         else get_range s (if exhausted r then ri_end r + 1 else ri_start r) (ri_end r + 1)) \<and>
    get_range_to_inclusive s b = (if b = USIZE_MAX then Some None else get_range s 0 (b + 1)) \<and>
    index_range s a b = (if a \<le> b \<and> a \<in> boundaries s \<and> b \<in> boundaries s then Some (take (b - a) (drop a s)) else None) \<and>
    index_range_to s b = index_range s 0 b \<and>
    index_range_from s a = (if a \<le> length s then index_range s a (length s) else None)"
  by ((rule conjI)?, rule str_indexing_parts [OF assms])+

text \<open>An inclusive range of the string of the euro sign.\<close>

theorem str_indexing_witness:
  "valid_utf8 [0xE2, 0x82, 0xAC] \<and>
   get_range [0xE2, 0x82, 0xAC] 0 3 = Some (Some [0xE2, 0x82, 0xAC]) \<and> get_range_to [0xE2, 0x82, 0xAC] 2 = Some None"
proof -
  have "list_all is_scalar [0x20AC] \<and> utf8 [0x20AC] = [0xE2, 0x82, 0xAC]" by code_simp
  then have v: "valid_utf8 [0xE2, 0x82, 0xAC]" unfolding valid_utf8_def by metis
  have "get_range [0xE2, 0x82, 0xAC] 0 3 = Some (Some [0xE2, 0x82, 0xAC])" "get_range [0xE2, 0x82, 0xAC] 0 2 = Some None"
    by code_simp+
  moreover have "get_range_to [0xE2, 0x82, 0xAC] 2 = get_range [0xE2, 0x82, 0xAC] 0 2" using str_indexing [OF v] by blast
  ultimately show ?thesis using v by simp
qed

lemma str_iterators_are_deques_parts:
  assumes "list_all is_scalar cs"
  shows "iter_run chars_next chars_next_back ops (utf8 cs) =
      Some (fst (deque_run ops cs), utf8 (snd (deque_run ops cs)))"
    and "\<exists>it. iter_run char_indices_next char_indices_next_back ops (char_indices_new (utf8 cs)) =
        Some (fst (deque_run ops (indexed 0 cs)), it) \<and>
      ci_iter it = utf8 (map snd (snd (deque_run ops (indexed 0 cs))))"
proof -
  have rel: "chars_rel (utf8 cs) cs" using assms by (simp add: chars_rel_def)
  then show "iter_run chars_next chars_next_back ops (utf8 cs) = Some (fst (deque_run ops cs), utf8 (snd (deque_run ops cs)))"
    using chars.run_refines_deque [of "utf8 cs" cs ops] by (auto simp: chars_rel_def)
  have snd: "map snd (indexed i ds) = ds" for i ds by (induction ds arbitrary: i) simp_all
  have "char_indices_rel (char_indices_new (utf8 cs)) (indexed 0 cs)"
    using rel by (auto simp: char_indices_rel_def char_indices_new_def)
  from char_indices.run_refines_deque [OF this, of ops]
  show "\<exists>it. iter_run char_indices_next char_indices_next_back ops (char_indices_new (utf8 cs)) =
        Some (fst (deque_run ops (indexed 0 cs)), it) \<and>
      ci_iter it = utf8 (map snd (snd (deque_run ops (indexed 0 cs))))"
    by (auto simp: char_indices_rel_def chars_rel_def snd)
qed

text \<open>C24: \<open>Chars\<close> and \<open>CharIndices\<close> over a valid string are deques of its characters, whatever the order in which \<open>next\<close>
  and \<open>next_back\<close> are called: every call takes a character from its end of what is left, with the byte position it
  starts at, the iterator is fused, no call runs off the bytes or makes a \<open>char\<close> that is no scalar value, and the bytes
  that are left are the encoding of the characters that are left.
\<close>

theorem str_iterators_are_deques:
  assumes "list_all is_scalar cs"
  shows "iter_run chars_next chars_next_back ops (utf8 cs) =
        Some (fst (deque_run ops cs), utf8 (snd (deque_run ops cs))) \<and>
    (\<exists>it. iter_run char_indices_next char_indices_next_back ops (char_indices_new (utf8 cs)) =
          Some (fst (deque_run ops (indexed 0 cs)), it) \<and>
        ci_iter it = utf8 (map snd (snd (deque_run ops (indexed 0 cs)))))"
  by ((rule conjI)?, rule str_iterators_are_deques_parts [OF assms])+

text \<open>One character from the front and one from the back.\<close>

theorem str_iterators_are_deques_witness:
  "list_all is_scalar [0x61, 0x20AC, 0xE9] \<and>
   iter_run chars_next chars_next_back [Front, Back, Front, Back] (utf8 [0x61, 0x20AC, 0xE9]) =
     Some ([Some 0x61, Some 0xE9, Some 0x20AC, None], [])"
proof -
  have "list_all is_scalar [0x61, 0x20AC, 0xE9]" by code_simp
  with conjunct1 [OF str_iterators_are_deques [OF this, of "[Front, Back, Front, Back]"]] show ?thesis
    by (simp add: head_option_def last_option_def)
qed

end
