(* ===== verification/Utf8_Count.thy ===== *)
theory Utf8_Count
  imports Utf8_Str
begin

text \<open>
  Counting the characters of a string, from \<open>library/core/src/str/count.rs\<close>: the direct count of the bytes that are no
  continuation bytes, and the optimised one that works on aligned words of eight bytes, adds up to 192 of them lane by
  lane and sums the lanes by a multiplication. The split into aligned words is \<open>align_to\<close> of
  \<open>library/core/src/slice/mod.rs\<close>, with its binary greatest common divisor. \<open>align\<close> is what \<open>align_offset\<close> says of the
  pointer to the slice (\<open>usize::MAX\<close> where it gives up); words are little-endian.
\<close>

section \<open>Splitting a slice at aligned words\<close>

fun cttz_nonzero :: "nat \<Rightarrow> nat" where
  "cttz_nonzero n = (if n = 0 \<or> odd n then 0 else Suc (cttz_nonzero (n div 2)))"

declare cttz_nonzero.simps [simp del]

lemma cttz_pow: "2 ^ cttz_nonzero n * (n div 2 ^ cttz_nonzero n) = n"
proof (induction n rule: cttz_nonzero.induct)
  case (1 n)
  then show ?case
    by (subst (1 2) cttz_nonzero.simps) (auto simp: div_mult2_eq elim!: evenE)
qed

lemma odd_shifted: "n \<noteq> 0 \<Longrightarrow> odd (n div 2 ^ cttz_nonzero n)"
proof (induction n rule: cttz_nonzero.induct)
  case (1 n)
  then show ?case by (subst cttz_nonzero.simps) (auto simp: div_mult2_eq elim!: evenE)
qed

text \<open>The iterative Stein algorithm. The loop has no bound in the source.\<close>

partial_function (option) gcd_loop :: "nat \<Rightarrow> nat \<Rightarrow> nat \<Rightarrow> nat option" where
  "gcd_loop a b ctz_b =
     (let b = b div 2 ^ ctz_b;
          (a, b) = (if b < a then (b, a) else (a, b));
          b = b - a
      in if b = 0 then Some a else gcd_loop a b (cttz_nonzero b))"

declare gcd_loop.simps [code]

definition stein_gcd :: "nat \<Rightarrow> nat \<Rightarrow> nat option" where
  "stein_gcd a b =
     (if a = 0 then Some b else if b = 0 then Some a
      else do {
        let ctz_a = cttz_nonzero a;
        let ctz_b = cttz_nonzero b;
        let k = min ctz_a ctz_b;
        g \<leftarrow> gcd_loop (a div 2 ^ ctz_a) b ctz_b;
        Some (g * 2 ^ k)
      })"

definition align_to_offsets :: "nat \<Rightarrow> nat \<Rightarrow> nat \<Rightarrow> (nat \<times> nat) option" where
  "align_to_offsets size_t size_u len = do {
     g \<leftarrow> stein_gcd size_t size_u;
     let ts = size_u div g;
     let us = size_t div g;
     Some (len div ts * us, len mod ts)
   }"

text \<open>\<open>align_to::<usize>\<close> on bytes. The words are read from memory one by one.\<close>

definition align_to_usize :: "nat \<Rightarrow> u8 list \<Rightarrow> (u8 list \<times> u64 list \<times> u8 list) option" where
  "align_to_usize offset s =
     (if length s < offset then Some (s, [], [])
      else do {
        let left = take offset s;
        let rest = drop offset s;
        (us_len, ts_len) \<leftarrow> align_to_offsets 1 8 (length rest);
        body \<leftarrow> those (map (\<lambda>k. read_usize_at rest (8 * k)) [0..<us_len]);
        d \<leftarrow> checked_sub (length rest) ts_len;
        tail \<leftarrow> slice rest d (d + ts_len);
        Some (left, body, tail)
      })"


section \<open>The count\<close>

definition char_count_general_case :: "u8 list \<Rightarrow> nat" where
  "char_count_general_case s = length (filter (\<lambda>byte. \<not> utf8_is_cont_byte byte) s)"

definition contains_non_continuation_byte :: "u64 \<Rightarrow> u64" where
  "contains_non_continuation_byte w = (drop_bit 7 (NOT w) OR drop_bit 6 w) AND 0x0101010101010101"

definition sum_bytes_in_usize :: "u64 \<Rightarrow> u64" where
  "sum_bytes_in_usize vals =
     (let SKIP_BYTES = 0x00FF00FF00FF00FF; LSB_SHORTS = 0x0001000100010001;
          pair_sum = (vals AND SKIP_BYTES) + (drop_bit 8 vals AND SKIP_BYTES)
      in drop_bit ((8 - 2) * 8) (pair_sum * LSB_SHORTS))"

text \<open>\<open>chunks\<close> and \<open>as_chunks\<close> of slices, for a positive size.\<close>

function chunks :: "nat \<Rightarrow> 'a list \<Rightarrow> 'a list list" where
  "chunks n xs = (if xs = [] \<or> n = 0 then [] else take n xs # chunks n (drop n xs))"
  by pat_completeness auto
termination by (relation "measure (\<lambda>(n, xs). length xs)") auto

declare chunks.simps [simp del]

definition as_chunks :: "nat \<Rightarrow> 'a list \<Rightarrow> 'a list list \<times> 'a list" where
  "as_chunks n xs = (let m = length xs div n * n in (chunks n (take m xs), drop m xs))"

abbreviation UNROLL_INNER :: nat where "UNROLL_INNER \<equiv> 4"
abbreviation CHUNK_SIZE :: nat where "CHUNK_SIZE \<equiv> 192"

definition add_words :: "u64 list \<Rightarrow> u64 \<Rightarrow> u64" where
  "add_words ws counts = fold (\<lambda>word counts. counts + contains_non_continuation_byte word) ws counts"

fun count_chunks :: "u64 list list \<Rightarrow> nat \<Rightarrow> nat" where
  "count_chunks [] tot = tot"
| "count_chunks (chunk # rest) tot =
     (let (unrolled_chunks, remainder) = as_chunks UNROLL_INNER chunk;
          counts = fold add_words unrolled_chunks 0;
          tot = tot + unat (sum_bytes_in_usize counts)
      in if remainder \<noteq> []
         then (let counts = add_words remainder 0 in tot + unat (sum_bytes_in_usize counts))
         else count_chunks rest tot)"

definition do_count_chars :: "nat \<Rightarrow> u8 list \<Rightarrow> nat option" where
  "do_count_chars align s = do {
     (head, body, tail) \<leftarrow> align_to_usize align s;
     if body = [] \<or> 8 < length head \<or> 8 < length tail then Some (char_count_general_case s)
     else do {
       let tot = char_count_general_case head + char_count_general_case tail;
       Some (count_chunks (chunks CHUNK_SIZE body) tot)
     }
   }"

definition count_chars :: "nat \<Rightarrow> u8 list \<Rightarrow> nat option" where
  "count_chars align s =
     (if length s < 8 * UNROLL_INNER then Some (char_count_general_case s) else do_count_chars align s)"


section \<open>The binary greatest common divisor\<close>

lemma gcd_two_power: "odd a \<Longrightarrow> gcd a (2 ^ k * b) = gcd a b" for a b :: nat
  by (rule gcd_mult_right_left_cancel) simp

lemma gcd_loop_eq: "odd a \<Longrightarrow> b \<noteq> 0 \<Longrightarrow> gcd_loop a b (cttz_nonzero b) = Some (gcd a b)"
proof (induction "a + b" arbitrary: a b rule: less_induct)
  case less
  let ?b = "b div 2 ^ cttz_nonzero b"
  have b: "odd ?b" "gcd a b = gcd a ?b" "?b \<le> b"
    using odd_shifted less.prems gcd_two_power [of a "cttz_nonzero b" ?b] cttz_pow [of b] by auto
  define x y where "x = min a ?b" and "y = max a ?b - x"
  have x: "odd x" "0 < x" using less.prems(1) b(1) unfolding x_def by (auto simp: min_def odd_pos)
  have "gcd m n = gcd m (n - m)" if "m \<le> n" for m n :: nat using gcd_diff1_nat [OF that] by (simp add: gcd.commute)
  from this [of a ?b] this [of ?b a] have xy: "gcd a b = gcd x y"
    unfolding b(2) x_def y_def by (cases "a \<le> ?b") (simp_all add: gcd.commute)
  have step: "gcd_loop a b (cttz_nonzero b) = (if y = 0 then Some x else gcd_loop x y (cttz_nonzero y))"
    by (subst gcd_loop.simps) (auto simp: Let_def x_def y_def min_def max_def)
  have "x + y = max a ?b" "0 < a" "0 < ?b" using odd_pos [OF b(1)] odd_pos [OF less.prems(1)] by (simp_all add: x_def y_def)
  then have "x + y < a + b" using b(3) by linarith
  with less.hyps [OF this x(1)] xy step show ?case by auto
qed

lemma stein_gcd_eq: "stein_gcd a b = Some (gcd a b)"
proof (cases "a = 0 \<or> b = 0")
  case False
  define i j where "i = cttz_nonzero a" and "j = cttz_nonzero b"
  define x y where "x = a div 2 ^ i" and "y = b div 2 ^ j"
  have xy: "a = 2 ^ i * x" "b = 2 ^ j * y" "odd x" "odd y"
    using cttz_pow odd_shifted False unfolding i_def j_def x_def y_def by auto
  have pow: "2 ^ n * z = 2 ^ m * (2 ^ (n - m) * z)" if "m \<le> n" for m n z :: nat
    using that by (simp add: power_add [symmetric] mult.assoc [symmetric])
  have "gcd (2 ^ i * x) (2 ^ j * y) = gcd x y * 2 ^ min i j"
  proof (cases "i \<le> j")
    case True
    then show ?thesis unfolding pow [OF True] using gcd_two_power [OF xy(3)] by (simp add: gcd_mult_left)
  next
    case False
    then have "j \<le> i" by simp
    then show ?thesis unfolding pow [OF \<open>j \<le> i\<close>] using gcd_two_power [OF xy(4)] by (simp add: gcd_mult_left gcd.commute)
  qed
  moreover have "gcd_loop x b j = Some (gcd x y)"
    using gcd_loop_eq [of x b] gcd_two_power [OF xy(3), of j y] xy False unfolding j_def by simp
  moreover have "stein_gcd a b = gcd_loop x b j \<bind> (\<lambda>g. Some (g * 2 ^ min i j))"
    using False by (simp add: stein_gcd_def Let_def i_def j_def x_def)
  ultimately show ?thesis using xy(1,2) by simp
qed (auto simp: stein_gcd_def)


section \<open>Words as lanes of bytes\<close>

definition lanes :: "nat list \<Rightarrow> nat" where
  "lanes ls = foldr (\<lambda>a n. a + 256 * n) ls 0"

lemma lanes_simps [simp]: "lanes [] = 0" "lanes (a # ls) = a + 256 * lanes ls"
  by (simp_all add: lanes_def)

lemma lanes_map2: "length ls = length ms \<Longrightarrow> lanes (map2 (+) ls ms) = lanes ls + lanes ms"
  by (induction ls ms rule: list_induct2) simp_all

lemma word_of_bytes_simps: "word_of_bytes [] = 0" "word_of_bytes (b # bs) = ucast b OR push_bit 8 (word_of_bytes bs)"
  by (simp_all add: word_of_bytes_def)

lemma word_of_bytes_lanes: "word_of_bytes bs = word_of_nat (lanes (map unat bs))"
proof (induction bs)
  case (Cons b bs)
  have "(ucast b :: u64) OR push_bit 8 (word_of_bytes bs) = ucast b + push_bit 8 (word_of_bytes bs)"
    by (rule disjunctive_add [symmetric]) (auto simp: bit_unsigned_iff bit_push_bit_iff dest: bit_imp_le_length)
  then show ?case using Cons.IH by (simp add: word_of_bytes_simps push_bit_eq_mult)
qed (simp add: word_of_bytes_simps)

lemma bit_word_of_bytes_iff:
  "bit (word_of_bytes bs) n \<longleftrightarrow> n < 64 \<and> n div 8 < length bs \<and> bit (bs ! (n div 8)) (n mod 8)"
proof (induction bs arbitrary: n)
  case (Cons b bs)
  show ?case
  proof (cases "n < 8")
    case True
    then show ?thesis by (simp add: word_of_bytes_simps bit_or_iff bit_push_bit_iff bit_unsigned_iff)
  next
    case False
    then have "n div 8 = Suc ((n - 8) div 8)" "(n - 8) mod 8 = n mod 8" by (simp_all add: le_div_geq le_mod_geq)
    moreover have "\<not> bit b n" using False bit_imp_le_length [of b n] by auto
    ultimately show ?thesis using False Cons.IH [of "n - 8"]
      by (auto simp: word_of_bytes_simps bit_or_iff bit_push_bit_iff bit_unsigned_iff)
  qed
qed (simp add: word_of_bytes_simps)

lemma all_below_64: "list_all P [0..<64] \<Longrightarrow> n < 64 \<Longrightarrow> P n"
  by (simp add: list_all_iff)

lemma bits_LSB: "n < 64 \<Longrightarrow> bit (0x0101010101010101 :: u64) n \<longleftrightarrow> n mod 8 = 0"
  by (rule all_below_64) code_simp

lemma bits_SKIP: "n < 64 \<Longrightarrow> bit (0x00FF00FF00FF00FF :: u64) n \<longleftrightarrow> even (n div 8)"
  by (rule all_below_64) code_simp

definition lead :: "u8 \<Rightarrow> u8" where
  "lead b = (if utf8_is_cont_byte b then 0 else 1)"

lemma lead_bits: "bit (lead b) n \<longleftrightarrow> n = 0 \<and> (\<not> bit b 7 \<or> bit b 6)"
proof -
  have "list_all (\<lambda>m. utf8_is_cont_byte (word_of_nat m) = (bit (word_of_nat m :: u8) 7 \<and> \<not> bit (word_of_nat m :: u8) 6)) [0..<256]"
    by code_simp
  from all_u8 [OF this, of b] show ?thesis by (simp add: lead_def bit_1_iff)
qed

lemma contains_non_continuation_byte_lanes:
  assumes "length bs = 8"
  shows "contains_non_continuation_byte (word_of_bytes bs) = word_of_bytes (map lead bs)"
proof (rule bit_word_eqI)
  fix n assume "n < LENGTH(64)"
  then have n: "n < 64" by simp
  show "bit (contains_non_continuation_byte (word_of_bytes bs)) n = bit (word_of_bytes (map lead bs)) n"
  proof (cases "n mod 8 = 0")
    case True
    then obtain k where k: "n = 8 * k" by auto
    then have "(7 + n) div 8 = k" "(7 + n) mod 8 = 7" "(6 + n) div 8 = k" "(6 + n) mod 8 = 6" "n div 8 = k" "k < 8" "7 + n < 64" "6 + n < 64"
      using n by simp_all
    then show ?thesis using assms n k bits_LSB [OF n]
      by (auto simp: contains_non_continuation_byte_def bit_and_iff bit_or_iff bit_drop_bit_eq bit_not_iff bit_word_of_bytes_iff lead_bits)
  next
    case False
    then show ?thesis using n bits_LSB [OF n]
      by (auto simp: contains_non_continuation_byte_def bit_and_iff bit_word_of_bytes_iff lead_bits)
  qed
qed

text \<open>The sum of the lanes.\<close>

lemma u64_lanes_eqI:
  fixes v w :: u64
  assumes "\<And>k m. k \<in> {0, 1, 2, 3, 4, 5, 6, 7} \<Longrightarrow> m < 8 \<Longrightarrow> bit v (8 * k + m) = bit w (8 * k + m)"
  shows "v = w"
proof (rule bit_word_eqI)
  fix n assume "n < LENGTH(64)"
  then have "n div 8 < 8" by simp
  moreover have "k < 8 \<Longrightarrow> k \<in> {0, 1, 2, 3, 4, 5, 6, 7}" for k :: nat by auto
  ultimately have "n div 8 \<in> {0, 1, 2, 3, 4, 5, 6, 7}" by blast
  from assms [OF this, of "n mod 8"] show "bit v n = bit w n" by simp
qed

lemma bit_lane:
  assumes "k \<in> {0, 1, 2, 3, 4, 5, 6, 7}" "m < 8"
  shows "bit (word_of_bytes bs) (8 * k + m) \<longleftrightarrow> k < length bs \<and> bit (bs ! k) m"
    and "bit (drop_bit 8 (word_of_bytes bs)) (8 * k + m) \<longleftrightarrow> k < 7 \<and> Suc k < length bs \<and> bit (bs ! Suc k) m"
    and "bit (0x00FF00FF00FF00FF :: u64) (8 * k + m) \<longleftrightarrow> even k"
proof -
  have k: "k < 8" using assms(1) by auto
  then have n: "8 * k + m < 64" "(8 * k + m) div 8 = k" "(8 * k + m) mod 8 = m" using assms(2) by simp_all
  then show "bit (word_of_bytes bs) (8 * k + m) \<longleftrightarrow> k < length bs \<and> bit (bs ! k) m"
    "bit (0x00FF00FF00FF00FF :: u64) (8 * k + m) \<longleftrightarrow> even k"
    using bits_SKIP [OF n(1)] by (simp_all add: bit_word_of_bytes_iff)
  have "8 + (8 * k + m) = 8 * Suc k + m" by simp
  moreover have "(8 * Suc k + m) div 8 = Suc k" "(8 * Suc k + m) mod 8 = m"
    using assms(2) div_mult_self2 [of 8 m "Suc k"] mod_mult_self2 [of m 8 "Suc k"] by (simp_all add: add.commute)
  moreover have "8 * Suc k + m < 64 \<longleftrightarrow> k < 7" using assms(2) by (cases "k < 7") simp_all
  ultimately show "bit (drop_bit 8 (word_of_bytes bs)) (8 * k + m) \<longleftrightarrow> k < 7 \<and> Suc k < length bs \<and> bit (bs ! Suc k) m"
    unfolding bit_drop_bit_eq comp_def bit_word_of_bytes_iff by (simp only:)
qed

lemma skip_bytes:
  assumes "length bs = 8"
  shows "word_of_bytes bs AND 0x00FF00FF00FF00FF = word_of_bytes [bs ! 0, 0, bs ! 2, 0, bs ! 4, 0, bs ! 6, 0]"
    and "drop_bit 8 (word_of_bytes bs) AND 0x00FF00FF00FF00FF = word_of_bytes [bs ! 1, 0, bs ! 3, 0, bs ! 5, 0, bs ! 7, 0]"
proof -
  show "word_of_bytes bs AND 0x00FF00FF00FF00FF = word_of_bytes [bs ! 0, 0, bs ! 2, 0, bs ! 4, 0, bs ! 6, 0]"
    by (rule u64_lanes_eqI) (simp only: bit_and_iff bit_lane, auto simp: assms)
  show "drop_bit 8 (word_of_bytes bs) AND 0x00FF00FF00FF00FF = word_of_bytes [bs ! 1, 0, bs ! 3, 0, bs ! 5, 0, bs ! 7, 0]"
    by (rule u64_lanes_eqI) (simp only: bit_and_iff bit_lane, auto simp: assms)
qed

lemma sum_digits:
  fixes p0 p1 p2 p3 :: nat
  assumes "p0 \<le> 510" "p1 \<le> 510" "p2 \<le> 510" "p3 \<le> 510"
  shows "(p0 + 2 ^ 16 * p1 + 2 ^ 32 * p2 + 2 ^ 48 * p3) * 0x0001000100010001 mod 2 ^ 64 div 2 ^ 48 = p0 + p1 + p2 + p3"
proof -
  define r where "r = p1 + p2 + p3 + 2 ^ 16 * (p2 + p3) + 2 ^ 32 * p3"
  define l where "l = p0 + 2 ^ 16 * (p0 + p1) + 2 ^ 32 * (p0 + p1 + p2)"
  have "(p0 + 2 ^ 16 * p1 + 2 ^ 32 * p2 + 2 ^ 48 * p3) * 0x0001000100010001 = l + 2 ^ 48 * (p0 + p1 + p2 + p3) + 2 ^ 64 * r"
    unfolding r_def l_def by (simp add: algebra_simps)
  moreover have l: "l < 2 ^ 48" and "p0 + p1 + p2 + p3 < 2 ^ 16" using assms unfolding l_def by simp_all
  then have q: "l + 2 ^ 48 * (p0 + p1 + p2 + p3) < 2 ^ 64" by simp
  have "(l + 2 ^ 48 * (p0 + p1 + p2 + p3) + 2 ^ 64 * r) mod 2 ^ 64 = l + 2 ^ 48 * (p0 + p1 + p2 + p3)"
    unfolding mod_mult_self2 using q by (rule mod_less)
  moreover have "(l + 2 ^ 48 * (p0 + p1 + p2 + p3)) div 2 ^ 48 = p0 + p1 + p2 + p3"
    using l by (subst div_mult_self2) simp_all
  ultimately show ?thesis by metis
qed

lemma two_lanes: "a < 256 \<Longrightarrow> b < 256 \<Longrightarrow> a + b \<le> 510" for a b :: nat
  by simp

lemma sum_bytes_lanes:
  assumes "length ls = 8" "\<And>a. a \<in> set ls \<Longrightarrow> a < 256"
  shows "unat (sum_bytes_in_usize (word_of_nat (lanes ls))) = sum_list ls"
proof -
  obtain a b c d e f g h where ls: "ls = [a, b, c, d, e, f, g, h]"
    using assms(1) by (auto simp: length_Suc_conv numeral_eq_Suc)
  let ?bs = "map word_of_nat ls :: u8 list"
  have small: "unat (word_of_nat x :: u8) = x" if "x \<in> set ls" for x
    using assms(2) [OF that] by (simp add: unat_of_nat take_bit_eq_mod)
  have len: "length ?bs = 8" by (simp add: assms(1))
  have "map unat ?bs = ls" using small by (auto intro: map_idI)
  then have w: "word_of_nat (lanes ls) = word_of_bytes ?bs" by (simp add: word_of_bytes_lanes)
  have v: "word_of_nat (lanes ls) AND 0x00FF00FF00FF00FF = (word_of_nat (a + 2 ^ 16 * c + 2 ^ 32 * e + 2 ^ 48 * g) :: u64)"
      "drop_bit 8 (word_of_nat (lanes ls)) AND 0x00FF00FF00FF00FF = (word_of_nat (b + 2 ^ 16 * d + 2 ^ 32 * f + 2 ^ 48 * h) :: u64)"
    unfolding w skip_bytes [OF len] unfolding word_of_bytes_lanes using small by (simp_all add: ls algebra_simps)
  let ?p = "(a + b) + 2 ^ 16 * (c + d) + 2 ^ 32 * (e + f) + 2 ^ 48 * (g + h)"
  have "sum_bytes_in_usize (word_of_nat (lanes ls)) = drop_bit 48 (word_of_nat (?p * 0x0001000100010001))"
    unfolding sum_bytes_in_usize_def Let_def v by (simp add: algebra_simps)
  moreover have "unat (drop_bit 48 (word_of_nat n :: u64)) = n mod 2 ^ 64 div 2 ^ 48" for n
    unfolding unat_drop_bit_eq unat_of_nat by (simp add: drop_bit_eq_div take_bit_eq_mod)
  ultimately have "unat (sum_bytes_in_usize (word_of_nat (lanes ls))) = ?p * 0x0001000100010001 mod 2 ^ 64 div 2 ^ 48"
    by presburger
  also have "\<dots> = a + b + (c + d) + (e + f) + (g + h)"
    by (rule sum_digits) (use assms(2) ls in \<open>simp_all add: two_lanes\<close>)
  finally show ?thesis using ls by simp
qed


section \<open>The optimised count is the direct one\<close>

definition word_lanes :: "u8 list \<Rightarrow> nat list" where
  "word_lanes bs = map (unat \<circ> lead) bs"

lemma length_word_lanes [simp]: "length (word_lanes bs) = length bs"
  by (simp add: word_lanes_def)

lemma sum_word_lanes: "sum_list (word_lanes bs) = char_count_general_case bs"
  by (induction bs) (simp_all add: word_lanes_def char_count_general_case_def lead_def)

lemma word_lanes_le: "a \<in> set (word_lanes bs) \<Longrightarrow> a \<le> 1"
  by (auto simp: word_lanes_def lead_def)

text \<open>The lanes that the loops have added up after some words.\<close>

definition lane_sums :: "u8 list list \<Rightarrow> nat list \<Rightarrow> nat list" where
  "lane_sums bss ls = fold (\<lambda>bs ls. map2 (+) ls (word_lanes bs)) bss ls"

lemma lane_sums_simps [simp]:
  "lane_sums [] ls = ls" "lane_sums (bs # bss) ls = lane_sums bss (map2 (+) ls (word_lanes bs))"
  by (simp_all add: lane_sums_def)

lemma sum_map2: "length ls = length ms \<Longrightarrow> sum_list (map2 (+) ls ms) = sum_list ls + sum_list ms" for ls :: "nat list"
  by (induction ls ms rule: list_induct2) simp_all

lemma map2_le:
  "length ls = length ms \<Longrightarrow> (\<And>a. a \<in> set ls \<Longrightarrow> a \<le> m) \<Longrightarrow> (\<And>a. a \<in> set ms \<Longrightarrow> a \<le> k) \<Longrightarrow>
    a \<in> set (map2 (+) ls ms) \<Longrightarrow> a \<le> m + k" for ls :: "nat list"
  by (induction ls ms arbitrary: a rule: list_induct2) (auto intro: add_mono)

lemma add_words_lanes:
  "list_all (\<lambda>bs. length bs = 8) bss \<Longrightarrow> length ls = 8 \<Longrightarrow>
     add_words (map word_of_bytes bss) (word_of_nat (lanes ls)) = word_of_nat (lanes (lane_sums bss ls))"
proof (induction bss arbitrary: ls)
  case (Cons bs bss)
  have "contains_non_continuation_byte (word_of_bytes bs) = word_of_nat (lanes (word_lanes bs))"
    using Cons.prems(1) contains_non_continuation_byte_lanes [of bs] word_of_bytes_lanes [of "map lead bs"]
    by (simp add: word_lanes_def)
  then have "add_words (map word_of_bytes (bs # bss)) (word_of_nat (lanes ls)) =
      add_words (map word_of_bytes bss) (word_of_nat (lanes (map2 (+) ls (word_lanes bs))))"
    using Cons.prems by (simp add: add_words_def lanes_map2)
  with Cons show ?case by simp
qed (simp add: add_words_def)

lemma lane_sums_spec:
  "list_all (\<lambda>bs. length bs = 8) bss \<Longrightarrow> length ls = 8 \<Longrightarrow> (\<And>a. a \<in> set ls \<Longrightarrow> a \<le> m) \<Longrightarrow>
     length (lane_sums bss ls) = 8 \<and> sum_list (lane_sums bss ls) = sum_list ls + char_count_general_case (concat bss) \<and>
     (\<forall>a \<in> set (lane_sums bss ls). a \<le> m + length bss)"
proof (induction bss arbitrary: ls m)
  case Nil
  then show ?case by (simp add: char_count_general_case_def)
next
  case (Cons bs bss)
  let ?ls = "map2 (+) ls (word_lanes bs)"
  have "a \<le> m + 1" if "a \<in> set ?ls" for a
    by (rule map2_le [OF _ _ _ that]) (use Cons.prems word_lanes_le in auto)
  with Cons.IH [of ?ls "m + 1"] Cons.prems show ?case
    by (simp add: sum_map2 sum_word_lanes char_count_general_case_def)
qed

lemma add_words_count:
  assumes "list_all (\<lambda>bs. length bs = 8) bss" "length bss < 256"
  shows "unat (sum_bytes_in_usize (add_words (map word_of_bytes bss) 0)) = char_count_general_case (concat bss)"
proof -
  have zero: "(0 :: u64) = word_of_nat (lanes (replicate 8 0))" by (simp add: numeral_eq_Suc)
  have "length (lane_sums bss (replicate 8 0)) = 8 \<and>
      sum_list (lane_sums bss (replicate 8 0)) = sum_list (replicate 8 0) + char_count_general_case (concat bss) \<and>
     (\<forall>a \<in> set (lane_sums bss (replicate 8 0)). a \<le> 0 + length bss)"
    using assms(1) by (intro lane_sums_spec) auto
  then show ?thesis unfolding zero add_words_lanes [OF assms(1), of "replicate 8 0", simplified length_replicate, OF refl]
    using assms(2) by (subst sum_bytes_lanes) auto
qed

lemma concat_chunks: "0 < n \<Longrightarrow> concat (chunks n xs) = xs"
  by (induction n xs rule: chunks.induct) (subst chunks.simps, auto)

lemma map_chunks: "chunks n (map f xs) = map (map f) (chunks n xs)"
  by (induction n xs rule: chunks.induct) (subst (1 2) chunks.simps, auto simp: take_map drop_map)

lemma fold_add_words: "fold add_words wss c = add_words (concat wss) c"
  by (induction wss arbitrary: c) (simp_all add: add_words_def)

lemma as_chunks_concat: "0 < n \<Longrightarrow> as_chunks n xs = (us, r) \<Longrightarrow> concat us = take (length xs div n * n) xs \<and> r = drop (length xs div n * n) xs"
  by (auto simp: as_chunks_def Let_def concat_chunks)

lemma count_chunks_spec:
  "list_all (\<lambda>bs. length bs = 8) bss \<Longrightarrow>
     count_chunks (chunks CHUNK_SIZE (map word_of_bytes bss)) tot = tot + char_count_general_case (concat bss)"
proof (induction CHUNK_SIZE bss arbitrary: tot rule: chunks.induct)
  case (1 bss)
  show ?case
  proof (cases "bss = []")
    case False
    define xs ys where "xs = take CHUNK_SIZE bss" and "ys = drop CHUNK_SIZE bss"
    have bss: "bss = xs @ ys" by (simp add: xs_def ys_def)
    let ?m = "length xs div UNROLL_INNER * UNROLL_INNER"
    obtain us r where ch: "as_chunks UNROLL_INNER (map word_of_bytes xs) = (us, r)" by (cases "as_chunks UNROLL_INNER (map word_of_bytes xs)")
    then have us: "concat us = map word_of_bytes (take ?m xs)" and r: "r = map word_of_bytes (drop ?m xs)"
      using as_chunks_concat [OF _ ch] by (simp_all add: take_map drop_map)
    have len: "list_all (\<lambda>bs. length bs = 8) xs" "list_all (\<lambda>bs. length bs = 8) ys" "length xs \<le> 192"
      using "1.prems" unfolding xs_def ys_def by (auto simp: list_all_iff dest: in_set_takeD in_set_dropD)
    then have parts: "list_all (\<lambda>bs. length bs = 8) (take ?m xs)" "list_all (\<lambda>bs. length bs = 8) (drop ?m xs)"
      by (auto simp: list_all_iff dest: in_set_takeD in_set_dropD)
    have counts: "unat (sum_bytes_in_usize (fold add_words us 0)) = char_count_general_case (concat (take ?m xs))"
        "unat (sum_bytes_in_usize (add_words r 0)) = char_count_general_case (concat (drop ?m xs))"
      unfolding fold_add_words us r using parts len(3) by (auto intro!: add_words_count)
    have whole: "char_count_general_case (concat xs) =
        char_count_general_case (concat (take ?m xs)) + char_count_general_case (concat (drop ?m xs))"
      unfolding char_count_general_case_def by (metis append_take_drop_id concat_append filter_append length_append)
    have step: "count_chunks (chunks CHUNK_SIZE (map word_of_bytes bss)) tot =
        count_chunks (map word_of_bytes xs # chunks CHUNK_SIZE (map word_of_bytes ys)) tot"
      using False by (subst chunks.simps) (simp add: xs_def ys_def take_map drop_map)
    show ?thesis
    proof (cases "r = []")
      case True
      then have "drop ?m xs = []" using r by simp
      with whole have xs: "char_count_general_case (concat xs) = char_count_general_case (concat (take ?m xs))"
        by (simp add: char_count_general_case_def)
      have IH: "count_chunks (chunks CHUNK_SIZE (map word_of_bytes ys)) t = t + char_count_general_case (concat ys)" for t
        unfolding ys_def by (rule "1.hyps") (use False len(2) in \<open>simp_all add: ys_def\<close>)
      have "char_count_general_case (concat bss) = char_count_general_case (concat xs) + char_count_general_case (concat ys)"
        unfolding bss by (simp add: char_count_general_case_def)
      with True xs counts(1) ch show ?thesis unfolding step by (simp add: IH)
    next
      case rest: False
      then have "length xs < 192" using r len(3) by (cases "length xs = 192") auto
      then have "ys = []" by (simp add: xs_def ys_def)
      then have "bss = xs" using bss by simp
      with rest whole counts ch show ?thesis unfolding step by simp
    qed
  qed (subst chunks.simps, simp add: char_count_general_case_def)
qed

lemma concat_blocks: "8 * n \<le> length xs \<Longrightarrow> concat (map (\<lambda>k. take 8 (drop (8 * k) xs)) [0..<n]) = take (8 * n) xs"
proof (induction n)
  case (Suc n)
  then have "take (8 * Suc n) xs = take (8 * n) xs @ take 8 (drop (8 * n) xs)"
    using take_add [of "8 * n" 8 xs] by (simp add: add.commute)
  with Suc show ?case by simp
qed simp

lemma align_to_usize_spec:
  "\<exists>head bss tail. align_to_usize offset s = Some (head, map word_of_bytes bss, tail) \<and>
     list_all (\<lambda>bs. length bs = 8) bss \<and> s = head @ concat bss @ tail \<and> (length tail < 8 \<or> bss = [])"
proof (cases "length s < offset")
  case True
  then show ?thesis by (intro exI [of _ s] exI [of _ "[]"]) (simp add: align_to_usize_def)
next
  case False
  let ?rest = "drop offset s"
  let ?n = "length ?rest div 8" and ?bss = "map (\<lambda>k. take 8 (drop (8 * k) ?rest)) [0..<length ?rest div 8]"
  have n: "8 * ?n + length ?rest mod 8 = length ?rest" by simp
  have "those (map (\<lambda>k. read_usize_at ?rest (8 * k)) [0..<?n]) = Some (map (\<lambda>k. word_of_bytes (take 8 (drop (8 * k) ?rest))) [0..<?n])"
  proof (rule those_map_Some)
    fix k assume "k \<in> set [0..<?n]"
    then have "8 * k + 8 \<le> length ?rest" using n by auto
    then show "read_usize_at ?rest (8 * k) = Some (word_of_bytes (take 8 (drop (8 * k) ?rest)))"
      unfolding read_usize_at_def by (subst slice_Some) auto
  qed
  moreover have "align_to_offsets 1 8 (length ?rest) = Some (?n, length ?rest mod 8)"
    by (simp add: align_to_offsets_def stein_gcd_eq)
  moreover have "length ?rest - length ?rest mod 8 = 8 * ?n" using n by linarith
  ultimately have "align_to_usize offset s = Some (take offset s, map word_of_bytes ?bss, drop (8 * ?n) ?rest)"
    using False n by (simp add: align_to_usize_def Let_def comp_def add.commute)
  moreover have "concat ?bss = take (8 * ?n) ?rest" using n by (intro concat_blocks) linarith
  then have "take offset s @ concat ?bss @ drop (8 * ?n) ?rest = s" by (simp only: append_take_drop_id)
  moreover have "list_all (\<lambda>bs. length bs = 8) ?bss" using n by (auto simp: list_all_iff)
  moreover have "length (drop (8 * ?n) ?rest) < 8" using n by simp
  ultimately show ?thesis by metis
qed

lemma count_chars_bytes: "count_chars align s = Some (char_count_general_case s)"
proof -
  obtain head bss tail where split: "align_to_usize align s = Some (head, map word_of_bytes bss, tail)"
      "list_all (\<lambda>bs. length bs = 8) bss" "s = head @ concat bss @ tail"
    using align_to_usize_spec [of align s] by blast
  then show ?thesis
    by (simp add: count_chars_def do_count_chars_def Let_def count_chunks_spec) (simp add: char_count_general_case_def)
qed

lemma count_utf8: "list_all is_scalar cs \<Longrightarrow> char_count_general_case (utf8 cs) = length cs"
proof (induction cs)
  case (Cons c cs)
  then have c: "is_utf8_char_boundary (hd (utf8_bytes c)) \<and> list_all utf8_is_cont_byte (tl (utf8_bytes c))"
    by (intro utf8_bytes_tags) simp
  have "filter (\<lambda>b. \<not> utf8_is_cont_byte b) (utf8_bytes c) = [hd (utf8_bytes c)]"
    using c utf8_bytes_nonempty [of c]
    by (cases "utf8_bytes c") (auto simp: is_utf8_char_boundary_not_cont list_all_iff filter_empty_conv)
  with Cons show ?case by (simp add: char_count_general_case_def)
qed (simp add: char_count_general_case_def)

lemma count_chars_correct_parts:
  "count_chars align s = Some (char_count_general_case s)"
  "list_all is_scalar cs \<Longrightarrow> count_chars align (utf8 cs) = Some (length cs)"
  "list_all is_scalar cs \<Longrightarrow> fst (chars_size_hint (utf8 cs)) \<le> length cs \<and> length cs \<le> the (snd (chars_size_hint (utf8 cs)))"
proof -
  show "count_chars align s = Some (char_count_general_case s)" for s by (rule count_chars_bytes)
  then show "list_all is_scalar cs \<Longrightarrow> count_chars align (utf8 cs) = Some (length cs)" by (simp add: count_utf8)
  have "length cs \<le> length (utf8 cs) \<and> length (utf8 cs) \<le> 4 * length cs"
  proof (induction cs)
    case (Cons c cs)
    then show ?case using len_utf8_bounds [of c] by auto
  qed simp
  then show "fst (chars_size_hint (utf8 cs)) \<le> length cs \<and> length cs \<le> the (snd (chars_size_hint (utf8 cs)))"
    by (auto simp: chars_size_hint_def Let_def)
qed

text \<open>C12: \<open>str::chars().count()\<close>. For every slice of bytes and every alignment the word-parallel count agrees with the count
  of the bytes that are no continuation bytes (the lanes of a word never carry into each other, the multiplication that
  sums them wraps around harmlessly, and the loop breaks in the last chunk only), no word is read out of bounds, and on
  a valid string it is the number of characters, which lies within the bounds of \<open>size_hint\<close>.
\<close>

theorem count_chars_correct:
  "count_chars align s = Some (char_count_general_case s) \<and>
    (list_all is_scalar cs \<longrightarrow> count_chars align (utf8 cs) = Some (length cs)) \<and>
    (list_all is_scalar cs \<longrightarrow> fst (chars_size_hint (utf8 cs)) \<le> length cs \<and> length cs \<le> the (snd (chars_size_hint (utf8 cs))))"
  using count_chars_correct_parts by blast

text \<open>Forty euro signs, at an address one byte before an aligned one.\<close>

theorem count_chars_correct_witness: "count_chars 1 (utf8 (replicate 40 0x20AC)) = Some 40"
proof -
  have "is_scalar 0x20AC" by code_simp
  then have "list_all is_scalar (replicate 40 0x20AC)" by (simp add: list_all_iff)
  with count_chars_correct [of 1 "[]" "replicate 40 0x20AC"] show ?thesis by simp
qed

lemma align_to_offsets_correct_parts:
  "stein_gcd a b = Some (gcd a b)"
  "0 < t \<Longrightarrow> 0 < u \<Longrightarrow>
     \<exists>us_len ts_len. align_to_offsets t u len = Some (us_len, ts_len) \<and>
       us_len * u + ts_len * t = len * t \<and> ts_len * t < lcm t u"
proof -
  show "stein_gcd a b = Some (gcd a b)" by (rule stein_gcd_eq)
  assume tu: "0 < t" "0 < u"
  let ?g = "gcd t u"
  define ts us where "ts = u div ?g" and "us = t div ?g"
  have g: "u = ts * ?g" "t = us * ?g" by (simp_all add: ts_def us_def)
  have "0 < ts" using tu g(1) by (cases ts) auto
  have "us * u = ts * t" using g by (metis mult.assoc mult.commute)
  then have "len div ts * us * u + len mod ts * t = len * t"
    by (metis mult.assoc add_mult_distrib div_mult_mod_eq)
  moreover have "lcm t u = ts * t" unfolding lcm_nat_def ts_def by (simp add: div_mult_swap mult.commute)
  then have "len mod ts * t < lcm t u" using \<open>0 < ts\<close> tu(1) by simp
  ultimately show "\<exists>us_len ts_len. align_to_offsets t u len = Some (us_len, ts_len) \<and>
       us_len * u + ts_len * t = len * t \<and> ts_len * t < lcm t u"
    by (simp add: align_to_offsets_def stein_gcd_eq Let_def ts_def us_def)
qed

text \<open>The binary greatest common divisor behind \<open>align_to\<close> always returns, and what it returns is the greatest common
  divisor, zero arguments included; the numbers of elements that \<open>align_to_offsets\<close> computes from it are those of the
  greatest middle part: with elements of positive sizes \<open>t\<close> and \<open>u\<close> the middle and the rest account for every byte, and
  the rest is shorter than the smallest block that both sizes divide.
\<close>

theorem align_to_offsets_correct:
  "stein_gcd a b = Some (gcd a b) \<and>
    (0 < t \<longrightarrow> 0 < u \<longrightarrow>
       (\<exists>us_len ts_len. align_to_offsets t u len = Some (us_len, ts_len) \<and>
         us_len * u + ts_len * t = len * t \<and> ts_len * t < lcm t u))"
  using align_to_offsets_correct_parts by blast

text \<open>Elements of 16 and 24 bytes.\<close>

theorem align_to_offsets_correct_witness:
  "stein_gcd 16 24 = Some 8 \<and>
   (\<exists>us_len ts_len. align_to_offsets 16 24 10 = Some (us_len, ts_len) \<and> us_len * 24 + ts_len * 16 = 160 \<and> ts_len * 16 < 48)"
proof -
  have "lcm (16 :: nat) 24 = 48" "gcd (16 :: nat) 24 = 8" by code_simp+
  with align_to_offsets_correct [of 16 24 16 24 10] show ?thesis by simp
qed

end
