(* ===== verification/Utf8_Lossy.thy ===== *)
theory Utf8_Lossy
  imports Utf8_Str
begin

text \<open>
  Lossy decoding: \<open>Utf8LossyChunksIter::next\<close> of \<open>library/core/src/str/lossy.rs\<close> and \<open>String::from_utf8_lossy\<close> of
  \<open>library/alloc/src/string.rs\<close>. The decoder has its own loop over the bytes, with a zero byte past the end where the
  validator has an error; the lemmas show that both agree on what is broken and how long it is.
\<close>

section \<open>The chunks\<close>

record utf8_lossy_chunk =
  valid :: "u8 list"
  broken :: "u8 list"

definition safe_get :: "u8 list \<Rightarrow> nat \<Rightarrow> u8" where
  "safe_get xs i = (case index_at xs i of None \<Rightarrow> 0 | Some x \<Rightarrow> x)"

text \<open>One round of the loop: the position after it, and whether it went on rather than \<open>break\<close>.\<close>

definition lossy_char :: "u8 list \<Rightarrow> nat \<Rightarrow> nat \<times> bool" where
  "lossy_char source i =
     (let byte = source ! i; i = i + 1
      in if byte < 128 then (i, True)
         else
           let w = utf8_char_width byte
           in if w = 2 then
                (if safe_get source i AND 192 \<noteq> 128 then (i, False) else (i + 1, True))
              else if w = 3 then
                (if \<not> second_of_three byte (safe_get source i) then (i, False)
                 else let i = i + 1
                   in if safe_get source i AND 192 \<noteq> 128 then (i, False) else (i + 1, True))
              else if w = 4 then
                (if \<not> second_of_four byte (safe_get source i) then (i, False)
                 else let i = i + 1
                   in if safe_get source i AND 192 \<noteq> 128 then (i, False)
                      else let i = i + 1
                        in if safe_get source i AND 192 \<noteq> 128 then (i, False) else (i + 1, True))
              else (i, False))"

lemma lossy_char_less: "lossy_char source i = (j, b) \<Longrightarrow> i < j"
  by (auto simp: lossy_char_def Let_def split: if_splits)

function lossy_loop :: "u8 list \<Rightarrow> nat \<Rightarrow> nat \<Rightarrow> nat \<times> nat" where
  "lossy_loop source i good =
     (if i < length source then
        (case lossy_char source i of
           (i', True) \<Rightarrow> lossy_loop source i' i'
         | (i', False) \<Rightarrow> (i', good))
      else (i, good))"
  by pat_completeness auto
termination
  by (relation "measure (\<lambda>(s, i, u). length s - i)") (auto dest!: lossy_char_less [OF sym])

declare lossy_loop.simps [simp del]

definition lossy_next :: "u8 list \<Rightarrow> (utf8_lossy_chunk option \<times> u8 list) option" where
  "lossy_next source =
     (if source = [] then Some (None, source)
      else do {
        let (i, good) = lossy_loop source 0 0;
        inspected \<leftarrow> slice source 0 i;
        remaining \<leftarrow> slice source i (length source);
        v \<leftarrow> slice inspected 0 good;
        b \<leftarrow> slice inspected good (length inspected);
        Some (Some \<lparr>valid = v, broken = b\<rparr>, remaining)
      })"

lemma lossy_loop_le: "i \<le> fst (lossy_loop source i u)"
proof (induction source i u rule: lossy_loop.induct)
  case (1 source i u)
  obtain j b where j: "lossy_char source i = (j, b)" by (cases "lossy_char source i")
  with lossy_char_less [OF j] "1.IH" [OF _ j [symmetric]] show ?case by (subst lossy_loop.simps) (auto split: bool.splits)
qed

lemma lossy_loop_progress: "source \<noteq> [] \<Longrightarrow> 0 < fst (lossy_loop source 0 0)"
proof -
  assume "source \<noteq> []"
  moreover obtain j b where j: "lossy_char source 0 = (j, b)" by (cases "lossy_char source 0")
  moreover have "0 < j" using lossy_char_less [OF j] .
  ultimately show ?thesis using lossy_loop_le [of j source j] by (subst lossy_loop.simps) (simp split: bool.splits)
qed

lemma lossy_next_shorter: "lossy_next source = Some (Some c, rest) \<Longrightarrow> length rest < length source"
  using lossy_loop_progress [of source]
  by (auto simp: lossy_next_def slice_def split: if_splits prod.splits bind_splits)


section \<open>\<open>String::from_utf8_lossy\<close>\<close>

datatype cow = Borrowed "u8 list" | Owned "u8 list"

abbreviation REPLACEMENT :: "u8 list" where "REPLACEMENT \<equiv> [0xEF, 0xBF, 0xBD]"

function lossy_for :: "u8 list \<Rightarrow> u8 list \<Rightarrow> u8 list option" where
  "lossy_for iter res =
     (case lossy_next iter of
        None \<Rightarrow> None
      | Some (None, _) \<Rightarrow> Some res
      | Some (Some c, iter') \<Rightarrow> lossy_for iter' (if broken c \<noteq> [] then (res @ valid c) @ REPLACEMENT else res @ valid c))"
  by pat_completeness auto
termination by (relation "measure (\<lambda>(iter, res). length iter)") (auto dest: lossy_next_shorter)

declare lossy_for.simps [simp del]

definition from_utf8_lossy :: "u8 list \<Rightarrow> cow option" where
  "from_utf8_lossy v = do {
     (r, iter) \<leftarrow> lossy_next v;
     case r of
       Some chunk \<Rightarrow>
         if broken chunk = [] then do {
           assert_that (length (valid chunk) = length v);
           Some (Borrowed (valid chunk))
         } else do {
           let res = [] @ valid chunk;
           let res = res @ REPLACEMENT;
           res \<leftarrow> lossy_for iter res;
           Some (Owned res)
         }
     | None \<Rightarrow> Some (Borrowed [])
   }"


section \<open>The decoder agrees with the validator\<close>

lemma mask_192: "b AND 192 \<noteq> 128 \<longleftrightarrow> -64 \<le> sint b" for b :: u8
proof -
  have "list_all (\<lambda>n. ((word_of_nat n :: u8) AND 192 \<noteq> 128) = (-64 \<le> sint (word_of_nat n :: u8))) [0..<256]" by code_simp
  from all_u8 [OF this, of b] show ?thesis by simp
qed

definition broken_len :: "u8 list \<Rightarrow> nat \<Rightarrow> nat option \<Rightarrow> nat" where
  "broken_len v i l = (case l of None \<Rightarrow> length v - i | Some l \<Rightarrow> l)"

lemma second_zero [simp]: "\<not> second_of_three b 0" "\<not> second_of_four b 0"
  by (simp_all add: second_of_three_def second_of_four_def)

lemma lossy_char_multibyte:
  assumes "i < length v" "128 \<le> v ! i"
  shows "lossy_char v i = (case validate_multibyte v i of Ok j \<Rightarrow> (j, True) | Err l \<Rightarrow> (i + broken_len v i l, False))"
proof -
  have get: "safe_get v k = (if k < length v then v ! k else 0)" for k by (simp add: safe_get_def index_at_def)
  have zero: "\<not> (-64 :: int) \<le> sint (0 :: u8) \<longleftrightarrow> False" by simp
  have nz: "\<not> v ! i < 128" using assms(2) by simp
  consider "utf8_char_width (v ! i) = 2" | "utf8_char_width (v ! i) = 3" | "utf8_char_width (v ! i) = 4"
    | "utf8_char_width (v ! i) \<notin> {2, 3, 4}" by blast
  then show ?thesis
    by cases (use nz assms(1) in \<open>auto simp: lossy_char_def validate_multibyte_def next_byte_def broken_len_def get Let_def
      mask_192\<close>)
qed

text \<open>What the loops of the validator and of the decoder stop at.\<close>

definition stops_at :: "u8 list \<Rightarrow> nat \<Rightarrow> nat option \<Rightarrow> bool" where
  "stops_at v u l \<longleftrightarrow> u < length v \<and> 128 \<le> v ! u \<and> valid_utf8 (take u v) \<and> validate_multibyte v u = Err l"

lemma stops_at_error: "stops_at v u l \<Longrightarrow> utf8_error_ok v \<lparr>valid_up_to = u, error_len = l\<rparr>"
  unfolding stops_at_def by (intro validate_multibyte_error) auto

lemma stops_at_unique: "stops_at v u l \<Longrightarrow> stops_at v w k \<Longrightarrow> u = w \<and> l = k"
proof -
  have le: "u \<le> w" if "stops_at v w k" "stops_at v u l" for u w k l
    using utf8_error_invalid [OF stops_at_error [OF that(1)], of u] that(2) by (auto simp: stops_at_def not_le [symmetric])
  assume s: "stops_at v u l" "stops_at v w k"
  then have "u = w" using le by (blast intro: antisym)
  with s show ?thesis by (simp add: stops_at_def)
qed

lemma stops_at_invalid: "stops_at v u l \<Longrightarrow> \<not> valid_utf8 v"
  using utf8_error_exact(2) [OF stops_at_error] .

lemma lossy_loop_spec:
  assumes "valid_utf8 (take i v)" "i \<le> length v"
  shows "(valid_utf8 v \<and> lossy_loop v i i = (length v, length v)) \<or>
     (\<exists>u l. stops_at v u l \<and> lossy_loop v i i = (u + broken_len v u l, u))"
  using assms
proof (induction "length v - i" arbitrary: i rule: less_induct)
  case less
  consider (finished) "i = length v" | (multi) "i < length v" "128 \<le> v ! i" | (ascii) "i < length v" "v ! i < 128"
    using less.prems(2) by force
  then show ?case
  proof cases
    case finished
    with less.prems(1) show ?thesis by (subst lossy_loop.simps) simp
  next
    case multi
    show ?thesis
    proof (cases "validate_multibyte v i")
      case (Ok j)
      with validate_multibyte_sound [OF _ multi] obtain c where c: "is_scalar c" "char_at v i c" "j = i + len_utf8 c" by blast
      then have "lossy_loop v i i = lossy_loop v j j" using Ok multi lossy_char_multibyte [OF multi]
        by (subst lossy_loop.simps) simp
      moreover have "length v - j < length v - i" using c(3) multi(1) len_utf8_bounds(1) [of c] by linarith
      ultimately show ?thesis using less.hyps [of j] valid_utf8_step [OF less.prems(1) c(1,2)] c by (simp add: char_at_def)
    next
      case (Err l)
      then have "stops_at v i l" "lossy_loop v i i = (i + broken_len v i l, i)"
        using multi less.prems(1) lossy_char_multibyte [OF multi] by (simp_all add: stops_at_def, subst lossy_loop.simps, simp)
      then show ?thesis by blast
    qed
  next
    case ascii
    then have "lossy_loop v i i = lossy_loop v (i + 1) (i + 1)" by (subst lossy_loop.simps) (simp add: lossy_char_def)
    moreover have "valid_utf8 (take (i + 1) v)"
      using valid_utf8_ascii [OF less.prems(1), of "i + 1"] ascii by (auto simp: less_Suc_eq)
    ultimately show ?thesis using less.hyps [of "i + 1"] ascii by simp
  qed
qed

lemma broken_len_bounds: "stops_at v u l \<Longrightarrow> 0 < broken_len v u l \<and> u + broken_len v u l \<le> length v \<and> broken_len v u l \<le> 3"
  unfolding stops_at_def
  by (auto simp: broken_len_def validate_multibyte_def next_byte_def Let_def split: if_splits)

lemma lossy_next_valid: "valid_utf8 v \<Longrightarrow> v \<noteq> [] \<Longrightarrow> lossy_next v = Some (Some \<lparr>valid = v, broken = []\<rparr>, [])"
  using lossy_loop_spec [of 0 v] stops_at_invalid [of v] by (auto simp: lossy_next_def)

lemma lossy_next_broken:
  assumes "stops_at v u l"
  shows "lossy_next v = Some (Some \<lparr>valid = take u v, broken = take (broken_len v u l) (drop u v)\<rparr>, drop (u + broken_len v u l) v)"
proof -
  have "lossy_loop v 0 0 = (u + broken_len v u l, u)"
    using lossy_loop_spec [of 0 v] stops_at_invalid [OF assms] stops_at_unique [OF assms] by auto
  moreover have "v \<noteq> []" "u + broken_len v u l \<le> length v" using assms broken_len_bounds [OF assms] by (auto simp: stops_at_def)
  ultimately show ?thesis by (simp add: lossy_next_def Let_def take_drop min_def add.commute)
qed

lemma utf8_stops: "valid_utf8 v \<or> (\<exists>u l. stops_at v u l)"
  using lossy_loop_spec [of 0 v] by auto

text \<open>The error of the validator is where it stops.\<close>

lemma validation_loop_stops:
  assumes "valid_utf8 (take i v)" "i \<le> length v"
  shows "validation_loop align v i = Some (Err e) \<Longrightarrow> stops_at v (valid_up_to e) (error_len e)"
  using assms
proof (induction align v i rule: validation_loop.induct)
  case (1 align v i)
  note spec = validation_loop_spec [OF "1.prems"(2,3), of align]
  show ?case
  proof (cases "i < length v")
    case True
    show ?thesis
    proof (cases "128 \<le> v ! i")
      case multi: True
      show ?thesis
      proof (cases "validate_multibyte v i")
        case (Ok j)
        with validate_multibyte_sound [OF _ True multi] obtain c where c: "is_scalar c" "char_at v i c" "j = i + len_utf8 c" by blast
        with "1.IH"(1) [OF True multi Ok] "1.prems" Ok True multi valid_utf8_step [OF "1.prems"(2) c(1,2)] show ?thesis
          by (subst (asm) (2) validation_loop.simps) (simp add: char_at_def)
      next
        case (Err l)
        with "1.prems" True multi show ?thesis
          by (subst (asm) validation_loop.simps) (auto simp: stops_at_def)
      qed
    next
      case ascii: False
      show ?thesis
      proof (cases "align \<noteq> -1 \<and> (align - word_of_nat i) mod 8 = 0")
        case fast: True
        obtain j where j: "skip_ascii v i = Some j" "j \<le> length v" "valid_utf8 (take j v)"
          using skip_ascii_spec [OF "1.prems"(3,2)] by blast
        with "1.IH"(2) [OF True ascii fast j(1)] "1.prems"(1) True ascii fast show ?thesis
          by (subst (asm) (2) validation_loop.simps) simp
      next
        case slow: False
        have "valid_utf8 (take (i + 1) v)"
          using valid_utf8_ascii [OF "1.prems"(2), of "i + 1"] True ascii by (auto simp: not_le less_Suc_eq)
        moreover have "validation_loop align v (i + 1) = Some (Err e)"
          using "1.prems"(1) by (subst (asm) validation_loop.simps) (simp only: True ascii slow if_True if_False)
        ultimately show ?thesis using "1.IH"(3) [OF True ascii slow] True by simp
      qed
    qed
  next
    case False
    with "1.prems"(1) show ?thesis by (subst (asm) validation_loop.simps) simp
  qed
qed


section \<open>Properties\<close>

text \<open>All chunks of an iterator.\<close>

function lossy_chunks :: "u8 list \<Rightarrow> utf8_lossy_chunk list option" where
  "lossy_chunks iter =
     (case lossy_next iter of
        None \<Rightarrow> None
      | Some (None, _) \<Rightarrow> Some []
      | Some (Some c, iter') \<Rightarrow> map_option (Cons c) (lossy_chunks iter'))"
  by pat_completeness auto
termination by (relation "measure length") (auto dest: lossy_next_shorter)

declare lossy_chunks.simps [simp del]

definition show_chunk :: "utf8_lossy_chunk \<Rightarrow> u8 list" where
  "show_chunk c = valid c @ (if broken c = [] then [] else REPLACEMENT)"

lemma valid_replacement [simp]: "valid_utf8 REPLACEMENT"
proof -
  have "list_all is_scalar [0xFFFD] \<and> utf8 [0xFFFD] = REPLACEMENT" by code_simp
  then show ?thesis unfolding valid_utf8_def by metis
qed

lemma lossy_for_chunks: "lossy_chunks iter = Some cs \<Longrightarrow> lossy_for iter res = Some (res @ concat (map show_chunk cs))"
proof (induction iter arbitrary: res cs rule: lossy_chunks.induct)
  case (1 iter)
  show ?case
  proof (cases "lossy_next iter")
    case None
    with "1.prems" show ?thesis by (subst (asm) lossy_chunks.simps) simp
  next
    case (Some p)
    obtain r rest where p: "p = (r, rest)" by (cases p)
    show ?thesis
    proof (cases r)
      case None
      with "1.prems" Some p show ?thesis by (subst lossy_for.simps) (subst (asm) lossy_chunks.simps, simp)
    next
      case (Some c)
      with "1.prems" \<open>lossy_next iter = Some p\<close> p obtain ds where ds: "lossy_chunks rest = Some ds" "cs = c # ds"
        by (subst (asm) lossy_chunks.simps) auto
      from "1.IH" [OF \<open>lossy_next iter = Some p\<close> p [symmetric] Some ds(1)] \<open>lossy_next iter = Some p\<close> p Some ds(2) show ?thesis
        by (subst lossy_for.simps) (simp add: show_chunk_def [of c])
    qed
  qed
qed

definition chunks_of :: "u8 list \<Rightarrow> utf8_lossy_chunk list \<Rightarrow> bool" where
  "chunks_of v cs \<longleftrightarrow> concat (map (\<lambda>c. valid c @ broken c) cs) = v \<and> list_all (\<lambda>c. valid_utf8 (valid c) \<and> length (broken c) \<le> 3) cs \<and>
     list_all (\<lambda>c. broken c \<noteq> []) (butlast cs)"

lemma lossy_chunks_Cons:
  "lossy_next v = Some (Some c, rest) \<Longrightarrow> lossy_chunks rest = Some cs \<Longrightarrow> lossy_chunks v = Some (c # cs)"
  by (subst lossy_chunks.simps) simp

lemma lossy_chunks_Nil [simp]: "lossy_chunks [] = Some []"
  by (subst lossy_chunks.simps) (simp add: lossy_next_def)

lemma lossy_chunks_spec: "\<exists>cs. lossy_chunks v = Some cs \<and> chunks_of v cs"
proof (induction v rule: measure_induct_rule [of length])
  case (less v)
  consider "v = []" | "v \<noteq> []" "valid_utf8 v" | u l where "stops_at v u l" using utf8_stops by blast
  then show ?case
  proof cases
    case 1
    then show ?thesis by (auto simp: chunks_of_def)
  next
    case 2
    with lossy_chunks_Cons [OF lossy_next_valid lossy_chunks_Nil] show ?thesis by (auto simp: chunks_of_def)
  next
    case 3
    let ?n = "broken_len v u l" let ?rest = "drop (u + ?n) v"
    have n: "0 < ?n" "u + ?n \<le> length v" "?n \<le> 3" using broken_len_bounds [OF 3] by auto
    then have "length ?rest < length v" by simp
    from less.IH [OF this] obtain cs where cs: "lossy_chunks ?rest = Some cs" "chunks_of ?rest cs" by blast
    have "take u v @ take ?n (drop u v) @ ?rest = v" by (metis append_take_drop_id drop_drop add.commute)
    with n cs(2) 3 have "chunks_of v (\<lparr>valid = take u v, broken = take ?n (drop u v)\<rparr> # cs)"
      by (auto simp: chunks_of_def stops_at_def)
    with lossy_chunks_Cons [OF lossy_next_broken [OF 3] cs(1)] show ?thesis by blast
  qed
qed

lemma valid_show_chunks: "list_all (\<lambda>c. valid_utf8 (valid c) \<and> P c) cs \<Longrightarrow> valid_utf8 (concat (map show_chunk cs))"
proof (induction cs)
  case (Cons c cs)
  moreover from Cons.prems have "valid_utf8 (show_chunk c)"
    using valid_utf8_append [of "valid c" REPLACEMENT] by (simp add: show_chunk_def)
  ultimately show ?case using valid_utf8_append by simp
qed simp

text \<open>C17: The lossy decoder and the validator are two implementations of one grammar: on every non-empty input and for every
  alignment the first chunk is the whole input if the validator accepts it, and otherwise its valid part is the prefix up
  to \<open>valid_up_to\<close> and its broken part the next \<open>error_len\<close> bytes, or all that is left where \<open>error_len\<close> is \<open>None\<close>; the
  iterator goes on behind them. None of the unchecked splits is out of bounds.
\<close>

theorem lossy_next_agrees:
  assumes "v \<noteq> []"
  shows "lossy_next v = (case run_utf8_validation align v of
       None \<Rightarrow> None
     | Some (Ok _) \<Rightarrow> Some (Some \<lparr>valid = v, broken = []\<rparr>, [])
     | Some (Err e) \<Rightarrow>
         let u = valid_up_to e; n = (case error_len e of None \<Rightarrow> length v - u | Some l \<Rightarrow> l)
         in Some (Some \<lparr>valid = take u v, broken = take n (drop u v)\<rparr>, drop (u + n) v))"
proof -
  obtain r where r: "run_utf8_validation align v = Some r" "case r of Ok _ \<Rightarrow> valid_utf8 v | Err e \<Rightarrow> utf8_error_ok v e"
    using validation_loop_spec [of 0 v align] by (auto simp: run_utf8_validation_def)
  show ?thesis
  proof (cases r)
    case (Ok a)
    with r assms show ?thesis by (simp add: lossy_next_valid)
  next
    case (Err e)
    with r have "stops_at v (valid_up_to e) (error_len e)"
      using validation_loop_stops [of 0 v align e] by (simp add: run_utf8_validation_def)
    from lossy_next_broken [OF this] r(1) Err show ?thesis by (simp add: broken_len_def Let_def)
  qed
qed

text \<open>A letter and the first two bytes of the euro sign.\<close>

theorem lossy_next_agrees_witness:
  "lossy_next [0x61, 0xE2, 0x82] = Some (Some \<lparr>valid = [0x61], broken = [0xE2, 0x82]\<rparr>, [])"
proof -
  have "run_utf8_validation (-1) [0x61, 0xE2, 0x82] = Some (Err \<lparr>valid_up_to = 1, error_len = None\<rparr>)" by code_simp
  then show ?thesis by (subst lossy_next_agrees [of _ "-1"]) (simp_all add: Let_def)
qed

text \<open>\<open>String::from_utf8_lossy\<close> returns for every input, and its result is valid UTF-8. A valid input is borrowed as it is
  (the \<open>debug_assert\<close> holds). Otherwise the chunks cover the input without a gap, each with a valid part and a broken
  part of at most three bytes, broken in all but possibly the last, and the result is the valid parts with one
  replacement character for each broken part.
\<close>

theorem from_utf8_lossy_correct:
  "\<exists>cs. lossy_chunks v = Some cs \<and>
        concat (map (\<lambda>c. valid c @ broken c) cs) = v \<and>
        list_all (\<lambda>c. valid_utf8 (valid c) \<and> length (broken c) \<le> 3) cs \<and>
        list_all (\<lambda>c. broken c \<noteq> []) (butlast cs) \<and>
        valid_utf8 (concat (map show_chunk cs)) \<and>
        from_utf8_lossy v = Some (if valid_utf8 v then Borrowed v else Owned (concat (map show_chunk cs)))"
proof -
  obtain cs where cs: "lossy_chunks v = Some cs" "chunks_of v cs" using lossy_chunks_spec by blast
  have "from_utf8_lossy v = Some (if valid_utf8 v then Borrowed v else Owned (concat (map show_chunk cs)))"
  proof -
    consider "v = []" | "v \<noteq> []" "valid_utf8 v" | u l where "stops_at v u l" using utf8_stops by blast
    then show ?thesis
    proof cases
      case 1
      then show ?thesis by (simp add: from_utf8_lossy_def lossy_next_def)
    next
      case 2
      then show ?thesis by (simp add: from_utf8_lossy_def lossy_next_valid)
    next
      case 3
      let ?c = "\<lparr>valid = take u v, broken = take (broken_len v u l) (drop u v)\<rparr>" and ?rest = "drop (u + broken_len v u l) v"
      obtain ds where ds: "lossy_chunks ?rest = Some ds" using lossy_chunks_spec by blast
      then have "cs = ?c # ds" using lossy_chunks_Cons [OF lossy_next_broken [OF 3] ds] cs(1) by simp
      moreover have "broken ?c \<noteq> []" using broken_len_bounds [OF 3] 3 by (simp add: stops_at_def)
      ultimately show ?thesis using stops_at_invalid [OF 3] lossy_for_chunks [OF ds] lossy_next_broken [OF 3]
        by (simp add: from_utf8_lossy_def Let_def show_chunk_def)
    qed
  qed
  with cs valid_show_chunks [of "\<lambda>c. length (broken c) \<le> 3" cs] show ?thesis unfolding chunks_of_def by blast
qed

text \<open>The last chunk of an iterator may well have a broken part.\<close>

lemma last_chunk_broken: "lossy_chunks [0x61, 0xFF] = Some [\<lparr>valid = [0x61], broken = [0xFF]\<rparr>]"
  by code_simp

end
