(* ===== verification/Utf8_String.thy ===== *)
theory Utf8_String
  imports Utf8_Str
begin

text \<open>
  \<open>String\<close> of \<open>library/alloc/src/string.rs\<close>: the operations that change the text, on the bytes of its vector. The unsafe
  ones are modelled as they are written, with \<open>ptr::copy\<close> on the buffer and \<open>set_len\<close>; \<open>None\<close> is a panic or an access
  out of bounds. The lemmas read a string as the list of its characters and show what each operation does to that list,
  and that no operation leaves bytes that are not UTF-8, whatever it is called with and even if a closure panics.
\<close>

section \<open>Buffers and ranges\<close>

text \<open>\<open>ptr::copy\<close> within one buffer, the source read before the destination is written; \<open>set_len\<close>; \<open>reserve\<close>.\<close>

definition ptr_copy :: "'a list \<Rightarrow> nat \<Rightarrow> nat \<Rightarrow> nat \<Rightarrow> 'a list option" where
  "ptr_copy buf src dst n =
     (if src + n \<le> length buf \<and> dst + n \<le> length buf
      then Some (take dst buf @ take n (drop src buf) @ drop (dst + n) buf) else None)"

definition ptr_write :: "'a list \<Rightarrow> nat \<Rightarrow> 'a list \<Rightarrow> 'a list option" where
  "ptr_write buf dst xs =
     (if dst + length xs \<le> length buf then Some (take dst buf @ xs @ drop (dst + length xs) buf) else None)"

definition set_len :: "'a list \<Rightarrow> nat \<Rightarrow> 'a list option" where
  "set_len buf n = (if n \<le> length buf then Some (take n buf) else None)"

text \<open>The buffer after \<open>reserve(n)\<close>: the bytes that follow the text are not initialised, any value stands for them.\<close>

definition reserve :: "u8 list \<Rightarrow> nat \<Rightarrow> u8 list" where
  "reserve buf n = buf @ replicate n 0"

definition checked_succ :: "nat \<Rightarrow> nat option" where
  "checked_succ n = (if n = USIZE_MAX then None else Some (n + 1))"

definition slice_range :: "nat range_bounds \<Rightarrow> nat \<Rightarrow> (nat \<times> nat) option" where
  "slice_range range' len = do {
     start \<leftarrow> (case fst range' of Included s \<Rightarrow> Some s | Excluded s \<Rightarrow> checked_succ s | Unbounded \<Rightarrow> Some 0);
     end' \<leftarrow> (case snd range' of Included e \<Rightarrow> checked_succ e | Excluded e \<Rightarrow> Some e | Unbounded \<Rightarrow> Some len);
     assert_that (start \<le> end');
     assert_that (end' \<le> len);
     Some (start, end')
   }"


section \<open>The operations\<close>

definition string_new :: "u8 list" where "string_new = []"

record from_utf8_error =
  fue_bytes :: "u8 list"
  fue_error :: utf8_error

definition string_from_utf8 :: "u64 \<Rightarrow> u8 list \<Rightarrow> (u8 list, from_utf8_error) result option" where
  "string_from_utf8 align vec = do {
     r \<leftarrow> from_utf8 align vec;
     Some (case r of Ok _ \<Rightarrow> Ok vec | Err e \<Rightarrow> Err \<lparr>fue_bytes = vec, fue_error = e\<rparr>)
   }"

definition push_str :: "u8 list \<Rightarrow> u8 list \<Rightarrow> u8 list" where
  "push_str s string = s @ string"

definition push :: "u8 list \<Rightarrow> rchar \<Rightarrow> u8 list option" where
  "push s ch =
     (if len_utf8 ch = 1 then Some (s @ [ucast ch])
      else do {
        (bytes, _) \<leftarrow> encode_utf8_raw ch [0, 0, 0, 0];
        Some (s @ bytes)
      })"

definition string_truncate :: "u8 list \<Rightarrow> nat \<Rightarrow> u8 list option" where
  "string_truncate s new_len =
     (if new_len \<le> length s then do {
        assert_that (is_char_boundary s new_len);
        Some (take new_len s)
      } else Some s)"

definition pop :: "u8 list \<Rightarrow> (rchar option \<times> u8 list) option" where
  "pop s = do {
     (r, _) \<leftarrow> chars_next_back s;
     case r of
       None \<Rightarrow> Some (None, s)
     | Some ch \<Rightarrow> do {
         newlen \<leftarrow> checked_sub (length s) (len_utf8 ch);
         s \<leftarrow> set_len s newlen;
         Some (Some ch, s)
       }
   }"

definition remove :: "u8 list \<Rightarrow> nat \<Rightarrow> (rchar \<times> u8 list) option" where
  "remove s idx = do {
     tail \<leftarrow> index_range_from s idx;
     (r, _) \<leftarrow> chars_next tail;
     ch \<leftarrow> r;
     let next' = idx + len_utf8 ch;
     let len = length s;
     n \<leftarrow> checked_sub len next';
     s \<leftarrow> ptr_copy s next' idx n;
     s \<leftarrow> set_len s (len - (next' - idx));
     Some (ch, s)
   }"

definition insert_bytes :: "u8 list \<Rightarrow> nat \<Rightarrow> u8 list \<Rightarrow> u8 list option" where
  "insert_bytes s idx bytes = do {
     let len = length s;
     let amt = length bytes;
     let buf = reserve s amt;
     n \<leftarrow> checked_sub len idx;
     buf \<leftarrow> ptr_copy buf idx (idx + amt) n;
     buf \<leftarrow> ptr_write buf idx bytes;
     set_len buf (len + amt)
   }"

definition insert_char :: "u8 list \<Rightarrow> nat \<Rightarrow> rchar \<Rightarrow> u8 list option" where
  "insert_char s idx ch = do {
     assert_that (is_char_boundary s idx);
     (bits, _) \<leftarrow> encode_utf8_raw ch [0, 0, 0, 0];
     insert_bytes s idx bits
   }"

definition insert_str :: "u8 list \<Rightarrow> nat \<Rightarrow> u8 list \<Rightarrow> u8 list option" where
  "insert_str s idx string = do {
     assert_that (is_char_boundary s idx);
     insert_bytes s idx string
   }"

text \<open>\<open>Vec::split_off\<close>, for the check that comes before it in \<open>split_off\<close>.\<close>

definition split_off :: "u8 list \<Rightarrow> nat \<Rightarrow> (u8 list \<times> u8 list) option" where
  "split_off s at' = do {
     assert_that (is_char_boundary s at');
     assert_that (at' \<le> length s);
     Some (drop at' s, take at' s)
   }"

definition extend_from_within :: "u8 list \<Rightarrow> nat range_bounds \<Rightarrow> u8 list option" where
  "extend_from_within s src = do {
     (start, end') \<leftarrow> slice_range src (length s);
     assert_that (is_char_boundary s start);
     assert_that (is_char_boundary s end');
     piece \<leftarrow> slice s start end';
     Some (s @ piece)
   }"

text \<open>\<open>Drain\<close>: the string itself is only changed when the iterator is dropped.\<close>

record string_drain =
  dr_string :: "u8 list"
  dr_start :: nat
  dr_end :: nat
  dr_iter :: "u8 list"

definition string_drain :: "u8 list \<Rightarrow> nat range_bounds \<Rightarrow> string_drain option" where
  "string_drain s range' = do {
     (start, end') \<leftarrow> slice_range range' (length s);
     assert_that (is_char_boundary s start);
     assert_that (is_char_boundary s end');
     chars_iter \<leftarrow> slice s start end';
     Some \<lparr>dr_string = s, dr_start = start, dr_end = end', dr_iter = chars_iter\<rparr>
   }"

definition drain_next :: "string_drain \<Rightarrow> (rchar option \<times> string_drain) option" where
  "drain_next d = do {
     (r, iter) \<leftarrow> chars_next (dr_iter d);
     Some (r, d\<lparr>dr_iter := iter\<rparr>)
   }"

definition drain_next_back :: "string_drain \<Rightarrow> (rchar option \<times> string_drain) option" where
  "drain_next_back d = do {
     (r, iter) \<leftarrow> chars_next_back (dr_iter d);
     Some (r, d\<lparr>dr_iter := iter\<rparr>)
   }"

definition drain_drop :: "string_drain \<Rightarrow> u8 list" where
  "drain_drop d =
     (if dr_start d \<le> dr_end d \<and> dr_end d \<le> length (dr_string d)
      then take (dr_start d) (dr_string d) @ drop (dr_end d) (dr_string d) else dr_string d)"

definition replace_range :: "u8 list \<Rightarrow> nat range_bounds \<Rightarrow> u8 list \<Rightarrow> u8 list option" where
  "replace_range s range' replace_with = do {
     (case fst range' of
        Included n \<Rightarrow> assert_that (is_char_boundary s n)
      | Excluded n \<Rightarrow> checked_succ n \<bind> (\<lambda>m. assert_that (is_char_boundary s m))
      | Unbounded \<Rightarrow> Some ());
     (case snd range' of
        Included n \<Rightarrow> checked_succ n \<bind> (\<lambda>m. assert_that (is_char_boundary s m))
      | Excluded n \<Rightarrow> assert_that (is_char_boundary s n)
      | Unbounded \<Rightarrow> Some ());
     (start, end') \<leftarrow> slice_range range' (length s);
     Some (take start s @ replace_with @ drop end' s)
   }"

text \<open>
  \<open>retain\<close> with its guard. The closure has a state; \<open>None\<close> is its panic, on which the guard is dropped and sets the
  length. The result says whether the closure panicked.
\<close>

definition retain_drop :: "u8 list \<Rightarrow> nat \<Rightarrow> nat \<Rightarrow> u8 list option" where
  "retain_drop s idx del_bytes = do {
     new_len \<leftarrow> checked_sub idx del_bytes;
     assert_that (new_len \<le> length s);
     set_len s new_len
   }"

function retain_loop :: "(rchar \<Rightarrow> 's \<Rightarrow> (bool \<times> 's) option) \<Rightarrow> nat \<Rightarrow> u8 list \<Rightarrow> nat \<Rightarrow> nat \<Rightarrow> 's \<Rightarrow> (bool \<times> u8 list \<times> 's) option" where
  "retain_loop f len s idx del_bytes st =
     (if idx < len then do {
        text \<leftarrow> slice s idx len;
        (r, _) \<leftarrow> chars_next text;
        ch \<leftarrow> r;
        let ch_len = len_utf8 ch;
        (case f ch st of
           None \<Rightarrow> do { s \<leftarrow> retain_drop s idx del_bytes; Some (True, s, st) }
         | Some (keep, st) \<Rightarrow>
             if \<not> keep then retain_loop f len s (idx + ch_len) (del_bytes + ch_len) st
             else if 0 < del_bytes then do {
               dst \<leftarrow> checked_sub idx del_bytes;
               (bytes, _) \<leftarrow> encode_utf8_raw ch (replicate ch_len 0);
               s \<leftarrow> ptr_write s dst bytes;
               retain_loop f len s (idx + ch_len) del_bytes st
             } else retain_loop f len s (idx + ch_len) del_bytes st)
      } else do { s \<leftarrow> retain_drop s idx del_bytes; Some (False, s, st) })"
  by pat_completeness auto
termination
  by (relation "measure (\<lambda>(f, len, s, idx, d, st). len - idx)") (auto simp: len_utf8_bounds(1) diff_less_mono2)

declare retain_loop.simps [simp del]

definition retain :: "(rchar \<Rightarrow> 's \<Rightarrow> (bool \<times> 's) option) \<Rightarrow> u8 list \<Rightarrow> 's \<Rightarrow> (bool \<times> u8 list \<times> 's) option" where
  "retain f s st = retain_loop f (length s) s 0 0 st"

text \<open>
  \<open>remove_matches\<close>. The searcher is a parameter: the ranges that \<open>next_match\<close> returns until it returns \<open>None\<close>.
\<close>

fun rejections :: "nat \<Rightarrow> (nat \<times> nat) list \<Rightarrow> nat \<Rightarrow> (nat \<times> nat) list" where
  "rejections front [] len = [(front, len)]"
| "rejections front ((start, end') # ms) len = (front, start) # rejections end' ms len"

fun compact :: "(nat \<times> nat) list \<Rightarrow> u8 list \<Rightarrow> nat \<Rightarrow> (u8 list \<times> nat) option" where
  "compact [] s len = Some (s, len)"
| "compact ((start, end') # rs) s len = do {
     count \<leftarrow> checked_sub end' start;
     s \<leftarrow> (if start \<noteq> len then ptr_copy s start len count else Some s);
     compact rs s (len + count)
   }"

definition remove_matches :: "(nat \<times> nat) list \<Rightarrow> u8 list \<Rightarrow> u8 list option" where
  "remove_matches matches s = do {
     (s, len) \<leftarrow> compact (rejections 0 matches (length s)) s 0;
     set_len s len
   }"


section \<open>Strings as lists of characters\<close>

lemma utf8_inj: "list_all is_scalar cs \<Longrightarrow> list_all is_scalar ds \<Longrightarrow> utf8 cs = utf8 ds \<Longrightarrow> cs = ds"
proof (induction cs arbitrary: ds)
  case Nil
  then show ?case by (cases ds) auto
next
  case (Cons c cs)
  then obtain d ds' where d: "ds = d # ds'" by (cases ds) auto
  with Cons.prems have "c = d \<and> utf8 cs = utf8 ds'" by (intro utf8_bytes_cancel) auto
  with Cons d show ?case by auto
qed

lemma boundary_split:
  assumes "list_all is_scalar cs"
  shows "is_char_boundary (utf8 cs) i \<longleftrightarrow> (\<exists>ds es. cs = ds @ es \<and> i = length (utf8 ds))"
proof
  assume "is_char_boundary (utf8 cs) i"
  then have i: "i \<le> length (utf8 cs)" "valid_utf8 (take i (utf8 cs))" using is_char_boundary_iff assms by auto
  moreover have "valid_utf8 (drop i (utf8 cs))" using valid_utf8_boundary_drop i(2) assms by simp
  ultimately obtain ds es where de: "list_all is_scalar ds" "list_all is_scalar es" "take i (utf8 cs) = utf8 ds" "drop i (utf8 cs) = utf8 es"
    unfolding valid_utf8_def by auto
  then have "utf8 cs = utf8 (ds @ es)" by (metis append_take_drop_id utf8_simps(3))
  then have "cs = ds @ es" using utf8_inj assms de(1,2) by simp
  moreover have "i = length (utf8 ds)" using de(3) i(1) by (metis length_take min.absorb2)
  ultimately show "\<exists>ds es. cs = ds @ es \<and> i = length (utf8 ds)" by blast
next
  assume "\<exists>ds es. cs = ds @ es \<and> i = length (utf8 ds)"
  with assms show "is_char_boundary (utf8 cs) i" by (auto simp: is_char_boundary_iff)
qed

lemma boundary_between [simp]:
  "list_all is_scalar ds \<Longrightarrow> list_all is_scalar es \<Longrightarrow> is_char_boundary (utf8 ds @ utf8 es) (length (utf8 ds))"
  using boundary_split [of "ds @ es"] by auto

lemma boundary_end [simp]: "is_char_boundary s (length s)"
  by (simp add: is_char_boundary_def)

text \<open>What the unsafe operations do to the bytes.\<close>

lemma insert_bytes_eq:
  "insert_bytes s idx bytes = (if idx \<le> length s then Some (take idx s @ bytes @ drop idx s) else None)"
  by (auto simp: insert_bytes_def reserve_def ptr_copy_def ptr_write_def set_len_def Let_def min_def)

lemma encode_buffer [simp]: "encode_utf8_raw c [0, 0, 0, 0] = Some (utf8_bytes c, utf8_bytes c @ drop (len_utf8 c) [0, 0, 0, 0])"
  using len_utf8_bounds(2) [of c] by (simp add: encode_utf8_raw_eq)

lemma push_eq: "push s c = Some (s @ utf8_bytes c)"
  by (auto simp: push_def utf8_bytes_def len_utf8_def split: if_splits)

lemma index_from_boundary:
  "list_all is_scalar ds \<Longrightarrow> list_all is_scalar es \<Longrightarrow> index_range_from (utf8 ds @ utf8 es) (length (utf8 ds)) = Some (utf8 es)"
  by (simp add: index_range_from_def get_range_from_def)

lemma remove_eq:
  assumes "list_all is_scalar ds" "list_all is_scalar es" "is_scalar c"
  shows "remove (utf8 (ds @ c # es)) (length (utf8 ds)) = Some (c, utf8 (ds @ es))"
proof -
  let ?s = "utf8 ds @ utf8_bytes c @ utf8 es" and ?a = "length (utf8 ds)"
  have "index_range_from ?s ?a = Some (utf8_bytes c @ utf8 es)" using index_from_boundary [of ds "c # es"] assms by simp
  moreover have "checked_sub (length ?s) (?a + len_utf8 c) = Some (length ?s - (?a + len_utf8 c))" by simp
  ultimately show ?thesis using assms(3) by (simp add: remove_def ptr_copy_def set_len_def Let_def)
qed

lemma pop_eq: "list_all is_scalar cs \<Longrightarrow> pop (utf8 cs) = Some (last_option cs, utf8 (butlast cs))"
  by (cases cs rule: rev_cases) (simp_all add: pop_def last_option_def set_len_def)

text \<open>The closure of \<open>retain\<close> on a list of characters: whether it panics, what it keeps before that, its state.\<close>

fun keep_run :: "(rchar \<Rightarrow> 's \<Rightarrow> (bool \<times> 's) option) \<Rightarrow> rchar list \<Rightarrow> 's \<Rightarrow> bool \<times> rchar list \<times> 's" where
  "keep_run f [] st = (False, [], st)"
| "keep_run f (c # cs) st = (case f c st of
       None \<Rightarrow> (True, [], st)
     | Some (keep, st') \<Rightarrow> (case keep_run f cs st' of (p, ds, st'') \<Rightarrow> (p, if keep then c # ds else ds, st'')))"

lemma retain_loop_eq:
  assumes "list_all is_scalar es" "take (idx - del) s = utf8 ks" "del \<le> idx" "idx \<le> length s" "drop idx s = utf8 es"
  shows "retain_loop f (length s) s idx del st = (case keep_run f es st of (p, ds, st') \<Rightarrow> Some (p, utf8 (ks @ ds), st'))"
  using assms
proof (induction es arbitrary: s idx del ks st)
  case Nil
  then show ?case by (subst retain_loop.simps) (simp add: retain_drop_def set_len_def)
next
  case (Cons c es)
  have c: "is_scalar c" "list_all is_scalar es" using Cons.prems(1) by auto
  have "length (drop idx s) = len_utf8 c + length (utf8 es)" unfolding Cons.prems(5) by simp
  then have idx: "idx < length s" "idx + len_utf8 c \<le> length s" using len_utf8_bounds(1) [of c] by (simp_all only: length_drop)
  have rest: "drop (idx + len_utf8 c) s = utf8 es" using Cons.prems(5) drop_drop [of "len_utf8 c" idx s] by (simp add: add.commute)
  have tail: "slice s idx (length s) = Some (utf8_bytes c @ utf8 es)"
    using idx Cons.prems(5) by (metis less_imp_le slice_Some take_all_iff length_drop order_refl utf8_simps(2))
  note step = retain_loop.simps [of f "length s" s idx del st]
  show ?case
  proof (cases "f c st")
    case None
    with step tail idx(1) c(1) Cons.prems show ?thesis by (simp add: retain_drop_def set_len_def Let_def)
  next
    case (Some r)
    obtain keep st' where r: "r = (keep, st')" by (cases r)
    consider (drop) "\<not> keep" | (move) "keep" "0 < del" | (stay) "keep" "del = 0" by blast
    then show ?thesis
    proof cases
      case drop
      with step tail idx(1) c(1) Some r have "retain_loop f (length s) s idx del st =
          retain_loop f (length s) s (idx + len_utf8 c) (del + len_utf8 c) st'" by (simp add: Let_def)
      with Cons.IH [OF c(2), of "idx + len_utf8 c" "del + len_utf8 c" s ks st'] rest idx Cons.prems drop Some r show ?thesis
        by (simp split: prod.splits)
    next
      case move
      define dst where "dst = idx - del"
      let ?s = "take dst s @ utf8_bytes c @ drop (dst + len_utf8 c) s"
      have dst: "dst + len_utf8 c \<le> length s" "dst \<le> idx" using idx by (simp_all add: dst_def)
      have len: "length ?s = length s" using dst by simp
      with step tail idx(1) c(1) Some r move dst Cons.prems(3) have "retain_loop f (length s) s idx del st =
          retain_loop f (length ?s) ?s (idx + len_utf8 c) del st'"
        by (simp add: Let_def encode_utf8_raw_eq ptr_write_def dst_def)
      moreover have "drop (idx + len_utf8 c) ?s = utf8 es" using dst rest by (simp add: dst_def)
      moreover have "take (idx + len_utf8 c - del) ?s = utf8 (ks @ [c])"
      proof -
        have "idx + len_utf8 c - del = dst + len_utf8 c" using Cons.prems(3) by (simp add: dst_def)
        moreover have "take (dst + len_utf8 c) ?s = take dst s @ utf8_bytes c" using dst by simp
        ultimately show ?thesis using Cons.prems(2) unfolding dst_def by simp
      qed
      ultimately show ?thesis using Cons.IH [OF c(2), of "idx + len_utf8 c" del ?s "ks @ [c]" st'] len idx Cons.prems(3) Some r move
        by (simp split: prod.splits)
    next
      case stay
      with step tail idx(1) c(1) Some r have "retain_loop f (length s) s idx del st =
          retain_loop f (length s) s (idx + len_utf8 c) del st'" by (simp add: Let_def)
      moreover have "take (idx + len_utf8 c) s = utf8 (ks @ [c])" using stay Cons.prems(2,5) by (simp add: take_add)
      ultimately show ?thesis using Cons.IH [OF c(2), of "idx + len_utf8 c" del s "ks @ [c]" st'] rest idx stay Some r
        by (simp split: prod.splits)
    qed
  qed
qed

lemma retain_eq:
  "list_all is_scalar cs \<Longrightarrow> retain f (utf8 cs) st = (case keep_run f cs st of (p, ds, st') \<Rightarrow> Some (p, utf8 ds, st'))"
  using retain_loop_eq [of cs 0 0 "utf8 cs" "[]" f st] by (simp add: retain_def)

lemma keep_run_scalar: "list_all is_scalar cs \<Longrightarrow> keep_run f cs st = (p, ds, st') \<Longrightarrow> list_all is_scalar ds"
proof (induction cs arbitrary: st p ds)
  case (Cons c cs)
  then show ?case by (fastforce split: option.splits prod.splits if_splits)
qed simp

lemma keep_run_pure: "keep_run (\<lambda>c st. Some (P c, st)) cs st = (False, filter P cs, st)"
  by (induction cs) auto

text \<open>
  Matches as a searcher reports them: the text is cut into rejected and matched pieces, and each match is the pair of the
  positions of a matched piece.
\<close>

fun match_text :: "(rchar list \<times> rchar list) list \<Rightarrow> rchar list" where
  "match_text [] = []"
| "match_text ((r, m) # segs) = r @ m @ match_text segs"

fun match_ranges :: "nat \<Rightarrow> (rchar list \<times> rchar list) list \<Rightarrow> (nat \<times> nat) list" where
  "match_ranges i [] = []"
| "match_ranges i ((r, m) # segs) =
     (let a = i + length (utf8 r); b = a + length (utf8 m) in (a, b) # match_ranges b segs)"

lemma compact_piece:
  assumes "drop i t = xs @ ys" "take n t = pre" "n \<le> i" "i + length xs \<le> length t"
  shows "\<exists>t'. (if i \<noteq> n then ptr_copy t i n (length xs) else Some t) = Some t' \<and> length t' = length t \<and>
    drop (i + length xs) t' = ys \<and> take (n + length xs) t' = pre @ xs"
proof -
  let ?k = "length xs"
  have xs: "take ?k (drop i t) = xs" "drop (i + ?k) t = ys" using assms(1) drop_drop [of ?k i t] by (simp_all add: add.commute)
  show ?thesis
  proof (cases "i = n")
    case True
    with assms xs show ?thesis by (auto simp: take_add)
  next
    case False
    let ?t = "take n t @ xs @ drop (n + ?k) t"
    have "ptr_copy t i n ?k = Some ?t" using assms(3,4) xs(1) by (simp add: ptr_copy_def)
    moreover have "drop (i + ?k) ?t = ys" using assms(3,4) xs(2) by simp
    moreover have "take (n + ?k) ?t = pre @ xs" "length ?t = length t"
      unfolding assms(2) [symmetric] using assms(3,4) by simp_all
    ultimately show ?thesis using False by (intro exI [of _ ?t]) simp
  qed
qed

lemma compact_eq:
  assumes "drop i t = utf8 (match_text segs @ rest)" "take n t = pre" "n \<le> i" "i \<le> length t"
  shows "\<exists>t' m. compact (rejections i (match_ranges i segs) (length t)) t n = Some (t', m) \<and>
     m \<le> length t' \<and> take m t' = pre @ utf8 (concat (map fst segs) @ rest)"
  using assms
proof (induction segs arbitrary: i t n pre)
  case Nil
  have len: "length (drop i t) = length (utf8 rest)" unfolding Nil.prems(1) by simp
  then have "i + length (utf8 rest) \<le> length t" "length t - i = length (utf8 rest)" using Nil.prems(4) by simp_all
  with compact_piece [of i t "utf8 rest" "[]" n pre] Nil.prems show ?case by fastforce
next
  case (Cons seg segs)
  obtain r m where seg: "seg = (r, m)" by (cases seg)
  let ?r = "length (utf8 r)" and ?m = "length (utf8 m)"
  have d: "drop i t = utf8 r @ utf8 (m @ match_text segs @ rest)" using Cons.prems(1) seg by simp
  have "length (drop i t) = ?r + ?m + length (utf8 (match_text segs @ rest))" unfolding d by simp
  then have len: "i + ?r + ?m \<le> length t" using Cons.prems(4) by (simp only: length_drop)
  obtain t' where t': "(if i \<noteq> n then ptr_copy t i n ?r else Some t) = Some t'" "length t' = length t"
      "drop (i + ?r) t' = utf8 (m @ match_text segs @ rest)" "take (n + ?r) t' = pre @ utf8 r"
    using compact_piece [OF d Cons.prems(2,3)] len by auto
  have "drop (i + ?r + ?m) t' = utf8 (match_text segs @ rest)"
    using t'(3) drop_drop [of ?m "i + ?r" t'] by (simp add: add.commute)
  from Cons.IH [OF this t'(4)] len t'(2) Cons.prems(3)
  obtain u k where "compact (rejections (i + ?r + ?m) (match_ranges (i + ?r + ?m) segs) (length t)) t' (n + ?r) = Some (u, k)"
      "k \<le> length u" "take k u = (pre @ utf8 r) @ utf8 (concat (map fst segs) @ rest)"
    by auto
  with t'(1) seg show ?case by (simp add: Let_def)
qed

lemma remove_matches_eq:
  "remove_matches (match_ranges 0 segs) (utf8 (match_text segs @ rest)) = Some (utf8 (concat (map fst segs) @ rest))"
  using compact_eq [of 0 "utf8 (match_text segs @ rest)" segs rest 0 "[]"]
  by (auto simp: remove_matches_def set_len_def)

lemma slice_range_between: "slice_range r (length s) = Some (a, b) \<Longrightarrow> a \<le> b \<and> b \<le> length s"
  by (auto simp: slice_range_def split: bind_splits if_splits)

lemma replace_range_eq:
  "replace_range s r t = (case slice_range r (length s) of
       None \<Rightarrow> None
     | Some (a, b) \<Rightarrow> if is_char_boundary s a \<and> is_char_boundary s b then Some (take a s @ t @ drop b s) else None)"
proof -
  have zero: "is_char_boundary s 0" by (simp add: is_char_boundary_def)
  show ?thesis
    by (cases r; cases "fst r"; cases "snd r")
      (auto simp: replace_range_def slice_range_def checked_succ_def zero split: if_splits)
qed

lemma string_drain_eq:
  "string_drain s r = (case slice_range r (length s) of
       None \<Rightarrow> None
     | Some (a, b) \<Rightarrow>
         if is_char_boundary s a \<and> is_char_boundary s b
         then Some \<lparr>dr_string = s, dr_start = a, dr_end = b, dr_iter = take (b - a) (drop a s)\<rparr> else None)"
  by (auto simp: string_drain_def dest: slice_range_between split: option.splits)

lemma extend_from_within_eq:
  "extend_from_within s r = (case slice_range r (length s) of
       None \<Rightarrow> None
     | Some (a, b) \<Rightarrow> if is_char_boundary s a \<and> is_char_boundary s b then Some (s @ take (b - a) (drop a s)) else None)"
  by (auto simp: extend_from_within_def dest: slice_range_between split: option.splits)

text \<open>\<open>Drain\<close> is a deque of the characters in its range, and does not touch the string before it is dropped.\<close>

definition drain_rel :: "u8 list \<Rightarrow> nat \<Rightarrow> nat \<Rightarrow> string_drain \<Rightarrow> rchar list \<Rightarrow> bool" where
  "drain_rel s a b d cs \<longleftrightarrow> dr_string d = s \<and> dr_start d = a \<and> dr_end d = b \<and> chars_rel (dr_iter d) cs"

lemma drain_nxt_law: "drain_rel s a b d cs \<Longrightarrow> \<exists>d'. drain_next d = Some (head_option cs, d') \<and> drain_rel s a b d' (tl cs)"
  using chars_nxt_law [of "dr_iter d" cs] by (auto simp: drain_rel_def drain_next_def)

lemma drain_nxt_back_law:
  "drain_rel s a b d cs \<Longrightarrow> \<exists>d'. drain_next_back d = Some (last_option cs, d') \<and> drain_rel s a b d' (butlast cs)"
  using chars_nxt_back_law [of "dr_iter d" cs] by (auto simp: drain_rel_def drain_next_back_def)

interpretation drain: double_ended_iterator drain_next drain_next_back "drain_rel s a b" for s a b
  by unfold_locales (rule drain_nxt_law drain_nxt_back_law, assumption)+

lemma drain_drop_rel: "drain_rel s a b d cs \<Longrightarrow> a \<le> b \<Longrightarrow> b \<le> length s \<Longrightarrow> drain_drop d = take a s @ drop b s"
  by (simp add: drain_rel_def drain_drop_def)


section \<open>Properties\<close>

lemma string_edits_parts:
  assumes "list_all is_scalar (c # ds @ es @ fs)"
  shows "push (utf8 ds) c = Some (utf8 (ds @ [c]))"
    and "push_str (utf8 ds) (utf8 es) = utf8 (ds @ es)"
    and "pop (utf8 ds) = Some (last_option ds, utf8 (butlast ds))"
    and "insert_char (utf8 (ds @ es)) (length (utf8 ds)) c = Some (utf8 (ds @ c # es))"
    and "insert_str (utf8 (ds @ es)) (length (utf8 ds)) (utf8 fs) = Some (utf8 (ds @ fs @ es))"
    and "remove (utf8 (ds @ c # es)) (length (utf8 ds)) = Some (c, utf8 (ds @ es))"
    and "string_truncate (utf8 (ds @ es)) (length (utf8 ds)) = Some (utf8 ds)"
    and "split_off (utf8 (ds @ es)) (length (utf8 ds)) = Some (utf8 es, utf8 ds)"
  using assms
  by (simp_all add: push_eq push_str_def pop_eq insert_char_def insert_str_def insert_bytes_eq remove_eq [simplified]
      string_truncate_def split_off_def)

text \<open>C25: \<open>String\<close> implements a list of characters. At the position between two parts of the text \<open>insert\<close> puts a character
  between them, \<open>insert_str\<close> a text, \<open>remove\<close> takes the character there out, \<open>truncate\<close> keeps the first part and
  \<open>split_off\<close> cuts in two; \<open>push\<close>, \<open>push_str\<close> and \<open>pop\<close> work at the end. None of the unsafe copies runs out of bounds.
\<close>

theorem string_edits:
  assumes "list_all is_scalar (c # ds @ es @ fs)"
  shows "push (utf8 ds) c = Some (utf8 (ds @ [c])) \<and>
    push_str (utf8 ds) (utf8 es) = utf8 (ds @ es) \<and>
    pop (utf8 ds) = Some (last_option ds, utf8 (butlast ds)) \<and>
    insert_char (utf8 (ds @ es)) (length (utf8 ds)) c = Some (utf8 (ds @ c # es)) \<and>
    insert_str (utf8 (ds @ es)) (length (utf8 ds)) (utf8 fs) = Some (utf8 (ds @ fs @ es)) \<and>
    remove (utf8 (ds @ c # es)) (length (utf8 ds)) = Some (c, utf8 (ds @ es)) \<and>
    string_truncate (utf8 (ds @ es)) (length (utf8 ds)) = Some (utf8 ds) \<and>
    split_off (utf8 (ds @ es)) (length (utf8 ds)) = Some (utf8 es, utf8 ds)"
  by ((rule conjI)?, rule string_edits_parts [OF assms])+

text \<open>The text a, euro, b.\<close>

theorem string_edits_witness:
  "insert_char (utf8 ([0x61] @ [0x62])) 1 0x20AC = Some (utf8 [0x61, 0x20AC, 0x62]) \<and>
   remove (utf8 ([0x61] @ 0x20AC # [0x62])) 1 = Some (0x20AC, utf8 [0x61, 0x62])"
proof -
  have "list_all is_scalar (0x20AC # [0x61] @ [0x62] @ [])" by code_simp
  moreover have "length (utf8 [0x61]) = 1" by code_simp
  ultimately show ?thesis using string_edits [of "0x20AC" "[0x61]" "[0x62]" "[]"] by simp
qed

text \<open>The operations on a range of a string, for every kind of range that resolves to the middle part of a text:
  \<open>replace_range\<close> puts another text in its place, \<open>extend_from_within\<close> appends a copy of it, and \<open>drain\<close> yields its
  characters in any order of calls from both ends; when the iterator is dropped the part is gone, however much of it was
  iterated over.
\<close>

theorem string_ranges:
  assumes "list_all is_scalar (ds @ es @ fs)"
    and "slice_range r (length (utf8 (ds @ es @ fs))) = Some (length (utf8 ds), length (utf8 (ds @ es)))"
  shows "replace_range (utf8 (ds @ es @ fs)) r (utf8 gs) = Some (utf8 (ds @ gs @ fs))"
    and "extend_from_within (utf8 (ds @ es @ fs)) r = Some (utf8 (ds @ es @ fs @ es))"
    and "\<exists>d d'. string_drain (utf8 (ds @ es @ fs)) r = Some d \<and>
      iter_run drain_next drain_next_back ops d = Some (fst (deque_run ops es), d') \<and> drain_drop d' = utf8 (ds @ fs)"
proof -
  let ?s = "utf8 (ds @ es @ fs)" and ?a = "length (utf8 ds)" and ?b = "length (utf8 (ds @ es))"
  have b: "is_char_boundary ?s ?a" "is_char_boundary ?s ?b"
    using assms(1) boundary_between [of ds "es @ fs"] boundary_between [of "ds @ es" fs] by simp_all
  show "replace_range ?s r (utf8 gs) = Some (utf8 (ds @ gs @ fs))"
    using b by (simp only: replace_range_eq assms(2)) simp
  show "extend_from_within ?s r = Some (utf8 (ds @ es @ fs @ es))"
    using b by (simp only: extend_from_within_eq assms(2)) simp
  let ?d = "\<lparr>dr_string = ?s, dr_start = ?a, dr_end = ?b, dr_iter = take (?b - ?a) (drop ?a ?s)\<rparr>"
  have d: "string_drain ?s r = Some ?d" using b by (simp only: string_drain_eq assms(2)) simp
  have "drain_rel ?s ?a ?b ?d es" using assms(1) by (simp add: drain_rel_def chars_rel_def)
  from drain.run_refines_deque [OF this, of ops] obtain d' where
    d': "iter_run drain_next drain_next_back ops ?d = Some (fst (deque_run ops es), d')"
      "drain_rel ?s ?a ?b d' (snd (deque_run ops es))" by blast
  moreover have "drain_drop d' = utf8 (ds @ fs)" using drain_drop_rel [OF d'(2)] by simp
  ultimately show "\<exists>d d'. string_drain ?s r = Some d \<and>
      iter_run drain_next drain_next_back ops d = Some (fst (deque_run ops es), d') \<and> drain_drop d' = utf8 (ds @ fs)"
    using d by blast
qed

text \<open>The range \<open>1..=3\<close> of the text a, euro, b.\<close>

theorem string_ranges_witness:
  "slice_range (Included 1, Included 3) 5 = Some (1, 4) \<and>
   replace_range (utf8 ([0x61] @ [0x20AC] @ [0x62])) (Included 1, Included 3) (utf8 []) = Some (utf8 [0x61, 0x62])"
proof -
  have s: "list_all is_scalar ([0x61] @ [0x20AC] @ [0x62])" by code_simp
  have r: "slice_range (Included 1, Included 3) 5 = Some (1, 4)"
    by (simp add: slice_range_def checked_succ_def USIZE_MAX_def)
  have l: "length (utf8 ([0x61] @ [0x20AC] @ [0x62])) = 5" "length (utf8 [0x61]) = 1" "length (utf8 ([0x61] @ [0x20AC])) = 4"
    by code_simp+
  have "slice_range (Included 1, Included 3) (length (utf8 ([0x61] @ [0x20AC] @ [0x62]))) =
      Some (length (utf8 [0x61]), length (utf8 ([0x61] @ [0x20AC])))" unfolding l by (rule r)
  from string_ranges(1) [OF s this, of "[]"] r show ?thesis by simp
qed

lemma string_panics_parts:
  assumes "valid_utf8 s"
  shows "insert_char s i c = None \<longleftrightarrow> i \<notin> boundaries s"
    and "insert_str s i t = None \<longleftrightarrow> i \<notin> boundaries s"
    and "split_off s i = None \<longleftrightarrow> i \<notin> boundaries s"
    and "string_truncate s i = None \<longleftrightarrow> i \<le> length s \<and> i \<notin> boundaries s"
    and "remove s i = None \<longleftrightarrow> i \<notin> boundaries s \<or> i = length s"
    and "replace_range s r t = None \<longleftrightarrow> (\<forall>a \<in> boundaries s. \<forall>b \<in> boundaries s. slice_range r (length s) \<noteq> Some (a, b))"
    and "string_drain s r = None \<longleftrightarrow> (\<forall>a \<in> boundaries s. \<forall>b \<in> boundaries s. slice_range r (length s) \<noteq> Some (a, b))"
proof -
  note b = boundaries_is_char_boundary [OF assms]
  show "insert_char s i c = None \<longleftrightarrow> i \<notin> boundaries s" "insert_str s i t = None \<longleftrightarrow> i \<notin> boundaries s"
    "split_off s i = None \<longleftrightarrow> i \<notin> boundaries s" "string_truncate s i = None \<longleftrightarrow> i \<le> length s \<and> i \<notin> boundaries s"
    using boundaries_le [of i s]
    by (auto simp: b [symmetric] insert_char_def insert_str_def insert_bytes_eq split_off_def string_truncate_def)
  show "replace_range s r t = None \<longleftrightarrow> (\<forall>a \<in> boundaries s. \<forall>b \<in> boundaries s. slice_range r (length s) \<noteq> Some (a, b))"
    "string_drain s r = None \<longleftrightarrow> (\<forall>a \<in> boundaries s. \<forall>b \<in> boundaries s. slice_range r (length s) \<noteq> Some (a, b))"
    by (auto simp: replace_range_eq string_drain_eq b [symmetric] split: option.splits)
  show "remove s i = None \<longleftrightarrow> i \<notin> boundaries s \<or> i = length s"
  proof (cases "i \<in> boundaries s \<and> i \<noteq> length s")
    case True
    obtain cs where cs: "list_all is_scalar cs" "s = utf8 cs" using assms by (auto simp: valid_utf8_def)
    with True b boundary_split obtain ds es where de: "cs = ds @ es" "i = length (utf8 ds)" by blast
    with True cs obtain c es' where "es = c # es'" by (cases es) auto
    with remove_eq [of ds es' c] cs de True show ?thesis by simp
  next
    case False
    then have "remove s i = None"
      using b [of i] by (auto simp: remove_def index_range_from_def get_range_from_def)
    with False show ?thesis by blast
  qed
qed

text \<open>Where the string operations panic: exactly at the positions that are no character boundary, for \<open>remove\<close> also at
  the end of the text, for \<open>truncate\<close> only within the text, and for ranges if the range does not resolve or one of its
  ends is no boundary.
\<close>

theorem string_panics:
  assumes "valid_utf8 s"
  shows "(insert_char s i c = None \<longleftrightarrow> i \<notin> boundaries s) \<and>
    (insert_str s i t = None \<longleftrightarrow> i \<notin> boundaries s) \<and>
    (split_off s i = None \<longleftrightarrow> i \<notin> boundaries s) \<and>
    (string_truncate s i = None \<longleftrightarrow> i \<le> length s \<and> i \<notin> boundaries s) \<and>
    (remove s i = None \<longleftrightarrow> i \<notin> boundaries s \<or> i = length s) \<and>
    (replace_range s r t = None \<longleftrightarrow> (\<forall>a \<in> boundaries s. \<forall>b \<in> boundaries s. slice_range r (length s) \<noteq> Some (a, b))) \<and>
    (string_drain s r = None \<longleftrightarrow> (\<forall>a \<in> boundaries s. \<forall>b \<in> boundaries s. slice_range r (length s) \<noteq> Some (a, b)))"
  by ((rule conjI)?, rule string_panics_parts [OF assms])+

text \<open>Inside the euro sign.\<close>

theorem string_panics_witness:
  "valid_utf8 [0xE2, 0x82, 0xAC] \<and> 1 \<notin> boundaries [0xE2, 0x82, 0xAC] \<and> insert_char [0xE2, 0x82, 0xAC] 1 0x61 = None"
proof -
  have "list_all is_scalar [0x20AC] \<and> utf8 [0x20AC] = [0xE2, 0x82, 0xAC]" by code_simp
  then have v: "valid_utf8 [0xE2, 0x82, 0xAC]" unfolding valid_utf8_def by metis
  have "insert_char [0xE2, 0x82, 0xAC] 1 0x61 = None" by code_simp
  with v string_panics [OF v, of 1 "0x61"] show ?thesis by blast
qed

lemma retain_correct_parts:
  assumes "list_all is_scalar cs"
  shows "retain f (utf8 cs) st = (case keep_run f cs st of (p, ds, st') \<Rightarrow> Some (p, utf8 ds, st'))"
    and "\<exists>p t st'. retain f (utf8 cs) st = Some (p, t, st') \<and> valid_utf8 t"
    and "retain (\<lambda>c st. Some (P c, st)) (utf8 cs) st = Some (False, utf8 (filter P cs), st)"
proof -
  show eq: "retain f (utf8 cs) st = (case keep_run f cs st of (p, ds, st') \<Rightarrow> Some (p, utf8 ds, st'))" by (rule retain_eq [OF assms])
  obtain p ds st' where r: "keep_run f cs st = (p, ds, st')" by (cases "keep_run f cs st")
  with eq keep_run_scalar [OF assms r] show "\<exists>p t st'. retain f (utf8 cs) st = Some (p, t, st') \<and> valid_utf8 t" by auto
  show "retain (\<lambda>c st. Some (P c, st)) (utf8 cs) st = Some (False, utf8 (filter P cs), st)"
    by (simp add: retain_eq [OF assms] keep_run_pure)
qed

text \<open>C16: \<open>retain\<close> with a closure that has a state and may panic. It keeps the characters the closure says to keep, in order,
  asking once for each from the front; if the closure panics, the guard leaves the string with the characters kept so
  far, so that it is valid UTF-8 even then. With a pure closure it is the filter of the characters.
\<close>

theorem retain_correct:
  assumes "list_all is_scalar cs"
  shows "retain f (utf8 cs) st = (case keep_run f cs st of (p, ds, st') \<Rightarrow> Some (p, utf8 ds, st')) \<and>
    (\<exists>p t st'. retain f (utf8 cs) st = Some (p, t, st') \<and> valid_utf8 t) \<and>
    retain (\<lambda>c st. Some (P c, st)) (utf8 cs) st = Some (False, utf8 (filter P cs), st)"
  by ((rule conjI)?, rule retain_correct_parts [OF assms])+

text \<open>Keeping what is not ASCII, in a text of four characters.\<close>

theorem retain_correct_witness:
  "retain (\<lambda>c st. Some (0x80 \<le> c, st)) (utf8 [0x61, 0x20AC, 0x62, 0xE9]) () = Some (False, utf8 [0x20AC, 0xE9], ())"
proof -
  have s: "list_all is_scalar [0x61, 0x20AC, 0x62, 0xE9]" by code_simp
  have "retain (\<lambda>c st. Some (0x80 \<le> c, st)) (utf8 [0x61, 0x20AC, 0x62, 0xE9]) () =
      Some (False, utf8 (filter (\<lambda>c. 0x80 \<le> c) [0x61, 0x20AC, 0x62, 0xE9]), ())"
    using retain_correct [OF s, of "\<lambda>c st. Some (0x80 \<le> c, st)" "()" "\<lambda>c. 0x80 \<le> c"] by (elim conjE)
  then show ?thesis by simp
qed

text \<open>\<open>remove_matches\<close>: if a searcher reports the matched pieces of a text, in order and with their byte positions, then
  what is left is the text without them; the copies stay within the buffer.
\<close>

theorem remove_matches_correct:
  "remove_matches (match_ranges 0 segs) (utf8 (match_text segs @ rest)) = Some (utf8 (concat (map fst segs) @ rest))"
  by (rule remove_matches_eq)


section \<open>The invariant of \<open>String\<close>\<close>

text \<open>Each operation keeps the bytes valid UTF-8, whatever position or range it is called with.\<close>

lemma valid_remove_between:
  "valid_utf8 s \<Longrightarrow> valid_utf8 (take a s) \<Longrightarrow> valid_utf8 (take b s) \<Longrightarrow> valid_utf8 t \<Longrightarrow> valid_utf8 (take a s @ t @ drop b s)"
  by (intro valid_utf8_append valid_utf8_boundary_drop)

lemma valid_utf8_bytes [simp]: "is_scalar c \<Longrightarrow> valid_utf8 (utf8_bytes c)"
  using valid_utf8_chars [of "[c]"] by simp

lemma boundary_valid: "valid_utf8 s \<Longrightarrow> is_char_boundary s i \<Longrightarrow> valid_utf8 (take i s)"
  by (simp add: is_char_boundary_iff)

lemma push_valid: "valid_utf8 s \<Longrightarrow> is_scalar c \<Longrightarrow> push s c = Some t \<Longrightarrow> valid_utf8 t"
  by (auto simp: push_eq intro: valid_utf8_append)

lemma truncate_valid: "valid_utf8 s \<Longrightarrow> string_truncate s i = Some t \<Longrightarrow> valid_utf8 t"
  by (auto simp: string_truncate_def intro: boundary_valid split: if_splits)

lemma pop_valid: "valid_utf8 s \<Longrightarrow> pop s = Some (r, t) \<Longrightarrow> valid_utf8 t"
proof -
  assume v: "valid_utf8 s" and p: "pop s = Some (r, t)"
  then obtain cs where "list_all is_scalar cs" "s = utf8 cs" by (auto simp: valid_utf8_def)
  with p pop_eq have "t = utf8 (butlast cs)" "list_all is_scalar (butlast cs)"
    by (auto simp: list_all_iff dest: in_set_butlastD)
  then show ?thesis by simp
qed

lemma insert_bytes_valid:
  "valid_utf8 s \<Longrightarrow> valid_utf8 t \<Longrightarrow> is_char_boundary s i \<Longrightarrow> insert_bytes s i t = Some u \<Longrightarrow> valid_utf8 u"
  by (auto simp: insert_bytes_eq intro: valid_remove_between boundary_valid split: if_splits)

lemma insert_char_valid: "valid_utf8 s \<Longrightarrow> is_scalar c \<Longrightarrow> insert_char s i c = Some t \<Longrightarrow> valid_utf8 t"
  using insert_bytes_valid [of s "utf8_bytes c" i t] by (auto simp: insert_char_def split: if_splits)

lemma insert_str_valid: "valid_utf8 s \<Longrightarrow> valid_utf8 u \<Longrightarrow> insert_str s i u = Some t \<Longrightarrow> valid_utf8 t"
  by (auto simp: insert_str_def intro: insert_bytes_valid split: if_splits)

lemma remove_valid: "valid_utf8 s \<Longrightarrow> remove s i = Some (c, t) \<Longrightarrow> valid_utf8 t"
proof -
  assume v: "valid_utf8 s" and r: "remove s i = Some (c, t)"
  from v obtain cs where cs: "list_all is_scalar cs" "s = utf8 cs" by (auto simp: valid_utf8_def)
  from r have "is_char_boundary s i" by (auto simp: remove_def index_range_from_def get_range_from_def split: if_splits)
  with cs boundary_split obtain ds es where de: "cs = ds @ es" "i = length (utf8 ds)" by blast
  show ?thesis
  proof (cases es)
    case Nil
    with r cs de show ?thesis by (simp add: remove_def index_range_from_def get_range_from_def)
  next
    case (Cons d es')
    with remove_eq [of ds es' d] cs de r show ?thesis by (auto intro: valid_utf8_append)
  qed
qed

lemma split_off_valid:
  "valid_utf8 s \<Longrightarrow> split_off s i = Some (t, u) \<Longrightarrow> valid_utf8 t"
  "valid_utf8 s \<Longrightarrow> split_off s i = Some (t, u) \<Longrightarrow> valid_utf8 u"
  by (auto simp: split_off_def intro: boundary_valid valid_utf8_boundary_drop split: if_splits)

lemma extend_from_within_valid: "valid_utf8 s \<Longrightarrow> extend_from_within s r = Some t \<Longrightarrow> valid_utf8 t"
  by (auto simp: extend_from_within_eq dest: slice_range_between split: option.splits if_splits
      intro!: valid_utf8_append valid_utf8_between intro: boundary_valid)

lemma replace_range_valid: "valid_utf8 s \<Longrightarrow> valid_utf8 u \<Longrightarrow> replace_range s r u = Some t \<Longrightarrow> valid_utf8 t"
  by (auto simp: replace_range_eq intro!: valid_remove_between intro: boundary_valid split: option.splits if_splits)

lemma drain_frame:
  "iter_run drain_next drain_next_back ops d = Some (rs, d') \<Longrightarrow>
     dr_string d' = dr_string d \<and> dr_start d' = dr_start d \<and> dr_end d' = dr_end d"
proof (induction ops arbitrary: d rs)
  case (Cons e ops)
  let ?step = "case e of Front \<Rightarrow> drain_next d | Back \<Rightarrow> drain_next_back d"
  obtain r d1 rs' where d1: "?step = Some (r, d1)" "iter_run drain_next drain_next_back ops d1 = Some (rs', d')"
    using Cons.prems by (auto split: bind_splits)
  from d1(1) have "dr_string d1 = dr_string d \<and> dr_start d1 = dr_start d \<and> dr_end d1 = dr_end d"
    by (auto simp: drain_next_def drain_next_back_def split: end_op.splits bind_splits)
  with Cons.IH [OF d1(2)] show ?case by simp
qed simp

lemma drain_valid:
  assumes "valid_utf8 s" "string_drain s r = Some d" "iter_run drain_next drain_next_back ops d = Some (rs, d')"
  shows "valid_utf8 (drain_drop d')"
proof -
  obtain a b where "slice_range r (length s) = Some (a, b)" "is_char_boundary s a" "is_char_boundary s b"
      "d = \<lparr>dr_string = s, dr_start = a, dr_end = b, dr_iter = take (b - a) (drop a s)\<rparr>"
    using assms(2) by (auto simp: string_drain_eq split: option.splits if_splits)
  with drain_frame [OF assms(3)] slice_range_between assms(1) show ?thesis
    using valid_remove_between [of s a b "[]"] by (auto simp: drain_drop_def boundary_valid)
qed

lemma retain_valid: "valid_utf8 s \<Longrightarrow> retain f s st = Some (p, t, st') \<Longrightarrow> valid_utf8 t"
proof -
  assume "valid_utf8 s" and r: "retain f s st = Some (p, t, st')"
  then obtain cs where cs: "list_all is_scalar cs" "s = utf8 cs" by (auto simp: valid_utf8_def)
  with r obtain ds where ds: "keep_run f cs st = (p, ds, st')" "t = utf8 ds" by (auto simp: retain_eq split: prod.splits)
  from keep_run_scalar [OF cs(1) ds(1)] ds(2) show ?thesis by simp
qed

lemma string_from_utf8_valid: "string_from_utf8 align v = Some (Ok s) \<longleftrightarrow> s = v \<and> valid_utf8 v"
proof -
  obtain r where r: "run_utf8_validation align v = Some r" "case r of Ok _ \<Rightarrow> valid_utf8 v | Err e \<Rightarrow> utf8_error_ok v e"
    using validation_loop_spec [of 0 v align] by (auto simp: run_utf8_validation_def)
  with utf8_error_exact(2) [of v] show ?thesis
    by (cases r) (auto simp: string_from_utf8_def from_utf8_def)
qed

lemma remove_matches_valid:
  assumes "list_all is_scalar (match_text segs @ rest)"
    and "remove_matches (match_ranges 0 segs) (utf8 (match_text segs @ rest)) = Some t"
  shows "valid_utf8 t"
proof -
  have "list_all is_scalar (match_text segs) \<Longrightarrow> list_all is_scalar (concat (map fst segs))" by (induction segs rule: match_text.induct) auto
  then show ?thesis using assms remove_matches_eq [of segs rest] valid_utf8_chars [of "concat (map fst segs) @ rest"] by simp
qed

lemmas string_ops_valid = push_valid truncate_valid pop_valid remove_valid insert_char_valid insert_str_valid
  split_off_valid extend_from_within_valid replace_range_valid drain_valid retain_valid remove_matches_valid

text \<open>
  The strings that a program can make with the operations. The searcher of \<open>remove_matches\<close> finds pieces of the text, in
  order, which is what its unsafe trait \<open>Searcher\<close> promises.
\<close>

inductive string_reach :: "u8 list \<Rightarrow> bool" where
  "string_reach string_new"
| "string_from_utf8 align v = Some (Ok s) \<Longrightarrow> string_reach s"
| "string_reach s \<Longrightarrow> is_scalar c \<Longrightarrow> push s c = Some t \<Longrightarrow> string_reach t"
| "string_reach s \<Longrightarrow> string_reach t \<Longrightarrow> string_reach (push_str s t)"
| "string_reach s \<Longrightarrow> string_truncate s i = Some t \<Longrightarrow> string_reach t"
| "string_reach s \<Longrightarrow> pop s = Some (r, t) \<Longrightarrow> string_reach t"
| "string_reach s \<Longrightarrow> remove s i = Some (c, t) \<Longrightarrow> string_reach t"
| "string_reach s \<Longrightarrow> is_scalar c \<Longrightarrow> insert_char s i c = Some t \<Longrightarrow> string_reach t"
| "string_reach s \<Longrightarrow> string_reach u \<Longrightarrow> insert_str s i u = Some t \<Longrightarrow> string_reach t"
| "string_reach s \<Longrightarrow> split_off s i = Some (t, u) \<Longrightarrow> string_reach t"
| "string_reach s \<Longrightarrow> split_off s i = Some (t, u) \<Longrightarrow> string_reach u"
| "string_reach s \<Longrightarrow> extend_from_within s rng = Some t \<Longrightarrow> string_reach t"
| "string_reach s \<Longrightarrow> string_reach u \<Longrightarrow> replace_range s rng u = Some t \<Longrightarrow> string_reach t"
| "string_reach s \<Longrightarrow> string_drain s rng = Some d \<Longrightarrow> iter_run drain_next drain_next_back ops d = Some (rs, d') \<Longrightarrow>
     string_reach (drain_drop d')"
| "string_reach s \<Longrightarrow> retain f s (st :: nat) = Some (p, t, st') \<Longrightarrow> string_reach t"
| "string_reach (utf8 (match_text segs @ rest)) \<Longrightarrow> list_all is_scalar (match_text segs @ rest) \<Longrightarrow>
     remove_matches (match_ranges 0 segs) (utf8 (match_text segs @ rest)) = Some t \<Longrightarrow> string_reach t"

lemma string_reach_valid: "string_reach s \<Longrightarrow> valid_utf8 s"
proof (induction rule: string_reach.induct)
  case (2 align v s)
  then show ?case by (simp add: string_from_utf8_valid)
qed (simp add: string_new_def, ((rule string_ops_valid; assumption) | simp add: push_str_def valid_utf8_append)+)

text \<open>C3: The invariant of \<open>String\<close>: the strings that can be made with \<open>new\<close>, \<open>from_utf8\<close> and every operation above, in
  any order, with any positions, ranges, closures (panicking ones included) and searchers, are exactly the valid UTF-8 byte lists.
  Every use of \<open>from_utf8_unchecked\<close> on the bytes of a string is therefore sound.
\<close>

theorem string_invariant: "string_reach s \<longleftrightarrow> valid_utf8 s"
proof
  assume "valid_utf8 s"
  then have "string_from_utf8 0 s = Some (Ok s)" by (simp add: string_from_utf8_valid)
  then show "string_reach s" by (rule string_reach.intros)
qed (rule string_reach_valid)

end
