(* ===== verification/Init_Mask.thy ===== *)
theory Init_Mask
  imports Bit_Words Slice_Search
begin

text \<open>
  Which bytes of an allocation of the compile-time interpreter are initialised: \<open>InitMask\<close>, its search for the next bit,
  its chunks and the run-length encoding that copies a part of it, from
  \<open>compiler/rustc_middle/src/mir/interpret/allocation.rs\<close>. A \<open>Size\<close> is a \<open>nat\<close>; its arithmetic panics where the result
  does not fit into 64 bits, as that of \<open>rustc_target::abi::Size\<close> does. The blocks of a mask are a vector of words, so the
  set of initialised positions is \<open>bits\<close> of it. Debug assertions are part of the model.
\<close>

section \<open>Sizes and the mask\<close>

definition size_add :: "nat \<Rightarrow> nat \<Rightarrow> nat option" where
  "size_add a b = (if a + b < 2 ^ 64 then Some (a + b) else None)"

definition size_mul :: "nat \<Rightarrow> nat \<Rightarrow> nat option" where
  "size_mul a b = (if a * b < 2 ^ 64 then Some (a * b) else None)"

record init_mask =
  blocks :: "u64 list"
  mask_len :: nat

definition BLOCK_SIZE :: nat where "BLOCK_SIZE = 64"

definition bit_index :: "nat \<Rightarrow> nat \<times> nat" where
  "bit_index bits' = (let a = bits' div BLOCK_SIZE; b = bits' mod BLOCK_SIZE in (a, b))"

definition size_from_bit_index :: "nat \<Rightarrow> nat \<Rightarrow> nat" where
  "size_from_bit_index block bit' = block * BLOCK_SIZE + bit'"

text \<open>\<open>self.blocks[i] |= w\<close> and \<open>self.blocks[i] &= !w\<close>.\<close>

definition or_block :: "nat \<Rightarrow> u64 \<Rightarrow> u64 list \<Rightarrow> u64 list option" where
  "or_block i w bs = do { b \<leftarrow> index_at bs i; store_at bs i (b OR w) }"

definition clear_block :: "nat \<Rightarrow> u64 \<Rightarrow> u64 list \<Rightarrow> u64 list option" where
  "clear_block i w bs = do { b \<leftarrow> index_at bs i; store_at bs i (b AND NOT w) }"

definition set_range_inbounds :: "nat \<Rightarrow> nat \<Rightarrow> bool \<Rightarrow> init_mask \<Rightarrow> init_mask option" where
  "set_range_inbounds start end' new_state m = do {
     let (blocka, bita) = bit_index start;
     let (blockb, bitb) = bit_index end';
     if blocka = blockb then do {
       let range' = (if bitb = 0 then push_bit bita (-1) else push_bit bita (-1) AND drop_bit (64 - bitb) (-1));
       bs \<leftarrow> (if new_state then or_block blocka range' (blocks m) else clear_block blocka range' (blocks m));
       Some (m\<lparr>blocks := bs\<rparr>)
     } else if new_state then do {
       bs \<leftarrow> or_block blocka (push_bit bita (-1)) (blocks m);
       bs \<leftarrow> (if bitb \<noteq> 0 then or_block blockb (drop_bit (64 - bitb) (-1)) bs else Some bs);
       bs \<leftarrow> for_range (blocka + 1) blockb (\<lambda>block bs. store_at bs block (-1)) bs;
       Some (m\<lparr>blocks := bs\<rparr>)
     } else do {
       bs \<leftarrow> clear_block blocka (push_bit bita (-1)) (blocks m);
       bs \<leftarrow> (if bitb \<noteq> 0 then clear_block blockb (drop_bit (64 - bitb) (-1)) bs else Some bs);
       bs \<leftarrow> for_range (blocka + 1) blockb (\<lambda>block bs. store_at bs block 0) bs;
       Some (m\<lparr>blocks := bs\<rparr>)
     }
   }"

definition mask_get :: "init_mask \<Rightarrow> nat \<Rightarrow> bool option" where
  "mask_get m i = do {
     let (block, bit') = bit_index i;
     b \<leftarrow> index_at (blocks m) block;
     Some (b AND push_bit bit' 1 \<noteq> 0)
   }"

definition mask_set_bit :: "nat \<Rightarrow> nat \<Rightarrow> bool \<Rightarrow> init_mask \<Rightarrow> init_mask option" where
  "mask_set_bit block bit' new_state m = do {
     bs \<leftarrow> (if new_state then or_block block (push_bit bit' 1) (blocks m) else clear_block block (push_bit bit' 1) (blocks m));
     Some (m\<lparr>blocks := bs\<rparr>)
   }"

definition mask_set :: "nat \<Rightarrow> bool \<Rightarrow> init_mask \<Rightarrow> init_mask option" where
  "mask_set i new_state m = (let (block, bit') = bit_index i in mask_set_bit block bit' new_state m)"

definition mask_grow :: "nat \<Rightarrow> bool \<Rightarrow> init_mask \<Rightarrow> init_mask option" where
  "mask_grow amount new_state m =
     (if amount = 0 then Some m
      else do {
        unused_trailing_bits \<leftarrow> checked_sub (length (blocks m) * BLOCK_SIZE) (mask_len m);
        let m = (if unused_trailing_bits < amount
                 then m\<lparr>blocks := blocks m @ replicate (amount div BLOCK_SIZE + 1) 0\<rparr> else m);
        let start = mask_len m;
        end' \<leftarrow> size_add start amount;
        let m = m\<lparr>mask_len := end'\<rparr>;
        set_range_inbounds start end' new_state m
      })"

definition mask_new :: "nat \<Rightarrow> bool \<Rightarrow> init_mask option" where
  "mask_new size' state' = mask_grow size' state' \<lparr>blocks = [], mask_len = 0\<rparr>"

definition set_range :: "nat \<Rightarrow> nat \<Rightarrow> bool \<Rightarrow> init_mask \<Rightarrow> init_mask option" where
  "set_range start end' new_state m = do {
     let len = mask_len m;
     m \<leftarrow> (if len < end' then do { d \<leftarrow> checked_sub end' len; mask_grow d new_state m } else Some m);
     set_range_inbounds start end' new_state m
   }"


section \<open>Searching\<close>

definition search_block :: "u64 \<Rightarrow> nat \<Rightarrow> nat \<Rightarrow> bool \<Rightarrow> nat option" where
  "search_block bits' block start_bit is_init =
     (let bits' = (if is_init then bits' else NOT bits');
          bits' = bits' AND push_bit start_bit (-1)
      in if bits' = 0 then None else Some (size_from_bit_index block (trailing_zeros bits')))"

fun search_blocks :: "u64 list \<Rightarrow> nat \<Rightarrow> nat \<Rightarrow> bool \<Rightarrow> nat option" where
  "search_blocks [] block end' is_init = None"
| "search_blocks (b # bs) block end' is_init =
     (case search_block b block 0 is_init of
        Some i \<Rightarrow> if i < end' then Some i else None
      | None \<Rightarrow> search_blocks bs (block + 1) end' is_init)"

definition find_bit_fast :: "init_mask \<Rightarrow> nat \<Rightarrow> nat \<Rightarrow> bool \<Rightarrow> nat option option" where
  "find_bit_fast m start end' is_init =
     (if end' \<le> start then Some None
      else do {
        let (start_block, start_bit) = bit_index start;
        let end_inclusive = end' - 1;
        let (end_block_inclusive, _) = bit_index end_inclusive;
        b \<leftarrow> index_at (blocks m) start_block;
        (case search_block b start_block start_bit is_init of
           Some i \<Rightarrow> if i < end' then Some (Some i) else Some None
         | None \<Rightarrow>
             if start_block < end_block_inclusive then do {
               bs \<leftarrow> slice (blocks m) (start_block + 1) (end_block_inclusive + 1);
               Some (search_blocks bs (start_block + 1) end' is_init)
             } else Some None)
      })"

function find_bit_slow :: "init_mask \<Rightarrow> nat \<Rightarrow> nat \<Rightarrow> bool \<Rightarrow> nat option option" where
  "find_bit_slow m i end' is_init =
     (if i < end' then do {
        b \<leftarrow> mask_get m i;
        if b = is_init then Some (Some i) else find_bit_slow m (i + 1) end' is_init
      } else Some None)"
  by pat_completeness auto
termination by (relation "measure (\<lambda>(m, i, e, b). e - i)") auto

declare find_bit_slow.simps [simp del]

definition find_bit :: "init_mask \<Rightarrow> nat \<Rightarrow> nat \<Rightarrow> bool \<Rightarrow> nat option option" where
  "find_bit m start end' is_init = do {
     r \<leftarrow> find_bit_fast m start end' is_init;
     r' \<leftarrow> find_bit_slow m start end' is_init;
     assert_that (r = r');
     Some r
   }"


section \<open>Chunks\<close>

datatype init_chunk = Init "nat \<times> nat" | Uninit "nat \<times> nat"

fun chunk_is_init :: "init_chunk \<Rightarrow> bool" where
  "chunk_is_init (Init _) = True"
| "chunk_is_init (Uninit _) = False"

fun chunk_range :: "init_chunk \<Rightarrow> nat \<times> nat" where
  "chunk_range (Init r) = r"
| "chunk_range (Uninit r) = r"

definition is_range_initialized :: "init_mask \<Rightarrow> nat \<Rightarrow> nat \<Rightarrow> (unit, nat \<times> nat) result option" where
  "is_range_initialized m start end' =
     (if mask_len m < end' then Some (Err (mask_len m, end'))
      else do {
        uninit_start \<leftarrow> find_bit m start end' False;
        (case uninit_start of
           Some uninit_start \<Rightarrow> do {
             r \<leftarrow> find_bit m uninit_start end' True;
             let uninit_end = (case r of None \<Rightarrow> end' | Some e \<Rightarrow> e);
             Some (Err (uninit_start, uninit_end))
           }
         | None \<Rightarrow> Some (Ok ()))
      })"

record init_chunk_iter =
  ic_mask :: init_mask
  ic_is_init :: bool
  ic_start :: nat
  ic_end :: nat

definition range_as_init_chunks :: "init_mask \<Rightarrow> nat \<Rightarrow> nat \<Rightarrow> init_chunk_iter option" where
  "range_as_init_chunks m start end' = do {
     assert_that (end' \<le> mask_len m);
     is_init \<leftarrow> (if start < end' then mask_get m start else Some False);
     Some \<lparr>ic_mask = m, ic_is_init = is_init, ic_start = start, ic_end = end'\<rparr>
   }"

definition init_chunk_next :: "init_chunk_iter \<Rightarrow> (init_chunk option \<times> init_chunk_iter) option" where
  "init_chunk_next it =
     (if ic_end it \<le> ic_start it then Some (None, it)
      else do {
        r \<leftarrow> find_bit (ic_mask it) (ic_start it) (ic_end it) (\<not> ic_is_init it);
        let end_of_chunk = (case r of None \<Rightarrow> ic_end it | Some e \<Rightarrow> e);
        let range' = (ic_start it, end_of_chunk);
        let ret = (if ic_is_init it then Init range' else Uninit range');
        Some (Some ret, it\<lparr>ic_is_init := \<not> ic_is_init it, ic_start := end_of_chunk\<rparr>)
      })"

text \<open>\<open>for chunk in chunks\<close>, collecting the chunks.\<close>

partial_function (option) init_chunks :: "init_chunk_iter \<Rightarrow> init_chunk list option" where
  "init_chunks it = do {
     (r, it') \<leftarrow> init_chunk_next it;
     (case r of
        None \<Rightarrow> Some []
      | Some c \<Rightarrow> do { cs \<leftarrow> init_chunks it'; Some (c # cs) })
   }"

declare init_chunks.simps [code]


section \<open>Run-length encoding\<close>

record alloc_range =
  ar_start :: nat
  ar_size :: nat

definition alloc_range_end :: "alloc_range \<Rightarrow> nat option" where
  "alloc_range_end r = size_add (ar_start r) (ar_size r)"

record init_mask_compressed =
  imc_initial :: bool
  imc_ranges :: "nat list"

definition no_bytes_init :: "init_mask_compressed \<Rightarrow> bool" where
  "no_bytes_init c \<longleftrightarrow> \<not> imc_initial c \<and> length (imc_ranges c) = 1"

text \<open>\<open>expect\<close> on the first chunk panics for an empty range.\<close>

definition compress_uninit_range :: "init_mask \<Rightarrow> alloc_range \<Rightarrow> init_mask_compressed option" where
  "compress_uninit_range m r = do {
     e \<leftarrow> alloc_range_end r;
     it \<leftarrow> range_as_init_chunks m (ar_start r) e;
     chunks \<leftarrow> init_chunks it;
     initial \<leftarrow> (case chunks of [] \<Rightarrow> None | c # _ \<Rightarrow> Some (chunk_is_init c));
     ranges \<leftarrow> those (map (\<lambda>c. checked_sub (snd (chunk_range c)) (fst (chunk_range c))) chunks);
     Some \<lparr>imc_initial = initial, imc_ranges = ranges\<rparr>
   }"

fun mark_ranges :: "nat list \<Rightarrow> nat \<Rightarrow> bool \<Rightarrow> init_mask \<Rightarrow> init_mask option" where
  "mark_ranges [] j cur m = Some m"
| "mark_ranges (r # rs) j cur m = do {
     let old_j = j;
     j \<leftarrow> size_add j r;
     m \<leftarrow> set_range_inbounds old_j j cur m;
     mark_ranges rs j (\<not> cur) m
   }"

definition mark_compressed_init_range :: "init_mask_compressed \<Rightarrow> alloc_range \<Rightarrow> nat \<Rightarrow> init_mask \<Rightarrow> init_mask option" where
  "mark_compressed_init_range defined r repeat' m =
     (if length (imc_ranges defined) \<le> 1 then do {
        n \<leftarrow> size_mul (ar_size r) repeat';
        e \<leftarrow> size_add (ar_start r) n;
        set_range_inbounds (ar_start r) e (imc_initial defined) m
      } else
        for_range 0 repeat' (\<lambda>j m. do {
          j \<leftarrow> size_mul j (ar_size r);
          j \<leftarrow> size_add j (ar_start r);
          mark_ranges (imc_ranges defined) j (imc_initial defined) m
        }) m)"


section \<open>The mask of an allocation\<close>

record uninit_bytes_access =
  access_offset :: nat
  access_size :: nat
  uninit_offset :: nat
  uninit_size :: nat

record scalar_size_mismatch =
  target_size :: nat
  data_size :: nat

datatype alloc_error =
    ScalarSizeMismatch scalar_size_mismatch
  | ReadPointerAsBytes
  | PartialPointerOverwrite nat
  | InvalidUninitBytes "uninit_bytes_access option"

definition alloc_is_init :: "init_mask \<Rightarrow> alloc_range \<Rightarrow> (unit, nat \<times> nat) result option" where
  "alloc_is_init m r = do {
     e \<leftarrow> alloc_range_end r;
     is_range_initialized m (ar_start r) e
   }"

definition check_init :: "init_mask \<Rightarrow> alloc_range \<Rightarrow> (unit, alloc_error) result option" where
  "check_init m r = do {
     res \<leftarrow> alloc_is_init m r;
     (case res of
        Ok u \<Rightarrow> Some (Ok u)
      | Err (a, b) \<Rightarrow> do {
          d \<leftarrow> checked_sub b a;
          Some (Err (InvalidUninitBytes (Some \<lparr>access_offset = ar_start r, access_size = ar_size r, uninit_offset = a, uninit_size = d\<rparr>)))
        })
   }"

definition mark_init :: "bool \<Rightarrow> alloc_range \<Rightarrow> bool \<Rightarrow> init_mask \<Rightarrow> init_mask option" where
  "mark_init mutable r is_init m =
     (if ar_size r = 0 then Some m
      else do {
        assert_that mutable;
        e \<leftarrow> alloc_range_end r;
        set_range (ar_start r) e is_init m
      })"


section \<open>Ranges of bits\<close>

text \<open>Setting or clearing the positions of a set.\<close>

definition upd :: "bool \<Rightarrow> nat set \<Rightarrow> nat set \<Rightarrow> nat set" where
  "upd new_state X S = (if new_state then X \<union> S else X - S)"

lemma upd_upd [simp]: "upd b (upd b X S) T = upd b X (S \<union> T)"
  by (auto simp: upd_def)

lemma upd_empty [simp]: "upd b X {} = X"
  by (simp add: upd_def)

lemma mem_upd: "i \<in> upd b X S \<longleftrightarrow> (if i \<in> S then b else i \<in> X)"
  by (auto simp: upd_def)

lemma BLOCK_SIZE_eq [simp]: "BLOCK_SIZE = WORD_BITS"
  by (simp add: BLOCK_SIZE_def WORD_BITS_def)

lemma bit_index_eq [simp]: "bit_index i = (i div WORD_BITS, i mod WORD_BITS)"
  by (simp add: bit_index_def)

definition write_block :: "bool \<Rightarrow> nat \<Rightarrow> u64 \<Rightarrow> u64 list \<Rightarrow> u64 list option" where
  "write_block b i w bs = (if b then or_block i w bs else clear_block i w bs)"

lemma write_block_bits:
  assumes "i < length bs"
  shows "\<exists>bs'. write_block b i w bs = Some bs' \<and> length bs' = length bs \<and>
    bits bs' = upd b (bits bs) {j. j div WORD_BITS = i \<and> bit w (j mod WORD_BITS)}"
  using assms
  by (auto simp: write_block_def or_block_def clear_block_def bits_update upd_def mem_bits_iff bit_or_iff bit_and_iff bit_not_iff
      WORD_BITS_def)

lemma store_blocks_bits:
  assumes "lo \<le> hi" "hi \<le> length bs"
  shows "\<exists>bs'. for_range lo hi (\<lambda>block bs. store_at bs block (if b then -1 else 0)) bs = Some bs' \<and> length bs' = length bs \<and>
    bits bs' = upd b (bits bs) {lo * WORD_BITS..<hi * WORD_BITS}"
proof -
  let ?I = "\<lambda>i t. length t = length bs \<and> bits t = upd b (bits bs) {lo * WORD_BITS..<i * WORD_BITS}"
  have "\<exists>t. for_range lo hi (\<lambda>block bs. store_at bs block (if b then -1 else 0)) bs = Some t \<and> ?I hi t"
  proof (rule for_range_rule [OF assms(1)])
    fix i t assume i: "lo \<le> i" "i < hi" and t: "?I i t"
    let ?t = "t[i := if b then -1 else 0]"
    have "{lo * WORD_BITS..<Suc i * WORD_BITS} = {lo * WORD_BITS..<i * WORD_BITS} \<union> {j. j div WORD_BITS = i}"
    proof (rule set_eqI)
      fix j
      have "lo * WORD_BITS \<le> i * WORD_BITS" using i(1) by simp
      then show "j \<in> {lo * WORD_BITS..<Suc i * WORD_BITS} \<longleftrightarrow> j \<in> {lo * WORD_BITS..<i * WORD_BITS} \<union> {j. j div WORD_BITS = i}"
        by (auto simp: WORD_BITS_def)
    qed
    moreover have "bits ?t = upd b (bits t) {j. j div WORD_BITS = i}"
      using i t assms(2) by (auto simp: bits_update upd_def WORD_BITS_def)
    ultimately have "?I (Suc i) ?t" using t by simp
    then show "\<exists>t'. store_at t i (if b then -1 else 0) = Some t' \<and> ?I (Suc i) t'" using i t assms(2) by simp
  qed (use upd_empty in simp)
  then show ?thesis by blast
qed

text \<open>The masks of \<open>set_range_inbounds\<close>.\<close>

lemma bit_from: "n < 64 \<Longrightarrow> bit (push_bit a (-1) :: u64) n \<longleftrightarrow> a \<le> n"
  by (auto simp: bit_not_iff bit_mask_iff)

lemma bit_below: "n < 64 \<Longrightarrow> 0 < b \<Longrightarrow> b < 64 \<Longrightarrow> bit (drop_bit (64 - b) (-1) :: u64) n \<longleftrightarrow> n < b"
  unfolding bit_drop_bit_eq comp_def by simp arith

lemma div_mod_less: "a < b \<longleftrightarrow> a div WORD_BITS < b div WORD_BITS \<or> a div WORD_BITS = b div WORD_BITS \<and> a mod WORD_BITS < b mod WORD_BITS"
proof -
  have "a = a div 64 * 64 + a mod 64" "b = b div 64 * 64 + b mod 64" by simp_all
  moreover have "a mod 64 < 64" "b mod 64 < 64" by simp_all
  ultimately show ?thesis unfolding WORD_BITS_def by linarith
qed

lemma div_mod_le: "a \<le> b \<longleftrightarrow> a div WORD_BITS < b div WORD_BITS \<or> a div WORD_BITS = b div WORD_BITS \<and> a mod WORD_BITS \<le> b mod WORD_BITS"
  using div_mod_less [of a b] by (metis div_mod_decomp le_less mod_eq_self_iff_div_eq_0 order.order_iff_strict)

lemma mod_WORD_BITS_64: "j mod WORD_BITS < 64"
  by (simp add: WORD_BITS_def)

lemma range_one_block:
  assumes "a < b" "a div WORD_BITS = b div WORD_BITS"
  shows "{j. j div WORD_BITS = a div WORD_BITS \<and>
      bit (push_bit (a mod WORD_BITS) (-1) AND drop_bit (64 - b mod WORD_BITS) (-1) :: u64) (j mod WORD_BITS)} = {a..<b}"
proof -
  have "a mod WORD_BITS < b mod WORD_BITS" using assms div_mod_less [of a b] by simp
  then have b: "0 < b mod WORD_BITS" by simp
  have "bit (push_bit (a mod WORD_BITS) (-1) AND drop_bit (64 - b mod WORD_BITS) (-1) :: u64) (j mod WORD_BITS) \<longleftrightarrow>
      a mod WORD_BITS \<le> j mod WORD_BITS \<and> j mod WORD_BITS < b mod WORD_BITS" for j
    by (simp only: bit_and_iff bit_from [OF mod_WORD_BITS_64] bit_below [OF mod_WORD_BITS_64 b mod_WORD_BITS_64])
  then show ?thesis
    by (simp only:) (use assms(2) div_mod_le [of a] div_mod_less [of _ b] in \<open>auto simp: set_eq_iff\<close>)
qed

lemma range_first_block:
  "{j. j div WORD_BITS = a div WORD_BITS \<and> bit (push_bit (a mod WORD_BITS) (-1) :: u64) (j mod WORD_BITS)} =
     {a..<(a div WORD_BITS + 1) * WORD_BITS}"
proof -
  have "j < (a div WORD_BITS + 1) * WORD_BITS \<longleftrightarrow> j div WORD_BITS < a div WORD_BITS + 1" for j
    by (rule div_less_iff_less_mult [symmetric]) (simp add: WORD_BITS_def)
  then show ?thesis
    by (simp only: bit_from [OF mod_WORD_BITS_64]) (use div_mod_le [of a] in \<open>auto simp: set_eq_iff simp del: mult_Suc\<close>)
qed

lemma range_last_block:
  assumes "b mod WORD_BITS \<noteq> 0"
  shows "{j. j div WORD_BITS = b div WORD_BITS \<and> bit (drop_bit (64 - b mod WORD_BITS) (-1) :: u64) (j mod WORD_BITS)} =
     {b div WORD_BITS * WORD_BITS..<b}"
proof -
  have b: "0 < b mod WORD_BITS" using assms by simp
  have "b div WORD_BITS * WORD_BITS \<le> j \<longleftrightarrow> b div WORD_BITS \<le> j div WORD_BITS" for j
    by (rule less_eq_div_iff_mult_less_eq [symmetric]) (simp add: WORD_BITS_def)
  then show ?thesis
    by (simp only: bit_below [OF mod_WORD_BITS_64 b mod_WORD_BITS_64]) (use div_mod_less [of _ b] in \<open>auto simp: set_eq_iff\<close>)
qed

lemma set_range_inbounds_eq:
  "set_range_inbounds start end' new_state m = do {
     let (blocka, bita) = bit_index start;
     let (blockb, bitb) = bit_index end';
     if blocka = blockb then do {
       let range' = (if bitb = 0 then push_bit bita (-1) else push_bit bita (-1) AND drop_bit (64 - bitb) (-1));
       bs \<leftarrow> write_block new_state blocka range' (blocks m);
       Some (m\<lparr>blocks := bs\<rparr>)
     } else do {
       bs \<leftarrow> write_block new_state blocka (push_bit bita (-1)) (blocks m);
       bs \<leftarrow> (if bitb \<noteq> 0 then write_block new_state blockb (drop_bit (64 - bitb) (-1)) bs else Some bs);
       bs \<leftarrow> for_range (blocka + 1) blockb (\<lambda>block bs. store_at bs block (if new_state then -1 else 0)) bs;
       Some (m\<lparr>blocks := bs\<rparr>)
     }
   }"
  unfolding set_range_inbounds_def write_block_def Let_def by (cases new_state) (simp_all cong: if_cong)

lemma write_last_block:
  assumes "b \<le> length bs * WORD_BITS"
  shows "\<exists>bs'. (if b mod WORD_BITS \<noteq> 0 then write_block st (b div WORD_BITS) (drop_bit (64 - b mod WORD_BITS) (-1)) bs else Some bs) = Some bs' \<and>
    length bs' = length bs \<and> bits bs' = upd st (bits bs) {b div WORD_BITS * WORD_BITS..<b}"
proof (cases "b mod WORD_BITS = 0")
  case True
  then have "b div WORD_BITS * WORD_BITS = b" using div_mult_mod_eq [of b WORD_BITS] by simp
  then show ?thesis using True by simp
next
  case False
  have "b div WORD_BITS \<le> length bs" using assms by (simp add: WORD_BITS_def)
  moreover have "b div WORD_BITS \<noteq> length bs"
  proof
    assume "b div WORD_BITS = length bs"
    then have "b = length bs * WORD_BITS + b mod WORD_BITS" by (metis div_mult_mod_eq)
    then show False using assms False by simp
  qed
  ultimately have "b div WORD_BITS < length bs" by simp
  from write_block_bits [OF this, of st "drop_bit (64 - b mod WORD_BITS) (-1)", unfolded range_last_block [OF False]]
  show ?thesis using False by simp
qed

lemma three_ranges: "x \<le> y \<Longrightarrow> y \<le> b \<Longrightarrow> a \<le> x \<Longrightarrow> {a..<x} \<union> {y..<b} \<union> {x..<y} = {a..<b :: nat}"
  by auto

lemma set_range_inbounds_bits:
  assumes "a < b" "b \<le> length (blocks m) * WORD_BITS"
  shows "\<exists>bs. set_range_inbounds a b st m = Some (m\<lparr>blocks := bs\<rparr>) \<and> length bs = length (blocks m) \<and>
    bits bs = upd st (bits (blocks m)) {a..<b}"
proof -
  have a: "a div WORD_BITS < length (blocks m)" using assms by (simp add: WORD_BITS_def)
  show ?thesis
  proof (cases "a div WORD_BITS = b div WORD_BITS")
    case True
    have "b mod WORD_BITS \<noteq> 0" using assms(1) True div_mod_less [of a b] by simp
    with write_block_bits [OF a, of st "push_bit (a mod WORD_BITS) (-1) AND drop_bit (64 - b mod WORD_BITS) (-1)",
        unfolded range_one_block [OF assms(1) True]] True
    show ?thesis by (auto simp add: set_range_inbounds_eq simp del: push_bit_minus_one drop_bit_minus_one)
  next
    case False
    then have ab: "a div WORD_BITS < b div WORD_BITS" using assms(1) div_mod_less [of a b] by simp
    obtain bs1 where 1: "write_block st (a div WORD_BITS) (push_bit (a mod WORD_BITS) (-1)) (blocks m) = Some bs1"
      "length bs1 = length (blocks m)" "bits bs1 = upd st (bits (blocks m)) {a..<(a div WORD_BITS + 1) * WORD_BITS}"
      using write_block_bits [OF a, of st "push_bit (a mod WORD_BITS) (-1)", unfolded range_first_block] by blast
    obtain bs2 where 2: "(if b mod WORD_BITS \<noteq> 0 then write_block st (b div WORD_BITS) (drop_bit (64 - b mod WORD_BITS) (-1)) bs1
        else Some bs1) = Some bs2" "length bs2 = length bs1" "bits bs2 = upd st (bits bs1) {b div WORD_BITS * WORD_BITS..<b}"
      using write_last_block [of b bs1 st] assms(2) 1(2) by auto
    have "b div WORD_BITS \<le> length bs2" using assms(2) 1(2) 2(2) by (simp add: WORD_BITS_def)
    then obtain bs3 where 3: "for_range (a div WORD_BITS + 1) (b div WORD_BITS)
        (\<lambda>block bs. store_at bs block (if st then -1 else 0)) bs2 = Some bs3" "length bs3 = length bs2"
      "bits bs3 = upd st (bits bs2) {(a div WORD_BITS + 1) * WORD_BITS..<b div WORD_BITS * WORD_BITS}"
      using store_blocks_bits [of "a div WORD_BITS + 1" "b div WORD_BITS" bs2 st] ab by auto
    have "(a div WORD_BITS + 1) * WORD_BITS \<le> b div WORD_BITS * WORD_BITS" using ab by (intro mult_le_mono1) simp
    moreover have "b div WORD_BITS * WORD_BITS \<le> b" "a \<le> (a div WORD_BITS + 1) * WORD_BITS"
      using dividend_less_div_times [of WORD_BITS a] by (simp_all add: WORD_BITS_def)
    ultimately have "{a..<(a div WORD_BITS + 1) * WORD_BITS} \<union> {b div WORD_BITS * WORD_BITS..<b} \<union>
        {(a div WORD_BITS + 1) * WORD_BITS..<b div WORD_BITS * WORD_BITS} = {a..<b}" by (rule three_ranges)
    then have "bits bs3 = upd st (bits (blocks m)) {a..<b}" using 1(3) 2(3) 3(3) by simp
    moreover have "set_range_inbounds a b st m = Some (m\<lparr>blocks := bs3\<rparr>)"
      unfolding set_range_inbounds_eq Let_def bit_index_eq split using False 1(1) 2(1) 3(1) by (simp only: if_False bind.bind_lunit)
    ultimately show ?thesis using 1(2) 2(2) 3(2) by auto
  qed
qed


section \<open>Updates of the mask\<close>

text \<open>Every position below the length has a bit; the positions that are initialised.\<close>

definition mask_ok :: "init_mask \<Rightarrow> bool" where
  "mask_ok m \<longleftrightarrow> mask_len m \<le> length (blocks m) * WORD_BITS"

definition inited :: "init_mask \<Rightarrow> nat set" where
  "inited m = {i \<in> bits (blocks m). i < mask_len m}"

lemma mem_inited: "i \<in> inited m \<longleftrightarrow> i \<in> bits (blocks m) \<and> i < mask_len m"
  by (simp add: inited_def)

lemma mask_okD: "mask_ok m \<Longrightarrow> i < mask_len m \<Longrightarrow> i div WORD_BITS < length (blocks m)"
  by (simp add: mask_ok_def WORD_BITS_def)

lemma push_bit_elem_mask: "push_bit (i mod WORD_BITS) 1 = elem_mask i"
  by (simp add: elem_mask_def push_bit_eq_mult)

lemma mask_get_inited: "mask_ok m \<Longrightarrow> i < mask_len m \<Longrightarrow> mask_get m i = Some (i \<in> inited m)"
  using mask_okD [of m i]
  by (simp add: mask_get_def push_bit_elem_mask and_mask_nonzero mem_inited mem_bits_iff del: push_bit_of_1)

lemma mask_set_bits:
  assumes "mask_ok m" "i < mask_len m"
  shows "\<exists>m'. mask_set i st m = Some m' \<and> mask_ok m' \<and> mask_len m' = mask_len m \<and> inited m' = upd st (inited m) {i}"
proof -
  have "j div WORD_BITS = i div WORD_BITS \<and> bit (elem_mask i) (j mod WORD_BITS) \<longleftrightarrow> j = i" for j
    by (auto simp: bit_word_mask) (metis div_mod_decomp)
  then have "{j. j div WORD_BITS = i div WORD_BITS \<and> bit (elem_mask i) (j mod WORD_BITS)} = {i}" by simp
  with write_block_bits [OF mask_okD [OF assms], of st "elem_mask i"] obtain bs where
    "write_block st (i div WORD_BITS) (elem_mask i) (blocks m) = Some bs" "length bs = length (blocks m)"
    "bits bs = upd st (bits (blocks m)) {i}" by auto
  then have "mask_set i st m = Some (m\<lparr>blocks := bs\<rparr>)" "mask_ok (m\<lparr>blocks := bs\<rparr>)" "inited (m\<lparr>blocks := bs\<rparr>) = upd st (inited m) {i}"
    using assms by (auto simp: mask_set_def mask_set_bit_def write_block_def push_bit_elem_mask mask_ok_def inited_def mem_upd
        simp del: push_bit_of_1 split: if_splits)
  then show ?thesis by auto
qed

lemma set_range_inbounds_inited:
  assumes "mask_ok m" "a < b" "b \<le> mask_len m"
  shows "\<exists>m'. set_range_inbounds a b st m = Some m' \<and> mask_ok m' \<and> mask_len m' = mask_len m \<and> inited m' = upd st (inited m) {a..<b}"
proof -
  obtain bs where "set_range_inbounds a b st m = Some (m\<lparr>blocks := bs\<rparr>)" "length bs = length (blocks m)"
    "bits bs = upd st (bits (blocks m)) {a..<b}"
    using set_range_inbounds_bits [OF assms(2), of m st] assms by (auto simp: mask_ok_def)
  then show ?thesis using assms by (auto simp: mask_ok_def inited_def mem_upd split: if_splits)
qed

text \<open>An empty range at the first position of a block is taken for the whole block.\<close>

lemma set_range_inbounds_empty:
  assumes "mask_ok m" "a < mask_len m"
  shows "\<exists>m'. set_range_inbounds a a st m = Some m' \<and> mask_ok m' \<and> mask_len m' = mask_len m \<and>
    inited m' = upd st (inited m) (if 64 dvd a then {a..<min (a + 64) (mask_len m)} else {})"
proof -
  let ?k = "a mod WORD_BITS"
  let ?w = "if ?k = 0 then push_bit ?k (-1) else push_bit ?k (-1) AND drop_bit (64 - ?k) (-1) :: u64"
  have "a div WORD_BITS < length (blocks m)" using assms by (simp add: mask_ok_def WORD_BITS_def)
  from write_block_bits [OF this, of st ?w] obtain bs where bs: "write_block st (a div WORD_BITS) ?w (blocks m) = Some bs"
    "length bs = length (blocks m)" "bits bs = upd st (bits (blocks m)) {j. j div WORD_BITS = a div WORD_BITS \<and> bit ?w (j mod WORD_BITS)}"
    by blast
  have "{j. j div WORD_BITS = a div WORD_BITS \<and> bit ?w (j mod WORD_BITS)} = (if 64 dvd a then {a..<a + 64} else {})"
  proof (cases "?k = 0")
    case True
    then have "(a div WORD_BITS + 1) * WORD_BITS = a + 64" "64 dvd a" by (auto simp: WORD_BITS_def)
    then show ?thesis using True range_first_block [of a] by (simp only: if_True simp_thms)
  next
    case False
    then have "\<not> 64 dvd a" "0 < ?k" by (simp_all add: WORD_BITS_def dvd_eq_mod_eq_0)
    then show ?thesis using False
      by (simp only: if_False bit_and_iff bit_from [OF mod_WORD_BITS_64] bit_below [OF mod_WORD_BITS_64 _ mod_WORD_BITS_64]) auto
  qed
  then have "inited (m\<lparr>blocks := bs\<rparr>) = upd st (inited m) (if 64 dvd a then {a..<min (a + 64) (mask_len m)} else {})"
    using bs(3) by (simp add: inited_def) (auto simp: mem_upd split: if_splits)
  moreover have "set_range_inbounds a a st m = Some (m\<lparr>blocks := bs\<rparr>)"
    unfolding set_range_inbounds_eq Let_def bit_index_eq split using bs(1) by (simp only: if_True bind.bind_lunit simp_thms)
  ultimately show ?thesis using assms(1) bs(2) by (simp add: mask_ok_def)
qed

lemma grow_inited:
  assumes "mask_ok m" "mask_len m + n < 2 ^ 64"
  shows "\<exists>m'. mask_grow n st m = Some m' \<and> mask_ok m' \<and> mask_len m' = mask_len m + n \<and>
    inited m' = upd st (inited m) {mask_len m..<mask_len m + n}"
proof (cases "n = 0")
  case True
  then show ?thesis using assms by (simp add: mask_grow_def)
next
  case False
  let ?U = "length (blocks m) * WORD_BITS - mask_len m"
  let ?m = "(if ?U < n then m\<lparr>blocks := blocks m @ replicate (n div WORD_BITS + 1) 0\<rparr> else m)\<lparr>mask_len := mask_len m + n\<rparr>"
  have "n < (n div WORD_BITS + 1) * WORD_BITS" using dividend_less_div_times [of WORD_BITS n] by simp
  then have ok: "mask_ok ?m" using assms(1) by (auto simp: mask_ok_def algebra_simps)
  have "bits (blocks ?m) = bits (blocks m)" by (simp add: bits_append_zeros [of _ "Suc _", unfolded replicate_Suc])
  then have "upd st (inited ?m) {mask_len m..<mask_len m + n} = upd st (inited m) {mask_len m..<mask_len m + n}"
    by (auto simp: inited_def mem_upd)
  moreover have "mask_grow n st m = set_range_inbounds (mask_len m) (mask_len m + n) st ?m"
    using False assms by (simp add: mask_grow_def mask_ok_def size_add_def Let_def)
  moreover have "mask_len m < mask_len m + n" "mask_len m + n \<le> mask_len ?m" using False by simp_all
  ultimately show ?thesis using set_range_inbounds_inited [OF ok, of "mask_len m" "mask_len m + n" st] by auto
qed

lemma mask_new_inited:
  "n < 2 ^ 64 \<Longrightarrow> \<exists>m. mask_new n st = Some m \<and> mask_ok m \<and> mask_len m = n \<and> inited m = (if st then {..<n} else {})"
  using grow_inited [of "\<lparr>blocks = [], mask_len = 0\<rparr>" n st] by (auto simp: mask_new_def mask_ok_def inited_def upd_def)

text \<open>\<open>set_range\<close> may extend the mask: the new positions before \<open>start\<close> get the new state, too.\<close>

lemma set_range_inited:
  assumes "mask_ok m" "a < b" "b < 2 ^ 64"
  shows "\<exists>m'. set_range a b st m = Some m' \<and> mask_ok m' \<and> mask_len m' = max (mask_len m) b \<and>
    inited m' = upd st (inited m) ({a..<b} \<union> {mask_len m..<b})"
proof (cases "mask_len m < b")
  case True
  obtain m1 where m1: "mask_grow (b - mask_len m) st m = Some m1" "mask_ok m1" "mask_len m1 = b"
    "inited m1 = upd st (inited m) {mask_len m..<b}"
    using grow_inited [OF assms(1), of "b - mask_len m" st] assms(3) True by auto
  obtain m' where "set_range_inbounds a b st m1 = Some m'" "mask_ok m'" "mask_len m' = b" "inited m' = upd st (inited m1) {a..<b}"
    using set_range_inbounds_inited [OF m1(2) assms(2), of st] m1(3) by auto
  then show ?thesis using True m1 by (auto simp: set_range_def max_def Un_commute)
next
  case False
  then show ?thesis using set_range_inbounds_inited [OF assms(1,2), of st] by (auto simp: set_range_def max_def)
qed


section \<open>The search finds the first bit\<close>

text \<open>\<open>r\<close> is the first position of \<open>s..<e\<close> that satisfies \<open>P\<close>.\<close>

definition first_match :: "(nat \<Rightarrow> bool) \<Rightarrow> nat \<Rightarrow> nat \<Rightarrow> nat option \<Rightarrow> bool" where
  "first_match P s e r = (case r of
       None \<Rightarrow> \<forall>i \<in> {s..<e}. \<not> P i
     | Some i \<Rightarrow> i \<in> {s..<e} \<and> P i \<and> (\<forall>j \<in> {s..<i}. \<not> P j))"

lemma first_match_unique: "first_match P s e r \<Longrightarrow> first_match P s e r' \<Longrightarrow> r = r'"
  unfolding first_match_def by (cases r; cases r') (auto, metis atLeastLessThan_iff linorder_neqE_nat)

lemma first_match_empty: "e \<le> s \<Longrightarrow> first_match P s e None"
  by (simp add: first_match_def)

lemma first_match_clip: "first_match P s e' (Some i) \<Longrightarrow> first_match P s e (if i < e then Some i else None)"
  by (auto simp: first_match_def)

lemma first_match_shrink: "first_match P s e' None \<Longrightarrow> e \<le> e' \<Longrightarrow> first_match P s e None"
  by (auto simp: first_match_def)

lemma first_match_append: "first_match P s t None \<Longrightarrow> first_match P t e r \<Longrightarrow> s \<le> t \<Longrightarrow> first_match P s e r"
proof -
  assume *: "first_match P s t None" "first_match P t e r" "s \<le> t"
  have "j \<in> {s..<x} \<Longrightarrow> j \<in> {s..<t} \<or> j \<in> {t..<x}" for j x by auto
  with * show ?thesis by (cases r) (fastforce simp: first_match_def)+
qed

lemma first_match_hit: "P s \<Longrightarrow> s < e \<Longrightarrow> first_match P s e (Some s)"
  by (simp add: first_match_def)

lemma first_match_skip: "\<not> P s \<Longrightarrow> first_match P (Suc s) e r \<Longrightarrow> first_match P s e r"
  using first_match_append [of P s "Suc s" e r] by (simp add: first_match_def)

abbreviation bit_is :: "u64 list \<Rightarrow> bool \<Rightarrow> nat \<Rightarrow> bool" where
  "bit_is bs b \<equiv> \<lambda>i. (i \<in> bits bs) = b"

lemma search_block_first:
  assumes "k < length bs" "sb < 64"
  shows "first_match (bit_is bs b) (k * WORD_BITS + sb) ((k + 1) * WORD_BITS) (search_block (bs ! k) k sb b)"
proof -
  let ?w = "(if b then bs ! k else NOT (bs ! k)) AND push_bit sb (-1)"
  have w: "bit ?w n \<longleftrightarrow> sb \<le> n \<and> bit (bs ! k) n = b" if "n < 64" for n
    using that bit_from [of n sb] by (auto simp add: bit_and_iff bit_not_iff)
  have mem: "i \<in> bits bs \<longleftrightarrow> bit (bs ! k) (i - k * WORD_BITS)" if "i \<in> {k * WORD_BITS..<(k + 1) * WORD_BITS}" for i
  proof -
    from that obtain n where "i = k * WORD_BITS + n" "n < WORD_BITS"
      by (metis add.commute add_less_cancel_left atLeastLessThan_iff distrib_left le_Suc_ex mult.commute mult.right_neutral)
    then show ?thesis using assms(1) by (simp add: mem_bits_iff)
  qed
  show ?thesis
  proof (cases "?w = 0")
    case True
    have "(i \<in> bits bs) \<noteq> b" if i: "i \<in> {k * WORD_BITS + sb..<(k + 1) * WORD_BITS}" for i
    proof -
      have "i - k * WORD_BITS < 64" "sb \<le> i - k * WORD_BITS" using i by (auto simp: WORD_BITS_def)
      with w [of "i - k * WORD_BITS"] True have "bit (bs ! k) (i - k * WORD_BITS) \<noteq> b" by simp
      then show ?thesis using mem [of i] i by simp
    qed
    then show ?thesis using True by (simp add: first_match_def search_block_def Let_def)
  next
    case False
    note tz = trailing_zeros_bit [OF False]
    let ?n = "trailing_zeros ?w"
    have n: "?n < 64" "sb \<le> ?n" "bit (bs ! k) ?n = b" using tz(1,2) w [of ?n] by simp_all
    have "(k * WORD_BITS + ?n \<in> bits bs) = b" using mem [of "k * WORD_BITS + ?n"] n by (simp add: WORD_BITS_def)
    moreover have "(i \<in> bits bs) \<noteq> b" if i: "i \<in> {k * WORD_BITS + sb..<k * WORD_BITS + ?n}" for i
    proof -
      have "i - k * WORD_BITS < ?n" "sb \<le> i - k * WORD_BITS" using i by (auto simp: WORD_BITS_def)
      with w [of "i - k * WORD_BITS"] tz(3) [of "i - k * WORD_BITS"] n(1) have "bit (bs ! k) (i - k * WORD_BITS) \<noteq> b"
        by (meson leD less_trans)
      then show ?thesis using mem [of i] i n(1) by (simp add: WORD_BITS_def)
    qed
    moreover have "k * WORD_BITS + ?n \<in> {k * WORD_BITS + sb..<(k + 1) * WORD_BITS}" using n by (simp add: WORD_BITS_def)
    moreover have "search_block (bs ! k) k sb b = Some (k * WORD_BITS + ?n)"
      using False by (simp add: search_block_def size_from_bit_index_def Let_def)
    ultimately show ?thesis by (simp only: first_match_def option.case) blast
  qed
qed

lemma search_blocks_first:
  assumes "k + n \<le> length bs" "n \<noteq> 0" "e \<le> (k + n) * WORD_BITS"
  shows "first_match (bit_is bs b) (k * WORD_BITS) e (search_blocks (take n (drop k bs)) k e b)"
  using assms
proof (induction n arbitrary: k)
  case (Suc n)
  have k: "k < length bs" using Suc.prems by simp
  note sb = search_block_first [OF k, of 0 b]
  have tl: "take (Suc n) (drop k bs) = bs ! k # take n (drop (Suc k) bs)"
    using k by (simp add: Cons_nth_drop_Suc [symmetric])
  show ?case
  proof (cases "search_block (bs ! k) k 0 b")
    case (Some i)
    then show ?thesis using first_match_clip [of "bit_is bs b" _ _ i e] sb tl by simp
  next
    case None
    with sb have miss: "first_match (bit_is bs b) (k * WORD_BITS) (Suc k * WORD_BITS) None" by simp
    show ?thesis
    proof (cases "n = 0")
      case True
      then show ?thesis using first_match_shrink [OF miss, of e] None tl Suc.prems by simp
    next
      case False
      from first_match_append [OF miss Suc.IH [OF _ False]] Suc.prems None tl show ?thesis by simp
    qed
  qed
qed simp

lemma find_bit_fast_first:
  assumes "e \<le> length (blocks m) * WORD_BITS"
  shows "\<exists>r. find_bit_fast m s e b = Some r \<and> first_match (bit_is (blocks m) b) s e r"
proof (cases "e \<le> s")
  case True
  then show ?thesis using first_match_empty by (simp add: find_bit_fast_def)
next
  case False
  let ?k = "s div WORD_BITS" and ?l = "(e - 1) div WORD_BITS"
  have k: "?k < length (blocks m)" and l: "?l < length (blocks m)" using assms False by (simp_all add: WORD_BITS_def)
  have e: "e \<le> (?l + 1) * WORD_BITS" using dividend_less_div_times [of WORD_BITS "e - 1"] by simp
  have sb: "first_match (bit_is (blocks m) b) s ((?k + 1) * WORD_BITS) (search_block (blocks m ! ?k) ?k (s mod WORD_BITS) b)"
    using search_block_first [OF k, of "s mod WORD_BITS" b] mod_WORD_BITS_64 by simp
  show ?thesis
  proof (cases "search_block (blocks m ! ?k) ?k (s mod WORD_BITS) b")
    case (Some i)
    then show ?thesis using sb first_match_clip [of "bit_is (blocks m) b" s _ i e] False k by (auto simp: find_bit_fast_def)
  next
    case None
    with sb have miss: "first_match (bit_is (blocks m) b) s ((?k + 1) * WORD_BITS) None" by simp
    show ?thesis
    proof (cases "?k < ?l")
      case True
      have "s \<le> (?k + 1) * WORD_BITS" using dividend_less_div_times [of WORD_BITS s] by simp
      from first_match_append [OF miss search_blocks_first [of "?k + 1" "?l - ?k" "blocks m" e b] this] True l e
      show ?thesis using None False k by (simp add: find_bit_fast_def del: mult_Suc)
    next
      case nl: False
      have "?k \<le> ?l" using False by (intro div_le_mono) simp
      with nl e have "e \<le> (?k + 1) * WORD_BITS" by simp
      from first_match_shrink [OF miss this] show ?thesis using None False k nl by (simp add: find_bit_fast_def)
    qed
  qed
qed

lemma find_bit_slow_first:
  assumes "e \<le> length (blocks m) * WORD_BITS"
  shows "\<exists>r. find_bit_slow m s e b = Some r \<and> first_match (bit_is (blocks m) b) s e r"
  using assms
proof (induction m s e b rule: find_bit_slow.induct)
  case (1 m s e b)
  show ?case
  proof (cases "s < e")
    case True
    have k: "s div WORD_BITS < length (blocks m)" using True 1(2) by (simp add: WORD_BITS_def)
    then have g: "mask_get m s = Some (s \<in> bits (blocks m))"
      by (simp add: mask_get_def push_bit_elem_mask and_mask_nonzero mem_bits_iff del: push_bit_of_1)
    show ?thesis
    proof (cases "(s \<in> bits (blocks m)) = b")
      case hit: True
      then show ?thesis using g True first_match_hit [of "bit_is (blocks m) b" s e] by (simp add: find_bit_slow.simps [of m s])
    next
      case False
      with 1(1) [OF True g False 1(2)] obtain r where "find_bit_slow m (Suc s) e b = Some r" "first_match (bit_is (blocks m) b) (Suc s) e r" by auto
      with first_match_skip [of "bit_is (blocks m) b" s e r] False g True show ?thesis by (simp add: find_bit_slow.simps [of m s])
    qed
  qed (simp add: find_bit_slow.simps [of m s] first_match_empty)
qed

lemma first_match_cong: "(\<And>i. i < e \<Longrightarrow> P i = Q i) \<Longrightarrow> first_match P s e r = first_match Q s e r"
  by (cases r) (auto simp: first_match_def)

lemma find_bit_first_parts:
  assumes "mask_ok m" "e \<le> mask_len m"
  shows "\<exists>r. find_bit m s e b = Some r \<and> find_bit_fast m s e b = Some r \<and> find_bit_slow m s e b = Some r \<and>
    first_match (\<lambda>i. (i \<in> inited m) = b) s e r"
proof -
  have e: "e \<le> length (blocks m) * WORD_BITS" using assms by (simp add: mask_ok_def)
  obtain r where r: "find_bit_fast m s e b = Some r" "first_match (bit_is (blocks m) b) s e r"
    using find_bit_fast_first [OF e] by blast
  moreover from find_bit_slow_first [OF e] r(2) have "find_bit_slow m s e b = Some r"
    using first_match_unique by metis
  moreover have "first_match (\<lambda>i. (i \<in> inited m) = b) s e r"
    using r(2) by (rule first_match_cong [THEN iffD1, rotated]) (use assms(2) in \<open>auto simp: mem_inited\<close>)
  ultimately show ?thesis by (simp add: find_bit_def)
qed


section \<open>Ranges and chunks\<close>

lemma is_range_initialized_outside: "mask_len m < e \<Longrightarrow> is_range_initialized m s e = Some (Err (mask_len m, e))"
  by (simp add: is_range_initialized_def)

lemma is_range_initialized_inside:
  assumes "mask_ok m" "e \<le> mask_len m"
  shows "if {s..<e} \<subseteq> inited m then is_range_initialized m s e = Some (Ok ())
    else \<exists>a b. is_range_initialized m s e = Some (Err (a, b)) \<and> s \<le> a \<and> a < b \<and> b \<le> e \<and>
      {s..<a} \<subseteq> inited m \<and> {a..<b} \<inter> inited m = {} \<and> (b = e \<or> b \<in> inited m)"
proof -
  obtain r where r: "find_bit m s e False = Some r" "first_match (\<lambda>i. (i \<in> inited m) = False) s e r"
    using find_bit_first_parts [OF assms, of s False] by blast
  show ?thesis
  proof (cases r)
    case None
    then have "{s..<e} \<subseteq> inited m" using r(2) by (auto simp: first_match_def)
    then show ?thesis using None r(1) assms(2) by (simp add: is_range_initialized_def)
  next
    case (Some a)
    then have a: "s \<le> a" "a < e" "a \<notin> inited m" "{s..<a} \<subseteq> inited m" using r(2) by (auto simp: first_match_def)
    obtain r' where r': "find_bit m a e True = Some r'" "first_match (\<lambda>i. (i \<in> inited m) = True) a e r'"
      using find_bit_first_parts [OF assms, of a True] by blast
    define b where "b = (case r' of None \<Rightarrow> e | Some b \<Rightarrow> b)"
    have "is_range_initialized m s e = Some (Err (a, b))"
      using Some r(1) r'(1) assms(2) by (simp add: is_range_initialized_def b_def)
    moreover have "a < b" "b \<le> e" "{a..<b} \<inter> inited m = {}" "b = e \<or> b \<in> inited m"
      using r'(2) a by (cases r'; auto simp: first_match_def b_def order.order_iff_strict)+
    moreover have "\<not> {s..<e} \<subseteq> inited m" using a by auto
    ultimately show ?thesis using a by auto
  qed
qed

text \<open>\<open>cs\<close> cuts \<open>s..<e\<close> into the maximal runs of members and non-members of \<open>S\<close>.\<close>

fun chunk_runs :: "nat set \<Rightarrow> nat \<Rightarrow> nat \<Rightarrow> init_chunk list \<Rightarrow> bool" where
  "chunk_runs S s e [] \<longleftrightarrow> e \<le> s"
| "chunk_runs S s e (c # cs) \<longleftrightarrow> (\<exists>t. chunk_range c = (s, t) \<and> s < t \<and> t \<le> e \<and> (\<forall>i \<in> {s..<t}. (i \<in> S) = chunk_is_init c) \<and>
     (t < e \<longrightarrow> (t \<in> S) \<noteq> chunk_is_init c) \<and> chunk_runs S t e cs)"

lemma first_match_run:
  assumes "first_match (\<lambda>i. (i \<in> S) = (\<not> b)) s e r" "s < e" "(s \<in> S) = b" and t: "t = (case r of None \<Rightarrow> e | Some t \<Rightarrow> t)"
  shows "s < t" "t \<le> e" "\<forall>i \<in> {s..<t}. (i \<in> S) = b" "t < e \<longrightarrow> (t \<in> S) \<noteq> b"
proof -
  have "s \<noteq> t" using assms by (cases r) (auto simp: first_match_def)
  moreover have "s \<le> t" using assms by (cases r) (auto simp: first_match_def)
  ultimately show "s < t" by simp
  show "t \<le> e" "\<forall>i \<in> {s..<t}. (i \<in> S) = b" "t < e \<longrightarrow> (t \<in> S) \<noteq> b"
    using assms by (cases r; auto simp: first_match_def)+
qed

lemma init_chunk_next_run:
  assumes "mask_ok (ic_mask it)" "ic_end it \<le> mask_len (ic_mask it)" "ic_start it < ic_end it"
    and "ic_is_init it \<longleftrightarrow> ic_start it \<in> inited (ic_mask it)"
  shows "\<exists>c t. init_chunk_next it = Some (Some c, it\<lparr>ic_is_init := \<not> ic_is_init it, ic_start := t\<rparr>) \<and>
    chunk_range c = (ic_start it, t) \<and> chunk_is_init c = ic_is_init it \<and> ic_start it < t \<and> t \<le> ic_end it \<and>
    (\<forall>i \<in> {ic_start it..<t}. (i \<in> inited (ic_mask it)) = ic_is_init it) \<and>
    (t < ic_end it \<longrightarrow> (t \<in> inited (ic_mask it)) \<noteq> ic_is_init it)"
proof -
  obtain r where r: "find_bit (ic_mask it) (ic_start it) (ic_end it) (\<not> ic_is_init it) = Some r"
    "first_match (\<lambda>i. (i \<in> inited (ic_mask it)) = (\<not> ic_is_init it)) (ic_start it) (ic_end it) r"
    using find_bit_first_parts [OF assms(1,2), of "ic_start it" "\<not> ic_is_init it"] by blast
  define t where "t = (case r of None \<Rightarrow> ic_end it | Some t \<Rightarrow> t)"
  have "ic_start it < t" "t \<le> ic_end it" "\<forall>i \<in> {ic_start it..<t}. (i \<in> inited (ic_mask it)) = ic_is_init it"
    "t < ic_end it \<longrightarrow> (t \<in> inited (ic_mask it)) \<noteq> ic_is_init it"
    using first_match_run [OF r(2) assms(3) _ t_def] assms(4) by blast+
  moreover have "init_chunk_next it = Some (Some (if ic_is_init it then Init (ic_start it, t) else Uninit (ic_start it, t)),
      it\<lparr>ic_is_init := \<not> ic_is_init it, ic_start := t\<rparr>)"
    using r(1) assms(3) by (simp add: init_chunk_next_def t_def Let_def)
  ultimately show ?thesis by auto
qed

lemma init_chunks_runs:
  assumes "mask_ok (ic_mask it)" "ic_end it \<le> mask_len (ic_mask it)"
    and "ic_start it < ic_end it \<longrightarrow> (ic_is_init it \<longleftrightarrow> ic_start it \<in> inited (ic_mask it))"
  shows "\<exists>cs. init_chunks it = Some cs \<and> chunk_runs (inited (ic_mask it)) (ic_start it) (ic_end it) cs"
  using assms
proof (induction "ic_end it - ic_start it" arbitrary: it rule: less_induct)
  case less
  show ?case
  proof (cases "ic_start it < ic_end it")
    case False
    then show ?thesis by (simp add: init_chunks.simps [of it] init_chunk_next_def)
  next
    case True
    with init_chunk_next_run [OF less.prems(1,2) True] less.prems(3) obtain c t where
      n: "init_chunk_next it = Some (Some c, it\<lparr>ic_is_init := \<not> ic_is_init it, ic_start := t\<rparr>)" (is "_ = Some (_, ?it)") and
      c: "chunk_range c = (ic_start it, t)" "chunk_is_init c = ic_is_init it" "ic_start it < t" "t \<le> ic_end it"
      "\<forall>i \<in> {ic_start it..<t}. (i \<in> inited (ic_mask it)) = ic_is_init it"
      "t < ic_end it \<longrightarrow> (t \<in> inited (ic_mask it)) \<noteq> ic_is_init it" by blast
    obtain cs where "init_chunks ?it = Some cs" "chunk_runs (inited (ic_mask it)) t (ic_end it) cs"
    proof -
      have "ic_end ?it - ic_start ?it < ic_end it - ic_start it" using c(3,4) by simp
      from less.hyps [OF this] less.prems(1,2) c(6) that show ?thesis by auto
    qed
    then show ?thesis using n c by (simp add: init_chunks.simps [of it])
  qed
qed

lemma range_as_init_chunks_runs:
  assumes "mask_ok m" "e \<le> mask_len m"
  shows "\<exists>it cs. range_as_init_chunks m s e = Some it \<and> init_chunks it = Some cs \<and> chunk_runs (inited m) s e cs"
proof (cases "s < e")
  case True
  let ?it = "\<lparr>ic_mask = m, ic_is_init = s \<in> inited m, ic_start = s, ic_end = e\<rparr>"
  have "range_as_init_chunks m s e = Some ?it" using mask_get_inited [of m s] assms True by (simp add: range_as_init_chunks_def)
  then show ?thesis using init_chunks_runs [of ?it] assms True by auto
next
  case False
  then show ?thesis using assms init_chunks_runs [of "\<lparr>ic_mask = m, ic_is_init = False, ic_start = s, ic_end = e\<rparr>"]
    by (auto simp: range_as_init_chunks_def)
qed


abbreviation chunk_size :: "init_chunk \<Rightarrow> nat" where
  "chunk_size c \<equiv> snd (chunk_range c) - fst (chunk_range c)"

abbreviation chunk_follows :: "init_chunk \<Rightarrow> init_chunk \<Rightarrow> bool" where
  "chunk_follows c d \<equiv> snd (chunk_range c) = fst (chunk_range d) \<and> chunk_is_init c \<noteq> chunk_is_init d"

lemma chunk_runs_empty: "chunk_runs S s e cs \<Longrightarrow> cs = [] \<longleftrightarrow> e \<le> s"
  by (cases cs) auto

lemma chunk_runs_hd: "chunk_runs S s e cs \<Longrightarrow> s < e \<Longrightarrow> fst (chunk_range (hd cs)) = s \<and> chunk_is_init (hd cs) = (s \<in> S)"
  by (cases cs) auto

lemma chunk_runs_last: "chunk_runs S s e cs \<Longrightarrow> s < e \<Longrightarrow> snd (chunk_range (last cs)) = e"
proof (induction cs arbitrary: s)
  case (Cons c cs)
  then obtain t where t: "chunk_range c = (s, t)" "t \<le> e" "chunk_runs S t e cs" by auto
  show ?case
  proof (cases "t = e")
    case True
    then show ?thesis using t chunk_runs_empty [OF t(3)] by simp
  next
    case False
    then show ?thesis using Cons.IH [OF t(3)] t(2) chunk_runs_empty [OF t(3)] by simp
  qed
qed simp

lemma chunk_runs_each:
  "chunk_runs S s e cs \<Longrightarrow> c \<in> set cs \<Longrightarrow>
   fst (chunk_range c) < snd (chunk_range c) \<and> (\<forall>i \<in> {fst (chunk_range c)..<snd (chunk_range c)}. (i \<in> S) = chunk_is_init c)"
  by (induction cs arbitrary: s) auto

lemma chunk_runs_follow: "chunk_runs S s e cs \<Longrightarrow> successively chunk_follows cs"
proof (induction cs arbitrary: s)
  case (Cons c cs)
  then obtain t where t: "chunk_range c = (s, t)" "t < e \<longrightarrow> (t \<in> S) \<noteq> chunk_is_init c" "chunk_runs S t e cs" by auto
  with Cons.IH have "successively chunk_follows cs" by blast
  moreover have "chunk_follows c (hd cs)" if "cs \<noteq> []"
    using chunk_runs_hd [OF t(3)] chunk_runs_empty [OF t(3)] that t(1,2) by auto
  ultimately show ?case by (auto simp: successively_Cons)
qed simp


section \<open>Copying a part of a mask\<close>

text \<open>The state at offset \<open>k\<close> of alternating runs that start with \<open>cur\<close>.\<close>

fun run_state :: "nat list \<Rightarrow> bool \<Rightarrow> nat \<Rightarrow> bool" where
  "run_state [] cur k = False"
| "run_state (r # rs) cur k = (if k < r then cur else run_state rs (\<not> cur) (k - r))"

lemma chunk_runs_lengths:
  assumes "chunk_runs S s e cs" "s < e" "b \<longleftrightarrow> s \<in> S"
  shows "sum_list (map chunk_size cs) = e - s" "k < e - s \<Longrightarrow> run_state (map chunk_size cs) b k \<longleftrightarrow> s + k \<in> S"
proof -
  have "s \<le> e \<Longrightarrow> (s < e \<longrightarrow> b \<longleftrightarrow> s \<in> S) \<Longrightarrow> chunk_runs S s e cs \<Longrightarrow>
      sum_list (map chunk_size cs) = e - s \<and> (\<forall>k < e - s. run_state (map chunk_size cs) b k \<longleftrightarrow> s + k \<in> S)" for b
  proof (induction cs arbitrary: s b)
    case (Cons c cs)
    then obtain t where t: "chunk_range c = (s, t)" "s < t" "t \<le> e" "\<forall>i \<in> {s..<t}. (i \<in> S) = chunk_is_init c"
      "t < e \<longrightarrow> (t \<in> S) \<noteq> chunk_is_init c" "chunk_runs S t e cs" by auto
    then have b: "chunk_is_init c = b" using Cons.prems(2) by force
    with t(5) have "t < e \<longrightarrow> (\<not> b \<longleftrightarrow> t \<in> S)" by simp
    note IH = Cons.IH [OF t(3) this t(6)]
    have "run_state (map chunk_size (c # cs)) b k \<longleftrightarrow> s + k \<in> S" if k: "k < e - s" for k
    proof (cases "k < t - s")
      case True
      then show ?thesis using t(1,2,4) b by auto
    next
      case False
      then have "k - (t - s) < e - t" "t + (k - (t - s)) = s + k" using k t(2,3) by auto
      then show ?thesis using IH False t(1) by (auto simp: add.commute)
    qed
    then show ?case using IH t(1,2,3) by auto
  qed simp
  with assms show "sum_list (map chunk_size cs) = e - s" "k < e - s \<Longrightarrow> run_state (map chunk_size cs) b k \<longleftrightarrow> s + k \<in> S"
    by auto
qed

text \<open>The run-length encoding of the part of a mask that a range selects.\<close>

definition encodes :: "init_mask_compressed \<Rightarrow> nat set \<Rightarrow> nat \<Rightarrow> nat \<Rightarrow> bool" where
  "encodes c S s n \<longleftrightarrow> imc_ranges c \<noteq> [] \<and> (\<forall>r \<in> set (imc_ranges c). 0 < r) \<and> sum_list (imc_ranges c) = n \<and>
     (\<forall>k < n. run_state (imc_ranges c) (imc_initial c) k \<longleftrightarrow> s + k \<in> S)"

lemma compress_encodes:
  assumes "mask_ok m" "ar_start r + ar_size r \<le> mask_len m" "mask_len m < 2 ^ 64" "0 < ar_size r"
  shows "\<exists>c. compress_uninit_range m r = Some c \<and> encodes c (inited m) (ar_start r) (ar_size r) \<and>
    (no_bytes_init c \<longleftrightarrow> {ar_start r..<ar_start r + ar_size r} \<inter> inited m = {})"
proof -
  let ?s = "ar_start r" and ?e = "ar_start r + ar_size r"
  obtain it cs where it: "range_as_init_chunks m ?s ?e = Some it" "init_chunks it = Some cs" "chunk_runs (inited m) ?s ?e cs"
    using range_as_init_chunks_runs [OF assms(1,2)] by blast
  have se: "?s < ?e" using assms(4) by simp
  then obtain c cs' where cs: "cs = c # cs'" using chunk_runs_empty [OF it(3)] by (cases cs) auto
  have init: "chunk_is_init c \<longleftrightarrow> ?s \<in> inited m" using chunk_runs_hd [OF it(3) se] cs by simp
  have "those (map (\<lambda>c. checked_sub (snd (chunk_range c)) (fst (chunk_range c))) cs) = Some (map chunk_size cs)"
    using chunk_runs_each [OF it(3)] by (intro those_map_Some) (auto simp: less_imp_le)
  then have "compress_uninit_range m r = Some \<lparr>imc_initial = chunk_is_init c, imc_ranges = map chunk_size cs\<rparr>" (is "_ = Some ?c")
    using it(1,2) cs assms by (simp add: compress_uninit_range_def alloc_range_end_def size_add_def)
  moreover have "encodes ?c (inited m) ?s (ar_size r)"
    using chunk_runs_lengths [OF it(3) se init] chunk_runs_each [OF it(3)] cs by (auto simp: encodes_def)
  moreover have "no_bytes_init ?c \<longleftrightarrow> {?s..<?e} \<inter> inited m = {}"
  proof -
    obtain t where t: "?s < t" "t \<le> ?e" "\<forall>i \<in> {?s..<t}. (i \<in> inited m) = chunk_is_init c"
      "t < ?e \<longrightarrow> (t \<in> inited m) \<noteq> chunk_is_init c" "chunk_runs (inited m) t ?e cs'" using it(3) cs by auto
    have emp: "cs' = [] \<longleftrightarrow> t = ?e" using chunk_runs_empty [OF t(5)] t(2) by auto
    show ?thesis
    proof (cases "t = ?e")
      case True
      then have "no_bytes_init ?c \<longleftrightarrow> \<not> chunk_is_init c" using emp cs by (simp add: no_bytes_init_def)
      moreover have "{?s..<?e} \<inter> inited m = {} \<longleftrightarrow> \<not> chunk_is_init c"
      proof (cases "chunk_is_init c")
        case True
        with init se have "?s \<in> {?s..<?e} \<inter> inited m" by simp
        with True show ?thesis by blast
      next
        case False
        with t(3) \<open>t = ?e\<close> show ?thesis by blast
      qed
      ultimately show ?thesis by simp
    next
      case False
      then have "\<not> no_bytes_init ?c" using emp cs by (simp add: no_bytes_init_def)
      moreover have "?s \<in> {?s..<?e}" "t \<in> {?s..<?e}" "t \<in> inited m \<or> ?s \<in> inited m" using t(1,2,4) False se init by auto
      ultimately show ?thesis by blast
    qed
  qed
  ultimately show ?thesis by blast
qed

lemma mark_ranges_inited:
  assumes "mask_ok m" "\<forall>r \<in> set rs. 0 < r" "j + sum_list rs \<le> mask_len m" "mask_len m < 2 ^ 64"
  shows "\<exists>m'. mark_ranges rs j cur m = Some m' \<and> mask_ok m' \<and> mask_len m' = mask_len m \<and>
    (\<forall>i. i \<in> inited m' \<longleftrightarrow> (if i \<in> {j..<j + sum_list rs} then run_state rs cur (i - j) else i \<in> inited m))"
  using assms
proof (induction rs arbitrary: j cur m)
  case (Cons r rs)
  then have "j < j + r" "j + r \<le> mask_len m" by simp_all
  from set_range_inbounds_inited [OF Cons.prems(1) this, of cur] obtain m1 where
    m1: "set_range_inbounds j (j + r) cur m = Some m1" "mask_ok m1" "mask_len m1 = mask_len m"
    "inited m1 = upd cur (inited m) {j..<j + r}" by blast
  obtain m' where m': "mark_ranges rs (j + r) (\<not> cur) m1 = Some m'" "mask_ok m'" "mask_len m' = mask_len m1"
    "\<And>i. i \<in> inited m' \<longleftrightarrow> (if i \<in> {j + r..<j + r + sum_list rs} then run_state rs (\<not> cur) (i - (j + r)) else i \<in> inited m1)"
    using Cons.IH [OF m1(2), of "j + r" "\<not> cur"] Cons.prems m1(3) by auto
  have "i \<in> inited m' \<longleftrightarrow> (if i \<in> {j..<j + sum_list (r # rs)} then run_state (r # rs) cur (i - j) else i \<in> inited m)" for i
  proof (cases "j + r \<le> i")
    case True
    then show ?thesis using m'(4) [of i] m1(4) by (auto simp: mem_upd)
  next
    case False
    then show ?thesis using m'(4) [of i] m1(4) by (auto simp: mem_upd)
  qed
  then show ?case using m1 m' Cons.prems by (simp add: size_add_def)
qed simp

lemma offset_block: "i \<in> {d + j * n..<d + j * n + n} \<Longrightarrow> i - (d + j * n) = (i - d) mod n" for i d j n :: nat
proof -
  assume "i \<in> {d + j * n..<d + j * n + n}"
  then obtain k where "i = d + j * n + k" "k < n" by (auto simp: le_iff_add)
  then show ?thesis by simp
qed

lemma mark_compressed_inited:
  assumes "encodes c S s (ar_size r)" "mask_ok m" "0 < ar_size r" "0 < n"
    and "ar_start r + ar_size r * n \<le> mask_len m" "mask_len m < 2 ^ 64"
  shows "\<exists>m'. mark_compressed_init_range c r n m = Some m' \<and> mask_ok m' \<and> mask_len m' = mask_len m \<and>
    (\<forall>i. i \<in> inited m' \<longleftrightarrow> (if i \<in> {ar_start r..<ar_start r + ar_size r * n}
       then s + (i - ar_start r) mod ar_size r \<in> S else i \<in> inited m))"
proof (cases "length (imc_ranges c) \<le> 1")
  case True
  let ?b = "imc_initial c"
  have "imc_ranges c = [ar_size r]" using assms(1) True by (cases "imc_ranges c") (auto simp: encodes_def)
  then have b: "k < ar_size r \<Longrightarrow> s + k \<in> S \<longleftrightarrow> ?b" for k using assms(1) by (simp add: encodes_def)
  have "ar_start r < ar_start r + ar_size r * n" using assms(3,4) by simp
  from set_range_inbounds_inited [OF assms(2) this assms(5), of ?b] obtain m' where
    "set_range_inbounds (ar_start r) (ar_start r + ar_size r * n) ?b m = Some m'" "mask_ok m'" "mask_len m' = mask_len m"
    "inited m' = upd ?b (inited m) {ar_start r..<ar_start r + ar_size r * n}" by blast
  then show ?thesis using True assms b by (auto simp: mark_compressed_init_range_def size_mul_def size_add_def mem_upd)
next
  case False
  let ?d = "ar_start r" and ?n = "ar_size r"
  let ?f = "\<lambda>j m. do { j \<leftarrow> size_mul j ?n; j \<leftarrow> size_add j ?d; mark_ranges (imc_ranges c) j (imc_initial c) m }"
  let ?I = "\<lambda>j m'. mask_ok m' \<and> mask_len m' = mask_len m \<and>
    (\<forall>i. i \<in> inited m' \<longleftrightarrow> (if i \<in> {?d..<?d + j * ?n} then s + (i - ?d) mod ?n \<in> S else i \<in> inited m))"
  have "\<exists>m'. for_range 0 n ?f m = Some m' \<and> ?I n m'"
  proof (rule for_range_rule)
    fix j t assume j: "j < n" and t: "?I j t"
    have "(j + 1) * ?n \<le> n * ?n" using j by (intro mult_le_mono1) simp
    then have le: "?d + j * ?n + ?n \<le> mask_len m" using assms(5) by (simp add: mult.commute)
    obtain m' where m': "mark_ranges (imc_ranges c) (?d + j * ?n) (imc_initial c) t = Some m'" "mask_ok m'" "mask_len m' = mask_len t"
      "\<And>i. i \<in> inited m' \<longleftrightarrow> (if i \<in> {?d + j * ?n..<?d + j * ?n + ?n}
        then run_state (imc_ranges c) (imc_initial c) (i - (?d + j * ?n)) else i \<in> inited t)"
      using mark_ranges_inited [of t "imc_ranges c" "?d + j * ?n" "imc_initial c"] t assms(1,6) le by (auto simp: encodes_def)
    have "?f j t = Some m'" using m'(1) le assms(6) by (simp add: size_mul_def size_add_def add.commute)
    moreover have "i \<in> inited m' \<longleftrightarrow> (if i \<in> {?d..<?d + Suc j * ?n} then s + (i - ?d) mod ?n \<in> S else i \<in> inited m)" for i
    proof (cases "i \<in> {?d + j * ?n..<?d + j * ?n + ?n}")
      case True
      then show ?thesis using m'(4) [of i] assms(1,3) offset_block [OF True] by (auto simp: encodes_def)
    next
      case False
      then have "i \<in> {?d..<?d + Suc j * ?n} \<longleftrightarrow> i \<in> {?d..<?d + j * ?n}" by auto
      moreover have "i \<in> inited m' \<longleftrightarrow> i \<in> inited t" using m'(4) [of i] unfolding if_not_P [OF False] .
      ultimately show ?thesis using t by (simp only:)
    qed
    ultimately show "\<exists>t'. ?f j t = Some t' \<and> ?I (Suc j) t'" using m'(2,3) t by auto
  qed (use assms(2) in simp_all)
  then show ?thesis using False by (simp add: mark_compressed_init_range_def mult.commute)
qed


section \<open>Properties\<close>

text \<open>C6: \<open>find_bit\<close> never panics on a range inside the mask: the block-wise search agrees with the bit-wise one, so the
  assertion that compares them holds, and both return the first position of \<open>start..end\<close> in the wanted state, or
  \<open>None\<close> where there is none.\<close>

theorem find_bit_correct:
  assumes "mask_ok m" "e \<le> mask_len m"
  shows "\<exists>r. find_bit m s e b = Some r \<and> find_bit_fast m s e b = Some r \<and> find_bit_slow m s e b = Some r \<and>
    first_match (\<lambda>i. (i \<in> inited m) = b) s e r"
  using assms by (rule find_bit_first_parts)

theorem find_bit_correct_witness:
  "\<exists>m. mask_new 200 True = Some m \<and> find_bit m 60 130 True = Some (Some 60) \<and> find_bit m 60 130 False = Some None"
proof -
  obtain m where m: "mask_new 200 True = Some m" "mask_ok m" "mask_len m = 200" "inited m = {..<200}"
    using mask_new_inited [of 200 True] by auto
  have "130 \<le> mask_len m" using m(3) by simp
  from find_bit_correct [OF m(2) this, of 60 True] find_bit_correct [OF m(2) this, of 60 False] obtain r r' where
    "find_bit m 60 130 True = Some r" "first_match (\<lambda>i. (i \<in> inited m) = True) 60 130 r"
    "find_bit m 60 130 False = Some r'" "first_match (\<lambda>i. (i \<in> inited m) = False) 60 130 r'" by blast
  moreover have "first_match (\<lambda>i. (i \<in> inited m) = True) 60 130 (Some 60)" "first_match (\<lambda>i. (i \<in> inited m) = False) 60 130 None"
    using m(4) by (simp_all add: first_match_def)
  ultimately show ?thesis using m(1) first_match_unique by blast
qed

lemma init_mask_updates_parts:
  assumes "mask_ok m"
  shows "n < 2 ^ 64 \<longrightarrow> (\<exists>m'. mask_new n st = Some m' \<and> mask_ok m' \<and> mask_len m' = n \<and> inited m' = (if st then {..<n} else {}))"
    and "i < mask_len m \<longrightarrow> mask_get m i = Some (i \<in> inited m) \<and>
      (\<exists>m'. mask_set i st m = Some m' \<and> mask_ok m' \<and> mask_len m' = mask_len m \<and> inited m' = upd st (inited m) {i})"
    and "a < b \<and> b \<le> mask_len m \<longrightarrow>
      (\<exists>m'. set_range_inbounds a b st m = Some m' \<and> mask_ok m' \<and> mask_len m' = mask_len m \<and> inited m' = upd st (inited m) {a..<b})"
    and "a < mask_len m \<longrightarrow> (\<exists>m'. set_range_inbounds a a st m = Some m' \<and> set_range a a st m = Some m' \<and> mask_ok m' \<and>
      mask_len m' = mask_len m \<and> inited m' = upd st (inited m) (if 64 dvd a then {a..<min (a + 64) (mask_len m)} else {}))"
    and "mask_len m + n < 2 ^ 64 \<longrightarrow> (\<exists>m'. mask_grow n st m = Some m' \<and> mask_ok m' \<and> mask_len m' = mask_len m + n \<and>
      inited m' = upd st (inited m) {mask_len m..<mask_len m + n})"
    and "a < b \<and> b < 2 ^ 64 \<longrightarrow> (\<exists>m'. set_range a b st m = Some m' \<and> mask_ok m' \<and> mask_len m' = max (mask_len m) b \<and>
      inited m' = upd st (inited m) ({a..<b} \<union> {mask_len m..<b}))"
  using mask_new_inited [of n st] mask_get_inited [OF assms, of i] mask_set_bits [OF assms, of i st]
    set_range_inbounds_inited [OF assms, of a b st] grow_inited [OF assms, of n st] set_range_inited [OF assms, of a b st]
    set_range_inbounds_empty [OF assms, of a st]
  by (blast | simp add: set_range_def)+

text \<open>C18: Every update of an \<open>InitMask\<close> keeps a bit for every position below its length. \<open>new\<close> builds a uniform mask, \<open>get\<close>
  reads the state of a position, \<open>set\<close> changes one position, \<open>set_range_inbounds\<close> exactly a nonempty range of the mask, \<open>grow\<close>
  the new positions; \<open>set_range\<close> extends the mask where its nonempty range ends behind it, giving the new positions in front
  of the range the new state as well. An empty range inside the mask changes nothing only if its position is not a multiple
  of 64: at a multiple of 64 both functions change all the positions of the block that starts there.\<close>

theorem init_mask_updates:
  assumes "mask_ok m"
  shows "(n < 2 ^ 64 \<longrightarrow> (\<exists>m'. mask_new n st = Some m' \<and> mask_ok m' \<and> mask_len m' = n \<and> inited m' = (if st then {..<n} else {}))) \<and>
    (i < mask_len m \<longrightarrow> mask_get m i = Some (i \<in> inited m) \<and>
      (\<exists>m'. mask_set i st m = Some m' \<and> mask_ok m' \<and> mask_len m' = mask_len m \<and> inited m' = upd st (inited m) {i})) \<and>
    (a < b \<and> b \<le> mask_len m \<longrightarrow>
      (\<exists>m'. set_range_inbounds a b st m = Some m' \<and> mask_ok m' \<and> mask_len m' = mask_len m \<and> inited m' = upd st (inited m) {a..<b})) \<and>
    (a < mask_len m \<longrightarrow> (\<exists>m'. set_range_inbounds a a st m = Some m' \<and> set_range a a st m = Some m' \<and> mask_ok m' \<and>
      mask_len m' = mask_len m \<and> inited m' = upd st (inited m) (if 64 dvd a then {a..<min (a + 64) (mask_len m)} else {}))) \<and>
    (mask_len m + n < 2 ^ 64 \<longrightarrow> (\<exists>m'. mask_grow n st m = Some m' \<and> mask_ok m' \<and> mask_len m' = mask_len m + n \<and>
      inited m' = upd st (inited m) {mask_len m..<mask_len m + n})) \<and>
    (a < b \<and> b < 2 ^ 64 \<longrightarrow> (\<exists>m'. set_range a b st m = Some m' \<and> mask_ok m' \<and> mask_len m' = max (mask_len m) b \<and>
      inited m' = upd st (inited m) ({a..<b} \<union> {mask_len m..<b})))"
  by ((rule conjI)?, rule init_mask_updates_parts [OF assms])+

theorem init_mask_updates_witness:
  "\<exists>m m'. mask_new 100 False = Some m \<and> set_range 150 200 True m = Some m' \<and> mask_len m' = 200 \<and> inited m' = {100..<200}"
proof -
  obtain m where m: "mask_new 100 False = Some m" "mask_ok m" "mask_len m = 100" "inited m = {}"
    using mask_new_inited [of 100 False] by auto
  moreover have "{150..<200} \<union> {100..<200} = {100..<200 :: nat}" by auto
  ultimately show ?thesis using init_mask_updates [OF m(2), of 0 True 0 150 200] by (auto simp: upd_def)
qed

text \<open>C14: The chunks of a range, the loop over the iterator ending: there is none iff the range is empty; otherwise the
  first starts at \<open>start\<close> and the last ends at \<open>end\<close>. Each is nonempty and uniform, of the state it is tagged with; each
  starts where the previous one ends, and their states alternate.\<close>

theorem init_chunks_partition:
  assumes "mask_ok m" "e \<le> mask_len m"
  shows "\<exists>it cs. range_as_init_chunks m s e = Some it \<and> init_chunks it = Some cs \<and> (cs = [] \<longleftrightarrow> e \<le> s) \<and>
    (s < e \<longrightarrow> fst (chunk_range (hd cs)) = s \<and> snd (chunk_range (last cs)) = e) \<and>
    (\<forall>c \<in> set cs. fst (chunk_range c) < snd (chunk_range c) \<and>
      (\<forall>i \<in> {fst (chunk_range c)..<snd (chunk_range c)}. (i \<in> inited m) = chunk_is_init c)) \<and>
    successively (\<lambda>c d. snd (chunk_range c) = fst (chunk_range d) \<and> chunk_is_init c \<noteq> chunk_is_init d) cs"
proof -
  obtain it cs where "range_as_init_chunks m s e = Some it" "init_chunks it = Some cs" and cs: "chunk_runs (inited m) s e cs"
    using range_as_init_chunks_runs [OF assms] by blast
  then show ?thesis
    using chunk_runs_empty [OF cs] chunk_runs_hd [OF cs] chunk_runs_last [OF cs] chunk_runs_each [OF cs] chunk_runs_follow [OF cs]
    by blast
qed

theorem init_chunks_partition_witness:
  "\<exists>it cs. range_as_init_chunks \<lparr>blocks = [5, 0], mask_len = 100\<rparr> 1 80 = Some it \<and> init_chunks it = Some cs \<and> cs \<noteq> [] \<and>
     fst (chunk_range (hd cs)) = 1 \<and> snd (chunk_range (last cs)) = 80"
  using init_chunks_partition [of "\<lparr>blocks = [5, 0], mask_len = 100\<rparr>" 80 1] by (auto simp: mask_ok_def WORD_BITS_def)

lemma encodes_uniform:
  assumes "encodes c S s n" "0 < n"
  shows "imc_initial c \<longleftrightarrow> s \<in> S" "length (imc_ranges c) \<le> 1 \<longleftrightarrow> (\<forall>k < n. s + k \<in> S \<longleftrightarrow> s \<in> S)"
proof -
  obtain r rs where c: "imc_ranges c = r # rs" "0 < r" "r + sum_list rs = n" "\<forall>x \<in> set rs. 0 < x"
    "\<forall>k < n. run_state (r # rs) (imc_initial c) k \<longleftrightarrow> s + k \<in> S" using assms(1) by (cases "imc_ranges c") (auto simp: encodes_def)
  from c(5) [rule_format, OF assms(2)] c(2) show init: "imc_initial c \<longleftrightarrow> s \<in> S" by simp
  show "length (imc_ranges c) \<le> 1 \<longleftrightarrow> (\<forall>k < n. s + k \<in> S \<longleftrightarrow> s \<in> S)"
  proof (cases rs)
    case Nil
    then have "\<forall>k < n. s + k \<in> S \<longleftrightarrow> s \<in> S" using c(3,5) init by simp
    then show ?thesis using Nil c(1) by simp
  next
    case (Cons x xs)
    then have "0 < x" "r < n" using c(3,4) by auto
    then have "s + r \<in> S \<longleftrightarrow> s \<notin> S" using c(5) [rule_format, of r] Cons init by simp
    then have "\<not> (\<forall>k < n. s + k \<in> S \<longleftrightarrow> s \<in> S)" using \<open>r < n\<close> by blast
    then show ?thesis using c(1) Cons by simp
  qed
qed

lemma mark_compressed_none:
  assumes "encodes c S s (ar_size r)" "0 < ar_size r" "mask_ok m" "ar_start r < mask_len m" "mask_len m < 2 ^ 64"
  shows "\<exists>m'. mark_compressed_init_range c r 0 m = Some m' \<and> mask_ok m' \<and> mask_len m' = mask_len m \<and>
    inited m' = (if 64 dvd ar_start r \<and> (\<forall>k < ar_size r. s + k \<in> S \<longleftrightarrow> s \<in> S)
      then upd (s \<in> S) (inited m) {ar_start r..<min (ar_start r + 64) (mask_len m)} else inited m)"
proof (cases "length (imc_ranges c) \<le> 1")
  case True
  have "mark_compressed_init_range c r 0 m = set_range_inbounds (ar_start r) (ar_start r) (s \<in> S) m"
    using True assms(4,5) encodes_uniform(1) [OF assms(1,2)] by (simp add: mark_compressed_init_range_def size_mul_def size_add_def)
  then show ?thesis using True set_range_inbounds_empty [OF assms(3,4), of "s \<in> S"] encodes_uniform(2) [OF assms(1,2)] by auto
next
  case False
  then show ?thesis using assms(3) encodes_uniform(2) [OF assms(1,2)] by (auto simp: mark_compressed_init_range_def)
qed

text \<open>C10: Copying initialisation between masks: \<open>compress_uninit_range\<close> of a nonempty range of a mask succeeds, and
  \<open>mark_compressed_init_range\<close> writes \<open>repeat\<close> copies of it into the target, \<open>repeat\<close> being at least one: every position of
  the copies gets the state of the source position it stems from, every other position keeps its state. With \<open>repeat = 0\<close>
  the target stays as it is, unless the source range is uniform and the target starts at a multiple of 64: then the 64
  positions from there on (those of the mask) get the state of the source. \<open>no_bytes_init\<close> holds of the encoding exactly
  where no byte of the source range is initialised.\<close>

theorem copy_init_mask:
  assumes "mask_ok src" "ar_start r + ar_size r \<le> mask_len src" "mask_len src < 2 ^ 64" "0 < ar_size r"
    and "mask_ok m" "mask_len m < 2 ^ 64"
  shows "\<exists>c. compress_uninit_range src r = Some c \<and>
    (no_bytes_init c \<longleftrightarrow> {ar_start r..<ar_start r + ar_size r} \<inter> inited src = {}) \<and>
    (0 < n \<and> d + ar_size r * n \<le> mask_len m \<longrightarrow>
      (\<exists>m'. mark_compressed_init_range c \<lparr>ar_start = d, ar_size = ar_size r\<rparr> n m = Some m' \<and> mask_ok m' \<and> mask_len m' = mask_len m \<and>
        (\<forall>i. i \<in> inited m' \<longleftrightarrow>
          (if d \<le> i \<and> i < d + ar_size r * n then ar_start r + (i - d) mod ar_size r \<in> inited src else i \<in> inited m)))) \<and>
    (d < mask_len m \<longrightarrow>
      (\<exists>m'. mark_compressed_init_range c \<lparr>ar_start = d, ar_size = ar_size r\<rparr> 0 m = Some m' \<and> mask_ok m' \<and> mask_len m' = mask_len m \<and>
        inited m' = (if 64 dvd d \<and> (\<forall>k < ar_size r. ar_start r + k \<in> inited src \<longleftrightarrow> ar_start r \<in> inited src)
          then upd (ar_start r \<in> inited src) (inited m) {d..<min (d + 64) (mask_len m)} else inited m)))"
proof -
  let ?d = "\<lparr>ar_start = d, ar_size = ar_size r\<rparr>"
  obtain c where c: "compress_uninit_range src r = Some c" "encodes c (inited src) (ar_start r) (ar_size r)"
    "no_bytes_init c \<longleftrightarrow> {ar_start r..<ar_start r + ar_size r} \<inter> inited src = {}"
    using compress_encodes [OF assms(1-4)] by blast
  have e: "encodes c (inited src) (ar_start r) (ar_size ?d)" using c(2) by simp
  have pos: "0 < ar_size ?d" using assms(4) by simp
  show ?thesis
    using c(1,3) mark_compressed_inited [OF e assms(5) pos, of n, simplified alloc_range.simps]
      mark_compressed_none [OF e pos assms(5), simplified alloc_range.simps] assms(6)
    by (intro exI [of _ c]) (simp only: atLeastLessThan_iff simp_thms, blast)
qed

theorem copy_init_mask_witness:
  "\<exists>src m c m'. mask_new 200 True = Some src \<and> mask_new 300 False = Some m \<and>
     compress_uninit_range src \<lparr>ar_start = 10, ar_size = 20\<rparr> = Some c \<and> \<not> no_bytes_init c \<and>
     mark_compressed_init_range c \<lparr>ar_start = 64, ar_size = 20\<rparr> 3 m = Some m' \<and> inited m' = {64..<124}"
proof -
  obtain src where src: "mask_new 200 True = Some src" "mask_ok src" "mask_len src = 200" "inited src = {..<200}"
    using mask_new_inited [of 200 True] by auto
  obtain m where m: "mask_new 300 False = Some m" "mask_ok m" "mask_len m = 300" "inited m = {}"
    using mask_new_inited [of 300 False] by auto
  obtain c where c0: "compress_uninit_range src \<lparr>ar_start = 10, ar_size = 20\<rparr> = Some c"
    "no_bytes_init c \<longleftrightarrow> {10..<30} \<inter> inited src = {}"
    "\<exists>m'. mark_compressed_init_range c \<lparr>ar_start = 64, ar_size = 20\<rparr> 3 m = Some m' \<and>
      (\<forall>i. i \<in> inited m' \<longleftrightarrow> (if 64 \<le> i \<and> i < 64 + 20 * 3 then 10 + (i - 64) mod 20 \<in> inited src else i \<in> inited m))"
    using copy_init_mask [of src "\<lparr>ar_start = 10, ar_size = 20\<rparr>" m 3 64, simplified alloc_range.simps] src(2,3) m(2,3) by fastforce
  then obtain m' where c: "compress_uninit_range src \<lparr>ar_start = 10, ar_size = 20\<rparr> = Some c"
    "no_bytes_init c \<longleftrightarrow> {10..<30} \<inter> inited src = {}" "mark_compressed_init_range c \<lparr>ar_start = 64, ar_size = 20\<rparr> 3 m = Some m'"
    "\<forall>i. i \<in> inited m' \<longleftrightarrow> (if 64 \<le> i \<and> i < 64 + 20 * 3 then 10 + (i - 64) mod 20 \<in> inited src else i \<in> inited m)"
    by blast
  have "10 + (i - 64) mod 20 < (200 :: nat)" for i using mod_less_divisor [of 20 "i - 64"] by linarith
  then have "inited m' = {64..<124}" using c(4) src(4) m(4) by (auto split: if_splits)
  moreover have "10 \<in> {10..<30} \<inter> inited src" using src(4) by simp
  ultimately show ?thesis using src(1) m(1) c(1-3) by blast
qed

lemma check_init_inside:
  assumes "mask_ok m" "ar_start r + ar_size r \<le> mask_len m" "ar_start r + ar_size r < 2 ^ 64"
  shows "if {ar_start r..<ar_start r + ar_size r} \<subseteq> inited m then check_init m r = Some (Ok ())
    else \<exists>a b. check_init m r = Some (Err (InvalidUninitBytes (Some \<lparr>access_offset = ar_start r, access_size = ar_size r, uninit_offset = a, uninit_size = b - a\<rparr>))) \<and>
      ar_start r \<le> a \<and> a < b \<and> b \<le> ar_start r + ar_size r \<and> {ar_start r..<a} \<subseteq> inited m \<and> {a..<b} \<inter> inited m = {} \<and>
      (b = ar_start r + ar_size r \<or> b \<in> inited m)"
proof (cases "{ar_start r..<ar_start r + ar_size r} \<subseteq> inited m")
  case True
  then show ?thesis using is_range_initialized_inside [OF assms(1,2), of "ar_start r"] assms(3)
    by (simp add: check_init_def alloc_is_init_def alloc_range_end_def size_add_def)
next
  case False
  with is_range_initialized_inside [OF assms(1,2), of "ar_start r"] obtain a b where
    ab: "is_range_initialized m (ar_start r) (ar_start r + ar_size r) = Some (Err (a, b))" "a < b"
    "ar_start r \<le> a \<and> a < b \<and> b \<le> ar_start r + ar_size r \<and> {ar_start r..<a} \<subseteq> inited m \<and> {a..<b} \<inter> inited m = {} \<and>
      (b = ar_start r + ar_size r \<or> b \<in> inited m)" by (metis (no_types, lifting))
  from ab(1,2) have "check_init m r =
      Some (Err (InvalidUninitBytes (Some \<lparr>access_offset = ar_start r, access_size = ar_size r, uninit_offset = a, uninit_size = b - a\<rparr>)))"
    using assms(3) by (simp add: check_init_def alloc_is_init_def alloc_range_end_def size_add_def)
  with ab(3) False show ?thesis by auto
qed

lemma mark_then_check:
  assumes "mask_ok m" "ar_start r + ar_size r < 2 ^ 64" "0 < ar_size r"
  shows "\<exists>m'. mark_init True r st m = Some m' \<and> mask_ok m' \<and>
    check_init m' r = Some (if st then Ok () else
      Err (InvalidUninitBytes (Some \<lparr>access_offset = ar_start r, access_size = ar_size r, uninit_offset = ar_start r, uninit_size = ar_size r\<rparr>)))"
proof -
  let ?s = "ar_start r" and ?e = "ar_start r + ar_size r"
  have se: "?s < ?e" using assms(3) by simp
  obtain m' where m': "set_range ?s ?e st m = Some m'" "mask_ok m'" "mask_len m' = max (mask_len m) ?e"
    "inited m' = upd st (inited m) ({?s..<?e} \<union> {mask_len m..<?e})"
    using set_range_inited [OF assms(1) se assms(2)] by blast
  then have mem: "i \<in> {?s..<?e} \<Longrightarrow> i \<in> inited m' \<longleftrightarrow> st" for i by (simp add: mem_upd)
  have "?e \<le> mask_len m'" using m'(3) by simp
  note ci = check_init_inside [OF m'(2) this assms(2)]
  have "check_init m' r = Some (if st then Ok () else
      Err (InvalidUninitBytes (Some \<lparr>access_offset = ar_start r, access_size = ar_size r, uninit_offset = ar_start r, uninit_size = ar_size r\<rparr>)))"
  proof (cases st)
    case True
    then have "{?s..<?e} \<subseteq> inited m'" using mem by blast
    then show ?thesis using ci True by simp
  next
    case False
    then have "?s \<notin> inited m'" using mem [of ?s] se by simp
    then have "\<not> {?s..<?e} \<subseteq> inited m'" using se by force
    with ci obtain a b where ab: "check_init m' r = Some (Err (InvalidUninitBytes (Some \<lparr>access_offset = ?s, access_size = ar_size r, uninit_offset = a, uninit_size = b - a\<rparr>)))"
      "?s \<le> a" "a < b" "b \<le> ?e" "{?s..<a} \<subseteq> inited m'" "b = ?e \<or> b \<in> inited m'" by (metis (no_types, lifting))
    have "a = ?s" using ab(2,5) \<open>?s \<notin> inited m'\<close> by (cases "?s < a") auto
    moreover have "b = ?e" using ab(2,3,4,6) mem [of b] False by (cases "b < ?e") auto
    ultimately show ?thesis using ab(1) False by simp
  qed
  then show ?thesis using m' assms by (simp add: mark_init_def alloc_range_end_def size_add_def)
qed

text \<open>\<open>check_init\<close> of a range inside the mask succeeds iff every byte of it is initialised, and otherwise reports the
  first maximal run of uninitialised bytes of the range. After \<open>mark_init\<close> of a mutable allocation with a nonempty range,
  it succeeds on that range if the range was marked as initialised, and reports all of it otherwise. \<open>mark_init\<close> of an
  immutable allocation panics, unless the range is empty.\<close>

theorem check_init_correct:
  assumes "mask_ok m" "ar_start r + ar_size r < 2 ^ 64" "0 < ar_size r"
  shows "(ar_start r + ar_size r \<le> mask_len m \<longrightarrow>
      (if {ar_start r..<ar_start r + ar_size r} \<subseteq> inited m then check_init m r = Some (Ok ())
       else \<exists>a b. check_init m r = Some (Err (InvalidUninitBytes (Some \<lparr>access_offset = ar_start r, access_size = ar_size r, uninit_offset = a, uninit_size = b - a\<rparr>))) \<and>
         ar_start r \<le> a \<and> a < b \<and> b \<le> ar_start r + ar_size r \<and> {ar_start r..<a} \<subseteq> inited m \<and> {a..<b} \<inter> inited m = {} \<and>
         (b = ar_start r + ar_size r \<or> b \<in> inited m))) \<and>
    (\<exists>m'. mark_init True r st m = Some m' \<and> mask_ok m' \<and>
       check_init m' r = Some (if st then Ok () else
         Err (InvalidUninitBytes (Some \<lparr>access_offset = ar_start r, access_size = ar_size r, uninit_offset = ar_start r, uninit_size = ar_size r\<rparr>)))) \<and>
    mark_init False r st m = None"
  using check_init_inside [OF assms(1) _ assms(2)] mark_then_check [OF assms] assms(3)
  by (intro conjI impI) (blast, simp add: mark_init_def, simp add: mark_init_def)

theorem check_init_correct_witness:
  "\<exists>m m'. mask_new 100 True = Some m \<and> mark_init True \<lparr>ar_start = 60, ar_size = 30\<rparr> False m = Some m' \<and>
     check_init m' \<lparr>ar_start = 60, ar_size = 30\<rparr> =
       Some (Err (InvalidUninitBytes (Some \<lparr>access_offset = 60, access_size = 30, uninit_offset = 60, uninit_size = 30\<rparr>)))"
proof -
  obtain m where m: "mask_new 100 True = Some m" "mask_ok m" using mask_new_inited [of 100 True] by auto
  then show ?thesis using check_init_correct [OF m(2), of "\<lparr>ar_start = 60, ar_size = 30\<rparr>" False] by auto
qed

end
