(* ===== verification/Allocation.thy ===== *)
theory Allocation
  imports Init_Mask Sorted_Map
begin

text \<open>
  The memory of the compile-time interpreter, one allocation at a time: \<open>Allocation\<close> of
  \<open>compiler/rustc_middle/src/mir/interpret/allocation.rs\<close> with its bytes, the relocations (where pointers are stored, a
  \<open>SortedMap\<close>) and the mask of initialised bytes; reading and writing of scalars, with the encoding of integers
  (\<open>mod.rs\<close>, \<open>ty/consts/int.rs\<close>, \<open>value.rs\<close>); see \<open>Allocation_Copy\<close> for the copying.

  A \<open>&mut [u8]\<close> into the bytes is the slice it starts with, and \<open>put_bytes\<close> writes it back. The constants of the trait
  \<open>Provenance\<close> and the data layout are arguments. Where memory for an allocation is missing is decided by a parameter.
\<close>

section \<open>Integers of the target\<close>

datatype endian = Little | Big

record data_layout =
  dl_endian :: endian
  pointer_size :: nat

abbreviation to_be_bytes :: "u128 \<Rightarrow> u8 list" where
  "to_be_bytes v \<equiv> rev (to_le_bytes v)"

abbreviation from_be_bytes :: "u8 list \<Rightarrow> u128" where
  "from_be_bytes bs \<equiv> from_le_bytes (rev bs)"

text \<open>\<open>Write for &mut [u8]\<close> copies as much as fits and moves on behind it; \<open>Read for &[u8]\<close> likewise.\<close>

definition write_target_uint :: "endian \<Rightarrow> u8 list \<Rightarrow> u128 \<Rightarrow> u8 list option" where
  "write_target_uint en target data = do {
     src \<leftarrow> (case en of
         Little \<Rightarrow> Some (to_le_bytes data)
       | Big \<Rightarrow> do { k \<leftarrow> checked_sub 16 (length target); Some (drop k (to_be_bytes data)) });
     let n = min (length src) (length target);
     assert_that (drop n target = []);
     Some (take n src @ drop n target)
   }"

definition read_target_uint :: "endian \<Rightarrow> u8 list \<Rightarrow> u128 option" where
  "read_target_uint en source = do {
     let buf = replicate 16 0;
     case en of
       Little \<Rightarrow> do {
         let n = min (length source) 16;
         let uint = from_le_bytes (take n source @ drop n buf);
         assert_that (drop n source = []);
         Some uint
       }
     | Big \<Rightarrow> do {
         k \<leftarrow> checked_sub 16 (length source);
         let n = min (length source) (16 - k);
         let uint = from_be_bytes (take k buf @ take n source @ drop (k + n) buf);
         assert_that (drop n source = []);
         Some uint
       }
   }"

definition size_bits :: "nat \<Rightarrow> nat option" where
  "size_bits s = size_mul s 8"

definition size_truncate :: "nat \<Rightarrow> u128 \<Rightarrow> u128 option" where
  "size_truncate s value' = do {
     size' \<leftarrow> size_bits s;
     if size' = 0 then Some 0
     else do {
       shift \<leftarrow> checked_sub 128 size';
       Some (drop_bit shift (push_bit shift value'))
     }
   }"

text \<open>The size of a \<open>ScalarInt\<close> is a \<open>u8\<close>, and \<open>as u8\<close> wraps.\<close>

record scalar_int =
  si_data :: u128
  si_size :: nat

definition check_data :: "scalar_int \<Rightarrow> unit option" where
  "check_data si = do {
     t \<leftarrow> size_truncate (si_size si) (si_data si);
     assert_that (t = si_data si)
   }"

definition try_from_uint :: "u128 \<Rightarrow> nat \<Rightarrow> scalar_int option option" where
  "try_from_uint data s = do {
     t \<leftarrow> size_truncate s data;
     Some (if t = data then Some \<lparr>si_data = data, si_size = s mod 256\<rparr> else None)
   }"

definition to_bits :: "scalar_int \<Rightarrow> nat \<Rightarrow> (u128, nat) result option" where
  "to_bits si target = do {
     assert_that (target \<noteq> 0);
     if target = si_size si then do {
       check_data si;
       Some (Ok (si_data si))
     } else Some (Err (si_size si))
   }"

record 'tag pointer =
  ptr_offset :: nat
  provenance :: 'tag

datatype 'tag scalar = Int' scalar_int | Ptr "'tag pointer" nat

datatype 'tag scalar_maybe_uninit = Scalar "'tag scalar" | Uninit'

definition from_pointer :: "'tag pointer \<Rightarrow> data_layout \<Rightarrow> 'tag scalar option" where
  "from_pointer p cx = do {
     assert_that (pointer_size cx < 256);
     Some (Ptr p (pointer_size cx))
   }"

text \<open>\<open>bug!\<close> panics.\<close>

definition from_uint :: "u128 \<Rightarrow> nat \<Rightarrow> 'tag scalar option" where
  "from_uint i s = do {
     r \<leftarrow> try_from_uint i s;
     si \<leftarrow> r;
     Some (Int' si)
   }"

definition to_bits_or_ptr_internal ::
    "'tag scalar \<Rightarrow> nat \<Rightarrow> ((u128, 'tag pointer) result, scalar_size_mismatch) result option" where
  "to_bits_or_ptr_internal s target = do {
     assert_that (target \<noteq> 0);
     case s of
       Int' si \<Rightarrow> do {
         r \<leftarrow> to_bits si target;
         Some (case r of Ok d \<Rightarrow> Ok (Ok d) | Err sz \<Rightarrow> Err \<lparr>target_size = target, data_size = sz\<rparr>)
       }
     | Ptr ptr sz \<Rightarrow> Some (if target \<noteq> sz then Err \<lparr>target_size = target, data_size = sz\<rparr> else Ok (Err ptr))
   }"


section \<open>Allocations\<close>

datatype mutability = Mut | Not'

record ('tag, 'extra) allocation =
  al_bytes :: "u8 list"
  relocations :: "(nat, 'tag) sorted_map"
  al_init_mask :: init_mask
  al_align :: nat
  al_mutability :: mutability
  al_extra :: 'extra

text \<open>The associated constants of \<open>Provenance\<close>.\<close>

record provenance_consts =
  OFFSET_IS_ADDR :: bool
  ERR_ON_PARTIAL_PTR_OVERWRITE :: bool

definition alloc_id_consts :: provenance_consts where
  "alloc_id_consts = \<lparr>OFFSET_IS_ADDR = False, ERR_ON_PARTIAL_PTR_OVERWRITE = True\<rparr>"

definition subrange :: "alloc_range \<Rightarrow> alloc_range \<Rightarrow> alloc_range option" where
  "subrange r sub = do {
     sub_start \<leftarrow> size_add (ar_start r) (ar_start sub);
     let range' = \<lparr>ar_start = sub_start, ar_size = ar_size sub\<rparr>;
     e \<leftarrow> alloc_range_end range';
     e' \<leftarrow> alloc_range_end r;
     assert_that (e \<le> e');
     Some range'
   }"

definition from_bytes :: "u8 list \<Rightarrow> nat \<Rightarrow> mutability \<Rightarrow> ('tag, unit) allocation option" where
  "from_bytes slice' align mut = do {
     let size' = length slice';
     m \<leftarrow> mask_new size' True;
     Some \<lparr>al_bytes = slice', relocations = smap_new, al_init_mask = m, al_align = align, al_mutability = mut, al_extra = ()\<rparr>
   }"

definition from_bytes_byte_aligned_immutable :: "u8 list \<Rightarrow> ('tag, unit) allocation option" where
  "from_bytes_byte_aligned_immutable slice' = from_bytes slice' 1 Not'"

datatype resource_exhaustion = MemoryExhausted

definition uninit ::
    "(nat \<Rightarrow> bool) \<Rightarrow> nat \<Rightarrow> nat \<Rightarrow> bool \<Rightarrow> (('tag, unit) allocation, resource_exhaustion) result option" where
  "uninit enough_memory size' align panic_on_fail =
     (if enough_memory size' then do {
        m \<leftarrow> mask_new size' False;
        Some (Ok \<lparr>al_bytes = replicate size' 0, relocations = smap_new, al_init_mask = m, al_align = align,
          al_mutability = Mut, al_extra = ()\<rparr>)
      } else if panic_on_fail then None
      else Some (Err MemoryExhausted))"

text \<open>
  \<open>convert_tag_add_extra\<close>: \<open>tagger\<close> is a closure with a state, called for every pointer in the order of their offsets. The
  vector of new relocations and the bytes are changed in the loop.
\<close>

fun convert_loop ::
    "data_layout \<Rightarrow> ('s \<Rightarrow> 'id pointer \<Rightarrow> 'tag pointer \<times> 's) \<Rightarrow> (nat \<times> 'id) list \<Rightarrow> 's \<Rightarrow> u8 list \<Rightarrow> (nat \<times> 'tag) list \<Rightarrow>
     (u8 list \<times> (nat \<times> 'tag) list \<times> 's) option" where
  "convert_loop cx tagger [] st bytes new_relocations = Some (bytes, new_relocations, st)"
| "convert_loop cx tagger ((idx, alloc_id) # rels) st bytes new_relocations = do {
     ptr_bytes \<leftarrow> slice bytes idx (idx + pointer_size cx);
     bits' \<leftarrow> read_target_uint (dl_endian cx) ptr_bytes;
     assert_that (unat bits' < 2 ^ 64);
     let (ptr, st) = tagger st \<lparr>ptr_offset = unat bits', provenance = alloc_id\<rparr>;
     ptr_bytes \<leftarrow> write_target_uint (dl_endian cx) ptr_bytes (of_nat (ptr_offset ptr));
     convert_loop cx tagger rels st (take idx bytes @ ptr_bytes @ drop (idx + pointer_size cx) bytes)
       (new_relocations @ [(idx, provenance ptr)])
   }"

definition convert_tag_add_extra ::
    "data_layout \<Rightarrow> 'extra \<Rightarrow> ('s \<Rightarrow> 'id pointer \<Rightarrow> 'tag pointer \<times> 's) \<Rightarrow> 's \<Rightarrow> ('id, unit) allocation \<Rightarrow>
     (('tag, 'extra) allocation \<times> 's) option" where
  "convert_tag_add_extra cx extra tagger st a = do {
     (bytes, new_relocations, st) \<leftarrow> convert_loop cx tagger (smap_data (relocations a)) st (al_bytes a) [];
     rel \<leftarrow> from_presorted_elements new_relocations;
     Some (\<lparr>al_bytes = bytes, relocations = rel, al_init_mask = al_init_mask a, al_align = al_align a,
       al_mutability = al_mutability a, al_extra = extra\<rparr>, st)
   }"

text \<open>The \<open>?\<close> operator.\<close>

definition try_do :: "('a, 'e) result option \<Rightarrow> ('a \<Rightarrow> ('b, 'e) result option) \<Rightarrow> ('b, 'e) result option" where
  "try_do x f = do {
     r \<leftarrow> x;
     case r of Ok v \<Rightarrow> f v | Err e \<Rightarrow> Some (Err e)
   }"

definition alloc_mark_init :: "alloc_range \<Rightarrow> bool \<Rightarrow> ('tag, 'extra) allocation \<Rightarrow> ('tag, 'extra) allocation option" where
  "alloc_mark_init r is_init a = do {
     m \<leftarrow> mark_init (al_mutability a = Mut) r is_init (al_init_mask a);
     Some (a\<lparr>al_init_mask := m\<rparr>)
   }"

definition get_relocations :: "data_layout \<Rightarrow> alloc_range \<Rightarrow> ('tag, 'extra) allocation \<Rightarrow> (nat \<times> 'tag) list option" where
  "get_relocations cx r a = do {
     d \<leftarrow> checked_sub (pointer_size cx) 1;
     let start = ar_start r - d;
     e \<leftarrow> alloc_range_end r;
     smap_range (relocations a) (Included start, Excluded e)
   }"

definition check_relocations :: "data_layout \<Rightarrow> alloc_range \<Rightarrow> ('tag, 'extra) allocation \<Rightarrow> (unit, alloc_error) result option" where
  "check_relocations cx r a = do {
     rs \<leftarrow> get_relocations cx r a;
     Some (if rs = [] then Ok () else Err ReadPointerAsBytes)
   }"

definition clear_relocations ::
    "provenance_consts \<Rightarrow> data_layout \<Rightarrow> alloc_range \<Rightarrow> ('tag, 'extra) allocation \<Rightarrow>
     ((unit, alloc_error) result \<times> ('tag, 'extra) allocation) option" where
  "clear_relocations P cx r a = do {
     rs \<leftarrow> get_relocations cx r a;
     if rs = [] then Some (Ok (), a)
     else do {
       let first = fst (hd rs);
       last' \<leftarrow> size_add (fst (last rs)) (pointer_size cx);
       let start = ar_start r;
       end' \<leftarrow> alloc_range_end r;
       if first < start \<and> ERR_ON_PARTIAL_PTR_OVERWRITE P then Some (Err (PartialPointerOverwrite first), a)
       else do {
         m \<leftarrow> (if first < start then set_range first start False (al_init_mask a) else Some (al_init_mask a));
         let a = a\<lparr>al_init_mask := m\<rparr>;
         if end' < last' \<and> ERR_ON_PARTIAL_PTR_OVERWRITE P then do {
           k \<leftarrow> checked_sub last' (pointer_size cx);
           Some (Err (PartialPointerOverwrite k), a)
         } else do {
           m \<leftarrow> (if end' < last' then set_range end' last' False (al_init_mask a) else Some (al_init_mask a));
           let a = a\<lparr>al_init_mask := m\<rparr>;
           rel \<leftarrow> smap_remove_range (relocations a) (Included first, Excluded last');
           Some (Ok (), a\<lparr>relocations := rel\<rparr>)
         }
       }
     }
   }"

definition check_relocation_edges :: "data_layout \<Rightarrow> alloc_range \<Rightarrow> ('tag, 'extra) allocation \<Rightarrow> (unit, alloc_error) result option" where
  "check_relocation_edges cx r a =
     try_do (check_relocations cx \<lparr>ar_start = ar_start r, ar_size = 0\<rparr> a) (\<lambda>_. do {
       e \<leftarrow> alloc_range_end r;
       check_relocations cx \<lparr>ar_start = e, ar_size = 0\<rparr> a
     })"


section \<open>Reading and writing\<close>

definition get_bytes_even_more_internal :: "alloc_range \<Rightarrow> ('tag, 'extra) allocation \<Rightarrow> u8 list option" where
  "get_bytes_even_more_internal r a = do {
     e \<leftarrow> alloc_range_end r;
     slice (al_bytes a) (ar_start r) e
   }"

definition get_bytes_internal ::
    "data_layout \<Rightarrow> alloc_range \<Rightarrow> bool \<Rightarrow> ('tag, 'extra) allocation \<Rightarrow> (u8 list, alloc_error) result option" where
  "get_bytes_internal cx r check_init_and_ptr a =
     try_do (if check_init_and_ptr
             then try_do (check_init (al_init_mask a) r) (\<lambda>_. check_relocations cx r a)
             else check_relocation_edges cx r a)
       (\<lambda>_. do {
          bs \<leftarrow> get_bytes_even_more_internal r a;
          Some (Ok bs)
        })"

definition get_bytes :: "data_layout \<Rightarrow> alloc_range \<Rightarrow> ('tag, 'extra) allocation \<Rightarrow> (u8 list, alloc_error) result option" where
  "get_bytes cx r a = get_bytes_internal cx r True a"

definition get_bytes_with_uninit_and_ptr ::
    "data_layout \<Rightarrow> alloc_range \<Rightarrow> ('tag, 'extra) allocation \<Rightarrow> (u8 list, alloc_error) result option" where
  "get_bytes_with_uninit_and_ptr cx r a = get_bytes_internal cx r False a"

definition get_bytes_mut ::
    "provenance_consts \<Rightarrow> data_layout \<Rightarrow> alloc_range \<Rightarrow> ('tag, 'extra) allocation \<Rightarrow>
     ((u8 list, alloc_error) result \<times> ('tag, 'extra) allocation) option" where
  "get_bytes_mut P cx r a = do {
     a \<leftarrow> alloc_mark_init r True a;
     (res, a) \<leftarrow> clear_relocations P cx r a;
     case res of
       Err e \<Rightarrow> Some (Err e, a)
     | Ok _ \<Rightarrow> do {
         e \<leftarrow> alloc_range_end r;
         bs \<leftarrow> slice (al_bytes a) (ar_start r) e;
         Some (Ok bs, a)
       }
   }"

text \<open>The raw pointer is the offset and the length of the slice it stands for.\<close>

definition get_bytes_mut_ptr ::
    "provenance_consts \<Rightarrow> data_layout \<Rightarrow> alloc_range \<Rightarrow> ('tag, 'extra) allocation \<Rightarrow>
     ((nat \<times> nat, alloc_error) result \<times> ('tag, 'extra) allocation) option" where
  "get_bytes_mut_ptr P cx r a = do {
     a \<leftarrow> alloc_mark_init r True a;
     (res, a) \<leftarrow> clear_relocations P cx r a;
     case res of
       Err e \<Rightarrow> Some (Err e, a)
     | Ok _ \<Rightarrow> do {
         e \<leftarrow> alloc_range_end r;
         assert_that (e \<le> length (al_bytes a));
         len \<leftarrow> checked_sub e (ar_start r);
         Some (Ok (ar_start r, len), a)
       }
   }"

definition put_bytes :: "nat \<Rightarrow> u8 list \<Rightarrow> ('tag, 'extra) allocation \<Rightarrow> ('tag, 'extra) allocation" where
  "put_bytes i bs a = a\<lparr>al_bytes := take i (al_bytes a) @ bs @ drop (i + length bs) (al_bytes a)\<rparr>"

definition check_bytes ::
    "data_layout \<Rightarrow> alloc_range \<Rightarrow> bool \<Rightarrow> bool \<Rightarrow> ('tag, 'extra) allocation \<Rightarrow> (unit, alloc_error) result option" where
  "check_bytes cx r allow_uninit allow_ptr a =
     try_do (get_bytes_with_uninit_and_ptr cx r a) (\<lambda>_.
     try_do (if \<not> allow_uninit then check_init (al_init_mask a) r else Some (Ok ())) (\<lambda>_.
     if \<not> allow_ptr then check_relocations cx r a else Some (Ok ())))"

text \<open>\<open>Size::from_bytes(bits)\<close> panics for a value of more than 64 bits.\<close>

definition read_scalar ::
    "provenance_consts \<Rightarrow> data_layout \<Rightarrow> alloc_range \<Rightarrow> bool \<Rightarrow> ('tag, 'extra) allocation \<Rightarrow>
     ('tag scalar_maybe_uninit, alloc_error) result option" where
  "read_scalar P cx r read_provenance a = do {
     assert_that (read_provenance \<longrightarrow> ar_size r = pointer_size cx);
     ini \<leftarrow> alloc_is_init (al_init_mask a) r;
     case ini of
       Err _ \<Rightarrow> Some (Ok Uninit')
     | Ok _ \<Rightarrow> do {
         prov \<leftarrow> (if read_provenance then smap_get (relocations a) (ar_start r) else Some None);
         case prov of
           Some prov \<Rightarrow> do {
             bs \<leftarrow> get_bytes_even_more_internal r a;
             bits' \<leftarrow> read_target_uint (dl_endian cx) bs;
             assert_that (unat bits' < 2 ^ 64);
             s \<leftarrow> from_pointer \<lparr>ptr_offset = unat bits', provenance = prov\<rparr> cx;
             Some (Ok (Scalar s))
           }
         | None \<Rightarrow>
             if \<not> read_provenance \<and> OFFSET_IS_ADDR P then do {
               bs \<leftarrow> get_bytes_even_more_internal r a;
               bits' \<leftarrow> read_target_uint (dl_endian cx) bs;
               s \<leftarrow> from_uint bits' (ar_size r);
               Some (Ok (Scalar s))
             } else
               try_do (get_bytes cx r a) (\<lambda>bs. do {
                 bits' \<leftarrow> read_target_uint (dl_endian cx) bs;
                 s \<leftarrow> from_uint bits' (ar_size r);
                 Some (Ok (Scalar s))
               })
       }
   }"

definition write_uninit ::
    "provenance_consts \<Rightarrow> data_layout \<Rightarrow> alloc_range \<Rightarrow> ('tag, 'extra) allocation \<Rightarrow>
     ((unit, alloc_error) result \<times> ('tag, 'extra) allocation) option" where
  "write_uninit P cx r a = do {
     a \<leftarrow> alloc_mark_init r False a;
     clear_relocations P cx r a
   }"

definition write_scalar ::
    "provenance_consts \<Rightarrow> data_layout \<Rightarrow> alloc_range \<Rightarrow> 'tag scalar_maybe_uninit \<Rightarrow> ('tag, 'extra) allocation \<Rightarrow>
     ((unit, alloc_error) result \<times> ('tag, 'extra) allocation) option" where
  "write_scalar P cx r val a = do {
     assert_that (al_mutability a = Mut);
     case val of
       Uninit' \<Rightarrow> write_uninit P cx r a
     | Scalar s \<Rightarrow> do {
         res \<leftarrow> to_bits_or_ptr_internal s (ar_size r);
         case res of
           Err mm \<Rightarrow> Some (Err (ScalarSizeMismatch mm), a)
         | Ok bp \<Rightarrow> do {
             let (data, prov) = (case bp of
                 Err ptr \<Rightarrow> (of_nat (ptr_offset ptr), Some (provenance ptr))
               | Ok data \<Rightarrow> (data, None));
             (res, a) \<leftarrow> get_bytes_mut P cx r a;
             case res of
               Err e \<Rightarrow> Some (Err e, a)
             | Ok dst \<Rightarrow> do {
                 dst \<leftarrow> write_target_uint (dl_endian cx) dst data;
                 let a = put_bytes (ar_start r) dst a;
                 case prov of
                   None \<Rightarrow> Some (Ok (), a)
                 | Some prov \<Rightarrow> do {
                     (_, rel) \<leftarrow> smap_insert (relocations a) (ar_start r) prov;
                     Some (Ok (), a\<lparr>relocations := rel\<rparr>)
                   }
               }
           }
       }
   }"


section \<open>Encoding of integers\<close>

lemma length_to_le_bytes [simp]: "length (to_le_bytes (v :: u128)) = 16"
  by (simp add: to_le_bytes_def)

lemma bit_from_le_bytes:
  "bit (from_le_bytes bs :: 'a::len word) i \<longleftrightarrow> i < LENGTH('a) \<and> i div 8 < length bs \<and> bit (bs ! (i div 8)) (i mod 8)"
proof (induction bs arbitrary: i)
  case (Cons b bs)
  show ?case
  proof (cases "i < 8")
    case True
    then show ?thesis by (auto simp: bit_or_iff bit_push_bit_iff bit_ucast_iff)
  next
    case False
    then have "\<not> bit b i" using bit_less_length [of b i] by auto
    moreover have "i div 8 = Suc ((i - 8) div 8)" "i mod 8 = (i - 8) mod 8" using False by (simp_all add: le_div_geq le_mod_geq)
    ultimately show ?thesis using False Cons.IH [of "i - 8"] by (auto simp: bit_or_iff bit_push_bit_iff bit_ucast_iff)
  qed
qed simp

definition enc_bytes :: "endian \<Rightarrow> nat \<Rightarrow> u128 \<Rightarrow> u8 list" where
  "enc_bytes en n d = (case en of Little \<Rightarrow> take n (to_le_bytes d) | Big \<Rightarrow> rev (take n (to_le_bytes d)))"

lemma length_enc_bytes [simp]: "n \<le> 16 \<Longrightarrow> length (enc_bytes en n d) = n"
  by (simp add: enc_bytes_def split: endian.split)

lemma write_target_uint_eq:
  "length target \<le> 16 \<Longrightarrow> write_target_uint en target d = Some (enc_bytes en (length target) d)"
  by (cases en) (simp_all add: write_target_uint_def enc_bytes_def rev_take Let_def)

lemma read_target_uint_eq:
  assumes "length source \<le> 16"
  shows "read_target_uint en source =
    Some (from_le_bytes ((case en of Little \<Rightarrow> source | Big \<Rightarrow> rev source) @ replicate (16 - length source) 0))"
  using assms by (cases en) (simp_all add: read_target_uint_def Let_def min_def)

lemma read_enc_bytes:
  assumes "n \<le> 16"
  shows "read_target_uint en (enc_bytes en n d) = Some (take_bit (8 * n) d)"
proof -
  have "(case en of Little \<Rightarrow> enc_bytes en n d | Big \<Rightarrow> rev (enc_bytes en n d)) = take n (to_le_bytes d)"
    by (simp add: enc_bytes_def split: endian.split)
  moreover have "from_le_bytes (take n (to_le_bytes d) @ replicate (16 - n) 0) = take_bit (8 * n) d"
  proof (rule bit_word_eqI)
    fix i assume "i < LENGTH(128)"
    then have i: "i < 128" "i div 8 < 16" by simp_all
    show "bit (from_le_bytes (take n (to_le_bytes d) @ replicate (16 - n) 0) :: u128) i \<longleftrightarrow> bit (take_bit (8 * n) d) i"
    proof (cases "i div 8 < n")
      case True
      then have "i < 8 * n" "(take n (to_le_bytes d) @ replicate (16 - n) 0) ! (i div 8) = ucast (drop_bit (8 * (i div 8)) d)"
        using i assms by (simp_all add: nth_append to_le_bytes_def)
      moreover have "bit (ucast (drop_bit (8 * (i div 8)) d) :: u8) (i mod 8) \<longleftrightarrow> bit d i"
        by (simp add: bit_ucast_iff bit_drop_bit_eq)
      ultimately show ?thesis using True i assms by (simp add: bit_from_le_bytes bit_take_bit_iff)
    next
      case False
      then have "\<not> i < 8 * n" "(take n (to_le_bytes d) @ replicate (16 - n) 0) ! (i div 8) = 0"
        using i assms by (auto simp: nth_append)
      then show ?thesis by (simp add: bit_from_le_bytes bit_take_bit_iff)
    qed
  qed
  ultimately show ?thesis using read_target_uint_eq [of "enc_bytes en n d" en] assms by simp
qed

lemma size_truncate_eq:
  assumes "0 < s" "s \<le> 16"
  shows "size_truncate s v = Some (take_bit (8 * s) v)"
proof -
  have "drop_bit (128 - 8 * s) (push_bit (128 - 8 * s) v) = take_bit (8 * s) v"
  proof (rule bit_word_eqI)
    fix i assume "i < LENGTH(128)"
    then show "bit (drop_bit (128 - 8 * s) (push_bit (128 - 8 * s) v)) i \<longleftrightarrow> bit (take_bit (8 * s) v) i"
      using assms by (auto simp: bit_drop_bit_eq bit_push_bit_iff bit_take_bit_iff)
  qed
  then show ?thesis using assms by (simp add: size_truncate_def size_bits_def size_mul_def mult.commute)
qed

text \<open>A \<open>ScalarInt\<close> of \<open>n\<close> bytes, as its constructors make it.\<close>

definition scalar_int_ok :: "nat \<Rightarrow> scalar_int \<Rightarrow> bool" where
  "scalar_int_ok n si \<longleftrightarrow> 0 < n \<and> n \<le> 16 \<and> si_size si = n \<and> take_bit (8 * n) (si_data si) = si_data si"

lemma to_bits_ok: "scalar_int_ok n si \<Longrightarrow> to_bits si n = Some (Ok (si_data si))"
  by (simp add: to_bits_def scalar_int_ok_def check_data_def size_truncate_eq)

lemma from_uint_ok: "scalar_int_ok n si \<Longrightarrow> from_uint (si_data si) n = Some (Int' si)"
  by (simp add: from_uint_def try_from_uint_def scalar_int_ok_def size_truncate_eq)

lemma scalar_int_ok_from_uint:
  assumes "0 < n" "n \<le> 16" "from_uint d n = Some s"
  shows "\<exists>si. s = Int' si \<and> scalar_int_ok n si \<and> si_data si = d"
  using assms by (auto simp: from_uint_def try_from_uint_def size_truncate_eq scalar_int_ok_def bind_eq_Some_conv split: if_splits)

lemma from_uint_take_bit: "0 < n \<Longrightarrow> n \<le> 16 \<Longrightarrow> from_uint (take_bit (8 * n) d) n = Some (Int' \<lparr>si_data = take_bit (8 * n) d, si_size = n\<rparr>)"
  using from_uint_ok [of n "\<lparr>si_data = take_bit (8 * n) d, si_size = n\<rparr>"] by (simp add: scalar_int_ok_def)


section \<open>The invariant of an allocation\<close>

text \<open>The offsets where a pointer is stored, and whether a pointer stored at \<open>k\<close> has a byte in common with a range (for
  an empty range: contains its position, but does not start there).\<close>

abbreviation rel_map :: "('tag, 'extra) allocation \<Rightarrow> nat \<rightharpoonup> 'tag" where
  "rel_map a \<equiv> smap_map (relocations a)"

abbreviation alloc_inited :: "('tag, 'extra) allocation \<Rightarrow> nat set" where
  "alloc_inited a \<equiv> inited (al_init_mask a)"

definition overlaps :: "data_layout \<Rightarrow> alloc_range \<Rightarrow> nat \<Rightarrow> bool" where
  "overlaps cx r k \<longleftrightarrow> k < ar_start r + ar_size r \<and> ar_start r < k + pointer_size cx"

text \<open>The shape of an allocation: the mask covers the bytes; pointers lie inside and do not overlap. The full invariant
  adds that the bytes of a pointer are initialised.\<close>

definition alloc_shape :: "data_layout \<Rightarrow> ('tag, 'extra) allocation \<Rightarrow> bool" where
  "alloc_shape cx a \<longleftrightarrow> 0 < pointer_size cx \<and> pointer_size cx \<le> 8 \<and> length (al_bytes a) < 2 ^ 63 \<and>
     mask_ok (al_init_mask a) \<and> mask_len (al_init_mask a) = length (al_bytes a) \<and> smap_inv (relocations a) \<and>
     (\<forall>k \<in> dom (rel_map a). k + pointer_size cx \<le> length (al_bytes a)) \<and>
     (\<forall>k \<in> dom (rel_map a). \<forall>k' \<in> dom (rel_map a). k < k' \<longrightarrow> k + pointer_size cx \<le> k')"

definition alloc_ok :: "data_layout \<Rightarrow> ('tag, 'extra) allocation \<Rightarrow> bool" where
  "alloc_ok cx a \<longleftrightarrow> alloc_shape cx a \<and> (\<forall>k \<in> dom (rel_map a). {k..<k + pointer_size cx} \<subseteq> alloc_inited a)"

lemma alloc_shapeD:
  assumes "alloc_shape cx a"
  shows "0 < pointer_size cx" "pointer_size cx \<le> 8" "length (al_bytes a) < 2 ^ 63" "mask_ok (al_init_mask a)"
    "mask_len (al_init_mask a) = length (al_bytes a)" "smap_inv (relocations a)"
    "k \<in> dom (rel_map a) \<Longrightarrow> k + pointer_size cx \<le> length (al_bytes a)"
    "k \<in> dom (rel_map a) \<Longrightarrow> k' \<in> dom (rel_map a) \<Longrightarrow> k < k' \<Longrightarrow> k + pointer_size cx \<le> k'"
  using assms by (auto simp: alloc_shape_def)

lemma get_relocations_eq:
  assumes "smap_inv (relocations a)" "0 < pointer_size cx" "ar_start r + ar_size r < 2 ^ 64"
  shows "get_relocations cx r a = Some (filter (\<lambda>(k, _). overlaps cx r k) (smap_data (relocations a)))"
proof -
  let ?b = "(Included (ar_start r - (pointer_size cx - 1)), Excluded (ar_start r + ar_size r))"
  have "range_contains ?b k \<longleftrightarrow> overlaps cx r k" for k
    using assms(2) by (auto simp: range_contains_def overlaps_def)
  then show ?thesis using smap_range_ok(1) [OF assms(1), of ?b] assms(2,3)
    by (auto simp: get_relocations_def alloc_range_end_def size_add_def)
qed

lemma filter_empty_dom: "filter (\<lambda>(k, _). Q k) xs = [] \<longleftrightarrow> (\<forall>k \<in> dom (map_of xs). \<not> Q k)"
  by (auto simp: filter_empty_conv dom_map_of_conv_image_fst)

lemma check_relocations_eq:
  assumes "smap_inv (relocations a)" "0 < pointer_size cx" "ar_start r + ar_size r < 2 ^ 64"
  shows "check_relocations cx r a =
    Some (if \<forall>k \<in> dom (rel_map a). \<not> overlaps cx r k then Ok () else Err ReadPointerAsBytes)"
  using get_relocations_eq [OF assms] filter_empty_dom [of "overlaps cx r" "smap_data (relocations a)"]
  by (auto simp: check_relocations_def smap_map_def)

text \<open>The first and the last pointer that overlaps a range.\<close>

lemma outermost_relocations:
  assumes "smap_inv R" "filter (\<lambda>(k, _). Q k) (smap_data R) = rs" "rs \<noteq> []"
  shows "fst (hd rs) \<in> dom (smap_map R)" "Q (fst (hd rs))" "fst (last rs) \<in> dom (smap_map R)" "Q (fst (last rs))"
    "\<forall>k \<in> dom (smap_map R). Q k \<longrightarrow> fst (hd rs) \<le> k \<and> k \<le> fst (last rs)"
proof -
  have set_rs: "set rs = {(k, v) \<in> set (smap_data R). Q k}" using assms(2) by auto
  have "fst x \<in> dom (smap_map R) \<and> Q (fst x)" if "x \<in> set rs" for x
    using that unfolding set_rs by (force simp: smap_map_def dom_map_of_conv_image_fst)
  then show "fst (hd rs) \<in> dom (smap_map R)" "Q (fst (hd rs))" "fst (last rs) \<in> dom (smap_map R)" "Q (fst (last rs))"
    using assms(3) by simp_all
  have "sorted_wrt (\<lambda>x y. fst x < fst y) rs" using assms(1,2) by (auto simp: smap_inv_def sorted_wrt_map intro: sorted_wrt_filter)
  then have "sorted (map fst rs)" by (auto simp: sorted_wrt_map less_imp_le elim: sorted_wrt_mono_rel [rotated])
  moreover have "k \<in> set (map fst rs)" if k: "k \<in> dom (smap_map R)" "Q k" for k
  proof -
    obtain v where "(k, v) \<in> set (smap_data R)" using k(1) by (auto simp: smap_map_def dest: map_of_SomeD)
    then have "(k, v) \<in> set rs" using set_rs k(2) by simp
    then show ?thesis by force
  qed
  ultimately show "\<forall>k \<in> dom (smap_map R). Q k \<longrightarrow> fst (hd rs) \<le> k \<and> k \<le> fst (last rs)"
    using sorted_hd_last [of "map fst rs"] assms(3) by (metis hd_map last_map)
qed

lemma deinit_range:
  assumes "mask_ok m" "y \<le> mask_len m" "mask_len m < 2 ^ 64"
  shows "\<exists>m'. (if x < y then set_range x y False m else Some m) = Some m' \<and> mask_ok m' \<and> mask_len m' = mask_len m \<and>
    inited m' = inited m - {x..<y}"
proof (cases "x < y")
  case True
  have "{mask_len m..<y} = {}" using assms(2) by simp
  with set_range_inited [OF assms(1) True, of False] True assms show ?thesis by (auto simp: upd_def max_def)
qed (use assms in simp)

lemma remove_relocations:
  assumes "smap_inv R" "x \<le> y"
  shows "\<exists>R'. smap_remove_range R (Included x, Excluded y) = Some R' \<and> smap_inv R' \<and> smap_map R' = smap_map R |` {k. \<not> (x \<le> k \<and> k < y)}"
proof -
  let ?b = "(Included x, Excluded y)"
  let ?R = "R\<lparr>smap_data := filter (\<lambda>(k, _). \<not> range_contains ?b k) (smap_data R)\<rparr>"
  have "smap_remove_range R ?b = Some ?R" using smap_range_ok(2) [OF assms(1), of ?b] assms(2) by auto
  moreover have "smap_inv ?R" using assms(1) by (auto simp: smap_inv_def sorted_wrt_map intro: sorted_wrt_filter)
  moreover have "smap_map ?R = smap_map R |` {k. \<not> (x \<le> k \<and> k < y)}"
    using map_of_filter_key [of "\<lambda>k. \<not> range_contains ?b k" "smap_data R"] by (simp add: smap_map_def range_contains_def)
  ultimately show ?thesis by blast
qed

text \<open>The bytes outside of a range of the pointers that overlap it.\<close>

definition cut_off :: "data_layout \<Rightarrow> alloc_range \<Rightarrow> ('tag, 'extra) allocation \<Rightarrow> nat set" where
  "cut_off cx r a = (\<Union>k \<in> {k \<in> dom (rel_map a). overlaps cx r k}. {k..<k + pointer_size cx}) - {ar_start r..<ar_start r + ar_size r}"

lemma cut_off_eq:
  assumes "alloc_shape cx a" and f: "f \<in> dom (rel_map a)" "overlaps cx r f" and l: "l \<in> dom (rel_map a)" "overlaps cx r l"
    and fl: "\<forall>k \<in> dom (rel_map a). overlaps cx r k \<longrightarrow> f \<le> k \<and> k \<le> l"
  shows "cut_off cx r a = {f..<ar_start r} \<union> {ar_start r + ar_size r..<l + pointer_size cx}"
    and "k \<in> dom (rel_map a) \<Longrightarrow> overlaps cx r k \<longleftrightarrow> f \<le> k \<and> k < l + pointer_size cx"
proof -
  note sep = alloc_shapeD(8) [OF assms(1)]
  show ov: "overlaps cx r k \<longleftrightarrow> f \<le> k \<and> k < l + pointer_size cx" if k: "k \<in> dom (rel_map a)" for k
  proof
    assume "overlaps cx r k"
    then show "f \<le> k \<and> k < l + pointer_size cx" using fl k alloc_shapeD(1) [OF assms(1)] by auto
  next
    assume *: "f \<le> k \<and> k < l + pointer_size cx"
    then have "k \<le> l" using sep [OF l(1) k] by (cases "l < k") auto
    with * f(2) l(2) show "overlaps cx r k" by (auto simp: overlaps_def)
  qed
  have fk: "f \<le> k" "k \<le> l" if "k \<in> dom (rel_map a)" "overlaps cx r k" for k using fl that by blast+
  have low: "k = f" if "k \<in> dom (rel_map a)" "overlaps cx r k" "k < ar_start r" for k
    using sep [OF f(1) that(1)] fk [OF that(1,2)] that(3) f(2) by (cases "f < k") (auto simp: overlaps_def)
  have high: "k = l" if "k \<in> dom (rel_map a)" "overlaps cx r k" "ar_start r + ar_size r < k + pointer_size cx" for k
    using sep [OF that(1) l(1)] fk [OF that(1,2)] that(3) l(2) by (cases "k < l") (auto simp: overlaps_def)
  show "cut_off cx r a = {f..<ar_start r} \<union> {ar_start r + ar_size r..<l + pointer_size cx}" (is "?L = ?R")
  proof
    show "?L \<subseteq> ?R"
    proof
      fix i assume "i \<in> ?L"
      then obtain k where k: "k \<in> dom (rel_map a)" "overlaps cx r k" "k \<le> i" "i < k + pointer_size cx"
        "i < ar_start r \<or> ar_start r + ar_size r \<le> i" unfolding cut_off_def by fastforce
      then show "i \<in> ?R" using low [OF k(1,2)] high [OF k(1,2)] by auto
    qed
    show "?R \<subseteq> ?L" using f l by (auto simp: cut_off_def overlaps_def)
  qed
qed

lemma restrict_map_dom: "(\<And>k. k \<in> dom f \<Longrightarrow> k \<in> A \<longleftrightarrow> k \<in> B) \<Longrightarrow> f |` A = f |` B"
proof
  fix k assume "\<And>k. k \<in> dom f \<Longrightarrow> k \<in> A \<longleftrightarrow> k \<in> B"
  then show "(f |` A) k = (f |` B) k" by (cases "f k") (auto simp: restrict_map_def)
qed

lemma restrict_map_all: "dom f \<subseteq> A \<Longrightarrow> f |` A = f"
  by (rule trans [OF restrict_map_dom [of f A UNIV]]) auto

lemma clear_relocations_ok:
  assumes a: "alloc_shape cx a" and e: "ar_start r + ar_size r \<le> length (al_bytes a)"
    and P: "ERR_ON_PARTIAL_PTR_OVERWRITE P \<longrightarrow> cut_off cx r a = {}"
  shows "\<exists>m rel. clear_relocations P cx r a = Some (Ok (), a\<lparr>al_init_mask := m, relocations := rel\<rparr>) \<and>
    mask_ok m \<and> mask_len m = mask_len (al_init_mask a) \<and> inited m = alloc_inited a - cut_off cx r a \<and>
    smap_inv rel \<and> smap_map rel = rel_map a |` {k. \<not> overlaps cx r k}"
proof -
  note D = alloc_shapeD [OF a]
  have lt: "ar_start r + ar_size r < 2 ^ 64" using e D(3) by simp
  let ?rs = "filter (\<lambda>(k, _). overlaps cx r k) (smap_data (relocations a))"
  note g = get_relocations_eq [OF D(6) D(1) lt]
  show ?thesis
  proof (cases "?rs = []")
    case True
    then have no: "\<forall>k \<in> dom (rel_map a). \<not> overlaps cx r k" by (simp add: filter_empty_dom smap_map_def)
    then have "cut_off cx r a = {}" "rel_map a |` {k. \<not> overlaps cx r k} = rel_map a"
      by (auto simp: cut_off_def intro: restrict_map_all)
    then show ?thesis using True g D by (intro exI [of _ "al_init_mask a"] exI [of _ "relocations a"]) (simp add: clear_relocations_def)
  next
    case False
    define f l where "f = fst (hd ?rs)" and "l = fst (last ?rs)"
    note out = outermost_relocations [OF D(6) refl False, folded f_def l_def]
    note cut = cut_off_eq [OF a out(1-4) out(5)]
    have l: "l + pointer_size cx \<le> length (al_bytes a)" using D(7) out(3) by blast
    obtain m1 where m1: "(if f < ar_start r then set_range f (ar_start r) False (al_init_mask a) else Some (al_init_mask a)) = Some m1"
      "mask_ok m1" "mask_len m1 = mask_len (al_init_mask a)" "inited m1 = alloc_inited a - {f..<ar_start r}"
      using deinit_range [of "al_init_mask a" "ar_start r" f] D e by auto
    obtain m2 where m2: "(if ar_start r + ar_size r < l + pointer_size cx
        then set_range (ar_start r + ar_size r) (l + pointer_size cx) False m1 else Some m1) = Some m2"
      "mask_ok m2" "mask_len m2 = mask_len m1" "inited m2 = inited m1 - {ar_start r + ar_size r..<l + pointer_size cx}"
      using deinit_range [of m1 "l + pointer_size cx" "ar_start r + ar_size r"] D l m1 by auto
    have "f \<le> l" using out(3,4,5) by simp
    then obtain rel where rel: "smap_remove_range (relocations a) (Included f, Excluded (l + pointer_size cx)) = Some rel" "smap_inv rel"
      "smap_map rel = rel_map a |` {k. \<not> (f \<le> k \<and> k < l + pointer_size cx)}"
      using remove_relocations [OF D(6), of f "l + pointer_size cx"] by auto
    have "smap_map rel = rel_map a |` {k. \<not> overlaps cx r k}"
      unfolding rel(3) using cut(2) by (intro restrict_map_dom) auto
    moreover have "inited m2 = alloc_inited a - cut_off cx r a" unfolding m2(4) m1(4) cut(1) by auto
    moreover have "\<not> (f < ar_start r \<and> ERR_ON_PARTIAL_PTR_OVERWRITE P)"
      "\<not> (ar_start r + ar_size r < l + pointer_size cx \<and> ERR_ON_PARTIAL_PTR_OVERWRITE P)" using P cut(1) by auto
    then have "clear_relocations P cx r a = Some (Ok (), a\<lparr>al_init_mask := m2, relocations := rel\<rparr>)"
      using g False m1(1) m2(1) rel(1) l D(3) lt
      by (simp add: clear_relocations_def alloc_range_end_def size_add_def f_def [symmetric] l_def [symmetric] Let_def)
        (use m2(1) in \<open>auto split: if_splits\<close>)
    ultimately show ?thesis using m1(3) m2(2,3) rel(2) by auto
  qed
qed

lemma clear_relocations_err:
  assumes a: "alloc_shape cx a" and e: "ar_start r + ar_size r \<le> length (al_bytes a)"
    and P: "ERR_ON_PARTIAL_PTR_OVERWRITE P" "cut_off cx r a \<noteq> {}"
  shows "\<exists>k \<in> dom (rel_map a). clear_relocations P cx r a = Some (Err (PartialPointerOverwrite k), a) \<and> overlaps cx r k \<and>
    \<not> {k..<k + pointer_size cx} \<subseteq> {ar_start r..<ar_start r + ar_size r}"
proof -
  note D = alloc_shapeD [OF a]
  have lt: "ar_start r + ar_size r < 2 ^ 64" using e D(3) by simp
  let ?rs = "filter (\<lambda>(k, _). overlaps cx r k) (smap_data (relocations a))"
  note g = get_relocations_eq [OF D(6) D(1) lt]
  have False: "?rs \<noteq> []" using P(2) by (auto simp: filter_empty_dom cut_off_def smap_map_def)
  define f l where "f = fst (hd ?rs)" and "l = fst (last ?rs)"
  note out = outermost_relocations [OF D(6) refl False, folded f_def l_def]
  note cut = cut_off_eq [OF a out(1-4) out(5)]
  have l: "l + pointer_size cx \<le> length (al_bytes a)" using D(7) out(3) by blast
  show ?thesis
  proof (cases "f < ar_start r")
    case True
    then have "clear_relocations P cx r a = Some (Err (PartialPointerOverwrite f), a)"
      using g False P(1) l D(3) lt
      by (simp add: clear_relocations_def alloc_range_end_def size_add_def f_def [symmetric] l_def [symmetric] Let_def)
    moreover have "f \<in> {f..<f + pointer_size cx}" "f \<notin> {ar_start r..<ar_start r + ar_size r}" using True D(1) by auto
    ultimately show ?thesis using out(1,2) by blast
  next
    case nf: False
    then have "ar_start r + ar_size r < l + pointer_size cx" using P(2) cut(1) by auto
    moreover from this have "clear_relocations P cx r a = Some (Err (PartialPointerOverwrite l), a)"
      using g False P(1) nf l D(3) lt
      by (simp add: clear_relocations_def alloc_range_end_def size_add_def f_def [symmetric] l_def [symmetric] Let_def)
    moreover have "l + pointer_size cx - 1 \<in> {l..<l + pointer_size cx}" using D(1) by auto
    ultimately show ?thesis using out(3,4) by force
  qed
qed

lemma cut_off_cong: "relocations a' = relocations a \<Longrightarrow> cut_off cx r a' = cut_off cx r a"
  by (simp add: cut_off_def)

lemma untouched_pointer:
  assumes "alloc_shape cx a" "k \<in> dom (rel_map a)" "\<not> overlaps cx r k"
  shows "{k..<k + pointer_size cx} \<inter> cut_off cx r a = {}" "{k..<k + pointer_size cx} \<inter> {ar_start r..<ar_start r + ar_size r} = {}"
proof -
  have "{k..<k + pointer_size cx} \<inter> {k'..<k' + pointer_size cx} = {}" if "k' \<in> dom (rel_map a)" "overlaps cx r k'" for k'
  proof -
    have "k \<noteq> k'" using assms(3) that(2) by blast
    then show ?thesis using alloc_shapeD(8) [OF assms(1,2) that(1)] alloc_shapeD(8) [OF assms(1) that(1) assms(2)]
      by (cases "k < k'") auto
  qed
  then show "{k..<k + pointer_size cx} \<inter> cut_off cx r a = {}" unfolding cut_off_def by blast
  show "{k..<k + pointer_size cx} \<inter> {ar_start r..<ar_start r + ar_size r} = {}" using assms(3) by (auto simp: overlaps_def)
qed

lemma alloc_shape_update:
  assumes "alloc_shape cx a" "mask_ok m" "mask_len m = mask_len (al_init_mask a)" "smap_inv rel" "dom (smap_map rel) \<subseteq> dom (rel_map a)"
  shows "alloc_shape cx (a\<lparr>al_init_mask := m, relocations := rel\<rparr>)"
  using assms unfolding alloc_shape_def by (simp add: subset_iff)

text \<open>\<open>mark_init\<close> of an empty range returns before it looks at the mutability.\<close>

lemma alloc_mark_init_any:
  assumes "alloc_shape cx a" "ar_start r + ar_size r \<le> length (al_bytes a)" "0 < ar_size r \<longrightarrow> al_mutability a = Mut"
  shows "\<exists>m. alloc_mark_init r b a = Some (a\<lparr>al_init_mask := m\<rparr>) \<and> mask_ok m \<and> mask_len m = mask_len (al_init_mask a) \<and>
    inited m = upd b (alloc_inited a) {ar_start r..<ar_start r + ar_size r}"
proof (cases "ar_size r = 0")
  case True
  then show ?thesis using alloc_shapeD(4) [OF assms(1)]
    by (intro exI [of _ "al_init_mask a"]) (simp add: alloc_mark_init_def mark_init_def)
next
  case False
  let ?s = "ar_start r" and ?e = "ar_start r + ar_size r"
  note D = alloc_shapeD [OF assms(1)]
  have "?s < ?e" "?e < 2 ^ 64" using False assms(2) D(3) by simp_all
  with set_range_inited [OF D(4), of ?s ?e b] obtain m where m: "set_range ?s ?e b (al_init_mask a) = Some m" "mask_ok m"
    "mask_len m = max (mask_len (al_init_mask a)) ?e" "inited m = upd b (alloc_inited a) ({?s..<?e} \<union> {mask_len (al_init_mask a)..<?e})"
    by blast
  have "{mask_len (al_init_mask a)..<?e} = {}" "max (mask_len (al_init_mask a)) ?e = mask_len (al_init_mask a)" using D(5) assms(2) by auto
  then show ?thesis using m False assms(3) \<open>?e < 2 ^ 64\<close>
    by (intro exI [of _ m]) (simp add: alloc_mark_init_def mark_init_def alloc_range_end_def size_add_def)
qed

lemmas alloc_mark_init_ok = alloc_mark_init_any [OF _ _ impI]

text \<open>\<open>mark_init\<close> followed by \<open>clear_relocations\<close>, as in \<open>get_bytes_mut\<close> and \<open>write_uninit\<close>.\<close>

lemma mark_and_clear_any:
  assumes a: "alloc_ok cx a" "ar_start r + ar_size r \<le> length (al_bytes a)" "0 < ar_size r \<longrightarrow> al_mutability a = Mut"
    and P: "ERR_ON_PARTIAL_PTR_OVERWRITE P \<longrightarrow> cut_off cx r a = {}"
  shows "\<exists>m0 m rel. alloc_mark_init r b a = Some (a\<lparr>al_init_mask := m0\<rparr>) \<and>
    clear_relocations P cx r (a\<lparr>al_init_mask := m0\<rparr>) = Some (Ok (), a\<lparr>al_init_mask := m, relocations := rel\<rparr>) \<and>
    alloc_ok cx (a\<lparr>al_init_mask := m, relocations := rel\<rparr>) \<and>
    inited m = upd b (alloc_inited a) {ar_start r..<ar_start r + ar_size r} - cut_off cx r a \<and>
    smap_map rel = rel_map a |` {k. \<not> overlaps cx r k}"
proof -
  have sh: "alloc_shape cx a" using a(1) by (simp add: alloc_ok_def)
  obtain m0 where m0: "alloc_mark_init r b a = Some (a\<lparr>al_init_mask := m0\<rparr>)" "mask_ok m0" "mask_len m0 = mask_len (al_init_mask a)"
    "inited m0 = upd b (alloc_inited a) {ar_start r..<ar_start r + ar_size r}" using alloc_mark_init_any [OF sh a(2,3)] by blast
  let ?a = "a\<lparr>al_init_mask := m0\<rparr>"
  have sh0: "alloc_shape cx ?a" using sh m0(2,3) by (simp add: alloc_shape_def)
  have cut: "cut_off cx r ?a = cut_off cx r a" by (rule cut_off_cong) simp
  have "ar_start r + ar_size r \<le> length (al_bytes ?a)" using a(2) by simp
  from clear_relocations_ok [OF sh0 this, of P] P cut obtain m rel where
    c: "clear_relocations P cx r ?a = Some (Ok (), a\<lparr>al_init_mask := m, relocations := rel\<rparr>)" "mask_ok m" "mask_len m = mask_len m0"
    "inited m = inited m0 - cut_off cx r a" "smap_inv rel" "smap_map rel = rel_map a |` {k. \<not> overlaps cx r k}" by auto
  have dom: "dom (smap_map rel) = {k \<in> dom (rel_map a). \<not> overlaps cx r k}" unfolding c(6) by auto
  have "alloc_shape cx (a\<lparr>al_init_mask := m, relocations := rel\<rparr>)"
    using alloc_shape_update [OF sh c(2) _ c(5)] c(3) m0(3) dom by auto
  moreover have "{k..<k + pointer_size cx} \<subseteq> inited m" if "k \<in> dom (smap_map rel)" for k
  proof -
    have k: "k \<in> dom (rel_map a)" "\<not> overlaps cx r k" using that dom by auto
    then have "{k..<k + pointer_size cx} \<subseteq> alloc_inited a" using a(1) by (simp add: alloc_ok_def)
    then show ?thesis using untouched_pointer [OF sh k] unfolding c(4) m0(4) by (auto simp: mem_upd)
  qed
  ultimately have "alloc_ok cx (a\<lparr>al_init_mask := m, relocations := rel\<rparr>)" by (simp add: alloc_ok_def)
  then show ?thesis using m0(1,4) c(1,4,6) by auto
qed

lemmas mark_and_clear = mark_and_clear_any [OF _ _ impI]


section \<open>Writing\<close>

lemma get_bytes_mut_ok:
  assumes "alloc_ok cx a" "ar_start r + ar_size r \<le> length (al_bytes a)" "al_mutability a = Mut"
    and "ERR_ON_PARTIAL_PTR_OVERWRITE P \<longrightarrow> cut_off cx r a = {}"
  shows "\<exists>m rel. get_bytes_mut P cx r a =
      Some (Ok (take (ar_size r) (drop (ar_start r) (al_bytes a))), a\<lparr>al_init_mask := m, relocations := rel\<rparr>) \<and>
    get_bytes_mut_ptr P cx r a = Some (Ok (ar_start r, ar_size r), a\<lparr>al_init_mask := m, relocations := rel\<rparr>) \<and>
    alloc_ok cx (a\<lparr>al_init_mask := m, relocations := rel\<rparr>) \<and>
    inited m = alloc_inited a \<union> {ar_start r..<ar_start r + ar_size r} - cut_off cx r a \<and>
    smap_map rel = rel_map a |` {k. \<not> overlaps cx r k}"
proof -
  have "length (al_bytes a) < 2 ^ 63" using assms(1) by (simp add: alloc_ok_def alloc_shape_def)
  then have "alloc_range_end r = Some (ar_start r + ar_size r)" using assms(2) by (simp add: alloc_range_end_def size_add_def)
  moreover obtain m0 m rel where "alloc_mark_init r True a = Some (a\<lparr>al_init_mask := m0\<rparr>)"
    "clear_relocations P cx r (a\<lparr>al_init_mask := m0\<rparr>) = Some (Ok (), a\<lparr>al_init_mask := m, relocations := rel\<rparr>)"
    "alloc_ok cx (a\<lparr>al_init_mask := m, relocations := rel\<rparr>)"
    "inited m = upd True (alloc_inited a) {ar_start r..<ar_start r + ar_size r} - cut_off cx r a"
    "smap_map rel = rel_map a |` {k. \<not> overlaps cx r k}"
    using mark_and_clear [OF assms, where b = True] by blast
  ultimately show ?thesis using assms(2)
    by (intro exI [of _ m] exI [of _ rel]) (simp add: get_bytes_mut_def get_bytes_mut_ptr_def upd_def)
qed

lemma write_uninit_ok:
  assumes "alloc_ok cx a" "ar_start r + ar_size r \<le> length (al_bytes a)" "al_mutability a = Mut"
    and "ERR_ON_PARTIAL_PTR_OVERWRITE P \<longrightarrow> cut_off cx r a = {}"
  shows "\<exists>m rel. write_uninit P cx r a = Some (Ok (), a\<lparr>al_init_mask := m, relocations := rel\<rparr>) \<and>
    alloc_ok cx (a\<lparr>al_init_mask := m, relocations := rel\<rparr>) \<and>
    inited m = alloc_inited a - {ar_start r..<ar_start r + ar_size r} - cut_off cx r a \<and>
    smap_map rel = rel_map a |` {k. \<not> overlaps cx r k}"
proof -
  obtain m0 m rel where "alloc_mark_init r False a = Some (a\<lparr>al_init_mask := m0\<rparr>)"
    "clear_relocations P cx r (a\<lparr>al_init_mask := m0\<rparr>) = Some (Ok (), a\<lparr>al_init_mask := m, relocations := rel\<rparr>)"
    "alloc_ok cx (a\<lparr>al_init_mask := m, relocations := rel\<rparr>)"
    "inited m = upd False (alloc_inited a) {ar_start r..<ar_start r + ar_size r} - cut_off cx r a"
    "smap_map rel = rel_map a |` {k. \<not> overlaps cx r k}"
    using mark_and_clear [OF assms, where b = False] by blast
  then show ?thesis by (intro exI [of _ m] exI [of _ rel]) (simp add: write_uninit_def upd_def)
qed

text \<open>The scalars of a size, and what they put into memory: the bits, and the provenance of a pointer.\<close>

fun scalar_ok :: "data_layout \<Rightarrow> nat \<Rightarrow> 'tag scalar \<Rightarrow> bool" where
  "scalar_ok cx n (Int' si) \<longleftrightarrow> scalar_int_ok n si"
| "scalar_ok cx n (Ptr p sz) \<longleftrightarrow> n = pointer_size cx \<and> sz = pointer_size cx \<and> ptr_offset p < 2 ^ 64 \<and> ptr_offset p < 2 ^ (8 * pointer_size cx)"

fun scalar_bits :: "'tag scalar \<Rightarrow> u128" where
  "scalar_bits (Int' si) = si_data si"
| "scalar_bits (Ptr p sz) = of_nat (ptr_offset p)"

fun scalar_provenance :: "'tag scalar \<Rightarrow> 'tag option" where
  "scalar_provenance (Int' si) = None"
| "scalar_provenance (Ptr p sz) = Some (provenance p)"

lemma unat_ptr_offset: "n < 2 ^ 64 \<Longrightarrow> unat (of_nat n :: u128) = n"
  by (simp add: unat_of_nat take_bit_nat_eq_self)

lemma scalar_bits_fit:
  assumes "scalar_ok cx n s" "pointer_size cx \<le> 8"
  shows "take_bit (8 * n) (scalar_bits s) = scalar_bits s"
proof (cases s)
  case (Int' si)
  then show ?thesis using assms by (simp add: scalar_int_ok_def)
next
  case (Ptr p sz)
  with assms have p: "ptr_offset p < 2 ^ 64" "ptr_offset p < 2 ^ (8 * n)" by simp_all
  then have "take_bit (8 * n) (ptr_offset p) = ptr_offset p" by (simp add: take_bit_nat_eq_self)
  then have "bit (ptr_offset p) i \<Longrightarrow> i < 8 * n" for i by (metis bit_take_bit_iff)
  then have "take_bit (8 * n) (of_nat (ptr_offset p)) = (of_nat (ptr_offset p) :: u128)"
    by (intro bit_word_eqI) (auto simp: bit_take_bit_iff bit_of_nat_iff)
  then show ?thesis using Ptr by simp
qed

text \<open>The allocation after a write.\<close>

lemma put_bytes_bytes:
  assumes "i + length bs \<le> length (al_bytes a)"
  shows "length (al_bytes (put_bytes i bs a)) = length (al_bytes a)"
    and "take (length bs) (drop i (al_bytes (put_bytes i bs a))) = bs"
    and "j < length (al_bytes a) \<Longrightarrow> j \<notin> {i..<i + length bs} \<Longrightarrow> al_bytes (put_bytes i bs a) ! j = al_bytes a ! j"
    and "j \<in> {i..<i + length bs} \<Longrightarrow> al_bytes (put_bytes i bs a) ! j = bs ! (j - i)"
  using assms by (auto simp: put_bytes_def nth_append)

lemma scalar_ok_to_bits:
  assumes "scalar_ok cx n s" "0 < pointer_size cx"
  shows "0 < n" "to_bits_or_ptr_internal s n =
    Some (Ok (case s of Int' si \<Rightarrow> Ok (si_data si) | Ptr p sz \<Rightarrow> Err p))"
  using assms by (cases s; simp add: to_bits_or_ptr_internal_def to_bits_ok scalar_int_ok_def)+

lemma alloc_shape_add_pointer:
  assumes a: "alloc_shape cx a" and "smap_inv rel" and dom: "dom (smap_map rel) = insert s (dom (rel_map a))"
    and s: "s + pointer_size cx \<le> length (al_bytes a)"
    and away: "\<forall>k \<in> dom (rel_map a). k + pointer_size cx \<le> s \<or> s + pointer_size cx \<le> k"
  shows "alloc_shape cx (a\<lparr>relocations := rel\<rparr>)"
proof -
  have "k + pointer_size cx \<le> k'" if k: "k \<in> insert s (dom (rel_map a))" "k' \<in> insert s (dom (rel_map a))" "k < k'" for k k'
  proof (cases "k = s")
    case True
    then have "k' \<in> dom (rel_map a)" using k(2,3) by blast
    then have "k' + pointer_size cx \<le> s \<or> s + pointer_size cx \<le> k'" using away by blast
    then show ?thesis using True k(3) by linarith
  next
    case False
    then have "k' = s \<Longrightarrow> k + pointer_size cx \<le> s \<or> s + pointer_size cx \<le> k" using k(1) away by blast
    then show ?thesis using False k alloc_shapeD(8) [OF a, of k k'] by fastforce
  qed
  moreover have "k + pointer_size cx \<le> length (al_bytes a)" if "k \<in> insert s (dom (rel_map a))" for k
    using that s alloc_shapeD(7) [OF a] by blast
  ultimately show ?thesis using a assms(2) unfolding alloc_shape_def by (simp add: dom)
qed

lemma alloc_ok_add_pointer:
  assumes a: "alloc_ok cx a" and rel: "smap_inv rel" and dom: "dom (smap_map rel) = insert s (dom (rel_map a))"
    and s: "s + pointer_size cx \<le> length (al_bytes a)" "{s..<s + pointer_size cx} \<subseteq> alloc_inited a"
    and away: "\<forall>k \<in> dom (rel_map a). k + pointer_size cx \<le> s \<or> s + pointer_size cx \<le> k"
  shows "alloc_ok cx (a\<lparr>relocations := rel\<rparr>)"
proof -
  have "alloc_shape cx a" using a by (simp add: alloc_ok_def)
  from alloc_shape_add_pointer [OF this rel dom s(1) away] show ?thesis using a s(2) by (simp add: alloc_ok_def dom)
qed

lemma write_scalar_ok:
  fixes a :: "('tag, 'extra) allocation"
  assumes a: "alloc_ok cx a" "ar_start r + ar_size r \<le> length (al_bytes a)" "al_mutability a = Mut"
    and P: "ERR_ON_PARTIAL_PTR_OVERWRITE P \<longrightarrow> cut_off cx r a = {}" and s: "scalar_ok cx (ar_size r) s"
  shows "\<exists>a'. write_scalar P cx r (Scalar s) a = Some (Ok (), a') \<and> alloc_ok cx a' \<and>
    al_bytes a' = al_bytes (put_bytes (ar_start r) (enc_bytes (dl_endian cx) (ar_size r) (scalar_bits s)) a) \<and>
    alloc_inited a' = alloc_inited a \<union> {ar_start r..<ar_start r + ar_size r} - cut_off cx r a \<and>
    rel_map a' = (rel_map a |` {k. \<not> overlaps cx r k})(ar_start r := scalar_provenance s) \<and>
    al_align a' = al_align a \<and> al_mutability a' = Mut \<and> al_extra a' = al_extra a"
proof -
  have sh: "alloc_shape cx a" using a(1) by (simp add: alloc_ok_def)
  note D = alloc_shapeD [OF sh]
  let ?s = "ar_start r" and ?n = "ar_size r" and ?bs = "enc_bytes (dl_endian cx) (ar_size r) (scalar_bits s)"
  have n: "0 < ?n" "?n \<le> 16" using s D(1,2) by (cases s; simp add: scalar_int_ok_def)+
  have len: "length ?bs = ?n" using n by simp
  obtain m rel where g: "get_bytes_mut P cx r a = Some (Ok (take ?n (drop ?s (al_bytes a))), a\<lparr>al_init_mask := m, relocations := rel\<rparr>)"
    "alloc_ok cx (a\<lparr>al_init_mask := m, relocations := rel\<rparr>)" "inited m = alloc_inited a \<union> {?s..<?s + ?n} - cut_off cx r a"
    "smap_map rel = rel_map a |` {k. \<not> overlaps cx r k}"
    using get_bytes_mut_ok [OF a P] by blast
  let ?a1 = "a\<lparr>al_init_mask := m, relocations := rel\<rparr>"
  have w: "write_target_uint (dl_endian cx) (take ?n (drop ?s (al_bytes a))) d = Some (enc_bytes (dl_endian cx) ?n d)" for d
    using write_target_uint_eq [of "take ?n (drop ?s (al_bytes a))"] n a(2) by simp
  let ?a2 = "put_bytes ?s ?bs ?a1"
  have bytes: "al_bytes ?a2 = al_bytes (put_bytes ?s ?bs a)" by (simp add: put_bytes_def)
  have "length (al_bytes ?a2) = length (al_bytes a)" using put_bytes_bytes(1) [of ?s ?bs a] len a(2) bytes by simp
  then have ok2: "alloc_ok cx ?a2" using g(2) by (simp add: alloc_ok_def alloc_shape_def put_bytes_def)
  have start: "overlaps cx r ?s" using n D(1) by (simp add: overlaps_def)
  show ?thesis
  proof (cases s)
    case (Int' si)
    have "smap_map rel ?s = None" using g(4) start by (simp add: restrict_map_def)
    then have "rel_map ?a2 = (rel_map a |` {k. \<not> overlaps cx r k})(?s := None)" using g(4) start by (simp add: put_bytes_def fun_upd_idem)
    moreover have "write_scalar P cx r (Scalar s) a = Some (Ok (), ?a2)"
      using g(1) w scalar_ok_to_bits(2) [OF s D(1)] a(3) Int' by (simp add: write_scalar_def)
    ultimately show ?thesis using ok2 bytes g(3) a(3) Int' by (intro exI [of _ ?a2]) (simp add: put_bytes_def)
  next
    case (Ptr p sz)
    have "smap_inv rel" using g(2) by (simp add: alloc_ok_def alloc_shape_def)
    then obtain rel' where rel': "smap_insert rel ?s (provenance p) = Some (smap_map rel ?s, rel')" "smap_inv rel'"
      "smap_map rel' = (smap_map rel)(?s \<mapsto> provenance p)" using smap_insert_ok [of rel ?s "provenance p"] by blast
    let ?a3 = "?a2\<lparr>relocations := rel'\<rparr>"
    have sz: "?n = pointer_size cx" using s Ptr by simp
    have dom: "dom (smap_map rel') = insert ?s (dom (smap_map rel))" using rel'(3) by simp
    have away: "k + pointer_size cx \<le> ?s \<or> ?s + pointer_size cx \<le> k" if "k \<in> dom (smap_map rel)" for k
    proof -
      have "\<not> overlaps cx r k" using that unfolding g(4) dom_restrict by simp
      then show ?thesis using sz by (auto simp: overlaps_def)
    qed
    have fields: "relocations ?a2 = rel" "al_init_mask ?a2 = m" by (simp_all add: put_bytes_def)
    have "?s + pointer_size cx \<le> length (al_bytes ?a2)" using a(2) sz \<open>length (al_bytes ?a2) = length (al_bytes a)\<close> by simp
    moreover have "{?s..<?s + pointer_size cx} \<subseteq> inited m" using g(3) sz by (auto simp: cut_off_def)
    ultimately have "alloc_ok cx ?a3" using away by (intro alloc_ok_add_pointer [OF ok2 rel'(2), of ?s]) (simp_all add: fields dom)
    moreover have "write_scalar P cx r (Scalar s) a = Some (Ok (), ?a3)"
      using g(1) w scalar_ok_to_bits(2) [OF s D(1)] a(3) Ptr rel'(1) by (simp add: write_scalar_def put_bytes_def)
    ultimately show ?thesis using bytes g(3,4) a(3) Ptr rel'(3) by (intro exI [of _ ?a3]) (simp add: put_bytes_def)
  qed
qed


section \<open>Reading\<close>

definition dec_bytes :: "endian \<Rightarrow> u8 list \<Rightarrow> u128" where
  "dec_bytes en bs = from_le_bytes ((case en of Little \<Rightarrow> bs | Big \<Rightarrow> rev bs) @ replicate (16 - length bs) 0)"

lemma read_dec_bytes: "length bs \<le> 16 \<Longrightarrow> read_target_uint en bs = Some (dec_bytes en bs)"
  by (simp add: read_target_uint_eq dec_bytes_def)

lemma dec_enc_bytes: "n \<le> 16 \<Longrightarrow> dec_bytes en (enc_bytes en n d) = take_bit (8 * n) d"
  using read_enc_bytes [of n en d] read_dec_bytes [of "enc_bytes en n d" en] by simp

lemma dec_bytes_fit: "take_bit (8 * length bs) (dec_bytes en bs) = dec_bytes en bs"
proof (rule bit_word_eqI)
  fix i assume "i < LENGTH(128)"
  let ?bs = "case en of Little \<Rightarrow> bs | Big \<Rightarrow> rev bs"
  have len: "length ?bs = length bs" by (simp split: endian.split)
  show "bit (take_bit (8 * length bs) (dec_bytes en bs)) i \<longleftrightarrow> bit (dec_bytes en bs) i"
  proof (cases "i div 8 < length bs")
    case True
    then have "i < 8 * length bs" by linarith
    then show ?thesis by (simp add: bit_take_bit_iff)
  next
    case False
    then have "\<not> bit ((?bs @ replicate (16 - length bs) 0) ! (i div 8)) (i mod 8)"
      if "i div 8 < length (?bs @ replicate (16 - length bs) 0)" using len that by (simp add: nth_append)
    then have "\<not> bit (dec_bytes en bs) i" unfolding dec_bytes_def bit_from_le_bytes by blast
    then show ?thesis by (simp add: bit_take_bit_iff)
  qed
qed

lemma dec_bytes_bound: "length bs \<le> 8 \<Longrightarrow> unat (dec_bytes en bs) < 2 ^ 64"
proof -
  assume "length bs \<le> 8"
  have "unat (dec_bytes en bs) = take_bit (8 * length bs) (unat (dec_bytes en bs))"
    using dec_bytes_fit [of bs en] by (metis unsigned_take_bit_eq)
  also have "\<dots> < 2 ^ (8 * length bs)" by (rule take_bit_nat_less_exp)
  also have "\<dots> \<le> 2 ^ 64" using \<open>length bs \<le> 8\<close> by (intro power_increasing) simp_all
  finally show ?thesis .
qed

text \<open>What a read of a range of an allocation returns.\<close>

definition read_spec ::
    "provenance_consts \<Rightarrow> data_layout \<Rightarrow> alloc_range \<Rightarrow> bool \<Rightarrow> ('tag, 'extra) allocation \<Rightarrow> ('tag scalar_maybe_uninit, alloc_error) result" where
  "read_spec P cx r rp a =
     (let v = dec_bytes (dl_endian cx) (take (ar_size r) (drop (ar_start r) (al_bytes a)))
      in if \<not> {ar_start r..<ar_start r + ar_size r} \<subseteq> alloc_inited a then Ok Uninit'
         else case (if rp then rel_map a (ar_start r) else None) of
             Some t \<Rightarrow> Ok (Scalar (Ptr \<lparr>ptr_offset = unat v, provenance = t\<rparr> (pointer_size cx)))
           | None \<Rightarrow>
               if \<not> rp \<and> OFFSET_IS_ADDR P \<or> (\<forall>k \<in> dom (rel_map a). \<not> overlaps cx r k)
               then Ok (Scalar (Int' \<lparr>si_data = v, si_size = ar_size r\<rparr>))
               else Err ReadPointerAsBytes)"

lemma read_scalar_eq:
  fixes a :: "('tag, 'extra) allocation"
  assumes a: "alloc_shape cx a" and r: "ar_start r + ar_size r \<le> length (al_bytes a)" "0 < ar_size r" "ar_size r \<le> 16"
    and rp: "rp \<longrightarrow> ar_size r = pointer_size cx"
  shows "read_scalar P cx r rp a = Some (read_spec P cx r rp a)"
proof -
  note D = alloc_shapeD [OF a]
  let ?bs = "take (ar_size r) (drop (ar_start r) (al_bytes a))" and ?e = "ar_start r + ar_size r"
  let ?v = "dec_bytes (dl_endian cx) ?bs"
  have lt: "?e < 2 ^ 64" using r(1) D(3) by simp
  then have e: "alloc_range_end r = Some ?e" by (simp add: alloc_range_end_def size_add_def)
  have "?e \<le> mask_len (al_init_mask a)" using r(1) D(5) by simp
  note inside = is_range_initialized_inside [OF D(4) this, of "ar_start r"] check_init_inside [OF D(4) this lt]
  have len: "length ?bs = ar_size r" using r(1) by simp
  have gb: "get_bytes_even_more_internal r a = Some ?bs" using e r(1) by (simp add: get_bytes_even_more_internal_def)
  have rd: "read_target_uint (dl_endian cx) ?bs = Some ?v" using read_dec_bytes len r(3) by simp
  have int: "from_uint ?v (ar_size r) = Some (Int' \<lparr>si_data = ?v, si_size = ar_size r\<rparr> :: 'tag scalar)"
    using from_uint_take_bit [OF r(2,3), of ?v] dec_bytes_fit [of ?bs "dl_endian cx"] len by simp
  show ?thesis
  proof (cases "{ar_start r..<?e} \<subseteq> alloc_inited a")
    case False
    then obtain x where "is_range_initialized (al_init_mask a) (ar_start r) ?e = Some (Err x)" using inside(1) by auto
    then show ?thesis using False rp e by (simp add: read_scalar_def read_spec_def alloc_is_init_def)
  next
    case True
    then have ini: "alloc_is_init (al_init_mask a) r = Some (Ok ())" "check_init (al_init_mask a) r = Some (Ok ())"
      using inside e by (simp_all add: alloc_is_init_def)
    have get: "get_bytes cx r a = Some (if \<forall>k \<in> dom (rel_map a). \<not> overlaps cx r k then Ok ?bs else Err ReadPointerAsBytes)"
      using ini(2) check_relocations_eq [OF D(6) D(1) lt] gb
      by (simp add: get_bytes_def get_bytes_internal_def try_do_def)
    show ?thesis
    proof (cases "if rp then rel_map a (ar_start r) else None")
      case (Some t)
      then have rp: "rp" "rel_map a (ar_start r) = Some t" by (simp_all split: if_splits)
      then have "unat ?v < 2 ^ 64" using dec_bytes_bound [of ?bs "dl_endian cx"] len D(2) assms(5) by simp
      then show ?thesis using True rp ini(1) gb rd D(2) assms(5) smap_get_ok [OF D(6)]
        by (simp add: read_scalar_def read_spec_def from_pointer_def Let_def)
    next
      case None
      then have "(if rp then smap_get (relocations a) (ar_start r) else Some None) = Some None"
        using smap_get_ok [OF D(6), of "ar_start r"] by (simp split: if_splits)
      then show ?thesis using True None ini(1) gb rd int get rp
        by (cases rp) (simp_all add: read_scalar_def read_spec_def Let_def try_do_def)
    qed
  qed
qed


section \<open>When writes succeed\<close>

lemma mark_frozen: "0 < ar_size r \<Longrightarrow> al_mutability a \<noteq> Mut \<Longrightarrow> alloc_mark_init r b a = None"
  by (simp add: alloc_mark_init_def mark_init_def)

lemma mark_and_clear_err:
  assumes a: "alloc_ok cx a" "ar_start r + ar_size r \<le> length (al_bytes a)" "al_mutability a = Mut"
    and P: "ERR_ON_PARTIAL_PTR_OVERWRITE P" "cut_off cx r a \<noteq> {}"
  shows "\<exists>m. \<exists>k \<in> dom (rel_map a). alloc_mark_init r b a = Some (a\<lparr>al_init_mask := m\<rparr>) \<and>
    clear_relocations P cx r (a\<lparr>al_init_mask := m\<rparr>) = Some (Err (PartialPointerOverwrite k), a\<lparr>al_init_mask := m\<rparr>) \<and>
    overlaps cx r k \<and> \<not> {k..<k + pointer_size cx} \<subseteq> {ar_start r..<ar_start r + ar_size r} \<and>
    inited m = upd b (alloc_inited a) {ar_start r..<ar_start r + ar_size r}"
proof -
  have sh: "alloc_shape cx a" using a(1) by (simp add: alloc_ok_def)
  obtain m where m: "alloc_mark_init r b a = Some (a\<lparr>al_init_mask := m\<rparr>)" "mask_ok m" "mask_len m = mask_len (al_init_mask a)"
    "inited m = upd b (alloc_inited a) {ar_start r..<ar_start r + ar_size r}" using alloc_mark_init_ok [OF sh a(2,3)] by blast
  let ?a = "a\<lparr>al_init_mask := m\<rparr>"
  have sh0: "alloc_shape cx ?a" using sh m(2,3) by (simp add: alloc_shape_def)
  have cut: "cut_off cx r ?a = cut_off cx r a" by (rule cut_off_cong) simp
  have "ar_start r + ar_size r \<le> length (al_bytes ?a)" using a(2) by simp
  from clear_relocations_err [OF sh0 this P(1)] P(2) cut obtain k where
    "k \<in> dom (rel_map a)" "clear_relocations P cx r ?a = Some (Err (PartialPointerOverwrite k), ?a)" "overlaps cx r k"
    "\<not> {k..<k + pointer_size cx} \<subseteq> {ar_start r..<ar_start r + ar_size r}" by auto
  then show ?thesis using m(1,4) by (intro exI [of _ m] bexI [of _ k]) simp_all
qed

definition writable :: "provenance_consts \<Rightarrow> data_layout \<Rightarrow> alloc_range \<Rightarrow> ('tag, 'extra) allocation \<Rightarrow> bool" where
  "writable P cx r a \<longleftrightarrow> al_mutability a = Mut \<and> (ERR_ON_PARTIAL_PTR_OVERWRITE P \<longrightarrow> cut_off cx r a = {})"

lemma ok_writable:
  assumes a: "alloc_ok cx a" "ar_start r + ar_size r \<le> length (al_bytes a)" "0 < ar_size r"
  shows "get_bytes_mut P cx r a = Some (Ok bs, a') \<Longrightarrow> writable P cx r a"
    and "get_bytes_mut_ptr P cx r a = Some (Ok p, a') \<Longrightarrow> writable P cx r a"
    and "write_uninit P cx r a = Some (Ok u, a') \<Longrightarrow> writable P cx r a"
proof -
  have "\<not> writable P cx r a \<Longrightarrow>
      alloc_mark_init r b a = None \<or>
      (\<exists>m k. alloc_mark_init r b a = Some (a\<lparr>al_init_mask := m\<rparr>) \<and>
        clear_relocations P cx r (a\<lparr>al_init_mask := m\<rparr>) = Some (Err (PartialPointerOverwrite k), a\<lparr>al_init_mask := m\<rparr>))" for b
    using mark_frozen [OF a(3)] mark_and_clear_err [OF a(1,2), of P b] unfolding writable_def by blast
  note fails = this [of True] this [of False]
  show "get_bytes_mut P cx r a = Some (Ok bs, a') \<Longrightarrow> writable P cx r a"
    "get_bytes_mut_ptr P cx r a = Some (Ok p, a') \<Longrightarrow> writable P cx r a"
    "write_uninit P cx r a = Some (Ok u, a') \<Longrightarrow> writable P cx r a"
    by (rule ccontr, use fails in \<open>auto simp: get_bytes_mut_def get_bytes_mut_ptr_def write_uninit_def\<close>)+
qed

lemma write_scalar_err:
  assumes a: "alloc_ok cx a" "ar_start r + ar_size r \<le> length (al_bytes a)" "al_mutability a = Mut"
    and P: "ERR_ON_PARTIAL_PTR_OVERWRITE P" "cut_off cx r a \<noteq> {}" and s: "scalar_ok cx (ar_size r) s"
  shows "\<exists>m. \<exists>k \<in> dom (rel_map a). write_scalar P cx r (Scalar s) a = Some (Err (PartialPointerOverwrite k), a\<lparr>al_init_mask := m\<rparr>) \<and>
    overlaps cx r k \<and> \<not> {k..<k + pointer_size cx} \<subseteq> {ar_start r..<ar_start r + ar_size r} \<and>
    inited m = alloc_inited a \<union> {ar_start r..<ar_start r + ar_size r}"
proof -
  have "0 < pointer_size cx" using a(1) by (simp add: alloc_ok_def alloc_shape_def)
  note tb = scalar_ok_to_bits [OF s this]
  obtain m k where "k \<in> dom (rel_map a)" "alloc_mark_init r True a = Some (a\<lparr>al_init_mask := m\<rparr>)"
    "clear_relocations P cx r (a\<lparr>al_init_mask := m\<rparr>) = Some (Err (PartialPointerOverwrite k), a\<lparr>al_init_mask := m\<rparr>)"
    "overlaps cx r k" "\<not> {k..<k + pointer_size cx} \<subseteq> {ar_start r..<ar_start r + ar_size r}"
    "inited m = upd True (alloc_inited a) {ar_start r..<ar_start r + ar_size r}" using mark_and_clear_err [OF a P, of True] by blast
  then show ?thesis using tb(2) a(3)
    by (intro exI [of _ m] bexI [of _ k]) (auto simp: write_scalar_def get_bytes_mut_def upd_def split: scalar.splits)
qed


lemma write_scalar_Ok_writable:
  assumes a: "alloc_ok cx a" "ar_start r + ar_size r \<le> length (al_bytes a)" and s: "scalar_ok cx (ar_size r) s"
    and w: "write_scalar P cx r (Scalar s) a = Some (Ok (), a')"
  shows "writable P cx r a"
proof (rule ccontr)
  assume "\<not> writable P cx r a"
  moreover have "al_mutability a = Mut" using w by (auto simp: write_scalar_def split: if_splits)
  ultimately show False using write_scalar_err [OF a(1,2) _ _ _ s] w unfolding writable_def by fastforce
qed

lemma scalar_ok_size:
  assumes "alloc_ok cx a" "scalar_ok cx n s"
  shows "0 < n" "n \<le> 16"
  using assms by (cases s; simp add: scalar_int_ok_def alloc_ok_def alloc_shape_def)+

lemma write_scalar_keeps:
  assumes "alloc_ok cx a" "ar_start r + ar_size r \<le> length (al_bytes a)" "writable P cx r a" "scalar_ok cx (ar_size r) s"
  shows "\<exists>a'. write_scalar P cx r (Scalar s) a = Some (Ok (), a') \<and> alloc_ok cx a' \<and> length (al_bytes a') = length (al_bytes a)"
proof -
  have n: "ar_size r \<le> 16" by (rule scalar_ok_size [OF assms(1,4)])
  from write_scalar_ok [OF assms(1,2) _ _ assms(4), of P] assms(3) obtain a' where
    "write_scalar P cx r (Scalar s) a = Some (Ok (), a')" "alloc_ok cx a'"
    "al_bytes a' = al_bytes (put_bytes (ar_start r) (enc_bytes (dl_endian cx) (ar_size r) (scalar_bits s)) a)" unfolding writable_def by blast
  moreover have "ar_start r + length (enc_bytes (dl_endian cx) (ar_size r) (scalar_bits s)) \<le> length (al_bytes a)" using assms(2) n by simp
  ultimately show ?thesis using put_bytes_bytes(1) by fastforce
qed


section \<open>Reads after a write\<close>

lemma read_back:
  fixes a :: "('tag, 'extra) allocation"
  assumes a: "alloc_ok cx a" "ar_start r + ar_size r \<le> length (al_bytes a)" "writable P cx r a" and s: "scalar_ok cx (ar_size r) s"
    and w: "write_scalar P cx r (Scalar s) a = Some (Ok (), a')"
  shows "ar_size r = pointer_size cx \<Longrightarrow> read_spec P cx r True a' = Ok (Scalar s)"
    and "read_spec P cx r False a' = (case s of
        Int' si \<Rightarrow> Ok (Scalar s)
      | Ptr p sz \<Rightarrow> if OFFSET_IS_ADDR P then Ok (Scalar (Int' \<lparr>si_data = of_nat (ptr_offset p), si_size = ar_size r\<rparr>))
          else Err ReadPointerAsBytes)"
proof -
  have ps: "0 < pointer_size cx" "pointer_size cx \<le> 8" using a(1) by (simp_all add: alloc_ok_def alloc_shape_def)
  have n: "0 < ar_size r" "ar_size r \<le> 16" using s ps by (cases s; simp add: scalar_int_ok_def)+
  let ?bs = "enc_bytes (dl_endian cx) (ar_size r) (scalar_bits s)"
  obtain w': "al_bytes a' = al_bytes (put_bytes (ar_start r) ?bs a)"
    "alloc_inited a' = alloc_inited a \<union> {ar_start r..<ar_start r + ar_size r} - cut_off cx r a"
    "rel_map a' = (rel_map a |` {k. \<not> overlaps cx r k})(ar_start r := scalar_provenance s)"
    using write_scalar_ok [OF a(1,2) _ _ s, of P] a(3) w unfolding writable_def by auto
  have "ar_start r + length ?bs \<le> length (al_bytes a)" using a(2) n by simp
  from put_bytes_bytes(2) [OF this] have bs: "take (ar_size r) (drop (ar_start r) (al_bytes a')) = ?bs" using w'(1) n by simp
  have v: "dec_bytes (dl_endian cx) ?bs = scalar_bits s" using dec_enc_bytes [OF n(2)] scalar_bits_fit [OF s ps(2)] by simp
  have ini: "{ar_start r..<ar_start r + ar_size r} \<subseteq> alloc_inited a'" unfolding w'(2) by (auto simp: cut_off_def)
  have ov: "overlaps cx r (ar_start r)" using n ps by (simp add: overlaps_def)
  have int: "\<forall>k \<in> dom (rel_map a'). \<not> overlaps cx r k" if "scalar_provenance s = None" using that unfolding w'(3) by auto
  have ptr: "ar_start r \<in> dom (rel_map a')" if "s = Ptr p sz" for p sz using that unfolding w'(3) by simp
  show "read_spec P cx r True a' = Ok (Scalar s)" if "ar_size r = pointer_size cx"
  proof (cases s)
    case (Int' si)
    then have "rel_map a' (ar_start r) = None" unfolding w'(3) by simp
    then show ?thesis using Int' bs v ini int s by (simp add: read_spec_def scalar_int_ok_def)
  next
    case (Ptr p sz)
    then have "rel_map a' (ar_start r) = Some (provenance p)" unfolding w'(3) by simp
    then show ?thesis using Ptr bs v ini s by (simp add: read_spec_def unat_ptr_offset)
  qed
  show "read_spec P cx r False a' = (case s of
        Int' si \<Rightarrow> Ok (Scalar s)
      | Ptr p sz \<Rightarrow> if OFFSET_IS_ADDR P then Ok (Scalar (Int' \<lparr>si_data = of_nat (ptr_offset p), si_size = ar_size r\<rparr>))
          else Err ReadPointerAsBytes)"
  proof (cases s)
    case (Int' si)
    then show ?thesis using bs v ini int s by (simp add: read_spec_def scalar_int_ok_def)
  next
    case (Ptr p sz)
    then have "\<not> (\<forall>k \<in> dom (rel_map a'). \<not> overlaps cx r k)" using ptr ov by blast
    then show ?thesis using Ptr bs v ini by (simp add: read_spec_def) blast
  qed
qed

lemma read_spec_cong:
  assumes "\<And>i. i \<in> {ar_start r..<ar_start r + ar_size r} \<Longrightarrow> al_bytes a' ! i = al_bytes a ! i \<and> (i \<in> alloc_inited a' \<longleftrightarrow> i \<in> alloc_inited a)"
    and "\<And>k. overlaps cx r k \<Longrightarrow> rel_map a' k = rel_map a k" and "overlaps cx r (ar_start r)"
    and len: "length (al_bytes a') = length (al_bytes a)" "ar_start r + ar_size r \<le> length (al_bytes a)"
  shows "read_spec P cx r rp a' = read_spec P cx r rp a"
proof -
  have "take (ar_size r) (drop (ar_start r) (al_bytes a')) = take (ar_size r) (drop (ar_start r) (al_bytes a))"
    using assms(1) len by (intro nth_equalityI) auto
  moreover have "{ar_start r..<ar_start r + ar_size r} \<subseteq> alloc_inited a' \<longleftrightarrow> {ar_start r..<ar_start r + ar_size r} \<subseteq> alloc_inited a"
    using assms(1) by blast
  moreover have "(\<forall>k \<in> dom (rel_map a'). \<not> overlaps cx r k) \<longleftrightarrow> (\<forall>k \<in> dom (rel_map a). \<not> overlaps cx r k)"
    using assms(2) by (metis domIff)
  ultimately show ?thesis using assms(2) [OF assms(3)] by (simp only: read_spec_def)
qed

lemma read_elsewhere:
  fixes a :: "('tag, 'extra) allocation"
  assumes a: "alloc_ok cx a" "ar_start r + ar_size r \<le> length (al_bytes a)" "writable P cx r a" and s: "scalar_ok cx (ar_size r) s"
    and w: "write_scalar P cx r (Scalar s) a = Some (Ok (), a')"
    and r': "ar_start r' + ar_size r' \<le> length (al_bytes a)" "0 < ar_size r'"
    and away: "{ar_start r..<ar_start r + ar_size r} \<inter> {ar_start r'..<ar_start r' + ar_size r'} = {}"
      "\<forall>k \<in> dom (rel_map a). \<not> (overlaps cx r k \<and> overlaps cx r' k)"
  shows "read_spec P cx r' rp a' = read_spec P cx r' rp a"
proof -
  have ps: "0 < pointer_size cx" "pointer_size cx \<le> 8" using a(1) by (simp_all add: alloc_ok_def alloc_shape_def)
  have n: "0 < ar_size r" "ar_size r \<le> 16" using s ps by (cases s; simp add: scalar_int_ok_def)+
  let ?bs = "enc_bytes (dl_endian cx) (ar_size r) (scalar_bits s)"
  obtain w': "al_bytes a' = al_bytes (put_bytes (ar_start r) ?bs a)"
    "alloc_inited a' = alloc_inited a \<union> {ar_start r..<ar_start r + ar_size r} - cut_off cx r a"
    "rel_map a' = (rel_map a |` {k. \<not> overlaps cx r k})(ar_start r := scalar_provenance s)"
    using write_scalar_ok [OF a(1,2) _ _ s, of P] a(3) w unfolding writable_def by auto
  have "ar_start r + length ?bs \<le> length (al_bytes a)" using a(2) n by simp
  note pb = put_bytes_bytes [OF this]
  show ?thesis
  proof (rule read_spec_cong)
    fix i assume i: "i \<in> {ar_start r'..<ar_start r' + ar_size r'}"
    then have out: "i \<notin> {ar_start r..<ar_start r + ar_size r}" using away(1) by blast
    moreover have "i \<notin> cut_off cx r a"
    proof
      assume "i \<in> cut_off cx r a"
      then obtain k where k: "k \<in> dom (rel_map a)" "overlaps cx r k" "i \<in> {k..<k + pointer_size cx}" unfolding cut_off_def by blast
      then have "overlaps cx r' k" using i by (auto simp: overlaps_def)
      then show False using away(2) k(1,2) by blast
    qed
    ultimately show "al_bytes a' ! i = al_bytes a ! i \<and> (i \<in> alloc_inited a' \<longleftrightarrow> i \<in> alloc_inited a)"
      using pb(3) [of i] i r'(1) n unfolding w'(1,2) by auto
  next
    fix k assume k: "overlaps cx r' k"
    show "rel_map a' k = rel_map a k"
    proof (cases "k = ar_start r")
      case True
      have ov: "overlaps cx r k" using True n ps by (simp add: overlaps_def)
      then have "rel_map a k = None" using away(2) k by blast
      moreover have "scalar_provenance s = None"
      proof (cases s)
        case (Ptr p sz)
        then have "ar_size r = pointer_size cx" using s by simp
        then have "max k (ar_start r') \<in> {ar_start r..<ar_start r + ar_size r} \<inter> {ar_start r'..<ar_start r' + ar_size r'}"
          using True k r'(2) ps by (auto simp: overlaps_def)
        then show ?thesis using away(1) by blast
      qed simp
      ultimately show ?thesis using True unfolding w'(3) by simp
    next
      case False
      then show ?thesis using away(2) k unfolding w'(3) by (cases "rel_map a k") (auto simp: restrict_map_def)
    qed
  next
    show "overlaps cx r' (ar_start r')" using r'(2) ps by (simp add: overlaps_def)
    show "length (al_bytes a') = length (al_bytes a)" using pb(1) w'(1) by simp
  qed (rule r'(1))
qed


section \<open>Properties\<close>

lemma from_bytes_ok:
  assumes "0 < pointer_size cx" "pointer_size cx \<le> 8" "length bs < 2 ^ 63"
  shows "\<exists>a. from_bytes bs align mut = Some a \<and> alloc_ok cx a \<and> al_bytes a = bs \<and> al_mutability a = mut \<and>
    alloc_inited a = {..<length bs} \<and> rel_map a = Map.empty"
proof -
  obtain m where "mask_new (length bs) True = Some m" "mask_ok m" "mask_len m = length bs" "inited m = {..<length bs}"
    using mask_new_inited [of "length bs" True] assms(3) by auto
  then show ?thesis using assms by (simp add: from_bytes_def alloc_ok_def alloc_shape_def smap_new_def smap_inv_def smap_map_def)
qed

lemma uninit_ok:
  assumes "0 < pointer_size cx" "pointer_size cx \<le> 8" "n < 2 ^ 63" "mem n"
  shows "\<exists>a. uninit mem n align b = Some (Ok a) \<and> alloc_ok cx a \<and> al_bytes a = replicate n 0 \<and> al_mutability a = Mut \<and>
    alloc_inited a = {} \<and> rel_map a = Map.empty"
proof -
  obtain m where "mask_new n False = Some m" "mask_ok m" "mask_len m = n" "inited m = {}"
    using mask_new_inited [of n False] assms(3) by auto
  then show ?thesis using assms by (simp add: uninit_def alloc_ok_def alloc_shape_def smap_new_def smap_inv_def smap_map_def)
qed

lemma fresh_writable: "al_mutability a = Mut \<Longrightarrow> rel_map a = Map.empty \<Longrightarrow> writable P cx r a"
  by (simp add: writable_def cut_off_def)

text \<open>C4: A scalar that is written to an allocation is read back. The write of a scalar of the size of the range
  succeeds where the allocation is mutable and no pointer is overwritten in part (or the machine permits that), and keeps the
  invariant of the allocation. A read with provenance returns the scalar itself, a pointer with its provenance; a read
  without provenance returns an integer, for a pointer its offset where that is the address, and an error otherwise.
  Both byte orders and every size up to 16 bytes are covered.\<close>

theorem scalar_write_read:
  assumes "alloc_ok cx a" "ar_start r + ar_size r \<le> length (al_bytes a)" "writable P cx r a" "scalar_ok cx (ar_size r) s"
  shows "\<exists>a'. write_scalar P cx r (Scalar s) a = Some (Ok (), a') \<and> alloc_ok cx a' \<and>
    (ar_size r = pointer_size cx \<longrightarrow> read_scalar P cx r True a' = Some (Ok (Scalar s))) \<and>
    read_scalar P cx r False a' = Some (case s of
        Int' si \<Rightarrow> Ok (Scalar s)
      | Ptr p sz \<Rightarrow> if OFFSET_IS_ADDR P then Ok (Scalar (Int' \<lparr>si_data = of_nat (ptr_offset p), si_size = ar_size r\<rparr>))
          else Err ReadPointerAsBytes)"
proof -
  obtain a' where a': "write_scalar P cx r (Scalar s) a = Some (Ok (), a')" "alloc_ok cx a'"
    "length (al_bytes a') = length (al_bytes a)" using write_scalar_keeps [OF assms] by blast
  have n: "0 < ar_size r" "ar_size r \<le> 16" by (rule scalar_ok_size [OF assms(1,4)])+
  have "alloc_shape cx a'" using a'(2) by (simp add: alloc_ok_def)
  note rd = read_scalar_eq [OF this _ n]
  note rb = read_back [OF assms a'(1)]
  have "ar_start r + ar_size r \<le> length (al_bytes a')" using assms(2) a'(3) by simp
  then show ?thesis using a'(1,2) rd rb by simp
qed

theorem scalar_write_read_witness:
  "\<exists>a a'. uninit (\<lambda>_. True) 32 1 True = Some (Ok a) \<and>
     write_scalar alloc_id_consts \<lparr>dl_endian = Big, pointer_size = 8\<rparr> \<lparr>ar_start = 4, ar_size = 8\<rparr>
       (Scalar (Ptr \<lparr>ptr_offset = 5, provenance = ''x''\<rparr> 8)) a = Some (Ok (), a') \<and>
     read_scalar alloc_id_consts \<lparr>dl_endian = Big, pointer_size = 8\<rparr> \<lparr>ar_start = 4, ar_size = 8\<rparr> True a' =
       Some (Ok (Scalar (Ptr \<lparr>ptr_offset = 5, provenance = ''x''\<rparr> 8))) \<and>
     read_scalar alloc_id_consts \<lparr>dl_endian = Big, pointer_size = 8\<rparr> \<lparr>ar_start = 4, ar_size = 8\<rparr> False a' = Some (Err ReadPointerAsBytes)"
proof -
  let ?cx = "\<lparr>dl_endian = Big, pointer_size = 8\<rparr>" and ?r = "\<lparr>ar_start = 4, ar_size = 8\<rparr>"
  obtain a :: "(string, unit) allocation" where a: "uninit (\<lambda>_. True) 32 1 True = Some (Ok a)" "alloc_ok ?cx a" "al_bytes a = replicate 32 0"
    "al_mutability a = Mut" "rel_map a = Map.empty" using uninit_ok [of ?cx 32 "\<lambda>_. True" 1 True] by auto
  show ?thesis
    using scalar_write_read [OF a(2), of ?r alloc_id_consts "Ptr \<lparr>ptr_offset = 5, provenance = ''x''\<rparr> 8"] a
      fresh_writable [OF a(4,5)] by (auto simp: alloc_id_consts_def)
qed

text \<open>C13: Writing a scalar leaves reads of other ranges alone: a read of a range that shares no byte with the written one, nor
  a pointer that overlaps both, returns after the write what it returned before.\<close>

theorem scalar_write_frame:
  fixes a a' :: "('tag, 'extra) allocation"
  assumes "alloc_ok cx a" "ar_start r + ar_size r \<le> length (al_bytes a)" "scalar_ok cx (ar_size r) s"
    and "write_scalar P cx r (Scalar s) a = Some (Ok (), a')"
    and "ar_start r' + ar_size r' \<le> length (al_bytes a)" "0 < ar_size r'" "ar_size r' \<le> 16" "rp \<longrightarrow> ar_size r' = pointer_size cx"
    and "{ar_start r..<ar_start r + ar_size r} \<inter> {ar_start r'..<ar_start r' + ar_size r'} = {}"
      "\<forall>k \<in> dom (rel_map a). \<not> (overlaps cx r k \<and> overlaps cx r' k)"
  shows "read_scalar P cx r' rp a' = read_scalar P cx r' rp a"
proof -
  have w: "writable P cx r a" by (rule write_scalar_Ok_writable [OF assms(1-4)])
  from write_scalar_keeps [OF assms(1,2) w assms(3)] assms(4)
  have a': "alloc_ok cx a'" "length (al_bytes a') = length (al_bytes a)" by auto
  have "read_scalar P cx r' rp a = Some (read_spec P cx r' rp a)" "read_scalar P cx r' rp a' = Some (read_spec P cx r' rp a')"
    using read_scalar_eq [of cx a r' rp P, OF _ _ assms(6-8)] read_scalar_eq [of cx a' r' rp P, OF _ _ assms(6-8)] assms(1,5) a'
    by (simp_all add: alloc_ok_def)
  then show ?thesis using read_elsewhere [OF assms(1,2) w assms(3-6,9,10)] by simp
qed

theorem scalar_write_frame_witness:
  "\<exists>a a'. from_bytes [1, 2, 3, 4, 5, 6, 7, 8] 1 Mut = Some (a :: (string, unit) allocation) \<and>
     write_scalar alloc_id_consts \<lparr>dl_endian = Little, pointer_size = 4\<rparr> \<lparr>ar_start = 0, ar_size = 2\<rparr>
       (Scalar (Int' \<lparr>si_data = 0x1234, si_size = 2\<rparr>)) a = Some (Ok (), a') \<and>
     read_scalar alloc_id_consts \<lparr>dl_endian = Little, pointer_size = 4\<rparr> \<lparr>ar_start = 2, ar_size = 4\<rparr> True a' =
     read_scalar alloc_id_consts \<lparr>dl_endian = Little, pointer_size = 4\<rparr> \<lparr>ar_start = 2, ar_size = 4\<rparr> True a"
proof -
  let ?cx = "\<lparr>dl_endian = Little, pointer_size = 4\<rparr>" and ?r = "\<lparr>ar_start = 0, ar_size = 2\<rparr>" and ?s = "Int' \<lparr>si_data = 0x1234, si_size = 2\<rparr>"
  obtain a :: "(string, unit) allocation" where a: "from_bytes [1, 2, 3, 4, 5, 6, 7, 8] 1 Mut = Some a" "alloc_ok ?cx a"
    "al_bytes a = [1, 2, 3, 4, 5, 6, 7, 8]" "al_mutability a = Mut" "rel_map a = Map.empty"
    using from_bytes_ok [of ?cx "[1, 2, 3, 4, 5, 6, 7, 8]" 1 Mut] by auto
  have s: "scalar_ok ?cx (ar_size ?r) ?s" by (simp add: scalar_int_ok_def take_bit_eq_mod)
  have r: "ar_start ?r + ar_size ?r \<le> length (al_bytes a)" using a(3) by simp
  obtain a' where w: "write_scalar alloc_id_consts ?cx ?r (Scalar ?s) a = Some (Ok (), a')"
    using write_scalar_keeps [OF a(2) r fresh_writable [OF a(4,5)] s] by blast
  show ?thesis using scalar_write_frame [OF a(2) r s w, of "\<lparr>ar_start = 2, ar_size = 4\<rparr>" True] a w by auto
qed

text \<open>The size a scalar says it has.\<close>

fun scalar_size :: "'tag scalar \<Rightarrow> nat" where
  "scalar_size (Int' si) = si_size si"
| "scalar_size (Ptr p sz) = sz"

lemma wrong_size:
  "0 < n \<Longrightarrow> scalar_size s \<noteq> n \<Longrightarrow> to_bits_or_ptr_internal s n = Some (Err \<lparr>target_size = n, data_size = scalar_size s\<rparr>)"
  by (cases s) (auto simp: to_bits_or_ptr_internal_def to_bits_def)

text \<open>C21: The errors of a write to a nonempty range: a scalar whose size is not that of the range is reported, with both
  sizes, and nothing changes; writing to an immutable allocation panics; and where a pointer would be overwritten in part
  and the machine forbids it, the offset of such a pointer is reported, the bytes and pointers being unchanged, though the
  range is marked as initialised already.\<close>

theorem scalar_write_errors:
  assumes "alloc_ok cx a" "ar_start r + ar_size r \<le> length (al_bytes a)" "0 < ar_size r"
  shows "(al_mutability a = Mut \<and> scalar_size s \<noteq> ar_size r \<longrightarrow> write_scalar P cx r (Scalar s) a =
      Some (Err (ScalarSizeMismatch \<lparr>target_size = ar_size r, data_size = scalar_size s\<rparr>), a)) \<and>
    (al_mutability a \<noteq> Mut \<longrightarrow> write_scalar P cx r v a = None) \<and>
    (scalar_ok cx (ar_size r) s \<and> al_mutability a = Mut \<and> \<not> writable P cx r a \<longrightarrow>
      (\<exists>m. \<exists>k \<in> dom (rel_map a). write_scalar P cx r (Scalar s) a = Some (Err (PartialPointerOverwrite k), a\<lparr>al_init_mask := m\<rparr>) \<and>
        overlaps cx r k \<and> \<not> {k..<k + pointer_size cx} \<subseteq> {ar_start r..<ar_start r + ar_size r} \<and>
        inited m = alloc_inited a \<union> {ar_start r..<ar_start r + ar_size r}))"
proof (intro conjI impI)
  assume "scalar_ok cx (ar_size r) s \<and> al_mutability a = Mut \<and> \<not> writable P cx r a"
  then show "\<exists>m. \<exists>k \<in> dom (rel_map a). write_scalar P cx r (Scalar s) a = Some (Err (PartialPointerOverwrite k), a\<lparr>al_init_mask := m\<rparr>) \<and>
        overlaps cx r k \<and> \<not> {k..<k + pointer_size cx} \<subseteq> {ar_start r..<ar_start r + ar_size r} \<and>
        inited m = alloc_inited a \<union> {ar_start r..<ar_start r + ar_size r}"
    using write_scalar_err [OF assms(1,2), of P s] by (simp add: writable_def)
qed (use wrong_size [OF assms(3), of s] in \<open>simp_all add: write_scalar_def\<close>)

theorem scalar_write_errors_witness:
  "\<exists>a. from_bytes [1, 2, 3, 4] 1 Mut = Some (a :: (string, unit) allocation) \<and>
     write_scalar alloc_id_consts \<lparr>dl_endian = Little, pointer_size = 4\<rparr> \<lparr>ar_start = 0, ar_size = 2\<rparr>
       (Scalar (Ptr \<lparr>ptr_offset = 5, provenance = ''x''\<rparr> 4)) a =
     Some (Err (ScalarSizeMismatch \<lparr>target_size = 2, data_size = 4\<rparr>), a)"
proof -
  let ?cx = "\<lparr>dl_endian = Little, pointer_size = 4\<rparr>" and ?r = "\<lparr>ar_start = 0, ar_size = 2\<rparr>" and ?s = "Ptr \<lparr>ptr_offset = 5, provenance = ''x''\<rparr> 4"
  obtain a :: "(string, unit) allocation" where a: "from_bytes [1, 2, 3, 4] 1 Mut = Some a" "alloc_ok ?cx a"
    "al_bytes a = [1, 2, 3, 4]" "al_mutability a = Mut" using from_bytes_ok [of ?cx "[1, 2, 3, 4]" 1 Mut] by auto
  then show ?thesis using scalar_write_errors [OF a(2), of ?r ?s alloc_id_consts Uninit'] by auto
qed

end
