(* ===== verification/Allocation_Copy.thy ===== *)
theory Allocation_Copy
  imports Allocation
begin

text \<open>
  Copying a part of an allocation, any number of times, to another or the same: the relocations
  (\<open>compiler/rustc_middle/src/mir/interpret/allocation.rs\<close>) and \<open>mem_copy_repeatedly\<close>
  (\<open>compiler/rustc_const_eval/src/interpret/memory.rs\<close>), which puts the run-length encoded mask, the bytes and the
  relocations together.
\<close>

section \<open>Copying relocations\<close>

definition prepare_relocation_copy ::
    "data_layout \<Rightarrow> alloc_range \<Rightarrow> nat \<Rightarrow> nat \<Rightarrow> ('tag, 'extra) allocation \<Rightarrow> (nat \<times> 'tag) list option" where
  "prepare_relocation_copy cx src dest count' a = do {
     rs \<leftarrow> get_relocations cx src a;
     if rs = [] then Some []
     else do {
       let size' = ar_size src;
       xss \<leftarrow> those (map (\<lambda>i. those (map (\<lambda>(offset, reloc). do {
           k \<leftarrow> size_mul size' i;
           dest_offset \<leftarrow> size_add dest k;
           x \<leftarrow> size_add offset dest_offset;
           x \<leftarrow> checked_sub x (ar_start src);
           Some (x, reloc)
         }) rs)) [0..<count']);
       Some (concat xss)
     }
   }"

definition mark_relocation_range :: "(nat \<times> 'tag) list \<Rightarrow> ('tag, 'extra) allocation \<Rightarrow> ('tag, 'extra) allocation option" where
  "mark_relocation_range rels a = do {
     rel \<leftarrow> insert_presorted (relocations a) rels;
     Some (a\<lparr>relocations := rel\<rparr>)
   }"


section \<open>Copying memory\<close>

text \<open>The errors of the interpreter that an access to an allocation raises; \<open>Machine\<close> is an error of a hook of the machine.\<close>

datatype ('id, 'm) interp_error =
    UB_ScalarSizeMismatch scalar_size_mismatch
  | Unsupported_ReadPointerAsBytes
  | Unsupported_PartialPointerOverwrite "'id pointer"
  | UB_InvalidUninitBytes "('id \<times> uninit_bytes_access) option"
  | UB_Ub string
  | Machine 'm

fun to_interp_error :: "alloc_error \<Rightarrow> 'id \<Rightarrow> ('id, 'm) interp_error" where
  "to_interp_error (ScalarSizeMismatch s) alloc_id = UB_ScalarSizeMismatch s"
| "to_interp_error ReadPointerAsBytes alloc_id = Unsupported_ReadPointerAsBytes"
| "to_interp_error (PartialPointerOverwrite offset) alloc_id =
     Unsupported_PartialPointerOverwrite \<lparr>ptr_offset = offset, provenance = alloc_id\<rparr>"
| "to_interp_error (InvalidUninitBytes info) alloc_id = UB_InvalidUninitBytes (map_option (\<lambda>b. (alloc_id, b)) info)"

text \<open>The hooks of the machine that the copy calls, on the extra data of the allocation.\<close>

record ('extra, 'id, 'm) machine =
  memory_read :: "'extra \<Rightarrow> 'id \<Rightarrow> alloc_range \<Rightarrow> (unit, ('id, 'm) interp_error) result"
  memory_written :: "'extra \<Rightarrow> 'id \<Rightarrow> alloc_range \<Rightarrow> (unit, ('id, 'm) interp_error) result \<times> 'extra"

text \<open>
  The loop over the copies; \<open>src_bytes\<close> is the memory the source pointer points to at the time of the copy, which earlier
  copies may have changed if it lies in the target allocation. A copy is checked to stay in the slice of the target.
\<close>

definition copy_loop ::
    "(('tag, 'extra) allocation \<Rightarrow> u8 list) \<Rightarrow> nat \<Rightarrow> nat \<Rightarrow> nat \<Rightarrow> nat \<Rightarrow> ('tag, 'extra) allocation \<Rightarrow> ('tag, 'extra) allocation option" where
  "copy_loop src_bytes dest_begin dest_len size' num_copies dest =
     for_range 0 num_copies (\<lambda>i dest. do {
       k \<leftarrow> size_mul size' i;
       assert_that (k + size' \<le> dest_len);
       Some (put_bytes (dest_begin + k) (take size' (src_bytes dest)) dest)
     }) dest"

definition ranges_overlap :: "nat \<Rightarrow> nat \<Rightarrow> nat \<Rightarrow> bool option" where
  "ranges_overlap src_offset dest_offset size' = do {
     b \<leftarrow> (if src_offset \<le> dest_offset then do { e \<leftarrow> size_add src_offset size'; Some (e > dest_offset) } else Some False);
     if b then Some True
     else if dest_offset \<le> src_offset then do { e \<leftarrow> size_add dest_offset size'; Some (e > src_offset) }
     else Some False
   }"

text \<open>
  \<open>mem_copy_repeatedly\<close> behind the lookups of the two allocations, which are the same one if their ids are. The lookup
  of an access of size 0 finds no allocation.
\<close>

definition mem_copy_repeatedly ::
    "('extra, 'id, 'm) machine \<Rightarrow> provenance_consts \<Rightarrow> data_layout \<Rightarrow> 'id \<Rightarrow> ('tag, 'extra) allocation \<Rightarrow> nat \<Rightarrow>
     'id \<Rightarrow> ('tag, 'extra) allocation \<Rightarrow> nat \<Rightarrow> nat \<Rightarrow> nat \<Rightarrow> bool \<Rightarrow>
     ((unit, ('id, 'm) interp_error) result \<times> ('tag, 'extra) allocation) option" where
  "mem_copy_repeatedly M P cx src_alloc_id src_alloc src_offset dest_alloc_id dest_alloc dest_offset size' num_copies nonoverlapping = do {
     dest_size \<leftarrow> size_mul size' num_copies;
     let src_range = \<lparr>ar_start = src_offset, ar_size = size'\<rparr>;
     if size' = 0 then Some (Ok (), dest_alloc)
     else case memory_read M (al_extra src_alloc) src_alloc_id src_range of
       Err e \<Rightarrow> Some (Err e, dest_alloc)
     | Ok _ \<Rightarrow>
     if dest_size = 0 then Some (Ok (), dest_alloc)
     else do {
     src_bytes \<leftarrow> get_bytes_with_uninit_and_ptr cx src_range src_alloc;
     case src_bytes of
       Err e \<Rightarrow> Some (Err (to_interp_error e src_alloc_id), dest_alloc)
     | Ok src_bytes \<Rightarrow> do {
         rels \<leftarrow> prepare_relocation_copy cx src_range dest_offset num_copies src_alloc;
         compressed \<leftarrow> compress_uninit_range (al_init_mask src_alloc) src_range;
         let dest_range = \<lparr>ar_start = dest_offset, ar_size = dest_size\<rparr>;
         let (written, extra) = memory_written M (al_extra dest_alloc) dest_alloc_id dest_range;
         let dest_alloc = dest_alloc\<lparr>al_extra := extra\<rparr>;
         case written of
           Err e \<Rightarrow> Some (Err e, dest_alloc)
         | Ok _ \<Rightarrow> do {
             (res, dest_alloc) \<leftarrow> get_bytes_mut_ptr P cx dest_range dest_alloc;
             case res of
               Err e \<Rightarrow> Some (Err (to_interp_error e dest_alloc_id), dest_alloc)
             | Ok (dest_begin, dest_len) \<Rightarrow>
                 if no_bytes_init compressed then do {
                   (res, dest_alloc) \<leftarrow> write_uninit P cx dest_range dest_alloc;
                   Some (case res of Ok u \<Rightarrow> Ok u | Err e \<Rightarrow> Err (to_interp_error e dest_alloc_id), dest_alloc)
                 } else do {
                   bad \<leftarrow> (if src_alloc_id = dest_alloc_id \<and> nonoverlapping then ranges_overlap src_offset dest_offset size' else Some False);
                   if bad then Some (Err (UB_Ub ''copy_nonoverlapping called on overlapping ranges''), dest_alloc)
                   else do {
                     dest_alloc \<leftarrow> copy_loop (if src_alloc_id = dest_alloc_id then (\<lambda>dest. drop src_offset (al_bytes dest)) else (\<lambda>_. src_bytes))
                       dest_begin dest_len size' num_copies dest_alloc;
                     m \<leftarrow> mark_compressed_init_range compressed \<lparr>ar_start = dest_offset, ar_size = size'\<rparr> num_copies
                            (al_init_mask dest_alloc);
                     dest_alloc \<leftarrow> mark_relocation_range rels (dest_alloc\<lparr>al_init_mask := m\<rparr>);
                     Some (Ok (), dest_alloc)
                   }
                 }
           }
       }
     }
   }"

definition mem_copy ::
    "('extra, 'id, 'm) machine \<Rightarrow> provenance_consts \<Rightarrow> data_layout \<Rightarrow> 'id \<Rightarrow> ('tag, 'extra) allocation \<Rightarrow> nat \<Rightarrow>
     'id \<Rightarrow> ('tag, 'extra) allocation \<Rightarrow> nat \<Rightarrow> nat \<Rightarrow> bool \<Rightarrow>
     ((unit, ('id, 'm) interp_error) result \<times> ('tag, 'extra) allocation) option" where
  "mem_copy M P cx src_alloc_id src_alloc src_offset dest_alloc_id dest_alloc dest_offset size' nonoverlapping =
     mem_copy_repeatedly M P cx src_alloc_id src_alloc src_offset dest_alloc_id dest_alloc dest_offset size' 1 nonoverlapping"


section \<open>The copy\<close>

text \<open>No pointer crosses the ends of a range.\<close>

definition edges_free :: "data_layout \<Rightarrow> alloc_range \<Rightarrow> ('tag, 'extra) allocation \<Rightarrow> bool" where
  "edges_free cx r a \<longleftrightarrow> (\<forall>k \<in> dom (rel_map a). overlaps cx r k \<longrightarrow> ar_start r \<le> k \<and> k + pointer_size cx \<le> ar_start r + ar_size r)"

lemma check_relocation_edges_eq:
  assumes a: "alloc_shape cx a" and r: "ar_start r + ar_size r \<le> length (al_bytes a)" "0 < ar_size r"
  shows "check_relocation_edges cx r a = Some (if edges_free cx r a then Ok () else Err ReadPointerAsBytes)"
proof -
  note D = alloc_shapeD [OF a]
  let ?s = "ar_start r" and ?e = "ar_start r + ar_size r"
  have lt: "?e < 2 ^ 64" using r(1) D(3) by simp
  have at: "check_relocations cx \<lparr>ar_start = x, ar_size = 0\<rparr> a =
      Some (if \<forall>k \<in> dom (rel_map a). \<not> (k < x \<and> x < k + pointer_size cx) then Ok () else Err ReadPointerAsBytes)" if "x \<le> ?e" for x
    using check_relocations_eq [OF D(6) D(1), of "\<lparr>ar_start = x, ar_size = 0\<rparr>"] that lt by (simp add: overlaps_def)
  have "edges_free cx r a \<longleftrightarrow> (\<forall>k \<in> dom (rel_map a). \<not> (k < ?s \<and> ?s < k + pointer_size cx)) \<and>
      (\<forall>k \<in> dom (rel_map a). \<not> (k < ?e \<and> ?e < k + pointer_size cx))"
  proof -
    have "(overlaps cx r k \<longrightarrow> ?s \<le> k \<and> k + pointer_size cx \<le> ?e) \<longleftrightarrow>
        \<not> (k < ?s \<and> ?s < k + pointer_size cx) \<and> \<not> (k < ?e \<and> ?e < k + pointer_size cx)" for k
      unfolding overlaps_def using D(1) r(2) by auto
    then show ?thesis unfolding edges_free_def by blast
  qed
  then show ?thesis using at [of ?s] at [of ?e] lt
    by (auto simp: check_relocation_edges_def try_do_def alloc_range_end_def size_add_def)
qed

text \<open>One copy of the pointers of a range, and all of them.\<close>

definition shifted :: "nat \<Rightarrow> nat \<Rightarrow> (nat \<times> 'tag) list \<Rightarrow> (nat \<times> 'tag) list" where
  "shifted s d rs = map (\<lambda>(k, t). (k - s + d, t)) rs"

definition all_shifted :: "nat \<Rightarrow> nat \<Rightarrow> nat \<Rightarrow> nat \<Rightarrow> (nat \<times> 'tag) list \<Rightarrow> (nat \<times> 'tag) list" where
  "all_shifted s d sz n rs = concat (map (\<lambda>i. shifted s (d + sz * i) rs) [0..<n])"

lemma prepare_relocation_copy_eq:
  assumes a: "alloc_shape cx a" and r: "ar_start r + ar_size r \<le> length (al_bytes a)" and e: "edges_free cx r a"
    and d: "d + ar_size r * n < 2 ^ 63"
  shows "prepare_relocation_copy cx r d n a =
    Some (all_shifted (ar_start r) d (ar_size r) n (filter (\<lambda>(k, _). overlaps cx r k) (smap_data (relocations a))))"
proof -
  note D = alloc_shapeD [OF a]
  let ?rs = "filter (\<lambda>(k, _). overlaps cx r k) (smap_data (relocations a))"
  have lt: "ar_start r + ar_size r < 2 ^ 64" using r D(3) by simp
  have k: "ar_start r \<le> k" "k < 2 ^ 63" if "(k, t) \<in> set ?rs" for k t
  proof -
    have "k \<in> dom (rel_map a)" "overlaps cx r k" using that by (auto simp: smap_map_def dom_map_of_conv_image_fst image_iff) force
    then show "ar_start r \<le> k" "k < 2 ^ 63" using e D(3) D(7) [of k] D(1) by (auto simp: edges_free_def)
  qed
  have one: "those (map (\<lambda>(offset, reloc). do {
           k \<leftarrow> size_mul (ar_size r) i;
           dest_offset \<leftarrow> size_add d k;
           x \<leftarrow> size_add offset dest_offset;
           x \<leftarrow> checked_sub x (ar_start r);
           Some (x, reloc)
         }) ?rs) = Some (shifted (ar_start r) (d + ar_size r * i) ?rs)" if "i < n" for i
  proof -
    have "ar_size r * i \<le> ar_size r * n" using that by simp
    then have i: "d + ar_size r * i < 2 ^ 63" using d order.strict_trans1 [OF add_left_mono [of "ar_size r * i" "ar_size r * n" d]] by blast
    then have i': "ar_size r * i < 2 ^ 64" by simp
    show ?thesis unfolding shifted_def
    proof (rule those_map_Some, clarsimp)
      fix k t assume "(k, t) \<in> set (smap_data (relocations a))" "overlaps cx r k"
      then have "ar_start r \<le> k" "k < 2 ^ 63" using k [of k t] by auto
      then show "(do {
           x \<leftarrow> size_mul (ar_size r) i; dest_offset \<leftarrow> size_add d x; x \<leftarrow> size_add k dest_offset;
           x \<leftarrow> checked_sub x (ar_start r); Some (x, t) }) = Some (k - ar_start r + (d + ar_size r * i), t)"
        using i i' by (simp add: size_mul_def size_add_def)
    qed
  qed
  have "those (map (\<lambda>i. those (map (\<lambda>(offset, reloc). do {
           k \<leftarrow> size_mul (ar_size r) i; dest_offset \<leftarrow> size_add d k; x \<leftarrow> size_add offset dest_offset;
           x \<leftarrow> checked_sub x (ar_start r); Some (x, reloc) }) ?rs)) [0..<n]) =
      Some (map (\<lambda>i. shifted (ar_start r) (d + ar_size r * i) ?rs) [0..<n])"
    by (rule those_map_Some) (use one in simp)
  moreover have "all_shifted (ar_start r) d (ar_size r) n [] = ([] :: (nat \<times> 'a) list)"
    by (simp add: all_shifted_def shifted_def)
  ultimately show ?thesis using get_relocations_eq [OF D(6) D(1) lt]
    by (simp add: prepare_relocation_copy_def all_shifted_def Let_def)
qed

lemma mem_all_shifted:
  assumes rs: "\<forall>(k, t) \<in> set rs. s \<le> k \<and> k < s + sz" and "0 < sz"
  shows "(x, t) \<in> set (all_shifted s d sz n rs) \<longleftrightarrow> d \<le> x \<and> x < d + sz * n \<and> (s + (x - d) mod sz, t) \<in> set rs"
proof
  assume "(x, t) \<in> set (all_shifted s d sz n rs)"
  then obtain i k where ik: "i < n" "(k, t) \<in> set rs" "x = k - s + (d + sz * i)" by (auto simp: all_shifted_def shifted_def)
  then have k: "s \<le> k" "k - s < sz" using rs by auto
  have "x - d = (k - s) + sz * i" using ik(3) by simp
  then have "(x - d) mod sz = k - s" using k(2) by simp
  moreover have "sz * i + sz \<le> sz * n" using ik(1) by (metis Suc_leI add.commute mult_Suc_right mult_le_mono2)
  ultimately show "d \<le> x \<and> x < d + sz * n \<and> (s + (x - d) mod sz, t) \<in> set rs" using ik k by auto
next
  assume *: "d \<le> x \<and> x < d + sz * n \<and> (s + (x - d) mod sz, t) \<in> set rs"
  then have "x - d < n * sz" by (simp add: mult.commute) linarith
  then have "(x - d) div sz < n" using assms(2) by (simp add: div_less_iff_less_mult)
  moreover have "x = (s + (x - d) mod sz) - s + (d + sz * ((x - d) div sz))" using * by simp
  ultimately show "(x, t) \<in> set (all_shifted s d sz n rs)" using * unfolding all_shifted_def shifted_def by force
qed

lemma all_shifted_sorted:
  assumes "sorted_wrt (<) (map fst rs)" and rs: "\<forall>(k, t) \<in> set rs. s \<le> k \<and> k < s + sz"
  shows "sorted_wrt (<) (map fst (all_shifted s d sz n rs))"
proof (induction n)
  case (Suc n)
  have "sorted_wrt (\<lambda>x y. fst x < fst y) rs" using assms(1) by (simp add: sorted_wrt_map)
  then have "sorted_wrt (\<lambda>x y. fst x - s < fst y - s) rs"
    by (rule sorted_wrt_mono_rel [rotated]) (use rs in \<open>auto simp: diff_less_mono\<close>)
  then have "sorted_wrt (<) (map fst (shifted s (d + sz * n) rs))" by (simp add: shifted_def sorted_wrt_map case_prod_beta)
  moreover have "fst y < d + sz * n" if y: "y \<in> set (all_shifted s d sz n rs)" for y
  proof -
    from y obtain i k where ik: "i < n" "(k, snd y) \<in> set rs" "fst y = k - s + (d + sz * i)" by (force simp: all_shifted_def shifted_def)
    then have "k - s < sz" using rs by auto
    moreover have "sz * i + sz \<le> sz * n" using ik(1) by (metis Suc_leI add.commute mult_Suc_right mult_le_mono2)
    ultimately show ?thesis using ik(3) by simp
  qed
  moreover have "d + sz * n \<le> fst y" if "y \<in> set (shifted s (d + sz * n) rs)" for y
    using that by (auto simp: shifted_def)
  moreover have "all_shifted s d sz (Suc n) rs = all_shifted s d sz n rs @ shifted s (d + sz * n) rs" by (simp add: all_shifted_def)
  ultimately show ?case using Suc.IH by (fastforce simp: sorted_wrt_append)
qed (simp add: all_shifted_def)

text \<open>The pointers in all copies of a range, as a map.\<close>

lemma all_shifted_map:
  assumes a: "alloc_shape cx a" and e: "edges_free cx r a" and sz: "0 < ar_size r"
  defines "rs \<equiv> filter (\<lambda>(k, _). overlaps cx r k) (smap_data (relocations a))"
  shows "sorted_wrt (<) (map fst (all_shifted (ar_start r) d (ar_size r) n rs))"
    and "map_of (all_shifted (ar_start r) d (ar_size r) n rs) =
      (\<lambda>x. if d \<le> x \<and> x < d + ar_size r * n then rel_map a (ar_start r + (x - d) mod ar_size r) else None)" (is "?L = ?R")
proof -
  note D = alloc_shapeD [OF a]
  let ?s = "ar_start r" and ?n = "ar_size r" and ?d = "smap_data (relocations a)"
  have dist: "sorted_wrt (<) (map fst ?d)" "distinct (map fst ?d)" using D(6) by (auto simp: smap_inv_def distinct_keys)
  have mem: "(k, t) \<in> set rs \<longleftrightarrow> overlaps cx r k \<and> rel_map a k = Some t" for k t
    using dist(2) by (auto simp: rs_def smap_map_def)
  then have rs: "\<forall>(k, t) \<in> set rs. ?s \<le> k \<and> k < ?s + ?n" using e D(1) by (force simp: edges_free_def)
  have "sorted_wrt (<) (map fst rs)" using dist(1) unfolding rs_def by (simp add: sorted_wrt_map sorted_wrt_filter)
  then show sorted: "sorted_wrt (<) (map fst (all_shifted ?s d ?n n rs))" using rs by (rule all_shifted_sorted)
  show "?L = ?R"
  proof
    fix x
    have ov: "overlaps cx r (?s + (x - d) mod ?n)" using sz D(1) by (simp add: overlaps_def)
    have "?L x = Some t \<longleftrightarrow> ?R x = Some t" for t
      using distinct_keys [OF sorted] mem_all_shifted [OF rs sz, of x t d n] mem ov by auto
    then show "?L x = ?R x" by (metis not_None_eq)
  qed
qed

text \<open>The memory a copy reads, while the target range is filled from its start.\<close>

definition stays :: "(('tag, 'extra) allocation \<Rightarrow> u8 list) \<Rightarrow> u8 list \<Rightarrow> nat \<Rightarrow> nat \<Rightarrow> nat \<Rightarrow> ('tag, 'extra) allocation \<Rightarrow> bool" where
  "stays src_bytes bs d sz n a \<longleftrightarrow> (\<forall>j < n. \<forall>t. length (al_bytes t) = length (al_bytes a) \<and>
     (\<forall>i < length (al_bytes a). i \<notin> {d..<d + j * sz} \<longrightarrow> al_bytes t ! i = al_bytes a ! i) \<longrightarrow> take sz (src_bytes t) = bs)"

lemma copy_loop_ok:
  assumes bs: "length bs = sz" "stays src_bytes bs d sz n a" and d: "d + sz * n \<le> length (al_bytes a)" "length (al_bytes a) < 2 ^ 63"
  shows "\<exists>bytes. copy_loop src_bytes d (sz * n) sz n a = Some (a\<lparr>al_bytes := bytes\<rparr>) \<and> length bytes = length (al_bytes a) \<and>
    (\<forall>i < length (al_bytes a). bytes ! i = (if d \<le> i \<and> i < d + sz * n then bs ! ((i - d) mod sz) else al_bytes a ! i))"
proof -
  let ?f = "\<lambda>i dest. do { k \<leftarrow> size_mul sz i; assert_that (k + sz \<le> sz * n); Some (put_bytes (d + k) (take sz (src_bytes dest)) dest) }"
  let ?I = "\<lambda>j t. t = a\<lparr>al_bytes := al_bytes t\<rparr> \<and> length (al_bytes t) = length (al_bytes a) \<and>
    (\<forall>i < length (al_bytes a). al_bytes t ! i = (if i \<in> {d..<d + j * sz} then bs ! ((i - d) mod sz) else al_bytes a ! i))"
  have "\<exists>t. for_range 0 n ?f a = Some t \<and> ?I n t"
  proof (rule for_range_rule)
    fix j t assume j: "j < n" and t: "?I j t"
    have k: "sz * j + sz \<le> sz * n" using j by (metis Suc_leI add.commute mult_Suc_right mult_le_mono2)
    then have "sz * j < 2 ^ 64" using d by simp
    moreover have "take sz (src_bytes t) = bs" using bs(2) [unfolded stays_def, rule_format, OF j, of t] t by simp
    ultimately have "?f j t = Some (put_bytes (d + sz * j) bs t)" using k by (simp add: size_mul_def)
    moreover have "?I (Suc j) (put_bytes (d + sz * j) bs t)"
    proof (intro conjI allI impI)
      have in_b: "d + sz * j + length bs \<le> length (al_bytes t)" using k d(1) t bs(1) by simp
      note pb = put_bytes_bytes [OF in_b]
      show "length (al_bytes (put_bytes (d + sz * j) bs t)) = length (al_bytes a)" using pb(1) t by simp
      show "put_bytes (d + sz * j) bs t = a\<lparr>al_bytes := al_bytes (put_bytes (d + sz * j) bs t)\<rparr>"
        using t by (metis (no_types, lifting) allocation.surjective allocation.update_convs(1) put_bytes_def allocation.select_convs(1))
      fix i assume i: "i < length (al_bytes a)"
      show "al_bytes (put_bytes (d + sz * j) bs t) ! i = (if i \<in> {d..<d + Suc j * sz} then bs ! ((i - d) mod sz) else al_bytes a ! i)"
      proof (cases "i \<in> {d + j * sz..<d + j * sz + sz}")
        case True
        have "al_bytes (put_bytes (d + sz * j) bs t) ! i = bs ! (i - (d + j * sz))"
          using pb(4) [of i] True bs(1) by (simp add: mult.commute)
        then show ?thesis using offset_block [OF True] True by auto
      next
        case False
        then have "al_bytes (put_bytes (d + sz * j) bs t) ! i = al_bytes t ! i" using pb(3) [of i] i t bs(1) by (simp add: mult.commute)
        moreover have "i \<in> {d..<d + Suc j * sz} \<longleftrightarrow> i \<in> {d..<d + j * sz}" using False by auto
        ultimately show ?thesis using t i by simp
      qed
    qed
    ultimately show "\<exists>t'. ?f j t = Some t' \<and> ?I (Suc j) t'" by blast
  qed simp_all
  then obtain t where "for_range 0 n ?f a = Some t" "?I n t" by blast
  then show ?thesis unfolding copy_loop_def by (intro exI [of _ "al_bytes t"]) (simp add: mult.commute)
qed

text \<open>The pointers of an allocation after the copy.\<close>

definition copied_rels :: "('tag, 'extra) allocation \<Rightarrow> alloc_range \<Rightarrow> nat \<Rightarrow> nat \<Rightarrow> (nat \<rightharpoonup> 'tag) \<Rightarrow> (nat \<rightharpoonup> 'tag)" where
  "copied_rels src r d n rel =
     (\<lambda>x. if d \<le> x \<and> x < d + ar_size r * n then rel_map src (ar_start r + (x - d) mod ar_size r) else rel x)"

lemma same_block:
  fixes x y d sz p :: nat
  assumes "x \<le> y" "(x - d) mod sz + p \<le> sz" "y < x + p" "d \<le> x"
  shows "(y - d) mod sz = (x - d) mod sz + (y - x)"
proof -
  have "y - d = (x - d) div sz * sz + ((x - d) mod sz + (y - x))" using assms(1,4) by simp
  then have "(y - d) mod sz = ((x - d) mod sz + (y - x)) mod sz" by (metis mod_mult_self3)
  also have "\<dots> = (x - d) mod sz + (y - x)" using assms by (intro mod_less) linarith
  finally show ?thesis .
qed

lemma copied_pointer:
  assumes src: "alloc_shape cx src" "edges_free cx r src" and sz: "0 < ar_size r"
    and x: "d \<le> x" "x < d + ar_size r * n" "ar_start r + (x - d) mod ar_size r \<in> dom (rel_map src)"
  shows "(x - d) mod ar_size r + pointer_size cx \<le> ar_size r" "x + pointer_size cx \<le> d + ar_size r * n"
proof -
  let ?k = "ar_start r + (x - d) mod ar_size r"
  have "overlaps cx r ?k" using sz alloc_shapeD(1) [OF src(1)] by (simp add: overlaps_def)
  then show fit: "(x - d) mod ar_size r + pointer_size cx \<le> ar_size r" using src(2) x(3) by (auto simp: edges_free_def)
  have "x - d < n * ar_size r" using x(1,2) by (simp add: mult.commute)
  then have "(x - d) div ar_size r < n" using sz by (simp add: div_less_iff_less_mult)
  then have "(x - d) div ar_size r * ar_size r + ar_size r \<le> ar_size r * n" by (metis Suc_leI mult.commute mult_Suc mult_le_mono1 add.commute)
  then show "x + pointer_size cx \<le> d + ar_size r * n"
    using fit x(1) div_mult_mod_eq [of "x - d" "ar_size r"] by linarith
qed

lemma copied_pointer_inited:
  assumes src: "alloc_ok cx src" "edges_free cx r src" and sz: "0 < ar_size r"
    and x: "d \<le> x" "x < d + ar_size r * n" "ar_start r + (x - d) mod ar_size r \<in> dom (rel_map src)"
    and y: "y \<in> {x..<x + pointer_size cx}"
  shows "ar_start r + (y - d) mod ar_size r \<in> alloc_inited src"
proof -
  let ?k = "ar_start r + (x - d) mod ar_size r"
  have "alloc_shape cx src" using src(1) by (simp add: alloc_ok_def)
  from copied_pointer(1) [OF this src(2) sz x] have "(y - d) mod ar_size r = (x - d) mod ar_size r + (y - x)"
    using y by (intro same_block [OF _ _ _ x(1), where p = "pointer_size cx"]) simp_all
  moreover have "{?k..<?k + pointer_size cx} \<subseteq> alloc_inited src" using src(1) x(3) by (simp add: alloc_ok_def)
  moreover have "?k + (y - x) \<in> {?k..<?k + pointer_size cx}" using y by auto
  ultimately show ?thesis by (metis add.assoc subset_iff)
qed

lemma copied_pointers_apart:
  assumes src: "alloc_shape cx src" "edges_free cx r src" and sz: "0 < ar_size r"
    and x: "d \<le> x" "x < d + ar_size r * n" "ar_start r + (x - d) mod ar_size r \<in> dom (rel_map src)"
    and y: "y < d + ar_size r * n" "ar_start r + (y - d) mod ar_size r \<in> dom (rel_map src)" "x < y"
  shows "x + pointer_size cx \<le> y"
proof (rule ccontr)
  assume "\<not> x + pointer_size cx \<le> y"
  then have lt: "y < x + pointer_size cx" by simp
  then have eq: "(y - d) mod ar_size r = (x - d) mod ar_size r + (y - x)"
    using y(3) by (intro same_block [OF _ copied_pointer(1) [OF src sz x] _ x(1)]) simp_all
  have "ar_start r + (x - d) mod ar_size r < ar_start r + (y - d) mod ar_size r" unfolding eq using y(3) by simp
  from alloc_shapeD(8) [OF src(1) x(3) y(2) this] have "(x - d) mod ar_size r + pointer_size cx \<le> (y - d) mod ar_size r" by simp
  then show False unfolding eq using lt y(3) by simp
qed

text \<open>A pointer after the copy stems from the source, or from the target outside of the copies.\<close>

lemma copied_rels_cases:
  assumes free: "\<forall>k \<in> dom (rel_map dest). \<not> overlaps cx \<lparr>ar_start = d, ar_size = ar_size r * n\<rparr> k"
    and k: "k \<in> dom (copied_rels src r d n (rel_map dest))"
  obtains (copied) "d \<le> k" "k < d + ar_size r * n" "ar_start r + (k - d) mod ar_size r \<in> dom (rel_map src)"
    | (kept) "k \<in> dom (rel_map dest)" "k + pointer_size cx \<le> d \<or> d + ar_size r * n \<le> k"
proof (cases "d \<le> k \<and> k < d + ar_size r * n")
  case True
  then show ?thesis using k copied by (auto simp: copied_rels_def dom_def)
next
  case False
  then have "k \<in> dom (rel_map dest)" using k by (auto simp: copied_rels_def dom_def split: if_splits)
  moreover from this free have "\<not> overlaps cx \<lparr>ar_start = d, ar_size = ar_size r * n\<rparr> k" by blast
  ultimately show ?thesis using False by (intro kept) (auto simp: overlaps_def)
qed

lemma copied_shape:
  fixes dest :: "('tag, 'extra) allocation"
  assumes src: "alloc_shape cx src" "edges_free cx r src" and sz: "0 < ar_size r"
    and dest: "alloc_shape cx dest" "d + ar_size r * n \<le> length (al_bytes dest)"
    and free: "\<forall>k \<in> dom (rel_map dest). \<not> overlaps cx \<lparr>ar_start = d, ar_size = ar_size r * n\<rparr> k"
    and bytes: "length bytes = length (al_bytes dest)"
    and m: "mask_ok m" "mask_len m = mask_len (al_init_mask dest)"
    and rel: "smap_inv rel" "smap_map rel = copied_rels src r d n (rel_map dest)"
  shows "alloc_shape cx (dest\<lparr>al_bytes := bytes, al_init_mask := m, relocations := rel\<rparr>)"
proof -
  note D = alloc_shapeD [OF dest(1)]
  let ?R = "copied_rels src r d n (rel_map dest)"
  have one: "k + pointer_size cx \<le> length (al_bytes dest)" if "k \<in> dom ?R" for k
    using free that
  proof (cases rule: copied_rels_cases)
    case copied
    then show ?thesis using copied_pointer(2) [OF src sz copied] dest(2) by linarith
  qed (rule D(7))
  have two: "k + pointer_size cx \<le> k'" if k: "k \<in> dom ?R" "k' \<in> dom ?R" "k < k'" for k k'
    using free k(1)
  proof (cases rule: copied_rels_cases)
    case copied
    note c = copied
    show ?thesis using free k(2)
    proof (cases rule: copied_rels_cases)
      case copied
      then show ?thesis using copied_pointers_apart [OF src sz c] k(3) by blast
    next
      case kept
      then show ?thesis using copied_pointer(2) [OF src sz c] c(1) k(3) by linarith
    qed
  next
    case kept
    note c = kept
    show ?thesis using free k(2)
    proof (cases rule: copied_rels_cases)
      case copied
      then show ?thesis using c k(3) by linarith
    next
      case kept
      then show ?thesis using D(8) c k(3) by blast
    qed
  qed
  show ?thesis using D m bytes rel(1) one two unfolding alloc_shape_def by (simp add: rel(2))
qed

lemma copied_alloc_ok:
  fixes dest :: "('tag, 'extra) allocation"
  assumes src: "alloc_ok cx src" "edges_free cx r src" and sz: "0 < ar_size r"
    and dest: "alloc_ok cx dest" "d + ar_size r * n \<le> length (al_bytes dest)"
    and free: "\<forall>k \<in> dom (rel_map dest). \<not> overlaps cx \<lparr>ar_start = d, ar_size = ar_size r * n\<rparr> k"
    and bytes: "length bytes = length (al_bytes dest)"
    and m: "mask_ok m" "mask_len m = mask_len (al_init_mask dest)"
      "\<forall>i. i \<in> inited m \<longleftrightarrow> (if i \<in> {d..<d + ar_size r * n} then ar_start r + (i - d) mod ar_size r \<in> alloc_inited src else i \<in> alloc_inited dest)"
    and rel: "smap_inv rel" "smap_map rel = copied_rels src r d n (rel_map dest)"
  shows "alloc_ok cx (dest\<lparr>al_bytes := bytes, al_init_mask := m, relocations := rel\<rparr>)"
proof -
  have sh: "alloc_shape cx src" "alloc_shape cx dest" using src(1) dest(1) by (simp_all add: alloc_ok_def)
  have "i \<in> inited m" if k: "k \<in> dom (copied_rels src r d n (rel_map dest))" and i: "i \<in> {k..<k + pointer_size cx}" for k i
    using free k
  proof (cases rule: copied_rels_cases)
    case copied
    then have "i \<in> {d..<d + ar_size r * n}" using copied_pointer(2) [OF sh(1) src(2) sz copied] i by auto
    then show ?thesis using copied_pointer_inited [OF src sz copied i] m(3) by simp
  next
    case kept
    then have "i \<in> alloc_inited dest" using dest(1) i unfolding alloc_ok_def by blast
    moreover have "i \<notin> {d..<d + ar_size r * n}" using kept(2) i by auto
    ultimately show ?thesis using m(3) by metis
  qed
  then have "\<forall>k \<in> dom (copied_rels src r d n (rel_map dest)). {k..<k + pointer_size cx} \<subseteq> inited m" by blast
  then show ?thesis using copied_shape [OF sh(1) src(2) sz sh(2) dest(2) free bytes m(1,2) rel] by (simp add: alloc_ok_def rel(2))
qed

text \<open>What the copy makes of the target: the bytes where they are initialised, which bytes are, and the pointers.\<close>

definition copied ::
    "data_layout \<Rightarrow> ('tag, 'extra) allocation \<Rightarrow> alloc_range \<Rightarrow> nat \<Rightarrow> nat \<Rightarrow> ('tag, 'extra) allocation \<Rightarrow> ('tag, 'extra) allocation \<Rightarrow> bool" where
  "copied cx src r d n dest dest' \<longleftrightarrow>
     (let T = \<lparr>ar_start = d, ar_size = ar_size r * n\<rparr>; from_src = (\<lambda>i. ar_start r + (i - d) mod ar_size r)
      in length (al_bytes dest') = length (al_bytes dest) \<and>
         (\<forall>i \<in> {d..<d + ar_size r * n}. (i \<in> alloc_inited dest' \<longleftrightarrow> from_src i \<in> alloc_inited src) \<and>
            (i \<in> alloc_inited dest' \<longrightarrow> al_bytes dest' ! i = al_bytes src ! from_src i)) \<and>
         (\<forall>i \<in> {..<length (al_bytes dest)} - {d..<d + ar_size r * n}.
            al_bytes dest' ! i = al_bytes dest ! i \<and> (i \<in> alloc_inited dest' \<longleftrightarrow> i \<in> alloc_inited dest - cut_off cx T dest)) \<and>
         rel_map dest' = copied_rels src r d n (rel_map dest |` {k. \<not> overlaps cx T k}))"

lemma get_bytes_with_uninit_and_ptr_eq:
  assumes a: "alloc_shape cx a" and r: "ar_start r + ar_size r \<le> length (al_bytes a)" "0 < ar_size r"
  shows "get_bytes_with_uninit_and_ptr cx r a =
    Some (if edges_free cx r a then Ok (take (ar_size r) (drop (ar_start r) (al_bytes a))) else Err ReadPointerAsBytes)"
proof -
  have "alloc_range_end r = Some (ar_start r + ar_size r)" using r(1) alloc_shapeD(3) [OF a] by (simp add: alloc_range_end_def size_add_def)
  then show ?thesis using check_relocation_edges_eq [OF assms] r(1)
    by (simp add: get_bytes_with_uninit_and_ptr_def get_bytes_internal_def try_do_def get_bytes_even_more_internal_def)
qed

lemma cleared_range:
  assumes "rel_map a = R |` {k. \<not> overlaps cx r k}"
  shows "cut_off cx r a = {}" "\<forall>k \<in> dom (rel_map a). \<not> overlaps cx r k" "rel_map a |` {k. \<not> overlaps cx r k} = rel_map a"
  using assms by (auto simp: cut_off_def)

lemma add_copied_rels:
  assumes "\<forall>k \<in> dom rel. \<not> (d \<le> k \<and> k < d + ar_size r * n)"
  shows "rel ++ (\<lambda>x. if d \<le> x \<and> x < d + ar_size r * n then rel_map src (ar_start r + (x - d) mod ar_size r) else None) =
    copied_rels src r d n rel"
proof
  fix x
  have "d \<le> x \<and> x < d + ar_size r * n \<Longrightarrow> rel x = None" using assms by (cases "rel x") auto
  then show "(rel ++ (\<lambda>x. if d \<le> x \<and> x < d + ar_size r * n then rel_map src (ar_start r + (x - d) mod ar_size r) else None)) x =
      copied_rels src r d n rel x" by (auto simp: copied_rels_def map_add_def split: option.splits)
qed

text \<open>The mask and the pointers of the target behind the loop over the bytes.\<close>

lemma finish_parts:
  fixes dest :: "('tag, 'extra) allocation"
  assumes src: "alloc_shape cx src" "edges_free cx r src" and sz: "0 < ar_size r" "0 < n"
    and dest: "alloc_shape cx dest" "d + ar_size r * n \<le> length (al_bytes dest)"
    and free: "\<forall>k \<in> dom (rel_map dest). \<not> overlaps cx \<lparr>ar_start = d, ar_size = ar_size r * n\<rparr> k"
    and c: "encodes c (alloc_inited src) (ar_start r) (ar_size r)"
    and rels: "rels = all_shifted (ar_start r) d (ar_size r) n (filter (\<lambda>(k, _). overlaps cx r k) (smap_data (relocations src)))"
  shows "\<exists>m rel. mark_compressed_init_range c \<lparr>ar_start = d, ar_size = ar_size r\<rparr> n (al_init_mask dest) = Some m \<and>
    mask_ok m \<and> mask_len m = mask_len (al_init_mask dest) \<and>
    (\<forall>i. i \<in> inited m \<longleftrightarrow> (if i \<in> {d..<d + ar_size r * n} then ar_start r + (i - d) mod ar_size r \<in> alloc_inited src else i \<in> alloc_inited dest)) \<and>
    insert_presorted (relocations dest) rels = Some rel \<and> smap_inv rel \<and> smap_map rel = copied_rels src r d n (rel_map dest)"
proof -
  note D = alloc_shapeD [OF dest(1)]
  let ?e = "d + ar_size r * n"
  obtain m where m: "mark_compressed_init_range c \<lparr>ar_start = d, ar_size = ar_size r\<rparr> n (al_init_mask dest) = Some m" "mask_ok m"
    "mask_len m = mask_len (al_init_mask dest)"
    "\<forall>i. i \<in> inited m \<longleftrightarrow> (if i \<in> {d..<?e} then ar_start r + (i - d) mod ar_size r \<in> alloc_inited src else i \<in> alloc_inited dest)"
    using mark_compressed_inited [of c "alloc_inited src" "ar_start r" "\<lparr>ar_start = d, ar_size = ar_size r\<rparr>" "al_init_mask dest" n] c D sz dest(2)
    by auto
  note els = all_shifted_map [OF src sz(1), of d n, folded rels]
  obtain rel where rel: "insert_presorted (relocations dest) rels = Some rel" "smap_inv rel" "smap_map rel = rel_map dest ++ map_of rels"
    using insert_presorted_ok [OF D(6) els(1)] by blast
  have "\<not> (d \<le> k \<and> k < ?e)" if "k \<in> dom (rel_map dest)" for k using free that D(1) by (auto simp: overlaps_def)
  then have "smap_map rel = copied_rels src r d n (rel_map dest)" unfolding rel(3) els(2) by (intro add_copied_rels) blast
  then show ?thesis using m rel(1,2) by blast
qed

lemma finish_copy:
  fixes dest :: "('tag, 'extra) allocation"
  assumes src: "alloc_ok cx src" "edges_free cx r src" "ar_start r + ar_size r \<le> length (al_bytes src)" and sz: "0 < ar_size r" "0 < n"
    and dest: "alloc_ok cx dest" "d + ar_size r * n \<le> length (al_bytes dest)"
    and free: "\<forall>k \<in> dom (rel_map dest). \<not> overlaps cx \<lparr>ar_start = d, ar_size = ar_size r * n\<rparr> k"
    and st: "stays src_bytes (take (ar_size r) (drop (ar_start r) (al_bytes src))) d (ar_size r) n dest"
    and c: "encodes c (alloc_inited src) (ar_start r) (ar_size r)"
    and rels: "rels = all_shifted (ar_start r) d (ar_size r) n (filter (\<lambda>(k, _). overlaps cx r k) (smap_data (relocations src)))"
  shows "\<exists>bytes m rel. copy_loop src_bytes d (ar_size r * n) (ar_size r) n dest =
      Some (dest\<lparr>al_bytes := bytes\<rparr>) \<and>
    mark_compressed_init_range c \<lparr>ar_start = d, ar_size = ar_size r\<rparr> n (al_init_mask dest) = Some m \<and>
    insert_presorted (relocations dest) rels = Some rel \<and>
    alloc_ok cx (dest\<lparr>al_bytes := bytes, al_init_mask := m, relocations := rel\<rparr>) \<and>
    copied cx src r d n dest (dest\<lparr>al_bytes := bytes, al_init_mask := m, relocations := rel\<rparr>)"
proof -
  have sh: "alloc_shape cx dest" "alloc_shape cx src" using src(1) dest(1) by (simp_all add: alloc_ok_def)
  let ?bs = "take (ar_size r) (drop (ar_start r) (al_bytes src))" and ?e = "d + ar_size r * n"
  have len: "length ?bs = ar_size r" using src(3) by simp
  from copy_loop_ok [OF len st dest(2) alloc_shapeD(3) [OF sh(1)]] obtain bytes where
    b: "copy_loop src_bytes d (ar_size r * n) (ar_size r) n dest = Some (dest\<lparr>al_bytes := bytes\<rparr>)" "length bytes = length (al_bytes dest)"
    "\<forall>i < length (al_bytes dest). bytes ! i = (if d \<le> i \<and> i < ?e then ?bs ! ((i - d) mod ar_size r) else al_bytes dest ! i)" by blast
  obtain m rel where m: "mark_compressed_init_range c \<lparr>ar_start = d, ar_size = ar_size r\<rparr> n (al_init_mask dest) = Some m" "mask_ok m"
    "mask_len m = mask_len (al_init_mask dest)"
    "\<forall>i. i \<in> inited m \<longleftrightarrow> (if i \<in> {d..<?e} then ar_start r + (i - d) mod ar_size r \<in> alloc_inited src else i \<in> alloc_inited dest)"
    and rel: "insert_presorted (relocations dest) rels = Some rel" "smap_inv rel" "smap_map rel = copied_rels src r d n (rel_map dest)"
    using finish_parts [OF sh(2) src(2) sz sh(1) dest(2) free c rels] by blast
  have "cut_off cx \<lparr>ar_start = d, ar_size = ar_size r * n\<rparr> dest = {}" using free by (auto simp: cut_off_def)
  moreover have "rel_map dest |` {k. \<not> overlaps cx \<lparr>ar_start = d, ar_size = ar_size r * n\<rparr> k} = rel_map dest"
    using free by (intro restrict_map_all) blast
  moreover have "?bs ! ((i - d) mod ar_size r) = al_bytes src ! (ar_start r + (i - d) mod ar_size r)" for i
    using src(3) sz(1) by simp
  ultimately have "copied cx src r d n dest (dest\<lparr>al_bytes := bytes, al_init_mask := m, relocations := rel\<rparr>)"
    using b(2,3) m(4) rel(3) dest(2) by (simp add: copied_def) auto
  then show ?thesis using copied_alloc_ok [OF src(1,2) sz(1) dest free b(2) m(2,3,4) rel(2,3)] b(1) m(1) rel(1) by blast
qed

lemma copied_cleared:
  assumes "copied cx src r d n dest1 dest'" and T: "T = \<lparr>ar_start = d, ar_size = ar_size r * n\<rparr>"
    and "al_bytes dest1 = al_bytes dest" "alloc_inited dest1 = alloc_inited dest \<union> {d..<d + ar_size r * n} - cut_off cx T dest"
    and R: "rel_map dest1 = rel_map dest |` {k. \<not> overlaps cx T k}"
  shows "copied cx src r d n dest dest'"
proof -
  note c = cleared_range [OF R, unfolded T]
  show ?thesis using assms(1,3,4) R unfolding copied_def Let_def c(1,3) T by auto
qed

lemma ranges_overlap_eq:
  assumes "s + sz < 2 ^ 64" "d + sz < 2 ^ 64" "0 < sz"
  shows "ranges_overlap s d sz = Some ({s..<s + sz} \<inter> {d..<d + sz} \<noteq> {})"
proof -
  have "{s..<s + sz} \<inter> {d..<d + sz} = {max s d..<min (s + sz) (d + sz)}" by auto
  then show ?thesis using assms by (auto simp: ranges_overlap_def size_add_def)
qed

text \<open>The check looks at the first copy only: here the third one overwrites the source.\<close>

lemma overlap_of_later_copies:
  "ranges_overlap 4 0 2 = Some False \<and> {4..<4 + 2} \<inter> {0..<0 + 2 * 4 :: nat} = {4..<6}"
  by (auto simp: ranges_overlap_eq)

text \<open>
  A copy reads the source as it was: the allocations are different, or they are the same and the source lies apart from
  all copies, or is copied once, which may overlap.
\<close>

definition copy_apart :: "'id \<Rightarrow> ('tag, 'extra) allocation \<Rightarrow> nat \<Rightarrow> 'id \<Rightarrow> ('tag, 'extra) allocation \<Rightarrow> nat \<Rightarrow> nat \<Rightarrow> nat \<Rightarrow> bool \<Rightarrow> bool" where
  "copy_apart src_id src s dest_id dest d sz n nonoverlapping \<longleftrightarrow>
     src_id \<noteq> dest_id \<or> src = dest \<and> ({s..<s + sz} \<inter> {d..<d + sz * n} = {} \<or> n = 1 \<and> \<not> nonoverlapping)"

lemma copy_apart_stays:
  assumes "copy_apart src_id src s dest_id dest d sz n nonoverlapping" "s + sz \<le> length (al_bytes src)" "al_bytes dest1 = al_bytes dest"
  shows "stays (if src_id = dest_id then (\<lambda>t. drop s (al_bytes t)) else (\<lambda>_. take sz (drop s (al_bytes src)))) (take sz (drop s (al_bytes src))) d sz n dest1"
proof (cases "src_id = dest_id")
  case True
  then have src: "src = dest" "{s..<s + sz} \<inter> {d..<d + sz * n} = {} \<or> n = 1" using assms(1) by (auto simp: copy_apart_def)
  have "take sz (drop s (al_bytes t)) = take sz (drop s (al_bytes src))"
    if j: "j < n" and t: "length (al_bytes t) = length (al_bytes src)"
      "\<And>i. i < length (al_bytes src) \<Longrightarrow> i \<notin> {d..<d + j * sz} \<Longrightarrow> al_bytes t ! i = al_bytes src ! i" for j t
  proof (rule nth_equalityI)
    fix i assume "i < length (take sz (drop s (al_bytes t)))"
    then have i: "i < sz" by simp
    have "j * sz \<le> sz * n" using j by (simp add: mult.commute)
    then have sub: "{d..<d + j * sz} \<subseteq> {d..<d + sz * n}" by simp
    have "s + i \<in> {s..<s + sz}" using i by simp
    then have "s + i \<notin> {d..<d + j * sz}" using src(2) sub j by (elim disjE) (blast, simp)
    then show "take sz (drop s (al_bytes t)) ! i = take sz (drop s (al_bytes src)) ! i" using t i assms(2) by simp
  qed (use t(1) in simp)
  then show ?thesis unfolding stays_def src(1) assms(3) using True by simp blast
qed (simp add: stays_def)

lemma copy_apart_not_bad:
  assumes "copy_apart src_id src s dest_id dest d sz n nonoverlapping" "s + sz < 2 ^ 64" "d + sz * n < 2 ^ 64" "0 < sz" "0 < n"
  shows "(if src_id = dest_id \<and> nonoverlapping then ranges_overlap s d sz else Some False) = Some False"
proof -
  have le: "sz \<le> sz * n" using assms(5) by simp
  then have "ranges_overlap s d sz = Some ({s..<s + sz} \<inter> {d..<d + sz} \<noteq> {})" using assms(2-4) by (intro ranges_overlap_eq) linarith+
  moreover have "{d..<d + sz} \<subseteq> {d..<d + sz * n}" using le by simp
  then have "src_id = dest_id \<and> nonoverlapping \<Longrightarrow> {s..<s + sz} \<inter> {d..<d + sz} = {}" using assms(1) unfolding copy_apart_def by blast
  ultimately show ?thesis by simp
qed

lemma copy_nothing:
  fixes dest :: "('tag, 'extra) allocation"
  assumes src: "alloc_ok cx src" "{ar_start r..<ar_start r + ar_size r} \<inter> alloc_inited src = {}" and sz: "0 < ar_size r"
    and dest: "alloc_ok cx dest" "d + ar_size r * n \<le> length (al_bytes dest)" "al_mutability dest = Mut"
    and free: "\<forall>k \<in> dom (rel_map dest). \<not> overlaps cx \<lparr>ar_start = d, ar_size = ar_size r * n\<rparr> k"
  shows "\<exists>m rel. write_uninit P cx \<lparr>ar_start = d, ar_size = ar_size r * n\<rparr> dest = Some (Ok (), dest\<lparr>al_init_mask := m, relocations := rel\<rparr>) \<and>
    alloc_ok cx (dest\<lparr>al_init_mask := m, relocations := rel\<rparr>) \<and> copied cx src r d n dest (dest\<lparr>al_init_mask := m, relocations := rel\<rparr>)"
proof -
  let ?T = "\<lparr>ar_start = d, ar_size = ar_size r * n\<rparr>" and ?s = "ar_start r"
  have ps: "0 < pointer_size cx" using src(1) by (simp add: alloc_ok_def alloc_shape_def)
  have cut: "cut_off cx ?T dest = {}" using free by (auto simp: cut_off_def)
  have R: "rel_map dest |` {k. \<not> overlaps cx ?T k} = rel_map dest" using free by (intro restrict_map_all) blast
  have "ar_start ?T + ar_size ?T \<le> length (al_bytes dest)" using dest(2) by simp
  from write_uninit_ok [OF dest(1) this dest(3), of P] cut R obtain m rel where
    wu: "write_uninit P cx ?T dest = Some (Ok (), dest\<lparr>al_init_mask := m, relocations := rel\<rparr>)"
    "alloc_ok cx (dest\<lparr>al_init_mask := m, relocations := rel\<rparr>)" "inited m = alloc_inited dest - {d..<d + ar_size r * n}" "smap_map rel = rel_map dest"
    by auto
  have none: "?s + x \<notin> alloc_inited src" "rel_map src (?s + x) = None" if "x < ar_size r" for x
  proof -
    have "?s + x \<in> {?s..<?s + ar_size r}" using that by simp
    then show "?s + x \<notin> alloc_inited src" using src(2) by blast
    then show "rel_map src (?s + x) = None" using src(1) ps by (force simp: alloc_ok_def)
  qed
  have "copied_rels src r d n (rel_map dest) x = rel_map dest x" for x
  proof (cases "d \<le> x \<and> x < d + ar_size r * n")
    case True
    then have "overlaps cx ?T x" using ps by (simp add: overlaps_def)
    then have "rel_map dest x = None" using free by blast
    then show ?thesis using True none(2) [of "(x - d) mod ar_size r"] sz by (simp add: copied_rels_def)
  next
    case False
    then show ?thesis unfolding copied_rels_def by (simp only: if_False)
  qed
  then have "copied_rels src r d n (rel_map dest) = rel_map dest" by blast
  then have "copied cx src r d n dest (dest\<lparr>al_init_mask := m, relocations := rel\<rparr>)"
    using wu(3,4) none(1) cut R sz by (auto simp: copied_def Let_def)
  with wu(1,2) show ?thesis by blast
qed

lemma mem_copy_ok:
  fixes dest :: "('tag, 'extra) allocation"
  assumes src: "alloc_ok cx src" "edges_free cx \<lparr>ar_start = s, ar_size = sz\<rparr> src" "s + sz \<le> length (al_bytes src)" and sz: "0 < sz" "0 < n"
    and dest: "alloc_ok cx dest" "d + sz * n \<le> length (al_bytes dest)" "al_mutability dest = Mut"
    and P: "ERR_ON_PARTIAL_PTR_OVERWRITE P \<longrightarrow> cut_off cx \<lparr>ar_start = d, ar_size = sz * n\<rparr> dest = {}"
    and w: "memory_read M (al_extra src) src_id \<lparr>ar_start = s, ar_size = sz\<rparr> = Ok ()"
      "memory_written M (al_extra dest) dest_id \<lparr>ar_start = d, ar_size = sz * n\<rparr> = (Ok (), extra)"
    and ap: "copy_apart src_id src s dest_id dest d sz n nonoverlapping"
  shows "\<exists>dest'. mem_copy_repeatedly M P cx src_id src s dest_id dest d sz n nonoverlapping = Some (Ok (), dest') \<and> alloc_ok cx dest' \<and>
    copied cx src \<lparr>ar_start = s, ar_size = sz\<rparr> d n dest dest' \<and> al_extra dest' = extra"
proof -
  let ?r = "\<lparr>ar_start = s, ar_size = sz\<rparr>" and ?T = "\<lparr>ar_start = d, ar_size = sz * n\<rparr>" and ?dest = "dest\<lparr>al_extra := extra\<rparr>"
  have sh: "alloc_shape cx src" "alloc_shape cx dest" using src(1) dest(1) by (simp_all add: alloc_ok_def)
  note D = alloc_shapeD [OF sh(1)] and D' = alloc_shapeD [OF sh(2)]
  have in_src: "ar_start ?r + ar_size ?r \<le> length (al_bytes src)" "0 < ar_size ?r" using src(3) sz(1) by simp_all
  note gb = get_bytes_with_uninit_and_ptr_eq [OF sh(1) in_src]
  define rels where "rels = all_shifted s d sz n (filter (\<lambda>(k, _). overlaps cx ?r k) (smap_data (relocations src)))"
  have "d + ar_size ?r * n < 2 ^ 63" using dest(2) D'(3) by simp
  from prepare_relocation_copy_eq [OF sh(1) in_src(1) src(2) this]
  have pr: "prepare_relocation_copy cx ?r d n src = Some rels" by (simp add: rels_def)
  obtain c where c: "compress_uninit_range (al_init_mask src) ?r = Some c" "encodes c (alloc_inited src) s sz"
    "no_bytes_init c \<longleftrightarrow> {s..<s + sz} \<inter> alloc_inited src = {}"
    using compress_encodes [of "al_init_mask src" ?r] D src(3) sz(1) by auto
  have mul: "size_mul sz n = Some (sz * n)" using dest(2) D'(3) by (simp add: size_mul_def)
  have ok0: "alloc_ok cx ?dest" using dest(1) by (simp add: alloc_ok_def alloc_shape_def)
  have cut0: "cut_off cx ?T ?dest = cut_off cx ?T dest" by (rule cut_off_cong) simp
  obtain m rel where g: "get_bytes_mut_ptr P cx ?T ?dest = Some (Ok (d, sz * n), ?dest\<lparr>al_init_mask := m, relocations := rel\<rparr>)"
    "alloc_ok cx (?dest\<lparr>al_init_mask := m, relocations := rel\<rparr>)"
    "inited m = alloc_inited dest \<union> {d..<d + sz * n} - cut_off cx ?T dest" "smap_map rel = rel_map dest |` {k. \<not> overlaps cx ?T k}"
    using get_bytes_mut_ok [OF ok0, of ?T P] dest(2,3) P cut0 by auto
  let ?dest1 = "?dest\<lparr>al_init_mask := m, relocations := rel\<rparr>"
  have R: "rel_map ?dest1 = rel_map dest |` {k. \<not> overlaps cx ?T k}" using g(4) by simp
  note cl = cleared_range [OF R]
  let ?rd = "if src_id = dest_id then (\<lambda>t. drop s (al_bytes t)) else (\<lambda>_ :: ('tag, 'extra) allocation. take sz (drop s (al_bytes src)))"
  have bad: "(if src_id = dest_id \<and> nonoverlapping then ranges_overlap s d sz else Some False) = Some False"
    by (rule copy_apart_not_bad [OF ap]) (use src(3) dest(2) D(3) D'(3) sz in simp_all)
  have start: "mem_copy_repeatedly M P cx src_id src s dest_id dest d sz n nonoverlapping =
      (if no_bytes_init c then do {
         (res, dest_alloc) \<leftarrow> write_uninit P cx ?T ?dest1;
         Some (case res of Ok u \<Rightarrow> Ok u | Err e \<Rightarrow> Err (to_interp_error e dest_id), dest_alloc)
       } else do {
         dest_alloc \<leftarrow> copy_loop ?rd d (sz * n) sz n ?dest1;
         m \<leftarrow> mark_compressed_init_range c \<lparr>ar_start = d, ar_size = sz\<rparr> n (al_init_mask dest_alloc);
         dest_alloc \<leftarrow> mark_relocation_range rels (dest_alloc\<lparr>al_init_mask := m\<rparr>);
         Some (Ok (), dest_alloc)
       })"
    using gb src(2) pr c(1) mul w g(1) sz by (simp add: mem_copy_repeatedly_def Let_def bad del: if_split)
  show ?thesis
  proof (cases "no_bytes_init c")
    case True
    obtain m' rel' where wu: "write_uninit P cx ?T ?dest1 = Some (Ok (), ?dest1\<lparr>al_init_mask := m', relocations := rel'\<rparr>)"
      "alloc_ok cx (?dest1\<lparr>al_init_mask := m', relocations := rel'\<rparr>)"
      "copied cx src ?r d n ?dest1 (?dest1\<lparr>al_init_mask := m', relocations := rel'\<rparr>)"
      using copy_nothing [of cx src ?r ?dest1 d n P] src(1) True c(3) sz(1) g(2) dest(2,3) cl(2) by auto
    let ?dest2 = "?dest1\<lparr>al_init_mask := m', relocations := rel'\<rparr>"
    from wu(3) have "copied cx src ?r d n dest ?dest2" by (rule copied_cleared [where T = ?T]) (use g(3,4) in simp_all)
    then show ?thesis using start True wu(1,2) by auto
  next
    case False
    have len: "d + ar_size ?r * n \<le> length (al_bytes ?dest1)" using dest(2) by simp
    have free: "\<forall>k \<in> dom (rel_map ?dest1). \<not> overlaps cx \<lparr>ar_start = d, ar_size = ar_size ?r * n\<rparr> k" using cl(2) by simp
    have enc: "encodes c (alloc_inited src) (ar_start ?r) (ar_size ?r)" using c(2) by simp
    have st: "stays ?rd (take (ar_size ?r) (drop (ar_start ?r) (al_bytes src))) d (ar_size ?r) n ?dest1"
      using copy_apart_stays [OF ap src(3), of ?dest1] by simp
    have rels': "rels = all_shifted (ar_start ?r) d (ar_size ?r) n (filter (\<lambda>(k, _). overlaps cx ?r k) (smap_data (relocations src)))"
      by (simp add: rels_def)
    obtain bytes m' rel' where f: "copy_loop ?rd d (sz * n) sz n ?dest1 = Some (?dest1\<lparr>al_bytes := bytes\<rparr>)"
      "mark_compressed_init_range c \<lparr>ar_start = d, ar_size = sz\<rparr> n (al_init_mask ?dest1) = Some m'"
      "insert_presorted (relocations ?dest1) rels = Some rel'"
      "alloc_ok cx (?dest1\<lparr>al_bytes := bytes, al_init_mask := m', relocations := rel'\<rparr>)"
      "copied cx src ?r d n ?dest1 (?dest1\<lparr>al_bytes := bytes, al_init_mask := m', relocations := rel'\<rparr>)"
      using finish_copy [OF src(1,2) in_src(1) in_src(2) sz(2) g(2) len free st enc rels'] by auto
    let ?dest2 = "?dest1\<lparr>al_bytes := bytes, al_init_mask := m', relocations := rel'\<rparr>"
    have "copied cx src ?r d n dest ?dest2" using f(5) by (rule copied_cleared [where T = ?T]) (use g(3,4) in simp_all)
    moreover have "mem_copy_repeatedly M P cx src_id src s dest_id dest d sz n nonoverlapping = Some (Ok (), ?dest2)"
      using start False f(1,2,3) by (simp add: mark_relocation_range_def)
    ultimately show ?thesis using f(4) by auto
  qed
qed


section \<open>Properties\<close>

text \<open>The hooks of a machine that does nothing.\<close>

definition no_hooks :: "(unit, nat, unit) machine" where
  "no_hooks = \<lparr>memory_read = (\<lambda>_ _ _. Ok ()), memory_written = (\<lambda>e _ _. (Ok (), e))\<rparr>"

lemma no_hooks_simps [simp]: "memory_read no_hooks e i r = Ok ()" "memory_written no_hooks e i r = (Ok (), e)"
  by (simp_all add: no_hooks_def)

text \<open>C5: \<open>mem_copy_repeatedly\<close> to another allocation, or inside one where the copies lie apart from the source or a single
  copy may overlap it: where no pointer crosses the ends of the source range and the target may be written, it succeeds
  and keeps the invariant. Every byte of the copies is initialised iff the source byte it stems from is, and then has its
  value; a pointer is stored at a position of the copies iff one is stored at the source position, with the same
  provenance. Outside, bytes are as before, and of the pointers and initialised bytes only the pointers that reached into
  the target range are gone. If a pointer crosses the ends of the source range, the copy fails and the target is unchanged.\<close>

theorem mem_copy_correct:
  assumes "alloc_ok cx src" "s + sz \<le> length (al_bytes src)" "0 < sz" "0 < n"
    and "alloc_ok cx dest" "d + sz * n \<le> length (al_bytes dest)" "writable P cx \<lparr>ar_start = d, ar_size = sz * n\<rparr> dest"
    and "memory_read M (al_extra src) src_id \<lparr>ar_start = s, ar_size = sz\<rparr> = Ok ()"
      "memory_written M (al_extra dest) dest_id \<lparr>ar_start = d, ar_size = sz * n\<rparr> = (Ok (), extra)"
    and "copy_apart src_id src s dest_id dest d sz n nonoverlapping"
  shows "if edges_free cx \<lparr>ar_start = s, ar_size = sz\<rparr> src
    then \<exists>dest'. mem_copy_repeatedly M P cx src_id src s dest_id dest d sz n nonoverlapping = Some (Ok (), dest') \<and> alloc_ok cx dest' \<and>
      al_extra dest' = extra \<and> length (al_bytes dest') = length (al_bytes dest) \<and>
      (\<forall>i \<in> {d..<d + sz * n}. (i \<in> alloc_inited dest' \<longleftrightarrow> s + (i - d) mod sz \<in> alloc_inited src) \<and>
        (i \<in> alloc_inited dest' \<longrightarrow> al_bytes dest' ! i = al_bytes src ! (s + (i - d) mod sz)) \<and>
        rel_map dest' i = rel_map src (s + (i - d) mod sz)) \<and>
      (\<forall>i \<in> {..<length (al_bytes dest)} - {d..<d + sz * n}. al_bytes dest' ! i = al_bytes dest ! i \<and>
        (i \<in> alloc_inited dest' \<longleftrightarrow> i \<in> alloc_inited dest - cut_off cx \<lparr>ar_start = d, ar_size = sz * n\<rparr> dest) \<and>
        rel_map dest' i = (if overlaps cx \<lparr>ar_start = d, ar_size = sz * n\<rparr> i then None else rel_map dest i))
    else mem_copy_repeatedly M P cx src_id src s dest_id dest d sz n nonoverlapping = Some (Err Unsupported_ReadPointerAsBytes, dest)"
proof (cases "edges_free cx \<lparr>ar_start = s, ar_size = sz\<rparr> src")
  case True
  from assms(7) have "al_mutability dest = Mut" "ERR_ON_PARTIAL_PTR_OVERWRITE P \<longrightarrow> cut_off cx \<lparr>ar_start = d, ar_size = sz * n\<rparr> dest = {}"
    by (simp_all add: writable_def)
  from mem_copy_ok [OF assms(1) True assms(2,3,4,5,6) this, where M = M and extra = extra, OF assms(8-10)] obtain dest' where
    dest': "mem_copy_repeatedly M P cx src_id src s dest_id dest d sz n nonoverlapping = Some (Ok (), dest')" "alloc_ok cx dest'" "al_extra dest' = extra"
    "copied cx src \<lparr>ar_start = s, ar_size = sz\<rparr> d n dest dest'" by blast
  have "(\<forall>i \<in> {d..<d + sz * n}. (i \<in> alloc_inited dest' \<longleftrightarrow> s + (i - d) mod sz \<in> alloc_inited src) \<and>
        (i \<in> alloc_inited dest' \<longrightarrow> al_bytes dest' ! i = al_bytes src ! (s + (i - d) mod sz)) \<and>
        rel_map dest' i = rel_map src (s + (i - d) mod sz))"
    using dest'(4) by (simp add: copied_def copied_rels_def Let_def)
  moreover have "(\<forall>i \<in> {..<length (al_bytes dest)} - {d..<d + sz * n}. al_bytes dest' ! i = al_bytes dest ! i \<and>
        (i \<in> alloc_inited dest' \<longleftrightarrow> i \<in> alloc_inited dest - cut_off cx \<lparr>ar_start = d, ar_size = sz * n\<rparr> dest) \<and>
        rel_map dest' i = (if overlaps cx \<lparr>ar_start = d, ar_size = sz * n\<rparr> i then None else rel_map dest i))"
    using dest'(4) by (auto simp: copied_def copied_rels_def Let_def restrict_map_def)
  moreover have "length (al_bytes dest') = length (al_bytes dest)" using dest'(4) by (simp add: copied_def Let_def)
  ultimately show ?thesis using True dest'(1-3) by simp
next
  case False
  have "alloc_shape cx src" using assms(1) by (simp add: alloc_ok_def)
  from get_bytes_with_uninit_and_ptr_eq [OF this, of "\<lparr>ar_start = s, ar_size = sz\<rparr>"] assms(2,3) False
  moreover have "size_mul sz n = Some (sz * n)" using assms(5,6) by (simp add: size_mul_def alloc_ok_def alloc_shape_def)
  ultimately show ?thesis using False assms(3,4,8) by (simp add: mem_copy_repeatedly_def)
qed

theorem mem_copy_correct_witness:
  "\<exists>a dest'. from_bytes [1, 2, 3, 0, 0, 0, 0, 0] 1 Mut = Some (a :: (string, unit) allocation) \<and>
     mem_copy_repeatedly no_hooks alloc_id_consts \<lparr>dl_endian = Little, pointer_size = 8\<rparr> 0 a 1 0 a 3 2 2 True = Some (Ok (), dest') \<and>
     6 \<in> alloc_inited dest' \<and> al_bytes dest' ! 6 = 3"
proof -
  let ?cx = "\<lparr>dl_endian = Little, pointer_size = 8\<rparr>"
  have len: "length [1, 2, 3, 0, 0, 0, 0, 0 :: u8] = 8" by simp
  have "\<exists>a :: (string, unit) allocation. from_bytes [1, 2, 3, 0, 0, 0, 0, 0] 1 Mut = Some a \<and> alloc_ok ?cx a \<and>
      al_bytes a = [1, 2, 3, 0, 0, 0, 0, 0] \<and> al_mutability a = Mut \<and> alloc_inited a = {..<8} \<and> rel_map a = Map.empty"
    by (rule from_bytes_ok [of ?cx "[1, 2, 3, 0, 0, 0, 0, 0]" 1 Mut, unfolded len]) simp_all
  then obtain a :: "(string, unit) allocation" where a: "from_bytes [1, 2, 3, 0, 0, 0, 0, 0] 1 Mut = Some a" "alloc_ok ?cx a"
    "al_bytes a = [1, 2, 3, 0, 0, 0, 0, 0]" "al_mutability a = Mut" "alloc_inited a = {..<8}" "rel_map a = Map.empty" by blast
  have free: "edges_free ?cx \<lparr>ar_start = 1, ar_size = 2\<rparr> a" using a(6) by (simp add: edges_free_def)
  have le: "1 + 2 \<le> length (al_bytes a)" "(0::nat) < 2" "3 + 2 * 2 \<le> length (al_bytes a)" using a(3) by simp_all
  have ap: "copy_apart 0 a 1 0 a 3 2 2 True" by (simp add: copy_apart_def)
  from mem_copy_correct [OF a(2) le(1,2,2) a(2) le(3) fresh_writable [OF a(4,6)] _ _ ap, where M = no_hooks and P = alloc_id_consts and extra = "()"] free
  obtain dest' where d: "mem_copy_repeatedly no_hooks alloc_id_consts ?cx 0 a 1 0 a 3 2 2 True = Some (Ok (), dest')"
    and i: "\<forall>i \<in> {3..<3 + 2 * 2}. (i \<in> alloc_inited dest' \<longleftrightarrow> 1 + (i - 3) mod 2 \<in> alloc_inited a) \<and>
      (i \<in> alloc_inited dest' \<longrightarrow> al_bytes dest' ! i = al_bytes a ! (1 + (i - 3) mod 2))" by auto
  have "1 + (6 - 3) mod 2 = (2 :: nat)" "(6 :: nat) \<in> {3..<3 + 2 * 2}" by simp_all
  then have "(6 \<in> alloc_inited dest' \<longleftrightarrow> 2 \<in> alloc_inited a) \<and> (6 \<in> alloc_inited dest' \<longrightarrow> al_bytes dest' ! 6 = al_bytes a ! 2)"
    using bspec [OF i, of 6] by metis
  then show ?thesis using a d by auto
qed

end
