(* ===== verification/Allocation_Reach.thy ===== *)
theory Allocation_Reach
  imports Allocation_Copy
begin

text \<open>
  The allocations that the operations of \<open>Allocation\<close> and \<open>Allocation_Copy\<close> can make, failing operations, any hooks of the
  machine and overlapping copies included, and the invariant they have.
\<close>

section \<open>What every operation keeps\<close>

fun is_Ok :: "('a, 'e) result \<Rightarrow> bool" where
  "is_Ok (Ok _) = True"
| "is_Ok (Err _) = False"

text \<open>
  An operation that turns \<open>a\<close> into \<open>a'\<close> with a result keeps the shape and the length; it keeps the full invariant if it
  succeeds.
\<close>

definition keeps :: "data_layout \<Rightarrow> ('tag, 'extra) allocation \<Rightarrow> ('b, 'e) result \<Rightarrow> ('tag, 'extra) allocation \<Rightarrow> bool" where
  "keeps cx a res a' \<longleftrightarrow> alloc_shape cx a' \<and> length (al_bytes a') = length (al_bytes a) \<and> (is_Ok res \<and> alloc_ok cx a \<longrightarrow> alloc_ok cx a')"

lemma keepsI:
  "alloc_shape cx a' \<Longrightarrow> length (al_bytes a') = length (al_bytes a) \<Longrightarrow> (is_Ok res \<Longrightarrow> alloc_ok cx a \<Longrightarrow> alloc_ok cx a') \<Longrightarrow> keeps cx a res a'"
  by (simp add: keeps_def)

lemma keeps_same: "alloc_shape cx a \<Longrightarrow> keeps cx a res a"
  by (simp add: keeps_def)

lemma mark_clear_keeps:
  fixes a :: "('tag, 'extra) allocation"
  assumes a: "alloc_shape cx a" "ar_start r + ar_size r \<le> length (al_bytes a)"
    and mark: "alloc_mark_init r b a = Some a1" and clear: "clear_relocations P cx r a1 = Some (res, a2)"
  shows "keeps cx a res a2 \<and> al_bytes a2 = al_bytes a \<and>
    (is_Ok res \<longrightarrow> rel_map a2 = rel_map a |` {k. \<not> overlaps cx r k} \<and> alloc_inited a2 = upd b (alloc_inited a) {ar_start r..<ar_start r + ar_size r} - cut_off cx r a)"
proof -
  have mut: "0 < ar_size r \<longrightarrow> al_mutability a = Mut" using mark_frozen [of r a b] mark by auto
  obtain m where m: "a1 = a\<lparr>al_init_mask := m\<rparr>" "mask_ok m" "mask_len m = mask_len (al_init_mask a)"
    "inited m = upd b (alloc_inited a) {ar_start r..<ar_start r + ar_size r}"
    using alloc_mark_init_any [OF a mut, of b] mark by auto
  have sh1: "alloc_shape cx a1" using a(1) m by (simp add: alloc_shape_def)
  have e1: "ar_start r + ar_size r \<le> length (al_bytes a1)" using a(2) m(1) by simp
  have cut1: "cut_off cx r a1 = cut_off cx r a" using m(1) by (simp add: cut_off_def)
  show ?thesis
  proof (cases "ERR_ON_PARTIAL_PTR_OVERWRITE P \<and> cut_off cx r a \<noteq> {}")
    case True
    then have "a2 = a1" "\<not> is_Ok res" using clear_relocations_err [OF sh1 e1, of P] clear cut1 by auto
    then show ?thesis using sh1 m(1) by (simp add: keeps_def)
  next
    case False
    then have P: "ERR_ON_PARTIAL_PTR_OVERWRITE P \<longrightarrow> cut_off cx r a = {}" by blast
    from clear_relocations_ok [OF sh1 e1, of P] P cut1 clear m obtain m2 rel where
      c: "a2 = a\<lparr>al_init_mask := m2, relocations := rel\<rparr>" "mask_ok m2" "mask_len m2 = mask_len (al_init_mask a)" "smap_inv rel"
      "smap_map rel = rel_map a |` {k. \<not> overlaps cx r k}" "inited m2 = inited m - cut_off cx r a" by auto
    have "alloc_shape cx a2" unfolding c(1) by (rule alloc_shape_update [OF a(1) c(2-4)]) (simp add: c(5))
    moreover have "alloc_ok cx a2" if "alloc_ok cx a"
      using mark_and_clear_any [OF that a(2) mut P, of b] mark clear by auto
    ultimately show ?thesis using c m(4) by (simp add: keeps_def)
  qed
qed

lemma get_bytes_mut_keeps:
  assumes "alloc_shape cx a" "ar_start r + ar_size r \<le> length (al_bytes a)" "get_bytes_mut P cx r a = Some (res, a')"
  shows "keeps cx a res a' \<and> al_bytes a' = al_bytes a \<and> (\<forall>bs. res = Ok bs \<longrightarrow> length bs = ar_size r \<and>
    rel_map a' = rel_map a |` {k. \<not> overlaps cx r k} \<and> {ar_start r..<ar_start r + ar_size r} \<subseteq> alloc_inited a')"
proof -
  obtain a1 res1 a2 where c: "alloc_mark_init r True a = Some a1" "clear_relocations P cx r a1 = Some (res1, a2)"
    using assms(3) by (auto simp: get_bytes_mut_def bind_eq_Some_conv)
  note k = mark_clear_keeps [OF assms(1,2) c]
  have "{ar_start r..<ar_start r + ar_size r} \<subseteq> upd True (alloc_inited a) {ar_start r..<ar_start r + ar_size r} - cut_off cx r a"
    by (auto simp: upd_def cut_off_def)
  then show ?thesis using assms(3) c k
    by (cases res1) (auto simp: get_bytes_mut_def keeps_def slice_eq_Some alloc_range_end_def size_add_def bind_eq_Some_conv split: if_splits)
qed

lemma get_bytes_mut_ptr_keeps:
  assumes "alloc_shape cx a" "ar_start r + ar_size r \<le> length (al_bytes a)" "get_bytes_mut_ptr P cx r a = Some (res, a')"
  shows "keeps cx a res a' \<and> al_bytes a' = al_bytes a \<and>
    (\<forall>p. res = Ok p \<longrightarrow> p = (ar_start r, ar_size r) \<and> rel_map a' = rel_map a |` {k. \<not> overlaps cx r k})"
proof -
  obtain a1 res1 a2 where c: "alloc_mark_init r True a = Some a1" "clear_relocations P cx r a1 = Some (res1, a2)"
    using assms(3) by (auto simp: get_bytes_mut_ptr_def bind_eq_Some_conv)
  note k = mark_clear_keeps [OF assms(1,2) c]
  show ?thesis using assms(3) c k
    by (cases res1) (auto simp: get_bytes_mut_ptr_def keeps_def alloc_range_end_def size_add_def bind_eq_Some_conv split: if_splits)
qed

lemma write_uninit_keeps:
  assumes "alloc_shape cx a" "ar_start r + ar_size r \<le> length (al_bytes a)" "write_uninit P cx r a = Some (res, a')"
  shows "keeps cx a res a'"
  using assms mark_clear_keeps [OF assms(1,2)] by (auto simp: write_uninit_def bind_eq_Some_conv)

lemma put_bytes_keeps:
  assumes "keeps cx a res a'" "i + length bs \<le> length (al_bytes a)" "is_Ok res' \<Longrightarrow> is_Ok res"
  shows "keeps cx a res' (put_bytes i bs a')"
proof -
  have len: "length (al_bytes (put_bytes i bs a')) = length (al_bytes a')"
    using assms(1,2) by (intro put_bytes_bytes(1)) (simp add: keeps_def)
  have fields: "relocations (put_bytes i bs a') = relocations a'" "al_init_mask (put_bytes i bs a') = al_init_mask a'" by (simp_all add: put_bytes_def)
  have "alloc_shape cx (put_bytes i bs a') = alloc_shape cx a'" "alloc_ok cx (put_bytes i bs a') = alloc_ok cx a'"
    unfolding alloc_ok_def alloc_shape_def fields len by (rule refl)+
  then show ?thesis using assms(1,3) len by (auto simp: keeps_def)
qed

lemma write_target_uint_length: "write_target_uint en target data = Some bs \<Longrightarrow> length bs = length target"
  by (cases en) (auto simp: write_target_uint_def Let_def bind_eq_Some_conv split: if_splits)

text \<open>The size stored with a pointer is the pointer size of the target (\<open>value.rs\<close> on \<open>Scalar::Ptr\<close>).\<close>

fun pointer_sized :: "data_layout \<Rightarrow> 'tag scalar_maybe_uninit \<Rightarrow> bool" where
  "pointer_sized cx (Scalar (Ptr p sz)) \<longleftrightarrow> sz = pointer_size cx"
| "pointer_sized cx _ \<longleftrightarrow> True"

lemma write_pointer_keeps:
  fixes a :: "('tag, 'extra) allocation"
  assumes k: "keeps cx a (Ok u) a1" and r: "ar_start r + ar_size r \<le> length (al_bytes a)" "ar_size r = pointer_size cx"
    and rel1: "rel_map a1 = rel_map a |` {k. \<not> overlaps cx r k}" "{ar_start r..<ar_start r + ar_size r} \<subseteq> alloc_inited a1"
    and ins: "smap_insert (relocations a1) (ar_start r) prov = Some (old, rel)"
  shows "keeps cx a (Ok u') (a1\<lparr>relocations := rel\<rparr>)"
proof -
  have sh: "alloc_shape cx a1" and len: "length (al_bytes a1) = length (al_bytes a)" using k by (simp_all add: keeps_def)
  have rel: "smap_inv rel" "smap_map rel = (rel_map a1)(ar_start r \<mapsto> prov)"
    using smap_insert_ok [OF alloc_shapeD(6) [OF sh], of "ar_start r" prov] ins by auto
  have dom: "dom (smap_map rel) = insert (ar_start r) (dom (rel_map a1))" using rel(2) by simp
  have away: "\<forall>k \<in> dom (rel_map a1). k + pointer_size cx \<le> ar_start r \<or> ar_start r + pointer_size cx \<le> k"
    unfolding rel1(1) dom_restrict using r(2) by (auto simp: overlaps_def)
  have s: "ar_start r + pointer_size cx \<le> length (al_bytes a1)" using r len by simp
  show ?thesis
  proof (rule keepsI)
    show "alloc_shape cx (a1\<lparr>relocations := rel\<rparr>)" by (rule alloc_shape_add_pointer [OF sh rel(1) dom s away])
    show "alloc_ok cx (a1\<lparr>relocations := rel\<rparr>)" if "alloc_ok cx a"
      using alloc_ok_add_pointer [OF _ rel(1) dom s _ away] k that rel1(2) r(2) by (simp add: keeps_def)
  qed (simp add: len)
qed

lemma to_ptr_size:
  assumes "to_bits_or_ptr_internal s n = Some (Ok (Err p))"
  shows "s = Ptr p n"
proof (cases s)
  case (Int' si)
  then obtain r where "to_bits si n = Some r" "(case r of Ok d \<Rightarrow> Ok (Ok d) | Err sz \<Rightarrow> Err \<lparr>target_size = n, data_size = sz\<rparr>) = Ok (Err p)"
    using assms by (auto simp: to_bits_or_ptr_internal_def bind_eq_Some_conv split: if_splits)
  then show ?thesis by (cases r) auto
qed (use assms in \<open>auto simp: to_bits_or_ptr_internal_def split: if_splits\<close>)

lemma write_scalar_inv:
  fixes a :: "('tag, 'extra) allocation"
  assumes a: "alloc_shape cx a" "ar_start r + ar_size r \<le> length (al_bytes a)" and v: "pointer_sized cx v"
    and w: "write_scalar P cx r v a = Some (res, a')"
  shows "keeps cx a res a'"
proof (cases v)
  case Uninit'
  then show ?thesis using w write_uninit_keeps [OF a, of P res a'] by (simp add: write_scalar_def split: if_splits)
next
  case (Scalar s)
  have mut: "al_mutability a = Mut" using w by (auto simp: write_scalar_def split: if_splits)
  obtain tb where tb: "to_bits_or_ptr_internal s (ar_size r) = Some tb" using w Scalar
    by (cases "to_bits_or_ptr_internal s (ar_size r)") (auto simp: write_scalar_def split: if_splits)
  show ?thesis
  proof (cases tb)
    case (Err e)
    then show ?thesis using w Scalar tb keeps_same [OF a(1)] by (auto simp: write_scalar_def split: if_splits)
  next
    case (Ok bp)
    obtain res1 a1 where g: "get_bytes_mut P cx r a = Some (res1, a1)" using w Scalar tb Ok
      by (cases "get_bytes_mut P cx r a") (auto simp: write_scalar_def split: if_splits prod.splits)
    note k = get_bytes_mut_keeps [OF a g]
    show ?thesis
    proof (cases res1)
      case (Err e)
      then show ?thesis using w Scalar tb Ok g k by (auto simp: write_scalar_def keeps_def split: if_splits)
    next
      case Ok1: (Ok dst)
      obtain d dst' where d: "write_target_uint (dl_endian cx) dst d = Some dst'"
        "d = (case bp of Ok data \<Rightarrow> data | Err ptr \<Rightarrow> of_nat (ptr_offset ptr))"
        using w mut Scalar tb Ok g Ok1 by (cases bp) (auto simp: write_scalar_def bind_eq_Some_conv)
      then have len: "length dst' = ar_size r" using write_target_uint_length k Ok1 by auto
      let ?a2 = "put_bytes (ar_start r) dst' a1"
      have k2: "keeps cx a (Ok ()) ?a2" using k len a(2) Ok1 by (intro put_bytes_keeps [of cx a res1]) simp_all
      show ?thesis
      proof (cases bp)
        case (Ok data)
        then show ?thesis using w Scalar tb \<open>tb = Ok bp\<close> g Ok1 d k2 by (auto simp: write_scalar_def split: if_splits)
      next
        case (Err ptr)
        then have n: "ar_size r = pointer_size cx" using to_ptr_size [of s "ar_size r" ptr] tb \<open>tb = Ok bp\<close> v Scalar by auto
        obtain old rel where ins: "smap_insert (relocations ?a2) (ar_start r) (provenance ptr) = Some (old, rel)" "res = Ok ()"
          "a' = ?a2\<lparr>relocations := rel\<rparr>"
          using w mut Scalar tb \<open>tb = Ok bp\<close> g Ok1 d Err by (auto simp: write_scalar_def bind_eq_Some_conv Let_def)
        show ?thesis unfolding ins(2,3)
          by (rule write_pointer_keeps [OF k2 a(2) n _ _ ins(1)]) (use k Ok1 in \<open>simp_all add: put_bytes_def\<close>)
      qed
    qed
  qed
qed


section \<open>Copies\<close>

lemma copy_loop_any:
  assumes rd: "\<And>t. length (al_bytes t) = length (al_bytes a) \<Longrightarrow> sz \<le> length (rd t)"
    and d: "d + sz * n \<le> length (al_bytes a)" "length (al_bytes a) < 2 ^ 63"
  shows "\<exists>bytes. copy_loop rd d (sz * n) sz n a = Some (a\<lparr>al_bytes := bytes\<rparr>) \<and> length bytes = length (al_bytes a)"
proof -
  let ?f = "\<lambda>i t. do { k \<leftarrow> size_mul sz i; assert_that (k + sz \<le> sz * n); Some (put_bytes (d + k) (take sz (rd t)) t) }"
  let ?I = "\<lambda>j t. t = a\<lparr>al_bytes := al_bytes t\<rparr> \<and> length (al_bytes t) = length (al_bytes a)"
  have "\<exists>t. for_range 0 n ?f a = Some t \<and> ?I n t"
  proof (rule for_range_rule)
    fix j t assume j: "j < n" and t: "?I j t"
    have k: "sz * j + sz \<le> sz * n" using j by (metis Suc_leI add.commute mult_Suc_right mult_le_mono2)
    then have "?f j t = Some (put_bytes (d + sz * j) (take sz (rd t)) t)" using d by (simp add: size_mul_def)
    moreover have "length (al_bytes (put_bytes (d + sz * j) (take sz (rd t)) t)) = length (al_bytes a)"
      using put_bytes_bytes(1) [of "d + sz * j" "take sz (rd t)" t] rd [of t] t k d(1) by simp
    moreover have "put_bytes i bs t = a\<lparr>al_bytes := al_bytes (put_bytes i bs t)\<rparr>" for i bs
      using t by (cases t, cases a) (simp add: put_bytes_def)
    ultimately show "\<exists>t'. ?f j t = Some t' \<and> ?I (Suc j) t'" by blast
  qed simp_all
  then show ?thesis unfolding copy_loop_def by metis
qed

text \<open>The part of the copy behind the preparation of the target.\<close>

lemma finish_keeps:
  fixes dest :: "('tag, 'extra) allocation"
  assumes src: "alloc_shape cx src" "edges_free cx r src" and sz: "0 < ar_size r" "0 < n"
    and dest: "alloc_shape cx dest" "d + ar_size r * n \<le> length (al_bytes dest)"
    and free: "\<forall>k \<in> dom (rel_map dest). \<not> overlaps cx \<lparr>ar_start = d, ar_size = ar_size r * n\<rparr> k"
    and rd: "\<And>t. length (al_bytes t) = length (al_bytes dest) \<Longrightarrow> ar_size r \<le> length (rd t)"
    and c: "encodes c (alloc_inited src) (ar_start r) (ar_size r)"
    and rels: "rels = all_shifted (ar_start r) d (ar_size r) n (filter (\<lambda>(k, _). overlaps cx r k) (smap_data (relocations src)))"
  shows "\<exists>a'. do { t \<leftarrow> copy_loop rd d (ar_size r * n) (ar_size r) n dest;
      m \<leftarrow> mark_compressed_init_range c \<lparr>ar_start = d, ar_size = ar_size r\<rparr> n (al_init_mask t);
      mark_relocation_range rels (t\<lparr>al_init_mask := m\<rparr>) } = Some a' \<and>
    alloc_shape cx a' \<and> length (al_bytes a') = length (al_bytes dest) \<and> (alloc_ok cx src \<and> alloc_ok cx dest \<longrightarrow> alloc_ok cx a')"
proof -
  obtain bytes where b: "copy_loop rd d (ar_size r * n) (ar_size r) n dest = Some (dest\<lparr>al_bytes := bytes\<rparr>)" "length bytes = length (al_bytes dest)"
    using copy_loop_any [of dest "ar_size r" rd d n] rd dest(2) alloc_shapeD(3) [OF dest(1)] by blast
  obtain m rel where m: "mark_compressed_init_range c \<lparr>ar_start = d, ar_size = ar_size r\<rparr> n (al_init_mask dest) = Some m" "mask_ok m"
    "mask_len m = mask_len (al_init_mask dest)"
    "\<forall>i. i \<in> inited m \<longleftrightarrow> (if i \<in> {d..<d + ar_size r * n} then ar_start r + (i - d) mod ar_size r \<in> alloc_inited src else i \<in> alloc_inited dest)"
    and rel: "insert_presorted (relocations dest) rels = Some rel" "smap_inv rel" "smap_map rel = copied_rels src r d n (rel_map dest)"
    using finish_parts [OF src sz dest free c rels] by blast
  let ?a = "dest\<lparr>al_bytes := bytes, al_init_mask := m, relocations := rel\<rparr>"
  have "alloc_shape cx ?a" by (rule copied_shape [OF src sz(1) dest free b(2) m(2,3) rel(2,3)])
  moreover have "alloc_ok cx ?a" if "alloc_ok cx src" "alloc_ok cx dest"
    by (rule copied_alloc_ok [OF that(1) src(2) sz(1) that(2) dest(2) free b(2) m(2,3,4) rel(2,3)])
  ultimately show ?thesis using b m(1) rel(1) by (simp add: mark_relocation_range_def)
qed

lemma mem_copy_read_inv:
  fixes dest :: "('tag, 'extra) allocation"
  assumes src: "alloc_shape cx src" "s + sz \<le> length (al_bytes src)" and dest: "alloc_shape cx dest" "d + sz * n \<le> length (al_bytes dest)"
    and same: "src_id = dest_id \<longrightarrow> src = dest"
    and read: "0 < sz" "0 < n" "memory_read M (al_extra src) src_id \<lparr>ar_start = s, ar_size = sz\<rparr> = Ok u" "edges_free cx \<lparr>ar_start = s, ar_size = sz\<rparr> src"
    and c: "mem_copy_repeatedly M P cx src_id src s dest_id dest d sz n b = Some (res, a')"
  shows "alloc_shape cx a' \<and> length (al_bytes a') = length (al_bytes dest) \<and> (is_Ok res \<and> alloc_ok cx src \<and> alloc_ok cx dest \<longrightarrow> alloc_ok cx a')"
proof -
  let ?r = "\<lparr>ar_start = s, ar_size = sz\<rparr>" and ?T = "\<lparr>ar_start = d, ar_size = sz * n\<rparr>"
  note D = alloc_shapeD [OF src(1)] and D' = alloc_shapeD [OF dest(1)]
  have mul: "size_mul sz n = Some (sz * n)" using dest(2) D'(3) by (simp add: size_mul_def)
  obtain written extra where mw: "memory_written M (al_extra dest) dest_id ?T = (written, extra)" by (cases "memory_written M (al_extra dest) dest_id ?T")
  let ?dest = "dest\<lparr>al_extra := extra\<rparr>"
  have sh0: "alloc_shape cx ?dest" and ok0: "alloc_ok cx ?dest = alloc_ok cx dest" using dest(1) by (simp_all add: alloc_ok_def alloc_shape_def)
  define rels where "rels = all_shifted s d sz n (filter (\<lambda>(k, _). overlaps cx ?r k) (smap_data (relocations src)))"
  have pr: "prepare_relocation_copy cx ?r d n src = Some rels"
    using prepare_relocation_copy_eq [OF src(1), of ?r d n] src(2) read(4) dest(2) D'(3) by (simp add: rels_def)
  obtain comp where cp: "compress_uninit_range (al_init_mask src) ?r = Some comp" "encodes comp (alloc_inited src) s sz"
    using compress_encodes [of "al_init_mask src" ?r] D src(2) read(1) by auto
  have gb: "get_bytes_with_uninit_and_ptr cx ?r src = Some (Ok (take sz (drop s (al_bytes src))))"
    using get_bytes_with_uninit_and_ptr_eq [OF src(1), of ?r] src(2) read(1,4) by simp
  note facts = c mul read gb pr cp(1) mw
  show ?thesis
  proof (cases written)
    case (Err e)
    then have "res = Err e \<and> a' = ?dest" using facts by (auto simp: mem_copy_repeatedly_def Let_def)
    then show ?thesis using sh0 by simp
  next
    case (Ok u')
    have T: "ar_start ?T + ar_size ?T \<le> length (al_bytes ?dest)" using dest(2) by simp
    obtain res1 a1 where g: "get_bytes_mut_ptr P cx ?T ?dest = Some (res1, a1)"
      using facts Ok by (cases "get_bytes_mut_ptr P cx ?T ?dest", simp add: mem_copy_repeatedly_def Let_def) (metis surj_pair)
    note k = get_bytes_mut_ptr_keeps [OF sh0 T g]
    show ?thesis
    proof (cases res1)
      case Err1: (Err e)
      then have "\<not> is_Ok res \<and> a' = a1" using facts Ok g by (auto simp: mem_copy_repeatedly_def Let_def)
      then show ?thesis using k by (simp add: keeps_def)
    next
      case Ok1: (Ok p)
      have p: "p = (d, sz * n)" and R: "rel_map a1 = rel_map ?dest |` {k. \<not> overlaps cx ?T k}" using k Ok1 by simp_all
      have sh1: "alloc_shape cx a1" and len1: "length (al_bytes a1) = length (al_bytes dest)"
        and ok1: "alloc_ok cx dest \<longrightarrow> alloc_ok cx a1" using k Ok1 ok0 by (simp_all add: keeps_def)
      have T1: "ar_start ?T + ar_size ?T \<le> length (al_bytes a1)" using dest(2) len1 by simp
      let ?rd = "if src_id = dest_id then (\<lambda>t. drop s (al_bytes t)) else (\<lambda>_ :: ('tag, 'extra) allocation. take sz (drop s (al_bytes src)))"
      let ?bad = "if src_id = dest_id \<and> b then ranges_overlap s d sz else Some False"
      let ?fin = "do { t \<leftarrow> copy_loop ?rd d (sz * n) sz n a1;
        m \<leftarrow> mark_compressed_init_range comp \<lparr>ar_start = d, ar_size = sz\<rparr> n (al_init_mask t);
        mark_relocation_range rels (t\<lparr>al_init_mask := m\<rparr>) }"
      show ?thesis
      proof (cases "no_bytes_init comp")
        case True
        obtain res2 where w: "write_uninit P cx ?T a1 = Some (res2, a')" "is_Ok res \<longrightarrow> is_Ok res2"
          using facts Ok g Ok1 p True by (cases "write_uninit P cx ?T a1") (auto simp: mem_copy_repeatedly_def Let_def split: result.splits)
        from write_uninit_keeps [OF sh1 T1 w(1)] show ?thesis using w(2) len1 ok1 by (simp add: keeps_def)
      next
        case False
        have "sz \<le> length (?rd t)" if "length (al_bytes t) = length (al_bytes a1)" for t
          using that len1 same src(2) by auto
        then obtain a2 where a2: "?fin = Some a2" "alloc_shape cx a2" "length (al_bytes a2) = length (al_bytes a1)"
          "alloc_ok cx src \<and> alloc_ok cx a1 \<longrightarrow> alloc_ok cx a2"
          using finish_keeps [of cx src ?r n a1 d ?rd comp rels] src(1) read(1,2,4) sh1 T1 cleared_range(2) [OF R] cp(2) by (auto simp: rels_def)
        obtain bad where bad: "?bad = Some bad" using facts Ok g Ok1 p False by (cases ?bad) (simp_all add: mem_copy_repeatedly_def Let_def)
        have "mem_copy_repeatedly M P cx src_id src s dest_id dest d sz n b =
            (if bad then Some (Err (UB_Ub ''copy_nonoverlapping called on overlapping ranges''), a1)
             else do { a2 \<leftarrow> ?fin; Some (Ok (), a2) })"
          using facts(2-10) Ok g Ok1 p False by (simp add: mem_copy_repeatedly_def Let_def bad del: if_split)
        then show ?thesis using c a2 len1 ok1 sh1 by (auto split: if_splits)
      qed
    qed
  qed
qed

lemma mem_copy_inv:
  fixes dest :: "('tag, 'extra) allocation"
  assumes src: "alloc_shape cx src" "s + sz \<le> length (al_bytes src)" and dest: "alloc_shape cx dest" "d + sz * n \<le> length (al_bytes dest)"
    and same: "src_id = dest_id \<longrightarrow> src = dest"
    and c: "mem_copy_repeatedly M P cx src_id src s dest_id dest d sz n b = Some (res, a')"
  shows "alloc_shape cx a' \<and> length (al_bytes a') = length (al_bytes dest) \<and> (is_Ok res \<and> alloc_ok cx src \<and> alloc_ok cx dest \<longrightarrow> alloc_ok cx a')"
proof -
  let ?r = "\<lparr>ar_start = s, ar_size = sz\<rparr>"
  have mul: "size_mul sz n = Some (sz * n)" using dest(2) alloc_shapeD(3) [OF dest(1)] by (simp add: size_mul_def)
  have gb: "0 < sz \<Longrightarrow> get_bytes_with_uninit_and_ptr cx ?r src =
      Some (if edges_free cx ?r src then Ok (take sz (drop s (al_bytes src))) else Err ReadPointerAsBytes)"
    using get_bytes_with_uninit_and_ptr_eq [OF src(1), of ?r] src(2) by simp
  consider (early) "sz = 0 \<or> n = 0" | (hook) e where "0 < sz" "0 < n" "memory_read M (al_extra src) src_id ?r = Err e"
    | (edge) u where "0 < sz" "0 < n" "memory_read M (al_extra src) src_id ?r = Ok u" "\<not> edges_free cx ?r src"
    | (read) u where "0 < sz" "0 < n" "memory_read M (al_extra src) src_id ?r = Ok u" "edges_free cx ?r src"
    by (cases "memory_read M (al_extra src) src_id ?r") auto
  then show ?thesis
  proof cases
    case early
    then have "a' = dest" using c mul
      by (cases "sz = 0"; cases "memory_read M (al_extra src) src_id ?r") (auto simp: mem_copy_repeatedly_def Let_def)
    then show ?thesis using dest(1) by simp
  next
    case hook
    then show ?thesis using c mul dest(1) by (simp add: mem_copy_repeatedly_def)
  next
    case edge
    then show ?thesis using c mul gb dest(1) by (simp add: mem_copy_repeatedly_def)
  next
    case read
    then show ?thesis by (rule mem_copy_read_inv [OF src dest same _ _ _ _ c])
  qed
qed


section \<open>Conversion for a machine\<close>

lemma convert_loop_keeps:
  "convert_loop cx tagger rels st bytes new = Some (bytes', new', st') \<Longrightarrow> length bytes' = length bytes \<and> map fst new' = map fst new @ map fst rels"
proof (induction cx tagger rels st bytes new rule: convert_loop.induct)
  case (2 cx tagger idx alloc_id rels st bytes new)
  obtain ptr_bytes bits' where s: "slice bytes idx (idx + pointer_size cx) = Some ptr_bytes"
    "read_target_uint (dl_endian cx) ptr_bytes = Some bits'" using 2(2) by (auto simp: bind_eq_Some_conv)
  obtain ptr st1 where t: "tagger st \<lparr>ptr_offset = unat bits', provenance = alloc_id\<rparr> = (ptr, st1)" by fastforce
  obtain pb where w: "write_target_uint (dl_endian cx) ptr_bytes (of_nat (ptr_offset ptr)) = Some pb" "unat bits' < 2 ^ 64"
    "convert_loop cx tagger rels st1 (take idx bytes @ pb @ drop (idx + pointer_size cx) bytes) (new @ [(idx, provenance ptr)]) = Some (bytes', new', st')"
    using 2(2) s t by (auto simp: bind_eq_Some_conv split: if_splits)
  have "length bytes' = length (take idx bytes @ pb @ drop (idx + pointer_size cx) bytes) \<and>
      map fst new' = map fst (new @ [(idx, provenance ptr)]) @ map fst rels"
    using 2(1) [OF s(1,2) _ t [symmetric] refl w(1,3)] w(2) by simp
  moreover have "idx + pointer_size cx \<le> length bytes" "length pb = pointer_size cx"
    using s(1) write_target_uint_length [OF w(1)] by (auto simp: slice_eq_Some)
  ultimately show ?case by simp
qed simp

lemma convert_keeps:
  fixes a :: "('id, unit) allocation" and a' :: "('tag, 'extra) allocation"
  assumes a: "alloc_shape cx a" and c: "convert_tag_add_extra cx extra tagger st a = Some (a', st')"
  shows "alloc_shape cx a' \<and> (alloc_ok cx a \<longrightarrow> alloc_ok cx a') \<and> al_init_mask a' = al_init_mask a \<and> dom (rel_map a') = dom (rel_map a)"
proof -
  obtain bytes new rel where l: "convert_loop cx tagger (smap_data (relocations a)) st (al_bytes a) [] = Some (bytes, new, st')"
    "from_presorted_elements new = Some rel"
    "a' = \<lparr>al_bytes = bytes, relocations = rel, al_init_mask = al_init_mask a, al_align = al_align a, al_mutability = al_mutability a, al_extra = extra\<rparr>"
    using c by (auto simp: convert_tag_add_extra_def bind_eq_Some_conv)
  from convert_loop_keeps [OF l(1)] have k: "length bytes = length (al_bytes a)" "map fst new = map fst (smap_data (relocations a))" by simp_all
  have rel: "smap_data rel = new" "smap_inv rel" using l(2) by (auto simp: from_presorted_elements_def windows_ascending_iff smap_inv_def split: if_splits)
  have "dom (smap_map rel) = set (map fst new)" using rel(1) by (simp add: smap_map_def dom_map_of_conv_image_fst)
  also have "\<dots> = dom (rel_map a)" unfolding k(2) by (simp add: smap_map_def dom_map_of_conv_image_fst)
  finally have dom: "dom (smap_map rel) = dom (rel_map a)" .
  have "alloc_shape cx a'" using a rel(2) k(1) unfolding alloc_shape_def l(3) by (simp add: dom)
  then show ?thesis unfolding l(3) alloc_ok_def by (simp add: dom)
qed


section \<open>Reachable allocations\<close>

text \<open>
  The allocations of an interpreter, with what it may do to them; the accesses are in bounds, which is the caller's duty
  (\<open>allocation.rs\<close>). They stem from the global allocations \<open>G\<close>, from bytes or from fresh memory, converted for the
  machine with its \<open>tagger\<close>; \<open>M\<close> holds its hooks. The flag says that every write and copy the allocation depends on
  succeeded. After \<open>get_bytes_mut\<close> the caller fills the slice it got; a machine may change its extra data.
\<close>

inductive alloc_reach :: "provenance_consts \<Rightarrow> data_layout \<Rightarrow> ('id, unit) allocation set \<Rightarrow>
    ('s \<Rightarrow> 'id pointer \<Rightarrow> 'tag pointer \<times> 's) \<Rightarrow> ('extra, 'i, 'm) machine \<Rightarrow> bool \<Rightarrow> ('tag, 'extra) allocation \<Rightarrow> bool"
  for P cx G tagger M where
  reach_global: "a0 \<in> G \<Longrightarrow> convert_tag_add_extra cx extra tagger st a0 = Some (a, st') \<Longrightarrow> alloc_reach P cx G tagger M True a"
| reach_from_bytes: "from_bytes bs align mut = Some a0 \<Longrightarrow> length bs < 2 ^ 63 \<Longrightarrow>
    convert_tag_add_extra cx extra tagger st a0 = Some (a, st') \<Longrightarrow> alloc_reach P cx G tagger M True a"
| reach_uninit: "uninit mem n align b = Some (Ok a0) \<Longrightarrow> n < 2 ^ 63 \<Longrightarrow>
    convert_tag_add_extra cx extra tagger st a0 = Some (a, st') \<Longrightarrow> alloc_reach P cx G tagger M True a"
| reach_write_scalar: "alloc_reach P cx G tagger M ok a \<Longrightarrow> ar_start r + ar_size r \<le> length (al_bytes a) \<Longrightarrow> pointer_sized cx v \<Longrightarrow>
    write_scalar P cx r v a = Some (res, a') \<Longrightarrow> alloc_reach P cx G tagger M (ok \<and> is_Ok res) a'"
| reach_write_uninit: "alloc_reach P cx G tagger M ok a \<Longrightarrow> ar_start r + ar_size r \<le> length (al_bytes a) \<Longrightarrow>
    write_uninit P cx r a = Some (res, a') \<Longrightarrow> alloc_reach P cx G tagger M (ok \<and> is_Ok res) a'"
| reach_fill: "alloc_reach P cx G tagger M ok a \<Longrightarrow> ar_start r + ar_size r \<le> length (al_bytes a) \<Longrightarrow>
    get_bytes_mut P cx r a = Some (Ok old, a') \<Longrightarrow> length bs = ar_size r \<Longrightarrow>
    alloc_reach P cx G tagger M ok (put_bytes (ar_start r) bs a')"
| reach_fill_fails: "alloc_reach P cx G tagger M ok a \<Longrightarrow> ar_start r + ar_size r \<le> length (al_bytes a) \<Longrightarrow>
    get_bytes_mut P cx r a = Some (Err e, a') \<Longrightarrow> alloc_reach P cx G tagger M False a'"
| reach_copy: "alloc_reach P cx G tagger M ok src \<Longrightarrow> s + sz \<le> length (al_bytes src) \<Longrightarrow> alloc_reach P cx G tagger M ok' dest \<Longrightarrow>
    d + sz * n \<le> length (al_bytes dest) \<Longrightarrow> src_id = dest_id \<longrightarrow> src = dest \<Longrightarrow>
    mem_copy_repeatedly M P cx src_id src s dest_id dest d sz n b = Some (res, a') \<Longrightarrow>
    alloc_reach P cx G tagger M (ok \<and> ok' \<and> is_Ok res) a'"
| reach_hook: "alloc_reach P cx G tagger M ok a \<Longrightarrow> alloc_reach P cx G tagger M ok (a\<lparr>al_extra := extra\<rparr>)"
| reach_freeze: "alloc_reach P cx G tagger M ok a \<Longrightarrow> alloc_reach P cx G tagger M ok (a\<lparr>al_mutability := mut\<rparr>)"

lemma alloc_reach_inv:
  fixes G :: "('id, unit) allocation set"
  assumes "alloc_reach P cx G tagger M ok a" and G: "\<forall>g \<in> G. alloc_ok cx g" and ps: "0 < pointer_size cx" "pointer_size cx \<le> 8"
  shows "alloc_shape cx a \<and> (ok \<longrightarrow> alloc_ok cx a)"
  using assms(1)
proof induction
  case (reach_global a0 extra st a st')
  then have "alloc_ok cx a0" using G by blast
  then show ?case using convert_keeps [OF _ reach_global(2)] by (simp add: alloc_ok_def)
next
  case (reach_from_bytes bs align mut a0 extra st a st')
  obtain a1 :: "('id, unit) allocation" where "from_bytes bs align mut = Some a1" "alloc_ok cx a1" using from_bytes_ok [OF ps reach_from_bytes(2)] by blast
  then have "alloc_ok cx a0" using reach_from_bytes(1) by simp
  then show ?case using convert_keeps [OF _ reach_from_bytes(3)] by (simp add: alloc_ok_def)
next
  case (reach_uninit mem n align b a0 extra st a st')
  have "mem n" using reach_uninit(1) by (auto simp: uninit_def split: if_splits)
  from uninit_ok [of cx n mem, OF ps reach_uninit(2) this] obtain a1 :: "('id, unit) allocation" where
    "uninit mem n align b = Some (Ok a1)" "alloc_ok cx a1" by blast
  then have "alloc_ok cx a0" using reach_uninit(1) by simp
  then show ?case using convert_keeps [OF _ reach_uninit(3)] by (simp add: alloc_ok_def)
next
  case (reach_write_scalar ok a r v res a')
  then show ?case using write_scalar_inv [of cx a r v P res a'] by (auto simp: keeps_def)
next
  case (reach_write_uninit ok a r res a')
  then show ?case using write_uninit_keeps [of cx a r P res a'] by (auto simp: keeps_def)
next
  case (reach_fill ok a r old a' bs)
  let ?res = "Ok old :: (u8 list, alloc_error) result"
  have "keeps cx a ?res a'" using get_bytes_mut_keeps [of cx a r P ?res a'] reach_fill(2,3,5) by blast
  then have "keeps cx a ?res (put_bytes (ar_start r) bs a')" using reach_fill(2,4) by (intro put_bytes_keeps [where res = ?res]) simp_all
  then show ?case using reach_fill(5) by (auto simp: keeps_def)
next
  case (reach_fill_fails ok a r e a')
  then show ?case using get_bytes_mut_keeps [of cx a r P "Err e" a'] by (simp add: keeps_def)
next
  case (reach_copy ok src s sz ok' dest d n src_id dest_id b res a')
  then show ?case using mem_copy_inv [of cx src s sz dest d n src_id dest_id M P b res a'] by blast
qed (simp_all add: alloc_shape_def alloc_ok_def)


section \<open>The invariant\<close>

text \<open>C8: Whatever an interpreter does to its allocations, failed operations, failing hooks and copies that overlap their source
  included, the mask covers exactly the bytes of an allocation, its relocations are sorted, and its pointers lie inside it and
  do not overlap. As long as no write and no copy failed, all the bytes of its pointers are initialised.\<close>

theorem allocation_invariant:
  assumes "alloc_reach P cx G tagger M ok a" "\<forall>g \<in> G. alloc_ok cx g" "0 < pointer_size cx" "pointer_size cx \<le> 8"
  shows "mask_len (al_init_mask a) = length (al_bytes a) \<and> mask_len (al_init_mask a) \<le> length (blocks (al_init_mask a)) * 64 \<and>
    sorted_wrt (<) (map fst (smap_data (relocations a))) \<and>
    (\<forall>k \<in> dom (rel_map a). k + pointer_size cx \<le> length (al_bytes a)) \<and>
    (\<forall>k \<in> dom (rel_map a). \<forall>k' \<in> dom (rel_map a). k < k' \<longrightarrow> k + pointer_size cx \<le> k') \<and>
    (ok \<longrightarrow> (\<forall>k \<in> dom (rel_map a). {k..<k + pointer_size cx} \<subseteq> alloc_inited a))"
  using alloc_reach_inv [OF assms] by (simp add: alloc_ok_def alloc_shape_def mask_ok_def smap_inv_def WORD_BITS_def)

text \<open>
  The second part needs that nothing failed: \<open>write_uninit\<close> changes the mask before \<open>clear_relocations\<close> finds the pointer it
  would cut, and returns the error with the mask changed.
\<close>

lemma write_uninit_fails:
  assumes a: "alloc_shape cx a" "ar_start r + ar_size r \<le> length (al_bytes a)" "al_mutability a = Mut" "0 < ar_size r"
    and cut: "ERR_ON_PARTIAL_PTR_OVERWRITE P" "cut_off cx r a \<noteq> {}"
  shows "\<exists>k a'. write_uninit P cx r a = Some (Err (PartialPointerOverwrite k), a') \<and> k \<in> dom (rel_map a') \<and>
    \<not> {k..<k + pointer_size cx} \<subseteq> alloc_inited a'"
proof -
  obtain m where m: "alloc_mark_init r False a = Some (a\<lparr>al_init_mask := m\<rparr>)" "mask_ok m" "mask_len m = mask_len (al_init_mask a)"
    "inited m = alloc_inited a - {ar_start r..<ar_start r + ar_size r}"
    using alloc_mark_init_any [OF a(1,2), of False] a(3) by (auto simp: upd_def)
  let ?a = "a\<lparr>al_init_mask := m\<rparr>"
  have "alloc_shape cx ?a" "cut_off cx r ?a = cut_off cx r a" using a(1) m by (simp_all add: alloc_shape_def cut_off_def)
  from clear_relocations_err [OF this(1) _ cut(1), of r] cut(2) this(2) a(2) obtain k where
    k: "k \<in> dom (rel_map a)" "clear_relocations P cx r ?a = Some (Err (PartialPointerOverwrite k), ?a)" "overlaps cx r k" by auto
  have "max k (ar_start r) \<in> {k..<k + pointer_size cx} - inited m" using k(3) a(4) alloc_shapeD(1) [OF a(1)] m(4) by (auto simp: overlaps_def max_def)
  then have "\<not> {k..<k + pointer_size cx} \<subseteq> inited m" by blast
  then show ?thesis using m(1) k by (intro exI [of _ k] exI [of _ ?a]) (simp add: write_uninit_def)
qed

theorem allocation_invariant_witness:
  "\<exists>a. alloc_reach alloc_id_consts \<lparr>dl_endian = Little, pointer_size = 4\<rparr> {} (\<lambda>(s :: unit) (p :: string pointer). (p, s)) no_hooks True (a :: (string, unit) allocation) \<and>
     3 \<in> dom (rel_map a) \<and> {3..<7} \<subseteq> alloc_inited a \<and> mask_len (al_init_mask a) = length (al_bytes a)"
proof -
  let ?cx = "\<lparr>dl_endian = Little, pointer_size = 4\<rparr>" and ?r = "\<lparr>ar_start = 3, ar_size = 4\<rparr>"
    and ?s = "Ptr \<lparr>ptr_offset = 5, provenance = ''x''\<rparr> 4" and ?t = "\<lambda>(s :: unit) (p :: string pointer). (p, s)"
  obtain a0 :: "(string, unit) allocation" where a0: "uninit (\<lambda>_. True) 8 1 True = Some (Ok a0)" "alloc_ok ?cx a0"
    "al_bytes a0 = replicate 8 0" "al_mutability a0 = Mut" "rel_map a0 = Map.empty" using uninit_ok [of ?cx 8 "\<lambda>_. True" 1 True] by auto
  have data: "smap_data (relocations a0) = []" using a0(5) by (simp add: smap_map_def)
  obtain a where a: "convert_tag_add_extra ?cx () ?t () a0 = Some (a, ())" "al_bytes a = al_bytes a0" "al_mutability a = Mut" "rel_map a = Map.empty"
    using a0(4) data by (auto simp: convert_tag_add_extra_def from_presorted_elements_def smap_map_def)
  have ok: "alloc_ok ?cx a" using convert_keeps [OF _ a(1)] a0(2) by (simp add: alloc_ok_def)
  have r: "ar_start ?r + ar_size ?r \<le> length (al_bytes a)" "scalar_ok ?cx (ar_size ?r) ?s" using a(2) a0(3) by simp_all
  obtain a' where w: "write_scalar alloc_id_consts ?cx ?r (Scalar ?s) a = Some (Ok (), a')" "rel_map a' 3 = Some ''x''"
    using write_scalar_ok [OF ok r(1) a(3) _ r(2), of alloc_id_consts] a(4) by (auto simp: cut_off_def)
  have "alloc_reach alloc_id_consts ?cx {} ?t no_hooks True a" by (rule reach_uninit [OF a0(1) _ a(1)]) simp
  from reach_write_scalar [OF this r(1) _ w(1)] have reach: "alloc_reach alloc_id_consts ?cx {} ?t no_hooks True a'" by simp
  have dom: "3 \<in> dom (rel_map a')" using w(2) by blast
  have inv: "mask_len (al_init_mask a') = length (al_bytes a')" "\<forall>k \<in> dom (rel_map a'). {k..<k + 4} \<subseteq> alloc_inited a'"
    using allocation_invariant [OF reach] by simp_all
  have "{3..<7} \<subseteq> alloc_inited a'" using bspec [OF inv(2) dom] by simp
  then show ?thesis using reach dom inv(1) by (intro exI [of _ a']) simp
qed

end
