(* ===== verification/Spec2Isabelle.thy ===== *)
theory Spec2Isabelle
  imports Chunked_Bit_Set Interval_Set Finite_Bit_Set Lexer_Proofs Opaque_Proofs Transitive_Relation Sorted_Map
    Utf8_Count Utf8_Lossy Utf8_String Allocation_Reach
begin

text \<open>
  \<^bold>\<open>A verification of library code of the Rust compiler.\<close>

  The repository is the compiler with its standard library and tools. This development covers code the
  rest of the compiler stands on: the index sets, matrices and maps of the analyses, the lexer, the
  serializer of metadata and incremental caches, the memory of the compile-time interpreter, and the UTF-8 strings
  of the standard library. Paths below are under \<open>src/\<close>.

  \<^bold>\<open>How Rust is represented\<close> (theory \<open>Rust_Prelude\<close>). A function is a HOL function; \<open>&mut self\<close> returns the
  new value of \<open>self\<close> beside the result; \<open>None\<close> is a panic: a failed assertion (debug assertions included
  where a theory says so), an index out of bounds, an arithmetic underflow, \<open>unwrap\<close> of \<open>None\<close>. A Rust
  \<open>Option\<close> inside of it is a second \<open>option\<close>, a \<open>Result\<close> the datatype \<open>result\<close>. Accesses that the source makes
  unchecked are checked in the model, so a theorem that a function returns also says that it stays in bounds.
  Machine integers whose width matters are words; lengths and indices are \<open>nat\<close> with every subtraction
  checked; their sums and products are checked where the value may be large without a list of that length (ranges of
  allocations, sizes of domains), but not the number of the words of a \<open>BitMatrix\<close>, which exist in memory. Code of other packages is a record of functions with a locale of its documented laws, which some
  concrete instance is shown to satisfy. A loop is a recursive function with a termination proof, or, where
  ending depends on more than its arguments, a \<open>partial_function (option)\<close>, and then the theorems say that it
  returns.

  \<^bold>\<open>Index sets\<close> (\<open>compiler/rustc_index/src/bit_set.rs\<close>).
  \<^item> \<open>Bit_Words\<close>: vectors of 64-bit words, the mask arithmetic, \<open>BitIter\<close>, and \<open>bits\<close>, the set of indices that
    a vector stores.
  \<^item> \<open>Index_Set\<close>: the contract of the sets as locales (\<open>index_set\<close>, \<open>insertable_index_set\<close>,
    \<open>shrinkable_index_set\<close>, \<open>mutable_index_set\<close>); clients such as \<open>sequential_update\<close> and sequences of calls are
    proved against it.
  \<^item> \<open>Bit_Set\<close> (\<open>BitSet\<close>, \<open>GrowableBitSet\<close>), \<open>Sparse_Bit_Set\<close> and \<open>Hybrid_Bit_Set\<close> (up to eight elements in an
    \<open>ArrayVec\<close>, locale \<open>arrayvec_laws\<close>, then dense), \<open>Chunked_Bit_Set\<close> (2048 indices to a chunk, counts in
    \<open>u16\<close>), \<open>Finite_Bit_Set\<close> (one machine word): every operation computes the operation on sets of indices,
    keeps the invariant of its representation and reports changes truthfully. Domains are bounded by
    \<open>MAX_DOMAIN\<close>, 2^64 - 2049, where rounding up to words and to chunks does not overflow. The iterator of a chunked set
    is a loop with fuel of one more than the domain size, which is shown to be enough. This theory's
    \<open>representations_agree\<close> puts three of the representations together.
  \<^item> \<open>Bit_Matrix\<close>: \<open>BitMatrix\<close> and \<open>SparseBitMatrix\<close> as relations (locale \<open>bit_relation\<close>), over the operations of
    \<open>IndexVec\<close> (\<open>rustc_index/src/vec.rs\<close>).
  \<^item> \<open>Interval_Set\<close> (\<open>rustc_index/src/interval.rs\<close>): sets and matrices of intervals over a \<open>SmallVec\<close> (locale
    \<open>smallvec_laws\<close>), with the searches of \<open>library/core/src/slice/mod.rs\<close> in \<open>Slice_Search\<close>.

  \<^bold>\<open>Maps and relations\<close> (\<open>compiler/rustc_data_structures/src\<close>).
  \<^item> \<open>Transitive_Relation\<close> (\<open>transitive_relation.rs\<close>): base edges, a cached closure in a \<open>BitMatrix\<close>, and the queries
    on it, over an \<open>IndexSet\<close> (locale \<open>index_set_laws\<close>). The cache never goes stale, \<open>contains\<close> is the transitive
    closure, \<open>minimal_upper_bounds\<close> and \<open>parents\<close> are characterised exactly, and the two loops whose end is not
    obvious, the closure and the search for a postdominator, are shown to end, the second by the multiset
    order.
  \<^item> \<open>Sorted_Map\<close> (\<open>sorted_map.rs\<close>, \<open>sorted_map/index_map.rs\<close>): a sorted vector refines a partial map (locale
    \<open>insertable_map\<close>), ranges with their panics, bulk insertion, and the multi-map that keeps insertion order. The
    unstable sort is a parameter (locale \<open>unstable_sort_laws\<close>).

  \<^bold>\<open>Lexer\<close> (\<open>compiler/rustc_lexer/src\<close>).
  \<^item> \<open>Rust_Char\<close>: \<open>char\<close> as code points, digits, white space with the search of its compressed table, and the
    escapes of \<open>library/core/src/char\<close>.
  \<^item> \<open>Unescape\<close> (\<open>unescape.rs\<close>): escape sequences of all literal modes; the callbacks are the list of ranges and
    results. Ranges lie inside the literal in order, and nothing panics on texts of fewer than \<open>2 ^ 31\<close> characters, the
    bound of the digit counter.
  \<^item> \<open>Lexer\<close> (\<open>cursor.rs\<close>, \<open>lib.rs\<close>) and \<open>Lexer_Proofs\<close>: the cursor and every token; identifier and emoji tables are
    a parameter (locale \<open>unicode_laws\<close>). Tokens partition the text, raw strings end at the first terminator, and a
    literal printed by \<open>escape_default\<close> is read back.

  \<^bold>\<open>Serializer\<close> (\<open>compiler/rustc_serialize/src\<close>).
  \<^item> \<open>Leb128\<close> (\<open>leb128.rs\<close>): the four macros at any width.
  \<^item> \<open>Opaque\<close> (\<open>opaque.rs\<close>) and \<open>Opaque_Proofs\<close>: \<open>MemEncoder\<close>, \<open>FileEncoder\<close> and \<open>MemDecoder\<close>. The codecs enter by
    the locale \<open>leb_codec\<close>, the file by \<open>file_laws\<close>. What is encoded is decoded, the buffered file encoder
    writes what the memory encoder holds and delays errors to \<open>finish\<close>, and its write loops end if the file
    is interrupted finitely often.

  \<^bold>\<open>Interpreter\<close> (\<open>compiler/rustc_middle/src/mir/interpret/allocation.rs\<close>).
  \<^item> \<open>Init_Mask\<close>: \<open>InitMask\<close>, the bytes of an allocation that are initialised, as \<open>bits\<close> of its blocks. The block-wise
    \<open>find_bit_fast\<close> agrees with the bit-wise search, the chunks of a range are its maximal runs and the loop over them
    ends, updates change the positions they should (with the exception for empty ranges), \<open>check_init\<close> is exact, and the run-length encoding copies a
    part of a mask faithfully.
  \<^item> \<open>Allocation\<close> (also \<open>value.rs\<close>, \<open>pointer.rs\<close>, \<open>mod.rs\<close>, \<open>ty/consts/int.rs\<close>): allocations are bytes, a mask and a
    \<open>Sorted_Map\<close> of the pointers stored in them (relocations). Reads and writes of scalars in the byte order of the
    target: a written scalar is read back with its provenance, other ranges are left alone, and the errors are exact,
    with what they leave behind. \<open>alloc_ok\<close> is the invariant: pointers lie inside, do not overlap, and are initialised.
    Allocations have fewer than \<open>2 ^ 63\<close> bytes, as Rust objects do, and pointers at most 8 bytes.
  \<^item> \<open>Allocation_Copy\<close> (also \<open>rustc_const_eval/src/interpret/memory.rs\<close>): copying relocations, and \<open>mem_copy_repeatedly\<close>, which
    puts the mask, the bytes and the pointers together, from the point where the two allocations are found; the hooks
    of the machine are a record of functions. The exact result is given for copies that do not overwrite their own source.
  \<^item> \<open>Allocation_Reach\<close>: the allocations an interpreter can get by \<open>convert_tag_add_extra\<close> and these operations, failed
    operations, failing hooks and copies that overwrite their source included. Their shape is always right; that the bytes
    of pointers are initialised holds as long as no write or copy failed, and \<open>write_uninit_fails\<close> shows that this condition
    is needed.

  \<^bold>\<open>Strings\<close> (\<open>library/core/src/str\<close>, \<open>library/alloc/src/string.rs\<close>). A \<open>str\<close> is the list of its bytes; \<open>valid_utf8\<close>
  says that they are the encoding of some list of scalar values. \<open>usize\<close> has 64 bits and words are little-endian.
  \<^item> \<open>Utf8\<close> (\<open>validations.rs\<close>, \<open>char/methods.rs\<close>): encoding, decoding from both ends, and the validator with its
    word-parallel path for ASCII, for every alignment of the slice. The validator decides \<open>valid_utf8\<close> and its
    errors are exact.
  \<^item> \<open>Utf8_Str\<close> (\<open>mod.rs\<close>, \<open>traits.rs\<close>, \<open>iter.rs\<close>): character boundaries, indexing by ranges, and the iterators
    \<open>Chars\<close> and \<open>CharIndices\<close>, which are deques of characters (locale \<open>double_ended_iterator\<close>).
  \<^item> \<open>Utf8_Count\<close> (\<open>count.rs\<close>, \<open>align_to\<close> of \<open>slice/mod.rs\<close>): the count of characters over aligned words is the count of
    the bytes that start one; the binary gcd, whose loop has no bound in the source, ends.
  \<^item> \<open>Utf8_Lossy\<close> (\<open>lossy.rs\<close>, \<open>String::from_utf8_lossy\<close>): the second decoder agrees with the validator.
  \<^item> \<open>Utf8_String\<close> (\<open>string.rs\<close>): every operation of \<open>String\<close> that changes the text, with its unsafe copies, as an
    operation on a list of characters; where it panics; that \<open>retain\<close> is safe when its closure panics; and that
    the strings a program can make are exactly the valid ones.

  \<^bold>\<open>Not modelled.\<close> Formatting and hashing impls; the thin wrappers of \<open>Vec\<close> in \<open>IndexVec\<close>; capacity and
  reallocation; the reference counts behind copy-on-write; the map of the interpreter from ids to allocations; code generation back ends, which are bindings
  to external code; the type checker, the trait solver and the borrow checker, which need the whole query
  system and its interned types; and the tools around the compiler.
\<close>

section \<open>One client, every representation\<close>

text \<open>C1: Representation independence of the index sets: from the empty set over a domain, any sequence of
  \<open>insert\<close>, \<open>remove\<close> and \<open>contains\<close> calls gives the same answers on \<open>BitSet\<close>, \<open>HybridBitSet\<close> and
  \<open>ChunkedBitSet\<close> as on a mathematical set of indices, and panics on each of them exactly when some call of
  the sequence has an index outside the domain.\<close>

theorem representations_agree:
  assumes "arrayvec_laws A" "d \<le> MAX_DOMAIN"
  shows "\<exists>c. chunked_new_empty d = Some c \<and>
    map_option fst (run_ops (run_op bitset_contains bitset_insert bitset_remove) ps (bitset_new_empty d)) =
      map_option fst (run_ops (set_step d) ps {}) \<and>
    map_option fst (run_ops (run_op hybrid_contains (hybrid_insert A) (hybrid_remove A)) ps (hybrid_new_empty d)) =
      map_option fst (run_ops (set_step d) ps {}) \<and>
    map_option fst (run_ops (run_op chunked_contains chunked_insert chunked_remove) ps c) =
      map_option fst (run_ops (set_step d) ps {})"
proof -
  obtain c where c: "chunked_new_empty d = Some c" "chunked_inv c" "ch_domain_size c = d" "chunked_elems c = {}"
    using chunked_new_spec [OF assms(2), of True] by (auto simp: chunked_new_empty_def)
  show ?thesis
    using c dense.run_ops_answers [of "bitset_new_empty d" ps] chunked.run_ops_answers [of c ps]
      arrayvec_laws.hybrid_run_ops_answers [OF assms(1), of "hybrid_new_empty d" ps] assms(2) by simp
qed

theorem representations_agree_witness:
  "\<exists>c. chunked_new_empty 10 = Some c \<and>
    map_option fst (run_ops (run_op chunked_contains chunked_insert chunked_remove)
        [Insert 3, Insert 3, Contains 3, Remove 3, Contains 3] c) = Some [True, False, True, True, False] \<and>
    map_option fst (run_ops (run_op hybrid_contains (hybrid_insert list_arrayvec) (hybrid_remove list_arrayvec))
        [Insert 10] (hybrid_new_empty 10)) = None"
proof -
  have "map_option fst (run_ops (set_step 10) [Insert 3, Insert 3, Contains 3, Remove 3, Contains 3] {}) =
      Some [True, False, True, True, False]"
    "map_option fst (run_ops (set_step 10) [Insert 10] {}) = None" by simp_all
  then show ?thesis
    using representations_agree [OF list_av.arrayvec_laws_axioms, of 10
        "[Insert 3, Insert 3, Contains 3, Remove 3, Contains 3]"]
      representations_agree [OF list_av.arrayvec_laws_axioms, of 10 "[Insert 10]"] by auto
qed

end
